(* ===== verification/Rotelyx_Prelude.thy ===== *)
theory Rotelyx_Prelude
  imports Main "HOL-Library.Word" "HOL-Library.AList"
begin

unbundle bit_operations_syntax

text \<open>
  The prelude of the development: the machine types of the Rust sources, the arithmetic of the
  Rust standard library that the components use (saturating, checked and wrapping operations on
  unsigned integers), the big-endian byte encodings of \<^verbatim>\<open>to_be_bytes\<close> and
  \<^verbatim>\<open>from_be_bytes\<close>, the fallible result type, and the list and word lemmas that the
  component theories share.  Nothing here is specific to one component.
\<close>

named_theorems byte_simps \<open>lengths and inverses of byte encodings\<close>
named_theorems result_simps \<open>unfolding of fallible computations\<close>

section \<open>Machine types\<close>

type_synonym u8 = "8 word"
type_synonym u16 = "16 word"
type_synonym u32 = "32 word"
type_synonym u64 = "64 word"
type_synonym bytes = "8 word list"

text \<open>A fallible operation of the sources: \<^term>\<open>Inl\<close> carries the error, \<^term>\<open>Inr\<close> the value.\<close>

type_synonym ('e, 'a) result = "'e + 'a"

fun bind_result :: "('e, 'a) result \<Rightarrow> ('a \<Rightarrow> ('e, 'b) result) \<Rightarrow> ('e, 'b) result" where
  "bind_result (Inl e) f = Inl e"
| "bind_result (Inr a) f = f a"

fun map_err :: "('e \<Rightarrow> 'f) \<Rightarrow> ('e, 'a) result \<Rightarrow> ('f, 'a) result" where
  "map_err g (Inl e) = Inl (g e)"
| "map_err g (Inr a) = Inr a"

fun ok_or :: "'e \<Rightarrow> 'a option \<Rightarrow> ('e, 'a) result" where
  "ok_or e None = Inl e"
| "ok_or e (Some a) = Inr a"

lemma bind_result_Inr_iff [result_simps]:
  "bind_result r f = Inr b \<longleftrightarrow> (\<exists>a. r = Inr a \<and> f a = Inr b)"
  by (cases r) auto

lemma bind_result_Inl_iff [result_simps]:
  "bind_result r f = Inl e \<longleftrightarrow> r = Inl e \<or> (\<exists>a. r = Inr a \<and> f a = Inl e)"
  by (cases r) auto

lemma map_err_Inr_iff [result_simps]: "map_err g r = Inr a \<longleftrightarrow> r = Inr a"
  by (cases r) auto

lemma map_err_Inl_iff [result_simps]: "map_err g r = Inl e \<longleftrightarrow> (\<exists>d. r = Inl d \<and> e = g d)"
  by (cases r) auto

lemma ok_or_Inr_iff [result_simps]: "ok_or e x = Inr a \<longleftrightarrow> x = Some a"
  by (cases x) auto

lemma ok_or_Inl_iff [result_simps]: "ok_or e x = Inl d \<longleftrightarrow> x = None \<and> d = e"
  by (cases x) auto

lemma unat_eqI: "unat a = unat b \<Longrightarrow> a = b"
  by (simp add: word_unat_eq_iff)

text \<open>
  What a component hands out over a sequence of inputs: \<open>step\<close> moves the state, \<open>takes\<close> says what an
  input yields in the state it meets.
\<close>

primrec run_taken :: "('s \<Rightarrow> 'x \<Rightarrow> 's) \<Rightarrow> ('s \<Rightarrow> 'x \<Rightarrow> 'c option) \<Rightarrow> 's \<Rightarrow> 'x list \<Rightarrow> 'c list" where
  "run_taken step takes s [] = []"
| "run_taken step takes s (x # xs) =
     (case takes s x of None \<Rightarrow> [] | Some c \<Rightarrow> [c]) @ run_taken step takes (step s x) xs"

lemma unat_ucast: "unat (ucast (w :: 'a :: len word) :: 'b :: len word) = unat w mod 2 ^ LENGTH('b)"
  by (simp add: unsigned_ucast_eq take_bit_eq_mod)

lemma run_taken_map: "map f (run_taken step takes s xs) = run_taken step (\<lambda>s x. map_option f (takes s x)) s xs"
  by (induction xs arbitrary: s) (auto split: option.splits)

section \<open>Unsigned arithmetic of the Rust standard library\<close>

definition saturating_sub :: "'a::len word \<Rightarrow> 'a word \<Rightarrow> 'a word" where
  "saturating_sub a b = (if a < b then 0 else a - b)"

definition saturating_add :: "'a::len word \<Rightarrow> 'a word \<Rightarrow> 'a word" where
  "saturating_add a b = (if unat a + unat b < 2 ^ LENGTH('a) then a + b else - 1)"

definition checked_add :: "'a::len word \<Rightarrow> 'a word \<Rightarrow> 'a word option" where
  "checked_add a b = (if unat a + unat b < 2 ^ LENGTH('a) then Some (a + b) else None)"

definition checked_sub :: "'a::len word \<Rightarrow> 'a word \<Rightarrow> 'a word option" where
  "checked_sub a b = (if b \<le> a then Some (a - b) else None)"

definition abs_diff :: "'a::len word \<Rightarrow> 'a word \<Rightarrow> 'a word" where
  "abs_diff a b = (if a < b then b - a else a - b)"

lemma unat_sub_le: "b \<le> a \<Longrightarrow> unat (a - b) = unat a - unat (b :: 'a::len word)"
  by (simp add: unat_sub)

lemma unat_saturating_sub [simp]: "unat (saturating_sub a b) = unat a - unat b"
  by (auto simp: saturating_sub_def unat_sub word_less_nat_alt not_less word_le_nat_alt)

lemma unat_saturating_add:
  "unat (saturating_add a b) = min (unat a + unat b) (2 ^ LENGTH('a) - 1)"
  for a b :: "'a::len word"
  by (auto simp: saturating_add_def unat_word_ariths unsigned_minus_1_eq_mask mask_eq_exp_minus_1)

lemma checked_add_Some_iff:
  "checked_add a b = Some c \<longleftrightarrow> unat a + unat b < 2 ^ LENGTH('a) \<and> c = a + b"
  for a b c :: "'a::len word"
  by (auto simp: checked_add_def)

lemma checked_add_unat:
  "checked_add a b = Some c \<Longrightarrow> unat c = unat a + unat b"
  for a b c :: "'a::len word"
  by (auto simp: checked_add_def unat_word_ariths split: if_splits)

lemma unat_abs_diff: "unat (abs_diff a b) = (if unat a < unat b then unat b - unat a else unat a - unat b)"
  by (auto simp: abs_diff_def unat_sub word_less_nat_alt not_less word_le_nat_alt)

section \<open>Big-endian byte strings\<close>

text \<open>
  \<^verbatim>\<open>x.to_be_bytes()\<close> on an \<open>8 * n\<close> bit unsigned integer is \<open>be_bytes n (unat x)\<close>, and
  \<^verbatim>\<open>from_be_bytes\<close> is \<open>of_be\<close>.
\<close>

primrec be_bytes :: "nat \<Rightarrow> nat \<Rightarrow> bytes" where
  "be_bytes 0 x = []"
| "be_bytes (Suc n) x = be_bytes n (x div 256) @ [word_of_nat x]"

definition of_be :: "bytes \<Rightarrow> nat" where
  "of_be bs = foldl (\<lambda>acc b. acc * 256 + unat b) 0 bs"

definition u64_be :: "u64 \<Rightarrow> bytes" where
  "u64_be x = be_bytes 8 (unat x)"

definition u32_be :: "u32 \<Rightarrow> bytes" where
  "u32_be x = be_bytes 4 (unat x)"

definition u16_be :: "u16 \<Rightarrow> bytes" where
  "u16_be x = be_bytes 2 (unat x)"

lemma length_be_bytes [simp, byte_simps]: "length (be_bytes n x) = n"
  by (induction n arbitrary: x) auto

lemma u64_be_eval:
  "u64_be x = [word_of_nat (unat x div 72057594037927936), word_of_nat (unat x div 281474976710656),
     word_of_nat (unat x div 1099511627776), word_of_nat (unat x div 4294967296),
     word_of_nat (unat x div 16777216), word_of_nat (unat x div 65536),
     word_of_nat (unat x div 256), word_of_nat (unat x)]"
proof -
  have "8 = Suc (Suc (Suc (Suc (Suc (Suc (Suc (Suc 0)))))))" by simp
  then show ?thesis by (simp only: u64_be_def be_bytes.simps append.simps div_mult2_eq [symmetric]) simp
qed

lemma u32_be_eval:
  "u32_be x = [word_of_nat (unat x div 16777216), word_of_nat (unat x div 65536),
     word_of_nat (unat x div 256), word_of_nat (unat x)]"
proof -
  have "4 = Suc (Suc (Suc (Suc 0)))" by simp
  then show ?thesis by (simp only: u32_be_def be_bytes.simps append.simps div_mult2_eq [symmetric]) simp
qed

lemma length_u64_be [simp, byte_simps]: "length (u64_be x) = 8"
  by (simp add: u64_be_def)

lemma length_u32_be [simp, byte_simps]: "length (u32_be x) = 4"
  by (simp add: u32_be_def)

lemma length_u16_be [simp, byte_simps]: "length (u16_be x) = 2"
  by (simp add: u16_be_def)

lemma of_be_Nil [simp]: "of_be [] = 0"
  by (simp add: of_be_def)

lemma of_be_snoc [simp]: "of_be (bs @ [b]) = of_be bs * 256 + unat b"
  by (simp add: of_be_def)

lemma unat_byte_less [simp]: "unat (b :: u8) < 256"
  using unsigned_less [of b, where ?'a = nat] by simp

lemma of_be_less: "of_be bs < 256 ^ length bs"
proof (induction bs rule: rev_induct)
  case Nil
  then show ?case by simp
next
  case (snoc b bs)
  define P where "P = (256 :: nat) ^ length bs"
  from snoc have "of_be bs < P" by (simp add: P_def)
  moreover note unat_byte_less [of b]
  ultimately have "of_be bs * 256 + unat b < P * 256" by linarith
  then show ?case by (simp add: P_def mult.commute)
qed

lemma of_be_be_bytes [byte_simps]: "of_be (be_bytes n x) = x mod 256 ^ n"
proof (induction n arbitrary: x)
  case 0
  then show ?case by simp
next
  case (Suc n)
  have "x mod 256 ^ Suc n = 256 * (x div 256 mod 256 ^ n) + x mod 256"
    by (simp add: mod_mult2_eq)
  with Suc show ?case
    by (simp add: unat_of_nat mult.commute)
qed

lemma be_bytes_of_be [byte_simps]: "be_bytes (length bs) (of_be bs) = bs"
proof (induction bs rule: rev_induct)
  case Nil
  then show ?case by simp
next
  case (snoc b bs)
  have "(of_be bs * 256 + unat b) div 256 = of_be bs"
    by simp
  moreover have "word_of_nat (of_be bs * 256 + unat b) = b"
  proof -
    have "unat (word_of_nat (of_be bs * 256 + unat b) :: u8) = (of_be bs * 256 + unat b) mod 256"
      by (simp add: unat_of_nat del: of_nat_add of_nat_mult)
    also have "\<dots> = unat b" by simp
    finally show ?thesis by (rule unsigned_word_eqI)
  qed
  ultimately show ?case using snoc by simp
qed

lemma be_bytes_inj: "x < 256 ^ n \<Longrightarrow> y < 256 ^ n \<Longrightarrow> be_bytes n x = be_bytes n y \<Longrightarrow> x = y"
  by (metis of_be_be_bytes mod_less)

lemma unat_u64_less [simp]: "unat (x :: u64) < 18446744073709551616"
  using unsigned_less [of x, where ?'a = nat] by simp

lemma checked_add_1: "checked_add (x :: u64) 1 = (if x = - 1 then None else Some (x + 1))"
proof -
  have "unat x + 1 < 2 ^ 64 \<longleftrightarrow> x \<noteq> - 1"
    by (auto simp: unsigned_minus_1_eq_mask mask_eq_exp_minus_1 word_unat_eq_iff less_Suc_eq)
      (use unat_u64_less [of x] in \<open>linarith\<close>)
  then show ?thesis by (simp add: checked_add_def)
qed

lemma unat_u32_less [simp]: "unat (x :: u32) < 4294967296"
  using unsigned_less [of x, where ?'a = nat] by simp

lemma unat_u16_less [simp]: "unat (x :: u16) < 65536"
  using unsigned_less [of x, where ?'a = nat] by simp

lemma of_be_u64_be [simp, byte_simps]: "of_be (u64_be x) = unat x"
  by (simp add: u64_be_def of_be_be_bytes)

lemma of_be_u32_be [simp, byte_simps]: "of_be (u32_be x) = unat x"
  by (simp add: u32_be_def of_be_be_bytes)

lemma u64_be_inj [simp]: "u64_be x = u64_be y \<longleftrightarrow> x = y"
  by (metis of_be_u64_be unsigned_word_eqI)

lemma u64_be_of_be: "length bs = 8 \<Longrightarrow> u64_be (word_of_nat (of_be bs)) = bs"
  using be_bytes_of_be [of bs] of_be_less [of bs]
  by (simp add: u64_be_def unat_of_nat)

lemma u32_be_of_be: "length bs = 4 \<Longrightarrow> u32_be (word_of_nat (of_be bs)) = bs"
  using be_bytes_of_be [of bs] of_be_less [of bs]
  by (simp add: u32_be_def unat_of_nat)

lemma of_be_append: "of_be (xs @ ys) = of_be xs * 256 ^ length ys + of_be ys"
  by (induction ys rule: rev_induct) (auto simp: algebra_simps simp flip: append_assoc)

text \<open>A length-prefixed field cannot be moved into what follows it.\<close>

definition prefixed :: "bytes \<Rightarrow> bytes" where
  "prefixed bs = u64_be (word_of_nat (length bs)) @ bs"

lemma prefixed_append_eq:
  assumes "length a < 2 ^ 64" "length b < 2 ^ 64"
  shows "prefixed a @ x = prefixed b @ y \<longleftrightarrow> a = b \<and> x = y"
proof
  assume eq: "prefixed a @ x = prefixed b @ y"
  then have "word_of_nat (length a) = (word_of_nat (length b) :: u64)" and rest: "a @ x = b @ y"
    by (auto simp: prefixed_def)
  then have "unat (word_of_nat (length a) :: u64) = unat (word_of_nat (length b) :: u64)" by simp
  then have "length a = length b" using assms by (simp add: unat_of_nat)
  then show "a = b \<and> x = y" using rest by simp
qed simp

lemma fixed_append_eq: "length a = length b \<Longrightarrow> a @ x = b @ y \<longleftrightarrow> a = b \<and> x = y"
  by (rule append_eq_append_conv) simp

text \<open>\<^verbatim>\<open>b"..."\<close>, and \<^verbatim>\<open>read_exact\<close> on the bytes a stream will deliver before it ends.\<close>

abbreviation ascii :: "string \<Rightarrow> bytes" where
  "ascii s \<equiv> map (\<lambda>c. word_of_nat (of_char c)) s"

definition read_exact :: "nat \<Rightarrow> bytes \<Rightarrow> (bytes \<times> bytes) option" where
  "read_exact n bs = (if length bs < n then None else Some (take n bs, drop n bs))"

lemma read_exact_Some_iff: "read_exact n bs = Some (a, rest) \<longleftrightarrow> bs = a @ rest \<and> length a = n"
  by (auto simp: read_exact_def)

lemma read_exact_append [simp]: "length a = n \<Longrightarrow> read_exact n (a @ rest) = Some (a, rest)"
  by (simp add: read_exact_def)

text \<open>\<^verbatim>\<open>str::trim\<close> of ASCII text.\<close>

definition whitespace :: "char \<Rightarrow> bool" where
  "whitespace c \<longleftrightarrow> (of_char c :: nat) \<in> {9, 10, 11, 12, 13, 32}"

definition trim :: "string \<Rightarrow> string" where
  "trim s = rev (dropWhile whitespace (rev (dropWhile whitespace s)))"

lemma dropWhile_whitespace: "\<forall>c\<in>set s. \<not> whitespace c \<Longrightarrow> dropWhile whitespace s = s"
  by (cases s) auto

lemma trim_id: "\<forall>c\<in>set s. \<not> whitespace c \<Longrightarrow> trim s = s"
  using dropWhile_whitespace [of s] dropWhile_whitespace [of "rev s"] by (simp add: trim_def)

text \<open>\<^verbatim>\<open>str::from_utf8\<close>: the well-formed byte sequences of UTF-8.\<close>

definition continuation :: "u8 \<Rightarrow> bool" where
  "continuation b \<longleftrightarrow> 0x80 \<le> b \<and> b \<le> 0xBF"

fun utf8_valid :: "bytes \<Rightarrow> bool" where
  "utf8_valid [] = True"
| "utf8_valid (a # bs) =
     (if a < 0x80 then utf8_valid bs
      else if 0xC2 \<le> a \<and> a \<le> 0xDF then
        (case bs of b # rest \<Rightarrow> continuation b \<and> utf8_valid rest | _ \<Rightarrow> False)
      else if 0xE0 \<le> a \<and> a \<le> 0xEF then
        (case bs of b # c # rest \<Rightarrow>
           continuation b \<and> (a = 0xE0 \<longrightarrow> 0xA0 \<le> b) \<and> (a = 0xED \<longrightarrow> b \<le> 0x9F) \<and> continuation c \<and> utf8_valid rest
         | _ \<Rightarrow> False)
      else if 0xF0 \<le> a \<and> a \<le> 0xF4 then
        (case bs of b # c # d # rest \<Rightarrow>
           continuation b \<and> (a = 0xF0 \<longrightarrow> 0x90 \<le> b) \<and> (a = 0xF4 \<longrightarrow> b \<le> 0x8F) \<and>
           continuation c \<and> continuation d \<and> utf8_valid rest
         | _ \<Rightarrow> False)
      else False)"

text \<open>The accumulator loop \<^verbatim>\<open>acc = (acc << 8) | byte\<close> on a \<^typ>\<open>u64\<close> reads a big-endian value.\<close>

definition shift_in :: "u64 \<Rightarrow> u8 \<Rightarrow> u64" where
  "shift_in acc b = push_bit 8 acc OR ucast b"

lemma push_or_byte: "push_bit 8 acc OR ucast b = acc * 256 + (ucast (b :: u8) :: 'a :: len word)"
proof -
  have "push_bit 8 acc AND ucast b = (0 :: 'a word)"
    by (rule bit_word_eqI) (auto simp: bit_simps dest: bit_imp_le_length)
  then have "push_bit 8 acc OR ucast b = push_bit 8 acc + ucast b"
    by (simp add: disjunctive_add bit_eq_iff bit_simps)
  then show ?thesis by (simp add: push_bit_eq_mult mult.commute)
qed

lemma shift_in_eq: "shift_in acc b = acc * 256 + ucast b"
  by (simp add: shift_in_def push_or_byte)

lemma foldl_shift_in: "foldl shift_in (word_of_nat a) bs = word_of_nat (foldl (\<lambda>acc b. acc * 256 + unat b) a bs)"
proof (induction bs arbitrary: a)
  case Nil
  then show ?case by simp
next
  case (Cons b bs)
  have "shift_in (word_of_nat a) b = word_of_nat (a * 256 + unat b)"
    by (simp add: shift_in_eq)
  then show ?case using Cons by (simp del: of_nat_add of_nat_mult)
qed

lemma foldl_shift_in_of_be: "foldl shift_in 0 bs = word_of_nat (of_be bs)"
  using foldl_shift_in [of 0 bs] by (simp add: of_be_def)

section \<open>Searching and keyed lists\<close>

text \<open>Index of the first element that satisfies a predicate: Rust's \<^verbatim>\<open>iter().position\<close>.\<close>

fun index_where :: "('a \<Rightarrow> bool) \<Rightarrow> 'a list \<Rightarrow> nat option" where
  "index_where p [] = None"
| "index_where p (x # xs) = (if p x then Some 0 else map_option Suc (index_where p xs))"

lemma position_None_iff: "index_where p xs = None \<longleftrightarrow> (\<forall>x\<in>set xs. \<not> p x)"
  by (induction xs) auto

lemma position_Some_less: "index_where p xs = Some i \<Longrightarrow> i < length xs"
  by (induction xs arbitrary: i) (auto split: if_splits)

lemma position_Some_take: "index_where p xs = Some i \<Longrightarrow> \<forall>x\<in>set (take i xs). \<not> p x"
  by (induction xs arbitrary: i) (auto split: if_splits)

lemma position_Some_nth: "index_where p xs = Some i \<Longrightarrow> p (xs ! i)"
  by (induction xs arbitrary: i) (auto split: if_splits)

lemma set_delete_subset: "set (AList.delete k m) \<subseteq> set m"
  by (auto simp: AList.delete_eq)

lemma set_update_subset: "set (AList.update k v m) \<subseteq> insert (k, v) (set m)"
  by (induction m) auto

section \<open>Marker padding\<close>

text \<open>
  \<^verbatim>\<open>iter().rposition(|b| b != 0)\<close> and the split at that place: what precedes the last byte that is
  not zero, and that byte.
\<close>

definition split_last_nonzero :: "bytes \<Rightarrow> (bytes \<times> u8) option" where
  "split_last_nonzero bs =
     (case dropWhile (\<lambda>b. b = 0) (rev bs) of [] \<Rightarrow> None | b # rest \<Rightarrow> Some (rev rest, b))"

lemma dropWhile_replicate_zero: "dropWhile (\<lambda>b. b = 0) (replicate n 0 @ xs) = dropWhile (\<lambda>b. b = 0) xs"
  by (induction n) auto

lemma split_last_nonzero_marked [simp]:
  "m \<noteq> 0 \<Longrightarrow> split_last_nonzero (bs @ m # replicate n 0) = Some (bs, m)"
  by (simp add: split_last_nonzero_def dropWhile_replicate_zero)

lemma split_last_nonzero_iff:
  "split_last_nonzero plain = Some (bs, m) \<longleftrightarrow> m \<noteq> 0 \<and> (\<exists>n. plain = bs @ m # replicate n 0)"
proof
  assume sp: "split_last_nonzero plain = Some (bs, m)"
  then have dw: "dropWhile (\<lambda>b. b = 0) (rev plain) = m # rev bs"
    by (auto simp: split_last_nonzero_def split: list.splits)
  have m: "m \<noteq> 0" using hd_dropWhile [of "\<lambda>b. b = 0" "rev plain"] dw by simp
  let ?z = "takeWhile (\<lambda>b. b = 0) (rev plain)"
  have "?z = replicate (length ?z) 0"
    by (rule replicate_eqI) (auto dest: set_takeWhileD)
  moreover have "rev plain = ?z @ m # rev bs"
    using takeWhile_dropWhile_id [of "\<lambda>b. b = 0" "rev plain"] dw by simp
  ultimately have "rev plain = replicate (length ?z) 0 @ m # rev bs" by simp
  then have "plain = rev (replicate (length ?z) 0 @ m # rev bs)" by (simp flip: rev_swap)
  then show "m \<noteq> 0 \<and> (\<exists>n. plain = bs @ m # replicate n 0)" using m by auto
qed auto

lemma split_last_nonzero_None_iff: "split_last_nonzero plain = None \<longleftrightarrow> (\<forall>b\<in>set plain. b = 0)"
proof (cases "dropWhile (\<lambda>b. b = 0) (rev plain)")
  case Nil
  have "split_last_nonzero plain = None" unfolding split_last_nonzero_def Nil by simp
  moreover have "\<forall>b\<in>set (rev plain). b = 0" using Nil by (rule dropWhile_eq_Nil_conv [THEN iffD1])
  ultimately show ?thesis by simp
next
  case (Cons b rest)
  have "\<not> (\<forall>b\<in>set (rev plain). b = 0)"
  proof
    assume "\<forall>b\<in>set (rev plain). b = 0"
    then have "dropWhile (\<lambda>b. b = 0) (rev plain) = []" by (rule dropWhile_eq_Nil_conv [THEN iffD2])
    from trans [OF this [symmetric] Cons] show False by simp
  qed
  then show ?thesis using Cons by (simp add: split_last_nonzero_def)
qed

section \<open>Authenticated encryption\<close>

text \<open>A keyed or domain-separated hash of a third-party crate: key or context, then message.\<close>

type_synonym hash = "bytes \<Rightarrow> bytes \<Rightarrow> bytes"

text \<open>
  The AEAD ciphers come from third-party crates: functions from key, nonce, associated data and
  message.  What the code relies on is that opening a sealed message under the same key, nonce and
  associated data gives it back, and that sealing adds a sixteen-byte tag.
\<close>

type_synonym aead_enc = "bytes \<Rightarrow> bytes \<Rightarrow> bytes \<Rightarrow> bytes \<Rightarrow> bytes option"
type_synonym aead_dec = "bytes \<Rightarrow> bytes \<Rightarrow> bytes \<Rightarrow> bytes \<Rightarrow> bytes option"

definition aead_opens :: "aead_enc \<Rightarrow> aead_dec \<Rightarrow> bool" where
  "aead_opens enc dec \<longleftrightarrow> (\<forall>k n a m c. enc k n a m = Some c \<longrightarrow> dec k n a c = Some m)"

definition aead_grows :: "aead_enc \<Rightarrow> bool" where
  "aead_grows enc \<longleftrightarrow> (\<forall>k n a m c. enc k n a m = Some c \<longrightarrow> length c = length m + 16)"

text \<open>
  A concrete pair of functions with that behaviour, for the instances in the component theories:
  sixteen zero bytes are appended and taken off again.
\<close>

definition sample_enc :: aead_enc where
  "sample_enc k n a m = Some (m @ replicate 16 0)"

definition sample_dec :: aead_dec where
  "sample_dec k n a c = Some (take (length c - 16) c)"

lemma sample_aead: "aead_opens sample_enc sample_dec" "aead_grows sample_enc"
  by (simp_all add: aead_opens_def aead_grows_def sample_enc_def sample_dec_def)

text \<open>
  The associated data is authenticated: a sealed message does not open beside any other.  An instance that
  carries the associated data along shows the law can hold.
\<close>

definition aead_binds :: "aead_enc \<Rightarrow> aead_dec \<Rightarrow> bool" where
  "aead_binds enc dec \<longleftrightarrow> (\<forall>k n a m c a'. enc k n a m = Some c \<longrightarrow> a' \<noteq> a \<longrightarrow> dec k n a' c = None)"

lemma aead_opensD: "aead_opens enc dec \<Longrightarrow> enc k n a m = Some c \<Longrightarrow> dec k n a c = Some m"
  unfolding aead_opens_def by blast

lemma aead_bindsD: "aead_binds enc dec \<Longrightarrow> enc k n a m = Some c \<Longrightarrow> a' \<noteq> a \<Longrightarrow> dec k n a' c = None"
  unfolding aead_binds_def by blast

definition carry_enc :: aead_enc where
  "carry_enc k n a m = (if length a < 2 ^ 64 then Some (prefixed a @ m) else None)"

definition carry_dec :: aead_dec where
  "carry_dec k n a c =
     (if length a < 2 ^ 64 \<and> take (length (prefixed a)) c = prefixed a then Some (drop (length (prefixed a)) c) else None)"

lemma carry_aead: "aead_opens carry_enc carry_dec" "aead_binds carry_enc carry_dec"
proof -
  have "a' = a" if "length a < 2 ^ 64" "length a' < 2 ^ 64"
    "take (length (prefixed a')) (prefixed a @ m) = prefixed a'" for a a' m
  proof -
    have "prefixed a @ m = prefixed a' @ drop (length (prefixed a')) (prefixed a @ m)"
      using that(3) append_take_drop_id by metis
    then show ?thesis using prefixed_append_eq [OF that(1,2)] by blast
  qed
  then show "aead_binds carry_enc carry_dec"
    by (auto simp: aead_binds_def carry_enc_def carry_dec_def split: if_splits)
  show "aead_opens carry_enc carry_dec"
    by (auto simp: aead_opens_def carry_enc_def carry_dec_def split: if_splits)
qed

text \<open>
  A sealed message opens under nothing but the key, nonce and associated data it was sealed under (the ciphers
  are committing, an idealisation).  The instance carries all three along.
\<close>

definition aead_commits :: "aead_enc \<Rightarrow> aead_dec \<Rightarrow> bool" where
  "aead_commits enc dec \<longleftrightarrow> (\<forall>k n a m c k' n' a'. enc k n a m = Some c \<longrightarrow> (k', n', a') \<noteq> (k, n, a) \<longrightarrow> dec k' n' a' c = None)"

lemma aead_commitsD:
  "aead_commits enc dec \<Longrightarrow> enc k n a m = Some c \<Longrightarrow> dec k' n' a' c = Some m' \<Longrightarrow> k' = k \<and> n' = n \<and> a' = a"
  unfolding aead_commits_def by (metis option.distinct(1) prod.inject)

definition fits_all :: "bytes \<Rightarrow> bytes \<Rightarrow> bytes \<Rightarrow> bool" where
  "fits_all k n a \<longleftrightarrow> length k < 2 ^ 60 \<and> length n < 2 ^ 60 \<and> length a < 2 ^ 60"

definition commit_enc :: aead_enc where
  "commit_enc k n a m = (if fits_all k n a then carry_enc [] [] (prefixed k @ prefixed n @ a) m else None)"

definition commit_dec :: aead_dec where
  "commit_dec k n a c = (if fits_all k n a then carry_dec [] [] (prefixed k @ prefixed n @ a) c else None)"

lemma commit_aead: "aead_opens commit_enc commit_dec" "aead_commits commit_enc commit_dec"
proof -
  show "aead_opens commit_enc commit_dec"
    using carry_aead(1) by (auto simp: aead_opens_def commit_enc_def commit_dec_def split: if_splits)
  have "prefixed k @ prefixed n @ a = prefixed k' @ prefixed n' @ a' \<longleftrightarrow> k = k' \<and> n = n' \<and> a = a'"
    if "fits_all k n a" "fits_all k' n' a'" for k n a k' n' a'
    using that prefixed_append_eq [of k k'] prefixed_append_eq [of n n'] by (auto simp: fits_all_def)
  then show "aead_commits commit_enc commit_dec"
    using aead_bindsD [OF carry_aead(2)]
    by (fastforce simp: aead_commits_def commit_enc_def commit_dec_def split: if_splits)
qed

text \<open>A printable encoding of bytes, an instance of the Base64 the code takes from a crate.\<close>

definition sample_text :: "bytes \<Rightarrow> string" where
  "sample_text bs = concat (map (\<lambda>b. [char_of (97 + unat b div 16), char_of (97 + unat b mod 16)]) bs)"

fun sample_untext :: "string \<Rightarrow> bytes option" where
  "sample_untext [] = Some []"
| "sample_untext [c] = None"
| "sample_untext (c # d # cs) =
     map_option ((#) (word_of_nat ((of_char c - 97) * 16 + (of_char d - 97)))) (sample_untext cs)"

lemma sample_text_back: "sample_untext (trim (sample_text bs)) = Some bs"
proof -
  have nib: "unat (b :: u8) div 16 < 16" "unat b mod 16 < 16" for b
    using unat_byte_less [of b] by (auto simp: less_mult_imp_div_less)
  have "\<not> whitespace (char_of (97 + n))" if "n < 16" for n :: nat
    using that by (simp add: whitespace_def)
  then have "trim (sample_text bs) = sample_text bs"
    using nib by (intro trim_id) (auto simp: sample_text_def)
  moreover have "sample_untext (sample_text bs) = Some bs"
  proof (induction bs)
    case (Cons b bs)
    have "word_of_nat (unat b div 16 * 16 + unat b mod 16) = b"
      by (simp del: of_nat_add of_nat_mult)
    then show ?case using Cons nib [of b] by (simp add: sample_text_def del: of_nat_add of_nat_mult)
  qed (simp add: sample_text_def)
  ultimately show ?thesis by simp
qed

lemma update_new_key: "k \<notin> fst ` set m \<Longrightarrow> AList.update k d m = m @ [(k, d)]"
  by (induction m) auto

end
