(* ===== verification/Replay_Filter.thy ===== *)
theory Replay_Filter
  imports Rotelyx_Prelude
begin

text \<open>
  What a filter against repeats promises its client, whatever it filters: the frames of a call, the nonces of a sender, the
  sequence numbers of a group member.
\<close>

section \<open>The contract of a replay filter\<close>

text \<open>
  \<open>repr s A\<close>: the state \<open>s\<close> remembers at least the identifiers in \<open>A\<close>.  An input that is taken is
  taken under an identifier that is not remembered, and is remembered afterwards.
\<close>

locale replay_filter =
  fixes step :: "'s \<Rightarrow> 'x \<Rightarrow> 's"
    and takes :: "'s \<Rightarrow> 'x \<Rightarrow> 'c option"
    and repr :: "'s \<Rightarrow> 'c set \<Rightarrow> bool"
  assumes skipped_input: "repr s A \<Longrightarrow> takes s x = None \<Longrightarrow> repr (step s x) A"
    and taken_fresh: "repr s A \<Longrightarrow> takes s x = Some c \<Longrightarrow> c \<notin> A"
    and taken_input: "repr s A \<Longrightarrow> takes s x = Some c \<Longrightarrow> repr (step s x) (insert c A)"
begin

lemma taken_once: "repr s A \<Longrightarrow> distinct (run_taken step takes s xs) \<and> set (run_taken step takes s xs) \<inter> A = {}"
proof (induction xs arbitrary: s A)
  case Nil
  then show ?case by simp
next
  case (Cons x xs)
  show ?case
  proof (cases "takes s x")
    case None
    then show ?thesis using Cons.IH [OF skipped_input [OF Cons.prems None]] by simp
  next
    case (Some c)
    have "distinct (run_taken step takes (step s x) xs)"
      "set (run_taken step takes (step s x) xs) \<inter> insert c A = {}"
      using Cons.IH [OF taken_input [OF Cons.prems Some]] by blast+
    then show ?thesis using taken_fresh [OF Cons.prems Some] Some by auto
  qed
qed

end

end
