(* ===== verification/Media_Frame.thy ===== *)
theory Media_Frame
  imports Rotelyx_Prelude
begin

text \<open>
  Frame protection of a call, the sending half of \<^verbatim>\<open>crates/rotelyx-media/src/lib.rs\<close>: the
  call binding, the per-sender keys, the nonce, the variable-length frame header, the padding of
  a frame, and the \<^verbatim>\<open>Sender\<close> with its counter.  HKDF and ChaCha20-Poly1305 come from
  third-party crates and are parameters: \<open>hkdf salt ikm info n\<close> is the \<open>n\<close>-byte expansion,
  \<open>enc key nonce aad msg\<close> the sealed message (\<^term>\<open>None\<close> for the error the crate may return).
\<close>

unbundle bit_operations_syntax

section \<open>Constants and errors\<close>

definition TAG_LEN :: nat where "TAG_LEN = 16"
definition NONCE_LEN :: nat where "NONCE_LEN = 12"
definition MAX_SENDERS :: nat where "MAX_SENDERS = 32"
definition MIN_HEADER_LEN :: nat where "MIN_HEADER_LEN = 2"
definition PAD_MARKER_LEN :: nat where "PAD_MARKER_LEN = 1"
definition PAD_MARKER :: u8 where "PAD_MARKER = 0x80"
definition CALL_BINDING_MIN_BYTES :: nat where "CALL_BINDING_MIN_BYTES = 8"

definition KEY_INFO :: bytes where
  "KEY_INFO = map (\<lambda>c. word_of_nat (of_char c)) ''rotelyx media key v1''"

definition SALT_INFO :: bytes where
  "SALT_INFO = map (\<lambda>c. word_of_nat (of_char c)) ''rotelyx media salt v1''"

lemmas media_consts =
  TAG_LEN_def NONCE_LEN_def MAX_SENDERS_def MIN_HEADER_LEN_def PAD_MARKER_LEN_def PAD_MARKER_def
  CALL_BINDING_MIN_BYTES_def

datatype media_error =
    Truncated
  | BadTag
  | WrongSender u8 u8
  | Replay u64
  | CounterExhausted
  | SenderOutOfRange u8
  | CallBindingTooShort nat nat

section \<open>Call binding and sender keys\<close>

definition call_binding_new :: "bytes \<Rightarrow> (media_error, bytes) result" where
  "call_binding_new bs =
     (if length bs < CALL_BINDING_MIN_BYTES
      then Inl (CallBindingTooShort CALL_BINDING_MIN_BYTES (length bs))
      else Inr bs)"

record sender_keys =
  sk_id :: u8
  sk_key :: bytes
  sk_salt :: bytes

definition derive :: "(bytes \<Rightarrow> bytes \<Rightarrow> bytes \<Rightarrow> nat \<Rightarrow> bytes) \<Rightarrow> bytes \<Rightarrow> u8 \<Rightarrow> bytes \<Rightarrow> sender_keys" where
  "derive hkdf base sender call =
     \<lparr> sk_id = sender,
       sk_key = hkdf [sender] base (KEY_INFO @ call) 32,
       sk_salt = hkdf [sender] base (SALT_INFO @ call) NONCE_LEN \<rparr>"

text \<open>The salt, with its last eight bytes exclusive-ored with the counter.\<close>

definition nonce :: "sender_keys \<Rightarrow> u64 \<Rightarrow> bytes" where
  "nonce k counter =
     take (NONCE_LEN - 8) (sk_salt k) @
     map2 (XOR) (drop (NONCE_LEN - 8) (sk_salt k)) (u64_be counter)"

section \<open>The frame header\<close>

definition header :: "sender_keys \<Rightarrow> u64 \<Rightarrow> bytes" where
  "header k counter =
     (let significant = u64_be counter;
          first = (case index_where (\<lambda>b. b \<noteq> 0) significant of
                     Some i \<Rightarrow> i | None \<Rightarrow> length significant - 1);
          bs = drop first significant
      in (push_bit 5 (word_of_nat (length bs) - 1) OR sk_id k) # bs)"

definition parse_header :: "bytes \<Rightarrow> (media_error, u8 \<times> u64 \<times> nat) result" where
  "parse_header frame =
     (if length frame < MIN_HEADER_LEN then Inl Truncated
      else
        let config = frame ! 0;
            sender = config AND 31;
            counter_len = unat (drop_bit 5 config) + 1;
            header_len = 1 + counter_len
        in if length frame < header_len then Inl Truncated
           else Inr (sender, foldl shift_in 0 (take counter_len (drop 1 frame)), header_len))"

definition claimed_sender :: "bytes \<Rightarrow> (media_error, u8) result" where
  "claimed_sender frame = bind_result (parse_header frame) (\<lambda>(sender, _, _). Inr sender)"

section \<open>Padding\<close>

definition pad :: "bytes \<Rightarrow> nat option \<Rightarrow> bytes" where
  "pad frame to =
     (let target = max (case to of Some n \<Rightarrow> n | None \<Rightarrow> 0) (length frame + PAD_MARKER_LEN);
          out = frame @ [PAD_MARKER]
      in out @ replicate (target - length out) 0)"

text \<open>\<^verbatim>\<open>rposition\<close> from the end: strip the zeros, then look at what is last.\<close>

definition unpad :: "bytes \<Rightarrow> (media_error, bytes) result" where
  "unpad plain =
     (case split_last_nonzero plain of
        None \<Rightarrow> Inl Truncated
      | Some (front, b) \<Rightarrow> if b \<noteq> PAD_MARKER then Inl Truncated else Inr front)"

section \<open>The sender\<close>

record sender =
  s_keys :: sender_keys
  s_counter :: u64
  s_exhausted :: bool
  s_pad_to :: "nat option"

definition sender_new :: "sender_keys \<Rightarrow> (media_error, sender) result" where
  "sender_new k =
     (if MAX_SENDERS \<le> unat (sk_id k) then Inl (SenderOutOfRange (sk_id k))
      else Inr \<lparr> s_keys = k, s_counter = 0, s_exhausted = False, s_pad_to = None \<rparr>)"

definition frames_sent :: "sender \<Rightarrow> u64" where
  "frames_sent s = s_counter s"

definition overhead :: "sender \<Rightarrow> nat" where
  "overhead s = length (header (s_keys s) (s_counter s)) + TAG_LEN + PAD_MARKER_LEN"

definition set_pad_to :: "sender \<Rightarrow> nat option \<Rightarrow> sender" where
  "set_pad_to s n = s\<lparr>s_pad_to := n\<rparr>"

definition payload_budget :: "sender \<Rightarrow> nat \<Rightarrow> nat" where
  "payload_budget s datagram_bytes = datagram_bytes - overhead s"

definition advance :: "sender \<Rightarrow> sender" where
  "advance s = (case checked_add (s_counter s) 1 of
                  Some next \<Rightarrow> s\<lparr>s_counter := next\<rparr>
                | None \<Rightarrow> s\<lparr>s_exhausted := True\<rparr>)"

definition protect :: "aead_enc \<Rightarrow> sender \<Rightarrow> bytes \<Rightarrow> sender \<times> (media_error, bytes) result" where
  "protect enc s frame =
     (if s_exhausted s then (s, Inl CounterExhausted)
      else
        let counter = s_counter s;
            s' = advance s;
            hd = header (s_keys s) counter;
            padded = pad frame (s_pad_to s)
        in (s', case enc (sk_key (s_keys s)) (nonce (s_keys s) counter) hd padded of
                  None \<Rightarrow> Inl BadTag
                | Some sealed \<Rightarrow> Inr (hd @ sealed)))"

section \<open>Headers round-trip\<close>

text \<open>How many leading zero bytes the header leaves out: at most seven.\<close>

definition skipped :: "u64 \<Rightarrow> nat" where
  "skipped counter = (case index_where (\<lambda>b. b \<noteq> 0) (u64_be counter) of Some i \<Rightarrow> i | None \<Rightarrow> 7)"

lemma skipped_le: "skipped c \<le> 7"
  using position_Some_less [of "\<lambda>b. b \<noteq> 0" "u64_be c"]
  by (auto simp: skipped_def less_Suc_eq_le split: option.splits)

lemma header_eq:
  "header k c = (push_bit 5 (word_of_nat (7 - skipped c)) OR sk_id k) # drop (skipped c) (u64_be c)"
proof -
  have "word_of_nat (8 - skipped c) - 1 = (word_of_nat (7 - skipped c) :: u8)"
    using skipped_le [of c] by simp
  then show ?thesis
    by (cases "index_where (\<lambda>b. b \<noteq> 0) (u64_be c)") (simp_all add: header_def skipped_def Let_def)
qed

lemma length_header: "length (header k c) = 9 - skipped c"
  using skipped_le [of c] by (simp add: header_eq)

lemma header_length_bounds: "2 \<le> length (header k c) \<and> length (header k c) \<le> 9"
  using skipped_le [of c] by (simp add: length_header)

lemma foldl_zeros: "\<forall>b\<in>set bs. b = 0 \<Longrightarrow> foldl (\<lambda>acc b. acc * 256 + unat b) 0 (bs @ cs) = of_be cs"
  by (induction bs) (auto simp: of_be_def)

lemma of_be_append_zeros: "\<forall>b\<in>set bs. b = 0 \<Longrightarrow> of_be (bs @ cs) = of_be cs"
  by (simp only: of_be_def [of "bs @ cs"] foldl_zeros)

lemma take_skipped_zero: "\<forall>b\<in>set (take (skipped c) (u64_be c)). b = 0"
proof (cases "index_where (\<lambda>b. b \<noteq> 0) (u64_be c)")
  case None
  then have "\<forall>b\<in>set (u64_be c). b = 0" by (simp add: position_None_iff)
  then show ?thesis by (meson in_set_takeD)
next
  case (Some i)
  then show ?thesis using position_Some_take [OF Some] by (simp add: skipped_def)
qed

lemma of_be_significant: "of_be (drop (skipped c) (u64_be c)) = unat c"
  using of_be_append_zeros [OF take_skipped_zero, of c "drop (skipped c) (u64_be c)"] by simp

lemma config_sender:
  fixes i :: u8
  assumes "unat i < 32"
  shows "(push_bit 5 x OR i) AND 31 = i"
proof -
  have i: "take_bit 5 i = i"
    using assms by (intro unat_eqI) (simp add: unsigned_take_bit_eq take_bit_nat_eq_self)
  have "(push_bit 5 x OR i) AND mask 5 = take_bit 5 i"
    by (simp add: take_bit_eq_mask [symmetric] take_bit_push_bit)
  then show ?thesis using i by (simp add: mask_numeral)
qed

lemma config_len:
  fixes i :: u8
  assumes "unat i < 32" "n < 8"
  shows "unat (drop_bit 5 (push_bit 5 (word_of_nat n) OR i)) = n"
proof -
  have "drop_bit 5 i = 0"
  proof (rule unat_eqI)
    show "unat (drop_bit 5 i) = unat (0 :: u8)"
      using assms(1) by (simp add: drop_bit_eq_div unat_div)
  qed
  moreover have "unat (drop_bit 5 (push_bit 5 (word_of_nat n :: u8))) = n"
  proof -
    have "unat (push_bit 5 (word_of_nat n :: u8)) = n * 32"
      using assms(2) by (simp add: push_bit_eq_mult unat_word_ariths unat_of_nat mult.commute)
    then show ?thesis by (simp add: drop_bit_eq_div unat_div)
  qed
  ultimately show ?thesis by simp
qed

lemma parse_header_append:
  assumes "unat (sk_id k) < 32"
  shows "parse_header (header k c @ rest) = Inr (sk_id k, c, length (header k c))"
proof -
  let ?n = "7 - skipped c"
  have n: "unat (drop_bit 5 (push_bit 5 (word_of_nat ?n) OR sk_id k)) = ?n"
    using assms by (intro config_len) auto
  have len: "Suc ?n = 8 - skipped c" using skipped_le [of c] by simp
  have "foldl shift_in 0 (drop (skipped c) (u64_be c)) = c"
    by (simp add: foldl_shift_in_of_be of_be_significant)
  then show ?thesis
    using skipped_le [of c] n
    by (simp add: parse_header_def header_eq media_consts Let_def config_sender [OF assms] len)
qed

lemma parse_header_bounds:
  assumes "parse_header frame = Inr (s, c, n)"
  shows "unat s < 32" "2 \<le> n" "n \<le> 9" "n \<le> length frame"
proof -
  let ?cfg = "frame ! 0"
  from assms have s: "s = ?cfg AND 31" and n: "n = unat (drop_bit 5 ?cfg) + 2"
    and len: "n \<le> length frame"
    by (auto simp: parse_header_def Let_def split: if_splits)
  have "s = take_bit 5 ?cfg" using s by (simp add: take_bit_eq_mask mask_numeral)
  then show "unat s < 32" by (simp add: take_bit_eq_mod unat_mod)
  show "2 \<le> n" using n by simp
  have "unat (drop_bit 5 ?cfg) \<le> 7"
    using unat_byte_less [of ?cfg] by (simp add: drop_bit_eq_div unat_div less_Suc_eq_le [symmetric] div_less_iff_less_mult)
  then show "n \<le> 9" using n by simp
  show "n \<le> length frame" by (rule len)
qed

section \<open>Padding round-trips\<close>

lemma unpad_pad [byte_simps]: "unpad (pad frame to) = Inr frame"
  by (simp add: unpad_def pad_def Let_def PAD_MARKER_def)

lemma length_pad:
  "length (pad frame to) = max (case to of Some n \<Rightarrow> n | None \<Rightarrow> 0) (length frame + 1)"
  by (auto simp: pad_def Let_def PAD_MARKER_LEN_def split: option.splits)

lemma unpad_Inr_iff:
  "unpad plain = Inr frame \<longleftrightarrow> (\<exists>n. plain = frame @ PAD_MARKER # replicate n 0)"
proof -
  have "unpad plain = Inr frame \<longleftrightarrow> split_last_nonzero plain = Some (frame, PAD_MARKER)"
    by (auto simp: unpad_def split: option.splits if_splits)
  then show ?thesis by (simp add: split_last_nonzero_iff PAD_MARKER_def)
qed

section \<open>Nonces\<close>

lemma xor_left_cancel_byte: "(a XOR x = a XOR y) \<longleftrightarrow> (x = (y :: u8))"
proof
  assume "a XOR x = a XOR y"
  then have "(a XOR a) XOR x = (a XOR a) XOR y" by (simp only: xor.assoc)
  then show "x = y" by simp
qed simp

lemma map2_xor_inj:
  assumes "length xs = length as" "length ys = length as"
  shows "map2 (XOR) as xs = map2 (XOR) as ys \<longleftrightarrow> xs = (ys :: bytes)"
  using assms
proof (induction as arbitrary: xs ys)
  case Nil
  then show ?case by simp
next
  case (Cons a as)
  then obtain x xs' y ys' where "xs = x # xs'" "ys = y # ys'"
    by (cases xs; cases ys) auto
  with Cons show ?case by (auto simp: xor_left_cancel_byte)
qed

lemma nonce_inj:
  assumes "length (sk_salt k) = NONCE_LEN"
  shows "nonce k c = nonce k d \<longleftrightarrow> c = d"
  using assms map2_xor_inj [of "u64_be c" "drop 4 (sk_salt k)" "u64_be d"]
  by (simp add: nonce_def NONCE_LEN_def)

lemma length_nonce: "length (sk_salt k) = NONCE_LEN \<Longrightarrow> length (nonce k c) = NONCE_LEN"
  by (simp add: nonce_def NONCE_LEN_def)

end
