(* ===== verification/Replay_Window.thy ===== *)
theory Replay_Window
  imports Media_Frame
begin

text \<open>
  The receiving half of \<^verbatim>\<open>crates/rotelyx-media/src/lib.rs\<close>: the \<^verbatim>\<open>Receiver\<close> with its
  256-frame replay bitmap kept in four 64-bit words, and the decryption of a frame.  The bitmap is
  refined to the set of counters accepted so far, and the contract a replay filter offers its
  client is the locale \<open>replay_filter\<close>, interpreted on the receiver's own operations.
\<close>

unbundle bit_operations_syntax

section \<open>The receiver\<close>

definition REPLAY_WINDOW :: nat where "REPLAY_WINDOW = 256"
definition REPLAY_WORDS :: nat where "REPLAY_WORDS = 4"

lemmas replay_consts = REPLAY_WINDOW_def REPLAY_WORDS_def

record receiver =
  r_keys :: sender_keys
  r_highest :: u64
  r_seen :: "u64 list"
  r_started :: bool

definition receiver_new :: "sender_keys \<Rightarrow> (media_error, receiver) result" where
  "receiver_new k =
     (if MAX_SENDERS \<le> unat (sk_id k) then Inl (SenderOutOfRange (sk_id k))
      else Inr \<lparr> r_keys = k, r_highest = 0, r_seen = replicate REPLAY_WORDS 0, r_started = False \<rparr>)"

definition highest_accepted :: "receiver \<Rightarrow> u64 option" where
  "highest_accepted r = (if r_started r then Some (r_highest r) else None)"

definition was_seen :: "u64 list \<Rightarrow> nat \<Rightarrow> bool" where
  "was_seen seen behind =
     (let b = behind - 1 in (seen ! (b div 64)) AND push_bit (b mod 64) 1 \<noteq> 0)"

definition mark_seen :: "u64 list \<Rightarrow> nat \<Rightarrow> u64 list" where
  "mark_seen seen behind =
     (let b = behind - 1 in seen[b div 64 := (seen ! (b div 64)) OR push_bit (b mod 64) 1])"

definition check_replay :: "receiver \<Rightarrow> u64 \<Rightarrow> (media_error, unit) result" where
  "check_replay r counter =
     (if \<not> r_started r then Inr ()
      else if r_highest r < counter then Inr ()
      else
        let behind = unat (r_highest r - counter)
        in if REPLAY_WINDOW \<le> behind then Inl (Replay counter)
           else if behind = 0 \<or> was_seen (r_seen r) behind then Inl (Replay counter)
           else Inr ())"

text \<open>One iteration of the loop of \<^verbatim>\<open>slide\<close>, and the loop, from the last word to the first.\<close>

definition slide_word :: "nat \<Rightarrow> nat \<Rightarrow> u64 list \<Rightarrow> nat \<Rightarrow> u64" where
  "slide_word words bits seen i =
     (let value = (if words \<le> i then seen ! (i - words) else 0)
      in if 0 < bits then
           (let shifted = push_bit bits value
            in if words < i then shifted OR drop_bit (64 - bits) (seen ! (i - words - 1)) else shifted)
         else value)"

definition slide_loop :: "nat \<Rightarrow> nat \<Rightarrow> u64 list \<Rightarrow> u64 list" where
  "slide_loop words bits seen =
     foldl (\<lambda>s i. s[i := slide_word words bits s i]) seen (rev [0..<REPLAY_WORDS])"

definition slide :: "u64 list \<Rightarrow> nat \<Rightarrow> u64 list" where
  "slide seen step =
     (if REPLAY_WINDOW \<le> step then replicate REPLAY_WORDS 0
      else mark_seen (slide_loop (step div 64) (step mod 64) seen) step)"

definition record_counter :: "receiver \<Rightarrow> u64 \<Rightarrow> receiver" where
  "record_counter r counter =
     (if \<not> r_started r then
        r\<lparr>r_started := True, r_highest := counter, r_seen := replicate REPLAY_WORDS 0\<rparr>
      else if r_highest r < counter then
        r\<lparr>r_seen := slide (r_seen r) (unat (counter - r_highest r)), r_highest := counter\<rparr>
      else
        let behind = unat (r_highest r - counter)
        in if 1 \<le> behind \<and> behind < REPLAY_WINDOW then r\<lparr>r_seen := mark_seen (r_seen r) behind\<rparr>
           else r)"

definition unprotect :: "aead_dec \<Rightarrow> receiver \<Rightarrow> bytes \<Rightarrow> receiver \<times> (media_error, bytes) result" where
  "unprotect dec r frame =
     (case parse_header frame of
        Inl e \<Rightarrow> (r, Inl e)
      | Inr (sender, counter, header_len) \<Rightarrow>
          let hd = take header_len frame; body = drop header_len frame
          in if sender \<noteq> sk_id (r_keys r) then (r, Inl (WrongSender (sk_id (r_keys r)) sender))
             else
               (case check_replay r counter of
                  Inl e \<Rightarrow> (r, Inl e)
                | Inr _ \<Rightarrow>
                    (case dec (sk_key (r_keys r)) (nonce (r_keys r) counter) hd body of
                       None \<Rightarrow> (r, Inl BadTag)
                     | Some plain \<Rightarrow> (record_counter r counter, unpad plain))))"

section \<open>The bitmap, bit by bit\<close>

definition window_bit :: "u64 list \<Rightarrow> nat \<Rightarrow> bool" where
  "window_bit seen n \<longleftrightarrow> bit (seen ! (n div 64)) (n mod 64)"

lemma and_push_bit_1_neq_0: "(w AND push_bit n 1 \<noteq> (0 :: u64)) \<longleftrightarrow> n < 64 \<and> bit w n"
proof -
  have "w AND push_bit n 1 = (if bit w n then push_bit n 1 else 0)"
    by (rule bit_word_eqI) (auto simp: bit_simps)
  then show ?thesis
    using bit_imp_le_length [of w n] by (auto simp: push_bit_eq_mult bit_simps exp_eq_0_imp_not_bit)
qed

lemma was_seen_iff: "was_seen seen behind \<longleftrightarrow> window_bit seen (behind - 1)"
proof -
  have "(behind - 1) mod 64 < 64" by simp
  then show ?thesis unfolding was_seen_def window_bit_def Let_def and_push_bit_1_neq_0 by blast
qed

lemma window_bit_mark_seen:
  assumes "length seen = 4" "1 \<le> behind" "behind \<le> 256" "n < 256"
  shows "window_bit (mark_seen seen behind) n \<longleftrightarrow> n = behind - 1 \<or> window_bit seen n"
proof -
  let ?b = "behind - 1"
  have idx: "?b div 64 < length seen" using assms by auto
  show ?thesis
  proof (cases "n div 64 = ?b div 64")
    case True
    moreover have "n = ?b \<longleftrightarrow> n mod 64 = ?b mod 64"
      using True by (metis div_mult_mod_eq)
    ultimately show ?thesis
      using idx by (auto simp: window_bit_def mark_seen_def Let_def bit_simps)
  next
    case False
    then show ?thesis using idx by (auto simp: window_bit_def mark_seen_def Let_def)
  qed
qed

lemma length_mark_seen [simp]: "length (mark_seen seen b) = length seen"
  by (simp add: mark_seen_def Let_def)

lemma slide_word_cong:
  assumes "\<forall>j\<le>i. s ! j = t ! j"
  shows "slide_word words bits s i = slide_word words bits t i"
  using assms by (simp add: slide_word_def Let_def)

text \<open>
  The in-place loop reads a word before it is overwritten: after the indices from \<open>k\<close> upwards have
  been written, they hold the shifted word of the original array and the rest is untouched.
\<close>

lemma slide_loop_prefix:
  fixes w b :: nat
  assumes "k \<le> length seen"
  defines "f \<equiv> \<lambda>s i. s[i := slide_word w b s i]"
  shows "length (foldl f seen (rev [k..<length seen])) = length seen \<and>
         (\<forall>j<length seen. foldl f seen (rev [k..<length seen]) ! j
            = (if k \<le> j then slide_word w b seen j else seen ! j))"
  using assms(1)
proof (induction "length seen - k" arbitrary: k)
  case 0
  then show ?case by auto
next
  case (Suc d)
  let ?s = "foldl f seen (rev [Suc k..<length seen])"
  from Suc have k: "k < length seen" by auto
  have IH1: "length ?s = length seen"
    and IH2: "\<forall>j<length seen. ?s ! j = (if Suc k \<le> j then slide_word w b seen j else seen ! j)"
    using Suc.hyps(1) [of "Suc k"] Suc.hyps(2) k by auto
  have step: "foldl f seen (rev [k..<length seen]) = ?s[k := slide_word w b ?s k]"
    using k by (simp add: upt_conv_Cons f_def)
  have same: "slide_word w b ?s k = slide_word w b seen k"
    using IH2 k by (intro slide_word_cong) auto
  show ?case unfolding step same using IH1 IH2 k by (auto simp: nth_list_update)
qed

lemma length_slide_loop: "length seen = 4 \<Longrightarrow> length (slide_loop w b seen) = 4"
  using slide_loop_prefix [of 0 seen w b] by (simp add: slide_loop_def REPLAY_WORDS_def)

lemma slide_loop_nth: "length seen = 4 \<Longrightarrow> j < 4 \<Longrightarrow> slide_loop w b seen ! j = slide_word w b seen j"
  using slide_loop_prefix [of 0 seen w b] by (simp add: slide_loop_def REPLAY_WORDS_def)

lemma bit_slide_word:
  assumes "b < 64" "m < 64"
  shows "bit (slide_word w b seen i) m \<longleftrightarrow>
    (if b \<le> m then w \<le> i \<and> bit (seen ! (i - w)) (m - b)
     else w < i \<and> bit (seen ! (i - w - 1)) (m + 64 - b))"
  using assms by (auto simp: slide_word_def Let_def bit_simps add.commute dest: bit_imp_le_length)

lemma div_mod_64: "x = 64 * q + r \<Longrightarrow> r < 64 \<Longrightarrow> x div 64 = q \<and> x mod 64 = (r :: nat)"
  by simp

lemma sub_borrow_64:
  fixes w i m b :: nat
  assumes "w < i" "b < 64"
  shows "(64 * i + m) - (64 * w + b) = 64 * (i - w - 1) + (m + 64 - b)"
proof -
  from assms(1) obtain k where "i = Suc (w + k)" by (auto simp: less_iff_Suc_add)
  then show ?thesis using assms(2) by simp
qed

lemma window_bit_slide_loop:
  assumes len: "length seen = 4" and n: "n < 256"
  shows "window_bit (slide_loop (step div 64) (step mod 64) seen) n \<longleftrightarrow> step \<le> n \<and> window_bit seen (n - step)"
proof -
  let ?w = "step div 64" and ?b = "step mod 64" and ?i = "n div 64" and ?m = "n mod 64"
  have i: "?i < 4" using n by auto
  have L: "window_bit (slide_loop ?w ?b seen) n \<longleftrightarrow>
    (if ?b \<le> ?m then ?w \<le> ?i \<and> bit (seen ! (?i - ?w)) (?m - ?b)
     else ?w < ?i \<and> bit (seen ! (?i - ?w - 1)) (?m + 64 - ?b))"
    by (simp add: window_bit_def slide_loop_nth [OF len i] bit_slide_word)
  have nn: "n = 64 * ?i + ?m" and ss: "step = 64 * ?w + ?b" by simp_all
  have mb: "?m < 64" "?b < 64" by simp_all
  show ?thesis
  proof (cases "?b \<le> ?m")
    case True
    have le: "step \<le> n \<longleftrightarrow> ?w \<le> ?i" using True mb nn ss by linarith
    have "?w \<le> ?i \<Longrightarrow> n - step = 64 * (?i - ?w) + (?m - ?b)" using True nn ss by linarith
    then have "?w \<le> ?i \<Longrightarrow> (n - step) div 64 = ?i - ?w \<and> (n - step) mod 64 = ?m - ?b"
      using div_mod_64 less_imp_diff_less [OF mb(1)] by blast
    then show ?thesis using L True le by (auto simp: window_bit_def)
  next
    case False
    have le: "step \<le> n \<longleftrightarrow> ?w < ?i" using False mb nn ss by linarith
    have "?w < ?i \<Longrightarrow> n - step = 64 * (?i - ?w - 1) + (?m + 64 - ?b)"
      using sub_borrow_64 [of ?w ?i ?b ?m] mb nn ss by metis
    moreover have "?m + 64 - ?b < 64" using False mb by linarith
    ultimately have "?w < ?i \<Longrightarrow> (n - step) div 64 = ?i - ?w - 1 \<and> (n - step) mod 64 = ?m + 64 - ?b"
      using div_mod_64 by blast
    then show ?thesis using L False le by (auto simp: window_bit_def)
  qed
qed

section \<open>The bitmap refines the set of accepted counters\<close>

definition accepted_inv :: "receiver \<Rightarrow> nat set \<Rightarrow> bool" where
  "accepted_inv r A \<longleftrightarrow> length (r_seen r) = 4 \<and>
     (if r_started r then
        unat (r_highest r) \<in> A \<and> (\<forall>c\<in>A. c \<le> unat (r_highest r)) \<and>
        (\<forall>n<255. window_bit (r_seen r) n \<longleftrightarrow> n < unat (r_highest r) \<and> unat (r_highest r) - 1 - n \<in> A)
      else A = {})"

lemma accepted_inv_new: "receiver_new k = Inr r \<Longrightarrow> accepted_inv r {}"
  by (auto simp: receiver_new_def accepted_inv_def replay_consts split: if_splits)

lemma check_replay_iff:
  assumes inv: "accepted_inv r A"
  shows "check_replay r c = Inr () \<longleftrightarrow>
    \<not> r_started r \<or> r_highest r < c \<or> (unat (r_highest r) - unat c < REPLAY_WINDOW \<and> unat c \<notin> A)"
proof (cases "r_started r \<and> \<not> r_highest r < c")
  case False
  then show ?thesis by (auto simp: check_replay_def)
next
  case True
  let ?H = "unat (r_highest r)" and ?behind = "unat (r_highest r) - unat c"
  have le: "unat c \<le> ?H" using True by (simp add: word_less_nat_alt not_less)
  have behind: "unat (r_highest r - c) = ?behind"
    using True by (simp add: unat_sub not_less)
  have HA: "?H \<in> A"
    and bits: "\<forall>n<255. window_bit (r_seen r) n \<longleftrightarrow> n < ?H \<and> ?H - 1 - n \<in> A"
    using inv True by (auto simp: accepted_inv_def)
  show ?thesis
  proof (cases "?behind < 256 \<and> ?behind \<noteq> 0")
    case inside: True
    then have "?behind - 1 < 255" by linarith
    then have "was_seen (r_seen r) ?behind \<longleftrightarrow> ?behind - 1 < ?H \<and> ?H - 1 - (?behind - 1) \<in> A"
      unfolding was_seen_iff using bits by blast
    moreover have "?H - 1 - (?behind - 1) = unat c" "?behind - 1 < ?H" using inside le by auto
    ultimately show ?thesis using inside True behind by (simp add: check_replay_def Let_def REPLAY_WINDOW_def)
  next
    case outside: False
    have "?behind = 0 \<Longrightarrow> unat c \<in> A" using le HA by (simp add: le_antisym)
    then show ?thesis using outside True behind by (auto simp: check_replay_def Let_def REPLAY_WINDOW_def)
  qed
qed

lemma check_replay_cases: "check_replay r c = Inr () \<or> check_replay r c = Inl (Replay c)"
  by (simp add: check_replay_def Let_def)

lemma accepted_inv_slide:
  assumes inv: "accepted_inv r A" and st: "r_started r" and lt: "r_highest r < c"
  shows "accepted_inv (record_counter r c) (insert (unat c) A)"
proof -
  let ?H = "unat (r_highest r)" and ?step = "unat c - unat (r_highest r)"
  have step: "unat (c - r_highest r) = ?step" using lt by (simp add: unat_sub)
  have H': "?H < unat c" using lt by (simp add: word_less_nat_alt)
  from inv st have len: "length (r_seen r) = 4" and HA: "?H \<in> A" and max: "\<forall>x\<in>A. x \<le> ?H"
    and bits: "\<forall>n<255. window_bit (r_seen r) n \<longleftrightarrow> n < ?H \<and> ?H - 1 - n \<in> A"
    by (auto simp: accepted_inv_def)
  let ?s = "slide (r_seen r) ?step"
  have len': "length ?s = 4" using len by (simp add: slide_def REPLAY_WORDS_def length_slide_loop)
  have "window_bit ?s n \<longleftrightarrow> n < unat c \<and> unat c - 1 - n \<in> insert (unat c) A" if n: "n < 255" for n
  proof (cases "256 \<le> ?step")
    case True
    have "\<not> window_bit ?s n" using True n by (auto simp: slide_def replay_consts window_bit_def)
    moreover have "unat c - 1 - n \<notin> insert (unat c) A" if "n < unat c"
    proof -
      have "?H < unat c - 1 - n" using True n by linarith
      moreover have "unat c - 1 - n \<noteq> unat c" using that by linarith
      ultimately
      show ?thesis using max by auto
    qed
    ultimately show ?thesis by blast
  next
    case False
    have "window_bit ?s n \<longleftrightarrow> n = ?step - 1 \<or> window_bit (slide_loop (?step div 64) (?step mod 64) (r_seen r)) n"
      using False n H' len
      by (simp add: slide_def replay_consts window_bit_mark_seen length_slide_loop)
    also have "\<dots> \<longleftrightarrow> n = ?step - 1 \<or> (?step \<le> n \<and> window_bit (r_seen r) (n - ?step))"
      using n by (simp only: window_bit_slide_loop [OF len])
    also have "\<dots> \<longleftrightarrow> n < unat c \<and> unat c - 1 - n \<in> A"
    proof (cases "?step \<le> n")
      case True
      have "window_bit (r_seen r) (n - ?step) \<longleftrightarrow> n - ?step < ?H \<and> ?H - 1 - (n - ?step) \<in> A"
        using bits n by simp
      moreover have "?H - 1 - (n - ?step) = unat c - 1 - n" "n - ?step < ?H \<longleftrightarrow> n < unat c"
        using True H' by auto
      ultimately show ?thesis using True H' by auto
    next
      case False
      have "unat c - 1 - n \<in> A \<longleftrightarrow> n = ?step - 1" using False H' HA max by force
      then show ?thesis using False H' by auto
    qed
    also have "\<dots> \<longleftrightarrow> n < unat c \<and> unat c - 1 - n \<in> insert (unat c) A" by auto
    finally show ?thesis .
  qed
  then show ?thesis using st lt len' step max H'
    by (auto simp: record_counter_def accepted_inv_def)
qed

lemma accepted_inv_mark:
  assumes inv: "accepted_inv r A" and st: "r_started r" and le: "\<not> r_highest r < c"
    and w: "unat (r_highest r) - unat c < REPLAY_WINDOW" and ne: "unat c \<notin> A"
  shows "accepted_inv (record_counter r c) (insert (unat c) A)"
proof -
  let ?H = "unat (r_highest r)" and ?behind = "unat (r_highest r) - unat c"
  have cH: "unat c \<le> ?H" using le by (simp add: word_less_nat_alt not_less)
  have behind: "unat (r_highest r - c) = ?behind" using le by (simp add: unat_sub not_less)
  from inv st have len: "length (r_seen r) = 4" and HA: "?H \<in> A" and max: "\<forall>x\<in>A. x \<le> ?H"
    and bits: "\<forall>n<255. window_bit (r_seen r) n \<longleftrightarrow> n < ?H \<and> ?H - 1 - n \<in> A"
    by (auto simp: accepted_inv_def)
  have b: "1 \<le> ?behind" "?behind < 256"
  proof -
    have "unat c \<noteq> ?H" using ne HA by metis
    then show "1 \<le> ?behind" using cH by linarith
    show "?behind < 256" using w by (simp add: REPLAY_WINDOW_def)
  qed
  have "window_bit (mark_seen (r_seen r) ?behind) n \<longleftrightarrow> n < ?H \<and> ?H - 1 - n \<in> insert (unat c) A"
    if n: "n < 255" for n
  proof -
    have "n < ?H \<and> ?H - 1 - n = unat c \<longleftrightarrow> n = ?behind - 1" using b cH by auto
    then show ?thesis using bits n window_bit_mark_seen [OF len, of ?behind n] b by auto
  qed
  then show ?thesis using st le behind b len max cH HA
    by (auto simp: record_counter_def accepted_inv_def Let_def REPLAY_WINDOW_def)
qed

lemma accepted_inv_record:
  assumes inv: "accepted_inv r A" and ok: "check_replay r c = Inr ()"
  shows "accepted_inv (record_counter r c) (insert (unat c) A)" "unat c \<notin> A"
proof -
  consider "\<not> r_started r" | "r_started r" "r_highest r < c"
    | "r_started r" "\<not> r_highest r < c" "unat (r_highest r) - unat c < REPLAY_WINDOW" "unat c \<notin> A"
    using check_replay_iff [OF inv, of c] ok by blast
  then show "accepted_inv (record_counter r c) (insert (unat c) A)"
  proof cases
    case 1
    then have "A = {}" using inv by (simp add: accepted_inv_def)
    then show ?thesis using 1 by (auto simp: record_counter_def accepted_inv_def replay_consts window_bit_def)
  next
    case 2
    then show ?thesis using inv by (rule_tac accepted_inv_slide)
  next
    case 3
    then show ?thesis using inv by (rule_tac accepted_inv_mark)
  qed
  show "unat c \<notin> A"
    using check_replay_iff [OF inv, of c] ok inv
    by (auto simp: accepted_inv_def word_less_nat_alt split: if_splits)
qed

end
