(* ===== verification/Media_Session.thy ===== *)
theory Media_Session
  imports Replay_Filter Replay_Window
begin

text \<open>
  A call from one sender to one receiver, on top of \<open>Media_Frame\<close> and \<open>Replay_Window\<close>: the
  contract of a replay filter as a locale, its interpretation on \<^verbatim>\<open>Receiver::unprotect\<close>, and the
  end-to-end properties of \<^verbatim>\<open>Sender::protect\<close> followed by \<^verbatim>\<open>Receiver::unprotect\<close>.
\<close>

section \<open>The receiver is one\<close>

text \<open>The counter of a frame whose plaintext the receiver hands to its caller.\<close>

definition delivered_counter :: "aead_dec \<Rightarrow> receiver \<Rightarrow> bytes \<Rightarrow> u64 option" where
  "delivered_counter dec r frame =
     (case parse_header frame of
        Inl _ \<Rightarrow> None
      | Inr (_, counter, _) \<Rightarrow>
          (case snd (unprotect dec r frame) of Inl _ \<Rightarrow> None | Inr _ \<Rightarrow> Some counter))"

definition unprotect_state :: "aead_dec \<Rightarrow> receiver \<Rightarrow> bytes \<Rightarrow> receiver" where
  "unprotect_state dec r frame = fst (unprotect dec r frame)"

definition remembers :: "receiver \<Rightarrow> u64 set \<Rightarrow> bool" where
  "remembers r A \<longleftrightarrow> (\<exists>B. accepted_inv r B \<and> unat ` A \<subseteq> B)"

lemma unprotect_cases:
  obtains (refused) e where "unprotect dec r frame = (r, Inl e)"
  | (opened) s c n plain where "parse_header frame = Inr (s, c, n)" "s = sk_id (r_keys r)"
      "check_replay r c = Inr ()"
      "dec (sk_key (r_keys r)) (nonce (r_keys r) c) (take n frame) (drop n frame) = Some plain"
      "unprotect dec r frame = (record_counter r c, unpad plain)"
proof (cases "parse_header frame")
  case (Inl e)
  then show ?thesis using refused by (simp add: unprotect_def)
next
  case (Inr h)
  obtain s c n where h: "h = (s, c, n)" by (cases h)
  show ?thesis
  proof (cases "s = sk_id (r_keys r) \<and> check_replay r c = Inr ()")
    case False
    then show ?thesis
      using refused Inr h check_replay_cases [of r c]
      by (cases "s = sk_id (r_keys r)") (auto simp: unprotect_def Let_def)
  next
    case ok: True
    show ?thesis
    proof (cases "dec (sk_key (r_keys r)) (nonce (r_keys r) c) (take n frame) (drop n frame)")
      case None
      then show ?thesis using refused Inr h ok by (auto simp: unprotect_def Let_def)
    next
      case (Some plain)
      then show ?thesis using opened Inr h ok by (auto simp: unprotect_def Let_def)
    qed
  qed
qed

lemma remembers_unprotect:
  assumes "remembers r A"
  shows "delivered_counter dec r frame = None \<Longrightarrow> remembers (unprotect_state dec r frame) A"
    and "delivered_counter dec r frame = Some c \<Longrightarrow> c \<notin> A"
    and "delivered_counter dec r frame = Some c \<Longrightarrow> remembers (unprotect_state dec r frame) (insert c A)"
proof -
  from assms obtain B where B: "accepted_inv r B" "unat ` A \<subseteq> B" by (auto simp: remembers_def)
  have *: "(delivered_counter dec r frame = None \<longrightarrow> remembers (unprotect_state dec r frame) A) \<and>
    (\<forall>c. delivered_counter dec r frame = Some c \<longrightarrow>
       c \<notin> A \<and> remembers (unprotect_state dec r frame) (insert c A))"
  proof (cases rule: unprotect_cases [of dec r frame])
    case (refused e)
    then show ?thesis using assms
      by (auto simp: delivered_counter_def unprotect_state_def split: sum.splits)
  next
    case (opened s d n plain)
    note inv = accepted_inv_record [OF B(1) opened(3)]
    have "d \<notin> A" using inv(2) B(2) by blast
    moreover have "remembers (record_counter r d) (insert d A)"
      using inv(1) B(2) unfolding remembers_def by (intro exI [of _ "insert (unat d) B"]) auto
    moreover have "remembers (record_counter r d) A"
      using inv(1) B(2) unfolding remembers_def by (intro exI [of _ "insert (unat d) B"]) auto
    ultimately show ?thesis
      using opened by (auto simp: delivered_counter_def unprotect_state_def split: sum.splits)
  qed
  show "delivered_counter dec r frame = None \<Longrightarrow> remembers (unprotect_state dec r frame) A"
    "delivered_counter dec r frame = Some c \<Longrightarrow> c \<notin> A"
    "delivered_counter dec r frame = Some c \<Longrightarrow> remembers (unprotect_state dec r frame) (insert c A)"
    using * by blast+
qed

interpretation rw: replay_filter "unprotect_state dec" "delivered_counter dec" remembers for dec
  by unfold_locales (rule remembers_unprotect; assumption)+

lemma remembers_new: "receiver_new k = Inr r \<Longrightarrow> remembers r {}"
  using accepted_inv_new unfolding remembers_def by blast

section \<open>A call, end to end\<close>

primrec protect_all :: "aead_enc \<Rightarrow> sender \<Rightarrow> bytes list \<Rightarrow> (media_error, bytes) result list" where
  "protect_all enc s [] = []"
| "protect_all enc s (f # fs) =
     (case protect enc s f of (s', out) \<Rightarrow> out # protect_all enc s' fs)"

primrec unprotect_all :: "aead_dec \<Rightarrow> receiver \<Rightarrow> bytes list \<Rightarrow> (media_error, bytes) result list" where
  "unprotect_all dec r [] = []"
| "unprotect_all dec r (d # ds) =
     (case unprotect dec r d of (r', out) \<Rightarrow> out # unprotect_all dec r' ds)"

lemma protect_Inr:
  assumes "protect enc s frame = (s', Inr d)"
  obtains sealed where "\<not> s_exhausted s" "s' = advance s" "d = header (s_keys s) (s_counter s) @ sealed"
    "enc (sk_key (s_keys s)) (nonce (s_keys s) (s_counter s)) (header (s_keys s) (s_counter s))
       (pad frame (s_pad_to s)) = Some sealed"
  using assms by (auto simp: protect_def Let_def split: if_splits option.splits)

lemma unprotect_protect:
  assumes law: "aead_opens enc dec" and id: "unat (sk_id (s_keys s)) < MAX_SENDERS"
    and keys: "r_keys r = s_keys s"
    and sent: "protect enc s frame = (s', Inr d)"
    and fresh: "check_replay r (s_counter s) = Inr ()"
  shows "unprotect dec r d = (record_counter r (s_counter s), Inr frame)"
proof -
  from sent obtain sealed where d: "d = header (s_keys s) (s_counter s) @ sealed"
    and e: "enc (sk_key (s_keys s)) (nonce (s_keys s) (s_counter s)) (header (s_keys s) (s_counter s))
       (pad frame (s_pad_to s)) = Some sealed"
    by (rule protect_Inr)
  have "parse_header d = Inr (sk_id (s_keys s), s_counter s, length (header (s_keys s) (s_counter s)))"
    using d id by (simp add: parse_header_append MAX_SENDERS_def)
  moreover have "dec (sk_key (s_keys s)) (nonce (s_keys s) (s_counter s))
       (header (s_keys s) (s_counter s)) sealed = Some (pad frame (s_pad_to s))"
    using law e by (simp add: aead_opens_def)
  ultimately show ?thesis
    using keys fresh d by (simp add: unprotect_def Let_def unpad_pad)
qed

lemma advance_keys [simp]: "s_keys (advance s) = s_keys s" "s_pad_to (advance s) = s_pad_to s"
  by (auto simp: advance_def split: option.splits)

lemma advance_counter:
  "\<not> s_exhausted (advance s) \<Longrightarrow> \<not> s_exhausted s \<Longrightarrow> s_counter s < s_counter (advance s)"
  by (auto simp: advance_def word_less_nat_alt dest: checked_add_unat split: option.splits)

lemma record_keys [simp]: "r_keys (record_counter r c) = r_keys r"
  by (simp add: record_counter_def Let_def)

lemma record_highest:
  "\<not> r_started r \<or> r_highest r < c \<Longrightarrow> r_started (record_counter r c) \<and> r_highest (record_counter r c) = c"
  by (auto simp: record_counter_def)

lemma check_replay_ahead: "\<not> r_started r \<or> r_highest r < c \<Longrightarrow> check_replay r c = Inr ()"
  by (auto simp: check_replay_def)

text \<open>The receiver has seen nothing at or beyond the sender's next counter.\<close>

definition ahead :: "sender \<Rightarrow> receiver \<Rightarrow> bool" where
  "ahead s r \<longleftrightarrow> \<not> s_exhausted s \<longrightarrow> \<not> r_started r \<or> r_highest r < s_counter s"

lemma ahead_advance: "\<not> s_exhausted s \<Longrightarrow> ahead s r \<Longrightarrow> ahead (advance s) r"
  using advance_counter [of s] by (auto simp: ahead_def)

lemma ahead_record:
  "\<not> s_exhausted s \<Longrightarrow> ahead s r \<Longrightarrow> ahead (advance s) (record_counter r (s_counter s))"
  using advance_counter [of s] record_highest [of r "s_counter s"] by (auto simp: ahead_def)

text \<open>
  A lossy link: \<open>keep\<close> says which datagrams arrive.  What arrives in order is opened to what was sent.
\<close>

lemma lossy_call:
  assumes law: "aead_opens enc dec" and id: "unat (sk_id (s_keys s)) < MAX_SENDERS"
  shows "r_keys r = s_keys s \<Longrightarrow> ahead s r \<Longrightarrow> protect_all enc s frames = map Inr ds \<Longrightarrow>
    length keep = length frames \<Longrightarrow>
    unprotect_all dec r (map snd (filter fst (zip keep ds))) = map Inr (map snd (filter fst (zip keep frames)))"
  using id
proof (induction frames arbitrary: s r ds keep)
  case Nil
  then show ?case by simp
next
  case (Cons f fs)
  obtain s' out where p: "protect enc s f = (s', out)" by (cases "protect enc s f")
  with Cons.prems(3) obtain d ds' where ds: "ds = d # ds'" and out: "out = Inr d"
    and rest: "protect_all enc s' fs = map Inr ds'" by (cases ds) auto
  from p out have sent: "protect enc s f = (s', Inr d)" by simp
  then have s': "s' = advance s" and ne: "\<not> s_exhausted s" by (auto elim: protect_Inr)
  obtain b bs where keep: "keep = b # bs" and lb: "length bs = length fs"
    using Cons.prems(4) by (cases keep) auto
  have fresh: "check_replay r (s_counter s) = Inr ()"
    using Cons.prems(2) ne by (simp add: ahead_def check_replay_ahead)
  have opened: "unprotect dec r d = (record_counter r (s_counter s), Inr f)"
    by (rule unprotect_protect [OF law Cons.prems(5,1) sent fresh])
  have id': "unat (sk_id (s_keys s')) < MAX_SENDERS" using Cons.prems(5) s' by simp
  show ?case
  proof (cases b)
    case True
    have "ahead s' (record_counter r (s_counter s))" using ahead_record ne Cons.prems(2) s' by simp
    then show ?thesis using Cons.IH [OF _ _ rest lb id'] True keep ds opened Cons.prems(1) s' by simp
  next
    case False
    have "ahead s' r" using ahead_advance ne Cons.prems(2) s' by simp
    then show ?thesis using Cons.IH [OF _ _ rest lb id'] False keep ds Cons.prems(1) s' by simp
  qed
qed

section \<open>The nonces of a sender\<close>

text \<open>
  The nonce a call of \<^verbatim>\<open>protect\<close> hands its cipher, seen by a cipher whose ciphertext is the nonce: \<^verbatim>\<open>protect\<close> looks at
  nothing a cipher returns, so it hands every cipher the same.
\<close>

definition nonce_seen :: aead_enc where
  "nonce_seen key n a plain = Some n"

definition sealing_nonce :: "sender \<Rightarrow> bytes \<Rightarrow> bytes option" where
  "sealing_nonce s frame =
     (case snd (protect nonce_seen s frame) of Inl _ \<Rightarrow> None | Inr d \<Rightarrow> Some (drop (length d - NONCE_LEN) d))"

definition protect_state :: "aead_enc \<Rightarrow> sender \<Rightarrow> bytes \<Rightarrow> sender" where
  "protect_state enc s frame = fst (protect enc s frame)"

definition nonces_below :: "sender \<Rightarrow> bytes set \<Rightarrow> bool" where
  "nonces_below s A \<longleftrightarrow> length (sk_salt (s_keys s)) = NONCE_LEN \<and>
     (\<not> s_exhausted s \<longrightarrow> A \<subseteq> nonce (s_keys s) ` {c. c < s_counter s})"

lemma protect_state_eq: "protect_state enc s frame = (if s_exhausted s then s else advance s)"
  by (simp add: protect_state_def protect_def Let_def)

lemma sealing_nonce_None: "sealing_nonce s frame = None \<longleftrightarrow> s_exhausted s"
  by (simp add: sealing_nonce_def protect_def nonce_seen_def Let_def)

lemma sealing_nonce_eq:
  "length (sk_salt (s_keys s)) = NONCE_LEN \<Longrightarrow>
   sealing_nonce s frame = (if s_exhausted s then None else Some (nonce (s_keys s) (s_counter s)))"
  by (simp add: sealing_nonce_def protect_def nonce_seen_def length_nonce Let_def)

text \<open>Any other cipher is called with that nonce, under the key of the sender.\<close>

lemma sealed_under:
  assumes "length (sk_salt (s_keys s)) = NONCE_LEN" "snd (protect enc s frame) = Inr d"
  shows "\<exists>n sealed. sealing_nonce s frame = Some n \<and>
    enc (sk_key (s_keys s)) n (header (s_keys s) (s_counter s)) (pad frame (s_pad_to s)) = Some sealed \<and>
    d = header (s_keys s) (s_counter s) @ sealed"
  using assms by (auto simp: sealing_nonce_eq protect_def Let_def split: if_splits option.splits)

lemma protect_run_keys: "s_keys (fold (\<lambda>f s. protect_state enc s f) frames s) = s_keys s"
  by (induction frames arbitrary: s) (simp_all add: protect_state_eq)

lemma nonces_below_advance:
  assumes "nonces_below s A" "\<not> s_exhausted s"
  shows "nonces_below (advance s) (insert (nonce (s_keys s) (s_counter s)) A)"
proof -
  have "nonce (s_keys s) ` insert (s_counter s) {c. c < s_counter s} \<subseteq> nonce (s_keys s) ` {c. c < s_counter (advance s)}"
    if "\<not> s_exhausted (advance s)"
    using advance_counter [OF that assms(2)] by (intro image_mono) auto
  then show ?thesis using assms unfolding nonces_below_def by (auto 0 3)
qed

interpretation sn: replay_filter "protect_state enc" sealing_nonce nonces_below for enc
proof unfold_locales
  fix s A frame c
  assume inv: "nonces_below s A"
  then have eq: "sealing_nonce s frame = (if s_exhausted s then None else Some (nonce (s_keys s) (s_counter s)))"
    by (simp add: sealing_nonce_eq nonces_below_def)
  show "sealing_nonce s frame = None \<Longrightarrow> nonces_below (protect_state enc s frame) A"
    using inv by (auto simp: eq protect_state_eq split: if_splits)
  show "sealing_nonce s frame = Some c \<Longrightarrow> c \<notin> A"
    using inv nonce_inj by (fastforce simp: eq nonces_below_def split: if_splits)
  show "sealing_nonce s frame = Some c \<Longrightarrow> nonces_below (protect_state enc s frame) (insert c A)"
    using nonces_below_advance [OF inv] by (auto simp: eq protect_state_eq split: if_splits)
qed

lemma nonces_below_new:
  "sender_new k = Inr s \<Longrightarrow> length (sk_salt k) = NONCE_LEN \<Longrightarrow> nonces_below s {}"
  by (auto simp: sender_new_def nonces_below_def split: if_splits)

section \<open>Sizes on the wire\<close>

lemma protect_length:
  assumes "aead_grows enc" "protect enc s frame = (s', Inr d)"
  shows "length d = length (header (s_keys s) (s_counter s)) + TAG_LEN +
    max (case s_pad_to s of Some n \<Rightarrow> n | None \<Rightarrow> 0) (length frame + 1)"
proof -
  from assms(2) obtain sealed where "d = header (s_keys s) (s_counter s) @ sealed"
    "enc (sk_key (s_keys s)) (nonce (s_keys s) (s_counter s)) (header (s_keys s) (s_counter s))
       (pad frame (s_pad_to s)) = Some sealed" by (rule protect_Inr)
  then show ?thesis using assms(1) by (auto simp: aead_grows_def length_pad TAG_LEN_def)
qed

section \<open>The abstract replay filter\<close>

text \<open>
  What the window promises, on the set of accepted counters alone: ahead of everything accepted, or
  less than a window behind the highest and not accepted yet.
\<close>

definition window_accepts :: "nat set \<Rightarrow> nat \<Rightarrow> bool" where
  "window_accepts A c \<longleftrightarrow> A = {} \<or> Max A < c \<or> (Max A - c < REPLAY_WINDOW \<and> c \<notin> A)"

lemma accepted_inv_Max:
  assumes "accepted_inv r A" "r_started r"
  shows "Max A = unat (r_highest r)" "A \<noteq> {}"
proof -
  have "A \<subseteq> {..unat (r_highest r)}" "unat (r_highest r) \<in> A"
    using assms by (auto simp: accepted_inv_def)
  moreover from this have "finite A" by (meson finite_atMost finite_subset)
  ultimately show "Max A = unat (r_highest r)" "A \<noteq> {}" by (auto intro!: Max_eqI)
qed

lemma check_replay_window:
  "accepted_inv r A \<Longrightarrow> check_replay r c = Inr () \<longleftrightarrow> window_accepts A (unat c)"
proof (cases "r_started r")
  case True
  assume inv: "accepted_inv r A"
  show ?thesis using check_replay_iff [OF inv] accepted_inv_Max [OF inv True] True
    by (auto simp: window_accepts_def word_less_nat_alt)
next
  case False
  assume inv: "accepted_inv r A"
  then show ?thesis using False by (simp add: accepted_inv_def window_accepts_def check_replay_def)
qed

section \<open>Properties\<close>

definition sample_keys :: sender_keys where
  "sample_keys = \<lparr> sk_id = 3, sk_key = replicate 32 7, sk_salt = replicate 12 9 \<rparr>"

definition sample_sender :: sender where
  "sample_sender = \<lparr> s_keys = sample_keys, s_counter = 0, s_exhausted = False, s_pad_to = None \<rparr>"

definition sample_receiver :: receiver where
  "sample_receiver = \<lparr> r_keys = sample_keys, r_highest = 0, r_seen = [0, 0, 0, 0], r_started = False \<rparr>"

lemma replicate_4: "replicate 4 x = [x, x, x, x]"
  by (simp add: numeral_eq_Suc)

lemmas sample_simps = sample_sender_def sample_receiver_def sample_keys_def

lemma sample_new: "sender_new sample_keys = Inr sample_sender" "receiver_new sample_keys = Inr sample_receiver"
  by (simp_all add: sender_new_def receiver_new_def sample_keys_def sample_sender_def sample_receiver_def
      media_consts replay_consts replicate_4)

text \<open>C1: whatever datagrams reach a new receiver, in whatever order and however often repeated, the
  counters of the frames it delivers are pairwise distinct: no frame is delivered twice.  This holds
  for any AEAD whatever, and includes frames whose padding turns out to be malformed.\<close>

theorem no_frame_delivered_twice:
  assumes "receiver_new k = Inr r"
  shows "distinct (run_taken (unprotect_state dec) (delivered_counter dec) r datagrams)"
  using rw.taken_once [OF remembers_new [OF assms]] by blast

theorem no_frame_delivered_twice_witness:
  "receiver_new sample_keys = Inr sample_receiver \<and>
   distinct (run_taken (unprotect_state sample_dec) (delivered_counter sample_dec) sample_receiver
     [[3, 0] @ [5, 128] @ replicate 16 0, [3, 0] @ [5, 128] @ replicate 16 0])"
  using no_frame_delivered_twice [OF sample_new(2)] sample_new(2) by blast

text \<open>C18: the four-word bitmap implements the abstract replay window.  In a state that represents the
  set \<open>A\<close> of accepted counters, the check accepts a counter exactly when it is beyond the highest, or
  fewer than 256 behind it and not accepted before; recording it then represents \<open>A\<close> with it added.\<close>

theorem replay_window_refines:
  assumes "accepted_inv r A"
  shows "(check_replay r c = Inr () \<longleftrightarrow> window_accepts A (unat c)) \<and>
         (window_accepts A (unat c) \<longrightarrow> accepted_inv (record_counter r c) (insert (unat c) A))"
  using check_replay_window [OF assms] accepted_inv_record(1) [OF assms] by blast

theorem replay_window_refines_witness:
  "accepted_inv sample_receiver {} \<and> accepted_inv (record_counter sample_receiver 70) {70}"
  using replay_window_refines [OF accepted_inv_new [OF sample_new(2)], of 70] accepted_inv_new [OF sample_new(2)]
  by (simp add: window_accepts_def)

text \<open>A call over a link that loses datagrams.  When sender and receiver hold the same keys and
  sealing succeeds, every datagram that arrives is opened to exactly the frame that was sent,
  whatever the padding and whichever datagrams were lost.\<close>

theorem lossy_call_delivers:
  assumes "aead_opens enc dec" "sender_new k = Inr s" "receiver_new k = Inr r"
    and "protect_all enc (set_pad_to s to) frames = map Inr datagrams" "length keep = length frames"
  shows "unprotect_all dec r (map snd (filter fst (zip keep datagrams)))
           = map Inr (map snd (filter fst (zip keep frames)))"
proof (rule lossy_call [OF assms(1) _ _ _ assms(4,5)])
  show "unat (sk_id (s_keys (set_pad_to s to))) < MAX_SENDERS" "r_keys r = s_keys (set_pad_to s to)"
    "ahead (set_pad_to s to) r"
    using assms(2,3) by (auto simp: sender_new_def receiver_new_def set_pad_to_def ahead_def split: if_splits)
qed

theorem lossy_call_delivers_witness:
  "unprotect_all sample_dec sample_receiver [[3, 1, 42, 128] @ replicate 16 0] = [Inr [42]]"
proof -
  have "protect_all sample_enc (set_pad_to sample_sender None) [[7], [42]]
      = map Inr [[3, 0, 7, 128] @ replicate 16 0, [3, 1, 42, 128] @ replicate 16 0]"
    by (simp add: sample_simps protect_def advance_def checked_add_def header_def Let_def u64_be_eval
        pad_def PAD_MARKER_LEN_def PAD_MARKER_def set_pad_to_def sample_enc_def)
  from lossy_call_delivers [OF sample_aead(1) sample_new this, of "[False, True]"]
  show ?thesis by simp
qed

text \<open>C2: no nonce is used for two frames under one key.  Over any sequence of frames, refused or not, the nonces a new sender
  hands its cipher are pairwise distinct: each of its datagrams is what the cipher made under the sender's key and the nonce
  of that call, and at the last counter it refuses instead of wrapping.\<close>

theorem nonces_never_repeat:
  assumes "sender_new k = Inr s" "length (sk_salt k) = NONCE_LEN"
  shows "distinct (run_taken (protect_state enc) sealing_nonce s frames) \<and>
    (let s' = fold (\<lambda>f s. protect_state enc s f) frames s
     in (\<forall>d. snd (protect enc s' frame) = Inr d \<longrightarrow>
           (\<exists>n sealed. sealing_nonce s' frame = Some n \<and>
              enc (sk_key k) n (header k (s_counter s')) (pad frame (s_pad_to s')) = Some sealed \<and>
              d = header k (s_counter s') @ sealed)) \<and>
        (s_exhausted s' \<longrightarrow> snd (protect enc s' frame) = Inl CounterExhausted))"
proof -
  let ?s = "fold (\<lambda>f s. protect_state enc s f) frames s"
  have "s_keys s = k" using assms(1) by (auto simp: sender_new_def split: if_splits)
  then have k: "s_keys ?s = k" by (simp add: protect_run_keys)
  have "\<forall>d. snd (protect enc ?s frame) = Inr d \<longrightarrow>
      (\<exists>n sealed. sealing_nonce ?s frame = Some n \<and>
         enc (sk_key k) n (header k (s_counter ?s)) (pad frame (s_pad_to ?s)) = Some sealed \<and> d = header k (s_counter ?s) @ sealed)"
    using sealed_under [of ?s enc frame] k assms(2) by simp
  moreover have "s_exhausted ?s \<longrightarrow> snd (protect enc ?s frame) = Inl CounterExhausted" by (simp add: protect_def)
  ultimately show ?thesis using sn.taken_once [OF nonces_below_new [OF assms]] by (simp add: Let_def)
qed

theorem nonces_never_repeat_witness:
  "run_taken (protect_state sample_enc) sealing_nonce sample_sender [[1], [2]] = [nonce sample_keys 0, nonce sample_keys 1] \<and>
   nonce sample_keys 0 \<noteq> nonce sample_keys 1"
proof -
  have salt: "length (sk_salt sample_keys) = NONCE_LEN" by (simp add: sample_keys_def NONCE_LEN_def)
  have keys: "s_keys sample_sender = sample_keys" "s_keys (advance sample_sender) = sample_keys"
    "s_counter sample_sender = 0" "s_counter (advance sample_sender) = 1" "\<not> s_exhausted sample_sender" "\<not> s_exhausted (advance sample_sender)"
    by (simp_all add: sample_sender_def advance_def checked_add_def)
  have run: "run_taken (protect_state sample_enc) sealing_nonce sample_sender [[1], [2]] = [nonce sample_keys 0, nonce sample_keys 1]"
    using salt by (simp add: sealing_nonce_eq protect_state_eq keys)
  then show ?thesis using nonces_never_repeat [OF sample_new(1) salt, of sample_enc "[[1], [2]]"] by simp
qed

text \<open>The header round-trips: for every sender id a header can carry and every 64-bit counter,
  parsing a frame that starts with the header gives the id, the counter and the header's length, which
  is between two and nine bytes.\<close>

theorem header_roundtrip:
  assumes "unat (sk_id k) < MAX_SENDERS"
  shows "parse_header (header k c @ body) = Inr (sk_id k, c, length (header k c)) \<and>
         2 \<le> length (header k c) \<and> length (header k c) \<le> 9"
  using assms parse_header_append header_length_bounds by (simp add: MAX_SENDERS_def)

theorem header_roundtrip_witness:
  "parse_header (header sample_keys 300 @ [1, 2]) = Inr (3, 300, 3)"
proof -
  have "unat (sk_id sample_keys) < MAX_SENDERS" by (simp add: sample_keys_def MAX_SENDERS_def)
  moreover have "length (header sample_keys 300) = 3"
    by (simp add: header_def Let_def u64_be_eval)
  ultimately show ?thesis using header_roundtrip [of sample_keys 300 "[1, 2]"] by (simp add: sample_keys_def)
qed

text \<open>Padding hides the length of speech: at the same point of a call, two frames that fit the
  padded size give datagrams of one length.\<close>

theorem padded_datagrams_same_length:
  assumes "aead_grows enc" "s_pad_to s = Some n" "length f < n" "length g < n"
    and "protect enc s f = (s', Inr d)" "protect enc s g = (s'', Inr e)"
  shows "length d = length e \<and> length d = length (header (s_keys s) (s_counter s)) + n + TAG_LEN"
  using protect_length [OF assms(1,5)] protect_length [OF assms(1,6)] assms(2-4) by simp

theorem padded_datagrams_same_length_witness:
  "length (projr (snd (protect sample_enc (set_pad_to sample_sender (Some 8)) [1]))) =
   length (projr (snd (protect sample_enc (set_pad_to sample_sender (Some 8)) [1, 2, 3])))"
proof -
  let ?s = "set_pad_to sample_sender (Some 8)"
  have p: "protect sample_enc ?s f = (advance ?s, Inr (projr (snd (protect sample_enc ?s f))))" for f
    by (simp add: protect_def set_pad_to_def sample_sender_def sample_enc_def Let_def)
  show ?thesis
    using padded_datagrams_same_length [OF sample_aead(2) _ _ _ p p, of 8] by (simp add: set_pad_to_def)
qed

end
