(* ===== verification/Group_Sequence.thy ===== *)
theory Group_Sequence
  imports Replay_Filter
begin

unbundle bit_operations_syntax

text \<open>
  The parts of \<^verbatim>\<open>rotelyx-crypto/src/group.rs\<close> that stand on their own: the window of sequence numbers each sender has spent, the
  sequence number in front of a message, and the encodings of an admin list and of a member's identity.
\<close>

section \<open>Spent sequence numbers\<close>

definition SEQ_LEN :: nat where "SEQ_LEN = 8"
definition GROUP_REPLAY_WINDOW :: u64 where "GROUP_REPLAY_WINDOW = 64"

record seen_from =
  sf_high :: u64
  sf_window :: u64

definition seen_from_default :: seen_from where
  "seen_from_default = \<lparr> sf_high = 0, sf_window = 0 \<rparr>"

definition seen_admit :: "seen_from \<Rightarrow> u64 \<Rightarrow> seen_from \<times> bool" where
  "seen_admit s seq =
     (if sf_high s < seq then
        let st = seq - sf_high s;
            window = (if GROUP_REPLAY_WINDOW < st then 0
                      else if st = GROUP_REPLAY_WINDOW then push_bit (unat (GROUP_REPLAY_WINDOW - 1)) 1
                      else push_bit (unat st) (sf_window s) OR push_bit (unat (st - 1)) 1)
        in (\<lparr> sf_high = seq, sf_window = window \<rparr>, True)
      else
        let behind = sf_high s - seq
        in if behind = 0 \<or> GROUP_REPLAY_WINDOW < behind then (s, False)
           else
             let b = push_bit (unat (behind - 1)) 1
             in if sf_window s AND b \<noteq> 0 then (s, False)
                else (s\<lparr>sf_window := sf_window s OR b\<rparr>, True))"

text \<open>
  The state stands for a set of numbers: the mark is the greatest of them, and the mask says which of the sixty-four below it
  are in.  Zero, which no sender uses, is always in.
\<close>

definition tracks :: "seen_from \<Rightarrow> nat set \<Rightarrow> bool" where
  "tracks s B \<longleftrightarrow> unat (sf_high s) \<in> B \<and> (\<forall>b\<in>B. b \<le> unat (sf_high s)) \<and>
     (\<forall>n<64. Suc n \<le> unat (sf_high s) \<longrightarrow> (bit (sf_window s) n \<longleftrightarrow> unat (sf_high s) - Suc n \<in> B))"

lemma tracks_default: "tracks seen_from_default {0}"
  by (simp add: tracks_def seen_from_default_def)

lemma advance_window:
  fixes w :: u64
  assumes "\<And>n. n < 64 \<Longrightarrow> Suc n \<le> H \<Longrightarrow> bit w n \<longleftrightarrow> H - Suc n \<in> B" "H \<in> B" "\<forall>b\<in>B. b \<le> H" "0 < st" "n < 64" "Suc n \<le> H + st"
  shows "bit (if 64 < st then 0 else if st = 64 then push_bit 63 1 else push_bit st w OR push_bit (st - 1) 1) n \<longleftrightarrow>
    H + st - Suc n \<in> insert (H + st) B"
proof -
  have above: "H + st - Suc n \<notin> insert (H + st) B" if "Suc n < st"
    using that assms(3,6) by (auto dest: bspec)
  have at: "H + st - Suc n \<in> insert (H + st) B" if "Suc n = st" using that assms(2) by auto
  show ?thesis
  proof (cases "st < 64")
    case False
    then have "Suc n \<le> st" using assms(5) by simp
    moreover have "bit (push_bit 63 (1 :: u64)) n \<longleftrightarrow> n = 63" unfolding bit_push_bit_iff using assms(5) by auto
    ultimately show ?thesis using above at False assms(5) by (cases "Suc n = st") auto
  next
    case True
    show ?thesis
    proof (cases "st \<le> n")
      case le: True
      then have "H + st - Suc n = H - Suc (n - st)" "Suc (n - st) \<le> H" "n - st < 64" using assms(5,6) by linarith+
      moreover have "H + st - Suc n \<noteq> H + st" using assms(6) by linarith
      moreover have "bit (push_bit st w OR push_bit (st - 1) 1) n \<longleftrightarrow> bit w (n - st)"
        using le assms(4,5) by (simp only: bit_or_iff bit_push_bit_iff bit_1_iff possible_bit_word) auto
      ultimately have "bit (push_bit st w OR push_bit (st - 1) 1) n \<longleftrightarrow> H + st - Suc n \<in> insert (H + st) B"
        using assms(1) [of "n - st"] by (metis insert_iff)
      then show ?thesis using True by simp
    next
      case False
      then have "bit (push_bit st w OR push_bit (st - 1) 1) n \<longleftrightarrow> Suc n = st"
        using assms(4,5) by (simp only: bit_or_iff bit_push_bit_iff bit_1_iff possible_bit_word) auto
      moreover have "Suc n \<le> st" using False by simp
      ultimately show ?thesis using True above at by (cases "Suc n = st") simp_all
    qed
  qed
qed

lemma seen_admit_ahead:
  assumes "tracks s B" "sf_high s < seq"
  shows "snd (seen_admit s seq)" "tracks (fst (seen_admit s seq)) (insert (unat seq) B)"
proof -
  let ?H = "unat (sf_high s)"
  define st where "st = unat (seq - sf_high s)"
  have lt: "?H < unat seq" using assms(2) by (simp add: word_less_nat_alt)
  have st: "st = unat seq - ?H" "0 < st" "unat seq = ?H + st" using lt unat_sub_le [of "sf_high s" seq] by (auto simp: st_def word_le_nat_alt)
  have conds: "GROUP_REPLAY_WINDOW < seq - sf_high s \<longleftrightarrow> 64 < st" "seq - sf_high s = GROUP_REPLAY_WINDOW \<longleftrightarrow> st = 64"
    by (auto simp: GROUP_REPLAY_WINDOW_def st_def word_less_nat_alt word_unat_eq_iff)
  have one: "unat (seq - sf_high s - 1) = st - 1" using st(2) by (simp add: st_def unat_minus_one unat_gt_0)
  define w where "w = (if 64 < st then 0 else if st = 64 then push_bit 63 1 else push_bit st (sf_window s) OR push_bit (st - 1) 1)"
  have admit: "seen_admit s seq = (\<lparr> sf_high = seq, sf_window = w \<rparr>, True)"
    using assms(2) by (simp add: seen_admit_def Let_def conds one w_def flip: st_def) (simp add: GROUP_REPLAY_WINDOW_def)
  show "snd (seen_admit s seq)" by (simp add: admit)
  have "bit w n \<longleftrightarrow> unat seq - Suc n \<in> insert (unat seq) B" if "n < 64" "Suc n \<le> unat seq" for n
    using advance_window [of ?H "sf_window s" B st n] assms(1) that st(2) unfolding w_def st(3) tracks_def by blast
  moreover have "\<forall>b\<in>B. b \<le> unat seq" using assms(1) lt by (auto simp: tracks_def)
  ultimately show "tracks (fst (seen_admit s seq)) (insert (unat seq) B)" by (simp add: admit tracks_def)
qed

lemma seen_admit_behind:
  assumes "tracks s B" "\<not> sf_high s < seq"
  shows "snd (seen_admit s seq) \<longleftrightarrow> unat seq \<notin> B \<and> unat (sf_high s) - unat seq \<le> 64"
    "snd (seen_admit s seq) \<Longrightarrow> tracks (fst (seen_admit s seq)) (insert (unat seq) B)"
    "\<not> snd (seen_admit s seq) \<Longrightarrow> fst (seen_admit s seq) = s"
proof -
  let ?H = "unat (sf_high s)"
  define back_by where "back_by = unat (sf_high s - seq)"
  have le: "unat seq \<le> ?H" "seq \<le> sf_high s" using assms(2) by (auto simp: word_less_nat_alt not_less word_le_nat_alt)
  have b: "back_by = ?H - unat seq" using unat_sub_le [OF le(2)] by (simp add: back_by_def)
  have conds: "GROUP_REPLAY_WINDOW < sf_high s - seq \<longleftrightarrow> 64 < back_by" "sf_high s = seq \<longleftrightarrow> back_by = 0"
    using le b by (auto simp: GROUP_REPLAY_WINDOW_def back_by_def word_less_nat_alt word_unat_eq_iff)
  have masked: "(x AND push_bit n 1 \<noteq> 0) \<longleftrightarrow> bit x n" for x :: u64 and n
    by (simp add: bit_iff_and_push_bit_not_eq_0)
  have admit: "seen_admit s seq = (if back_by = 0 \<or> 64 < back_by \<or> bit (sf_window s) (back_by - 1) then (s, False)
      else (s\<lparr>sf_window := sf_window s OR push_bit (back_by - 1) 1\<rparr>, True))"
  proof (cases "back_by = 0 \<or> 64 < back_by")
    case True
    then show ?thesis using assms(2) by (auto simp: seen_admit_def Let_def conds)
  next
    case False
    then have "unat (sf_high s - seq - 1) = back_by - 1" by (simp add: back_by_def unat_minus_one unat_gt_0)
    then show ?thesis using False assms(2) masked [of "sf_window s" "back_by - 1"] by (simp add: seen_admit_def Let_def conds)
  qed
  have window: "bit (sf_window s) (back_by - 1) \<longleftrightarrow> unat seq \<in> B" if "0 < back_by" "back_by \<le> 64"
  proof -
    have "back_by - 1 < 64" "Suc (back_by - 1) \<le> ?H" "?H - Suc (back_by - 1) = unat seq" using that b le(1) by auto
    then show ?thesis using assms(1) unfolding tracks_def by metis
  qed
  have zero: "back_by = 0 \<Longrightarrow> unat seq \<in> B" using b le(1) assms(1) by (simp add: tracks_def)
  show "snd (seen_admit s seq) \<longleftrightarrow> unat seq \<notin> B \<and> ?H - unat seq \<le> 64"
    using window zero by (auto simp: admit simp flip: b)
  show "fst (seen_admit s seq) = s" if "\<not> snd (seen_admit s seq)" using that by (auto simp: admit split: if_splits)
  show "tracks (fst (seen_admit s seq)) (insert (unat seq) B)" if taken: "snd (seen_admit s seq)"
  proof -
    have ok: "0 < back_by" "back_by \<le> 64" "fst (seen_admit s seq) = s\<lparr>sf_window := sf_window s OR push_bit (back_by - 1) 1\<rparr>"
      using taken by (auto simp: admit split: if_splits)
    have "bit (sf_window s OR push_bit (back_by - 1) 1) n \<longleftrightarrow> ?H - Suc n \<in> insert (unat seq) B" if "n < 64" "Suc n \<le> ?H" for n
    proof -
      have "?H - Suc n = unat seq \<longleftrightarrow> n = back_by - 1" using that b ok(1) le(1) by auto
      moreover have "bit (sf_window s OR push_bit (back_by - 1) 1) n \<longleftrightarrow> bit (sf_window s) n \<or> n = back_by - 1"
        using that(1) ok(2) by (auto simp: bit_simps)
      ultimately show ?thesis using assms(1) that by (auto simp: tracks_def)
    qed
    then show ?thesis using assms(1) le(1) by (simp add: ok(3) tracks_def)
  qed
qed

text \<open>The filter on sequence numbers keeps the contract of Replay_Filter.\<close>

definition admit_state :: "seen_from \<Rightarrow> u64 \<Rightarrow> seen_from" where
  "admit_state s seq = fst (seen_admit s seq)"

definition admitted :: "seen_from \<Rightarrow> u64 \<Rightarrow> u64 option" where
  "admitted s seq = (if snd (seen_admit s seq) then Some seq else None)"

definition spent :: "seen_from \<Rightarrow> u64 set \<Rightarrow> bool" where
  "spent s A \<longleftrightarrow> 0 \<notin> A \<and> tracks s (insert 0 (unat ` A))"

lemma spent_step:
  assumes "spent s A"
  shows "admitted s seq = None \<Longrightarrow> spent (admit_state s seq) A"
    "admitted s seq = Some c \<Longrightarrow> c \<notin> A" "admitted s seq = Some c \<Longrightarrow> spent (admit_state s seq) (insert c A)"
proof -
  let ?B = "insert 0 (unat ` A)"
  have t: "tracks s ?B" "0 \<notin> A" using assms by (auto simp: spent_def)
  have "admitted s seq = None \<or> seq \<noteq> 0 \<and> seq \<notin> A \<and> admitted s seq = Some seq \<and> tracks (admit_state s seq) (insert (unat seq) ?B)"
  proof (cases "sf_high s < seq")
    case True
    have "\<forall>b\<in>?B. b < unat seq" using t(1) True by (auto simp: tracks_def word_less_nat_alt)
    then have "unat seq \<notin> ?B" by blast
    then have "seq \<noteq> 0" "seq \<notin> A" by auto
    then show ?thesis using seen_admit_ahead [OF t(1) True] by (auto simp: admitted_def admit_state_def)
  next
    case False
    note behind = seen_admit_behind [OF t(1) False]
    show ?thesis
    proof (cases "snd (seen_admit s seq)")
      case True
      then have "unat seq \<notin> ?B" using behind(1) by blast
      then have "seq \<noteq> 0" "seq \<notin> A" by auto
      then show ?thesis using True behind(2) by (auto simp: admitted_def admit_state_def)
    qed (simp add: admitted_def)
  qed
  note cases = this
  have "insert (unat seq) ?B = insert 0 (unat ` insert seq A)" by auto
  then show "admitted s seq = Some c \<Longrightarrow> c \<notin> A" "admitted s seq = Some c \<Longrightarrow> spent (admit_state s seq) (insert c A)"
    using cases t(2) by (auto simp: spent_def)
  show "spent (admit_state s seq) A" if none: "admitted s seq = None"
  proof -
    have "\<not> sf_high s < seq" "\<not> snd (seen_admit s seq)"
      using none seen_admit_ahead(1) [OF t(1)] by (auto simp: admitted_def split: if_splits)
    then show ?thesis using seen_admit_behind(3) [OF t(1)] assms by (simp add: admit_state_def)
  qed
qed

interpretation sq: replay_filter admit_state admitted spent
  by unfold_locales (rule spent_step; assumption)+

section \<open>Errors and participants\<close>

datatype group_error =
    Mls string
  | Codec string
  | UnexpectedMessage
  | NoSuchMember
  | PersonTooLong nat
  | CannotRemoveSelf
  | AddedWithoutASecondMember
  | NothingToConfirm
  | TheGroupHasSplit u64 u64
  | TooManyAdmins nat
  | AddedBySomebodyWhoIsNotAnAdmin
  | RestoredAndNotRekeyed
  | NoSequence
  | SequenceSpent u64
  | UnattributedMessage

definition split_sequence :: "bytes \<Rightarrow> (group_error, u64 \<times> bytes) result" where
  "split_sequence bs =
     (if length bs < SEQ_LEN then Inl NoSequence
      else Inr (word_of_nat (of_be (take SEQ_LEN bs)), drop SEQ_LEN bs))"

definition MAX_PERSON_LEN :: nat where "MAX_PERSON_LEN = 255"

definition encode_identity :: "bytes \<Rightarrow> bytes \<Rightarrow> (group_error, bytes) result" where
  "encode_identity person dev =
     (if MAX_PERSON_LEN < length person then Inl (PersonTooLong (length person))
      else Inr (word_of_nat (length person) # person @ dev))"

fun decode_identity :: "bytes \<Rightarrow> (bytes \<times> bytes) option" where
  "decode_identity [] = None"
| "decode_identity (len # rest) =
     (if length rest < unat len then None else Some (take (unat len) rest, drop (unat len) rest))"

record participant =
  p_identity :: bytes
  p_device :: bytes
  p_signature_key :: bytes
  p_well_formed :: bool

definition from_credential :: "bytes \<Rightarrow> bytes \<Rightarrow> participant" where
  "from_credential credential key =
     (case decode_identity credential of
        Some (person, dev) \<Rightarrow> \<lparr> p_identity = person, p_device = dev, p_signature_key = key, p_well_formed = True \<rparr>
      | None \<Rightarrow> \<lparr> p_identity = credential, p_device = [], p_signature_key = key, p_well_formed = False \<rparr>)"

definition same_person_as :: "participant \<Rightarrow> participant \<Rightarrow> bool" where
  "same_person_as p q \<longleftrightarrow> p_well_formed p \<and> p_well_formed q \<and> p_identity p = p_identity q"

section \<open>The admin list\<close>

fun encode_people :: "bytes list \<Rightarrow> (group_error, bytes) result" where
  "encode_people [] = Inr []"
| "encode_people (who # ws) =
     (if 255 < length who then Inl (PersonTooLong (length who))
      else bind_result (encode_people ws) (\<lambda>out. Inr (word_of_nat (length who) # who @ out)))"

definition encode_admins :: "bytes list \<Rightarrow> (group_error, bytes) result" where
  "encode_admins admins =
     (if 255 < length admins then Inl (TooManyAdmins (length admins))
      else bind_result (encode_people admins) (\<lambda>out. Inr (word_of_nat (length admins) # out)))"

text \<open>The loop of \<^verbatim>\<open>decode_admins\<close>: what is read, and what is left of the bytes.\<close>

fun decode_people :: "nat \<Rightarrow> bytes \<Rightarrow> (bytes list \<times> bytes) option" where
  "decode_people 0 bs = Some ([], bs)"
| "decode_people (Suc n) bs =
     (case bs of
        [] \<Rightarrow> None
      | len # rest \<Rightarrow>
          if length rest < unat len then None
          else map_option (\<lambda>(ws, left). (take (unat len) rest # ws, left)) (decode_people n (drop (unat len) rest)))"

fun decode_admins :: "bytes \<Rightarrow> bytes list option" where
  "decode_admins [] = None"
| "decode_admins (count # rest) =
     (case decode_people (unat count) rest of
        Some (ws, []) \<Rightarrow> Some ws
      | _ \<Rightarrow> None)"

lemma unat_length_byte: "n \<le> 255 \<Longrightarrow> unat (word_of_nat n :: u8) = n"
  by (simp add: unat_of_nat)

lemma decode_encoded_people: "encode_people ws = Inr bs \<Longrightarrow> decode_people (length ws) (bs @ rest) = Some (ws, rest)"
proof (induction ws arbitrary: bs)
  case (Cons w ws)
  then obtain out where "encode_people ws = Inr out" "length w \<le> 255" "bs = word_of_nat (length w) # w @ out"
    by (auto simp: result_simps split: if_splits)
  then show ?case using Cons.IH by (simp add: unat_length_byte)
qed simp

lemma encode_decoded_people:
  "decode_people n bs = Some (ws, rest) \<Longrightarrow> length ws = n \<and> (\<exists>out. encode_people ws = Inr out \<and> bs = out @ rest)"
proof (induction n arbitrary: bs ws)
  case (Suc n)
  from Suc.prems obtain len bs' ws' where bs: "bs = len # bs'" and le: "unat len \<le> length bs'"
    and dec: "decode_people n (drop (unat len) bs') = Some (ws', rest)" and ws: "ws = take (unat len) bs' # ws'"
    by (auto split: list.splits if_splits)
  from Suc.IH [OF dec] obtain out where "length ws' = n" "encode_people ws' = Inr out" "drop (unat len) bs' = out @ rest" by blast
  moreover have "unat len \<le> 255" using unat_byte_less [of len] by linarith
  moreover have "bs' = take (unat len) bs' @ drop (unat len) bs'" by simp
  ultimately show ?case using le by (auto simp: ws bs min_def)
qed simp

text \<open>An admin list is read back exactly as it was written, and nothing else is read as one: every byte string that decodes is
  the encoding of what it decodes to.\<close>

theorem admin_list_reads_back:
  "(encode_admins ws = Inr bs) = (decode_admins bs = Some ws)"
proof
  assume enc: "encode_admins ws = Inr bs"
  then obtain out where "length ws \<le> 255" "encode_people ws = Inr out" "bs = word_of_nat (length ws) # out"
    by (auto simp: encode_admins_def result_simps split: if_splits)
  then show "decode_admins bs = Some ws" using decode_encoded_people [of ws out "[]"] by (simp add: unat_length_byte)
next
  assume dec: "decode_admins bs = Some ws"
  then obtain count rest where bs: "bs = count # rest" "decode_people (unat count) rest = Some (ws, [])"
    by (cases bs) (auto split: option.splits list.splits)
  from encode_decoded_people [OF bs(2)] have "length ws = unat count" "encode_people ws = Inr rest" by auto
  moreover have "unat count \<le> 255" using unat_byte_less [of count] by linarith
  moreover have "word_of_nat (unat count) = count" by simp
  ultimately show "encode_admins ws = Inr bs" using bs(1) by (auto simp: encode_admins_def)
qed

text \<open>So is an identity.\<close>

lemma identity_reads_back: "(encode_identity person dev = Inr bs) = (decode_identity bs = Some (person, dev))"
proof
  show "decode_identity bs = Some (person, dev)" if "encode_identity person dev = Inr bs"
    using that by (auto simp: encode_identity_def MAX_PERSON_LEN_def unat_length_byte split: if_splits)
  show "encode_identity person dev = Inr bs" if "decode_identity bs = Some (person, dev)"
  proof (cases bs)
    case (Cons len rest)
    then have "person = take (unat len) rest" "dev = drop (unat len) rest" "unat len \<le> length rest"
      using that by (auto split: if_splits)
    moreover have "unat len \<le> 255" using unat_byte_less [of len] by linarith
    ultimately show ?thesis using Cons by (simp add: encode_identity_def MAX_PERSON_LEN_def min_def)
  qed (use that in simp)
qed

section \<open>The window against its specification\<close>

text \<open>The specification keeps every number it has taken: it takes one that is new and not more than sixty-four behind the greatest.\<close>

definition spec_admit :: "nat set \<Rightarrow> u64 \<Rightarrow> bool" where
  "spec_admit B seq \<longleftrightarrow> unat seq \<notin> B \<and> Max B - unat seq \<le> 64"

definition spec_state :: "nat set \<Rightarrow> u64 \<Rightarrow> nat set" where
  "spec_state B seq = (if spec_admit B seq then insert (unat seq) B else B)"

definition spec_admitted :: "nat set \<Rightarrow> u64 \<Rightarrow> u64 option" where
  "spec_admitted B seq = (if spec_admit B seq then Some seq else None)"

lemma tracks_Max: "tracks s B \<Longrightarrow> finite B \<and> Max B = unat (sf_high s)"
  unfolding tracks_def by (metis finite_nat_set_iff_bounded_le Max_eqI)

lemma seen_admit_spec:
  assumes "tracks s B"
  shows "snd (seen_admit s seq) = spec_admit B seq" "tracks (admit_state s seq) (spec_state B seq)"
proof -
  have m: "Max B = unat (sf_high s)" using tracks_Max [OF assms] by simp
  have "snd (seen_admit s seq) = spec_admit B seq \<and> tracks (admit_state s seq) (spec_state B seq)"
  proof (cases "sf_high s < seq")
    case True
    have "unat seq \<notin> B" using assms True unfolding tracks_def by (metis leD word_less_nat_alt)
    then have "spec_admit B seq" using True m by (simp add: spec_admit_def word_less_nat_alt)
    then show ?thesis using seen_admit_ahead [OF assms True] by (simp add: spec_state_def admit_state_def)
  next
    case False
    note b = seen_admit_behind [OF assms False]
    show ?thesis using b assms m by (cases "snd (seen_admit s seq)") (auto simp: spec_state_def spec_admit_def admit_state_def)
  qed
  then show "snd (seen_admit s seq) = spec_admit B seq" "tracks (admit_state s seq) (spec_state B seq)" by auto
qed

text \<open>A mark and a mask of sixty-four bits take exactly the numbers that a filter would take which remembers all of them.  Whatever
  numbers arrive in whatever order, both hand over the same ones.\<close>

theorem sequence_window_refines:
  "run_taken admit_state admitted seen_from_default xs = run_taken spec_state spec_admitted {0} xs"
proof -
  have "run_taken admit_state admitted s xs = run_taken spec_state spec_admitted B xs" if "tracks s B" for s B
    using that
  proof (induction xs arbitrary: s B)
    case (Cons x xs)
    then show ?case using seen_admit_spec [OF Cons.prems] by (simp add: admitted_def spec_admitted_def)
  qed simp
  then show ?thesis using tracks_default by blast
qed

end
