(* ===== verification/Group_Conversation.thy ===== *)
theory Group_Conversation
  imports Group_Sequence "HOL-Library.List_Lexorder"
begin

text \<open>
  A conversation of a group, \<^verbatim>\<open>Conversation\<close> of \<^verbatim>\<open>rotelyx-crypto/src/group.rs\<close>: what it sends and receives, who may be added, and
  what happens when two members commit at once.  The MLS library is not part of the repository: it is the record
  \<open>mls\<close> of the calls the code makes, over a type of group states, of staged commits and of queued proposals.  A call
  gives back the group it leaves behind whether or not it succeeds; a method gives back the conversation it leaves
  behind, together with its result.
\<close>

section \<open>The library\<close>

record leaf_member =
  lm_index :: nat
  lm_credential :: bytes
  lm_signature_key :: bytes

datatype proposer = MemberAt nat | NotAMember

record wire_message =
  wm_is_commit :: bool
  wm_epoch :: u64

datatype ('s, 'q) content = Application bytes | StagedCommit 's | QueuedProposal 'q | OtherContent

record ('g, 's, 'q) mls =
  mls_hash :: "bytes \<Rightarrow> bytes"
  mls_epoch :: "'g \<Rightarrow> u64"
  mls_members :: "'g \<Rightarrow> leaf_member list"
  mls_extensions :: "'g \<Rightarrow> (u16 \<times> bytes) list"
  mls_parse :: "bytes \<Rightarrow> (group_error, wire_message) result"
  mls_process :: "'g \<Rightarrow> bytes \<Rightarrow> 'g \<times> (group_error, nat option \<times> ('s, 'q) content) result"
  mls_adds :: "'s \<Rightarrow> (proposer \<times> bytes) list"
  mls_merge_staged :: "'g \<Rightarrow> 's \<Rightarrow> 'g \<times> (group_error, unit) result"
  mls_merge_pending :: "'g \<Rightarrow> 'g \<times> (group_error, unit) result"
  mls_clear_pending :: "'g \<Rightarrow> 'g \<times> (group_error, unit) result"
  mls_proposals :: "'g \<Rightarrow> 'q list"
  mls_joining :: "'q \<Rightarrow> bytes option"
  mls_store_proposal :: "'g \<Rightarrow> 'q \<Rightarrow> 'g \<times> (group_error, unit) result"
  mls_remove_proposal :: "'g \<Rightarrow> 'q \<Rightarrow> 'g \<times> (group_error, unit) result"
  mls_create_message :: "'g \<Rightarrow> bytes \<Rightarrow> 'g \<times> (group_error, bytes) result"
  mls_propose_add :: "'g \<Rightarrow> bytes \<Rightarrow> 'g \<times> (group_error, bytes) result"
  mls_add_members :: "'g \<Rightarrow> bytes \<Rightarrow> 'g \<times> (group_error, bytes \<times> bytes) result"
  mls_remove_members :: "'g \<Rightarrow> nat \<Rightarrow> 'g \<times> (group_error, bytes) result"
  mls_commit_pending :: "'g \<Rightarrow> 'g \<times> (group_error, bytes \<times> bytes option) result"
  mls_update_extension :: "'g \<Rightarrow> u16 \<Rightarrow> bytes \<Rightarrow> 'g \<times> (group_error, bytes) result"
  mls_rekey :: "'g \<Rightarrow> 'g \<times> (group_error, bytes) result"

section \<open>A conversation\<close>

record 'g conversation =
  cv_group :: 'g
  cv_restored_needs_rekey :: bool
  cv_seq_epoch :: u64
  cv_sent_seq :: u64
  cv_seen_seq :: "(nat \<times> seen_from) list"
  cv_last_applied :: "bytes option"
  cv_pending :: "bytes option"

record membership_change =
  mc_added :: "participant list"
  mc_removed :: "participant list"
  mc_by :: "participant option"

datatype received =
    Message "nat option" bytes
  | MembershipChanged membership_change
  | AdditionProposed "participant option" "participant list"
  | NothingToDo
  | OurCommitLost received
  | TheirCommitLost

definition opened :: "('g, 's, 'q) mls \<Rightarrow> 'g \<Rightarrow> bool \<Rightarrow> 'g conversation" where
  "opened m g restored =
     \<lparr> cv_group = g, cv_restored_needs_rekey = restored, cv_seq_epoch = mls_epoch m g, cv_sent_seq = 0, cv_seen_seq = [],
       cv_last_applied = None, cv_pending = None \<rparr>"

definition sync_seq_epoch :: "('g, 's, 'q) mls \<Rightarrow> 'g conversation \<Rightarrow> 'g conversation" where
  "sync_seq_epoch m cv =
     (let now = mls_epoch m (cv_group cv)
      in if now \<noteq> cv_seq_epoch cv then cv\<lparr>cv_seq_epoch := now, cv_sent_seq := 0, cv_seen_seq := []\<rparr> else cv)"

definition roster :: "('g, 's, 'q) mls \<Rightarrow> 'g \<Rightarrow> participant list" where
  "roster m g = map (\<lambda>l. from_credential (lm_credential l) (lm_signature_key l)) (mls_members m g)"

definition participant_at :: "('g, 's, 'q) mls \<Rightarrow> 'g \<Rightarrow> nat \<Rightarrow> participant option" where
  "participant_at m g i =
     map_option (\<lambda>l. from_credential (lm_credential l) (lm_signature_key l)) (find (\<lambda>l. lm_index l = i) (mls_members m g))"

section \<open>Who may be added\<close>

definition added_on_one_authority :: "('g, 's, 'q) mls \<Rightarrow> 'g \<Rightarrow> 's \<Rightarrow> nat option \<Rightarrow> bool" where
  "added_on_one_authority m g staged committer =
     (if length (mls_members m g) \<le> 1 then False
      else
        let committer_person = (case Option.bind committer (participant_at m g) of
              Some p \<Rightarrow> if p_well_formed p then Some p else None | None \<Rightarrow> None)
        in list_ex (\<lambda>(who, credential).
             let proposed_by_committer = (case who of MemberAt i \<Rightarrow> Some i = committer | NotAMember \<Rightarrow> True)
             in if \<not> proposed_by_committer then False
                else
                  let joining = from_credential credential []
                  in (case committer_person of Some p \<Rightarrow> \<not> same_person_as p joining | None \<Rightarrow> True))
           (mls_adds m staged))"

definition ADMINS_EXTENSION :: u16 where "ADMINS_EXTENSION = 0xF001"

definition admins :: "('g, 's, 'q) mls \<Rightarrow> 'g \<Rightarrow> bytes list" where
  "admins m g =
     (case List.map_filter (\<lambda>(t, d). if t = ADMINS_EXTENSION then decode_admins d else None) (mls_extensions m g) of
        [] \<Rightarrow> []
      | ws # _ \<Rightarrow> ws)"

definition admin_rule_applies :: "('g, 's, 'q) mls \<Rightarrow> 'g \<Rightarrow> bytes list option" where
  "admin_rule_applies m g =
     (let ws = admins m g
      in if ws = [] then None
         else if list_ex (\<lambda>who. list_ex (\<lambda>p. p_well_formed p \<and> p_identity p = who) (roster m g)) ws then Some ws
         else None)"

definition added_by_somebody_who_may_not :: "('g, 's, 'q) mls \<Rightarrow> 'g \<Rightarrow> 's \<Rightarrow> nat option \<Rightarrow> bool" where
  "added_by_somebody_who_may_not m g staged committer =
     (if mls_adds m staged = [] then False
      else
        (case admin_rule_applies m g of
           None \<Rightarrow> False
         | Some ws \<Rightarrow>
             (case Option.bind committer (participant_at m g) of
                None \<Rightarrow> True
              | Some who \<Rightarrow> \<not> (p_well_formed who \<and> p_identity who \<in> set ws))))"

section \<open>Commits of one's own\<close>

definition settle :: "('g, 's, 'q) mls \<Rightarrow> 'g conversation \<Rightarrow> 'g conversation \<times> (group_error, bool) result" where
  "settle m cv =
     (case cv_pending cv of
        None \<Rightarrow> (cv, Inr False)
      | Some ours \<Rightarrow>
          let cv = cv\<lparr>cv_pending := None, cv_last_applied := Some (mls_hash m ours)\<rparr>
          in (case mls_merge_pending m (cv_group cv) of
                (g, Inl e) \<Rightarrow> (cv\<lparr>cv_group := g\<rparr>, Inl e)
              | (g, Inr _) \<Rightarrow> (cv\<lparr>cv_group := g\<rparr>, Inr True)))"

definition hold :: "('g, 's, 'q) mls \<Rightarrow> 'g conversation \<Rightarrow> bytes \<Rightarrow> 'g conversation \<times> (group_error, unit) result" where
  "hold m cv bs =
     (if cv_pending cv \<noteq> None then
        (case settle m cv of
           (cv, Inl e) \<Rightarrow> (cv, Inl e)
         | (cv, Inr _) \<Rightarrow> (cv\<lparr>cv_pending := Some bs\<rparr>, Inr ()))
      else (cv\<lparr>cv_pending := Some bs\<rparr>, Inr ()))"

definition wins :: "('g, 's, 'q) mls \<Rightarrow> bytes \<Rightarrow> bytes \<Rightarrow> bool" where
  "wins m theirs ours \<longleftrightarrow> mls_hash m theirs < mls_hash m ours"

text \<open>Holding a commit the library made, and handing it out.\<close>

definition hold_made :: "('g, 's, 'q) mls \<Rightarrow> 'g conversation \<Rightarrow> bytes \<Rightarrow> 'a \<Rightarrow> 'g conversation \<times> (group_error, 'a) result" where
  "hold_made m cv commit x = (case hold m cv commit of (cv, Inl e) \<Rightarrow> (cv, Inl e) | (cv, Inr _) \<Rightarrow> (cv, Inr x))"

definition set_admins :: "('g, 's, 'q) mls \<Rightarrow> 'g conversation \<Rightarrow> bytes list \<Rightarrow> 'g conversation \<times> (group_error, bytes) result" where
  "set_admins m cv ws =
     (case encode_admins ws of
        Inl e \<Rightarrow> (cv, Inl e)
      | Inr encoded \<Rightarrow>
          (case mls_update_extension m (cv_group cv) ADMINS_EXTENSION encoded of
             (g, Inl e) \<Rightarrow> (cv\<lparr>cv_group := g\<rparr>, Inl e)
           | (g, Inr commit) \<Rightarrow> hold_made m (cv\<lparr>cv_group := g\<rparr>) commit commit))"

definition propose_invite :: "('g, 's, 'q) mls \<Rightarrow> 'g conversation \<Rightarrow> bytes \<Rightarrow> 'g conversation \<times> (group_error, bytes) result" where
  "propose_invite m cv key_package =
     (case mls_propose_add m (cv_group cv) key_package of (g, r) \<Rightarrow> (cv\<lparr>cv_group := g\<rparr>, r))"

definition confirm_additions ::
  "('g, 's, 'q) mls \<Rightarrow> 'g conversation \<Rightarrow> 'g conversation \<times> (group_error, bytes \<times> bytes option) result" where
  "confirm_additions m cv =
     (if mls_proposals m (cv_group cv) = [] then (cv, Inl NothingToConfirm)
      else
        (case mls_commit_pending m (cv_group cv) of
           (g, Inl e) \<Rightarrow> (cv\<lparr>cv_group := g\<rparr>, Inl e)
         | (g, Inr (commit, welcome)) \<Rightarrow> hold_made m (cv\<lparr>cv_group := g\<rparr>) commit (commit, welcome)))"

definition invite :: "('g, 's, 'q) mls \<Rightarrow> 'g conversation \<Rightarrow> bytes \<Rightarrow> 'g conversation \<times> (group_error, bytes \<times> bytes) result" where
  "invite m cv key_package =
     (case mls_add_members m (cv_group cv) key_package of
        (g, Inl e) \<Rightarrow> (cv\<lparr>cv_group := g\<rparr>, Inl e)
      | (g, Inr (commit, welcome)) \<Rightarrow> hold_made m (cv\<lparr>cv_group := g\<rparr>) commit (commit, welcome))"

definition remove_member ::
  "('g, 's, 'q) mls \<Rightarrow> 'g conversation \<Rightarrow> bytes \<Rightarrow> bytes \<Rightarrow> 'g conversation \<times> (group_error, bytes) result" where
  "remove_member m cv own_key key =
     (case find (\<lambda>l. lm_signature_key l = key) (mls_members m (cv_group cv)) of
        None \<Rightarrow> (cv, Inl NoSuchMember)
      | Some target \<Rightarrow>
          if lm_signature_key target = own_key then (cv, Inl CannotRemoveSelf)
          else
            (case mls_remove_members m (cv_group cv) (lm_index target) of
               (g, Inl e) \<Rightarrow> (cv\<lparr>cv_group := g\<rparr>, Inl e)
             | (g, Inr commit) \<Rightarrow> hold_made m (cv\<lparr>cv_group := g\<rparr>) commit commit))"

definition trust_restored_state :: "'g conversation \<Rightarrow> 'g conversation" where
  "trust_restored_state cv = cv\<lparr>cv_restored_needs_rekey := False\<rparr>"

definition rekey_after_restore :: "('g, 's, 'q) mls \<Rightarrow> 'g conversation \<Rightarrow> 'g conversation \<times> (group_error, bytes) result" where
  "rekey_after_restore m cv =
     (case mls_rekey m (cv_group cv) of
        (g, Inl e) \<Rightarrow> (cv\<lparr>cv_group := g\<rparr>, Inl e)
      | (g, Inr commit) \<Rightarrow>
          (case hold m (cv\<lparr>cv_group := g\<rparr>) commit of
             (cv, Inl e) \<Rightarrow> (cv, Inl e)
           | (cv, Inr _) \<Rightarrow> (cv\<lparr>cv_restored_needs_rekey := False\<rparr>, Inr commit)))"

section \<open>Sending\<close>

fun each_proposal :: "('g \<Rightarrow> 'q \<Rightarrow> 'g \<times> (group_error, unit) result) \<Rightarrow> 'g \<Rightarrow> 'q list \<Rightarrow> 'g \<times> (group_error, unit) result" where
  "each_proposal f g [] = (g, Inr ())"
| "each_proposal f g (q # qs) = (case f g q of (g, Inl e) \<Rightarrow> (g, Inl e) | (g, Inr _) \<Rightarrow> each_proposal f g qs)"

definition send_framed :: "('g, 's, 'q) mls \<Rightarrow> 'g \<Rightarrow> bytes \<Rightarrow> 'g \<times> (group_error, bytes) result" where
  "send_framed m g framed =
     (let parked = mls_proposals m g
      in if list_ex (\<lambda>q. mls_joining m q = None) parked then mls_create_message m g framed
         else
           (case each_proposal (mls_remove_proposal m) g parked of
              (g, Inl e) \<Rightarrow> (g, Inl e)
            | (g, Inr _) \<Rightarrow>
                (case mls_create_message m g framed of
                   (g, created) \<Rightarrow>
                     (case each_proposal (mls_store_proposal m) g parked of
                        (g, Inl e) \<Rightarrow> (g, Inl e)
                      | (g, Inr _) \<Rightarrow> (g, created)))))"

definition group_send :: "('g, 's, 'q) mls \<Rightarrow> 'g conversation \<Rightarrow> bytes \<Rightarrow> 'g conversation \<times> (group_error, bytes) result" where
  "group_send m cv plaintext =
     (if cv_restored_needs_rekey cv then (cv, Inl RestoredAndNotRekeyed)
      else
        let cv = sync_seq_epoch m cv;
            seq = cv_sent_seq cv + 1;
            cv = cv\<lparr>cv_sent_seq := seq\<rparr>
        in (case send_framed m (cv_group cv) (u64_be seq @ plaintext) of (g, r) \<Rightarrow> (cv\<lparr>cv_group := g\<rparr>, r)))"

section \<open>Receiving\<close>

definition receive_application ::
  "'g conversation \<Rightarrow> nat option \<Rightarrow> bytes \<Rightarrow> 'g conversation \<times> (group_error, received) result" where
  "receive_application cv sender plain =
     (case split_sequence plain of
        Inl e \<Rightarrow> (cv, Inl e)
      | Inr (seq, body) \<Rightarrow>
          (case sender of
             None \<Rightarrow> (cv, Inl UnattributedMessage)
           | Some i \<Rightarrow>
               (case seen_admit (case map_of (cv_seen_seq cv) i of Some s \<Rightarrow> s | None \<Rightarrow> seen_from_default) seq of
                  (s, ok) \<Rightarrow>
                    let cv = cv\<lparr>cv_seen_seq := AList.update i s (cv_seen_seq cv)\<rparr>
                    in if ok then (cv, Inr (Message sender body)) else (cv, Inl (SequenceSpent seq)))))"

definition receive_commit ::
  "('g, 's, 'q) mls \<Rightarrow> 'g conversation \<Rightarrow> bytes \<Rightarrow> nat option \<Rightarrow> 's \<Rightarrow> 'g conversation \<times> (group_error, received) result" where
  "receive_commit m cv bs sender staged =
     (let g = cv_group cv; old = roster m g; by_whom = Option.bind sender (participant_at m g)
      in if added_on_one_authority m g staged sender then (cv, Inl AddedWithoutASecondMember)
         else if added_by_somebody_who_may_not m g staged sender then (cv, Inl AddedBySomebodyWhoIsNotAnAdmin)
         else
           (case mls_merge_staged m g staged of
              (g, Inl e) \<Rightarrow> (cv\<lparr>cv_group := g\<rparr>, Inl e)
            | (g, Inr _) \<Rightarrow>
                let cv = cv\<lparr>cv_group := g, cv_last_applied := Some (mls_hash m bs), cv_restored_needs_rekey := False\<rparr>;
                    new = roster m g;
                    added = filter (\<lambda>p. \<not> list_ex (\<lambda>q. p_signature_key q = p_signature_key p) old) new;
                    removed = filter (\<lambda>p. \<not> list_ex (\<lambda>q. p_signature_key q = p_signature_key p) new) old
                in if added = [] \<and> removed = [] then (cv, Inr NothingToDo)
                   else (cv, Inr (MembershipChanged \<lparr> mc_added = added, mc_removed = removed, mc_by = by_whom \<rparr>))))"

definition receive_proposal ::
  "('g, 's, 'q) mls \<Rightarrow> 'g conversation \<Rightarrow> nat option \<Rightarrow> 'q \<Rightarrow> 'g conversation \<times> (group_error, received) result" where
  "receive_proposal m cv sender q =
     (let by_whom = Option.bind sender (participant_at m (cv_group cv));
          joining = (case mls_joining m q of Some c \<Rightarrow> [from_credential c []] | None \<Rightarrow> [])
      in (case mls_store_proposal m (cv_group cv) q of
            (g, Inl e) \<Rightarrow> (cv\<lparr>cv_group := g\<rparr>, Inl e)
          | (g, Inr _) \<Rightarrow>
              (cv\<lparr>cv_group := g\<rparr>, Inr (if joining = [] then NothingToDo else AdditionProposed by_whom joining))))"

definition receive_processed ::
  "('g, 's, 'q) mls \<Rightarrow> 'g conversation \<Rightarrow> bytes \<Rightarrow> 'g conversation \<times> (group_error, received) result" where
  "receive_processed m cv bs =
     (case mls_process m (cv_group cv) bs of
        (g, Inl e) \<Rightarrow> (cv\<lparr>cv_group := g\<rparr>, Inl e)
      | (g, Inr (sender, content)) \<Rightarrow>
          let cv = cv\<lparr>cv_group := g\<rparr>
          in (case content of
                Application plain \<Rightarrow> receive_application cv sender plain
              | StagedCommit staged \<Rightarrow> receive_commit m cv bs sender staged
              | QueuedProposal q \<Rightarrow> receive_proposal m cv sender q
              | OtherContent \<Rightarrow> (cv, Inr NothingToDo)))"

function group_receive :: "('g, 's, 'q) mls \<Rightarrow> 'g conversation \<Rightarrow> bytes \<Rightarrow> 'g conversation \<times> (group_error, received) result" where
  "group_receive m cv0 bs =
     (let cv = sync_seq_epoch m cv0
      in case mls_parse m bs of
           Inl e \<Rightarrow> (cv, Inl e)
         | Inr w \<Rightarrow>
             if wm_is_commit w \<and> wm_epoch w < mls_epoch m (cv_group cv) then
               (if cv_last_applied cv = Some (mls_hash m bs) then (cv, Inr NothingToDo)
                else (cv, Inl (TheGroupHasSplit (wm_epoch w) (mls_epoch m (cv_group cv)))))
             else
               (case cv_pending cv of
                  Some ours \<Rightarrow>
                    if wm_is_commit w then
                      (if wins m bs ours then
                         (case mls_clear_pending m (cv_group cv) of
                            (g, Inl e) \<Rightarrow> (cv\<lparr>cv_group := g\<rparr>, Inl e)
                          | (g, Inr _) \<Rightarrow>
                              (case group_receive m (cv\<lparr>cv_group := g, cv_pending := None\<rparr>) bs of
                                 (cv', Inl e) \<Rightarrow> (cv', Inl e)
                               | (cv', Inr taken) \<Rightarrow> (cv', Inr (OurCommitLost taken))))
                       else
                         (case settle m cv of
                            (cv', Inl e) \<Rightarrow> (cv', Inl e)
                          | (cv', Inr _) \<Rightarrow> (cv', Inr TheirCommitLost)))
                    else receive_processed m cv bs
                | None \<Rightarrow> receive_processed m cv bs))"
  by pat_completeness auto
termination
  by (relation "measure (\<lambda>(m, cv, bs). case cv_pending cv of None \<Rightarrow> 0 | Some _ \<Rightarrow> 1)")
    (auto simp: sync_seq_epoch_def Let_def split: if_splits)

declare group_receive.simps [simp del]

section \<open>What a message can do to a conversation\<close>

text \<open>MLS numbers its epochs upwards: no call takes a group back, and dropping a commit of one's own leaves the epoch alone.\<close>

definition epochs_advance :: "('g, 's, 'q) mls \<Rightarrow> bool" where
  "epochs_advance m \<longleftrightarrow>
     (\<forall>g bs. mls_epoch m g \<le> mls_epoch m (fst (mls_process m g bs))) \<and>
     (\<forall>g s. mls_epoch m g \<le> mls_epoch m (fst (mls_merge_staged m g s))) \<and>
     (\<forall>g. mls_epoch m g \<le> mls_epoch m (fst (mls_merge_pending m g))) \<and>
     (\<forall>g. mls_epoch m (fst (mls_clear_pending m g)) = mls_epoch m g) \<and>
     (\<forall>g q. mls_epoch m g \<le> mls_epoch m (fst (mls_store_proposal m g q)))"

definition same_numbers :: "'g conversation \<Rightarrow> 'g conversation \<Rightarrow> bool" where
  "same_numbers a b \<longleftrightarrow> cv_seq_epoch a = cv_seq_epoch b \<and> cv_seen_seq a = cv_seen_seq b"

lemma same_numbers_refl [simp]: "same_numbers a a"
  by (simp add: same_numbers_def)

lemma settle_keeps:
  assumes "epochs_advance m" "settle m cv = (cv', r)"
  shows "same_numbers cv' cv" "mls_epoch m (cv_group cv) \<le> mls_epoch m (cv_group cv')"
proof -
  obtain g x where g: "mls_merge_pending m (cv_group cv) = (g, x)" by (cases "mls_merge_pending m (cv_group cv)")
  have "mls_epoch m (cv_group cv) \<le> mls_epoch m (fst (mls_merge_pending m (cv_group cv)))" using assms(1) by (simp add: epochs_advance_def)
  then show "same_numbers cv' cv" "mls_epoch m (cv_group cv) \<le> mls_epoch m (cv_group cv')"
    using assms(2) g by (auto simp: settle_def same_numbers_def Let_def split: option.splits sum.splits)
qed

lemma sync_fields [simp]:
  "cv_group (sync_seq_epoch m cv) = cv_group cv" "cv_pending (sync_seq_epoch m cv) = cv_pending cv"
  "cv_seq_epoch (sync_seq_epoch m cv) = mls_epoch m (cv_group cv)" "cv_last_applied (sync_seq_epoch m cv) = cv_last_applied cv"
  "cv_restored_needs_rekey (sync_seq_epoch m cv) = cv_restored_needs_rekey cv"
  by (auto simp: sync_seq_epoch_def Let_def)

lemma resync:
  "mls_epoch m g = mls_epoch m (cv_group cv) \<Longrightarrow>
   sync_seq_epoch m ((sync_seq_epoch m cv)\<lparr>cv_group := g, cv_pending := None\<rparr>) = (sync_seq_epoch m cv)\<lparr>cv_group := g, cv_pending := None\<rparr>"
  by (simp add: sync_seq_epoch_def [of m "(sync_seq_epoch m cv)\<lparr>cv_group := g, cv_pending := None\<rparr>"])

text \<open>Either a message is dealt with before it is processed, or processing it decides.\<close>

fun quiet :: "received \<Rightarrow> bool" where
  "quiet NothingToDo = True"
| "quiet TheirCommitLost = True"
| "quiet (OurCommitLost x) = quiet x"
| "quiet _ = False"

definition dealt_before :: "('g, 's, 'q) mls \<Rightarrow> 'g conversation \<Rightarrow> 'g conversation \<Rightarrow> (group_error, received) result \<Rightarrow> bool" where
  "dealt_before m cv0 cv' r \<longleftrightarrow> same_numbers cv' (sync_seq_epoch m cv0) \<and> mls_epoch m (cv_group cv0) \<le> mls_epoch m (cv_group cv') \<and>
     (case r of Inl e \<Rightarrow> True | Inr x \<Rightarrow> quiet x)"

lemma receive_settled:
  assumes "group_receive m cv0 bs = (cv', r)" "cv_pending cv0 = None"
  shows "dealt_before m cv0 cv' r \<or> receive_processed m (sync_seq_epoch m cv0) bs = (cv', r)"
  using assms
  by (subst (asm) group_receive.simps) (auto simp: dealt_before_def Let_def split: sum.splits if_splits)

lemma group_receive_cases:
  assumes "epochs_advance m" "group_receive m cv0 bs = (cv', r)"
  obtains (before) "dealt_before m cv0 cv' r"
  | (processed) cv1 r1 where "same_numbers cv1 (sync_seq_epoch m cv0)" "mls_epoch m (cv_group cv1) = mls_epoch m (cv_group cv0)"
      "receive_processed m cv1 bs = (cv', r1)" "r = r1 \<or> (\<exists>x. r1 = Inr x \<and> r = Inr (OurCommitLost x))"
proof (cases "mls_parse m bs")
  case (Inl e)
  then show ?thesis using assms(2) before by (subst (asm) group_receive.simps) (auto simp: dealt_before_def)
next
  case (Inr w)
  let ?cv = "sync_seq_epoch m cv0"
  show ?thesis
  proof (cases "wm_is_commit w \<and> wm_epoch w < mls_epoch m (cv_group cv0)")
    case True
    then show ?thesis using assms(2) before Inr
      by (subst (asm) group_receive.simps) (auto simp: dealt_before_def Let_def split: if_splits)
  next
    case fresh: False
    show ?thesis
    proof (cases "\<exists>ours. cv_pending cv0 = Some ours \<and> wm_is_commit w")
      case False
      then have "receive_processed m ?cv bs = (cv', r)" using assms(2) Inr fresh
        by (subst (asm) group_receive.simps) (auto simp: Let_def split: option.splits)
      then show ?thesis using processed [of ?cv r] by simp
    next
      case True
      then obtain ours where ours: "cv_pending cv0 = Some ours" "wm_is_commit w" by blast
      show ?thesis
      proof (cases "wins m bs ours")
        case lost: False
        obtain cv1 x where s: "settle m ?cv = (cv1, x)" by (cases "settle m ?cv")
        have "cv' = cv1" "r = (case x of Inl e \<Rightarrow> Inl e | Inr _ \<Rightarrow> Inr TheirCommitLost)"
          using assms(2) Inr fresh ours lost s by (subst (asm) group_receive.simps, auto simp: Let_def split: sum.splits)+
        then show ?thesis using before settle_keeps [OF assms(1) s] by (auto simp: dealt_before_def split: sum.splits)
      next
        case won: True
        obtain g x where c: "mls_clear_pending m (cv_group cv0) = (g, x)" by (cases "mls_clear_pending m (cv_group cv0)")
        have ep: "mls_epoch m g = mls_epoch m (cv_group cv0)" using assms(1) c unfolding epochs_advance_def by (metis fst_conv)
        let ?cl = "?cv\<lparr>cv_group := g, cv_pending := None\<rparr>"
        show ?thesis
        proof (cases x)
          case x: (Inl e)
          have "cv' = ?cv\<lparr>cv_group := g\<rparr>" "r = Inl e"
            using assms(2) Inr fresh ours won c x by (subst (asm) group_receive.simps, auto simp: Let_def)+
          then show ?thesis using before ep by (simp add: dealt_before_def same_numbers_def)
        next
          case x: (Inr u)
          obtain cv2 r2 where again: "group_receive m ?cl bs = (cv2, r2)" by (cases "group_receive m ?cl bs")
          have eqs: "cv' = cv2" "r = (case r2 of Inl e \<Rightarrow> Inl e | Inr y \<Rightarrow> Inr (OurCommitLost y))"
            using assms(2) Inr fresh ours won c x again by (subst (asm) group_receive.simps, auto simp: Let_def split: sum.splits)+
          note settled = receive_settled [OF again]
          have num: "same_numbers ?cl ?cv" by (simp add: same_numbers_def)
          from settled resync [OF ep] consider "dealt_before m ?cl cv2 r2" | "receive_processed m ?cl bs = (cv2, r2)" by auto
          then show ?thesis
          proof cases
            case 1
            have "dealt_before m cv0 cv' r"
              using 1 ep num unfolding dealt_before_def eqs resync [OF ep]
              by (auto simp: same_numbers_def split: sum.splits)
            then show ?thesis by (rule before)
          next
            case 2
            then show ?thesis using processed [of ?cl r2] num ep eqs by (auto split: sum.splits)
          qed
        qed
      qed
    qed
  qed
qed

section \<open>No message is read twice\<close>

text \<open>What the framing calls a commit is processed into one.\<close>

definition framing_is_content :: "('g, 's, 'q) mls \<Rightarrow> bool" where
  "framing_is_content m \<longleftrightarrow> (\<forall>bs w g g' s c. mls_parse m bs = Inr w \<longrightarrow> wm_is_commit w \<longrightarrow> mls_process m g bs = (g', Inr (s, c)) \<longrightarrow>
     (\<exists>st. c = StagedCommit st))"

text \<open>The epoch, the sender and the number of the message that is handed over, if one is.\<close>

definition read_number :: "('g, 's, 'q) mls \<Rightarrow> 'g conversation \<Rightarrow> bytes \<Rightarrow> (u64 \<times> nat \<times> u64) option" where
  "read_number m cv bs =
     (case (snd (group_receive m cv bs), snd (mls_process m (cv_group cv) bs)) of
        (Inr (Message _ _), Inr (Some i, Application plain)) \<Rightarrow>
          (case split_sequence plain of Inr (seq, _) \<Rightarrow> Some (mls_epoch m (cv_group cv), i, seq) | Inl _ \<Rightarrow> None)
      | _ \<Rightarrow> None)"

definition receive_state :: "('g, 's, 'q) mls \<Rightarrow> 'g conversation \<Rightarrow> bytes \<Rightarrow> 'g conversation" where
  "receive_state m cv bs = fst (group_receive m cv bs)"

definition seen_of :: "'g conversation \<Rightarrow> nat \<Rightarrow> seen_from" where
  "seen_of cv i = (case map_of (cv_seen_seq cv) i of Some s \<Rightarrow> s | None \<Rightarrow> seen_from_default)"

definition numbers_kept :: "('g, 's, 'q) mls \<Rightarrow> 'g conversation \<Rightarrow> (u64 \<times> nat \<times> u64) set \<Rightarrow> bool" where
  "numbers_kept m cv A \<longleftrightarrow> epochs_advance m \<and> framing_is_content m \<and>
     (\<forall>(e, i, q)\<in>A. e \<le> cv_seq_epoch cv) \<and> cv_seq_epoch cv \<le> mls_epoch m (cv_group cv) \<and>
     (\<forall>i. spent (seen_of cv i) {q. (cv_seq_epoch cv, i, q) \<in> A})"

lemma spent_default: "spent seen_from_default {}"
  using tracks_default by (simp add: spent_def)

lemma kept_sync:
  assumes "numbers_kept m cv A"
  shows "numbers_kept m (sync_seq_epoch m cv) A"
proof (cases "mls_epoch m (cv_group cv) = cv_seq_epoch cv")
  case True
  then show ?thesis using assms by (simp add: sync_seq_epoch_def Let_def)
next
  case False
  then have lt: "cv_seq_epoch cv < mls_epoch m (cv_group cv)" using assms unfolding numbers_kept_def by (metis order_le_less)
  then have "\<forall>(e, i, q)\<in>A. e < mls_epoch m (cv_group cv)" using assms unfolding numbers_kept_def by fastforce
  then have "{q. (mls_epoch m (cv_group cv), i, q) \<in> A} = {}" for i by auto
  moreover have "seen_of (sync_seq_epoch m cv) i = seen_from_default" for i using False by (simp add: sync_seq_epoch_def Let_def seen_of_def)
  ultimately show ?thesis using assms lt spent_default unfolding numbers_kept_def by fastforce
qed

lemma kept_same:
  "numbers_kept m cv A \<Longrightarrow> same_numbers cv' cv \<Longrightarrow> mls_epoch m (cv_group cv) \<le> mls_epoch m (cv_group cv') \<Longrightarrow> numbers_kept m cv' A"
  by (auto simp: numbers_kept_def same_numbers_def seen_of_def)

lemma receive_application_cases:
  assumes "receive_application cv sender plain = (cv', r)"
  obtains (refused) "same_numbers cv' cv" "cv_group cv' = cv_group cv" "\<exists>e. r = Inl e"
  | (numbered) i seq body where "sender = Some i" "split_sequence plain = Inr (seq, body)"
      "cv' = cv\<lparr>cv_seen_seq := AList.update i (admit_state (seen_of cv i) seq) (cv_seen_seq cv)\<rparr>"
      "r = (if admitted (seen_of cv i) seq = None then Inl (SequenceSpent seq) else Inr (Message (Some i) body))"
proof (cases "split_sequence plain")
  case (Inl e)
  then show ?thesis using assms refused by (auto simp: receive_application_def)
next
  case (Inr p)
  obtain seq body where p: "p = (seq, body)" by (cases p)
  show ?thesis
  proof (cases sender)
    case None
    then show ?thesis using assms refused Inr p by (auto simp: receive_application_def)
  next
    case (Some i)
    obtain s ok where ad: "seen_admit (seen_of cv i) seq = (s, ok)" by (cases "seen_admit (seen_of cv i) seq")
    then have "receive_application cv sender plain =
        (cv\<lparr>cv_seen_seq := AList.update i s (cv_seen_seq cv)\<rparr>, if ok then Inr (Message sender body) else Inl (SequenceSpent seq))"
      by (simp add: receive_application_def Inr p Some Let_def flip: seen_of_def)
    then show ?thesis using assms numbered [OF Some] Inr p Some ad by (auto simp: admitted_def admit_state_def)
  qed
qed

lemma kept_admit:
  assumes "numbers_kept m cv A" "cv' = cv\<lparr>cv_seen_seq := AList.update i (admit_state (seen_of cv i) seq) (cv_seen_seq cv)\<rparr>"
  shows "admitted (seen_of cv i) seq = None \<Longrightarrow> numbers_kept m cv' A"
    and "admitted (seen_of cv i) seq = Some c \<Longrightarrow> (cv_seq_epoch cv, i, seq) \<notin> A \<and> numbers_kept m cv' (insert (cv_seq_epoch cv, i, seq) A)"
proof -
  let ?Q = "\<lambda>A j. {q. (cv_seq_epoch cv, j, q) \<in> A}"
  have sp: "spent (seen_of cv j) (?Q A j)" for j using assms(1) by (simp add: numbers_kept_def)
  have seen: "seen_of cv' j = (if j = i then admit_state (seen_of cv i) seq else seen_of cv j)" for j
    by (simp add: assms(2) seen_of_def update_conv')
  have ep: "cv_seq_epoch cv' = cv_seq_epoch cv" "cv_group cv' = cv_group cv" by (simp_all add: assms(2))
  show "numbers_kept m cv' A" if "admitted (seen_of cv i) seq = None"
    using assms(1) sp spent_step(1) [OF sp that] unfolding numbers_kept_def ep seen by auto
  show "(cv_seq_epoch cv, i, seq) \<notin> A \<and> numbers_kept m cv' (insert (cv_seq_epoch cv, i, seq) A)" if ad: "admitted (seen_of cv i) seq = Some c"
  proof -
    have c: "c = seq" using ad by (simp add: admitted_def split: if_splits)
    have Q: "?Q (insert (cv_seq_epoch cv, i, seq) A) j = (if j = i then insert seq (?Q A i) else ?Q A j)" for j by auto
    show ?thesis using assms(1) sp spent_step(2,3) [OF sp ad] unfolding numbers_kept_def ep seen Q c by auto
  qed
qed

lemma receive_processed_quiet:
  assumes "epochs_advance m" "receive_processed m cv bs = (cv', r)"
    "\<nexists>g i plain. mls_process m (cv_group cv) bs = (g, Inr (i, Application plain))"
  shows "same_numbers cv' cv" "mls_epoch m (cv_group cv) \<le> mls_epoch m (cv_group cv')" "\<And>s b. r \<noteq> Inr (Message s b)"
proof -
  obtain g x where p: "mls_process m (cv_group cv) bs = (g, x)" by (cases "mls_process m (cv_group cv) bs")
  have g: "mls_epoch m (cv_group cv) \<le> mls_epoch m g" using assms(1) p unfolding epochs_advance_def by (metis fst_conv)
  have merge: "mls_epoch m g \<le> mls_epoch m (fst (mls_merge_staged m g s))" "mls_epoch m g \<le> mls_epoch m (fst (mls_store_proposal m g q))" for s q
    using assms(1) by (auto simp: epochs_advance_def)
  have "same_numbers cv' cv \<and> mls_epoch m (cv_group cv) \<le> mls_epoch m (cv_group cv') \<and> (\<forall>s b. r \<noteq> Inr (Message s b))"
  proof (cases x)
    case (Inl e)
    then show ?thesis using assms(2) p g by (auto simp: receive_processed_def same_numbers_def)
  next
    case (Inr y)
    obtain sender c where y: "y = (sender, c)" by (cases y)
    show ?thesis
    proof (cases c)
      case (Application plain)
      then show ?thesis using assms(3) p Inr y by blast
    next
      case (StagedCommit st)
      obtain g2 z where mg: "mls_merge_staged m g st = (g2, z)" by (cases "mls_merge_staged m g st")
      then have "mls_epoch m (cv_group cv) \<le> mls_epoch m g2" using merge(1) [of st] g by simp
      then show ?thesis using assms(2) p g Inr y StagedCommit mg
        by (auto simp: receive_processed_def receive_commit_def same_numbers_def Let_def split: if_splits sum.splits)
    next
      case (QueuedProposal q)
      obtain g2 z where mg: "mls_store_proposal m g q = (g2, z)" by (cases "mls_store_proposal m g q")
      then have "mls_epoch m (cv_group cv) \<le> mls_epoch m g2" using merge(2) [of q] g by simp
      then show ?thesis using assms(2) p Inr y QueuedProposal mg
        by (auto simp: receive_processed_def receive_proposal_def same_numbers_def Let_def split: if_splits sum.splits)
    next
      case OtherContent
      then show ?thesis using assms(2) p g Inr y by (auto simp: receive_processed_def same_numbers_def)
    qed
  qed
  then show "same_numbers cv' cv" "mls_epoch m (cv_group cv) \<le> mls_epoch m (cv_group cv')" "\<And>s b. r \<noteq> Inr (Message s b)" by auto
qed

text \<open>A message that is not a commit is processed on the group as it is, and a commit holds no message.\<close>

lemma group_receive_message:
  assumes "mls_parse m bs = Inr w" "\<not> wm_is_commit w"
  shows "group_receive m cv bs = receive_processed m (sync_seq_epoch m cv) bs"
  using assms by (subst group_receive.simps) (auto simp: Let_def split: option.splits)

lemma kept_message:
  assumes kept: "numbers_kept m cv A" and msg: "mls_parse m bs = Inr w" "\<not> wm_is_commit w"
    and p: "mls_process m (cv_group cv) bs = (g, Inr (sender, Application plain))"
  shows "(read_number m cv bs = None \<and> numbers_kept m (receive_state m cv bs) A) \<or>
    (\<exists>c. read_number m cv bs = Some c \<and> c \<notin> A \<and> numbers_kept m (receive_state m cv bs) (insert c A))"
proof -
  let ?cv = "(sync_seq_epoch m cv)\<lparr>cv_group := g\<rparr>"
  have ep: "mls_epoch m (cv_group cv) \<le> mls_epoch m g"
    using kept p unfolding numbers_kept_def epochs_advance_def by (metis fst_conv)
  have ks: "numbers_kept m ?cv A" using kept_same [OF kept_sync [OF kept], of ?cv] ep by (simp add: same_numbers_def)
  obtain cv' r where ra: "receive_application ?cv sender plain = (cv', r)" by (cases "receive_application ?cv sender plain")
  then have rc: "group_receive m cv bs = (cv', r)" using group_receive_message [OF msg, of cv] p by (simp add: receive_processed_def)
  from ra show ?thesis
  proof (cases rule: receive_application_cases)
    case refused
    then show ?thesis using rc kept_same [OF ks, of cv'] by (auto simp: read_number_def receive_state_def)
  next
    case (numbered i seq body)
    note keep = kept_admit [OF ks numbered(3)]
    show ?thesis
    proof (cases "admitted (seen_of ?cv i) seq")
      case None
      then show ?thesis using rc numbered(4) keep(1) by (auto simp: read_number_def receive_state_def)
    next
      case (Some c)
      then have "read_number m cv bs = Some (mls_epoch m (cv_group cv), i, seq)"
        using rc numbered p by (simp add: read_number_def)
      then show ?thesis using rc keep(2) [OF Some] by (simp add: receive_state_def)
    qed
  qed
qed

lemma kept_receive:
  assumes kept: "numbers_kept m cv A"
  shows "read_number m cv bs = None \<Longrightarrow> numbers_kept m (receive_state m cv bs) A"
    "read_number m cv bs = Some c \<Longrightarrow> c \<notin> A" "read_number m cv bs = Some c \<Longrightarrow> numbers_kept m (receive_state m cv bs) (insert c A)"
proof -
  have laws: "epochs_advance m" "framing_is_content m" using kept by (auto simp: numbers_kept_def)
  note ks = kept_sync [OF kept]
  obtain cv' r where rc: "group_receive m cv bs = (cv', r)" by (cases "group_receive m cv bs")
  have quietly: "numbers_kept m cv' A \<and> (\<forall>s b. r \<noteq> Inr (Message s b))"
    if calm: "\<And>cv1 g i plain. same_numbers cv1 (sync_seq_epoch m cv) \<Longrightarrow> receive_processed m cv1 bs = (cv', r) \<or>
        (\<exists>x. receive_processed m cv1 bs = (cv', Inr x) \<and> r = Inr (OurCommitLost x)) \<Longrightarrow> mls_process m (cv_group cv1) bs \<noteq> (g, Inr (i, Application plain))"
    using laws(1) rc
  proof (cases rule: group_receive_cases)
    case before
    then show ?thesis using kept_same [OF ks, of cv'] by (auto simp: dealt_before_def split: sum.splits)
  next
    case (processed cv1 r1)
    have k1: "numbers_kept m cv1 A" using kept_same [OF ks processed(1)] processed(2) by simp
    have "\<nexists>g i plain. mls_process m (cv_group cv1) bs = (g, Inr (i, Application plain))" using calm [OF processed(1)] processed(3,4) by blast
    note q = receive_processed_quiet [OF laws(1) processed(3) this]
    show ?thesis using kept_same [OF k1 q(1,2)] q(3) processed(4) by auto
  qed
  have "(read_number m cv bs = None \<and> numbers_kept m (receive_state m cv bs) A) \<or>
    (\<exists>c. read_number m cv bs = Some c \<and> c \<notin> A \<and> numbers_kept m (receive_state m cv bs) (insert c A))"
  proof (cases "\<exists>w. mls_parse m bs = Inr w \<and> \<not> wm_is_commit w")
    case True
    then obtain w where w: "mls_parse m bs = Inr w" "\<not> wm_is_commit w" by blast
    show ?thesis
    proof (cases "\<exists>g i plain. mls_process m (cv_group cv) bs = (g, Inr (i, Application plain))")
      case True
      then show ?thesis using kept_message [OF kept w] by blast
    next
      case False
      have "receive_processed m (sync_seq_epoch m cv) bs = (cv', r)" using rc group_receive_message [OF w] by simp
      from receive_processed_quiet [OF laws(1) this] False have "numbers_kept m cv' A" "\<forall>s b. r \<noteq> Inr (Message s b)"
        using kept_same [OF ks] by auto
      then show ?thesis using rc by (auto simp: read_number_def receive_state_def split: sum.splits received.splits)
    qed
  next
    case False
    have "mls_process m g bs \<noteq> (g', Inr (i, Application plain))" if "mls_parse m bs = Inr w" for w g g' i plain
      using laws(2) False that unfolding framing_is_content_def by fastforce
    moreover have "(\<exists>e. mls_parse m bs = Inl e) \<or> (\<exists>w. mls_parse m bs = Inr w)" by (cases "mls_parse m bs") auto
    moreover have "r = Inl e \<and> cv' = sync_seq_epoch m cv" if "mls_parse m bs = Inl e" for e
      using rc that by (subst (asm) group_receive.simps) auto
    ultimately have "numbers_kept m cv' A \<and> (\<forall>s b. r \<noteq> Inr (Message s b))" using quietly ks by (metis sum.distinct(1))
    then show ?thesis using rc by (auto simp: read_number_def receive_state_def split: sum.splits received.splits)
  qed
  then show "read_number m cv bs = None \<Longrightarrow> numbers_kept m (receive_state m cv bs) A"
    "read_number m cv bs = Some c \<Longrightarrow> c \<notin> A" "read_number m cv bs = Some c \<Longrightarrow> numbers_kept m (receive_state m cv bs) (insert c A)"
    by auto
qed

interpretation cvn: replay_filter "receive_state m" "read_number m" "numbers_kept m" for m :: "('g, 's, 'q) mls"
  by unfold_locales (rule kept_receive; assumption)+

section \<open>Properties\<close>

text \<open>C4: no message is read twice.  Whatever bytes reach a conversation, in whatever order and however often, replayed by the
  mailbox or re-encrypted by another member, no two messages that are handed to the caller carry the same sender and the same
  sequence number of one epoch.\<close>

theorem no_message_read_twice:
  assumes "epochs_advance m" "framing_is_content m"
  shows "distinct (run_taken (receive_state m) (read_number m) (opened m g restored) bss)"
proof -
  have "seen_of (opened m g restored) i = seen_from_default" for i by (simp add: opened_def seen_of_def)
  then have "numbers_kept m (opened m g restored) {}" using assms spent_default by (simp add: numbers_kept_def opened_def)
  from cvn.taken_once [OF this] show ?thesis by blast
qed

text \<open>A library for the instances below: a group is its epoch and its members; a frame says in its first byte what it is.\<close>

definition toy_process :: "u64 \<Rightarrow> bytes \<Rightarrow> u64 \<times> (group_error, nat option \<times> ((proposer \<times> bytes) list, bytes) content) result" where
  "toy_process g bs =
     (case bs of
        [] \<Rightarrow> (g, Inl (Codec []))
      | k # rest \<Rightarrow>
          if k = 0 then (g, Inr (Some 1, StagedCommit (case rest of [] \<Rightarrow> [] | p # c \<Rightarrow> [(MemberAt (unat p), c)])))
          else (g, Inr (Some 0, Application rest)))"

definition toy_mls :: "(u64, (proposer \<times> bytes) list, bytes) mls" where
  "toy_mls = \<lparr> mls_hash = id, mls_epoch = id,
     mls_members = (\<lambda>_. [\<lparr>lm_index = 0, lm_credential = [1, 65, 7], lm_signature_key = [10]\<rparr>, \<lparr>lm_index = 1, lm_credential = [1, 65, 8], lm_signature_key = [11]\<rparr>,
       \<lparr>lm_index = 2, lm_credential = [1, 66], lm_signature_key = [12]\<rparr>]),
     mls_extensions = (\<lambda>_. []), mls_parse = (\<lambda>bs. Inr \<lparr>wm_is_commit = (bs \<noteq> [] \<and> hd bs = 0), wm_epoch = 5\<rparr>),
     mls_process = toy_process, mls_adds = id, mls_merge_staged = (\<lambda>g _. (if g = - 1 then g else g + 1, Inr ())),
     mls_merge_pending = (\<lambda>g. (if g = - 1 then g else g + 1, Inr ())), mls_clear_pending = (\<lambda>g. (g, Inr ())),
     mls_proposals = (\<lambda>_. []), mls_joining = (\<lambda>q. Some q), mls_store_proposal = (\<lambda>g _. (g, Inr ())), mls_remove_proposal = (\<lambda>g _. (g, Inr ())),
     mls_create_message = (\<lambda>g bs. (g, Inr (1 # bs))), mls_propose_add = (\<lambda>g k. (g, Inr k)), mls_add_members = (\<lambda>g k. (g, Inr (k, k))),
     mls_remove_members = (\<lambda>g _. (g, Inr [])), mls_commit_pending = (\<lambda>g. (g, Inr ([], None))), mls_update_extension = (\<lambda>g _ d. (g, Inr d)),
     mls_rekey = (\<lambda>g. (g, Inr [0])) \<rparr>"

lemma toy_step: "g \<le> (if g = - 1 then g else g + 1)" for g :: u64
  using checked_add_unat [of g 1 "g + 1"] by (simp add: checked_add_1 word_le_nat_alt)

lemma toy_laws: "epochs_advance toy_mls" "framing_is_content toy_mls"
  using toy_step
  by (auto simp: epochs_advance_def framing_is_content_def toy_mls_def toy_process_def split: list.splits if_splits)

lemma no_message_read_twice_witness:
  "distinct (run_taken (receive_state toy_mls) (read_number toy_mls) (opened toy_mls 5 False) [1 # u64_be 1 @ [9], 1 # u64_be 1 @ [9]])"
  by (rule no_message_read_twice [OF toy_laws])

text \<open>What was sent is read.  A message one member sends, delivered to another at the same epoch who has read nothing later from
  that sender, is handed over unchanged and with its author, as long as the library gives the receiver what it was given to
  encrypt.\<close>

lemma send_framed_message:
  assumes "send_framed m g framed = (g', Inr c)"
  shows "\<exists>h. snd (mls_create_message m h framed) = Inr c"
  using assms by (auto simp: send_framed_def Let_def split: if_splits prod.splits sum.splits) (metis snd_conv)+

theorem sent_is_read:
  assumes "group_send m a plaintext = (a', Inr c)"
    "\<And>h framed. snd (mls_create_message m h framed) = Inr c \<Longrightarrow> mls_process m (cv_group b) c = (g, Inr (Some i, Application framed))"
    "mls_parse m c = Inr w" "\<not> wm_is_commit w"
    "sf_high (seen_of (sync_seq_epoch m b) i) < cv_sent_seq a'"
  shows "snd (group_receive m b c) = Inr (Message (Some i) plaintext)"
proof -
  let ?a = "sync_seq_epoch m a"
  obtain g1 where fr: "send_framed m (cv_group ?a) (u64_be (cv_sent_seq ?a + 1) @ plaintext) = (g1, Inr c)"
    and a': "a' = ?a\<lparr>cv_sent_seq := cv_sent_seq ?a + 1, cv_group := g1\<rparr>"
    using assms(1) by (auto simp: group_send_def Let_def split: if_splits prod.splits)
  from send_framed_message [OF fr] assms(2) have
    p: "mls_process m (cv_group b) c = (g, Inr (Some i, Application (u64_be (cv_sent_seq a') @ plaintext)))" by (auto simp: a')
  have seq: "split_sequence (u64_be (cv_sent_seq a') @ plaintext) = Inr (cv_sent_seq a', plaintext)"
    by (simp add: split_sequence_def SEQ_LEN_def)
  have "seen_of ((sync_seq_epoch m b)\<lparr>cv_group := g\<rparr>) i = seen_of (sync_seq_epoch m b) i" by (simp add: seen_of_def)
  then have "snd (seen_admit (seen_of ((sync_seq_epoch m b)\<lparr>cv_group := g\<rparr>) i) (cv_sent_seq a'))"
    using assms(5) by (simp add: seen_admit_def Let_def)
  then have "snd (receive_application ((sync_seq_epoch m b)\<lparr>cv_group := g\<rparr>) (Some i) (u64_be (cv_sent_seq a') @ plaintext)) =
      Inr (Message (Some i) plaintext)"
    unfolding receive_application_def seq by (auto simp: Let_def seen_of_def split: prod.splits)
  then show ?thesis using group_receive_message [OF assms(3,4), of b] p by (simp add: receive_processed_def)
qed

lemma sent_is_read_witness:
  "snd (group_receive toy_mls (opened toy_mls 5 False) (1 # u64_be 1 @ [9])) = Inr (Message (Some 0) [9])"
proof (rule sent_is_read [of toy_mls "opened toy_mls 5 False" "[9]"])
  show "group_send toy_mls (opened toy_mls 5 False) [9] = ((opened toy_mls 5 False)\<lparr>cv_sent_seq := 1\<rparr>, Inr (1 # u64_be 1 @ [9]))"
    by (simp add: group_send_def opened_def toy_mls_def sync_seq_epoch_def send_framed_def)
  show "mls_process toy_mls (cv_group (opened toy_mls 5 False)) (1 # u64_be 1 @ [9]) = (5, Inr (Some 0, Application framed))"
    if "snd (mls_create_message toy_mls h framed) = Inr (1 # u64_be 1 @ [9])" for h framed
    using that by (simp add: toy_mls_def toy_process_def opened_def)
  show "mls_parse toy_mls (1 # u64_be 1 @ [9]) = Inr \<lparr>wm_is_commit = False, wm_epoch = 5\<rparr>" by (simp add: toy_mls_def)
  show "sf_high (seen_of (sync_seq_epoch toy_mls (opened toy_mls 5 False)) 0) < cv_sent_seq ((opened toy_mls 5 False)\<lparr>cv_sent_seq := 1\<rparr>)"
    by (simp add: seen_of_def sync_seq_epoch_def opened_def toy_mls_def seen_from_default_def)
qed simp

text \<open>
  The group a message is processed at: the one there is, or the one that is left when a commit the receiver holds was beaten
  and dropped; none, when the message is not read, is of an epoch that is over, or is beaten by the commit the receiver holds.
\<close>

definition weighed_at :: "('g, 's, 'q) mls \<Rightarrow> 'g conversation \<Rightarrow> bytes \<Rightarrow> 'g option" where
  "weighed_at m cv bs =
     (case mls_parse m bs of
        Inl _ \<Rightarrow> None
      | Inr w \<Rightarrow>
          if \<not> wm_is_commit w then Some (cv_group cv)
          else if wm_epoch w < mls_epoch m (cv_group cv) then None
          else (case cv_pending cv of
                  None \<Rightarrow> Some (cv_group cv)
                | Some ours \<Rightarrow>
                    if \<not> wins m bs ours then None
                    else (case mls_clear_pending m (cv_group cv) of (g, Inl _) \<Rightarrow> None
                      | (g, Inr _) \<Rightarrow> if wm_epoch w < mls_epoch m g then None else Some g)))"

lemma sync_leaves:
  "cv_group (sync_seq_epoch m cv) = cv_group cv" "cv_pending (sync_seq_epoch m cv) = cv_pending cv"
  by (simp_all add: sync_seq_epoch_def Let_def)

lemma over_commit:
  assumes "mls_parse m bs = Inr w" "wm_is_commit w" "wm_epoch w < mls_epoch m (cv_group cv)"
  shows "group_receive m cv bs =
    (sync_seq_epoch m cv, if cv_last_applied (sync_seq_epoch m cv) = Some (mls_hash m bs) then Inr NothingToDo
      else Inl (TheGroupHasSplit (wm_epoch w) (mls_epoch m (cv_group cv))))"
  using assms by (subst group_receive.simps) (simp add: Let_def sync_leaves)

lemma not_weighed:
  assumes "weighed_at m cv bs = None" "group_receive m cv bs = (cv', r)"
  shows "cv_group cv' \<in> {cv_group cv, fst (mls_clear_pending m (cv_group cv)), fst (mls_merge_pending m (cv_group cv))} \<and>
    (\<forall>x. r = Inr x \<longrightarrow> x \<in> {NothingToDo, TheirCommitLost, OurCommitLost NothingToDo})"
  using assms
  by (subst (asm) group_receive.simps)
    (auto simp: weighed_at_def Let_def settle_def sync_leaves over_commit split: sum.splits if_splits option.splits prod.splits)

lemma weighed_commit:
  assumes "weighed_at m cv bs = Some g0" "mls_process m g0 bs = (g, Inr (sender, StagedCommit staged))"
  obtains cv1 where "cv_group cv1 = g" "fst (group_receive m cv bs) = fst (receive_commit m cv1 bs sender staged)"
    "\<And>e. snd (group_receive m cv bs) = Inl e \<longleftrightarrow> snd (receive_commit m cv1 bs sender staged) = Inl e"
proof -
  obtain w where w: "mls_parse m bs = Inr w" using assms(1) by (auto simp: weighed_at_def split: sum.splits)
  have settled: "group_receive m cv0 bs = receive_commit m ((sync_seq_epoch m cv0)\<lparr>cv_group := g\<rparr>) bs sender staged"
    if "cv_group cv0 = g0" "cv_pending cv0 = None \<or> \<not> wm_is_commit w" "\<not> (wm_is_commit w \<and> wm_epoch w < mls_epoch m g0)" for cv0
    using that w assms(2) by (subst group_receive.simps) (auto simp: Let_def receive_processed_def sync_leaves split: option.splits)
  show thesis
  proof (cases "cv_pending cv = None \<or> \<not> wm_is_commit w")
    case True
    then have "cv_group cv = g0" "\<not> (wm_is_commit w \<and> wm_epoch w < mls_epoch m g0)"
      using assms(1) w by (auto simp: weighed_at_def split: if_splits)
    from settled [OF this(1) True this(2)] show ?thesis using that [of "(sync_seq_epoch m cv)\<lparr>cv_group := g\<rparr>"] by simp
  next
    case False
    then obtain ours u where held: "cv_pending cv = Some ours" "wm_is_commit w" "wins m bs ours"
      "\<not> wm_epoch w < mls_epoch m (cv_group cv)" "mls_clear_pending m (cv_group cv) = (g0, Inr u)"
      using assms(1) w by (auto simp: weighed_at_def split: if_splits prod.splits sum.splits)
    let ?cv = "(sync_seq_epoch m cv)\<lparr>cv_group := g0, cv_pending := None\<rparr>"
    have again: "group_receive m cv bs =
        (case group_receive m ?cv bs of (cv', Inl e) \<Rightarrow> (cv', Inl e) | (cv', Inr taken) \<Rightarrow> (cv', Inr (OurCommitLost taken)))"
      using held w by (subst group_receive.simps) (simp add: Let_def sync_leaves)
    have "\<not> wm_epoch w < mls_epoch m g0" using assms(1) w held by (auto simp: weighed_at_def split: if_splits)
    from settled [of ?cv] this have "group_receive m ?cv bs = receive_commit m ((sync_seq_epoch m ?cv)\<lparr>cv_group := g\<rparr>) bs sender staged" by simp
    then show ?thesis using again that [of "(sync_seq_epoch m ?cv)\<lparr>cv_group := g\<rparr>"] by (auto split: prod.splits sum.splits)
  qed
qed

text \<open>
  What the rules on additions come to: each addition was proposed by another member than the committer, or claims to be a device
  of the committer, or finds a group of at most one; and, as long as the group names admins and one of them is
  still in the roster, the committer of an addition is one of them.
\<close>

definition rightly_added :: "('g, 's, 'q) mls \<Rightarrow> 'g \<Rightarrow> nat option \<Rightarrow> 's \<Rightarrow> bool" where
  "rightly_added m g sender staged \<longleftrightarrow>
     (\<forall>(who, credential)\<in>set (mls_adds m staged).
        (length (mls_members m g) \<le> 1 \<or> (\<exists>i. who = MemberAt i \<and> sender \<noteq> Some i) \<or>
         (\<exists>i p. sender = Some i \<and> participant_at m g i = Some p \<and> p_well_formed p \<and> same_person_as p (from_credential credential []))) \<and>
        (\<forall>ws. admin_rule_applies m g = Some ws \<longrightarrow>
           (\<exists>i p. sender = Some i \<and> participant_at m g i = Some p \<and> p_well_formed p \<and> p_identity p \<in> set ws)))"

lemma unruled_rightly_added:
  assumes "\<not> added_on_one_authority m g staged sender" "\<not> added_by_somebody_who_may_not m g staged sender"
  shows "rightly_added m g sender staged"
  unfolding rightly_added_def
proof (intro ballI, clarify, intro conjI allI impI)
  fix who credential ws
  assume a: "(who, credential) \<in> set (mls_adds m staged)"
  show "length (mls_members m g) \<le> 1 \<or> (\<exists>i. who = MemberAt i \<and> sender \<noteq> Some i) \<or>
      (\<exists>i p. sender = Some i \<and> participant_at m g i = Some p \<and> p_well_formed p \<and> same_person_as p (from_credential credential []))"
    using assms(1) a
    by (cases who; cases sender) (force simp: added_on_one_authority_def list_ex_iff Let_def split: if_splits option.splits)+
  show "\<exists>i p. sender = Some i \<and> participant_at m g i = Some p \<and> p_well_formed p \<and> p_identity p \<in> set ws"
    if "admin_rule_applies m g = Some ws"
    using assms(2) a that by (cases sender) (auto simp: added_by_somebody_who_may_not_def split: if_splits option.splits)
qed

lemma receive_commit_rules:
  "(snd (receive_commit m cv bs sender staged) \<in> {Inl AddedWithoutASecondMember, Inl AddedBySomebodyWhoIsNotAnAdmin} \<and>
      fst (receive_commit m cv bs sender staged) = cv) \<or>
   (cv_group (fst (receive_commit m cv bs sender staged)) = fst (mls_merge_staged m (cv_group cv) staged) \<and>
      rightly_added m (cv_group cv) sender staged)"
proof (cases "added_on_one_authority m (cv_group cv) staged sender \<or> added_by_somebody_who_may_not m (cv_group cv) staged sender")
  case True
  then show ?thesis by (auto simp: receive_commit_def Let_def)
next
  case False
  then show ?thesis
    using unruled_rightly_added [of m "cv_group cv" staged sender] by (auto simp: receive_commit_def Let_def split: prod.splits sum.splits)
qed

text \<open>C6: who can be added.  Whatever a member receives, and whether or not it holds a commit of its own: a message that is not read, of
  an epoch that is over, or beaten by its own commit leaves the group as it is, or with its own commit dropped or merged, and announces
  no change.  Any other commit is either refused for its additions, and then not merged, or each addition in it was proposed by another
  member than the one who committed, or claims to be a device of the committer, or finds a group of at most one member;
  and, as long as the group names admins and one of them is still in the roster, the committer of an addition is one of them.\<close>

theorem nobody_is_added_alone:
  assumes "group_receive m cv bs = (cv', r)"
  shows "case weighed_at m cv bs of
      None \<Rightarrow>
        cv_group cv' \<in> {cv_group cv, fst (mls_clear_pending m (cv_group cv)), fst (mls_merge_pending m (cv_group cv))} \<and>
        (\<forall>x. r = Inr x \<longrightarrow> x \<in> {NothingToDo, TheirCommitLost, OurCommitLost NothingToDo})
    | Some g0 \<Rightarrow>
        (\<forall>g sender staged. mls_process m g0 bs = (g, Inr (sender, StagedCommit staged)) \<longrightarrow>
           (r \<in> {Inl AddedWithoutASecondMember, Inl AddedBySomebodyWhoIsNotAnAdmin} \<and> cv_group cv' = g) \<or>
           (cv_group cv' = fst (mls_merge_staged m g staged) \<and> rightly_added m g sender staged))"
proof (cases "weighed_at m cv bs")
  case None
  then show ?thesis using not_weighed [OF None assms] by simp
next
  case (Some g0)
  have "(r \<in> {Inl AddedWithoutASecondMember, Inl AddedBySomebodyWhoIsNotAnAdmin} \<and> cv_group cv' = g) \<or>
      (cv_group cv' = fst (mls_merge_staged m g staged) \<and> rightly_added m g sender staged)"
    if p: "mls_process m g0 bs = (g, Inr (sender, StagedCommit staged))" for g sender staged
  proof -
    obtain cv1 where "cv_group cv1 = g" "cv' = fst (receive_commit m cv1 bs sender staged)"
      "\<And>e. r = Inl e \<longleftrightarrow> snd (receive_commit m cv1 bs sender staged) = Inl e"
      using weighed_commit [OF Some p] assms by (metis fst_conv snd_conv)
    then show ?thesis using receive_commit_rules [of m cv1 bs sender staged] by auto
  qed
  then show ?thesis using Some by simp
qed

text \<open>
  A member of three who commits its own proposal of a stranger is refused, also by one who held a commit that this one beats; the
  proposal of another member is taken.
\<close>

lemma nobody_is_added_alone_witness:
  "snd (group_receive toy_mls (opened toy_mls 5 False) [0, 1, 1, 67]) = Inl AddedWithoutASecondMember \<and>
   snd (group_receive toy_mls ((opened toy_mls 5 False)\<lparr>cv_pending := Some [1]\<rparr>) [0, 1, 1, 67]) = Inl AddedWithoutASecondMember \<and>
   cv_group (fst (group_receive toy_mls (opened toy_mls 5 False) [0, 0, 1, 67])) = 6 \<and>
   rightly_added toy_mls 5 (Some 1) [(MemberAt 0, [1, 67])]"
proof -
  let ?free = "opened toy_mls 5 False" and ?held = "(opened toy_mls 5 False)\<lparr>cv_pending := Some [1]\<rparr>"
  have at5: "weighed_at toy_mls ?free [0, 0, 1, 67] = Some 5"
    by (simp add: weighed_at_def toy_mls_def opened_def)
  have p: "mls_process toy_mls 5 [0, 0, 1, 67] = (5, Inr (Some 1, StagedCommit [(MemberAt 0, [1, 67])]))"
    by (simp add: toy_mls_def toy_process_def)
  have refused: "group_receive toy_mls ?free [0, 1, 1, 67] = (?free, Inl AddedWithoutASecondMember)"
    by (subst group_receive.simps)
      (simp add: toy_mls_def opened_def sync_seq_epoch_def receive_processed_def toy_process_def receive_commit_def added_on_one_authority_def
        participant_at_def from_credential_def same_person_as_def Let_def)
  have "snd (group_receive toy_mls ?held [0, 1, 1, 67]) = Inl AddedWithoutASecondMember"
  proof -
    have "?held\<lparr>cv_group := 5, cv_pending := None\<rparr> = ?free" by (simp add: opened_def)
    then show ?thesis using refused
      by (subst group_receive.simps) (simp add: toy_mls_def opened_def sync_seq_epoch_def wins_def Let_def)
  qed
  moreover obtain cv' r where t: "group_receive toy_mls ?free [0, 0, 1, 67] = (cv', r)" by fastforce
  moreover have "r \<noteq> Inl AddedWithoutASecondMember \<and> r \<noteq> Inl AddedBySomebodyWhoIsNotAnAdmin"
    using t
    by (subst (asm) group_receive.simps)
      (auto simp: toy_mls_def opened_def sync_seq_epoch_def receive_processed_def toy_process_def receive_commit_def added_on_one_authority_def
        added_by_somebody_who_may_not_def admin_rule_applies_def admins_def map_filter_def Let_def split: if_splits)
  then have "cv_group cv' = 6 \<and> rightly_added toy_mls 5 (Some 1) [(MemberAt 0, [1, 67])]"
    using nobody_is_added_alone [OF t] at5 p by (simp add: toy_mls_def)
  ultimately show ?thesis using refused by simp
qed

text \<open>Taking a commit that no rule forbids.\<close>

lemma receive_commit_taken:
  assumes "\<not> added_on_one_authority m (cv_group cv) st sender" "\<not> added_by_somebody_who_may_not m (cv_group cv) st sender"
    "mls_merge_staged m (cv_group cv) st = (g, Inr ())"
  shows "\<exists>x. receive_commit m cv bs sender st =
    (cv\<lparr>cv_group := g, cv_last_applied := Some (mls_hash m bs), cv_restored_needs_rekey := False\<rparr>, Inr x)"
  using assms by (auto simp: receive_commit_def Let_def)

lemma receive_settled_commit:
  assumes "cv_pending cv = None" "mls_parse m bs = Inr w" "\<not> (wm_is_commit w \<and> wm_epoch w < mls_epoch m (cv_group cv))"
    "mls_process m (cv_group cv) bs = (g1, Inr (s, StagedCommit st))"
    "\<not> added_on_one_authority m g1 st s" "\<not> added_by_somebody_who_may_not m g1 st s" "mls_merge_staged m g1 st = (g2, Inr ())"
  shows "\<exists>x. group_receive m cv bs = ((sync_seq_epoch m cv)\<lparr>cv_group := g2, cv_last_applied := Some (mls_hash m bs),
    cv_restored_needs_rekey := False\<rparr>, Inr x)"
proof -
  have "group_receive m cv bs = receive_commit m ((sync_seq_epoch m cv)\<lparr>cv_group := g1\<rparr>) bs s st"
    using assms(1-4) by (subst group_receive.simps) (auto simp: Let_def receive_processed_def)
  then show ?thesis using receive_commit_taken [of m "(sync_seq_epoch m cv)\<lparr>cv_group := g1\<rparr>" st s g2 bs] assms(5-7) by simp
qed

text \<open>C5: two members who commit at once end up together.  Each receives the other's commit while holding its own; the commit with the
  smaller hash stands at both: its maker applies it and says the other's was lost, the other drops its own, applies the winner's
  and says its own was lost.  Neither holds a commit afterwards.\<close>

theorem racing_commits_converge:
  assumes "cv_pending a = Some ca" "cv_pending b = Some cb" "mls_hash m ca < mls_hash m cb"
    "mls_parse m ca = Inr wa" "wm_is_commit wa" "\<not> wm_epoch wa < mls_epoch m (cv_group b)"
    "mls_parse m cb = Inr wb" "wm_is_commit wb" "\<not> wm_epoch wb < mls_epoch m (cv_group a)"
    "mls_merge_pending m (cv_group a) = (ga, Inr ())"
    "mls_clear_pending m (cv_group b) = (g, Inr ())" "mls_epoch m g = mls_epoch m (cv_group b)"
    "mls_process m g ca = (g1, Inr (s, StagedCommit st))"
    "\<not> added_on_one_authority m g1 st s" "\<not> added_by_somebody_who_may_not m g1 st s" "mls_merge_staged m g1 st = (gb, Inr ())"
  shows "\<exists>a' b' x. group_receive m a cb = (a', Inr TheirCommitLost) \<and> group_receive m b ca = (b', Inr (OurCommitLost x)) \<and>
    cv_group a' = ga \<and> cv_group b' = gb \<and> cv_last_applied a' = Some (mls_hash m ca) \<and> cv_last_applied b' = Some (mls_hash m ca) \<and>
    cv_pending a' = None \<and> cv_pending b' = None"
proof -
  have lose: "\<not> wins m cb ca" "wins m ca cb" using assms(3) by (auto simp: wins_def)
  have a: "\<exists>a'. group_receive m a cb = (a', Inr TheirCommitLost) \<and> cv_group a' = ga \<and> cv_last_applied a' = Some (mls_hash m ca) \<and> cv_pending a' = None"
    using assms(1,7-10) lose(1) by (subst group_receive.simps) (simp add: Let_def settle_def)
  let ?b = "(sync_seq_epoch m b)\<lparr>cv_group := g, cv_pending := None\<rparr>"
  have "\<exists>x. group_receive m ?b ca = ((sync_seq_epoch m ?b)\<lparr>cv_group := gb, cv_last_applied := Some (mls_hash m ca), cv_restored_needs_rekey := False\<rparr>, Inr x)"
    using assms(4-6,12-16) by (intro receive_settled_commit) auto
  then obtain x b' where "group_receive m ?b ca = (b', Inr x)" "cv_group b' = gb" "cv_last_applied b' = Some (mls_hash m ca)" "cv_pending b' = None"
    by auto
  moreover from this(1) have "group_receive m b ca = (b', Inr (OurCommitLost x))"
    using assms(2,4-6,11) lose(2) by (subst group_receive.simps) (simp add: Let_def)
  ultimately show ?thesis using a by blast
qed

lemma racing_commits_converge_witness:
  "\<exists>a' b' x. group_receive toy_mls ((opened toy_mls 5 False)\<lparr>cv_pending := Some [0]\<rparr>) [0, 0, 1, 65] = (a', Inr TheirCommitLost) \<and>
    group_receive toy_mls ((opened toy_mls 5 False)\<lparr>cv_pending := Some [0, 0, 1, 65]\<rparr>) [0] = (b', Inr (OurCommitLost x)) \<and>
    cv_group a' = 6 \<and> cv_group b' = 6"
  using racing_commits_converge [of "(opened toy_mls 5 False)\<lparr>cv_pending := Some [0]\<rparr>" "[0]"
      "(opened toy_mls 5 False)\<lparr>cv_pending := Some [0, 0, 1, 65]\<rparr>" "[0, 0, 1, 65]" toy_mls "\<lparr>wm_is_commit = True, wm_epoch = 5\<rparr>"
      "\<lparr>wm_is_commit = True, wm_epoch = 5\<rparr>" 6 5 5 "Some 1" "[]" 6]
  by (simp add: toy_mls_def opened_def toy_process_def added_on_one_authority_def added_by_somebody_who_may_not_def) blast

text \<open>C33: those who only watch do not.  A member who holds no commit of its own takes whichever of two commits of its epoch arrives first,
  whatever their hashes, and then reports the other as a split: two such members who see the two in different orders end in
  two groups, although everybody followed the rules.\<close>

theorem bystanders_follow_arrival:
  assumes "cv_pending cv = None" "mls_parse m x = Inr wx" "\<not> (wm_is_commit wx \<and> wm_epoch wx < mls_epoch m (cv_group cv))"
    "mls_process m (cv_group cv) x = (g1, Inr (s, StagedCommit st))"
    "\<not> added_on_one_authority m g1 st s" "\<not> added_by_somebody_who_may_not m g1 st s" "mls_merge_staged m g1 st = (g2, Inr ())"
    "mls_parse m y = Inr wy" "wm_is_commit wy" "wm_epoch wy < mls_epoch m g2" "mls_hash m y \<noteq> mls_hash m x"
  shows "\<exists>cv' r. group_receive m cv x = (cv', Inr r) \<and> cv_group cv' = g2 \<and>
    cv_group (fst (group_receive m cv' y)) = g2 \<and> snd (group_receive m cv' y) = Inl (TheGroupHasSplit (wm_epoch wy) (mls_epoch m g2))"
proof -
  from receive_settled_commit [OF assms(1-7)] obtain cv' r where
    cv': "group_receive m cv x = (cv', Inr r)" "cv_group cv' = g2" "cv_last_applied cv' = Some (mls_hash m x)" by auto
  have "group_receive m cv' y = (sync_seq_epoch m cv', Inl (TheGroupHasSplit (wm_epoch wy) (mls_epoch m g2)))"
    using assms(8-11) cv'(2,3) by (subst group_receive.simps) (simp add: Let_def)
  then show ?thesis using cv' by simp
qed

lemma bystanders_follow_arrival_witness:
  "\<exists>cv' r. group_receive toy_mls (opened toy_mls 5 False) [0] = (cv', Inr r) \<and>
    snd (group_receive toy_mls cv' [0, 0, 1, 65]) = Inl (TheGroupHasSplit 5 6)"
  using bystanders_follow_arrival [of "opened toy_mls 5 False" toy_mls "[0]" "\<lparr>wm_is_commit = True, wm_epoch = 5\<rparr>" 5 "Some 1" "[]" 6
      "[0, 0, 1, 65]" "\<lparr>wm_is_commit = True, wm_epoch = 5\<rparr>"]
  by (simp add: toy_mls_def opened_def toy_process_def added_on_one_authority_def added_by_somebody_who_may_not_def) blast

text \<open>The race is decided before the other commit is read.  Whatever its framing calls a commit, of whatever later epoch and whether
  or not it verifies, takes part: if its hash is smaller the commit held is dropped, and when the other then cannot be
  processed the caller is told of an error and not that its own commit is gone; if its hash is greater the commit held is applied
  although nobody committed at that epoch.\<close>

theorem unread_commit_decides:
  assumes "cv_pending cv = Some ours" "mls_parse m bs = Inr w" "wm_is_commit w" "mls_epoch m (cv_group cv) \<le> wm_epoch w"
  shows "(wins m bs ours \<longrightarrow> mls_clear_pending m (cv_group cv) = (g, Inr ()) \<longrightarrow> mls_epoch m g = mls_epoch m (cv_group cv) \<longrightarrow>
      mls_process m g bs = (g1, Inl e) \<longrightarrow> snd (group_receive m cv bs) = Inl e \<and> cv_pending (fst (group_receive m cv bs)) = None) \<and>
    (\<not> wins m bs ours \<longrightarrow> mls_merge_pending m (cv_group cv) = (g2, Inr ()) \<longrightarrow>
      snd (group_receive m cv bs) = Inr TheirCommitLost \<and> cv_group (fst (group_receive m cv bs)) = g2)"
proof (intro conjI impI)
  have current: "\<not> wm_epoch w < mls_epoch m (cv_group cv)" using assms(4) by simp
  {
    assume won: "wins m bs ours" and c: "mls_clear_pending m (cv_group cv) = (g, Inr ())" "mls_epoch m g = mls_epoch m (cv_group cv)"
      and p: "mls_process m g bs = (g1, Inl e)"
    let ?cv = "(sync_seq_epoch m cv)\<lparr>cv_group := g, cv_pending := None\<rparr>"
    have "group_receive m ?cv bs = ((sync_seq_epoch m ?cv)\<lparr>cv_group := g1\<rparr>, Inl e)"
      using assms(2,3) current c(2) p by (subst group_receive.simps) (auto simp: Let_def receive_processed_def)
    then have "group_receive m cv bs = ((sync_seq_epoch m ?cv)\<lparr>cv_group := g1\<rparr>, Inl e)"
      using assms(1-3) current won c by (subst group_receive.simps) (simp add: Let_def)
    then show "snd (group_receive m cv bs) = Inl e" "cv_pending (fst (group_receive m cv bs)) = None" by simp_all
  next
    assume lost: "\<not> wins m bs ours" and merge: "mls_merge_pending m (cv_group cv) = (g2, Inr ())"
    show "snd (group_receive m cv bs) = Inr TheirCommitLost" "cv_group (fst (group_receive m cv bs)) = g2"
      using assms(1-3) current lost merge by (subst group_receive.simps, simp add: Let_def settle_def)+
  }
qed

lemma unread_commit_decides_witness:
  "snd (group_receive toy_mls ((opened toy_mls 4 False)\<lparr>cv_pending := Some [0]\<rparr>) [0, 7]) = Inr TheirCommitLost"
  using unread_commit_decides [of "(opened toy_mls 4 False)\<lparr>cv_pending := Some [0]\<rparr>" "[0]" toy_mls "[0, 7]" "\<lparr>wm_is_commit = True, wm_epoch = 5\<rparr>" _ _ _ 5]
  by (simp add: toy_mls_def opened_def wins_def)

text \<open>One person can be two members.  A member may add a leaf that claims to be another device of the same person without anybody
  else, and a stranger whom one of the two leaves proposes and the other commits passes the rule that wants a second
  member: two commits of one person admit whomever that person likes.\<close>

theorem one_person_can_be_two_members:
  assumes "participant_at m g i = Some p" "same_person_as p (from_credential own [])" "mls_adds m st1 = [(MemberAt i, own)]"
    "participant_at m g2 j = Some q" "same_person_as p q" "j \<noteq> i" "mls_adds m st2 = [(MemberAt j, stranger)]"
  shows "\<not> added_on_one_authority m g st1 (Some i) \<and> \<not> added_on_one_authority m g2 st2 (Some i)"
  using assms by (auto simp: added_on_one_authority_def same_person_as_def Let_def)

lemma one_person_can_be_two_members_witness:
  "\<not> added_on_one_authority toy_mls 5 [(MemberAt 0, [1, 65, 8])] (Some 0) \<and> \<not> added_on_one_authority toy_mls 5 [(MemberAt 1, [1, 67])] (Some 0)"
  using one_person_can_be_two_members [of toy_mls 5 0 "from_credential [1, 65, 7] [10]" "[1, 65, 8]" "[(MemberAt 0, [1, 65, 8])]" 5 1
      "from_credential [1, 65, 8] [11]" "[(MemberAt 1, [1, 67])]" "[1, 67]"]
  by (simp add: toy_mls_def participant_at_def from_credential_def same_person_as_def Let_def)

end
