(* ===== verification/Hybrid_Wraps.thy ===== *)
theory Hybrid_Wraps
  imports Rotelyx_Prelude
begin

text \<open>
  Post-quantum group secrets sealed to one member, \<^verbatim>\<open>crates/rotelyx-crypto/src/hybrid.rs\<close>: the derived keys,
  the binding that goes into the associated data, the wrap, its signature and its wire form.  X-Wing,
  XChaCha20-Poly1305, Ed25519 and BLAKE3 come from third-party crates and are parameters; an encapsulation is
  the pair the crate returns.
\<close>

section \<open>Definitions\<close>

definition CIPHERTEXT_LEN :: nat where "CIPHERTEXT_LEN = 1120"
definition WRAPPED_SECRET_LEN :: nat where "WRAPPED_SECRET_LEN = CIPHERTEXT_LEN + 24 + 32 + 16"

datatype hybrid_error =
    BadPublicKey
  | BadSecretKey
  | BadCiphertext
  | Decapsulation
  | Unsigned
  | WrongSigner
  | Entropy

definition derive_psk :: "hash \<Rightarrow> bytes \<Rightarrow> bytes \<Rightarrow> bytes" where
  "derive_psk h secret binding = h (ascii ''rotelyx hybrid-pq psk v1'') (secret @ prefixed binding)"

definition hybrid_derive_key :: "hash \<Rightarrow> bytes \<Rightarrow> bytes \<Rightarrow> bytes" where
  "hybrid_derive_key h kem_secret ctx = h ctx kem_secret"

definition WRAP_CONTEXT :: bytes where
  "WRAP_CONTEXT = ascii ''rotelyx pq group secret wrap v1''"

definition wrapping_key :: "hash \<Rightarrow> bytes \<Rightarrow> bytes" where
  "wrapping_key h kem_secret = h WRAP_CONTEXT kem_secret"

record pq_binding =
  b_group :: bytes
  b_epoch :: u64
  b_recipient :: bytes
  b_sender :: bytes

definition WRAP_LABEL :: bytes where
  "WRAP_LABEL = ascii ''rotelyx pq group secret wrap v2''"

definition to_aad :: "pq_binding \<Rightarrow> bytes" where
  "to_aad b = prefixed WRAP_LABEL @ prefixed (b_group b) @ u64_be (b_epoch b) @
     prefixed (b_recipient b) @ prefixed (b_sender b)"

record wrapped_secret =
  w_kem :: bytes
  w_nonce :: bytes
  w_sealed :: bytes
  w_signature :: bytes

definition body_bytes :: "wrapped_secret \<Rightarrow> bytes" where
  "body_bytes w = w_kem w @ w_nonce w @ w_sealed w"

definition wrapped_to_bytes :: "wrapped_secret \<Rightarrow> bytes" where
  "wrapped_to_bytes w = body_bytes w @ w_signature w"

definition hybrid_ciphertext_from_bytes :: "bytes \<Rightarrow> (hybrid_error, bytes) result" where
  "hybrid_ciphertext_from_bytes bs = (if length bs \<noteq> CIPHERTEXT_LEN then Inl BadCiphertext else Inr bs)"

definition wrapped_from_bytes :: "bytes \<Rightarrow> (hybrid_error, wrapped_secret) result" where
  "wrapped_from_bytes bs =
     (if length bs < WRAPPED_SECRET_LEN then Inl BadCiphertext
      else
        let body = take WRAPPED_SECRET_LEN bs; signature = drop WRAPPED_SECRET_LEN bs;
            kem = take CIPHERTEXT_LEN body; rest = drop CIPHERTEXT_LEN body;
            nonce = take 24 rest; sealed = drop 24 rest
        in bind_result (hybrid_ciphertext_from_bytes kem) (\<lambda>kem.
             Inr \<lparr> w_kem = kem, w_nonce = nonce, w_sealed = sealed, w_signature = signature \<rparr>))"

text \<open>\<open>encapsulated\<close> is what encapsulation to the recipient returns, \<open>draw\<close> what the random source gave.\<close>

definition wrap_for ::
  "hash \<Rightarrow> aead_enc \<Rightarrow> bytes \<Rightarrow> bytes \<times> bytes \<Rightarrow> bytes option \<Rightarrow> pq_binding \<Rightarrow> (hybrid_error, wrapped_secret) result" where
  "wrap_for h enc secret encapsulated draw b =
     (case encapsulated of (kem, kem_secret) \<Rightarrow>
        let key = wrapping_key h kem_secret
        in bind_result (ok_or Entropy draw) (\<lambda>nonce.
             let aad = to_aad b
             in bind_result (ok_or BadCiphertext (enc key nonce aad secret)) (\<lambda>sealed.
                  Inr \<lparr> w_kem = kem, w_nonce = nonce, w_sealed = sealed, w_signature = [] \<rparr>)))"

definition signing_payload :: "pq_binding \<Rightarrow> wrapped_secret \<Rightarrow> bytes" where
  "signing_payload b w = prefixed (to_aad b) @ prefixed (body_bytes w)"

definition wrap_and_sign ::
  "hash \<Rightarrow> aead_enc \<Rightarrow> (bytes \<Rightarrow> bytes option) \<Rightarrow> bytes \<Rightarrow> bytes \<times> bytes \<Rightarrow> bytes option \<Rightarrow> pq_binding \<Rightarrow>
    (hybrid_error, wrapped_secret) result" where
  "wrap_and_sign h enc sign secret encapsulated draw b =
     bind_result (wrap_for h enc secret encapsulated draw b) (\<lambda>w.
       bind_result (ok_or BadCiphertext (sign (signing_payload b w))) (\<lambda>signature.
         Inr (w\<lparr>w_signature := signature\<rparr>)))"

definition unwrap_pq ::
  "hash \<Rightarrow> aead_dec \<Rightarrow> (bytes \<Rightarrow> bytes) \<Rightarrow> wrapped_secret \<Rightarrow> pq_binding \<Rightarrow> (hybrid_error, bytes) result" where
  "unwrap_pq h dec decaps w b =
     (let key = wrapping_key h (decaps (w_kem w))
      in bind_result (ok_or BadCiphertext (dec key (w_nonce w) (to_aad b) (w_sealed w))) (\<lambda>plain.
           if length plain \<noteq> 32 then Inl BadCiphertext else Inr plain))"

text \<open>\<open>point\<close> tells whether 32 bytes are a verifying key, \<open>ed\<close> is \<^verbatim>\<open>verify_strict\<close>.\<close>

definition unwrap_pq_signed ::
  "hash \<Rightarrow> aead_dec \<Rightarrow> (bytes \<Rightarrow> bytes) \<Rightarrow> (bytes \<Rightarrow> bool) \<Rightarrow> (bytes \<Rightarrow> bytes \<Rightarrow> bytes \<Rightarrow> bool) \<Rightarrow>
    wrapped_secret \<Rightarrow> pq_binding \<Rightarrow> (hybrid_error, bytes) result" where
  "unwrap_pq_signed h dec decaps point ed w b =
     (if w_signature w = [] then Inl Unsigned
      else if length (b_sender b) \<noteq> 32 then Inl WrongSigner
      else if \<not> point (b_sender b) then Inl WrongSigner
      else if length (w_signature w) \<noteq> 64 then Inl WrongSigner
      else if \<not> ed (b_sender b) (signing_payload b w) (w_signature w) then Inl WrongSigner
      else unwrap_pq h dec decaps w b)"

section \<open>Bindings are unambiguous\<close>

definition sized :: "pq_binding \<Rightarrow> bool" where
  "sized b \<longleftrightarrow> length (b_group b) < 2 ^ 64 \<and> length (b_recipient b) < 2 ^ 64 \<and> length (b_sender b) < 2 ^ 64"

lemma to_aad_inj:
  assumes "sized b" "sized c"
  shows "to_aad b = to_aad c \<longleftrightarrow> b = c"
proof
  assume "to_aad b = to_aad c"
  then have "prefixed (b_group b) @ u64_be (b_epoch b) @ prefixed (b_recipient b) @ prefixed (b_sender b) =
      prefixed (b_group c) @ u64_be (b_epoch c) @ prefixed (b_recipient c) @ prefixed (b_sender c)"
    by (simp add: to_aad_def)
  then have g: "b_group b = b_group c" and
    rest: "u64_be (b_epoch b) @ prefixed (b_recipient b) @ prefixed (b_sender b) =
      u64_be (b_epoch c) @ prefixed (b_recipient c) @ prefixed (b_sender c)"
    using assms by (auto simp: sized_def prefixed_append_eq)
  from rest have "b_epoch b = b_epoch c" and
    "prefixed (b_recipient b) @ prefixed (b_sender b) @ [] = prefixed (b_recipient c) @ prefixed (b_sender c) @ []"
    by (simp_all add: fixed_append_eq)
  then have "b_recipient b = b_recipient c" "b_sender b = b_sender c" "b_epoch b = b_epoch c"
    using assms by (auto simp only: sized_def prefixed_append_eq)
  then show "b = c" using g by simp
qed simp

section \<open>Properties\<close>

text \<open>A wrapped group secret is usable in one place: the holder of the recipient's key unwraps it exactly under
  the binding it was wrapped for, and under any other group, epoch, recipient or sender gets an error.\<close>

lemma wrap_opens_in_one_place:
  assumes "aead_opens enc dec" "aead_binds enc dec" "decaps kem = kem_secret" "length secret = 32"
    and "sized b" "sized c" "wrap_for h enc secret (kem, kem_secret) draw b = Inr w"
  shows "unwrap_pq h dec decaps w c = (if c = b then Inr secret else Inl BadCiphertext)"
proof -
  from assms(7) obtain nonce sealed where "enc (wrapping_key h kem_secret) nonce (to_aad b) secret = Some sealed"
    and w: "w = \<lparr> w_kem = kem, w_nonce = nonce, w_sealed = sealed, w_signature = [] \<rparr>"
    by (auto simp: wrap_for_def Let_def result_simps)
  then have "dec (wrapping_key h kem_secret) nonce (to_aad c) sealed = (if c = b then Some secret else None)"
    using aead_opensD [OF assms(1)] aead_bindsD [OF assms(2)] to_aad_inj [OF assms(5,6)] by auto
  then show ?thesis using assms(3,4) by (simp add: unwrap_pq_def w)
qed

definition sample_binding :: pq_binding where
  "sample_binding = \<lparr> b_group = [1], b_epoch = 4, b_recipient = [2], b_sender = replicate 32 3 \<rparr>"

lemma wrap_opens_in_one_place_witness:
  "unwrap_pq (\<lambda>c m. m) carry_dec (\<lambda>k. k)
     \<lparr> w_kem = [5], w_nonce = [], w_sealed = prefixed (to_aad sample_binding) @ replicate 32 8, w_signature = [] \<rparr>
     (sample_binding\<lparr>b_epoch := 5\<rparr>) = Inl BadCiphertext"
  by (subst wrap_opens_in_one_place [OF carry_aead, of "\<lambda>k. k" "[5]" "[5]" "replicate 32 8" sample_binding _ "\<lambda>c m. m" "Some []"])
    (simp_all add: sample_binding_def sized_def wrap_for_def carry_enc_def Let_def to_aad_def WRAP_LABEL_def prefixed_def)

text \<open>What a member signs and another receives: a wrap signed by the sender its binding names survives the
  wire and unwraps, and a wrap whose signature does not verify for the binding is refused before anything is
  decrypted, whatever it carries.\<close>

lemma signed_wrap_crosses_the_wire:
  assumes "aead_opens enc dec" "aead_grows enc" "decaps kem = kem_secret" "length secret = 32" "length kem = CIPHERTEXT_LEN"
    and "length nonce = 24" "length (b_sender b) = 32" "point (b_sender b)"
    and "\<And>m s. sign m = Some s \<Longrightarrow> length s = 64 \<and> ed (b_sender b) m s"
    and "wrap_and_sign h enc sign secret (kem, kem_secret) (Some nonce) b = Inr w"
  shows "wrapped_from_bytes (wrapped_to_bytes w) = Inr w \<and>
    unwrap_pq_signed h dec decaps point ed w b = Inr secret \<and>
    (\<forall>forged c. \<not> ed (b_sender c) (signing_payload c forged) (w_signature forged) \<longrightarrow>
      unwrap_pq_signed h dec decaps point ed forged c \<in> {Inl Unsigned, Inl WrongSigner})"
proof -
  from assms(10) obtain sealed signature where
    sealed: "enc (wrapping_key h kem_secret) nonce (to_aad b) secret = Some sealed"
    and signature: "sign (signing_payload b \<lparr> w_kem = kem, w_nonce = nonce, w_sealed = sealed, w_signature = [] \<rparr>) = Some signature"
    and w: "w = \<lparr> w_kem = kem, w_nonce = nonce, w_sealed = sealed, w_signature = signature \<rparr>"
    by (auto simp: wrap_and_sign_def wrap_for_def Let_def result_simps)
  have len: "length sealed = 48" using assms(2,4) sealed by (auto simp: aead_grows_def)
  have sig: "length signature = 64" "signature \<noteq> []" "ed (b_sender b) (signing_payload b w) signature"
    using assms(9) [OF signature] by (auto simp: signing_payload_def body_bytes_def w)
  have "wrapped_from_bytes (wrapped_to_bytes w) = Inr w"
    using assms(5,6) len
    by (simp add: wrapped_from_bytes_def wrapped_to_bytes_def body_bytes_def hybrid_ciphertext_from_bytes_def
        WRAPPED_SECRET_LEN_def CIPHERTEXT_LEN_def w)
  moreover have "unwrap_pq h dec decaps w b = Inr secret"
    using aead_opensD [OF assms(1) sealed] assms(3,4) by (simp add: unwrap_pq_def w)
  ultimately show ?thesis
    using sig assms(7,8) by (auto simp: unwrap_pq_signed_def w)
qed

lemma signed_wrap_crosses_the_wire_witness:
  "unwrap_pq_signed (\<lambda>c m. m) sample_dec (\<lambda>k. [5]) (\<lambda>k. True) (\<lambda>k m s. s = replicate 64 9)
     \<lparr> w_kem = replicate 1120 1, w_nonce = replicate 24 2, w_sealed = replicate 32 8 @ replicate 16 0,
       w_signature = replicate 64 9 \<rparr> sample_binding = Inr (replicate 32 8)"
  by (rule signed_wrap_crosses_the_wire [where kem = "replicate 1120 1" and kem_secret = "[5]" and
        nonce = "replicate 24 2" and sign = "\<lambda>m. Some (replicate 64 9)", OF sample_aead, THEN conjunct2, THEN conjunct1])
    (simp_all add: sample_binding_def CIPHERTEXT_LEN_def wrap_and_sign_def wrap_for_def sample_enc_def Let_def)

text \<open>Nothing that a wrap is bound to can be moved into something else: two bindings have the same associated
  data, and two signed wraps the same signed bytes, only when they are the same.\<close>

lemma bindings_are_unambiguous:
  assumes "sized b" "sized c" "length (to_aad b) < 2 ^ 64" "length (to_aad c) < 2 ^ 64"
    and "length (body_bytes v) < 2 ^ 64" "length (body_bytes w) < 2 ^ 64"
  shows "(to_aad b = to_aad c \<longleftrightarrow> b = c) \<and>
    (signing_payload b v = signing_payload c w \<longleftrightarrow> b = c \<and> body_bytes v = body_bytes w)"
proof -
  have "signing_payload b v = signing_payload c w \<longleftrightarrow>
      prefixed (to_aad b) @ prefixed (body_bytes v) @ [] = prefixed (to_aad c) @ prefixed (body_bytes w) @ []"
    by (simp add: signing_payload_def)
  also have "\<dots> \<longleftrightarrow> to_aad b = to_aad c \<and> body_bytes v = body_bytes w"
    by (simp only: prefixed_append_eq [OF assms(3,4)] prefixed_append_eq [OF assms(5,6)]) simp
  finally show ?thesis using to_aad_inj [OF assms(1,2)] by simp
qed

lemma bindings_are_unambiguous_witness:
  "to_aad sample_binding \<noteq> to_aad (sample_binding\<lparr>b_group := [], b_recipient := [1, 2]\<rparr>)"
  using bindings_are_unambiguous [of sample_binding "sample_binding\<lparr>b_group := [], b_recipient := [1, 2]\<rparr>"
      "\<lparr> w_kem = [], w_nonce = [], w_sealed = [], w_signature = [] \<rparr>"
      "\<lparr> w_kem = [], w_nonce = [], w_sealed = [], w_signature = [] \<rparr>"]
  by (simp add: sample_binding_def sized_def to_aad_def prefixed_def WRAP_LABEL_def body_bytes_def)

end
