(* ===== verification/Envelopes.thy ===== *)
theory Envelopes
  imports Rotelyx_Prelude
begin

text \<open>
  Sealed envelopes, \<^verbatim>\<open>crates/rotelyx-mailbox/src/envelope.rs\<close>: the padding buckets, the rotating
  tags derived from a shared key, the sealing of a payload under a group key, and the envelope a
  mailbox operator holds.  BLAKE3 (\<open>kdf context input\<close>, thirty-two bytes), XChaCha20-Poly1305
  (\<open>enc\<close>, \<open>dec\<close>) and the bytes the operating system's random generator returns are parameters.
\<close>

section \<open>Errors and constants\<close>

datatype envelope_error =
    TooLarge nat nat
  | NotABucket nat
  | BadTagLength nat
  | NoRandomness
  | Sealing
  | NotSealed
  | NotOurs

definition ascii :: "string \<Rightarrow> bytes" where
  "ascii s = map (\<lambda>c. word_of_nat (of_char c)) s"

definition PAYLOAD_VERSION :: u8 where "PAYLOAD_VERSION = 2"
definition PAYLOAD_AAD :: bytes where "PAYLOAD_AAD = ascii ''rotelyx envelope payload v2''"
definition ENVELOPE_NONCE_LEN :: nat where "ENVELOPE_NONCE_LEN = 24"
definition AEAD_TAG_LEN :: nat where "AEAD_TAG_LEN = 16"
definition PADDING_TERMINATOR :: u8 where "PADDING_TERMINATOR = 0x80"
definition PAYLOAD_OVERHEAD :: nat where
  "PAYLOAD_OVERHEAD = 1 + ENVELOPE_NONCE_LEN + AEAD_TAG_LEN + 1"

lemmas envelope_consts =
  PAYLOAD_VERSION_def ENVELOPE_NONCE_LEN_def AEAD_TAG_LEN_def PADDING_TERMINATOR_def PAYLOAD_OVERHEAD_def

section \<open>Buckets\<close>

definition BUCKET_SIZES :: "nat list" where
  "BUCKET_SIZES =
     [1024, 2048, 4096, 8192, 16384, 32768, 65536, 131072, 262144, 524288, 1048576,
      2097152, 4194304, 8388608]"

definition BUCKET_MAX :: nat where "BUCKET_MAX = 8388608"

definition bucket_for_len :: "nat \<Rightarrow> (envelope_error, nat) result" where
  "bucket_for_len len = ok_or (TooLarge len BUCKET_MAX) (find (\<lambda>s. len \<le> s) BUCKET_SIZES)"

definition bucket_from_size :: "nat \<Rightarrow> nat option" where
  "bucket_from_size n = find (\<lambda>s. s = n) BUCKET_SIZES"

section \<open>Tags and their keys\<close>

type_synonym tag = bytes
type_synonym tag_key = bytes
type_synonym payload_key = bytes
type_synonym kdf = "string \<Rightarrow> bytes \<Rightarrow> bytes"

definition TAG_CONTEXT :: string where "TAG_CONTEXT = ''rotelyx mailbox tag v1''"
definition MEMBER_TAG_CONTEXT :: string where "MEMBER_TAG_CONTEXT = ''rotelyx mailbox member tag v1''"
definition PAYLOAD_CONTEXT :: string where "PAYLOAD_CONTEXT = ''rotelyx mailbox payload v1''"
definition RECEIPT_CONTEXT :: string where "RECEIPT_CONTEXT = ''rotelyx envelope receipt v1''"

definition TAG_BUCKET_SECONDS :: u64 where "TAG_BUCKET_SECONDS = 3600"
definition LOOKBACK_FOR_FORTY_HOURS :: u64 where
  "LOOKBACK_FOR_FORTY_HOURS = (40 * 3600 div TAG_BUCKET_SECONDS) - 1"

definition bucket_at :: "u64 \<Rightarrow> u64" where
  "bucket_at unix_seconds = unix_seconds div TAG_BUCKET_SECONDS"

definition tag_from_bytes :: "bytes \<Rightarrow> (envelope_error, tag) result" where
  "tag_from_bytes bs = (if length bs = 32 then Inr bs else Inl (BadTagLength (length bs)))"

definition for_member :: "kdf \<Rightarrow> tag_key \<Rightarrow> bytes \<Rightarrow> tag_key" where
  "for_member kdf key recipient =
     kdf MEMBER_TAG_CONTEXT (key @ u64_be (word_of_nat (length recipient)) @ recipient)"

definition derive_payload_key :: "kdf \<Rightarrow> tag_key \<Rightarrow> payload_key" where
  "derive_payload_key kdf key = kdf PAYLOAD_CONTEXT key"

definition tag_for_epoch :: "kdf \<Rightarrow> tag_key \<Rightarrow> u64 \<Rightarrow> tag" where
  "tag_for_epoch kdf key epoch = kdf TAG_CONTEXT (key @ u64_be epoch)"

text \<open>\<^verbatim>\<open>(0..=lookback).filter_map(|back| current_epoch.checked_sub(back)).map(tag_for_epoch)\<close>\<close>

definition polling_tags :: "kdf \<Rightarrow> tag_key \<Rightarrow> u64 \<Rightarrow> u64 \<Rightarrow> tag list" where
  "polling_tags kdf key current_epoch lookback =
     map (tag_for_epoch kdf key)
       (List.map_filter (\<lambda>back. checked_sub current_epoch (word_of_nat back)) [0..<Suc (unat lookback)])"

section \<open>Payload sealing\<close>

definition payload_aad :: "tag option \<Rightarrow> bytes" where
  "payload_aad tag = PAYLOAD_AAD @ (case tag of Some t \<Rightarrow> 1 # t | None \<Rightarrow> [0])"

text \<open>\<open>random\<close> is what \<^verbatim>\<open>getrandom::fill\<close> put in the nonce, \<^term>\<open>None\<close> if it failed.\<close>

definition payload_seal ::
  "aead_enc \<Rightarrow> bytes option \<Rightarrow> payload_key \<Rightarrow> tag option \<Rightarrow> bytes
    \<Rightarrow> (envelope_error, bytes) result" where
  "payload_seal enc random key tag plaintext =
     bind_result (ok_or NoRandomness random) (\<lambda>nonce.
     bind_result (ok_or Sealing (enc key nonce (payload_aad tag) plaintext)) (\<lambda>sealed.
     Inr ([PAYLOAD_VERSION] @ nonce @ sealed @ [PADDING_TERMINATOR])))"

definition payload_open ::
  "aead_dec \<Rightarrow> payload_key \<Rightarrow> tag option \<Rightarrow> bytes
    \<Rightarrow> (envelope_error, bytes) result" where
  "payload_open dec key tag padded =
     (case split_last_nonzero padded of
        None \<Rightarrow> Inl NotSealed
      | Some (sealed, final) \<Rightarrow>
          if final \<noteq> PADDING_TERMINATOR then Inl NotSealed
          else if length sealed < PAYLOAD_OVERHEAD \<or> sealed ! 0 \<noteq> PAYLOAD_VERSION then Inl NotSealed
          else ok_or NotOurs
                 (dec key (take ENVELOPE_NONCE_LEN (drop 1 sealed)) (payload_aad tag)
                    (drop (1 + ENVELOPE_NONCE_LEN) sealed)))"

section \<open>Envelopes\<close>

record envelope =
  e_tag :: tag
  e_payload :: bytes

definition envelope_seal :: "tag \<Rightarrow> bytes \<Rightarrow> (envelope_error, envelope) result" where
  "envelope_seal tag ciphertext =
     bind_result (bucket_for_len (length ciphertext)) (\<lambda>bucket.
     Inr \<lparr> e_tag = tag, e_payload = ciphertext @ replicate (bucket - length ciphertext) 0 \<rparr>)"

definition digest :: "kdf \<Rightarrow> envelope \<Rightarrow> bytes" where
  "digest kdf e = kdf RECEIPT_CONTEXT (e_tag e @ e_payload e)"

definition envelope_bucket :: "envelope \<Rightarrow> (envelope_error, nat) result" where
  "envelope_bucket e = ok_or (NotABucket (length (e_payload e))) (bucket_from_size (length (e_payload e)))"

definition wire_len :: "envelope \<Rightarrow> nat" where
  "wire_len e = 32 + length (e_payload e)"

definition envelope_to_bytes :: "envelope \<Rightarrow> bytes" where
  "envelope_to_bytes e = e_tag e @ e_payload e"

definition envelope_from_bytes :: "bytes \<Rightarrow> (envelope_error, envelope) result" where
  "envelope_from_bytes bs =
     (if length bs < 32 then Inl (BadTagLength (length bs))
      else
        let tag_bytes = take 32 bs; payload = drop 32 bs
        in bind_result (tag_from_bytes tag_bytes) (\<lambda>tag.
           if bucket_from_size (length payload) = None then Inl (NotABucket (length payload))
           else Inr \<lparr> e_tag = tag, e_payload = payload \<rparr>))"

section \<open>Lemmas on buckets\<close>

lemma find_sorted_least:
  "sorted xs \<Longrightarrow> find (\<lambda>s. n \<le> s) xs = Some b \<Longrightarrow> b \<in> set xs \<and> n \<le> b \<and> (\<forall>s\<in>set xs. n \<le> s \<longrightarrow> b \<le> s)"
  for xs :: "nat list"
  by (induction xs) (auto split: if_splits)

lemma bucket_sizes_sorted: "sorted BUCKET_SIZES"
  by (simp add: BUCKET_SIZES_def)

lemma bucket_from_size_iff: "bucket_from_size n = Some b \<longleftrightarrow> n \<in> set BUCKET_SIZES \<and> b = n"
  by (auto simp: bucket_from_size_def BUCKET_SIZES_def split: if_splits)

lemma bucket_for_len_Inr:
  assumes "bucket_for_len n = Inr b"
  shows "b \<in> set BUCKET_SIZES" "n \<le> b" "\<And>s. s \<in> set BUCKET_SIZES \<Longrightarrow> n \<le> s \<Longrightarrow> b \<le> s"
  using assms find_sorted_least [OF bucket_sizes_sorted, of n b]
  by (auto simp: bucket_for_len_def result_simps)

lemma bucket_for_len_ok: "n \<le> BUCKET_MAX \<longleftrightarrow> (\<exists>b. bucket_for_len n = Inr b)"
proof -
  have "(\<exists>b. bucket_for_len n = Inr b) \<longleftrightarrow> find (\<lambda>s. n \<le> s) BUCKET_SIZES \<noteq> None"
    by (auto simp: bucket_for_len_def result_simps)
  also have "\<dots> \<longleftrightarrow> (\<exists>s\<in>set BUCKET_SIZES. n \<le> s)" by (auto simp: find_None_iff)
  also have "\<dots> \<longleftrightarrow> n \<le> BUCKET_MAX" by (auto simp: BUCKET_SIZES_def BUCKET_MAX_def)
  finally show ?thesis by blast
qed

lemma bucket_for_len_less_double:
  assumes "bucket_for_len n = Inr b" "1024 < n"
  shows "b < 2 * n"
  using assms by (auto simp: bucket_for_len_def BUCKET_SIZES_def result_simps split: if_splits)

section \<open>Lemmas on tags\<close>

lemma map_filter_mem: "x \<in> set xs \<Longrightarrow> f x = Some y \<Longrightarrow> y \<in> set (List.map_filter f xs)"
  by (induction xs) (auto split: option.splits)

lemma polling_covers:
  assumes "e \<le> now" "unat now - unat e \<le> unat lookback"
  shows "tag_for_epoch kdf key e \<in> set (polling_tags kdf key now lookback)"
proof -
  let ?ago = "unat now - unat e"
  have nb: "word_of_nat ?ago = now - e"
  proof (rule unat_eqI)
    have "?ago < 18446744073709551616" by (rule less_imp_diff_less [OF unat_u64_less])
    then show "unat (word_of_nat ?ago :: u64) = unat (now - e)"
      using assms(1) by (simp add: unat_sub unat_of_nat)
  qed
  moreover have "now - e \<le> now" using assms(1) by (simp add: word_le_nat_alt unat_sub)
  ultimately have "checked_sub now (word_of_nat ?ago) = Some e" by (simp add: checked_sub_def)
  moreover have "?ago \<in> set [0..<Suc (unat lookback)]" using assms(2) by auto
  ultimately have "e \<in> set (List.map_filter (\<lambda>back. checked_sub now (word_of_nat back)) [0..<Suc (unat lookback)])"
    by (intro map_filter_mem)
  then show ?thesis unfolding polling_tags_def by simp
qed

lemma length_polling_tags: "length (polling_tags kdf key now lookback) \<le> Suc (unat lookback)"
proof -
  have "length (List.map_filter f xs) \<le> length xs" for f :: "nat \<Rightarrow> u64 option" and xs
    by (simp add: List.map_filter_def)
  from this [of _ "[0..<Suc (unat lookback)]"] show ?thesis by (simp add: polling_tags_def del: upt_Suc)
qed

section \<open>Lemmas on payloads and envelopes\<close>

lemma payload_seal_Inr:
  assumes "payload_seal enc random key tag plain = Inr out"
  obtains nonce sealed where "random = Some nonce" "enc key nonce (payload_aad tag) plain = Some sealed"
    "out = (PAYLOAD_VERSION # nonce @ sealed) @ [PADDING_TERMINATOR]"
  using assms by (auto simp: payload_seal_def result_simps)

text \<open>Whatever zeros the envelope adds, opening sees the sealed bytes without the terminator.\<close>

lemma payload_open_padded:
  "payload_open dec key tag ((PAYLOAD_VERSION # body) @ [PADDING_TERMINATOR] @ replicate n 0) =
     (if length body + 1 < PAYLOAD_OVERHEAD then Inl NotSealed
      else ok_or NotOurs (dec key (take ENVELOPE_NONCE_LEN body) (payload_aad tag) (drop ENVELOPE_NONCE_LEN body)))"
proof -
  have "PADDING_TERMINATOR \<noteq> 0" by (simp add: PADDING_TERMINATOR_def)
  from split_last_nonzero_marked [OF this, of "PAYLOAD_VERSION # body" n]
  show ?thesis by (simp add: payload_open_def)
qed

lemma envelope_seal_Inr:
  assumes "envelope_seal tag c = Inr e"
  obtains b where "bucket_for_len (length c) = Inr b"
    "e = \<lparr> e_tag = tag, e_payload = c @ replicate (b - length c) 0 \<rparr>"
  using assms by (auto simp: envelope_seal_def result_simps)

lemma envelope_seal_length:
  "envelope_seal tag c = Inr e \<Longrightarrow> bucket_for_len (length c) = Inr (length (e_payload e))"
  by (elim envelope_seal_Inr) (use bucket_for_len_Inr(2) in auto)

text \<open>The aad tells a payload bound to a tag from every other.\<close>

lemma payload_aad_inj: "payload_aad s = payload_aad t \<longleftrightarrow> s = t"
  by (auto simp: payload_aad_def split: option.splits)

lemma payload_roundtrip:
  assumes "aead_opens enc dec" "aead_grows enc" "length nonce = ENVELOPE_NONCE_LEN"
    and sealed: "payload_seal enc (Some nonce) key tag plain = Inr out"
  shows "payload_open dec key tag (out @ replicate n 0) = (if plain = [] then Inl NotSealed else Inr plain)"
proof -
  from sealed obtain c where c: "enc key nonce (payload_aad tag) plain = Some c"
    and out: "out = (PAYLOAD_VERSION # nonce @ c) @ [PADDING_TERMINATOR]"
    by (auto elim: payload_seal_Inr)
  have "length c = length plain + 16" "dec key nonce (payload_aad tag) c = Some plain"
    using c assms(1,2) by (simp_all add: aead_grows_def aead_opens_def)
  then show ?thesis
    using payload_open_padded [of dec key tag "nonce @ c" n] out assms(3)
    by (auto simp: envelope_consts)
qed

lemma envelope_bytes_roundtrip:
  assumes "length (e_tag e) = 32" "length (e_payload e) \<in> set BUCKET_SIZES"
  shows "envelope_from_bytes (envelope_to_bytes e) = Inr e"
proof -
  have "bucket_from_size (length (e_payload e)) \<noteq> None"
    using assms(2) bucket_from_size_iff by blast
  then show ?thesis
    using assms(1) by (simp add: envelope_from_bytes_def envelope_to_bytes_def tag_from_bytes_def Let_def)
qed

lemma envelope_from_bytes_Inr:
  assumes "envelope_from_bytes bs = Inr e"
  shows "envelope_to_bytes e = bs" "length (e_tag e) = 32" "length (e_payload e) \<in> set BUCKET_SIZES"
  using assms
  by (auto simp: envelope_from_bytes_def envelope_to_bytes_def tag_from_bytes_def Let_def bucket_from_size_iff
      split: if_splits)

section \<open>Properties\<close>

text \<open>A payload sealed under a key and deposited in an envelope opens, under the same key and
  tag, to the plaintext, whatever the ciphertext ends with and however much padding the bucket added;
  the one exception is the empty plaintext, which seals without an error and never opens.\<close>

theorem sealed_payload_opens:
  assumes "aead_opens enc dec" "aead_grows enc" "length nonce = ENVELOPE_NONCE_LEN"
    and "payload_seal enc (Some nonce) key bound plain = Inr sealed"
    and "envelope_seal tag sealed = Inr e"
  shows "payload_open dec key bound (e_payload e) = (if plain = [] then Inl NotSealed else Inr plain)"
  using payload_roundtrip [OF assms(1-4)] assms(5) by (auto elim!: envelope_seal_Inr)

theorem sealed_payload_opens_witness:
  "payload_open sample_dec [] None
     (e_payload (projr (envelope_seal (replicate 32 4) (projr (payload_seal sample_enc (Some (replicate 24 1)) [] None [9, 0])))))
   = Inr [9, 0]"
proof -
  have s: "payload_seal sample_enc (Some (replicate 24 1)) [] None [9, 0]
      = Inr (projr (payload_seal sample_enc (Some (replicate 24 1)) [] None [9, 0]))"
    by (simp add: payload_seal_def sample_enc_def)
  have e: "envelope_seal t c = Inr (projr (envelope_seal t c))" if "length c \<le> BUCKET_MAX" for t c
    using that bucket_for_len_ok [of "length c"] by (auto simp: envelope_seal_def)
  have "length (projr (payload_seal sample_enc (Some (replicate 24 1)) [] None [9, 0])) \<le> BUCKET_MAX"
    by (simp add: payload_seal_def sample_enc_def BUCKET_MAX_def)
  from sealed_payload_opens [OF sample_aead _ s e [OF this]] show ?thesis
    by (simp add: ENVELOPE_NONCE_LEN_def)
qed

text \<open>What the operator learns of a length is its bucket.  Sealing succeeds exactly up to the
  largest bucket; the payload then has the least of the fourteen bucket sizes that holds the
  ciphertext, starts with the ciphertext, and above the 1 KiB floor is less than twice as long.\<close>

theorem envelope_reveals_bucket_only:
  assumes "envelope_seal tag c = Inr e"
  shows "length (e_payload e) \<in> set BUCKET_SIZES \<and> length c \<le> length (e_payload e) \<and>
         (\<forall>s\<in>set BUCKET_SIZES. length c \<le> s \<longrightarrow> length (e_payload e) \<le> s) \<and>
         take (length c) (e_payload e) = c \<and>
         (1024 < length c \<longrightarrow> length (e_payload e) < 2 * length c) \<and> length c \<le> BUCKET_MAX"
proof -
  note b = envelope_seal_length [OF assms]
  have "take (length c) (e_payload e) = c" using assms by (auto elim!: envelope_seal_Inr)
  then show ?thesis
    using bucket_for_len_Inr [OF b] bucket_for_len_less_double [OF b] bucket_for_len_ok b by blast
qed

theorem envelope_reveals_bucket_only_witness:
  "\<exists>e. envelope_seal (replicate 32 0) (replicate 1025 7) = Inr e \<and> length (e_payload e) \<in> set BUCKET_SIZES"
proof -
  obtain e where e: "envelope_seal (replicate 32 0) (replicate 1025 7) = Inr e"
    using bucket_for_len_ok [of 1025] by (auto simp: envelope_seal_def BUCKET_MAX_def)
  from envelope_reveals_bucket_only [OF e] e show ?thesis by blast
qed

text \<open>The wire form of an envelope.  Reading succeeds exactly on what writing an envelope with a
  32-byte tag and a bucket-sized payload produces, and gives that envelope back; any other size is
  refused.\<close>

theorem envelope_wire_roundtrip:
  "envelope_from_bytes bs = Inr e \<longleftrightarrow>
     bs = envelope_to_bytes e \<and> length (e_tag e) = 32 \<and> length (e_payload e) \<in> set BUCKET_SIZES"
  using envelope_bytes_roundtrip envelope_from_bytes_Inr by blast

text \<open>Clocks and lookback.  An envelope addressed at one time is found by a recipient who polls up
  to thirty-nine hours later, with at most forty tags, below the sixty-four a subscription may carry.\<close>

theorem polling_finds_recent_mail:
  assumes "sent \<le> polled" "unat polled - unat sent \<le> 39 * 3600"
  shows "tag_for_epoch kdf key (bucket_at sent)
           \<in> set (polling_tags kdf key (bucket_at polled) LOOKBACK_FOR_FORTY_HOURS) \<and>
         length (polling_tags kdf key (bucket_at polled) LOOKBACK_FOR_FORTY_HOURS) \<le> 40"
proof -
  have lb: "unat LOOKBACK_FOR_FORTY_HOURS = 39" by (simp add: LOOKBACK_FOR_FORTY_HOURS_def TAG_BUCKET_SECONDS_def)
  have b: "unat (bucket_at t) = unat t div 3600" for t
    by (simp add: bucket_at_def TAG_BUCKET_SECONDS_def unat_div)
  have le: "unat sent \<le> unat polled" using assms(1) by (simp add: word_le_nat_alt)
  then have "bucket_at sent \<le> bucket_at polled" by (simp add: word_le_nat_alt b div_le_mono)
  moreover have "unat (bucket_at polled) - unat (bucket_at sent) \<le> unat LOOKBACK_FOR_FORTY_HOURS"
  proof -
    have "unat polled \<le> unat sent + 39 * 3600" using assms(2) by simp
    then have "unat polled div 3600 \<le> (unat sent + 39 * 3600) div 3600" by (rule div_le_mono)
    then show ?thesis by (simp add: b lb)
  qed
  ultimately show ?thesis
    using polling_covers length_polling_tags [of kdf key "bucket_at polled" LOOKBACK_FOR_FORTY_HOURS] lb by simp
qed

theorem polling_finds_recent_mail_witness:
  "tag_for_epoch (\<lambda>c b. b) [] (bucket_at 7200)
     \<in> set (polling_tags (\<lambda>c b. b) [] (bucket_at 144000) LOOKBACK_FOR_FORTY_HOURS)"
  using polling_finds_recent_mail [of 7200 144000] by simp

end
