(* ===== verification/Hex_Tags.thy ===== *)
theory Hex_Tags
  imports Envelopes
begin

text \<open>
  Tags and receipts as hexadecimal text, \<^verbatim>\<open>parse_tag\<close> and \<^verbatim>\<open>parse_digest\<close> of \<^verbatim>\<open>rotelyx-mailbox-server/src/main.rs\<close>.  A Rust
  string is its UTF-8 bytes; cutting one off a character boundary panics, which is \<^term>\<open>None\<close>, and text that is not
  hexadecimal is \<^term>\<open>Some None\<close>.
\<close>

section \<open>What the standard library does\<close>

definition char_boundary :: "bytes \<Rightarrow> nat \<Rightarrow> bool" where
  "char_boundary s i \<longleftrightarrow> i = 0 \<or> i = length s \<or> i < length s \<and> \<not> continuation (s ! i)"

text \<open>\<^verbatim>\<open>&s[i..j]\<close>\<close>

definition str_slice :: "bytes \<Rightarrow> nat \<Rightarrow> nat \<Rightarrow> bytes option" where
  "str_slice s i j =
     (if i \<le> j \<and> j \<le> length s \<and> char_boundary s i \<and> char_boundary s j then Some (take (j - i) (drop i s)) else None)"

definition hex_digit :: "u8 \<Rightarrow> nat option" where
  "hex_digit b =
     (if 48 \<le> b \<and> b \<le> 57 then Some (unat b - 48)
      else if 97 \<le> b \<and> b \<le> 102 then Some (unat b - 87)
      else if 65 \<le> b \<and> b \<le> 70 then Some (unat b - 55)
      else None)"

fun from_digits :: "nat \<Rightarrow> bytes \<Rightarrow> u8 option" where
  "from_digits acc [] = Some (word_of_nat acc)"
| "from_digits acc (b # bs) =
     (case hex_digit b of
        None \<Rightarrow> None
      | Some d \<Rightarrow> if acc * 16 + d < 256 then from_digits (acc * 16 + d) bs else None)"

text \<open>\<^verbatim>\<open>u8::from_str_radix(s, 16)\<close>: a leading plus sign is allowed, a sign alone is not.\<close>

definition from_str_radix16 :: "bytes \<Rightarrow> u8 option" where
  "from_str_radix16 s =
     (if s = [] \<or> s = [43] \<or> s = [45] then None
      else if hd s = 43 then from_digits 0 (tl s)
      else from_digits 0 s)"

section \<open>Tags and receipts\<close>

text \<open>The lazy iterator over the pairs stops at the first that does not parse.\<close>

fun hex_pairs :: "bytes \<Rightarrow> nat list \<Rightarrow> bytes option option" where
  "hex_pairs s [] = Some (Some [])"
| "hex_pairs s (i # is) =
     (case str_slice s i (i + 2) of
        None \<Rightarrow> None
      | Some pair \<Rightarrow>
          (case from_str_radix16 pair of
             None \<Rightarrow> Some None
           | Some b \<Rightarrow> map_option (map_option ((#) b)) (hex_pairs s is)))"

definition parse_digest :: "bytes \<Rightarrow> bytes option option" where
  "parse_digest hex =
     (if length hex \<noteq> 64 then Some None
      else map_option (\<lambda>r. case r of None \<Rightarrow> None | Some bs \<Rightarrow> if length bs = 32 then Some bs else None)
             (hex_pairs hex (map ((*) 2) [0..<32])))"

definition parse_tag :: "bytes \<Rightarrow> tag option option" where
  "parse_tag hex =
     (if length hex \<noteq> 64 then Some None
      else map_option (\<lambda>r. case r of None \<Rightarrow> None | Some bs \<Rightarrow> (case tag_from_bytes bs of Inl _ \<Rightarrow> None | Inr t \<Rightarrow> Some t))
             (hex_pairs hex (map ((*) 2) [0..<32])))"

section \<open>Reading back what was written\<close>

text \<open>\<^verbatim>\<open>format!("{byte:02x}")\<close> of every byte.\<close>

definition hex_char :: "nat \<Rightarrow> u8" where
  "hex_char n = (if n < 10 then word_of_nat (48 + n) else word_of_nat (87 + n))"

definition hex_text :: "bytes \<Rightarrow> bytes" where
  "hex_text bs = concat (map (\<lambda>b. [hex_char (unat b div 16), hex_char (unat b mod 16)]) bs)"

lemma hex_char_props:
  assumes "n < 16"
  shows "hex_digit (hex_char n) = Some n" "hex_char n \<noteq> 43" "\<not> continuation (hex_char n)"
proof -
  have "\<forall>n\<in>{0..<16}. hex_digit (hex_char n) = Some n \<and> hex_char n \<noteq> 43 \<and> \<not> continuation (hex_char n)"
    by (simp add: hex_digit_def hex_char_def continuation_def atLeastLessThan_nat_numeral flip: atLeastLessThan_upt)
  then show "hex_digit (hex_char n) = Some n" "hex_char n \<noteq> 43" "\<not> continuation (hex_char n)"
    using assms by auto
qed

lemma nibbles: "unat (b :: u8) div 16 < 16" "unat b mod 16 < 16"
  using unat_byte_less [of b] by (auto simp: less_mult_imp_div_less)

lemma from_pair: "from_str_radix16 [hex_char (unat b div 16), hex_char (unat b mod 16)] = Some b"
proof -
  have "word_of_nat (unat b div 16 * 16 + unat b mod 16) = b" by (simp del: of_nat_add of_nat_mult)
  then show ?thesis using nibbles [of b] hex_char_props [OF nibbles(1) [of b]] hex_char_props(1) [OF nibbles(2) [of b]]
    by (simp add: from_str_radix16_def del: of_nat_add of_nat_mult)
qed

lemma length_hex_text [simp]: "length (hex_text bs) = 2 * length bs"
  by (induction bs) (auto simp: hex_text_def)

lemma hex_text_plain: "b \<in> set (hex_text bs) \<Longrightarrow> \<not> continuation b"
  by (auto simp: hex_text_def hex_char_props(3) nibbles)

lemma slice_plain:
  assumes "\<forall>b\<in>set s. \<not> continuation b" "i + 2 \<le> length s"
  shows "str_slice s i (i + 2) = Some (take 2 (drop i s))"
proof -
  have "char_boundary s j" if "j \<le> length s" for j
    using that assms(1) by (auto simp: char_boundary_def)
  then show ?thesis using assms(2) by (simp add: str_slice_def)
qed

lemma hex_pairs_text:
  "\<forall>b\<in>set pre. \<not> continuation b \<Longrightarrow> length pre = 2 * k \<Longrightarrow>
   hex_pairs (pre @ hex_text bs) (map ((*) 2) [k..<k + length bs]) = Some (Some bs)"
proof (induction bs arbitrary: pre k)
  case (Cons b bs)
  let ?p = "[hex_char (unat b div 16), hex_char (unat b mod 16)]"
  have txt_eq: "pre @ hex_text (b # bs) = (pre @ ?p) @ hex_text bs" by (simp add: hex_text_def)
  have "\<forall>c\<in>set (pre @ hex_text (b # bs)). \<not> continuation c" using Cons.prems(1) hex_text_plain by auto
  then have "str_slice (pre @ hex_text (b # bs)) (2 * k) (2 * k + 2) = Some (take 2 (drop (2 * k) (pre @ hex_text (b # bs))))"
    using Cons.prems(2) by (intro slice_plain) auto
  also have "take 2 (drop (2 * k) (pre @ hex_text (b # bs))) = ?p" using Cons.prems(2) by (simp add: hex_text_def)
  finally have slice: "str_slice (pre @ hex_text (b # bs)) (2 * k) (2 * k + 2) = Some ?p" .
  have "hex_pairs ((pre @ ?p) @ hex_text bs) (map ((*) 2) [Suc k..<Suc k + length bs]) = Some (Some bs)"
    using Cons.prems by (intro Cons.IH) (auto simp: hex_char_props(3) nibbles)
  moreover have "[k..<k + length (b # bs)] = k # [Suc k..<Suc k + length bs]" by (simp add: upt_conv_Cons del: upt_Suc)
  ultimately show ?case using slice from_pair [of b] by (simp only: txt_eq list.map hex_pairs.simps) simp
qed simp

text \<open>Text without characters beyond ASCII never panics.\<close>

lemma hex_pairs_plain:
  "\<forall>b\<in>set s. \<not> continuation b \<Longrightarrow> \<forall>i\<in>set is. i + 2 \<le> length s \<Longrightarrow> hex_pairs s is \<noteq> None"
  by (induction "is") (auto simp: slice_plain simp del: add_2_eq_Suc' split: option.splits)

lemma parse_tag_plain: "\<forall>b\<in>set s. \<not> continuation b \<Longrightarrow> parse_tag s \<noteq> None"
  using hex_pairs_plain [of s "map ((*) 2) [0..<32]"] by (auto simp: parse_tag_def)

lemma parse_digest_plain: "\<forall>b\<in>set s. \<not> continuation b \<Longrightarrow> parse_digest s \<noteq> None"
  using hex_pairs_plain [of s "map ((*) 2) [0..<32]"] by (auto simp: parse_digest_def)

lemma parse_hex_text:
  assumes "length t = 32"
  shows "parse_tag (hex_text t) = Some (Some t)" "parse_digest (hex_text t) = Some (Some t)"
  using hex_pairs_text [of "[]" 0 t] assms
  by (simp_all add: parse_tag_def parse_digest_def tag_from_bytes_def del: upt_rec_numeral)

lemma parse_tag_length: "parse_tag s = Some (Some t) \<Longrightarrow> length t = 32"
  by (auto simp: parse_tag_def tag_from_bytes_def split: if_splits option.splits)

text \<open>
  A character of two bytes that begins on an odd place after an even number of digits panics: the pair ends inside it.
\<close>

lemma parse_split_char:
  assumes "length s = 64" "continuation (s ! 2)"
  shows "parse_tag s = None" "parse_digest s = None"
proof -
  have "\<not> char_boundary s 2" using assms by (simp add: char_boundary_def)
  then have "str_slice s 0 2 = None" by (simp add: str_slice_def)
  moreover have "[0..<32] = 0 # [1..<32]" by (simp add: upt_conv_Cons del: upt_Suc)
  ultimately show "parse_tag s = None" "parse_digest s = None"
    using assms(1) by (simp_all add: parse_tag_def parse_digest_def numeral_2_eq_2 del: upt_Suc upt_rec_numeral)
qed

text \<open>A plus sign passes for a leading zero, so text that is not hexadecimal names a tag.\<close>

lemma plus_is_a_digit: "from_str_radix16 [43, b] = (case hex_digit b of None \<Rightarrow> None | Some d \<Rightarrow> if d < 256 then Some (word_of_nat d) else None)"
  by (simp add: from_str_radix16_def split: option.splits)

end
