(* ===== verification/Meeting_Codes.thy ===== *)
theory Meeting_Codes
  imports Hex_Tags
begin

text \<open>
  Meeting codes and the place they name, of \<^verbatim>\<open>rotelyx-wasm/src/lib.rs\<close>: a code is minted from fifteen random bytes, shown in
  groups, recognised again in whatever a scan or a paste produced, and turned into the mailbox tag where the two sides
  leave their first envelopes.  A Rust string is the list of its Unicode scalar values; its length and its slices count
  UTF-8 bytes.  \<^verbatim>\<open>char::to_uppercase\<close> is a table of the standard library and a parameter; \<^verbatim>\<open>None\<close> is a panic.
\<close>

section \<open>Strings of the standard library\<close>

type_synonym str = "nat list"

definition chars :: "string \<Rightarrow> str" where
  "chars s = map of_char s"

definition utf8_char :: "nat \<Rightarrow> bytes" where
  "utf8_char c =
     (if c < 0x80 then [word_of_nat c]
      else if c < 0x800 then [word_of_nat (0xC0 + c div 64), word_of_nat (0x80 + c mod 64)]
      else if c < 0x10000 then
        [word_of_nat (0xE0 + c div 4096), word_of_nat (0x80 + c div 64 mod 64), word_of_nat (0x80 + c mod 64)]
      else [word_of_nat (0xF0 + c div 262144), word_of_nat (0x80 + c div 4096 mod 64), word_of_nat (0x80 + c div 64 mod 64),
            word_of_nat (0x80 + c mod 64)])"

definition as_bytes :: "str \<Rightarrow> bytes" where
  "as_bytes s = concat (map utf8_char s)"

text \<open>\<^verbatim>\<open>char::is_whitespace\<close>\<close>

definition white_space :: "nat \<Rightarrow> bool" where
  "white_space c \<longleftrightarrow> 9 \<le> c \<and> c \<le> 13 \<or> c = 32 \<or> c = 0x85 \<or> c = 0xA0 \<or> c = 0x1680 \<or> 0x2000 \<le> c \<and> c \<le> 0x200A \<or>
     c = 0x2028 \<or> c = 0x2029 \<or> c = 0x202F \<or> c = 0x205F \<or> c = 0x3000"

definition trim :: "str \<Rightarrow> str" where
  "trim s = rev (dropWhile white_space (rev (dropWhile white_space s)))"

text \<open>\<^verbatim>\<open>(&s[..n], &s[n..])\<close>\<close>

fun split_bytes :: "nat \<Rightarrow> str \<Rightarrow> (str \<times> str) option" where
  "split_bytes n [] = (if n = 0 then Some ([], []) else None)"
| "split_bytes n (c # s) =
     (if n = 0 then Some ([], c # s)
      else if length (utf8_char c) \<le> n then map_option (\<lambda>(a, b). (c # a, b)) (split_bytes (n - length (utf8_char c)) s)
      else None)"

definition ascii_lower :: "nat \<Rightarrow> nat" where
  "ascii_lower c = (if 65 \<le> c \<and> c \<le> 90 then c + 32 else c)"

definition ascii_upper :: "nat \<Rightarrow> nat" where
  "ascii_upper c = (if 97 \<le> c \<and> c \<le> 122 then c - 32 else c)"

definition eq_ignore_ascii_case :: "str \<Rightarrow> str \<Rightarrow> bool" where
  "eq_ignore_ascii_case a b \<longleftrightarrow> map ascii_lower a = map ascii_lower b"

definition strip_prefix :: "'a list \<Rightarrow> 'a list \<Rightarrow> 'a list option" where
  "strip_prefix p s = (if take (length p) s = p then Some (drop (length p) s) else None)"

text \<open>What the table says of ASCII.\<close>

definition uppercases :: "(nat \<Rightarrow> str) \<Rightarrow> bool" where
  "uppercases upper \<longleftrightarrow> (\<forall>c<128. upper c = [ascii_upper c])"

section \<open>Codes\<close>

datatype client_error =
    NotBase64
  | NotATag
  | NotHex
  | BadEnvelope envelope_error
  | WrongTag
  | PhraseTooShort
  | NoEntropy
  | NotACode
  | WrongCodeLength
  | WrongCodeLetters

definition MEETING_PREFIX :: str where "MEETING_PREFIX = chars ''RTLX1''"
definition MEETING_ALPHABET :: str where "MEETING_ALPHABET = chars ''ABCDEFGHIJKLMNOPQRSTUVWXYZ234567''"
definition MEETING_ENTROPY :: nat where "MEETING_ENTROPY = 15"
definition MEETING_BODY :: nat where "MEETING_BODY = MEETING_ENTROPY * 8 div 5"
definition SCHEME :: str where "SCHEME = chars ''rotelyx://''"

function (sequential) emit_letters :: "u32 \<Rightarrow> nat \<Rightarrow> str \<Rightarrow> nat \<times> str" where
  "emit_letters buffer bits out =
     (if 5 \<le> bits then
        emit_letters buffer (bits - 5) (out @ [MEETING_ALPHABET ! unat (drop_bit (bits - 5) buffer AND 0x1F)])
      else (bits, out))"
  by pat_completeness auto
termination by (relation "measure (\<lambda>(_, bits, _). bits)") auto

fun mint_letters :: "u32 \<Rightarrow> nat \<Rightarrow> str \<Rightarrow> bytes \<Rightarrow> nat \<times> str" where
  "mint_letters buffer bits out [] = (bits, out)"
| "mint_letters buffer bits out (b # bs) =
     (let buffer = push_bit 8 buffer OR ucast b
      in case emit_letters buffer (bits + 8) out of (bits, out) \<Rightarrow> mint_letters buffer bits out bs)"

text \<open>\<open>draw\<close> is what \<^verbatim>\<open>getrandom::fill\<close> put in the fifteen bytes.\<close>

definition new_meeting_code :: "bytes option \<Rightarrow> (client_error, str) result" where
  "new_meeting_code draw =
     bind_result (ok_or NoEntropy draw) (\<lambda>bs. Inr (snd (mint_letters 0 0 MEETING_PREFIX bs)))"

text \<open>The text without its scheme, \<^term>\<open>None\<close> where the slice falls inside a character.\<close>

definition strip_scheme :: "str \<Rightarrow> str option" where
  "strip_scheme t =
     (if length (as_bytes SCHEME) \<le> length (as_bytes t) then
        map_option (\<lambda>(a, b). if eq_ignore_ascii_case a SCHEME then b else t) (split_bytes (length (as_bytes SCHEME)) t)
      else Some t)"

definition clean_code :: "(nat \<Rightarrow> str) \<Rightarrow> str \<Rightarrow> str" where
  "clean_code upper t = concat (map upper (filter (\<lambda>c. \<not> white_space c \<and> c \<noteq> of_char (CHR ''-'')) t))"

definition check_code :: "str \<Rightarrow> (client_error, str) result" where
  "check_code cleaned =
     bind_result (ok_or NotACode (strip_prefix MEETING_PREFIX cleaned)) (\<lambda>body.
       if length (as_bytes body) \<noteq> MEETING_BODY then Inl WrongCodeLength
       else if \<not> list_all (\<lambda>b. b \<in> set (as_bytes MEETING_ALPHABET)) (as_bytes body) then Inl WrongCodeLetters
       else Inr (MEETING_PREFIX @ body))"

definition read_meeting_code :: "(nat \<Rightarrow> str) \<Rightarrow> str \<Rightarrow> (client_error, str) result option" where
  "read_meeting_code upper input = map_option (\<lambda>t. check_code (clean_code upper t)) (strip_scheme (trim input))"

fun grouped :: "nat \<Rightarrow> str \<Rightarrow> str" where
  "grouped at [] = []"
| "grouped at (c # s) = (if at mod 4 = 0 then [32, c] else [c]) @ grouped (at + 1) s"

definition pretty_meeting_code :: "str \<Rightarrow> str" where
  "pretty_meeting_code code =
     (let body = (case strip_prefix MEETING_PREFIX code of Some b \<Rightarrow> b | None \<Rightarrow> code) in MEETING_PREFIX @ grouped 0 body)"

section \<open>The meeting place\<close>

definition RENDEZVOUS_CONTEXT :: bytes where "RENDEZVOUS_CONTEXT = ascii ''rotelyx browser rendezvous v1''"

text \<open>\<^verbatim>\<open>hex\<close>, and \<^verbatim>\<open>decode\<close>, whose Base64 crate is the function \<open>unb64\<close>.\<close>

definition hex_str :: "bytes \<Rightarrow> str" where
  "hex_str bs = map unat (hex_text bs)"

definition decode_text :: "(bytes \<Rightarrow> bytes option) \<Rightarrow> str \<Rightarrow> bytes option" where
  "decode_text unb64 s = unb64 (as_bytes (trim s))"

definition rendezvous_tag :: "hash \<Rightarrow> str \<Rightarrow> (client_error, str) result" where
  "rendezvous_tag h passphrase =
     (let phrase = trim passphrase
      in if length (as_bytes phrase) < 8 then Inl PhraseTooShort else Inr (hex_str (h RENDEZVOUS_CONTEXT (as_bytes phrase))))"

definition tag_from_hex :: "str \<Rightarrow> (client_error, tag) result option" where
  "tag_from_hex s =
     (if length (as_bytes s) \<noteq> 64 then Some (Inl NotATag)
      else map_option (\<lambda>r. bind_result (ok_or NotHex r) (\<lambda>bs. map_err BadEnvelope (tag_from_bytes bs)))
             (hex_pairs (as_bytes s) (map ((*) 2) [0..<32])))"

definition seal_under :: "(bytes \<Rightarrow> bytes option) \<Rightarrow> (bytes \<Rightarrow> str) \<Rightarrow> str \<Rightarrow> str \<Rightarrow> (client_error, str) result option" where
  "seal_under unb64 b64 tag_hex payload_b64 =
     map_option (\<lambda>r. bind_result r (\<lambda>tag.
         bind_result (ok_or NotBase64 (decode_text unb64 payload_b64)) (\<lambda>payload.
         bind_result (map_err BadEnvelope (envelope_seal tag payload)) (\<lambda>e. Inr (b64 (envelope_to_bytes e))))))
       (tag_from_hex tag_hex)"

definition open_under :: "(bytes \<Rightarrow> bytes option) \<Rightarrow> (bytes \<Rightarrow> str) \<Rightarrow> str \<Rightarrow> str \<Rightarrow> (client_error, str) result option" where
  "open_under unb64 b64 envelope_b64 tag_hex =
     map_option (\<lambda>r. bind_result r (\<lambda>expected.
         bind_result (ok_or NotBase64 (decode_text unb64 envelope_b64)) (\<lambda>bs.
         bind_result (map_err BadEnvelope (envelope_from_bytes bs)) (\<lambda>e.
           if e_tag e \<noteq> expected then Inl WrongTag
           else Inr (b64 (rev (dropWhile (\<lambda>b. b = 0) (rev (e_payload e)))))))))
       (tag_from_hex tag_hex)"

text \<open>What the crate promises: its text is free of white space and reads back.\<close>

definition base64_law :: "(bytes \<Rightarrow> bytes option) \<Rightarrow> (bytes \<Rightarrow> str) \<Rightarrow> bool" where
  "base64_law unb64 b64 \<longleftrightarrow> (\<forall>bs. unb64 (as_bytes (b64 bs)) = Some bs \<and> (\<forall>c\<in>set (b64 bs). \<not> white_space c))"

section \<open>Plain text\<close>

definition plain :: "str \<Rightarrow> bool" where
  "plain s \<longleftrightarrow> (\<forall>c\<in>set s. c < 128)"

lemma utf8_char_nonempty: "utf8_char c \<noteq> []"
  by (simp add: utf8_char_def)

lemma utf8_plain: "c < 128 \<Longrightarrow> utf8_char c = [word_of_nat c]"
  by (simp add: utf8_char_def)

lemma utf8_char_foreign:
  assumes "128 \<le> c"
  shows "\<exists>b\<in>set (utf8_char c). continuation b" "2 \<le> length (utf8_char c)"
proof -
  have "\<forall>r\<in>{0..<64}. continuation (word_of_nat (0x80 + r))"
    by (simp add: continuation_def atLeastLessThan_nat_numeral flip: atLeastLessThan_upt)
  then have "continuation (word_of_nat (0x80 + c mod 64))" by simp
  then show "\<exists>b\<in>set (utf8_char c). continuation b" using assms by (auto simp: utf8_char_def)
  show "2 \<le> length (utf8_char c)" using assms by (auto simp: utf8_char_def)
qed

lemma as_bytes_append: "as_bytes (a @ b) = as_bytes a @ as_bytes b"
  by (simp add: as_bytes_def)

lemma as_bytes_plain: "plain s \<Longrightarrow> as_bytes s = map word_of_nat s"
  by (induction s) (auto simp: plain_def as_bytes_def utf8_plain)

lemma length_as_bytes_plain: "plain s \<Longrightarrow> length (as_bytes s) = length s"
  by (simp add: as_bytes_plain)

lemma plain_append [simp]: "plain (a @ b) \<longleftrightarrow> plain a \<and> plain b"
  by (auto simp: plain_def)

lemma split_bytes_plain: "plain s \<Longrightarrow> n \<le> length s \<Longrightarrow> split_bytes n (s @ r) = Some (take n s, drop n s @ r)"
proof (induction s arbitrary: n)
  case Nil then show ?case by (cases r) simp_all
next
  case (Cons c s) then show ?case by (cases n) (auto simp: plain_def utf8_plain)
qed

lemma split_bytes_take: "plain s \<Longrightarrow> n \<le> length s \<Longrightarrow> split_bytes n s = Some (take n s, drop n s)"
  using split_bytes_plain [of s n "[]"] by simp

lemma dropWhile_all: "\<forall>c\<in>set w. P c \<Longrightarrow> dropWhile P (w @ s) = dropWhile P s"
  by (induction w) auto

lemma dropWhile_first: "s = [] \<or> \<not> P (hd s) \<Longrightarrow> dropWhile P s = s"
  by (cases s) auto

lemma trim_solid:
  assumes "\<forall>c\<in>set s. \<not> white_space c"
  shows "trim s = s"
proof -
  have d: "dropWhile white_space x = x" if "\<forall>c\<in>set x. \<not> white_space c" for x
    using that by (cases x) auto
  show ?thesis using assms d [of s] d [of "rev s"] by (simp add: trim_def)
qed

lemma filter_dropWhile: "(\<And>c. P c \<Longrightarrow> \<not> Q c) \<Longrightarrow> filter Q (dropWhile P s) = filter Q s"
  by (induction s) auto

lemma filter_trim: "(\<And>c. white_space c \<Longrightarrow> \<not> Q c) \<Longrightarrow> filter Q (trim s) = filter Q s"
  by (simp add: trim_def rev_filter [symmetric] filter_dropWhile)

lemma white_ends: "\<forall>c\<in>set w. white_space c \<Longrightarrow> trim (w @ s) = trim s" "\<forall>c\<in>set w. white_space c \<Longrightarrow> trim (s @ w) = trim s"
proof -
  show "\<forall>c\<in>set w. white_space c \<Longrightarrow> trim (w @ s) = trim s" by (simp add: trim_def dropWhile_all)
  assume w: "\<forall>c\<in>set w. white_space c"
  show "trim (s @ w) = trim s"
  proof (cases "\<forall>c\<in>set s. white_space c")
    case True
    then have "\<forall>c\<in>set (s @ w). white_space c" using w by auto
    then have "dropWhile white_space (s @ w) = []" "dropWhile white_space s = []" by (auto simp only: dropWhile_eq_Nil_conv) simp
    then show ?thesis by (simp only: trim_def)
  next
    case False
    then have "dropWhile white_space (s @ w) = dropWhile white_space s @ w" by (auto simp: dropWhile_append1)
    then show ?thesis using w by (simp add: trim_def dropWhile_all)
  qed
qed

lemma trim_keeps_front:
  assumes "a \<noteq> []" "\<not> white_space (hd a)" "\<not> white_space (List.last a)"
  shows "\<exists>s'. trim (a @ s) = a @ s' \<and> (\<forall>Q. (\<forall>c. white_space c \<longrightarrow> \<not> Q c) \<longrightarrow> filter Q s' = filter Q s) \<and> set s' \<subseteq> set s"
proof -
  have "dropWhile white_space (a @ s) = a @ s" using assms(1,2) by (cases a) auto
  moreover have "dropWhile white_space (rev s @ rev a) = dropWhile white_space (rev s) @ rev a"
  proof (cases "\<forall>c\<in>set s. white_space c")
    case True
    then have "dropWhile white_space (rev s @ rev a) = dropWhile white_space (rev a)" by (simp add: dropWhile_all)
    moreover have "dropWhile white_space (rev a) = rev a" using assms(1,3) by (intro dropWhile_first) (simp add: hd_rev)
    moreover have "dropWhile white_space (rev s) = []" using True by simp
    ultimately show ?thesis by simp
  next
    case False then show ?thesis by (auto simp: dropWhile_append1)
  qed
  ultimately have "trim (a @ s) = a @ rev (dropWhile white_space (rev s))" by (simp add: trim_def)
  moreover have "set (dropWhile white_space (rev s)) \<subseteq> set s" by (metis set_dropWhileD set_rev subsetI)
  ultimately show ?thesis by (intro exI [of _ "rev (dropWhile white_space (rev s))"]) (auto simp: rev_filter [symmetric] filter_dropWhile)
qed

section \<open>Canonical codes\<close>

definition canonical :: "str \<Rightarrow> bool" where
  "canonical c \<longleftrightarrow> length c = 29 \<and> take 5 c = MEETING_PREFIX \<and> set (drop 5 c) \<subseteq> set MEETING_ALPHABET"

lemmas code_texts = MEETING_PREFIX_def MEETING_ALPHABET_def SCHEME_def chars_def

lemma letters_eval: "set MEETING_ALPHABET = {65..90} \<union> {50..55}"
proof -
  have "MEETING_ALPHABET = [65..<91] @ [50..<56]" by (simp add: code_texts)
  then have "set MEETING_ALPHABET = set ([65..<91] @ [50..<56])" by (rule arg_cong)
  also have "\<dots> = {65..90} \<union> {50..55}" by (auto simp del: upt_rec_numeral)
  finally show ?thesis .
qed

lemma alphabet_bytes: "set (as_bytes MEETING_ALPHABET) = word_of_nat ` set MEETING_ALPHABET"
  by (subst as_bytes_plain) (auto simp: plain_def letters_eval)

lemma letter_props: "c \<in> set MEETING_ALPHABET \<Longrightarrow> c < 128 \<and> \<not> white_space c \<and> c \<noteq> 45 \<and> ascii_upper c = c"
  by (auto simp: letters_eval white_space_def ascii_upper_def)

lemma prefix_props: "c \<in> set MEETING_PREFIX \<Longrightarrow> c < 128 \<and> \<not> white_space c \<and> c \<noteq> 45 \<and> ascii_upper c = c"
  by (auto simp: code_texts white_space_def ascii_upper_def)

lemma body_letters:
  "list_all (\<lambda>b. b \<in> set (as_bytes MEETING_ALPHABET)) (as_bytes body) \<longleftrightarrow> set body \<subseteq> set MEETING_ALPHABET"
proof
  assume all: "list_all (\<lambda>b. b \<in> set (as_bytes MEETING_ALPHABET)) (as_bytes body)"
  have letter: "b \<in> word_of_nat ` ({65..90} \<union> {50..55})" if "c \<in> set body" "b \<in> set (utf8_char c)" for b c
  proof -
    have "b \<in> set (as_bytes body)" using that by (auto simp: as_bytes_def)
    then show ?thesis using all by (simp add: list_all_iff alphabet_bytes letters_eval)
  qed
  have low: "\<not> continuation b" if "b \<in> word_of_nat ` ({65..90} \<union> {50..55})" for b
    using that by (auto simp: continuation_def word_le_nat_alt unat_of_nat)
  have plain: "c < 128" if "c \<in> set body" for c
    using utf8_char_foreign(1) [of c] letter [OF that] low by force
  show "set body \<subseteq> set MEETING_ALPHABET"
  proof
    fix c assume c: "c \<in> set body"
    then have "word_of_nat c \<in> (word_of_nat :: nat \<Rightarrow> u8) ` ({65..90} \<union> {50..55})" using letter [OF c] plain [OF c] by (simp add: utf8_plain)
    then obtain d where "d \<in> {65..90} \<union> {50..55}" "(word_of_nat c :: u8) = word_of_nat d" by blast
    then have "c = d" using plain [OF c] by (auto simp: word_of_nat_eq_iff take_bit_nat_eq_self)
    then show "c \<in> set MEETING_ALPHABET" using \<open>d \<in> _\<close> by (simp add: letters_eval)
  qed
next
  assume sub: "set body \<subseteq> set MEETING_ALPHABET"
  then have "plain body" by (auto simp: plain_def dest: letter_props)
  then show "list_all (\<lambda>b. b \<in> set (as_bytes MEETING_ALPHABET)) (as_bytes body)"
    using sub by (auto simp: as_bytes_plain list_all_iff alphabet_bytes)
qed

lemma length_prefix: "length MEETING_PREFIX = 5"
  by (simp add: code_texts)

lemma check_code_Inr: "check_code s = Inr c \<longleftrightarrow> canonical s \<and> c = s"
proof
  assume "check_code s = Inr c"
  then have p: "take 5 s = MEETING_PREFIX" "c = MEETING_PREFIX @ drop 5 s" "length (as_bytes (drop 5 s)) = MEETING_BODY"
    "set (drop 5 s) \<subseteq> set MEETING_ALPHABET"
    by (auto simp: check_code_def result_simps strip_prefix_def length_prefix body_letters split: if_splits)
  then have "plain (drop 5 s)" by (auto simp: plain_def dest: letter_props)
  then have "length (drop 5 s) = 24" using p(3) by (simp add: length_as_bytes_plain MEETING_BODY_def MEETING_ENTROPY_def)
  moreover have "c = s" using p(1,2) by (metis append_take_drop_id)
  ultimately show "canonical s \<and> c = s" using p by (simp add: canonical_def)
next
  assume c: "canonical s \<and> c = s"
  then have "plain (drop 5 s)" by (auto simp: canonical_def plain_def dest: letter_props)
  then have "length (as_bytes (drop 5 s)) = MEETING_BODY" using c
    by (simp add: length_as_bytes_plain MEETING_BODY_def MEETING_ENTROPY_def canonical_def)
  moreover have "MEETING_PREFIX @ drop 5 s = s" using c by (metis append_take_drop_id canonical_def)
  ultimately show "check_code s = Inr c" using c
    by (simp add: check_code_def strip_prefix_def length_prefix body_letters canonical_def)
qed

lemma canonical_char: "canonical c \<Longrightarrow> x \<in> set c \<Longrightarrow> x < 128 \<and> \<not> white_space x \<and> x \<noteq> 45 \<and> ascii_upper x = x"
proof -
  assume c: "canonical c" and x: "x \<in> set c"
  have "set c = set (take 5 c) \<union> set (drop 5 c)" by (metis append_take_drop_id set_append)
  then consider "x \<in> set MEETING_PREFIX" | "x \<in> set MEETING_ALPHABET" using c x by (auto simp: canonical_def)
  then show ?thesis by cases (use prefix_props letter_props in blast)+
qed

text \<open>Text of ASCII characters is cleaned letter by letter.\<close>

definition kept :: "str \<Rightarrow> str" where
  "kept t = filter (\<lambda>c. \<not> white_space c \<and> c \<noteq> 45) t"

lemma clean_plain:
  assumes "uppercases upper" "plain (kept t)"
  shows "clean_code upper t = map ascii_upper (kept t)"
proof -
  have "concat (map upper s) = map ascii_upper s" if "plain s" for s
    using that assms(1) by (induction s) (auto simp: plain_def uppercases_def)
  then show ?thesis using assms(2) by (simp add: clean_code_def kept_def)
qed

lemma kept_canonical: "canonical c \<Longrightarrow> kept c = c"
  unfolding kept_def by (intro filter_True) (auto dest: canonical_char)

lemma map_upper_canonical: "canonical c \<Longrightarrow> map ascii_upper c = c"
  by (intro map_idI) (auto dest: canonical_char)

section \<open>Minting\<close>

text \<open>The value of the letters in base thirty-two.\<close>

definition letter_value :: "nat list \<Rightarrow> nat" where
  "letter_value ds = foldl (\<lambda>acc d. acc * 32 + d) 0 ds"

lemma letter_value_snoc [simp]: "letter_value (ds @ [d]) = letter_value ds * 32 + d"
  by (simp add: letter_value_def)

lemma letter_value_inj:
  assumes "length ds = length es" "\<forall>d\<in>set ds. d < 32" "\<forall>d\<in>set es. d < 32" "letter_value ds = letter_value es"
  shows "ds = es"
  using assms
proof (induction ds arbitrary: es rule: rev_induct)
  case (snoc d ds)
  obtain e es' where e: "es = es' @ [e]" using snoc.prems(1) by (cases es rule: rev_cases) auto
  have eq: "letter_value ds * 32 + d = letter_value es' * 32 + e" and small: "d < 32" "e < 32"
    using snoc.prems(2-4) by (simp_all add: e)
  have "(letter_value ds * 32 + d) mod 32 = d" "(letter_value es' * 32 + e) mod 32 = e" using small by simp_all
  then have "d = e" using eq by simp
  moreover have "letter_value ds = letter_value es'" using eq \<open>d = e\<close> by simp
  ultimately show ?case using snoc.IH [of es'] snoc.prems(1-3) by (simp add: e)
qed simp

lemma masked_digit:
  assumes "k \<le> 7" "v mod 2 ^ 32 = unat (buffer :: u32)"
  shows "unat (drop_bit k buffer AND 0x1F) = v div 2 ^ k mod 32"
proof -
  have "(0x1F :: u32) = mask 5" by (simp add: mask_eq_exp_minus_1)
  then have "unat (drop_bit k buffer AND 0x1F) = unat buffer div 2 ^ k mod 32"
    by (simp only: take_bit_eq_mask [symmetric] unsigned_take_bit_eq unat_drop_bit_eq) (simp add: drop_bit_eq_div take_bit_eq_mod)
  also have "\<dots> = v mod 2 ^ 32 div 2 ^ k mod 32" using assms(2) by simp
  also have "\<dots> = v div 2 ^ k mod 32"
  proof -
    have "(v mod 2 ^ (k + (32 - k))) div 2 ^ k = v div 2 ^ k mod 2 ^ (32 - k)"
      by (simp only: power_add mod_mult2_eq) (simp add: div_mult1_eq)
    moreover have "k + (32 - k) = 32" using assms(1) by simp
    ultimately have "v mod 2 ^ 32 div 2 ^ k = v div 2 ^ k mod 2 ^ (32 - k)" by simp
    moreover have "(32 :: nat) dvd 2 ^ (32 - k)" using assms(1) le_imp_power_dvd [of 5 "32 - k" "2 :: nat"] by simp
    ultimately show ?thesis by (simp add: mod_mod_cancel)
  qed
  finally show ?thesis .
qed

text \<open>The letters written stand for the number read so far, less the bits that are waiting.\<close>

definition minted :: "nat \<Rightarrow> nat \<Rightarrow> nat list \<Rightarrow> str \<Rightarrow> bool" where
  "minted v bits ds out \<longleftrightarrow> out = MEETING_PREFIX @ map ((!) MEETING_ALPHABET) ds \<and> (\<forall>d\<in>set ds. d < 32) \<and> letter_value ds = v div 2 ^ bits"

declare emit_letters.simps [simp del]

lemma emit_minted:
  assumes "minted v bits ds out" "bits \<le> 12" "v mod 2 ^ 32 = unat buffer"
  shows "\<exists>ds' out'. emit_letters buffer bits out = (bits mod 5, out') \<and> minted v (bits mod 5) ds' out' \<and>
    length ds' = length ds + bits div 5"
  using assms
proof (induction buffer bits out arbitrary: ds rule: emit_letters.induct)
  case (1 buffer bits out)
  show ?case
  proof (cases "5 \<le> bits")
    case True
    let ?d = "v div 2 ^ (bits - 5) mod 32"
    have d: "unat (drop_bit (bits - 5) buffer AND 0x1F) = ?d" using 1(3,4) by (intro masked_digit) auto
    have "v div 2 ^ bits = v div 2 ^ (bits - 5) div 32"
    proof -
      obtain k where "bits = k + 5" using True by (metis le_add_diff_inverse2)
      then show ?thesis by (simp add: power_add div_mult2_eq)
    qed
    then have m: "minted v (bits - 5) (ds @ [?d]) (out @ [MEETING_ALPHABET ! unat (drop_bit (bits - 5) buffer AND 0x1F)])"
      using 1(2) d by (simp add: minted_def)
    have "bits - 5 \<le> 12" using 1(3) by simp
    from 1(1) [OF True m this 1(4)] obtain ds' out' where
      "emit_letters buffer (bits - 5) (out @ [MEETING_ALPHABET ! unat (drop_bit (bits - 5) buffer AND 0x1F)]) = ((bits - 5) mod 5, out')"
      "minted v ((bits - 5) mod 5) ds' out'" "length ds' = length (ds @ [?d]) + (bits - 5) div 5" by blast
    moreover have "(bits - 5) mod 5 = bits mod 5" "Suc ((bits - 5) div 5) = bits div 5" using True by (simp_all add: le_mod_geq le_div_geq)
    ultimately show ?thesis using True by (subst emit_letters.simps) auto
  next
    case False then show ?thesis using 1(2) by (subst emit_letters.simps) auto
  qed
qed

lemma mint_minted:
  assumes "minted v bits ds out" "bits < 5" "v mod 2 ^ 32 = unat buffer"
  shows "\<exists>bits' ds' out'. mint_letters buffer bits out bs = (bits', out') \<and> bits' < 5 \<and> bits' = (bits + 8 * length bs) mod 5 \<and>
    minted (v * 256 ^ length bs + of_be bs) bits' ds' out' \<and> length ds' = length ds + (bits + 8 * length bs) div 5"
  using assms
proof (induction bs arbitrary: v buffer bits ds out)
  case Nil then show ?case by auto
next
  case (Cons b bs)
  let ?buffer = "push_bit 8 buffer OR ucast b" and ?v = "v * 256 + unat b"
  have low: "unat b < 2 ^ 8" using unat_byte_less [of b] by simp
  have "push_bit 8 buffer AND ucast b = 0"
    by (rule bit_word_eqI) (auto simp: bit_simps dest: bit_imp_le_length)
  then have "?buffer = push_bit 8 buffer + ucast b" by (simp add: disjunctive_add_eq_or)
  then have "?buffer = buffer * 256 + ucast b" by (simp add: push_bit_eq_mult)
  then have "?buffer = word_of_nat (unat buffer * 256 + unat b)" by (simp add: unsigned_ucast_eq)
  then have "unat ?buffer = (unat buffer * 256 + unat b) mod 2 ^ 32" by (simp only: unat_of_nat) simp
  then have buffer: "?v mod 2 ^ 32 = unat ?buffer" unfolding Cons.prems(3) [symmetric] by (metis mod_add_left_eq mod_mult_left_eq)
  have "?v div 2 ^ (bits + 8) = v div 2 ^ bits" using low by (simp add: power_add div_mult2_eq mult.commute [of _ 256])
  then have "minted ?v (bits + 8) ds out" using Cons.prems(1) by (simp add: minted_def)
  from emit_minted [OF this _ buffer] Cons.prems(2) obtain ds1 out1 where
    e: "emit_letters ?buffer (bits + 8) out = ((bits + 8) mod 5, out1)" "minted ?v ((bits + 8) mod 5) ds1 out1"
    "length ds1 = length ds + (bits + 8) div 5" by auto
  from Cons.IH [OF e(2) _ buffer] obtain bits' ds' out' where
    r: "mint_letters ?buffer ((bits + 8) mod 5) out1 bs = (bits', out')" "bits' < 5" "bits' = ((bits + 8) mod 5 + 8 * length bs) mod 5"
    "minted (?v * 256 ^ length bs + of_be bs) bits' ds' out'"
    "length ds' = length ds1 + ((bits + 8) mod 5 + 8 * length bs) div 5" by auto
  have "bits' = (bits + 8 * length (b # bs)) mod 5" using r(3) by (simp add: mod_simps add.assoc)
  moreover have "length ds' = length ds + (bits + 8 * length (b # bs)) div 5"
  proof -
    have "bits + 8 * length (b # bs) = ((bits + 8) mod 5 + 8 * length bs) + 5 * ((bits + 8) div 5)" by simp
    then show ?thesis using r(5) e(3) by (simp only: div_mult_self2)
  qed
  moreover have "?v * 256 ^ length bs + of_be bs = v * 256 ^ length (b # bs) + of_be (b # bs)"
    by (use of_be_append [of "[b]" bs] of_be_snoc [of "[]" b] in \<open>simp add: algebra_simps\<close>)
  ultimately show ?case using e(1) r(1,2,4) by (auto simp: Let_def)
qed

text \<open>Fifteen bytes are twenty-four letters with nothing left over.\<close>

lemma minted_code:
  assumes "length bs = 15" "new_meeting_code (Some bs) = Inr c"
  obtains ds where "c = MEETING_PREFIX @ map ((!) MEETING_ALPHABET) ds" "length ds = 24" "\<forall>d\<in>set ds. d < 32" "letter_value ds = of_be bs"
proof -
  have "minted 0 0 [] MEETING_PREFIX" by (simp add: minted_def letter_value_def)
  from mint_minted [OF this, of 0 bs] assms show thesis
    by (auto simp: new_meeting_code_def result_simps minted_def intro: that)
qed

lemma length_alphabet: "length MEETING_ALPHABET = 32"
  by (simp add: code_texts)

lemma minted_canonical:
  assumes "length bs = 15" "new_meeting_code (Some bs) = Inr c"
  shows "canonical c"
proof -
  obtain ds where ds: "c = MEETING_PREFIX @ map ((!) MEETING_ALPHABET) ds" "length ds = 24" "\<forall>d\<in>set ds. d < 32"
    using minted_code [OF assms] by blast
  then have "set (map ((!) MEETING_ALPHABET) ds) \<subseteq> set MEETING_ALPHABET"
    by (simp add: image_subset_iff length_alphabet del: nth_mem) (use nth_mem length_alphabet in metis)
  then show ?thesis using ds(1,2) by (simp add: canonical_def length_prefix)
qed

lemma nth_letters_inj:
  assumes "map ((!) MEETING_ALPHABET) ds = map ((!) MEETING_ALPHABET) es" "\<forall>d\<in>set ds. d < 32" "\<forall>d\<in>set es. d < 32"
  shows "ds = es"
proof (rule map_inj_on [OF assms(1)])
  have "distinct MEETING_ALPHABET" by (simp add: code_texts)
  then show "inj_on ((!) MEETING_ALPHABET) (set ds \<union> set es)"
    using assms(2,3) by (auto simp: inj_on_def nth_eq_iff_index_eq length_alphabet)
qed

section \<open>Reading\<close>

lemma scheme_props: "c \<in> set SCHEME \<Longrightarrow> c < 128 \<and> \<not> white_space c"
  by (auto simp: code_texts white_space_def)

lemma scheme_letter: "SCHEME ! 1 = 111" "length SCHEME = 10" "plain SCHEME"
  using scheme_props by (auto simp: code_texts plain_def)

lemma same_letters: "eq_ignore_ascii_case a b \<Longrightarrow> map ascii_upper a = map ascii_upper b"
proof -
  have "ascii_upper (ascii_lower x) = ascii_upper x" for x by (simp add: ascii_lower_def ascii_upper_def)
  then have "map ascii_upper x = map ascii_upper (map ascii_lower x)" for x by simp
  moreover assume "eq_ignore_ascii_case a b"
  ultimately show ?thesis unfolding eq_ignore_ascii_case_def by metis
qed

lemma scheme_solid: "ascii_upper x \<in> ascii_upper ` set SCHEME \<Longrightarrow> \<not> white_space x \<and> x \<noteq> 45"
proof -
  assume "ascii_upper x \<in> ascii_upper ` set SCHEME"
  then have "ascii_upper x \<in> {82, 79, 84, 69, 76, 89, 88, 58, 47}" by (auto simp: code_texts ascii_upper_def)
  then show ?thesis by (auto simp: ascii_upper_def white_space_def split: if_splits)
qed

text \<open>What is read is the canonical form of the letters, whatever stands between them.\<close>

definition shows_code :: "str \<Rightarrow> str \<Rightarrow> bool" where
  "shows_code c t \<longleftrightarrow> plain t \<and> map ascii_upper (kept t) = c"

lemma shows_check:
  assumes "uppercases upper" "canonical c" "shows_code c t"
  shows "check_code (clean_code upper t) = Inr c"
proof -
  have "plain (kept t)" using assms(3) by (auto simp: shows_code_def plain_def kept_def)
  then show ?thesis using assms by (simp add: clean_plain shows_code_def check_code_Inr)
qed

lemma strip_nothing:
  assumes "canonical c" "shows_code c t"
  shows "strip_scheme t = Some t"
proof (cases "10 \<le> length t")
  case True
  have "\<not> eq_ignore_ascii_case (take 10 t) SCHEME"
  proof
    assume eq: "eq_ignore_ascii_case (take 10 t) SCHEME"
    then have u: "map ascii_upper (take 10 t) = map ascii_upper SCHEME" by (rule same_letters)
    have "kept (take 10 t) = take 10 t" unfolding kept_def
    proof (intro filter_True ballI)
      fix x assume "x \<in> set (take 10 t)"
      then have "ascii_upper x \<in> set (map ascii_upper (take 10 t))" by simp
      then have "ascii_upper x \<in> ascii_upper ` set SCHEME" by (simp add: u)
      then show "\<not> white_space x \<and> x \<noteq> 45"
        by (rule scheme_solid)
    qed
    moreover have "kept (take 10 t @ drop 10 t) = kept (take 10 t) @ kept (drop 10 t)" unfolding kept_def by (rule filter_append)
    ultimately have "kept t = take 10 t @ kept (drop 10 t)" by simp
    then have "c = map ascii_upper SCHEME @ map ascii_upper (kept (drop 10 t))" using assms(2) u by (simp add: shows_code_def)
    then have "take 5 c = take 5 (map ascii_upper SCHEME)" by (simp add: scheme_letter)
    moreover have "take 5 (map ascii_upper SCHEME) \<noteq> MEETING_PREFIX" by (simp add: code_texts ascii_upper_def)
    ultimately show False using assms(1) by (auto simp only: canonical_def)
  qed
  then show ?thesis using True assms(2)
    by (simp add: strip_scheme_def split_bytes_take length_as_bytes_plain scheme_letter shows_code_def)
next
  case False
  then show ?thesis using assms(2) by (simp add: strip_scheme_def length_as_bytes_plain scheme_letter shows_code_def)
qed

lemma strip_link:
  assumes "eq_ignore_ascii_case l SCHEME" "plain l"
  shows "strip_scheme (l @ t) = Some t"
proof -
  have l: "length l = 10" using assms(1) by (metis eq_ignore_ascii_case_def length_map scheme_letter(2))
  then have "split_bytes 10 (l @ t) = Some (l, t)" using split_bytes_plain [OF assms(2), of 10 t] by simp
  then show ?thesis using assms l
    by (simp add: strip_scheme_def length_as_bytes_plain scheme_letter as_bytes_append)
qed

lemma kept_trim: "kept (trim t) = kept t"
  unfolding kept_def by (rule filter_trim) simp

lemma set_trim: "set (trim t) \<subseteq> set t"
  unfolding trim_def by (metis set_dropWhileD set_rev subsetI)

lemma shows_trim: "shows_code c t \<Longrightarrow> shows_code c (trim t)"
  using set_trim [of t] by (auto simp: shows_code_def plain_def kept_trim)

lemma read_shown:
  assumes "uppercases upper" "canonical c" "shows_code c t"
  shows "read_meeting_code upper t = Some (Inr c)"
  using strip_nothing [OF assms(2) shows_trim [OF assms(3)]] shows_check [OF assms(1,2) shows_trim [OF assms(3)]]
  by (simp add: read_meeting_code_def)

lemma read_linked:
  assumes "uppercases upper" "canonical c" "shows_code c t" "eq_ignore_ascii_case l SCHEME" "plain l"
  shows "read_meeting_code upper (l @ t) = Some (Inr c)"
proof -
  have up: "map ascii_upper l = map ascii_upper SCHEME" by (rule same_letters [OF assms(4)])
  have len: "length l = 10" using up by (metis length_map scheme_letter(2))
  have solid: "\<not> white_space x" if "x \<in> set l" for x
  proof -
    have "ascii_upper x \<in> set (map ascii_upper l)" using that by simp
    then have "ascii_upper x \<in> ascii_upper ` set SCHEME" by (simp add: up)
    then show ?thesis by (simp add: scheme_solid)
  qed
  from trim_keeps_front [of l t] len solid obtain s' where s':
    "trim (l @ t) = l @ s'" "\<forall>Q. (\<forall>c. white_space c \<longrightarrow> \<not> Q c) \<longrightarrow> filter Q s' = filter Q t" "set s' \<subseteq> set t"
    by (metis (no_types, lifting) hd_in_set last_in_set length_0_conv zero_neq_numeral)
  then have "kept s' = kept t" by (simp add: kept_def)
  then have "shows_code c s'" using assms(3) s'(3) by (auto simp: shows_code_def plain_def)
  from shows_check [OF assms(1,2) this] show ?thesis by (simp add: read_meeting_code_def s'(1) strip_link [OF assms(4,5)])
qed

lemma canonical_shows: "canonical c \<Longrightarrow> shows_code c c"
  by (auto simp: shows_code_def plain_def kept_canonical map_upper_canonical dest: canonical_char)

lemma grouped_props: "kept (grouped i s) = kept s" "set (grouped i s) \<subseteq> insert 32 (set s)"
  by (induction i s rule: grouped.induct) (auto simp: kept_def white_space_def)

lemma canonical_split:
  assumes "canonical c"
  shows "c = MEETING_PREFIX @ drop 5 c"
  using assms append_take_drop_id [of 5 c] by (simp add: canonical_def)

lemma pretty_shows:
  assumes "canonical c"
  shows "shows_code c (pretty_meeting_code c)"
proof -
  have p: "pretty_meeting_code c = MEETING_PREFIX @ grouped 0 (drop 5 c)"
    using assms by (simp add: pretty_meeting_code_def strip_prefix_def length_prefix canonical_def)
  have "kept (MEETING_PREFIX @ grouped 0 (drop 5 c)) = kept (MEETING_PREFIX @ drop 5 c)"
    using grouped_props(1) [of 0 "drop 5 c"] by (simp add: kept_def)
  moreover have "plain (grouped 0 (drop 5 c))" unfolding plain_def
  proof
    fix x assume "x \<in> set (grouped 0 (drop 5 c))"
    then have "x = 32 \<or> x \<in> set c" using grouped_props(2) [of 0 "drop 5 c"] set_drop_subset [of 5 c] by blast
    then show "x < 128" using canonical_char [OF assms] by auto
  qed
  moreover have "plain MEETING_PREFIX" using prefix_props by (auto simp: plain_def)
  ultimately show ?thesis
    using canonical_split [OF assms] kept_canonical [OF assms] map_upper_canonical [OF assms] by (simp add: shows_code_def p)
qed

section \<open>Properties\<close>

text \<open>C9: a minted code names one place, and everybody who is handed it in any form reads the same code.  The fifteen random bytes can
  be told from the code; what a client prints in groups, what a person types in lower case with blanks or hyphens and
  what arrives behind the \<^verbatim>\<open>rotelyx://\<close> of a link, in any case, is read as the code that was minted.\<close>

theorem code_survives_being_shown:
  assumes "uppercases upper" "length bs = 15" "new_meeting_code (Some bs) = Inr c"
  shows "length c = 29 \<and> (\<forall>bs'. length bs' = 15 \<and> new_meeting_code (Some bs') = Inr c \<longrightarrow> bs' = bs) \<and>
    shows_code c (pretty_meeting_code c) \<and>
    (\<forall>t. shows_code c t \<longrightarrow> read_meeting_code upper t = Some (Inr c) \<and>
      (\<forall>l. eq_ignore_ascii_case l SCHEME \<and> plain l \<longrightarrow> read_meeting_code upper (l @ t) = Some (Inr c)))"
proof (intro conjI allI impI)
  note c = minted_canonical [OF assms(2,3)]
  show "length c = 29" using c by (simp add: canonical_def)
  show "shows_code c (pretty_meeting_code c)" by (rule pretty_shows [OF c])
  show "read_meeting_code upper t = Some (Inr c)" if "shows_code c t" for t by (rule read_shown [OF assms(1) c that])
  show "read_meeting_code upper (l @ t) = Some (Inr c)" if "shows_code c t" "eq_ignore_ascii_case l SCHEME \<and> plain l" for t l
    using read_linked [OF assms(1) c that(1)] that(2) by blast
  fix bs' assume bs': "length bs' = 15 \<and> new_meeting_code (Some bs') = Inr c"
  then obtain es where es: "c = MEETING_PREFIX @ map ((!) MEETING_ALPHABET) es" "\<forall>d\<in>set es. d < 32" "letter_value es = of_be bs'"
    using minted_code by blast
  obtain ds where ds: "c = MEETING_PREFIX @ map ((!) MEETING_ALPHABET) ds" "\<forall>d\<in>set ds. d < 32" "letter_value ds = of_be bs"
    using minted_code [OF assms(2,3)] by blast
  have "MEETING_PREFIX @ map ((!) MEETING_ALPHABET) ds = MEETING_PREFIX @ map ((!) MEETING_ALPHABET) es" by (rule trans [OF ds(1) [symmetric] es(1)])
  then have "map ((!) MEETING_ALPHABET) ds = map ((!) MEETING_ALPHABET) es" by (rule same_append_eq [THEN iffD1])
  then have "ds = es" by (rule nth_letters_inj [OF _ ds(2) es(2)])
  then have "of_be bs' = of_be bs" using ds(3) es(3) by simp
  moreover have "be_bytes 15 (of_be bs) = bs" "be_bytes 15 (of_be bs') = bs'"
    using be_bytes_of_be [of bs] be_bytes_of_be [of bs'] assms(2) bs' by (simp_all only:)
  ultimately show "bs' = bs" by (simp only:)
qed

theorem code_survives_being_shown_witness:
  "\<exists>c. new_meeting_code (Some (replicate 15 9)) = Inr c \<and>
     read_meeting_code (\<lambda>x. [ascii_upper x]) (pretty_meeting_code c) = Some (Inr c)"
proof -
  obtain c where mint: "new_meeting_code (Some (replicate 15 9)) = Inr c" by (simp add: new_meeting_code_def)
  then show ?thesis using code_survives_being_shown [OF _ _ mint, of "\<lambda>x. [ascii_upper x]"] by (simp add: uppercases_def)
qed

lemma hex_str_bytes: "as_bytes (hex_str bs) = hex_text bs"
proof -
  have "\<forall>n\<in>{0..<16}. unat (hex_char n) < 128"
    by (simp add: hex_char_def atLeastLessThan_nat_numeral flip: atLeastLessThan_upt)
  then have "plain (hex_str bs)" using nibbles by (auto simp: plain_def hex_str_def hex_text_def)
  then show ?thesis by (simp add: as_bytes_plain hex_str_def o_def)
qed

lemma tag_from_hex_str:
  assumes "length t = 32"
  shows "tag_from_hex (hex_str t) = Some (Inr t)"
  using hex_pairs_text [of "[]" 0 t] assms
  by (simp add: tag_from_hex_def hex_str_bytes tag_from_bytes_def del: upt_rec_numeral)

lemma decode_encode:
  assumes "base64_law unb64 b64"
  shows "decode_text unb64 (b64 bs) = Some bs"
  using assms trim_solid [of "b64 bs"] by (simp add: decode_text_def base64_law_def)

lemma rendezvous_Inr:
  assumes "rendezvous_tag h c = Inr place" "\<And>m. length (h RENDEZVOUS_CONTEXT m) = 32"
  obtains t where "place = hex_str t" "length t = 32"
proof (rule that)
  show "place = hex_str (h RENDEZVOUS_CONTEXT (as_bytes (trim c)))"
    using assms(1) by (auto simp: rendezvous_tag_def Let_def split: if_splits)
qed (rule assms(2))

lemma strip_padding:
  assumes "p = [] \<or> List.last p \<noteq> (0 :: u8)"
  shows "rev (dropWhile (\<lambda>b. b = 0) (rev (p @ replicate n 0))) = p"
proof -
  have "dropWhile (\<lambda>b. b = 0) (replicate n 0 @ rev p) = dropWhile (\<lambda>b. b = 0) (rev p)" by (simp add: dropWhile_all)
  also have "\<dots> = rev p" using assms by (intro dropWhile_first) (auto simp: hd_rev)
  finally show ?thesis by simp
qed

text \<open>What one side leaves at the meeting place, the other finds.  Both turn the code into a tag; an envelope sealed under that tag
  opens under it and gives back the payload as it was, without the padding, when the payload does not end in a zero
  byte and fits the largest size; under the tag of another place it does not open.\<close>

theorem left_at_the_meeting_place_is_found:
  assumes "base64_law unb64 b64" "\<And>m. length (h RENDEZVOUS_CONTEXT m) = 32"
    and "rendezvous_tag h c = Inr place" "length payload \<le> BUCKET_MAX" "payload = [] \<or> List.last payload \<noteq> 0"
  shows "\<exists>e. seal_under unb64 b64 place (b64 payload) = Some (Inr e) \<and>
    open_under unb64 b64 e place = Some (Inr (b64 payload)) \<and>
    (\<forall>d other. rendezvous_tag h d = Inr other \<longrightarrow> other \<noteq> place \<longrightarrow> open_under unb64 b64 e other = Some (Inl WrongTag))"
proof -
  obtain t where t: "place = hex_str t" "length t = 32" by (rule rendezvous_Inr [OF assms(3,2)])
  obtain e where e: "envelope_seal t payload = Inr e"
    using assms(4) bucket_for_len_ok [of "length payload"] by (auto simp: envelope_seal_def)
  then obtain b where b: "bucket_for_len (length payload) = Inr b"
    and es: "e = \<lparr> e_tag = t, e_payload = payload @ replicate (b - length payload) 0 \<rparr>" by (rule envelope_seal_Inr)
  have wire: "envelope_from_bytes (envelope_to_bytes e) = Inr e"
    using b bucket_for_len_Inr [OF b] t(2) by (intro envelope_bytes_roundtrip) (simp_all add: es)
  have "seal_under unb64 b64 place (b64 payload) = Some (Inr (b64 (envelope_to_bytes e)))"
    using e by (simp add: seal_under_def t tag_from_hex_str decode_encode [OF assms(1)])
  moreover have opens: "open_under unb64 b64 (b64 (envelope_to_bytes e)) (hex_str t') =
      Some (if t' = t then Inr (b64 payload) else Inl WrongTag)" if "length t' = 32" for t'
    using wire strip_padding [OF assms(5)] that
    by (simp add: open_under_def tag_from_hex_str decode_encode [OF assms(1)]) (simp add: es)
  moreover have "open_under unb64 b64 (b64 (envelope_to_bytes e)) other = Some (Inl WrongTag)"
    if "rendezvous_tag h d = Inr other" "other \<noteq> place" for d other
  proof -
    from that(1) obtain t' where "other = hex_str t'" "length t' = 32" by (rule rendezvous_Inr) (rule assms(2))
    then show ?thesis using opens [of t'] that(2) t(1) by auto
  qed
  ultimately show ?thesis using t by auto
qed

text \<open>A printable encoding of bytes, an instance of the Base64 law.\<close>

definition letter_text :: "bytes \<Rightarrow> str" where
  "letter_text bs = hex_str bs"

definition letter_untext :: "bytes \<Rightarrow> bytes option" where
  "letter_untext s = (case hex_pairs s (map ((*) 2) [0..<length s div 2]) of Some (Some bs) \<Rightarrow> Some bs | _ \<Rightarrow> None)"

lemma letter_law: "base64_law letter_untext letter_text"
proof -
  have "\<not> white_space c" if c: "c \<in> set (letter_text bs)" for c bs
  proof -
    have "\<forall>n\<in>{0..<16}. \<not> white_space (unat (hex_char n))"
      by (simp add: hex_char_def white_space_def atLeastLessThan_nat_numeral flip: atLeastLessThan_upt)
    then show ?thesis using c nibbles by (auto simp: letter_text_def hex_str_def hex_text_def)
  qed
  moreover have "letter_untext (as_bytes (letter_text bs)) = Some bs" for bs
    using hex_pairs_text [of "[]" 0 bs] by (simp add: letter_untext_def letter_text_def hex_str_bytes)
  ultimately show ?thesis by (simp add: base64_law_def)
qed

theorem left_at_the_meeting_place_is_found_witness:
  "\<exists>e place. rendezvous_tag (\<lambda>c m. replicate 32 (hd m)) (chars ''RTLX1ABCD'') = Inr place \<and>
     open_under letter_untext letter_text e place = Some (Inr (letter_text [1, 2]))"
proof -
  have tr: "trim (chars ''RTLX1ABCD'') = chars ''RTLX1ABCD''" by (rule trim_solid) (simp add: chars_def white_space_def)
  have "plain (chars ''RTLX1ABCD'')" by (simp add: plain_def chars_def)
  then have "length (as_bytes (chars ''RTLX1ABCD'')) = 9" by (simp add: length_as_bytes_plain chars_def)
  then obtain place where p: "rendezvous_tag (\<lambda>c m. replicate 32 (hd m)) (chars ''RTLX1ABCD'') = Inr place"
    by (simp add: rendezvous_tag_def tr Let_def)
  from left_at_the_meeting_place_is_found [OF letter_law _ p, of "[1, 2]"] p show ?thesis by (auto simp: BUCKET_MAX_def)
qed

text \<open>Reading a code stops the program where the tenth byte of what was pasted falls inside a character.  Nine characters of ASCII
  and one beyond it, with no white space at either end, are enough, whatever follows; nothing catches the failed slice.\<close>

theorem code_slice_stops_the_program:
  assumes "length a = 9" "plain a" "128 \<le> x" "trim (a @ x # r) = a @ x # r"
  shows "read_meeting_code upper (a @ x # r) = None"
proof -
  have "split_bytes n (b @ x # r) = None" if "plain b" "n = length b + 1" for b n
    using that
  proof (induction b arbitrary: n)
    case Nil then show ?case using utf8_char_foreign(2) [OF assms(3)] by simp
  next
    case (Cons c b) then show ?case by (auto simp: plain_def utf8_plain)
  qed
  from this [OF assms(2), of 10] have "split_bytes 10 (a @ x # r) = None" using assms(1) by simp
  moreover have "10 \<le> length (as_bytes (a @ x # r))"
    using assms(1,2) utf8_char_foreign(2) [OF assms(3)] by (simp add: as_bytes_append length_as_bytes_plain as_bytes_def [of "x # r"])
  ultimately show ?thesis
    by (simp add: read_meeting_code_def assms(4) strip_scheme_def length_as_bytes_plain scheme_letter)
qed

theorem code_slice_stops_the_program_witness: "read_meeting_code upper (chars ''rotelyx:/'' @ [233]) = None"
proof (rule code_slice_stops_the_program)
  show "trim (chars ''rotelyx:/'' @ [233]) = chars ''rotelyx:/'' @ [233]" by (rule trim_solid) (simp add: chars_def white_space_def)
qed (simp_all add: chars_def plain_def)

text \<open>The error message for a code of the wrong length asks for the prefix and twenty-nine characters, and such a text is refused:
  twenty-nine is the prefix and the body together.\<close>

theorem the_message_asks_for_too_much:
  assumes "uppercases upper" "set body \<subseteq> set MEETING_ALPHABET" "length body = 29"
  shows "check_code (clean_code upper (MEETING_PREFIX @ body)) = Inl WrongCodeLength"
proof -
  have ok: "x < 128 \<and> \<not> white_space x \<and> x \<noteq> 45 \<and> ascii_upper x = x" if "x \<in> set (MEETING_PREFIX @ body)" for x
    using that assms(2) letter_props prefix_props by auto
  have k: "kept (MEETING_PREFIX @ body) = MEETING_PREFIX @ body" unfolding kept_def using ok by (intro filter_True) blast
  have "clean_code upper (MEETING_PREFIX @ body) = map ascii_upper (kept (MEETING_PREFIX @ body))"
    using ok by (intro clean_plain [OF assms(1)]) (simp only: k plain_def, blast)
  also have "\<dots> = MEETING_PREFIX @ body" unfolding k using ok by (intro map_idI) blast
  finally have c: "clean_code upper (MEETING_PREFIX @ body) = MEETING_PREFIX @ body" .
  have "plain body" using ok by (auto simp: plain_def)
  then have "length (as_bytes body) = 29" using assms(3) by (simp add: length_as_bytes_plain)
  then show ?thesis unfolding c by (simp add: check_code_def strip_prefix_def length_prefix MEETING_BODY_def MEETING_ENTROPY_def)
qed

theorem the_message_asks_for_too_much_witness:
  "check_code (clean_code (\<lambda>x. [ascii_upper x]) (MEETING_PREFIX @ replicate 29 65)) = Inl WrongCodeLength"
  by (rule the_message_asks_for_too_much) (simp_all add: uppercases_def letters_eval)


end
