(* ===== verification/Client_Session.thy ===== *)
theory Client_Session
  imports Group_Conversation Hybrid_Wraps Meeting_Codes
begin

text \<open>
  A client's view of one conversation, \<^verbatim>\<open>Session\<close> of \<^verbatim>\<open>rotelyx-wasm/src/lib.rs\<close>: the conversation of the group theories, the
  mailbox tag keys of the last epochs, and the post-quantum secrets on their way into the group.  The browser and the
  phone call these methods; each gives back the session it leaves behind and its result.  The calls into third-party
  code are the record \<open>client_lib\<close>, beside the record \<open>mls\<close> of the group library; strings of Base64 are \<^typ>\<open>str\<close>.
\<close>

section \<open>The libraries\<close>

record 'g client_lib =
  cl_kdf :: kdf
  cl_enc :: aead_enc
  cl_dec :: aead_dec
  cl_unb64 :: "bytes \<Rightarrow> bytes option"
  cl_b64 :: "bytes \<Rightarrow> str"
  cl_lossy :: "bytes \<Rightarrow> str"
  cl_export :: "'g \<Rightarrow> string \<Rightarrow> (group_error, bytes) result"
  cl_tree :: "'g \<Rightarrow> (group_error, bytes) result"
  cl_group_id :: "'g \<Rightarrow> bytes"
  cl_key_package :: "bytes \<Rightarrow> (group_error, bytes \<times> bool) result"
  cl_create :: "(group_error, 'g) result"
  cl_join :: "bytes \<Rightarrow> bytes \<Rightarrow> (group_error, 'g) result"
  cl_reopen :: "bytes \<Rightarrow> (group_error, 'g option) result"
  cl_store_psk :: "'g \<Rightarrow> bytes \<Rightarrow> bytes \<Rightarrow> 'g \<times> (group_error, unit) result"
  cl_commit_psk :: "'g \<Rightarrow> bytes \<Rightarrow> bytes \<Rightarrow> 'g \<times> (group_error, bytes) result"
  cl_hash :: hash
  cl_public_key :: "bytes \<Rightarrow> bool"
  cl_decaps :: "bytes \<Rightarrow> bytes"
  cl_sign :: "bytes \<Rightarrow> bytes option"
  cl_point :: "bytes \<Rightarrow> bool"
  cl_verify :: "bytes \<Rightarrow> bytes \<Rightarrow> bytes \<Rightarrow> bool"

datatype session_error =
    Undecodable
  | GroupFailed group_error
  | EnvelopeFailed envelope_error
  | HybridFailed hybrid_error
  | NoConversation
  | HasConversation
  | Full
  | NoWelcome
  | NoTagKey
  | NoPreviousEpoch
  | ForeignTag
  | NotOpened
  | NothingToCommit
  | AlreadyStaged
  | OneKeyEach
  | NobodyCalled str
  | NotText

section \<open>Group material the client asks for\<close>

definition MAILBOX_TAG_KEY_LABEL :: string where "MAILBOX_TAG_KEY_LABEL = ''rotelyx mailbox tag key v1''"
definition MEDIA_KEY_LABEL :: string where "MEDIA_KEY_LABEL = ''rotelyx media base key v1''"
definition PSK_LABEL :: bytes where "PSK_LABEL = ascii ''rotelyx-pq-psk-v1''"

definition export_key :: "'g client_lib \<Rightarrow> 'g \<Rightarrow> string \<Rightarrow> (group_error, bytes) result" where
  "export_key L g label =
     bind_result (cl_export L g label) (\<lambda>bs. if length bs = 32 then Inr bs else Inl (Mls ''exporter returned the wrong length''))"

definition mailbox_tag_key :: "'g client_lib \<Rightarrow> 'g \<Rightarrow> (group_error, bytes) result" where
  "mailbox_tag_key L g = export_key L g MAILBOX_TAG_KEY_LABEL"

definition media_base_key :: "'g client_lib \<Rightarrow> 'g \<Rightarrow> (group_error, bytes) result" where
  "media_base_key L g = export_key L g MEDIA_KEY_LABEL"

text \<open>\<open>cl_key_package\<close> parses and validates, and says whether the package is of the suite this deployment uses.\<close>

definition deserialize_key_package :: "'g client_lib \<Rightarrow> bytes \<Rightarrow> (group_error, bytes) result" where
  "deserialize_key_package L bs =
     bind_result (cl_key_package L bs) (\<lambda>(package, ours). if \<not> ours then Inl (Mls ''key package uses another suite'') else Inr package)"

definition hybrid_psk_binding :: "bytes \<Rightarrow> bytes \<Rightarrow> u64 \<Rightarrow> bytes" where
  "hybrid_psk_binding label group_id epoch = label @ group_id @ u64_be epoch"

definition psk_binding :: "('g, 's, 'q) mls \<Rightarrow> 'g client_lib \<Rightarrow> 'g \<Rightarrow> bytes" where
  "psk_binding m L g = hybrid_psk_binding PSK_LABEL (cl_group_id L g) (mls_epoch m g)"

definition stage_pq_secret ::
  "('g, 's, 'q) mls \<Rightarrow> 'g client_lib \<Rightarrow> bytes \<Rightarrow> 'g conversation \<Rightarrow> 'g conversation \<times> (group_error, unit) result" where
  "stage_pq_secret m L secret cv =
     (let binding = psk_binding m L (cv_group cv); psk = derive_psk (cl_hash L) secret binding
      in case cl_store_psk L (cv_group cv) binding psk of (g, r) \<Rightarrow> (cv\<lparr>cv_group := g\<rparr>, r))"

text \<open>\<open>draw\<close> is the nonce of the random source.\<close>

definition commit_pq_secret ::
  "('g, 's, 'q) mls \<Rightarrow> 'g client_lib \<Rightarrow> bytes option \<Rightarrow> bytes \<Rightarrow> 'g conversation \<Rightarrow> 'g conversation \<times> (group_error, bytes) result" where
  "commit_pq_secret m L draw secret cv =
     (let binding = psk_binding m L (cv_group cv); psk = derive_psk (cl_hash L) secret binding
      in case draw of
           None \<Rightarrow> (cv, Inl (Mls ''entropy''))
         | Some nonce \<Rightarrow>
             (case cl_store_psk L (cv_group cv) binding psk of
                (g, Inl e) \<Rightarrow> (cv\<lparr>cv_group := g\<rparr>, Inl e)
              | (g, Inr _) \<Rightarrow>
                  (case cl_commit_psk L g binding nonce of
                     (g, Inl e) \<Rightarrow> (cv\<lparr>cv_group := g\<rparr>, Inl e)
                   | (g, Inr commit) \<Rightarrow> hold_made m (cv\<lparr>cv_group := g\<rparr>) commit commit)))"

section \<open>The session\<close>

definition TAG_EPOCH_MEMORY :: nat where "TAG_EPOCH_MEMORY = 3"
definition MAX_MEMBERS :: nat where "MAX_MEMBERS = 1000"

record 'g client_session =
  ss_key :: bytes
  ss_conversation :: "'g conversation option"
  ss_tag_keys :: "(u64 \<times> tag_key) list"
  ss_pending_pq :: "bytes option"
  ss_staged_pq :: "bytes list"

text \<open>A method gives the session it leaves and its result; the next step of a method is taken only if the last succeeded.\<close>

type_synonym ('g, 'a) outcome = "'g client_session \<times> (session_error, 'a) result"

fun and_then :: "('g, 'a) outcome \<Rightarrow> ('a \<Rightarrow> 'g client_session \<Rightarrow> ('g, 'b) outcome) \<Rightarrow> ('g, 'b) outcome" where
  "and_then (s, Inl e) k = (s, Inl e)"
| "and_then (s, Inr a) k = k a s"

definition in_group :: "('g conversation \<Rightarrow> 'g conversation \<times> (group_error, 'a) result) \<Rightarrow> 'g client_session \<Rightarrow> ('g, 'a) outcome" where
  "in_group f s =
     (case ss_conversation s of
        None \<Rightarrow> (s, Inl NoConversation)
      | Some cv \<Rightarrow> (case f cv of (cv, r) \<Rightarrow> (s\<lparr>ss_conversation := Some cv\<rparr>, map_err GroupFailed r)))"

definition client_decode :: "'g client_lib \<Rightarrow> str \<Rightarrow> (session_error, bytes) result" where
  "client_decode L t = ok_or Undecodable (decode_text (cl_unb64 L) t)"

definition session_new :: "bytes \<Rightarrow> 'g client_session" where
  "session_new key = \<lparr> ss_key = key, ss_conversation = None, ss_tag_keys = [], ss_pending_pq = None, ss_staged_pq = [] \<rparr>"

definition session_epoch :: "('g, 's, 'q) mls \<Rightarrow> 'g client_session \<Rightarrow> u64" where
  "session_epoch m s = (case ss_conversation s of None \<Rightarrow> 0 | Some cv \<Rightarrow> mls_epoch m (cv_group cv))"

definition member_count :: "('g, 's, 'q) mls \<Rightarrow> 'g client_session \<Rightarrow> nat" where
  "member_count m s = (case ss_conversation s of None \<Rightarrow> 0 | Some cv \<Rightarrow> length (mls_members m (cv_group cv)))"

definition is_holding_a_commit :: "'g client_session \<Rightarrow> bool" where
  "is_holding_a_commit s = (case ss_conversation s of None \<Rightarrow> False | Some cv \<Rightarrow> cv_pending cv \<noteq> None)"

definition sync_tag_keys :: "('g, 's, 'q) mls \<Rightarrow> 'g client_lib \<Rightarrow> 'g client_session \<Rightarrow> ('g, unit) outcome" where
  "sync_tag_keys m L s =
     (let epoch = session_epoch m s
      in if ss_tag_keys s \<noteq> [] \<and> fst (List.last (ss_tag_keys s)) = epoch then (s, Inr ())
         else
           (case ss_conversation s of
              None \<Rightarrow> (s, Inl NoConversation)
            | Some cv \<Rightarrow>
                (case mailbox_tag_key L (cv_group cv) of
                   Inl e \<Rightarrow> (s, Inl (GroupFailed e))
                 | Inr key \<Rightarrow>
                     let keys = ss_tag_keys s @ [(epoch, key)]
                     in (s\<lparr>ss_tag_keys := if TAG_EPOCH_MEMORY < length keys then tl keys else keys\<rparr>, Inr ()))))"

text \<open>A group method whose result is Base64 text, with and without the keys following the epoch.\<close>

definition say :: "'g client_lib \<Rightarrow> bytes \<Rightarrow> 'g client_session \<Rightarrow> ('g, str) outcome" where
  "say L bs s = (s, Inr (cl_b64 L bs))"

definition sync_and_say :: "('g, 's, 'q) mls \<Rightarrow> 'g client_lib \<Rightarrow> bytes \<Rightarrow> 'g client_session \<Rightarrow> ('g, str) outcome" where
  "sync_and_say m L bs s = and_then (sync_tag_keys m L s) (\<lambda>_. say L bs)"

section \<open>Founding, joining and changing the group\<close>

definition found :: "('g, 's, 'q) mls \<Rightarrow> 'g client_lib \<Rightarrow> 'g client_session \<Rightarrow> ('g, unit) outcome" where
  "found m L s =
     (if ss_conversation s \<noteq> None then (s, Inl HasConversation)
      else
        (case cl_create L of
           Inl e \<Rightarrow> (s, Inl (GroupFailed e))
         | Inr g \<Rightarrow> (s\<lparr>ss_conversation := Some (opened m g False)\<rparr>, Inr ())))"

definition session_join :: "('g, 's, 'q) mls \<Rightarrow> 'g client_lib \<Rightarrow> str \<Rightarrow> str \<Rightarrow> 'g client_session \<Rightarrow> ('g, unit) outcome" where
  "session_join m L welcome_b64 tree_b64 s =
     (if ss_conversation s \<noteq> None then (s, Inl HasConversation)
      else
        and_then (s, client_decode L welcome_b64) (\<lambda>welcome s.
        and_then (s, client_decode L tree_b64) (\<lambda>tree s.
          (case cl_join L welcome tree of
             Inl e \<Rightarrow> (s, Inl (GroupFailed e))
           | Inr g \<Rightarrow> sync_tag_keys m L (s\<lparr>ss_conversation := Some (opened m g False)\<rparr>)))))"

record sent_invitation =
  iv_commit :: str
  iv_welcome :: str
  iv_ratchet_tree :: str

definition ratchet_tree :: "'g client_lib \<Rightarrow> 'g conversation \<Rightarrow> 'g conversation \<times> (group_error, bytes) result" where
  "ratchet_tree L cv = (cv, cl_tree L (cv_group cv))"

definition session_invite :: "('g, 's, 'q) mls \<Rightarrow> 'g client_lib \<Rightarrow> str \<Rightarrow> 'g client_session \<Rightarrow> ('g, sent_invitation) outcome" where
  "session_invite m L key_package_b64 s =
     (if MAX_MEMBERS \<le> member_count m s then (s, Inl Full)
      else
        and_then (s, client_decode L key_package_b64) (\<lambda>bs s.
        and_then (s, map_err GroupFailed (deserialize_key_package L bs)) (\<lambda>package s.
        and_then (in_group (\<lambda>cv. invite m cv package) s) (\<lambda>(commit, welcome) s.
        and_then (in_group (settle m) s) (\<lambda>_ s.
        and_then (in_group (ratchet_tree L) s) (\<lambda>tree s.
        and_then (sync_tag_keys m L s) (\<lambda>_ s.
          (s, Inr \<lparr> iv_commit = cl_b64 L commit, iv_welcome = cl_b64 L welcome, iv_ratchet_tree = cl_b64 L tree \<rparr>))))))))"

definition session_propose :: "('g, 's, 'q) mls \<Rightarrow> 'g client_lib \<Rightarrow> str \<Rightarrow> 'g client_session \<Rightarrow> ('g, str) outcome" where
  "session_propose m L key_package_b64 s =
     (if MAX_MEMBERS \<le> member_count m s then (s, Inl Full)
      else
        and_then (s, client_decode L key_package_b64) (\<lambda>bs s.
        and_then (s, map_err GroupFailed (deserialize_key_package L bs)) (\<lambda>package s.
        and_then (in_group (\<lambda>cv. propose_invite m cv package) s) (say L))))"

definition session_confirm :: "('g, 's, 'q) mls \<Rightarrow> 'g client_lib \<Rightarrow> 'g client_session \<Rightarrow> ('g, sent_invitation) outcome" where
  "session_confirm m L s =
     and_then (in_group (confirm_additions m) s) (\<lambda>(commit, welcome) s.
     and_then (in_group (settle m) s) (\<lambda>_ s.
     and_then (s, ok_or NoWelcome welcome) (\<lambda>welcome s.
     and_then (in_group (ratchet_tree L) s) (\<lambda>tree s.
     and_then (sync_tag_keys m L s) (\<lambda>_ s.
       (s, Inr \<lparr> iv_commit = cl_b64 L commit, iv_welcome = cl_b64 L welcome, iv_ratchet_tree = cl_b64 L tree \<rparr>))))))"

definition session_settle :: "('g, 's, 'q) mls \<Rightarrow> 'g client_lib \<Rightarrow> 'g client_session \<Rightarrow> ('g, bool) outcome" where
  "session_settle m L s =
     and_then (in_group (settle m) s) (\<lambda>settled s.
       if settled then and_then (sync_tag_keys m L s) (\<lambda>_ s. (s, Inr settled)) else (s, Inr settled))"

text \<open>The members named, by the labels the roster shows, each once.\<close>

fun named_members :: "'g client_lib \<Rightarrow> participant list \<Rightarrow> bytes list \<Rightarrow> str list \<Rightarrow> (session_error, bytes list) result" where
  "named_members L people found_so_far [] = Inr found_so_far"
| "named_members L people found_so_far (w # ws) =
     (case find (\<lambda>p. p_well_formed p \<and> cl_lossy L (p_identity p) = w) people of
        None \<Rightarrow> Inl (NobodyCalled w)
      | Some p \<Rightarrow>
          named_members L people (if p_identity p \<in> set found_so_far then found_so_far else found_so_far @ [p_identity p]) ws)"

text \<open>\<open>labels\<close> is what the JSON parser made of the argument.\<close>

definition session_set_admins :: "('g, 's, 'q) mls \<Rightarrow> 'g client_lib \<Rightarrow> str list option \<Rightarrow> 'g client_session \<Rightarrow> ('g, str) outcome" where
  "session_set_admins m L labels s =
     and_then (s, ok_or Undecodable labels) (\<lambda>wanted s.
       case ss_conversation s of
         None \<Rightarrow> (s, Inl NoConversation)
       | Some cv \<Rightarrow>
           and_then (s, named_members L (roster m (cv_group cv)) [] wanted) (\<lambda>admins s.
           and_then (in_group (\<lambda>cv. set_admins m cv admins) s) (sync_and_say m L)))"

definition session_remove_member :: "('g, 's, 'q) mls \<Rightarrow> 'g client_lib \<Rightarrow> str \<Rightarrow> 'g client_session \<Rightarrow> ('g, str) outcome" where
  "session_remove_member m L signature_key_b64 s =
     and_then (s, client_decode L signature_key_b64) (\<lambda>key s.
     and_then (in_group (\<lambda>cv. remove_member m cv (ss_key s) key) s) (say L))"

definition session_rekey :: "('g, 's, 'q) mls \<Rightarrow> 'g client_lib \<Rightarrow> 'g client_session \<Rightarrow> ('g, str) outcome" where
  "session_rekey m L s = and_then (in_group (rekey_after_restore m) s) (sync_and_say m L)"

definition session_trust_restored :: "'g client_session \<Rightarrow> ('g, unit) outcome" where
  "session_trust_restored s = in_group (\<lambda>cv. (trust_restored_state cv, Inr ())) s"

definition needs_rekey :: "'g client_session \<Rightarrow> bool" where
  "needs_rekey s = (case ss_conversation s of None \<Rightarrow> False | Some cv \<Rightarrow> cv_restored_needs_rekey cv)"

section \<open>The post-quantum step\<close>

text \<open>\<open>drawn\<close> is the ciphertext and the secret of one encapsulation to the key.\<close>

definition encapsulate_to :: "'g client_lib \<Rightarrow> bytes \<times> bytes \<Rightarrow> str \<Rightarrow> 'g client_session \<Rightarrow> ('g, str) outcome" where
  "encapsulate_to L drawn hybrid_pk_b64 s =
     and_then (s, client_decode L hybrid_pk_b64) (\<lambda>pk s.
       if \<not> cl_public_key L pk then (s, Inl (HybridFailed BadPublicKey))
       else (s\<lparr>ss_pending_pq := Some (snd drawn)\<rparr>, Inr (cl_b64 L (fst drawn))))"

definition open_pq :: "('g, 's, 'q) mls \<Rightarrow> 'g client_lib \<Rightarrow> str \<Rightarrow> 'g client_session \<Rightarrow> ('g, unit) outcome" where
  "open_pq m L ciphertext_b64 s =
     and_then (s, client_decode L ciphertext_b64) (\<lambda>bs s.
     and_then (s, map_err HybridFailed (hybrid_ciphertext_from_bytes bs)) (\<lambda>ct s.
       in_group (stage_pq_secret m L (cl_decaps L ct)) s))"

definition roster_keys :: "('g, 's, 'q) mls \<Rightarrow> 'g conversation \<Rightarrow> bytes list" where
  "roster_keys m cv = map p_signature_key (roster m (cv_group cv))"

text \<open>One wrap for each recipient; \<open>draws\<close> are the encapsulations and the nonces.\<close>

fun wrap_each ::
  "'g client_lib \<Rightarrow> bytes \<Rightarrow> bytes \<Rightarrow> u64 \<Rightarrow> bytes \<Rightarrow> ((bytes \<times> bytes) \<times> bytes option) list \<Rightarrow> (str \<times> bytes) list \<Rightarrow>
    (session_error, str list) result" where
  "wrap_each L secret group_id epoch mine draws [] = Inr []"
| "wrap_each L secret group_id epoch mine draws ((encoded, recipient) # rest) =
     bind_result (client_decode L encoded) (\<lambda>pk.
       if \<not> cl_public_key L pk then Inl (HybridFailed BadPublicKey)
       else
         bind_result (map_err HybridFailed (wrap_and_sign (cl_hash L) (cl_enc L) (cl_sign L) secret (fst (hd draws)) (snd (hd draws))
             \<lparr> b_group = group_id, b_epoch = epoch, b_recipient = recipient, b_sender = mine \<rparr>)) (\<lambda>signed.
         bind_result (wrap_each L secret group_id epoch mine (tl draws) rest) (\<lambda>ws.
           Inr (cl_b64 L (wrapped_to_bytes signed) # ws))))"

definition begin_group_pq ::
  "('g, 's, 'q) mls \<Rightarrow> 'g client_lib \<Rightarrow> bytes \<Rightarrow> ((bytes \<times> bytes) \<times> bytes option) list \<Rightarrow> str list \<Rightarrow> 'g client_session \<Rightarrow> ('g, str list) outcome" where
  "begin_group_pq m L secret draws hybrid_public_keys s =
     (case ss_conversation s of
        None \<Rightarrow> (s, Inl NoConversation)
      | Some cv \<Rightarrow>
          let others = filter (\<lambda>k. k \<noteq> ss_key s) (roster_keys m cv)
          in if length others \<noteq> length hybrid_public_keys then (s, Inl OneKeyEach)
             else
               and_then (s, wrap_each L secret (cl_group_id L (cv_group cv)) (mls_epoch m (cv_group cv)) (ss_key s) draws
                   (zip hybrid_public_keys others)) (\<lambda>wrapped s.
                 (s\<lparr>ss_pending_pq := Some secret\<rparr>, Inr wrapped)))"

fun unwrap_from_members ::
  "'g client_lib \<Rightarrow> wrapped_secret \<Rightarrow> bytes \<Rightarrow> u64 \<Rightarrow> bytes \<Rightarrow> hybrid_error \<Rightarrow> bytes list \<Rightarrow> (hybrid_error, bytes) result" where
  "unwrap_from_members L w group_id epoch mine prior [] = Inl prior"
| "unwrap_from_members L w group_id epoch mine prior (sender # senders) =
     (case unwrap_pq_signed (cl_hash L) (cl_dec L) (cl_decaps L) (cl_point L) (cl_verify L) w
             \<lparr> b_group = group_id, b_epoch = epoch, b_recipient = mine, b_sender = sender \<rparr> of
        Inr secret \<Rightarrow> Inr secret
      | Inl e \<Rightarrow> unwrap_from_members L w group_id epoch mine e senders)"

definition binding_id :: "bytes \<Rightarrow> u64 \<Rightarrow> bytes" where
  "binding_id group_id epoch = group_id @ u64_be epoch"

definition open_group_pq :: "('g, 's, 'q) mls \<Rightarrow> 'g client_lib \<Rightarrow> str \<Rightarrow> 'g client_session \<Rightarrow> ('g, unit) outcome" where
  "open_group_pq m L wrapped_b64 s =
     and_then (s, client_decode L wrapped_b64) (\<lambda>bs s.
     and_then (s, map_err HybridFailed (wrapped_from_bytes bs)) (\<lambda>w s.
       case ss_conversation s of
         None \<Rightarrow> (s, Inl NoConversation)
       | Some cv \<Rightarrow>
           let group_id = cl_group_id L (cv_group cv); epoch = mls_epoch m (cv_group cv)
           in and_then (s, map_err HybridFailed (unwrap_from_members L w group_id epoch (ss_key s) WrongSigner (roster_keys m cv)))
                (\<lambda>secret s.
                  if binding_id group_id epoch \<in> set (ss_staged_pq s) then (s, Inl AlreadyStaged)
                  else
                    and_then (in_group (stage_pq_secret m L secret) s) (\<lambda>_ s.
                      (s\<lparr>ss_staged_pq := ss_staged_pq s @ [binding_id group_id epoch]\<rparr>, Inr ())))))"

definition commit_pq :: "('g, 's, 'q) mls \<Rightarrow> 'g client_lib \<Rightarrow> bytes option \<Rightarrow> 'g client_session \<Rightarrow> ('g, str) outcome" where
  "commit_pq m L draw s =
     (case ss_pending_pq s of
        None \<Rightarrow> (s, Inl NothingToCommit)
      | Some secret \<Rightarrow>
          and_then (in_group (commit_pq_secret m L draw secret) (s\<lparr>ss_pending_pq := None\<rparr>)) (sync_and_say m L))"

section \<open>Messages\<close>

definition session_send :: "('g, 's, 'q) mls \<Rightarrow> 'g client_lib \<Rightarrow> str \<Rightarrow> 'g client_session \<Rightarrow> ('g, str) outcome" where
  "session_send m L t s = and_then (in_group (\<lambda>cv. group_send m cv (as_bytes t)) s) (say L)"

text \<open>What the JSON the caller is handed says.\<close>

record label_and_key =
  lk_label :: str
  lk_key :: str

datatype notice =
    Refused group_error
  | MessageNotice bytes "label_and_key option"
  | MembershipNotice "str list" "str list" nat "str option"
  | ProposedNotice "str option" "str list"
  | SupersededNotice "(str list \<times> str list \<times> nat) option"
  | NothingNotice

definition labels_of :: "'g client_lib \<Rightarrow> participant list \<Rightarrow> str list" where
  "labels_of L ps = map (\<lambda>p. cl_lossy L (p_identity p)) ps"

definition describe :: "('g, 's, 'q) mls \<Rightarrow> 'g client_lib \<Rightarrow> received \<Rightarrow> 'g client_session \<Rightarrow> (session_error, notice) result" where
  "describe m L outcome s =
     (case outcome of
        Message sender plaintext \<Rightarrow>
          if \<not> utf8_valid plaintext then Inl NotText
          else
            let who = Option.bind sender (\<lambda>leaf. Option.bind (ss_conversation s) (\<lambda>cv. participant_at m (cv_group cv) leaf))
            in Inr (MessageNotice plaintext (map_option
                 (\<lambda>p. \<lparr> lk_label = cl_lossy L (p_identity p), lk_key = cl_b64 L (p_signature_key p) \<rparr>) who))
      | MembershipChanged change \<Rightarrow>
          Inr (MembershipNotice (labels_of L (mc_added change)) (labels_of L (mc_removed change)) (member_count m s)
            (map_option (\<lambda>p. cl_lossy L (p_identity p)) (mc_by change)))
      | AdditionProposed by_whom joining \<Rightarrow>
          Inr (ProposedNotice (map_option (\<lambda>p. cl_lossy L (p_identity p)) by_whom) (labels_of L joining))
      | OurCommitLost instead \<Rightarrow>
          Inr (SupersededNotice (case instead of
            MembershipChanged change \<Rightarrow> Some (labels_of L (mc_added change), labels_of L (mc_removed change), member_count m s)
          | _ \<Rightarrow> None))
      | TheirCommitLost \<Rightarrow> Inr NothingNotice
      | NothingToDo \<Rightarrow> Inr NothingNotice)"

definition session_receive :: "('g, 's, 'q) mls \<Rightarrow> 'g client_lib \<Rightarrow> str \<Rightarrow> 'g client_session \<Rightarrow> ('g, notice) outcome" where
  "session_receive m L message_b64 s =
     and_then (s, client_decode L message_b64) (\<lambda>bs s.
       case in_group (\<lambda>cv. group_receive m cv bs) s of
         (s, Inl e) \<Rightarrow>
           (case e of
              GroupFailed AddedWithoutASecondMember \<Rightarrow> (s, Inr (Refused AddedWithoutASecondMember))
            | GroupFailed AddedBySomebodyWhoIsNotAnAdmin \<Rightarrow> (s, Inr (Refused AddedBySomebodyWhoIsNotAnAdmin))
            | _ \<Rightarrow> (s, Inl e))
       | (s, Inr outcome) \<Rightarrow> and_then (sync_tag_keys m L s) (\<lambda>_ s. (s, describe m L outcome s)))"

section \<open>Who is here\<close>

definition session_roster :: "('g, 's, 'q) mls \<Rightarrow> 'g client_lib \<Rightarrow> 'g client_session \<Rightarrow> (session_error, str list) result" where
  "session_roster m L s =
     bind_result (ok_or NoConversation (ss_conversation s)) (\<lambda>cv. Inr (labels_of L (roster m (cv_group cv))))"

definition session_admins :: "('g, 's, 'q) mls \<Rightarrow> 'g client_lib \<Rightarrow> 'g client_session \<Rightarrow> (session_error, str list) result" where
  "session_admins m L s =
     bind_result (ok_or NoConversation (ss_conversation s)) (\<lambda>cv. Inr (map (cl_lossy L) (admins m (cv_group cv))))"

definition roster_detail :: "('g, 's, 'q) mls \<Rightarrow> 'g client_lib \<Rightarrow> 'g client_session \<Rightarrow> (session_error, (label_and_key \<times> str) list) result" where
  "roster_detail m L s =
     bind_result (ok_or NoConversation (ss_conversation s)) (\<lambda>cv.
       Inr (map (\<lambda>p. (\<lparr> lk_label = cl_lossy L (p_identity p), lk_key = cl_b64 L (p_signature_key p) \<rparr>, cl_lossy L (p_device p)))
         (roster m (cv_group cv))))"

definition session_group_id :: "'g client_lib \<Rightarrow> 'g client_session \<Rightarrow> (session_error, str) result" where
  "session_group_id L s =
     bind_result (ok_or NoConversation (ss_conversation s)) (\<lambda>cv. Inr (hex_str (cl_group_id L (cv_group cv))))"

section \<open>Writing a session down\<close>

text \<open>What is sealed beside the member's own state, and the session made of it again.\<close>

record session_state =
  st_group_id :: "bytes option"
  st_tag_keys :: "(u64 \<times> tag_key) list"

definition session_write :: "'g client_lib \<Rightarrow> 'g client_session \<Rightarrow> session_state" where
  "session_write L s = \<lparr> st_group_id = map_option (\<lambda>cv. cl_group_id L (cv_group cv)) (ss_conversation s), st_tag_keys = ss_tag_keys s \<rparr>"

definition group_reopen :: "('g, 's, 'q) mls \<Rightarrow> 'g client_lib \<Rightarrow> bytes \<Rightarrow> (group_error, 'g conversation option) result" where
  "group_reopen m L group_id = bind_result (cl_reopen L group_id) (\<lambda>maybe. Inr (map_option (\<lambda>g. opened m g True) maybe))"

definition session_read :: "('g, 's, 'q) mls \<Rightarrow> 'g client_lib \<Rightarrow> bytes \<Rightarrow> session_state \<Rightarrow> (session_error, 'g client_session) result" where
  "session_read m L key st =
     bind_result (case st_group_id st of None \<Rightarrow> Inr None | Some i \<Rightarrow> map_err GroupFailed (group_reopen m L i)) (\<lambda>conversation.
       Inr \<lparr> ss_key = key, ss_conversation = conversation, ss_tag_keys = st_tag_keys st, ss_pending_pq = None, ss_staged_pq = [] \<rparr>)"


section \<open>The safety number\<close>

text \<open>\<open>xof\<close> gives the thirty bytes of the derived hash.\<close>

definition FINGERPRINT_CONTEXT :: bytes where "FINGERPRINT_CONTEXT = ascii ''rotelyx conversation fingerprint v2''"

definition safety_input :: "bytes list \<Rightarrow> bytes" where
  "safety_input keys = concat (map (\<lambda>k. u32_be (word_of_nat (length k)) @ k) (remdups_adj (sort keys)))"

fun chunks_of_five :: "bytes \<Rightarrow> bytes list" where
  "chunks_of_five [] = []"
| "chunks_of_five (b # bs) = take 5 (b # bs) # chunks_of_five (drop 5 (b # bs))"

text \<open>\<^verbatim>\<open>format!("{:05}", n % 100_000)\<close>\<close>

definition five_digits :: "nat \<Rightarrow> str" where
  "five_digits n = map (\<lambda>p. 48 + n mod 100000 div p mod 10) [10000, 1000, 100, 10, 1]"

fun join_with_blanks :: "str list \<Rightarrow> str" where
  "join_with_blanks [] = []"
| "join_with_blanks [x] = x"
| "join_with_blanks (x # xs) = x @ [32] @ join_with_blanks xs"

definition number_text :: "bytes \<Rightarrow> str" where
  "number_text out = join_with_blanks (map (\<lambda>c. five_digits (of_be c)) (chunks_of_five out))"

definition safety_number :: "('g, 's, 'q) mls \<Rightarrow> hash \<Rightarrow> 'g client_session \<Rightarrow> (session_error, str) result" where
  "safety_number m xof s =
     bind_result (ok_or NoConversation (ss_conversation s)) (\<lambda>cv.
       Inr (number_text (take 30 (xof FINGERPRINT_CONTEXT (safety_input (roster_keys m cv))))))"


section \<open>The methods as steps\<close>

datatype client_op =
    Found
  | Join str str
  | Invite str
  | Propose str
  | Confirm
  | Settle
  | SetAdmins "str list option"
  | Remove str
  | Rekey
  | TrustRestored
  | EncapsulateTo "bytes \<times> bytes" str
  | OpenPq str
  | BeginGroupPq bytes "((bytes \<times> bytes) \<times> bytes option) list" "str list"
  | OpenGroupPq str
  | CommitPq "bytes option"
  | Send str
  | Receive str

definition done_with :: "('g, 'a) outcome \<Rightarrow> 'g client_session \<times> bool" where
  "done_with r = (fst r, \<not> isl (snd r))"

fun client_step :: "('g, 's, 'q) mls \<Rightarrow> 'g client_lib \<Rightarrow> client_op \<Rightarrow> 'g client_session \<Rightarrow> 'g client_session \<times> bool" where
  "client_step m L Found s = done_with (found m L s)"
| "client_step m L (Join w t) s = done_with (session_join m L w t s)"
| "client_step m L (Invite k) s = done_with (session_invite m L k s)"
| "client_step m L (Propose k) s = done_with (session_propose m L k s)"
| "client_step m L Confirm s = done_with (session_confirm m L s)"
| "client_step m L Settle s = done_with (session_settle m L s)"
| "client_step m L (SetAdmins ls) s = done_with (session_set_admins m L ls s)"
| "client_step m L (Remove k) s = done_with (session_remove_member m L k s)"
| "client_step m L Rekey s = done_with (session_rekey m L s)"
| "client_step m L TrustRestored s = done_with (session_trust_restored s)"
| "client_step m L (EncapsulateTo d k) s = done_with (encapsulate_to L d k s)"
| "client_step m L (OpenPq c) s = done_with (open_pq m L c s)"
| "client_step m L (BeginGroupPq x ds ks) s = done_with (begin_group_pq m L x ds ks s)"
| "client_step m L (OpenGroupPq w) s = done_with (open_group_pq m L w s)"
| "client_step m L (CommitPq d) s = done_with (commit_pq m L d s)"
| "client_step m L (Send t) s = done_with (session_send m L t s)"
| "client_step m L (Receive b) s = done_with (session_receive m L b s)"

definition client_run :: "('g, 's, 'q) mls \<Rightarrow> 'g client_lib \<Rightarrow> client_op list \<Rightarrow> 'g client_session \<Rightarrow> 'g client_session" where
  "client_run m L ops s = fold (\<lambda>x s. fst (client_step m L x s)) ops s"

section \<open>What every method keeps\<close>

text \<open>
  A property of sessions that the group methods keep, that survives the keys following the epoch and the bookkeeping of
  the post-quantum secrets, and that founding or joining establishes, holds after every sequence of methods.
\<close>

locale session_keeps =
  fixes m :: "('g, 's, 'q) mls" and L :: "'g client_lib" and I :: "'g client_session \<Rightarrow> bool"
    and moves :: "('g conversation \<Rightarrow> 'g conversation) \<Rightarrow> bool"
  assumes group: "I s \<Longrightarrow> moves f \<Longrightarrow> ss_conversation s = Some cv \<Longrightarrow> I (s\<lparr>ss_conversation := Some (f cv)\<rparr>)"
    and sync: "I s \<Longrightarrow> I (fst (sync_tag_keys m L s))"
    and enter: "I s \<Longrightarrow> ss_conversation s = None \<Longrightarrow> I (s\<lparr>ss_conversation := Some (opened m g False)\<rparr>)"
    and pending: "I s \<Longrightarrow> I (s\<lparr>ss_pending_pq := p\<rparr>)"
    and staged: "I s \<Longrightarrow> I (s\<lparr>ss_staged_pq := ss_staged_pq s @ b\<rparr>)"
    and calls: "moves (\<lambda>cv. fst (settle m cv))" "moves (\<lambda>cv. fst (invite m cv k))" "moves (\<lambda>cv. fst (propose_invite m cv k))"
      "moves (\<lambda>cv. fst (confirm_additions m cv))" "moves (\<lambda>cv. fst (set_admins m cv ws))" "moves (\<lambda>cv. fst (remove_member m cv own k))"
      "moves (\<lambda>cv. fst (rekey_after_restore m cv))" "moves trust_restored_state" "moves (\<lambda>cv. cv)"
      "moves (\<lambda>cv. fst (stage_pq_secret m L x cv))" "moves (\<lambda>cv. fst (commit_pq_secret m L d x cv))"
      "moves (\<lambda>cv. fst (group_send m cv bs))" "moves (\<lambda>cv. fst (group_receive m cv bs))"
begin

lemma kept_then: "I (fst r) \<Longrightarrow> (\<And>a s. I s \<Longrightarrow> I (fst (k a s))) \<Longrightarrow> I (fst (and_then r k))"
  by (cases r; cases "snd r") auto

lemma kept_group: "I s \<Longrightarrow> moves (\<lambda>cv. fst (f cv)) \<Longrightarrow> I (fst (in_group f s))"
  using group [of s "\<lambda>cv. fst (f cv)"] by (auto simp: in_group_def split: option.splits prod.splits)

lemma kept_say: "I s \<Longrightarrow> I (fst (say L bs s))" "I s \<Longrightarrow> I (fst (sync_and_say m L bs s))"
  by (auto simp: say_def sync_and_say_def intro!: kept_then sync)

lemma kept_tree: "I s \<Longrightarrow> I (fst (in_group (ratchet_tree L) s))"
  using kept_group [of s "ratchet_tree L"] calls(9) by (simp add: ratchet_tree_def)

lemmas kept_intros = kept_then kept_say kept_tree sync kept_group calls

lemma kept_found: "I s \<Longrightarrow> I (fst (found m L s))"
  by (auto simp: found_def intro: enter split: sum.splits)

lemma kept_join: "I s \<Longrightarrow> I (fst (session_join m L w t s))"
proof -
  assume "I s"
  have "I (fst (and_then (s, client_decode L w) (\<lambda>w s. and_then (s, client_decode L t) (\<lambda>t s.
      case cl_join L w t of Inl e \<Rightarrow> (s, Inl (GroupFailed e))
        | Inr g \<Rightarrow> sync_tag_keys m L (s\<lparr>ss_conversation := Some (opened m g False)\<rparr>)))))" if "ss_conversation s = None"
    using \<open>I s\<close> that enter sync by (cases "client_decode L w"; cases "client_decode L t") (auto split: sum.splits)
  then show ?thesis using \<open>I s\<close> by (simp add: session_join_def)
qed

lemma kept_changes:
  assumes "I s"
  shows "I (fst (session_invite m L k s))" "I (fst (session_propose m L k s))" "I (fst (session_confirm m L s))"
    "I (fst (session_settle m L s))" "I (fst (session_set_admins m L ls s))" "I (fst (session_remove_member m L k s))"
    "I (fst (session_rekey m L s))" "I (fst (session_trust_restored s))"
  using assms
  by (auto simp: session_invite_def session_propose_def session_confirm_def session_settle_def session_set_admins_def
      session_remove_member_def session_rekey_def session_trust_restored_def intro!: kept_intros split: option.splits)

lemma kept_secrets:
  assumes "I s"
  shows "I (fst (encapsulate_to L dr k s))" "I (fst (open_pq m L c s))" "I (fst (begin_group_pq m L x ds ks s))"
    "I (fst (open_group_pq m L w s))" "I (fst (commit_pq m L d s))"
  using assms
  by (auto simp: encapsulate_to_def open_pq_def begin_group_pq_def open_group_pq_def commit_pq_def Let_def
      intro!: kept_intros pending staged split: option.splits)

lemma kept_messages:
  assumes "I s"
  shows "I (fst (session_send m L t s))" "I (fst (session_receive m L b s))"
proof -
  show "I (fst (session_send m L t s))" using assms by (auto simp: session_send_def intro!: kept_intros)
  have k: "I x" if "in_group (\<lambda>cv. group_receive m cv bs) s = (x, r)" for bs x r
    using kept_group [OF assms calls(13), of bs] that by simp
  show "I (fst (session_receive m L b s))"
  proof (cases "client_decode L b")
    case (Inr bs)
    then show ?thesis
      by (cases "in_group (\<lambda>cv. group_receive m cv bs) s"; cases "snd (in_group (\<lambda>cv. group_receive m cv bs) s)")
        (auto simp: session_receive_def dest: k intro!: kept_then sync split: session_error.splits group_error.splits)
  qed (simp add: session_receive_def assms)
qed

lemma kept_step: "I s \<Longrightarrow> I (fst (client_step m L x s))"
  by (cases x) (simp_all add: done_with_def kept_found kept_join kept_changes kept_secrets kept_messages)

lemma kept_run: "I s \<Longrightarrow> I (client_run m L ops s)"
  unfolding client_run_def by (induction ops arbitrary: s) (simp_all add: kept_step)

end


section \<open>No method takes a session back\<close>

definition no_earlier :: "('g, 's, 'q) mls \<Rightarrow> 'g conversation \<Rightarrow> 'g conversation \<Rightarrow> bool" where
  "no_earlier m cv cv' \<longleftrightarrow> mls_epoch m (cv_group cv) \<le> mls_epoch m (cv_group cv')"

text \<open>The calls that build a message, a proposal or a commit, and those that store a secret, go back no further than the others.\<close>

definition epochs_grow :: "('g, 's, 'q) mls \<Rightarrow> 'g client_lib \<Rightarrow> bool" where
  "epochs_grow m L \<longleftrightarrow> epochs_advance m \<and>
     (\<forall>g q. mls_epoch m g \<le> mls_epoch m (fst (mls_remove_proposal m g q))) \<and>
     (\<forall>g bs. mls_epoch m g \<le> mls_epoch m (fst (mls_create_message m g bs))) \<and>
     (\<forall>g k. mls_epoch m g \<le> mls_epoch m (fst (mls_propose_add m g k))) \<and>
     (\<forall>g k. mls_epoch m g \<le> mls_epoch m (fst (mls_add_members m g k))) \<and>
     (\<forall>g i. mls_epoch m g \<le> mls_epoch m (fst (mls_remove_members m g i))) \<and>
     (\<forall>g. mls_epoch m g \<le> mls_epoch m (fst (mls_commit_pending m g))) \<and>
     (\<forall>g t d. mls_epoch m g \<le> mls_epoch m (fst (mls_update_extension m g t d))) \<and>
     (\<forall>g. mls_epoch m g \<le> mls_epoch m (fst (mls_rekey m g))) \<and>
     (\<forall>g b p. mls_epoch m g \<le> mls_epoch m (fst (cl_store_psk L g b p))) \<and>
     (\<forall>g b n. mls_epoch m g \<le> mls_epoch m (fst (cl_commit_psk L g b n)))"

lemma epochs_growD:
  assumes "epochs_grow m L"
  shows "epochs_advance m"
    "\<And>g q g' r. mls_remove_proposal m g q = (g', r) \<Longrightarrow> mls_epoch m g \<le> mls_epoch m g'"
    "\<And>g bs g' r. mls_create_message m g bs = (g', r) \<Longrightarrow> mls_epoch m g \<le> mls_epoch m g'"
    "\<And>g k g' r. mls_propose_add m g k = (g', r) \<Longrightarrow> mls_epoch m g \<le> mls_epoch m g'"
    "\<And>g k g' r. mls_add_members m g k = (g', r) \<Longrightarrow> mls_epoch m g \<le> mls_epoch m g'"
    "\<And>g i g' r. mls_remove_members m g i = (g', r) \<Longrightarrow> mls_epoch m g \<le> mls_epoch m g'"
    "\<And>g g' r. mls_commit_pending m g = (g', r) \<Longrightarrow> mls_epoch m g \<le> mls_epoch m g'"
    "\<And>g t d g' r. mls_update_extension m g t d = (g', r) \<Longrightarrow> mls_epoch m g \<le> mls_epoch m g'"
    "\<And>g g' r. mls_rekey m g = (g', r) \<Longrightarrow> mls_epoch m g \<le> mls_epoch m g'"
    "\<And>g b p g' r. cl_store_psk L g b p = (g', r) \<Longrightarrow> mls_epoch m g \<le> mls_epoch m g'"
    "\<And>g b n g' r. cl_commit_psk L g b n = (g', r) \<Longrightarrow> mls_epoch m g \<le> mls_epoch m g'"
  using assms unfolding epochs_grow_def by (metis fst_conv)+

lemma no_earlier_refl [simp]: "no_earlier m cv cv"
  by (simp add: no_earlier_def)

lemma no_earlier_trans [trans]: "no_earlier m a b \<Longrightarrow> no_earlier m b c \<Longrightarrow> no_earlier m a c"
  by (simp add: no_earlier_def)

lemma no_earlier_group: "mls_epoch m (cv_group cv) \<le> mls_epoch m g \<Longrightarrow> no_earlier m cv (cv\<lparr>cv_group := g\<rparr>)"
  by (simp add: no_earlier_def)

lemma settle_no_earlier: "epochs_grow m L \<Longrightarrow> no_earlier m cv (fst (settle m cv))"
  using settle_keeps(2) [of m cv "fst (settle m cv)" "snd (settle m cv)"] by (simp add: no_earlier_def epochs_growD(1))

lemma trust_no_earlier: "no_earlier m cv (trust_restored_state cv)"
  by (simp add: no_earlier_def trust_restored_state_def)

lemma held_no_earlier:
  assumes "epochs_grow m L" "mls_epoch m (cv_group cv) \<le> mls_epoch m g"
  shows "no_earlier m cv (fst (hold_made m (cv\<lparr>cv_group := g\<rparr>) c x))"
proof -
  have "no_earlier m d (fst (hold_made m d c x))" for d
    using settle_no_earlier [OF assms(1), of d] by (auto simp: hold_made_def hold_def no_earlier_def split: prod.splits sum.splits)
  from this [of "cv\<lparr>cv_group := g\<rparr>"] show ?thesis using assms(2) by (simp add: no_earlier_def)
qed

lemma calls_no_earlier:
  assumes "epochs_grow m L"
  shows "no_earlier m cv (fst (invite m cv k))" "no_earlier m cv (fst (propose_invite m cv k))"
    "no_earlier m cv (fst (confirm_additions m cv))" "no_earlier m cv (fst (set_admins m cv ws))"
    "no_earlier m cv (fst (remove_member m cv own k))" "no_earlier m cv (fst (rekey_after_restore m cv))"
    "no_earlier m cv (fst (stage_pq_secret m L x cv))" "no_earlier m cv (fst (commit_pq_secret m L d x cv))"
proof -
  note grow = epochs_growD [OF assms]
  show "no_earlier m cv (fst (invite m cv k))" unfolding invite_def
    by (auto simp: no_earlier_group split: prod.splits sum.splits dest!: grow(5) intro!: held_no_earlier [OF assms])
  show "no_earlier m cv (fst (propose_invite m cv k))" unfolding propose_invite_def
    by (auto simp: no_earlier_group split: prod.splits dest!: grow(4))
  show "no_earlier m cv (fst (confirm_additions m cv))" unfolding confirm_additions_def
    by (auto simp: no_earlier_group split: prod.splits sum.splits dest!: grow(7) intro!: held_no_earlier [OF assms])
  show "no_earlier m cv (fst (set_admins m cv ws))" unfolding set_admins_def
    by (auto simp: no_earlier_group split: prod.splits sum.splits dest!: grow(8) intro!: held_no_earlier [OF assms])
  show "no_earlier m cv (fst (remove_member m cv own k))" unfolding remove_member_def
    by (auto simp: no_earlier_group split: prod.splits sum.splits option.splits dest!: grow(6) intro!: held_no_earlier [OF assms])
  show "no_earlier m cv (fst (stage_pq_secret m L x cv))" unfolding stage_pq_secret_def Let_def
    by (auto simp: no_earlier_group split: prod.splits dest!: grow(10))
  show "no_earlier m cv (fst (rekey_after_restore m cv))"
  proof (cases "mls_rekey m (cv_group cv)")
    case (Pair g r)
    have "no_earlier m cv (fst (hold_made m (cv\<lparr>cv_group := g\<rparr>) c ()))" for c by (rule held_no_earlier [OF assms grow(9) [OF Pair]])
    moreover have "fst (hold_made m d c ()) = fst (hold m d c)" for c d
      by (auto simp: hold_made_def split: prod.splits sum.splits)
    ultimately have "no_earlier m cv (fst (hold m (cv\<lparr>cv_group := g\<rparr>) c))" for c by simp
    then have hold: "no_earlier m cv d" if "hold m (cv\<lparr>cv_group := g\<rparr>) c = (d, y)" for c d y using that by (metis fst_conv)
    show ?thesis
    proof (cases r)
      case (Inr c)
      obtain d y where d: "hold m (cv\<lparr>cv_group := g\<rparr>) c = (d, y)" by fastforce
      then show ?thesis using hold [OF d] Pair Inr by (cases y) (simp_all add: rekey_after_restore_def no_earlier_def)
    qed (use grow(9) [OF Pair] Pair in \<open>simp add: rekey_after_restore_def no_earlier_def\<close>)
  qed
  show "no_earlier m cv (fst (commit_pq_secret m L d x cv))"
  proof -
    let ?b = "psk_binding m L (cv_group cv)"
    obtain g r where s: "cl_store_psk L (cv_group cv) ?b (derive_psk (cl_hash L) x ?b) = (g, r)" by fastforce
    obtain g' r' where c: "cl_commit_psk L g ?b (the d) = (g', r')" by fastforce
    have "mls_epoch m (cv_group cv) \<le> mls_epoch m g" "mls_epoch m g \<le> mls_epoch m g'" by (rule grow(10) [OF s] grow(11) [OF c])+
    then have "no_earlier m cv (cv\<lparr>cv_group := g\<rparr>)" "no_earlier m cv (cv\<lparr>cv_group := g'\<rparr>)"
      "\<And>c x. no_earlier m cv (fst (hold_made m (cv\<lparr>cv_group := g'\<rparr>) c x))"
      by (auto simp: no_earlier_group intro!: held_no_earlier [OF assms])
    then show ?thesis using s c by (cases d; cases r; cases r') (simp_all add: commit_pq_secret_def Let_def)
  qed
qed

lemma each_proposal_grows:
  assumes "epochs_grow m L"
  shows "each_proposal (mls_remove_proposal m) g qs = (g', r) \<Longrightarrow> mls_epoch m g \<le> mls_epoch m g'"
    "each_proposal (mls_store_proposal m) g qs = (g', r) \<Longrightarrow> mls_epoch m g \<le> mls_epoch m g'"
proof -
  have rem: "mls_epoch m g \<le> mls_epoch m h" if "f g q = (h, x)" "f = mls_remove_proposal m \<or> f = mls_store_proposal m" for f g q h x
    using that epochs_growD(1,2) [OF assms] unfolding epochs_advance_def by (metis fst_conv)
  have "mls_epoch m g \<le> mls_epoch m g'" if "each_proposal f g qs = (g', r)" "f = mls_remove_proposal m \<or> f = mls_store_proposal m" for f
    using that(1)
  proof (induction qs arbitrary: g)
    case (Cons q qs)
    obtain h x where "f g q = (h, x)" by fastforce
    with Cons rem [OF this that(2)] show ?case by (cases x) (auto intro: order_trans)
  qed simp
  then show "each_proposal (mls_remove_proposal m) g qs = (g', r) \<Longrightarrow> mls_epoch m g \<le> mls_epoch m g'"
    "each_proposal (mls_store_proposal m) g qs = (g', r) \<Longrightarrow> mls_epoch m g \<le> mls_epoch m g'" by blast+
qed


lemma send_no_earlier:
  assumes "epochs_grow m L"
  shows "no_earlier m cv (fst (group_send m cv bs))"
proof -
  have "mls_epoch m g \<le> mls_epoch m g'" if "send_framed m g framed = (g', r)" for g framed g' r
    using that
    by (auto simp: send_framed_def Let_def split: if_splits prod.splits sum.splits
        dest!: each_proposal_grows [OF assms] epochs_growD(3) [OF assms] intro: order_trans)
  then show ?thesis by (auto simp: group_send_def Let_def no_earlier_def split: prod.splits)
qed

lemma processed_no_earlier:
  assumes "epochs_advance m" "receive_processed m cv bs = (cv', r)"
  shows "mls_epoch m (cv_group cv) \<le> mls_epoch m (cv_group cv')"
proof (cases "\<exists>g i plain. mls_process m (cv_group cv) bs = (g, Inr (i, Application plain))")
  case True
  then obtain g i plain where p: "mls_process m (cv_group cv) bs = (g, Inr (i, Application plain))" by blast
  then have "mls_epoch m (cv_group cv) \<le> mls_epoch m g" using assms(1) unfolding epochs_advance_def by (metis fst_conv)
  moreover have keep: "cv_group (fst (receive_application d i plain)) = cv_group d" for d
    by (auto simp: receive_application_def Let_def split: sum.splits option.splits prod.splits)
  moreover have "receive_application (cv\<lparr>cv_group := g\<rparr>) i plain = (cv', r)" using assms(2) p by (simp add: receive_processed_def Let_def)
  then have "cv_group cv' = g" using keep [of "cv\<lparr>cv_group := g\<rparr>"] by simp
  ultimately show ?thesis by simp
next
  case False
  then show ?thesis using receive_processed_quiet(2) [OF assms] by blast
qed

lemma receive_no_earlier:
  assumes "epochs_grow m L"
  shows "no_earlier m cv (fst (group_receive m cv bs))"
proof -
  note adv = epochs_growD(1) [OF assms]
  obtain cv' r where r: "group_receive m cv bs = (cv', r)" by fastforce
  have "no_earlier m cv cv'"
  proof (rule group_receive_cases [OF adv r])
    assume "dealt_before m cv cv' r"
    then show "no_earlier m cv cv'" by (simp add: no_earlier_def dealt_before_def)
  next
    fix cv1 r1 assume "mls_epoch m (cv_group cv1) = mls_epoch m (cv_group cv)" "receive_processed m cv1 bs = (cv', r1)"
    then show "no_earlier m cv cv'" using processed_no_earlier [OF adv] by (fastforce simp: no_earlier_def)
  qed
  then show ?thesis by (simp add: r)
qed


section \<open>The window of tag keys\<close>

text \<open>The exporter gives one key for each epoch.\<close>

definition exports_by_epoch :: "('g, 's, 'q) mls \<Rightarrow> 'g client_lib \<Rightarrow> (u64 \<Rightarrow> bytes) \<Rightarrow> bool" where
  "exports_by_epoch m L K \<longleftrightarrow> (\<forall>g k. cl_export L g MAILBOX_TAG_KEY_LABEL = Inr k \<longrightarrow> k = K (mls_epoch m g))"

definition tag_window :: "('g, 's, 'q) mls \<Rightarrow> (u64 \<Rightarrow> bytes) \<Rightarrow> 'g client_session \<Rightarrow> bool" where
  "tag_window m K s \<longleftrightarrow> length (ss_tag_keys s) \<le> TAG_EPOCH_MEMORY \<and> sorted_wrt (<) (map fst (ss_tag_keys s)) \<and>
     (\<forall>x\<in>set (ss_tag_keys s). snd x = K (fst x) \<and> length (K (fst x)) = 32 \<and> fst x \<le> session_epoch m s) \<and>
     (ss_conversation s = None \<longrightarrow> ss_tag_keys s = [])"

definition lawful_window :: "('g, 's, 'q) mls \<Rightarrow> 'g client_lib \<Rightarrow> (u64 \<Rightarrow> bytes) \<Rightarrow> 'g client_session \<Rightarrow> bool" where
  "lawful_window m L K s \<longleftrightarrow> epochs_grow m L \<and> exports_by_epoch m L K \<and> tag_window m K s"

definition growing :: "('g, 's, 'q) mls \<Rightarrow> 'g client_lib \<Rightarrow> ('g conversation \<Rightarrow> 'g conversation) \<Rightarrow> bool" where
  "growing m L f \<longleftrightarrow> (epochs_grow m L \<longrightarrow> (\<forall>cv. no_earlier m cv (f cv)))"

lemma window_group:
  assumes "lawful_window m L K s" "growing m L f" "ss_conversation s = Some cv"
  shows "lawful_window m L K (s\<lparr>ss_conversation := Some (f cv)\<rparr>)"
proof -
  have "mls_epoch m (cv_group cv) \<le> mls_epoch m (cv_group (f cv))"
    using assms(1,2) by (simp add: lawful_window_def growing_def no_earlier_def)
  then show ?thesis using assms(1,3) by (auto simp: lawful_window_def tag_window_def session_epoch_def intro: order_trans)
qed

lemma sync_tag_keys_cases:
  assumes "sync_tag_keys m L s = (s', r)"
  obtains (current) "s' = s" "r = Inr ()" "ss_tag_keys s \<noteq> []" "fst (List.last (ss_tag_keys s)) = session_epoch m s"
  | (failed) e where "s' = s" "r = Inl e"
  | (derived) cv key where "ss_conversation s = Some cv" "mailbox_tag_key L (cv_group cv) = Inr key" "r = Inr ()"
      "\<not> (ss_tag_keys s \<noteq> [] \<and> fst (List.last (ss_tag_keys s)) = session_epoch m s)"
      "s' = s\<lparr>ss_tag_keys := (if TAG_EPOCH_MEMORY < Suc (length (ss_tag_keys s)) then tl (ss_tag_keys s @ [(session_epoch m s, key)])
         else ss_tag_keys s @ [(session_epoch m s, key)])\<rparr>"
  using assms by (auto simp: sync_tag_keys_def Let_def split: if_splits option.splits sum.splits)

lemma window_sync:
  assumes "lawful_window m L K s"
  shows "lawful_window m L K (fst (sync_tag_keys m L s))"
proof -
  obtain s' r where r: "sync_tag_keys m L s = (s', r)" by fastforce
  show ?thesis
  proof (rule sync_tag_keys_cases [OF r])
    fix cv key
    assume cv: "ss_conversation s = Some cv" and key: "mailbox_tag_key L (cv_group cv) = Inr key"
      and stale: "\<not> (ss_tag_keys s \<noteq> [] \<and> fst (List.last (ss_tag_keys s)) = session_epoch m s)"
      and s': "s' = s\<lparr>ss_tag_keys := (if TAG_EPOCH_MEMORY < Suc (length (ss_tag_keys s)) then tl (ss_tag_keys s @ [(session_epoch m s, key)])
         else ss_tag_keys s @ [(session_epoch m s, key)])\<rparr>"
    have k: "key = K (session_epoch m s)" "length key = 32"
      using assms key cv
      by (auto simp: lawful_window_def exports_by_epoch_def mailbox_tag_key_def export_key_def result_simps session_epoch_def split: if_splits)
    have w: "tag_window m K s" using assms by (simp add: lawful_window_def)
    have below: "e < session_epoch m s" if "e \<in> fst ` set (ss_tag_keys s)" for e
    proof -
      have ne: "ss_tag_keys s \<noteq> []" using that by auto
      have "fst (List.last (ss_tag_keys s)) < session_epoch m s"
      proof -
        have "fst (List.last (ss_tag_keys s)) \<le> session_epoch m s"
          using w last_in_set [OF ne] by (simp add: tag_window_def)
        then show ?thesis using stale ne by simp
      qed
      moreover have "e \<le> fst (List.last (ss_tag_keys s))"
      proof -
        obtain ks x where ks: "ss_tag_keys s = ks @ [x]" using ne by (cases "ss_tag_keys s" rule: rev_cases) auto
        then show ?thesis using w that by (auto simp: tag_window_def sorted_wrt_append)
      qed
      ultimately show ?thesis by simp
    qed
    let ?keys = "ss_tag_keys s @ [(session_epoch m s, key)]"
    have sorted: "sorted_wrt (<) (map fst ?keys)" using w below by (auto simp: tag_window_def sorted_wrt_append)
    have all: "\<forall>x\<in>set ?keys. snd x = K (fst x) \<and> length (K (fst x)) = 32 \<and> fst x \<le> session_epoch m s"
      using w k by (simp add: tag_window_def)
    have win: "tag_window m K (s\<lparr>ss_tag_keys := ks\<rparr>)"
      if "set ks \<subseteq> set ?keys" "sorted_wrt (<) (map fst ks)" "length ks \<le> TAG_EPOCH_MEMORY" for ks
    proof -
      have "\<forall>x\<in>set ks. snd x = K (fst x) \<and> length (K (fst x)) = 32 \<and> fst x \<le> session_epoch m s" using all that(1) by blast
      then show ?thesis using that cv by (simp add: tag_window_def session_epoch_def)
    qed
    have "sorted_wrt (<) (map fst (tl ?keys))" using sorted by (cases ?keys) auto
    moreover have "set (tl ?keys) \<subseteq> set ?keys" by (rule list.set_sel(2) [THEN subsetI]) simp
    moreover have "length (tl ?keys) \<le> TAG_EPOCH_MEMORY" using w by (simp add: tag_window_def)
    ultimately have "tag_window m K (s\<lparr>ss_tag_keys := tl ?keys\<rparr>)" by (intro win)
    moreover have "tag_window m K (s\<lparr>ss_tag_keys := ?keys\<rparr>)" if "\<not> TAG_EPOCH_MEMORY < Suc (length (ss_tag_keys s))"
      using that sorted by (intro win) auto
    ultimately show ?thesis using assms by (simp add: r s' lawful_window_def)
  qed (use r assms in simp_all)
qed


interpretation win: session_keeps m L "lawful_window m L K" "growing m L"
  for m :: "('g, 's, 'q) mls" and L :: "'g client_lib" and K :: "u64 \<Rightarrow> bytes"
proof unfold_locales
  show "lawful_window m L K (s\<lparr>ss_conversation := Some (f cv)\<rparr>)"
    if "lawful_window m L K s" "growing m L f" "ss_conversation s = Some cv" for s f cv
    using window_group [OF that] .
  show "lawful_window m L K (s\<lparr>ss_conversation := Some (opened m g False)\<rparr>)"
    if "lawful_window m L K s" "ss_conversation s = None" for s g
    using that by (simp add: lawful_window_def tag_window_def)
  show "lawful_window m L K (fst (sync_tag_keys m L s))" if "lawful_window m L K s" for s by (rule window_sync [OF that])
  show "lawful_window m L K (s\<lparr>ss_pending_pq := p\<rparr>)" "lawful_window m L K (s\<lparr>ss_staged_pq := ss_staged_pq s @ b\<rparr>)"
    if "lawful_window m L K s" for s p b
    using that by (simp_all add: lawful_window_def tag_window_def session_epoch_def)
qed (simp_all add: growing_def settle_no_earlier calls_no_earlier send_no_earlier receive_no_earlier trust_no_earlier)


lemma and_then_Inr:
  "and_then r k = (s', Inr b) \<longleftrightarrow> (\<exists>s a. r = (s, Inr a) \<and> k a s = (s', Inr b))"
  by (cases r; cases "snd r") auto

lemma sync_current:
  "sync_tag_keys m L s = (s', Inr u) \<Longrightarrow> ss_tag_keys s' \<noteq> [] \<and> fst (List.last (ss_tag_keys s')) = session_epoch m s'"
  by (erule sync_tag_keys_cases; cases "ss_tag_keys s") (auto simp: session_epoch_def TAG_EPOCH_MEMORY_def)

lemma sync_keeps:
  "ss_conversation (fst (sync_tag_keys m L s)) = ss_conversation s" "ss_staged_pq (fst (sync_tag_keys m L s)) = ss_staged_pq s"
  "ss_pending_pq (fst (sync_tag_keys m L s)) = ss_pending_pq s" "ss_key (fst (sync_tag_keys m L s)) = ss_key s"
  by (auto simp: sync_tag_keys_def Let_def split: option.splits sum.splits)

text \<open>
  The calls after which the keys have followed the epoch: those of the methods that apply a commit or join, a message received
  that was not refused, and settling where there was a commit to settle.  Removing a member only holds its commit.
\<close>

fun follows_the_epoch :: "('g, 's, 'q) mls \<Rightarrow> 'g client_lib \<Rightarrow> client_op \<Rightarrow> 'g client_session \<Rightarrow> bool" where
  "follows_the_epoch m L (Join _ _) s = True"
| "follows_the_epoch m L (Invite _) s = True"
| "follows_the_epoch m L Confirm s = True"
| "follows_the_epoch m L (SetAdmins _) s = True"
| "follows_the_epoch m L Rekey s = True"
| "follows_the_epoch m L (CommitPq _) s = True"
| "follows_the_epoch m L (Receive b) s = (case snd (session_receive m L b s) of Inr (Refused _) \<Rightarrow> False | _ \<Rightarrow> True)"
| "follows_the_epoch m L Settle s = (snd (session_settle m L s) = Inr True)"
| "follows_the_epoch m L _ s = False"

lemma done_with_True: "done_with r = (s', True) \<longleftrightarrow> (\<exists>b. r = (s', Inr b))"
  by (cases r; cases "snd r") (auto simp: done_with_def)

lemma receive_follows:
  assumes "session_receive m L b s = (s', Inr n)" "\<forall>e. n \<noteq> Refused e"
  shows "\<exists>s u. sync_tag_keys m L s = (s', Inr u)"
proof -
  obtain bs where bs: "client_decode L b = Inr bs" using assms(1) by (cases "client_decode L b") (auto simp: session_receive_def)
  obtain s1 r where r: "in_group (\<lambda>cv. group_receive m cv bs) s = (s1, r)" by fastforce
  show ?thesis
  proof (cases r)
    case (Inl e)
    then show ?thesis
      using assms r bs by (auto simp: session_receive_def split: session_error.splits group_error.splits)
  next
    case (Inr outcome)
    then show ?thesis
      using assms(1) r bs by (auto simp: session_receive_def and_then_Inr)
  qed
qed

lemma settle_follows:
  "session_settle m L s = (s', Inr True) \<Longrightarrow> \<exists>s u. sync_tag_keys m L s = (s', Inr u)"
  by (auto simp: session_settle_def and_then_Inr split: if_splits)

lemma followed_current:
  assumes "follows_the_epoch m L x s" "client_step m L x s = (s', True)"
  shows "ss_tag_keys s' \<noteq> [] \<and> fst (List.last (ss_tag_keys s')) = session_epoch m s'"
proof -
  have "\<exists>s u. sync_tag_keys m L s = (s', Inr u)"
  proof (cases "(\<exists>b. x = Receive b) \<or> x = Settle")
    case True
    then show ?thesis
    proof (elim disjE exE)
      fix b assume x: "x = Receive b"
      then obtain n where n: "session_receive m L b s = (s', Inr n)" using assms(2) by (auto simp: done_with_True)
      moreover have "\<forall>e. n \<noteq> Refused e" using assms(1) n x by auto
      ultimately show ?thesis by (rule receive_follows)
    next
      assume x: "x = Settle"
      then obtain u where "session_settle m L s = (s', Inr u)" using assms(2) by (auto simp: done_with_True)
      then show ?thesis using assms(1) x settle_follows by fastforce
    qed
  next
    case False
    then show ?thesis
      using assms
      by (cases x) (auto simp: done_with_True and_then_Inr session_join_def session_invite_def session_confirm_def session_set_admins_def
          session_rekey_def commit_pq_def sync_and_say_def say_def split: if_splits sum.splits option.splits, metis sum.exhaust)
  qed
  then show ?thesis using sync_current by blast
qed

section \<open>A library for the instances\<close>

text \<open>
  A cipher that opens under no key but its own: an idealisation of the client's, whose ciphertexts carry the last sixteen
  bytes of a key of thirty-two that begins with sixteen zeros.
\<close>

definition aead_keyed :: "aead_enc \<Rightarrow> aead_dec \<Rightarrow> bool" where
  "aead_keyed enc dec \<longleftrightarrow> (\<forall>k n a x c k' n' a'. enc k n a x = Some c \<longrightarrow> k' \<noteq> k \<longrightarrow> dec k' n' a' c = None)"

lemma aead_keyedD: "aead_keyed enc dec \<Longrightarrow> enc k n a x = Some c \<Longrightarrow> k' \<noteq> k \<Longrightarrow> dec k' n' a' c = None"
  unfolding aead_keyed_def by blast

definition short_key :: "bytes \<Rightarrow> bool" where
  "short_key k \<longleftrightarrow> length k = 32 \<and> take 16 k = replicate 16 0"

definition keyed_enc :: aead_enc where
  "keyed_enc k n a x = (if short_key k then Some (x @ drop 16 k) else None)"

definition keyed_dec :: aead_dec where
  "keyed_dec k n a c = (if short_key k \<and> drop (length c - 16) c = drop 16 k then Some (take (length c - 16) c) else None)"

lemma keyed_aead: "aead_opens keyed_enc keyed_dec" "aead_grows keyed_enc" "aead_keyed keyed_enc keyed_dec"
proof -
  show "aead_opens keyed_enc keyed_dec" "aead_grows keyed_enc"
    by (auto simp: aead_opens_def aead_grows_def keyed_enc_def keyed_dec_def short_key_def split: if_splits)
  have "k' = k" if "short_key k" "short_key k'" "drop 16 k = drop 16 k'" for k k'
    using that unfolding short_key_def by (metis append_take_drop_id)
  then show "aead_keyed keyed_enc keyed_dec"
    by (auto simp: aead_keyed_def keyed_enc_def keyed_dec_def short_key_def split: if_splits)
qed

text \<open>A group is its epoch; the exporter and the derived keys carry a number in their last eight bytes.\<close>

definition number_key :: "u64 \<Rightarrow> bytes" where
  "number_key e = replicate 24 0 @ u64_be e"

definition toy_client :: "u64 client_lib" where
  "toy_client = \<lparr> cl_kdf = (\<lambda>_ x. number_key (sum_list (map ucast x))), cl_enc = keyed_enc, cl_dec = keyed_dec, cl_unb64 = letter_untext,
     cl_b64 = letter_text, cl_lossy = map unat, cl_export = (\<lambda>g _. Inr (number_key g)), cl_tree = (\<lambda>_. Inr []), cl_group_id = (\<lambda>_. [7]),
     cl_key_package = (\<lambda>bs. Inr (bs, True)), cl_create = Inr 5, cl_join = (\<lambda>_ _. Inr 5), cl_reopen = (\<lambda>_. Inr (Some 5)),
     cl_store_psk = (\<lambda>g _ _. (g, Inr ())), cl_commit_psk = (\<lambda>g _ _. (g, Inr [0])), cl_hash = (\<lambda>c x. x), cl_public_key = (\<lambda>_. True),
     cl_decaps = (\<lambda>c. take 32 c), cl_sign = (\<lambda>_. Some (replicate 64 0)), cl_point = (\<lambda>_. True), cl_verify = (\<lambda>_ _ _. True) \<rparr>"

lemma length_number_key [simp]: "length (number_key e) = 32"
  by (simp add: number_key_def)

lemma toy_grows: "epochs_grow toy_mls toy_client"
  using toy_laws(1) by (simp add: epochs_grow_def) (simp add: toy_mls_def toy_client_def)

lemma toy_exports: "exports_by_epoch toy_mls toy_client number_key"
  by (simp add: exports_by_epoch_def toy_client_def toy_mls_def)

section \<open>Properties\<close>

text \<open>C8: the tag keys follow the epochs.  After any sequence of the methods of a session, whatever they were given and whether they
  succeeded or failed, it holds at most three tag keys, of rising epochs none of which is ahead of the group, each the
  key every member exports at that epoch; and when joining, inviting, confirming, naming admins, rekeying or committing a
  post-quantum secret has succeeded, a message was received and not refused, or a held commit was settled, the newest is
  the key of the epoch the group is then in.\<close>

theorem tag_keys_follow_the_epochs:
  assumes "epochs_grow m L" "exports_by_epoch m L K"
  shows "tag_window m K (client_run m L ops (session_new key)) \<and>
    (\<forall>x s'. follows_the_epoch m L x (client_run m L ops (session_new key)) \<longrightarrow>
      client_step m L x (client_run m L ops (session_new key)) = (s', True) \<longrightarrow>
      ss_tag_keys s' \<noteq> [] \<and> List.last (ss_tag_keys s') = (session_epoch m s', K (session_epoch m s')))"
proof (intro conjI allI impI)
  let ?s = "client_run m L ops (session_new key)"
  have "lawful_window m L K (session_new key)" using assms by (simp add: lawful_window_def tag_window_def session_new_def)
  then have w: "lawful_window m L K ?s" by (rule win.kept_run)
  then show "tag_window m K ?s" by (simp add: lawful_window_def)
  fix x s' assume x: "follows_the_epoch m L x ?s" "client_step m L x ?s = (s', True)"
  note c = followed_current [OF x]
  then show "ss_tag_keys s' \<noteq> []" by simp
  from win.kept_step [OF w, of x] x(2) have "tag_window m K s'" by (simp add: lawful_window_def)
  then show "List.last (ss_tag_keys s') = (session_epoch m s', K (session_epoch m s'))"
    using c last_in_set [of "ss_tag_keys s'"] by (auto simp: tag_window_def prod_eq_iff)
qed

theorem tag_keys_follow_the_epochs_witness:
  "tag_window toy_mls number_key (client_run toy_mls toy_client [Found, Rekey, Settle, Rekey] (session_new [9])) \<and>
   ss_tag_keys (client_run toy_mls toy_client [Found, Rekey, Settle, Rekey] (session_new [9])) = [(5, number_key 5), (6, number_key 6)] \<and>
   (\<exists>s'. client_step toy_mls toy_client (Receive (letter_text [0])) (client_run toy_mls toy_client [Found] (session_new [9])) = (s', True) \<and>
     List.last (ss_tag_keys s') = (6, number_key 6))"
proof (intro conjI)
  let ?run = "\<lambda>ops. client_run toy_mls toy_client ops (session_new [9])"
  note eval = client_run_def done_with_def found_def session_new_def toy_client_def session_rekey_def in_group_def rekey_after_restore_def
    opened_def toy_mls_def hold_def settle_def sync_and_say_def sync_tag_keys_def say_def session_epoch_def mailbox_tag_key_def export_key_def
    session_settle_def TAG_EPOCH_MEMORY_def Let_def
  show "tag_window toy_mls number_key (?run [Found, Rekey, Settle, Rekey])"
    using tag_keys_follow_the_epochs [OF toy_grows toy_exports] by blast
  show "ss_tag_keys (?run [Found, Rekey, Settle, Rekey]) = [(5, number_key 5), (6, number_key 6)]"
    by (simp add: eval)
  have run: "?run [Found] = (session_new [9])\<lparr>ss_conversation := Some (opened toy_mls 5 False)\<rparr>"
    by (simp add: client_run_def done_with_def found_def session_new_def toy_client_def)
  let ?cv = "(opened toy_mls 5 False)\<lparr>cv_group := 6, cv_last_applied := Some [0]\<rparr>"
  let ?s = "(session_new [9])\<lparr>ss_conversation := Some ?cv\<rparr>" and ?s' = "(session_new [9])\<lparr>ss_conversation := Some ?cv, ss_tag_keys := [(6, number_key 6)]\<rparr>"
  have received: "group_receive toy_mls (opened toy_mls 5 False) [0] = (?cv, Inr NothingToDo)"
    by (subst group_receive.simps) (simp add: toy_mls_def opened_def sync_seq_epoch_def receive_processed_def toy_process_def receive_commit_def
        added_on_one_authority_def added_by_somebody_who_may_not_def roster_def Let_def)
  have sync: "sync_tag_keys toy_mls toy_client ?s = (?s', Inr ())"
    by (simp add: sync_tag_keys_def session_epoch_def mailbox_tag_key_def export_key_def session_new_def opened_def toy_client_def toy_mls_def
        TAG_EPOCH_MEMORY_def Let_def)
  have decoded: "client_decode toy_client (letter_text [0]) = Inr [0]"
    using decode_encode [OF letter_law, of "[0]"] by (simp add: client_decode_def toy_client_def)
  obtain s' where s': "session_receive toy_mls toy_client (letter_text [0]) (?run [Found]) = (s', Inr NothingNotice)" "s' = ?s'"
    using received sync decoded by (simp add: run session_receive_def in_group_def describe_def)
  have epoch: "session_epoch toy_mls s' = 6" by (simp add: s'(2) session_epoch_def toy_mls_def)
  have step: "client_step toy_mls toy_client (Receive (letter_text [0])) (?run [Found]) = (s', True)"
    using s'(1) by (simp add: done_with_def)
  have "follows_the_epoch toy_mls toy_client (Receive (letter_text [0])) (?run [Found])" using s'(1) by simp
  then have "List.last (ss_tag_keys s') = (session_epoch toy_mls s', number_key (session_epoch toy_mls s'))"
    using tag_keys_follow_the_epochs [OF toy_grows toy_exports] step by blast
  then show "\<exists>s'. client_step toy_mls toy_client (Receive (letter_text [0])) (?run [Found]) = (s', True) \<and>
      List.last (ss_tag_keys s') = (6, number_key 6)"
    using step epoch by auto
qed

text \<open>C27: a confirmation that admits nobody is applied and lost.  When what was proposed adds nobody, confirming it merges the commit
  into this member's group and then fails: the caller gets an error and no commit to send, the commit is no longer held,
  and the newest tag key stays that of the epoch the group has left.\<close>

theorem confirm_can_lose_its_commit:
  assumes "ss_conversation s = Some cv" "confirm_additions m cv = (cv1, Inr (commit, None))" "settle m cv1 = (cv2, Inr settled)"
  shows "session_confirm m L s = (s\<lparr>ss_conversation := Some cv2\<rparr>, Inl NoWelcome) \<and>
    \<not> is_holding_a_commit (fst (session_confirm m L s)) \<and> ss_tag_keys (fst (session_confirm m L s)) = ss_tag_keys s"
proof -
  have "cv_pending cv2 = None" using assms(3) by (auto simp: settle_def Let_def split: option.splits prod.splits sum.splits)
  then show ?thesis using assms by (simp add: session_confirm_def in_group_def is_holding_a_commit_def)
qed

theorem confirm_can_lose_its_commit_witness:
  "\<exists>s'. session_confirm (toy_mls\<lparr>mls_proposals := \<lambda>_. [[1]]\<rparr>) toy_client
       ((session_new [9])\<lparr>ss_conversation := Some (opened toy_mls 5 False), ss_tag_keys := [(5, number_key 5)]\<rparr>) = (s', Inl NoWelcome) \<and>
     session_epoch toy_mls s' = 6 \<and> ss_tag_keys s' = [(5, number_key 5)]"
proof -
  let ?m = "toy_mls\<lparr>mls_proposals := \<lambda>_. [[1]]\<rparr>"
  let ?s = "(session_new [9])\<lparr>ss_conversation := Some (opened toy_mls 5 False), ss_tag_keys := [(5, number_key 5)]\<rparr>"
  have "confirm_additions ?m (opened toy_mls 5 False) = ((opened toy_mls 5 False)\<lparr>cv_pending := Some []\<rparr>, Inr ([], None))"
    by (simp add: confirm_additions_def toy_mls_def opened_def hold_made_def hold_def)
  moreover have "settle ?m ((opened toy_mls 5 False)\<lparr>cv_pending := Some []\<rparr>) =
      ((opened toy_mls 5 False)\<lparr>cv_pending := None, cv_last_applied := Some [], cv_group := 6\<rparr>, Inr True)"
    by (simp add: settle_def toy_mls_def opened_def)
  ultimately show ?thesis
    using confirm_can_lose_its_commit [of ?s "opened toy_mls 5 False" ?m _ "[]" _ True toy_client]
    by (simp add: session_epoch_def toy_mls_def session_new_def)
qed

text \<open>The limit on members is not kept by the method that adds them.  Confirming proposals succeeds however many members the group
  has and will have, as long as the library makes the commit, the welcome, the tree and the key.\<close>

theorem a_full_group_still_grows:
  assumes "ss_conversation s = Some cv" "confirm_additions m cv = (cv1, Inr (commit, Some welcome))" "settle m cv1 = (cv2, Inr settled)"
    "cl_tree L (cv_group cv2) = Inr tree" "mailbox_tag_key L (cv_group cv2) = Inr key" "MAX_MEMBERS \<le> member_count m s"
  shows "snd (session_confirm m L s) = Inr \<lparr> iv_commit = cl_b64 L commit, iv_welcome = cl_b64 L welcome, iv_ratchet_tree = cl_b64 L tree \<rparr> \<and>
    snd (session_invite m L k s) = Inl Full"
  using assms by (auto simp: session_confirm_def session_invite_def in_group_def ratchet_tree_def sync_tag_keys_def Let_def)

theorem a_full_group_still_grows_witness:
  "\<exists>x. snd (session_confirm (toy_mls\<lparr>mls_proposals := \<lambda>_. [[1]], mls_commit_pending := \<lambda>g. (g, Inr ([0], Some [2])),
        mls_members := \<lambda>_. replicate 1000 \<lparr>lm_index = 0, lm_credential = [], lm_signature_key = []\<rparr>\<rparr>) toy_client
      ((session_new [9])\<lparr>ss_conversation := Some (opened toy_mls 5 False)\<rparr>)) = Inr x"
proof -
  let ?m = "toy_mls\<lparr>mls_proposals := \<lambda>_. [[1]], mls_commit_pending := \<lambda>g. (g, Inr ([0], Some [2])),
        mls_members := \<lambda>_. replicate 1000 \<lparr>lm_index = 0, lm_credential = [], lm_signature_key = []\<rparr>\<rparr>"
  have "confirm_additions ?m (opened toy_mls 5 False) = ((opened toy_mls 5 False)\<lparr>cv_pending := Some [0]\<rparr>, Inr ([0], Some [2]))"
    by (simp add: confirm_additions_def toy_mls_def opened_def hold_made_def hold_def)
  moreover have "settle ?m ((opened toy_mls 5 False)\<lparr>cv_pending := Some [0]\<rparr>) =
      ((opened toy_mls 5 False)\<lparr>cv_pending := None, cv_last_applied := Some [0], cv_group := 6\<rparr>, Inr True)"
    by (simp add: settle_def toy_mls_def opened_def)
  moreover have "cl_tree toy_client 6 = Inr []" "mailbox_tag_key toy_client 6 = Inr (number_key 6)"
    by (simp_all add: toy_client_def mailbox_tag_key_def export_key_def)
  ultimately show ?thesis
    using a_full_group_still_grows [of "(session_new [9])\<lparr>ss_conversation := Some (opened toy_mls 5 False)\<rparr>" "opened toy_mls 5 False" ?m _ "[0]" "[2]"
        _ True toy_client "[]" "number_key 6"]
    by (simp add: member_count_def MAX_MEMBERS_def session_new_def)
qed


interpretation stg: session_keeps m L "\<lambda>s. B \<subseteq> set (ss_staged_pq s)" "\<lambda>_. True"
  for m :: "('g, 's, 'q) mls" and L :: "'g client_lib" and B :: "bytes set"
  by unfold_locales (auto simp: sync_keeps)

lemma open_group_pq_staged:
  assumes "open_group_pq m L w s = (s1, Inr u)" "ss_conversation s = Some cv"
  shows "binding_id (cl_group_id L (cv_group cv)) (mls_epoch m (cv_group cv)) \<in> set (ss_staged_pq s1)"
  using assms by (auto simp: open_group_pq_def and_then_Inr Let_def split: if_splits)


text \<open>A group whose members sign with keys of thirty-two bytes, and a wrap for it.\<close>

definition signed_mls :: "(u64, (proposer \<times> bytes) list, bytes) mls" where
  "signed_mls = toy_mls\<lparr>mls_members := \<lambda>_. [\<lparr>lm_index = 0, lm_credential = [], lm_signature_key = replicate 32 8\<rparr>]\<rparr>"

definition signed_session :: "u64 client_session" where
  "signed_session = (session_new [9])\<lparr>ss_conversation := Some (opened toy_mls 5 False)\<rparr>"

lemma client_decode_toy: "client_decode toy_client (letter_text bs) = Inr bs"
  using decode_encode [OF letter_law, of bs] by (simp add: client_decode_def toy_client_def)

lemma toy_public: "cl_public_key toy_client k" "cl_b64 toy_client = letter_text"
  by (simp_all add: toy_client_def)

lemma signed_facts:
  "mls_epoch signed_mls g = g" "cl_group_id toy_client g = [7]" "cl_store_psk toy_client g y z = (g, Inr ())"
  "cv_group (opened m g r) = g" "(opened m g r)\<lparr>cv_group := g\<rparr> = opened m g r" "ss_key (session_new k) = k"
  by (simp_all add: signed_mls_def toy_mls_def toy_client_def opened_def session_new_def)

lemma signed_accepts:
  "open_group_pq signed_mls toy_client (letter_text (replicate 1256 0)) signed_session =
     (signed_session\<lparr>ss_staged_pq := [binding_id [7] 5]\<rparr>, Inr ())"
proof -
  have parsed: "wrapped_from_bytes (replicate 1256 0) =
      Inr \<lparr> w_kem = replicate 1120 0, w_nonce = replicate 24 0, w_sealed = replicate 48 0, w_signature = replicate 64 0 \<rparr>"
    by (simp add: wrapped_from_bytes_def hybrid_ciphertext_from_bytes_def WRAPPED_SECRET_LEN_def CIPHERTEXT_LEN_def Let_def)
  have keys: "roster_keys signed_mls (opened toy_mls 5 False) = [replicate 32 8]"
    by (simp add: roster_keys_def roster_def signed_mls_def from_credential_def Let_def split: option.splits)
  have short: "short_key (replicate 32 0)" by (simp add: short_key_def)
  have unwrapped: "unwrap_from_members toy_client
      \<lparr> w_kem = replicate 1120 0, w_nonce = replicate 24 0, w_sealed = replicate 48 0, w_signature = replicate 64 0 \<rparr> [7] 5 [9] WrongSigner
      [replicate 32 8] = Inr (replicate 32 0)"
    using short by (simp add: unwrap_pq_signed_def toy_client_def unwrap_pq_def wrapping_key_def keyed_dec_def)
  show ?thesis
    using parsed keys unwrapped
    by (simp add: open_group_pq_def client_decode_toy signed_session_def in_group_def stage_pq_secret_def Let_def signed_facts)
      (simp add: session_new_def)
qed


text \<open>The other door replaces it.  The method for two members stages whatever was encapsulated to this one's published key, signed by
  nobody, under the very name the accepted secret has, and does not ask whether one is staged.\<close>

theorem other_door_replaces_the_secret:
  assumes "ss_conversation s = Some cv" "client_decode L c = Inr ct" "length ct = CIPHERTEXT_LEN"
    "binding_id (cl_group_id L (cv_group cv)) (mls_epoch m (cv_group cv)) \<in> set (ss_staged_pq s)"
    "cl_store_psk L (cv_group cv) (PSK_LABEL @ binding_id (cl_group_id L (cv_group cv)) (mls_epoch m (cv_group cv)))
       (derive_psk (cl_hash L) (cl_decaps L ct) (PSK_LABEL @ binding_id (cl_group_id L (cv_group cv)) (mls_epoch m (cv_group cv)))) = (g, Inr ())"
  shows "open_pq m L c s = (s\<lparr>ss_conversation := Some (cv\<lparr>cv_group := g\<rparr>)\<rparr>, Inr ())"
  using assms
  by (simp add: open_pq_def hybrid_ciphertext_from_bytes_def in_group_def stage_pq_secret_def psk_binding_def hybrid_psk_binding_def
      binding_id_def Let_def)

theorem other_door_replaces_the_secret_witness:
  "open_pq signed_mls toy_client (letter_text (replicate 1120 3)) (signed_session\<lparr>ss_staged_pq := [binding_id [7] 5]\<rparr>) =
     (signed_session\<lparr>ss_staged_pq := [binding_id [7] 5], ss_conversation := Some (opened toy_mls 5 False)\<rparr>, Inr ())"
proof -
  show ?thesis
    using other_door_replaces_the_secret [of "signed_session\<lparr>ss_staged_pq := [binding_id [7] 5]\<rparr>" "opened toy_mls 5 False" toy_client
        "letter_text (replicate 1120 3)" "replicate 1120 3" signed_mls 5]
    by (simp add: signed_facts client_decode_toy CIPHERTEXT_LEN_def signed_session_def)
qed

section \<open>The safety number\<close>

lemma distinct_remdups_adj_sort: "sorted xs \<Longrightarrow> distinct (remdups_adj xs)" for xs :: "'a :: linorder list"
  by (induction xs rule: remdups_adj.induct) auto

lemma length_u32: "length (u32_be x) = 4"
  by (simp add: u32_be_def)

lemma u32_be_nonempty: "u32_be x \<noteq> []"
  using length_u32 [of x] by (metis list.size(3) zero_neq_numeral)

lemma sorted_keys: "remdups_adj (sort ks) = sorted_list_of_set (set ks)" for ks :: "bytes list"
proof (rule sorted_distinct_set_unique)
  show "sorted (remdups_adj (sort ks))" by (simp add: sorted_remdups_adj)
  show "distinct (remdups_adj (sort ks))" by (simp add: distinct_remdups_adj_sort)
qed simp_all

lemma length_prefixed_inj:
  assumes "\<forall>k\<in>set ks. length k < 2 ^ 32" "\<forall>k\<in>set ls. length k < 2 ^ 32"
    and "concat (map (\<lambda>k. u32_be (word_of_nat (length k)) @ k) ks) = concat (map (\<lambda>k. u32_be (word_of_nat (length k)) @ k) ls)"
  shows "ks = ls"
  using assms
proof (induction ks arbitrary: ls)
  case Nil then show ?case by (cases ls) (auto simp: u32_be_nonempty)
next
  case (Cons k ks)
  have "ls \<noteq> []" using Cons.prems(3) by (cases ls) (simp_all add: u32_be_nonempty)
  then have ls: "ls = hd ls # tl ls" by simp
  define l ls' where "l = hd ls" and "ls' = tl ls"
  then have ls: "ls = l # ls'" using ls by simp
  let ?p = "\<lambda>k. u32_be (word_of_nat (length k))" and ?c = "\<lambda>ks. concat (map (\<lambda>k. u32_be (word_of_nat (length k)) @ k) ks)"
  have eq: "?p k @ (k @ ?c ks) = ?p l @ (l @ ?c ls')"
    using Cons.prems(3) by (simp only: ls list.map concat.simps append_assoc)
  have pl: "length (?p k) = length (?p l)" by (simp only: length_u32)
  have "of_be (?p k) = of_be (?p l)" and rest: "k @ ?c ks = l @ ?c ls'" using eq append_eq_append_conv [OF disjI1 [OF pl]] by simp_all
  moreover have "length k < 2 ^ 32" "length l < 2 ^ 32" using Cons.prems(1,2) by (simp_all add: ls)
  ultimately have "length k = length l" by (simp add: unat_of_nat)
  then have "k = l" "?c ks = ?c ls'" using rest by simp_all
  then show ?case using Cons.prems(1,2) Cons.IH [of ls'] by (simp add: ls)
qed

text \<open>C39: the safety number is of the members and of nothing else.  Two sessions whose rosters hold the same signature keys, in whatever
  order and at whatever epoch, show the same number; and what is hashed for it differs whenever the sets of keys differ.\<close>

theorem safety_number_is_of_the_members:
  assumes "ss_conversation s = Some cv" "ss_conversation s' = Some cv'" "\<forall>k\<in>set (roster_keys m cv) \<union> set (roster_keys m cv'). length k < 2 ^ 32"
  shows "(set (roster_keys m cv) = set (roster_keys m cv') \<longrightarrow> safety_number m xof s = safety_number m xof s') \<and>
    (safety_input (roster_keys m cv) = safety_input (roster_keys m cv') \<longleftrightarrow> set (roster_keys m cv) = set (roster_keys m cv'))"
proof -
  have same: "safety_input ks = safety_input ls" if "set ks = set ls" for ks ls using that by (simp add: safety_input_def sorted_keys)
  have diff: "set ks = set ls" if "safety_input ks = safety_input ls" "\<forall>k\<in>set ks \<union> set ls. length k < 2 ^ 32" for ks ls
  proof -
    have "sorted_list_of_set (set ks) = sorted_list_of_set (set ls)"
      using that by (intro length_prefixed_inj) (auto simp: safety_input_def sorted_keys)
    then show ?thesis by (metis List.finite_set set_sorted_list_of_set)
  qed
  show ?thesis
  proof (intro conjI impI iffI)
    show "safety_number m xof s = safety_number m xof s'" if "set (roster_keys m cv) = set (roster_keys m cv')"
      using same [OF that] assms(1,2) by (simp add: safety_number_def)
  qed (rule diff [OF _ assms(3)] same, assumption)+
qed


theorem safety_number_is_of_the_members_witness:
  "safety_number signed_mls (\<lambda>c x. replicate 30 1) signed_session =
     safety_number signed_mls (\<lambda>c x. replicate 30 1) (signed_session\<lparr>ss_conversation := Some (opened toy_mls 6 True)\<rparr>)"
proof -
  have keys: "roster_keys signed_mls (opened toy_mls g x) = [replicate 32 8]" for g x
    by (simp add: roster_keys_def roster_def signed_mls_def from_credential_def Let_def split: option.splits)
  show ?thesis
    using safety_number_is_of_the_members [of signed_session "opened toy_mls 5 False" "signed_session\<lparr>ss_conversation := Some (opened toy_mls 6 True)\<rparr>"
        "opened toy_mls 6 True" signed_mls "\<lambda>c x. replicate 30 1"]
    by (simp add: keys signed_session_def)
qed

end
