(* ===== verification/Client_Mail.thy ===== *)
theory Client_Mail
  imports Client_Session
begin

text \<open>
  Where a client's mail goes and how it comes in, the mailbox half of \<^verbatim>\<open>Session\<close> of \<^verbatim>\<open>rotelyx-wasm/src/lib.rs\<close>: the tags a
  member listens on, the envelopes sealed for every other member, the commit addressed to those who have not applied it,
  and the payload taken out of an envelope again.  \<open>draws\<close> are the nonces of the random source, one for each seal.
\<close>

section \<open>Tags\<close>

definition session_tag_key :: "'g client_session \<Rightarrow> (session_error, tag_key) result" where
  "session_tag_key s = (if ss_tag_keys s = [] then Inl NoTagKey else Inr (snd (List.last (ss_tag_keys s))))"

definition my_tags :: "'g client_lib \<Rightarrow> 'g client_session \<Rightarrow> u64 \<Rightarrow> u64 \<Rightarrow> (session_error, tag list) result" where
  "my_tags L s time_bucket lookback =
     (if ss_tag_keys s = [] then Inl NoTagKey
      else
        Inr (concat (map (\<lambda>(_, key). polling_tags (cl_kdf L) (for_member (cl_kdf L) key (ss_key s)) time_bucket lookback) (ss_tag_keys s))))"

definition my_tag :: "'g client_lib \<Rightarrow> 'g client_session \<Rightarrow> u64 \<Rightarrow> (session_error, str) result" where
  "my_tag L s time_bucket =
     bind_result (session_tag_key s) (\<lambda>key. Inr (hex_str (tag_for_epoch (cl_kdf L) (for_member (cl_kdf L) key (ss_key s)) time_bucket)))"

text \<open>In order and without repeats.\<close>

definition my_polling_tags :: "'g client_lib \<Rightarrow> 'g client_session \<Rightarrow> u64 \<Rightarrow> u64 \<Rightarrow> (session_error, str list) result" where
  "my_polling_tags L s time_bucket lookback =
     bind_result (my_tags L s time_bucket lookback) (\<lambda>tags. Inr (remdups_adj (sort (map hex_str tags))))"

definition other_members :: "('g, 's, 'q) mls \<Rightarrow> 'g client_session \<Rightarrow> 'g conversation \<Rightarrow> bytes list" where
  "other_members m s cv = filter (\<lambda>k. k \<noteq> ss_key s) (roster_keys m cv)"

definition tags_with :: "('g, 's, 'q) mls \<Rightarrow> 'g client_lib \<Rightarrow> 'g client_session \<Rightarrow> tag_key \<Rightarrow> u64 \<Rightarrow> (session_error, str list) result" where
  "tags_with m L s key time_bucket =
     bind_result (ok_or NoConversation (ss_conversation s)) (\<lambda>cv.
       Inr (map (\<lambda>k. hex_str (tag_for_epoch (cl_kdf L) (for_member (cl_kdf L) key k) time_bucket)) (other_members m s cv)))"

definition recipient_tags :: "('g, 's, 'q) mls \<Rightarrow> 'g client_lib \<Rightarrow> 'g client_session \<Rightarrow> u64 \<Rightarrow> (session_error, str list) result" where
  "recipient_tags m L s time_bucket = bind_result (session_tag_key s) (\<lambda>key. tags_with m L s key time_bucket)"

text \<open>The key of one epoch before the newest.\<close>

definition previous_tag_key :: "'g client_session \<Rightarrow> (session_error, tag_key) result" where
  "previous_tag_key s =
     (if length (ss_tag_keys s) < 2 then Inl NoPreviousEpoch else Inr (snd (ss_tag_keys s ! (length (ss_tag_keys s) - 2))))"

definition commit_recipient_tags :: "('g, 's, 'q) mls \<Rightarrow> 'g client_lib \<Rightarrow> 'g client_session \<Rightarrow> u64 \<Rightarrow> (session_error, str list) result" where
  "commit_recipient_tags m L s time_bucket = bind_result (previous_tag_key s) (\<lambda>key. tags_with m L s key time_bucket)"

definition tag_for :: "'g client_lib \<Rightarrow> 'g client_session \<Rightarrow> u64 \<Rightarrow> (session_error, str) result" where
  "tag_for L s time_bucket = bind_result (session_tag_key s) (\<lambda>key. Inr (hex_str (tag_for_epoch (cl_kdf L) key time_bucket)))"

definition session_polling_tags :: "'g client_lib \<Rightarrow> 'g client_session \<Rightarrow> u64 \<Rightarrow> u64 \<Rightarrow> (session_error, str list) result" where
  "session_polling_tags L s time_bucket lookback =
     bind_result (session_tag_key s) (\<lambda>key. Inr (map hex_str (polling_tags (cl_kdf L) key time_bucket lookback)))"

section \<open>Sealing\<close>

definition seal_to :: "'g client_lib \<Rightarrow> bytes option \<Rightarrow> tag_key \<Rightarrow> tag \<Rightarrow> bytes \<Rightarrow> (session_error, str) result" where
  "seal_to L draw key tag plaintext =
     bind_result (map_err EnvelopeFailed (payload_seal (cl_enc L) draw (derive_payload_key (cl_kdf L) key) (Some tag) plaintext)) (\<lambda>payload.
     bind_result (map_err EnvelopeFailed (envelope_seal tag payload)) (\<lambda>e. Inr (cl_b64 L (envelope_to_bytes e))))"

definition session_seal :: "'g client_lib \<Rightarrow> bytes option \<Rightarrow> 'g client_session \<Rightarrow> str \<Rightarrow> u64 \<Rightarrow> (session_error, str) result" where
  "session_seal L draw s ciphertext_b64 time_bucket =
     bind_result (session_tag_key s) (\<lambda>key.
     bind_result (client_decode L ciphertext_b64) (\<lambda>bs. seal_to L draw key (tag_for_epoch (cl_kdf L) key time_bucket) bs))"

fun seal_each :: "'g client_lib \<Rightarrow> tag_key \<Rightarrow> u64 \<Rightarrow> bytes \<Rightarrow> bytes option list \<Rightarrow> bytes list \<Rightarrow> (session_error, str list) result" where
  "seal_each L key time_bucket plaintext draws [] = Inr []"
| "seal_each L key time_bucket plaintext draws (k # ks) =
     bind_result (seal_to L (hd draws) key (tag_for_epoch (cl_kdf L) (for_member (cl_kdf L) key k) time_bucket) plaintext) (\<lambda>e.
     bind_result (seal_each L key time_bucket plaintext (tl draws) ks) (\<lambda>es. Inr (e # es)))"

definition seal_with ::
  "('g, 's, 'q) mls \<Rightarrow> 'g client_lib \<Rightarrow> bytes option list \<Rightarrow> 'g client_session \<Rightarrow> tag_key \<Rightarrow> str \<Rightarrow> u64 \<Rightarrow> (session_error, str list) result" where
  "seal_with m L draws s key payload_b64 time_bucket =
     bind_result (ok_or NoConversation (ss_conversation s)) (\<lambda>cv.
     bind_result (client_decode L payload_b64) (\<lambda>plaintext. seal_each L key time_bucket plaintext draws (other_members m s cv)))"

definition seal_for_group ::
  "('g, 's, 'q) mls \<Rightarrow> 'g client_lib \<Rightarrow> bytes option list \<Rightarrow> 'g client_session \<Rightarrow> str \<Rightarrow> u64 \<Rightarrow> (session_error, str list) result" where
  "seal_for_group m L draws s ciphertext_b64 time_bucket =
     bind_result (ok_or NoConversation (ss_conversation s)) (\<lambda>_.
     bind_result (session_tag_key s) (\<lambda>key. seal_with m L draws s key ciphertext_b64 time_bucket))"

text \<open>A commit that is held has moved nobody; one that was applied left the others an epoch behind.\<close>

definition seal_commit_for_group ::
  "('g, 's, 'q) mls \<Rightarrow> 'g client_lib \<Rightarrow> bytes option list \<Rightarrow> 'g client_session \<Rightarrow> str \<Rightarrow> u64 \<Rightarrow> (session_error, str list) result" where
  "seal_commit_for_group m L draws s commit_b64 time_bucket =
     bind_result
       (if is_holding_a_commit s then (if ss_tag_keys s = [] then Inl NoConversation else Inr (snd (List.last (ss_tag_keys s))))
        else previous_tag_key s)
       (\<lambda>key. seal_with m L draws s key commit_b64 time_bucket)"

definition padded_payload :: "'g client_lib \<Rightarrow> bytes option \<Rightarrow> 'g client_session \<Rightarrow> str \<Rightarrow> (session_error, str) result" where
  "padded_payload L draw s ciphertext_b64 =
     bind_result (session_tag_key s) (\<lambda>key.
     bind_result (client_decode L ciphertext_b64) (\<lambda>bs.
     bind_result (map_err EnvelopeFailed (payload_seal (cl_enc L) draw (derive_payload_key (cl_kdf L) key) None bs)) (\<lambda>sealed.
     bind_result (map_err EnvelopeFailed (tag_from_bytes (replicate 32 0))) (\<lambda>tag.
     bind_result (map_err EnvelopeFailed (envelope_seal tag sealed)) (\<lambda>e. Inr (cl_b64 L (e_payload e)))))))"

section \<open>Opening\<close>

text \<open>The keys are tried from the newest, each bound to the tag and then to none.\<close>

fun open_newest :: "'g client_lib \<Rightarrow> tag \<Rightarrow> bytes \<Rightarrow> tag_key list \<Rightarrow> (session_error, str) result" where
  "open_newest L tag sealed [] = Inl NotOpened"
| "open_newest L tag sealed (key # keys) =
     (let pk = derive_payload_key (cl_kdf L) key
      in case payload_open (cl_dec L) pk (Some tag) sealed of
           Inr body \<Rightarrow> Inr (cl_b64 L body)
         | Inl _ \<Rightarrow>
             (case payload_open (cl_dec L) pk None sealed of
                Inr body \<Rightarrow> Inr (cl_b64 L body)
              | Inl _ \<Rightarrow> open_newest L tag sealed keys))"

definition open_mine :: "'g client_lib \<Rightarrow> 'g client_session \<Rightarrow> str \<Rightarrow> u64 \<Rightarrow> u64 \<Rightarrow> (session_error, str) result" where
  "open_mine L s envelope_b64 time_bucket lookback =
     bind_result (client_decode L envelope_b64) (\<lambda>bs.
     bind_result (map_err EnvelopeFailed (envelope_from_bytes bs)) (\<lambda>e.
     bind_result (my_tags L s time_bucket lookback) (\<lambda>tags.
       if e_tag e \<notin> set tags then Inl ForeignTag
       else open_newest L (e_tag e) (e_payload e) (rev (map snd (ss_tag_keys s))))))"

definition session_open :: "'g client_lib \<Rightarrow> 'g client_session \<Rightarrow> str \<Rightarrow> u64 \<Rightarrow> u64 \<Rightarrow> (session_error, str) result" where
  "session_open L s envelope_b64 time_bucket lookback =
     bind_result (client_decode L envelope_b64) (\<lambda>bs.
     bind_result (map_err EnvelopeFailed (envelope_from_bytes bs)) (\<lambda>e.
     bind_result (session_tag_key s) (\<lambda>key.
       if e_tag e \<notin> set (polling_tags (cl_kdf L) key time_bucket lookback) then Inl ForeignTag
       else open_newest L (e_tag e) (e_payload e) (rev (map snd (ss_tag_keys s))))))"

section \<open>A sealed envelope opens under any list of keys that holds its own\<close>

definition client_laws :: "'g client_lib \<Rightarrow> bool" where
  "client_laws L \<longleftrightarrow> aead_opens (cl_enc L) (cl_dec L) \<and> aead_grows (cl_enc L) \<and> aead_keyed (cl_enc L) (cl_dec L) \<and>
     base64_law (cl_unb64 L) (cl_b64 L) \<and> (\<forall>c x. length (cl_kdf L c x) = 32)"

definition nonces :: "nat \<Rightarrow> bytes option list \<Rightarrow> bool" where
  "nonces n draws \<longleftrightarrow> n \<le> length draws \<and> (\<forall>d\<in>set draws. \<exists>x. d = Some x \<and> length x = ENVELOPE_NONCE_LEN)"

lemma client_decode_b64: "client_laws L \<Longrightarrow> client_decode L (cl_b64 L bs) = Inr bs"
  by (simp add: client_decode_def client_laws_def decode_encode)

lemma other_key_fails:
  assumes "aead_keyed enc dec" "payload_seal enc (Some nonce) key bound plaintext = Inr out" "key' \<noteq> key" "length nonce = ENVELOPE_NONCE_LEN"
  shows "\<exists>e. payload_open dec key' bound' (out @ replicate n 0) = Inl e"
proof -
  obtain c where c: "enc key nonce (payload_aad bound) plaintext = Some c" "out = (PAYLOAD_VERSION # nonce @ c) @ [PADDING_TERMINATOR]"
    using assms(2) by (auto elim: payload_seal_Inr)
  have "dec key' x y c = None" for x y by (rule aead_keyedD [OF assms(1) c(1) assms(3)])
  then show ?thesis using payload_open_padded [of dec key' bound' "nonce @ c" n] c(2) assms(4) by auto
qed

lemma open_newest_finds:
  assumes "client_laws L" "payload_seal (cl_enc L) (Some nonce) (derive_payload_key (cl_kdf L) key) (Some tag) plaintext = Inr out"
    "length nonce = ENVELOPE_NONCE_LEN" "plaintext \<noteq> []" "key \<in> set keys"
  shows "open_newest L tag (out @ replicate n 0) keys = Inr (cl_b64 L plaintext)"
  using assms(5)
proof (induction keys)
  case (Cons k keys)
  let ?pk = "derive_payload_key (cl_kdf L) k"
  show ?case
  proof (cases "?pk = derive_payload_key (cl_kdf L) key")
    case True
    then show ?thesis
      using payload_roundtrip [OF _ _ assms(3,2)] assms(1,4) by (simp add: client_laws_def Let_def)
  next
    case False
    have "\<exists>e. payload_open (cl_dec L) ?pk b (out @ replicate n 0) = Inl e" for b
      using other_key_fails [OF _ assms(2) False assms(3)] assms(1) by (simp add: client_laws_def)
    then obtain e e' where "payload_open (cl_dec L) ?pk (Some tag) (out @ replicate n 0) = Inl e"
      "payload_open (cl_dec L) ?pk None (out @ replicate n 0) = Inl e'" by metis
    then show ?thesis using Cons False by (auto simp: Let_def)
  qed
qed simp

lemma seal_to_opens:
  assumes "client_laws L" "seal_to L draw key tag plaintext = Inr t" "draw = Some nonce" "length nonce = ENVELOPE_NONCE_LEN"
    "plaintext \<noteq> []" "length tag = 32"
  obtains e where "client_decode L t = Inr (envelope_to_bytes e)" "envelope_from_bytes (envelope_to_bytes e) = Inr e" "e_tag e = tag"
    "\<And>keys. key \<in> set keys \<Longrightarrow> open_newest L tag (e_payload e) keys = Inr (cl_b64 L plaintext)"
proof -
  obtain out e where out: "payload_seal (cl_enc L) (Some nonce) (derive_payload_key (cl_kdf L) key) (Some tag) plaintext = Inr out"
    and e: "envelope_seal tag out = Inr e" and t: "t = cl_b64 L (envelope_to_bytes e)"
    using assms(2,3) by (auto simp: seal_to_def result_simps)
  obtain b where b: "bucket_for_len (length out) = Inr b" and es: "e = \<lparr> e_tag = tag, e_payload = out @ replicate (b - length out) 0 \<rparr>"
    using e by (rule envelope_seal_Inr)
  have "envelope_from_bytes (envelope_to_bytes e) = Inr e"
    using b bucket_for_len_Inr [OF b] assms(6) by (intro envelope_bytes_roundtrip) (simp_all add: es)
  moreover have "open_newest L tag (e_payload e) keys = Inr (cl_b64 L plaintext)" if "key \<in> set keys" for keys
    using open_newest_finds [OF assms(1) out assms(4,5) that] by (simp add: es)
  ultimately show thesis using that client_decode_b64 [OF assms(1)] t es by simp
qed

lemma seal_each_member:
  assumes "seal_each L key time_bucket plaintext draws ks = Inr ts" "k \<in> set ks"
    "nonces (length ks) draws"
  shows "\<exists>t\<in>set ts. \<exists>nonce. length nonce = ENVELOPE_NONCE_LEN \<and>
    seal_to L (Some nonce) key (tag_for_epoch (cl_kdf L) (for_member (cl_kdf L) key k) time_bucket) plaintext = Inr t"
  using assms
proof (induction ks arbitrary: draws ts)
  case (Cons x ks)
  obtain d ds where ds: "draws = d # ds" using Cons.prems(3) by (cases draws) (auto simp: nonces_def)
  obtain t ts' where ts: "ts = t # ts'" "seal_each L key time_bucket plaintext ds ks = Inr ts'"
    "seal_to L d key (tag_for_epoch (cl_kdf L) (for_member (cl_kdf L) key x) time_bucket) plaintext = Inr t"
    using Cons.prems(1) by (auto simp: ds result_simps)
  show ?case
  proof (cases "k = x")
    case True then show ?thesis using ts(1,3) Cons.prems(3) by (auto simp: ds nonces_def)
  next
    case False
    then have "k \<in> set ks" "nonces (length ks) ds" using Cons.prems(2,3) by (auto simp: ds nonces_def)
    from Cons.IH [OF ts(2) this] show ?thesis by (auto simp: ts(1))
  qed
qed simp

text \<open>What is sealed for the members under a key is opened by every one of them that holds the key.\<close>

lemma sealed_for_member_opens:
  assumes "client_laws L" "seal_with m L draws s key payload_b64 t = Inr ts" "client_decode L payload_b64 = Inr plaintext" "plaintext \<noteq> []"
    "ss_conversation s = Some cv" "ss_key r \<in> set (roster_keys m cv)" "ss_key r \<noteq> ss_key s" "nonces (length (other_members m s cv)) draws"
    "key \<in> snd ` set (ss_tag_keys r)" "t \<le> now" "unat now - unat t \<le> unat lookback"
  shows "\<exists>env\<in>set ts. open_mine L r env now lookback = Inr (cl_b64 L plaintext)"
proof -
  have each: "seal_each L key t plaintext draws (other_members m s cv) = Inr ts" using assms(2,3,5) by (simp add: seal_with_def)
  have mem: "ss_key r \<in> set (other_members m s cv)" using assms(6,7) by (simp add: other_members_def)
  let ?tag = "tag_for_epoch (cl_kdf L) (for_member (cl_kdf L) key (ss_key r)) t"
  obtain env nonce where env: "env \<in> set ts" "length nonce = ENVELOPE_NONCE_LEN" "seal_to L (Some nonce) key ?tag plaintext = Inr env"
    using seal_each_member [OF each mem assms(8)] by blast
  have "length ?tag = 32" using assms(1) by (simp add: client_laws_def tag_for_epoch_def)
  from seal_to_opens [OF assms(1) env(3) refl env(2) assms(4) this] obtain e where
    e: "client_decode L env = Inr (envelope_to_bytes e)" "envelope_from_bytes (envelope_to_bytes e) = Inr e" "e_tag e = ?tag"
    "\<And>keys. key \<in> set keys \<Longrightarrow> open_newest L ?tag (e_payload e) keys = Inr (cl_b64 L plaintext)" by blast
  obtain x where x: "x \<in> set (ss_tag_keys r)" "key = snd x" using assms(9) by blast
  have "?tag \<in> set (polling_tags (cl_kdf L) (for_member (cl_kdf L) key (ss_key r)) now lookback)"
    by (rule polling_covers [OF assms(10,11)])
  then have "\<exists>tags. my_tags L r now lookback = Inr tags \<and> ?tag \<in> set tags"
    using x by (auto simp: my_tags_def split_beta)
  then have "open_mine L r env now lookback = Inr (cl_b64 L plaintext)"
    using e x by (auto simp: open_mine_def)
  then show ?thesis using env(1) by blast
qed

text \<open>When the epoch has moved, the key that was the newest is the one before the newest.\<close>

lemma sync_moved:
  assumes "sync_tag_keys m L s = (x, Inr u)" "ss_conversation s = Some cv" "ss_tag_keys s = ks @ [(e, key)]" "e \<noteq> mls_epoch m (cv_group cv)"
  shows "ss_conversation x = Some cv" "\<exists>ks' k'. ss_tag_keys x = ks' @ [(e, key), (mls_epoch m (cv_group cv), k')]"
proof -
  obtain k' where k': "x = s\<lparr>ss_tag_keys := (if TAG_EPOCH_MEMORY < Suc (Suc (length ks)) then tl (ks @ [(e, key), (mls_epoch m (cv_group cv), k')])
      else ks @ [(e, key), (mls_epoch m (cv_group cv), k')])\<rparr>"
    using assms by (auto simp: sync_tag_keys_def session_epoch_def Let_def split: sum.splits)
  then show "ss_conversation x = Some cv" using assms(2) by simp
  show "\<exists>ks' k'. ss_tag_keys x = ks' @ [(e, key), (mls_epoch m (cv_group cv), k')]"
    using k' by (cases ks) (auto simp: TAG_EPOCH_MEMORY_def)
qed

section \<open>Properties\<close>

text \<open>C24: what is sealed for the group is opened by everybody in it.  Of the envelopes a member makes of one message at an hour, one
  opens for every other member of the roster that still holds the sender's key among the keys of its last three epochs,
  whichever came after it, and that asks for a window of hours reaching back to that hour; it gives the message.\<close>

theorem group_mail_is_opened:
  assumes "client_laws L" "seal_for_group m L draws s payload_b64 t = Inr ts" "client_decode L payload_b64 = Inr plaintext" "plaintext \<noteq> []"
    "ss_conversation s = Some cv" "ss_key r \<in> set (roster_keys m cv)" "ss_key r \<noteq> ss_key s" "nonces (length (other_members m s cv)) draws"
    "List.last (ss_tag_keys s) \<in> set (ss_tag_keys r)" "t \<le> now" "unat now - unat t \<le> unat lookback"
  shows "\<exists>env\<in>set ts. open_mine L r env now lookback = Inr (cl_b64 L plaintext)"
proof -
  have "seal_with m L draws s (snd (List.last (ss_tag_keys s))) payload_b64 t = Inr ts"
    using assms(2) by (auto simp: seal_for_group_def session_tag_key_def result_simps split: if_splits)
  then show ?thesis by (rule sealed_for_member_opens [OF assms(1) _ assms(3-8) _ assms(10,11)]) (use assms(9) in simp)
qed

text \<open>C7: a commit goes to those it will move, before and after it is applied.  A session whose newest key is that of its epoch and
  that holds a commit seals it for the others under that key; when it has settled the commit, and stands one epoch
  further, it seals it under the same key still; and every other member of its roster that holds that key, as those do who
  have not applied the commit, opens what is sealed for it.\<close>

theorem commit_reaches_those_it_moves:
  assumes "client_laws L" "ss_conversation s = Some cv" "cv_pending cv = Some c" "ss_tag_keys s = ks @ [(mls_epoch m (cv_group cv), key)]"
    "x = s \<or> session_settle m L s = (x, Inr True) \<and> mls_epoch m (cv_group (fst (settle m cv))) \<noteq> mls_epoch m (cv_group cv)"
    "seal_commit_for_group m L draws x commit_b64 t = Inr ts" "client_decode L commit_b64 = Inr plaintext" "plaintext \<noteq> []"
    "ss_conversation x = Some cvx" "ss_key r \<in> set (roster_keys m cvx)" "ss_key r \<noteq> ss_key x" "nonces (length (other_members m x cvx)) draws"
    "(mls_epoch m (cv_group cv), key) \<in> set (ss_tag_keys r)" "t \<le> now" "unat now - unat t \<le> unat lookback"
  shows "\<exists>env\<in>set ts. open_mine L r env now lookback = Inr (cl_b64 L plaintext)"
proof -
  have "seal_with m L draws x key commit_b64 t = Inr ts"
    using assms(5)
  proof
    assume "x = s"
    then show ?thesis using assms(2-4,6) by (simp add: seal_commit_for_group_def is_holding_a_commit_def)
  next
    assume x: "session_settle m L s = (x, Inr True) \<and> mls_epoch m (cv_group (fst (settle m cv))) \<noteq> mls_epoch m (cv_group cv)"
    obtain cv' settled where cv': "settle m cv = (cv', Inr settled)" "settled"
      and sync: "sync_tag_keys m L (s\<lparr>ss_conversation := Some cv'\<rparr>) = (x, Inr ())"
      using x assms(2) by (cases "settle m cv") (auto simp: session_settle_def and_then_Inr in_group_def result_simps split: if_splits)
    have "cv_pending cv' = None" using cv'(1) by (auto simp: settle_def Let_def split: option.splits prod.splits sum.splits)
    moreover have "ss_conversation x = Some cv'" "\<exists>ks' k'. ss_tag_keys x = ks' @ [(mls_epoch m (cv_group cv), key), (mls_epoch m (cv_group cv'), k')]"
      using sync_moved [OF sync, of cv' ks "mls_epoch m (cv_group cv)" key] x assms(4) cv'(1) by auto
    ultimately have "previous_tag_key x = Inr key" "\<not> is_holding_a_commit x"
      by (auto simp: previous_tag_key_def is_holding_a_commit_def nth_append)
    then show ?thesis using assms(6) by (simp add: seal_commit_for_group_def)
  qed
  then show ?thesis
    by (rule sealed_for_member_opens [OF assms(1) _ assms(7-12) _ assms(14,15)]) (use assms(13) in force)
qed


text \<open>A library for the instances: two sessions of one group, at the same epoch and one behind.\<close>

lemma toy_client_laws: "client_laws toy_client"
  using keyed_aead letter_law by (simp add: client_laws_def toy_client_def)

lemma toy_seal_to: "\<exists>t. seal_to toy_client (Some (replicate 24 1)) k tag [9] = Inr t"
proof -
  have "short_key (derive_payload_key (cl_kdf toy_client) k)"
    by (simp add: derive_payload_key_def toy_client_def short_key_def) (simp add: number_key_def)
  then obtain out where out: "payload_seal (cl_enc toy_client) (Some (replicate 24 1)) (derive_payload_key (cl_kdf toy_client) k) (Some tag) [9] = Inr out"
    "length out = 43"
    by (simp add: toy_client_def payload_seal_def keyed_enc_def short_key_def)
  moreover obtain e where "envelope_seal tag out = Inr e"
    using bucket_for_len_ok [of "length out"] out(2) by (auto simp: envelope_seal_def BUCKET_MAX_def)
  ultimately show ?thesis by (simp add: seal_to_def)
qed

lemma toy_facts: "mls_epoch toy_mls g = g" "cl_export toy_client g l = Inr (number_key g)" "cl_reopen toy_client i = Inr (Some 5)"
  by (simp_all add: toy_mls_def toy_client_def)

definition sender_at :: "u64 \<Rightarrow> u64 client_session" where
  "sender_at e = (session_new [10])\<lparr>ss_conversation := Some (opened toy_mls e False), ss_tag_keys := [(e, number_key e)]\<rparr>"

lemma toy_roster: "roster_keys toy_mls cv = [[10], [11], [12]]"
  by (simp add: roster_keys_def roster_def toy_mls_def from_credential_def Let_def split: option.splits)

lemma toy_others: "ss_key s = [10] \<Longrightarrow> other_members toy_mls s cv = [[11], [12]]"
  by (simp add: other_members_def toy_roster)

lemma toy_nonces: "nonces (Suc (Suc 0)) [Some (replicate 24 1), Some (replicate 24 1)]"
  by (simp add: nonces_def ENVELOPE_NONCE_LEN_def)

lemma toy_seal_with:
  assumes "ss_key s = [10]" "ss_conversation s = Some cv"
  shows "\<exists>ts. seal_with toy_mls toy_client [Some (replicate 24 1), Some (replicate 24 1)] s k (letter_text [9]) t = Inr ts"
proof -
  obtain x y where "seal_to toy_client (Some (replicate 24 1)) k (tag_for_epoch (cl_kdf toy_client) (for_member (cl_kdf toy_client) k [11]) t) [9] = Inr x"
    "seal_to toy_client (Some (replicate 24 1)) k (tag_for_epoch (cl_kdf toy_client) (for_member (cl_kdf toy_client) k [12]) t) [9] = Inr y"
    using toy_seal_to by blast
  then show ?thesis using assms by (simp add: seal_with_def client_decode_toy toy_others)
qed

theorem group_mail_is_opened_witness:
  "\<exists>ts env. seal_for_group toy_mls toy_client [Some (replicate 24 1), Some (replicate 24 1)] (sender_at 5) (letter_text [9]) 100 = Inr ts \<and>
     env \<in> set ts \<and>
     open_mine toy_client ((session_new [11])\<lparr>ss_tag_keys := [(5, number_key 5), (6, number_key 6)]\<rparr>) env 101 1 = Inr (letter_text [9])"
proof -
  obtain ts where ts: "seal_for_group toy_mls toy_client [Some (replicate 24 1), Some (replicate 24 1)] (sender_at 5) (letter_text [9]) 100 = Inr ts"
    using toy_seal_with [of "sender_at 5" "opened toy_mls 5 False" "number_key 5" 100]
    by (auto simp: seal_for_group_def sender_at_def session_new_def session_tag_key_def)
  show ?thesis
    using group_mail_is_opened [OF toy_client_laws ts, of "[9]" "opened toy_mls 5 False" "(session_new [11])\<lparr>ss_tag_keys := [(5, number_key 5), (6, number_key 6)]\<rparr>" 101 1]
      ts toy_nonces
    by (simp add: client_decode_toy sender_at_def session_new_def toy_roster toy_others toy_public) blast
qed

theorem commit_reaches_those_it_moves_witness:
  "\<exists>x ts env. session_settle toy_mls toy_client ((sender_at 5)\<lparr>ss_conversation := Some ((opened toy_mls 5 False)\<lparr>cv_pending := Some [0]\<rparr>)\<rparr>) = (x, Inr True) \<and>
     seal_commit_for_group toy_mls toy_client [Some (replicate 24 1), Some (replicate 24 1)] x (letter_text [9]) 100 = Inr ts \<and>
     env \<in> set ts \<and> open_mine toy_client ((session_new [11])\<lparr>ss_tag_keys := [(5, number_key 5)]\<rparr>) env 100 0 = Inr (letter_text [9])"
proof -
  let ?cv = "(opened toy_mls 5 False)\<lparr>cv_pending := Some [0]\<rparr>"
  let ?s = "(sender_at 5)\<lparr>ss_conversation := Some ?cv\<rparr>"
  let ?cv' = "(opened toy_mls 5 False)\<lparr>cv_group := 6, cv_last_applied := Some [0]\<rparr>"
  let ?x = "(sender_at 5)\<lparr>ss_conversation := Some ?cv', ss_tag_keys := [(5, number_key 5), (6, number_key 6)]\<rparr>"
  have settle: "settle toy_mls ?cv = (?cv', Inr True)" by (simp add: settle_def toy_mls_def opened_def)
  have x: "session_settle toy_mls toy_client ?s = (?x, Inr True)"
    using settle
    by (simp add: session_settle_def in_group_def sender_at_def sync_tag_keys_def session_epoch_def mailbox_tag_key_def export_key_def
        TAG_EPOCH_MEMORY_def toy_facts)
  obtain ts where ts: "seal_commit_for_group toy_mls toy_client [Some (replicate 24 1), Some (replicate 24 1)] ?x (letter_text [9]) 100 = Inr ts"
    using toy_seal_with [of ?x ?cv' "number_key 5" 100]
    by (auto simp: seal_commit_for_group_def is_holding_a_commit_def previous_tag_key_def opened_def sender_at_def session_new_def)
  have "\<exists>env\<in>set ts. open_mine toy_client ((session_new [11])\<lparr>ss_tag_keys := [(5, number_key 5)]\<rparr>) env 100 0 = Inr (cl_b64 toy_client [9])"
  proof (rule commit_reaches_those_it_moves [OF toy_client_laws _ _ _ _ ts, where s = ?s and ks = "[]"])
    show "?x = ?s \<or> session_settle toy_mls toy_client ?s = (?x, Inr True) \<and>
        mls_epoch toy_mls (cv_group (fst (settle toy_mls ?cv))) \<noteq> mls_epoch toy_mls (cv_group ?cv)"
      using x settle by (simp add: toy_mls_def opened_def)
    show "nonces (length (other_members toy_mls ?x ?cv')) [Some (replicate 24 1), Some (replicate 24 1)]"
      using toy_nonces toy_others [of ?x ?cv'] by (simp add: sender_at_def session_new_def)
  qed (simp_all add: client_decode_toy sender_at_def session_new_def toy_roster toy_facts signed_facts)
  then show ?thesis using x ts by (auto simp: toy_public)
qed

text \<open>C26: the way in for two members does not look back.  An envelope one sealed before its last epoch change is refused by
  \<^verbatim>\<open>open\<close> of the other as addressed to somebody else, because only the tags of the newest key are accepted, although
  the keys tried after that check hold the one it was sealed under and open it.\<close>

theorem mail_of_the_previous_epoch_is_refused:
  assumes "client_laws L" "session_seal L (Some nonce) s payload_b64 t = Inr env" "length nonce = ENVELOPE_NONCE_LEN"
    "client_decode L payload_b64 = Inr plaintext" "plaintext \<noteq> []" "ss_tag_keys s \<noteq> []" "List.last (ss_tag_keys s) \<in> set (ss_tag_keys r)"
    "tag_for_epoch (cl_kdf L) (snd (List.last (ss_tag_keys s))) t \<notin> set (polling_tags (cl_kdf L) (snd (List.last (ss_tag_keys r))) now lookback)"
  shows "session_open L r env now lookback = Inl ForeignTag \<and>
    (\<exists>e. client_decode L env = Inr (envelope_to_bytes e) \<and>
      open_newest L (e_tag e) (e_payload e) (rev (map snd (ss_tag_keys r))) = Inr (cl_b64 L plaintext))"
proof -
  let ?key = "snd (List.last (ss_tag_keys s))"
  have sealed: "seal_to L (Some nonce) ?key (tag_for_epoch (cl_kdf L) ?key t) plaintext = Inr env"
    using assms(2,4,6) by (simp add: session_seal_def session_tag_key_def)
  have "length (tag_for_epoch (cl_kdf L) ?key t) = 32" using assms(1) by (simp add: client_laws_def tag_for_epoch_def)
  from seal_to_opens [OF assms(1) sealed refl assms(3,5) this] obtain e where
    e: "client_decode L env = Inr (envelope_to_bytes e)" "envelope_from_bytes (envelope_to_bytes e) = Inr e" "e_tag e = tag_for_epoch (cl_kdf L) ?key t"
    "\<And>keys. ?key \<in> set keys \<Longrightarrow> open_newest L (tag_for_epoch (cl_kdf L) ?key t) (e_payload e) keys = Inr (cl_b64 L plaintext)" by blast
  have "ss_tag_keys r \<noteq> []" using assms(7) by auto
  then have "session_open L r env now lookback = Inl ForeignTag"
    using e(1-3) assms(8) by (simp add: session_open_def session_tag_key_def)
  moreover have "open_newest L (e_tag e) (e_payload e) (rev (map snd (ss_tag_keys r))) = Inr (cl_b64 L plaintext)"
    using e(4) assms(7) by (simp add: e(3))
  ultimately show ?thesis using e(1) by blast
qed

theorem mail_of_the_previous_epoch_is_refused_witness:
  "\<exists>env. session_seal toy_client (Some (replicate 24 1)) (sender_at 5) (letter_text [9]) 100 = Inr env \<and>
     session_open toy_client ((session_new [11])\<lparr>ss_tag_keys := [(5, number_key 5), (6, number_key 6)]\<rparr>) env 100 0 = Inl ForeignTag"
proof -
  obtain env where env: "session_seal toy_client (Some (replicate 24 1)) (sender_at 5) (letter_text [9]) 100 = Inr env"
    using toy_seal_to by (auto simp: session_seal_def session_tag_key_def sender_at_def client_decode_toy)
  have tags: "tag_for_epoch (cl_kdf toy_client) (number_key e) 100 = number_key (e + 100)" if "e = 5 \<or> e = 6" for e
    using that by (auto simp: tag_for_epoch_def toy_client_def number_key_def u64_be_eval sum_list_replicate)
  have "number_key 105 \<noteq> number_key 106" by (simp add: number_key_def)
  then show ?thesis
    using mail_of_the_previous_epoch_is_refused [OF toy_client_laws env, of "[9]" "(session_new [11])\<lparr>ss_tag_keys := [(5, number_key 5), (6, number_key 6)]\<rparr>" 100 0]
      env tags [of 5] tags [of 6]
    by (simp add: ENVELOPE_NONCE_LEN_def client_decode_toy sender_at_def polling_tags_def checked_sub_def List.map_filter_def)
qed

text \<open>A restart sends a held commit astray.  A session that is written down while it holds a commit and read back has forgotten
  that it holds one: settling it does nothing, and sealing the commit again addresses the epoch before the one the
  others are at, where the session that was written down addressed their own.\<close>

theorem restart_sends_a_held_commit_astray:
  assumes "ss_conversation s = Some cv" "cv_pending cv = Some c" "ss_tag_keys s = ks @ [(e0, key0), (e, key)]"
    "cl_reopen L (cl_group_id L (cv_group cv)) = Inr (Some g)"
  shows "\<exists>s'. session_read m L (ss_key s) (session_write L s) = Inr s' \<and> \<not> is_holding_a_commit s' \<and>
    session_settle m L s' = (s', Inr False) \<and>
    seal_commit_for_group m L draws s' b t = seal_with m L draws s' key0 b t \<and>
    seal_commit_for_group m L draws s b t = seal_with m L draws s key b t"
proof -
  have none: "cv_pending (opened m g True) = None" by (simp add: opened_def)
  then have "settle m (opened m g True) = (opened m g True, Inr False)" by (simp add: settle_def)
  then show ?thesis using assms none
    by (simp add: session_read_def session_write_def group_reopen_def is_holding_a_commit_def session_settle_def in_group_def
        seal_commit_for_group_def previous_tag_key_def nth_append)
qed

theorem restart_sends_a_held_commit_astray_witness:
  "\<exists>s'. session_read toy_mls toy_client [10] (session_write toy_client ((sender_at 5)\<lparr>ss_conversation := Some ((opened toy_mls 5 False)\<lparr>cv_pending := Some [0]\<rparr>),
       ss_tag_keys := [(4, number_key 4), (5, number_key 5)]\<rparr>)) = Inr s' \<and> \<not> is_holding_a_commit s'"
  using restart_sends_a_held_commit_astray [of "(sender_at 5)\<lparr>ss_conversation := Some ((opened toy_mls 5 False)\<lparr>cv_pending := Some [0]\<rparr>),
       ss_tag_keys := [(4, number_key 4), (5, number_key 5)]\<rparr>" "(opened toy_mls 5 False)\<lparr>cv_pending := Some [0]\<rparr>" "[0]" "[]" 4 "number_key 4" 5
       "number_key 5" toy_client 5 toy_mls "[]" "[]" 0]
  by (auto simp: sender_at_def session_new_def toy_facts)


end
