(* ===== verification/Session_Keys.thy ===== *)
theory Session_Keys
  imports Client_Session
begin

text \<open>
  How a client's client_session is kept between two runs, \<^verbatim>\<open>SessionKey\<close>, \<^verbatim>\<open>seal_bytes\<close> and \<^verbatim>\<open>open_bytes\<close> of
  \<^verbatim>\<open>rotelyx-wasm/src/lib.rs\<close>: a key derived from a passphrase or taken from the platform, and blobs sealed under it whose
  header carries the salt.  Argon2id is the function \<open>stretch\<close>, \<^term>\<open>None\<close> where it fails; \<open>draw\<close> is the random source.
\<close>

datatype key_error =
    ShortPassphrase
  | NoEntropyLeft
  | NotAPlatformKey
  | BlobUndecodable
  | BlobTooShort
  | NotASession
  | WrongVersion u8
  | StretchFailed
  | SealFailed
  | WrongKeyOrAltered

record session_key =
  sk_bytes :: bytes
  sk_blob_salt :: bytes

definition SESSION_MAGIC :: bytes where "SESSION_MAGIC = ascii ''ROTELYXS''"
definition SESSION_VERSION :: u8 where "SESSION_VERSION = 1"
definition SESSION_HEADER_LEN :: nat where "SESSION_HEADER_LEN = 8 + 1 + 16 + 24"

definition key_create :: "(bytes \<Rightarrow> bytes \<Rightarrow> bytes option) \<Rightarrow> bytes option \<Rightarrow> str \<Rightarrow> (key_error, session_key) result" where
  "key_create stretch draw passphrase =
     (if length (as_bytes passphrase) < 8 then Inl ShortPassphrase
      else
        bind_result (ok_or NoEntropyLeft draw) (\<lambda>salt.
        bind_result (ok_or StretchFailed (stretch (as_bytes passphrase) salt)) (\<lambda>key.
          Inr \<lparr> sk_bytes = key, sk_blob_salt = salt \<rparr>)))"

definition from_platform_key :: "bytes option \<Rightarrow> bytes \<Rightarrow> (key_error, session_key) result" where
  "from_platform_key draw key =
     (if length key \<noteq> 32 then Inl NotAPlatformKey
      else bind_result (ok_or NoEntropyLeft draw) (\<lambda>salt. Inr \<lparr> sk_bytes = key, sk_blob_salt = salt \<rparr>))"

text \<open>The salt in the header of a blob.\<close>

definition blob_salt :: "(bytes \<Rightarrow> bytes option) \<Rightarrow> str \<Rightarrow> (key_error, bytes) result" where
  "blob_salt unb64 blob_b64 =
     bind_result (ok_or BlobUndecodable (decode_text unb64 blob_b64)) (\<lambda>raw.
       if length raw < 25 then Inl BlobTooShort
       else if take 8 raw \<noteq> SESSION_MAGIC then Inl NotASession
       else Inr (take 16 (drop 9 raw)))"

definition unlock_with_platform_key :: "(bytes \<Rightarrow> bytes option) \<Rightarrow> bytes \<Rightarrow> str \<Rightarrow> (key_error, session_key) result" where
  "unlock_with_platform_key unb64 key blob_b64 =
     (if length key \<noteq> 32 then Inl NotAPlatformKey
      else bind_result (blob_salt unb64 blob_b64) (\<lambda>salt. Inr \<lparr> sk_bytes = key, sk_blob_salt = salt \<rparr>))"

definition key_unlock ::
  "(bytes \<Rightarrow> bytes option) \<Rightarrow> (bytes \<Rightarrow> bytes \<Rightarrow> bytes option) \<Rightarrow> str \<Rightarrow> str \<Rightarrow> (key_error, session_key) result" where
  "key_unlock unb64 stretch passphrase blob_b64 =
     bind_result (blob_salt unb64 blob_b64) (\<lambda>salt.
     bind_result (ok_or StretchFailed (stretch (as_bytes passphrase) salt)) (\<lambda>key.
       Inr \<lparr> sk_bytes = key, sk_blob_salt = salt \<rparr>))"

definition seal_header :: "session_key \<Rightarrow> bytes \<Rightarrow> bytes" where
  "seal_header k nonce = SESSION_MAGIC @ [SESSION_VERSION] @ sk_blob_salt k @ nonce"

definition session_seal_bytes :: "aead_enc \<Rightarrow> bytes option \<Rightarrow> session_key \<Rightarrow> bytes \<Rightarrow> (key_error, bytes) result" where
  "session_seal_bytes enc draw k body =
     bind_result (ok_or NoEntropyLeft draw) (\<lambda>nonce.
     bind_result (ok_or SealFailed (enc (sk_bytes k) nonce (seal_header k nonce) body)) (\<lambda>sealed.
       Inr (seal_header k nonce @ sealed)))"

definition session_open_bytes :: "aead_dec \<Rightarrow> session_key \<Rightarrow> bytes \<Rightarrow> (key_error, bytes) result" where
  "session_open_bytes dec k raw =
     (if length raw < SESSION_HEADER_LEN + 16 then Inl BlobTooShort
      else
        let header = take SESSION_HEADER_LEN raw; body = drop SESSION_HEADER_LEN raw
        in if take 8 header \<noteq> SESSION_MAGIC then Inl NotASession
           else if header ! 8 \<noteq> SESSION_VERSION then Inl (WrongVersion (header ! 8))
           else ok_or WrongKeyOrAltered (dec (sk_bytes k) (drop 25 header) header body))"

definition seal_blob :: "(bytes \<Rightarrow> bytes option) \<Rightarrow> (bytes \<Rightarrow> str) \<Rightarrow> aead_enc \<Rightarrow> bytes option \<Rightarrow> session_key \<Rightarrow> str \<Rightarrow> (key_error, str) result" where
  "seal_blob unb64 b64 enc draw k data_b64 =
     bind_result (ok_or BlobUndecodable (decode_text unb64 data_b64)) (\<lambda>body.
     bind_result (session_seal_bytes enc draw k body) (\<lambda>raw. Inr (b64 raw)))"

definition open_blob :: "(bytes \<Rightarrow> bytes option) \<Rightarrow> (bytes \<Rightarrow> str) \<Rightarrow> aead_dec \<Rightarrow> session_key \<Rightarrow> str \<Rightarrow> (key_error, str) result" where
  "open_blob unb64 b64 dec k blob_b64 =
     bind_result (ok_or BlobUndecodable (decode_text unb64 blob_b64)) (\<lambda>raw.
     bind_result (session_open_bytes dec k raw) (\<lambda>body. Inr (b64 body)))"

section \<open>Lemmas\<close>

lemma header_parts:
  assumes "length (sk_blob_salt k) = 16" "length nonce = 24"
  shows "length (seal_header k nonce) = SESSION_HEADER_LEN" "take 8 (seal_header k nonce @ r) = SESSION_MAGIC"
    "(seal_header k nonce @ r) ! 8 = SESSION_VERSION" "take 16 (drop 9 (seal_header k nonce @ r)) = sk_blob_salt k"
    "drop 25 (seal_header k nonce) = nonce"
  using assms by (simp_all add: seal_header_def SESSION_HEADER_LEN_def SESSION_MAGIC_def ascii_def nth_append)

lemma open_sealed:
  assumes "length (sk_blob_salt k) = 16" "length nonce = 24" "16 \<le> length sealed"
  shows "session_open_bytes dec k' (seal_header k nonce @ sealed) =
    ok_or WrongKeyOrAltered (dec (sk_bytes k') nonce (seal_header k nonce) sealed)"
  using assms header_parts(2,3) [OF assms(1,2), of sealed] header_parts(1,5) [OF assms(1,2)] header_parts(2,3) [OF assms(1,2), of "[]"] by (simp add: session_open_bytes_def Let_def)

lemma session_seal_bytes_Inr:
  "session_seal_bytes enc draw k body = Inr raw \<longleftrightarrow>
     (\<exists>nonce sealed. draw = Some nonce \<and> enc (sk_bytes k) nonce (seal_header k nonce) body = Some sealed \<and> raw = seal_header k nonce @ sealed)"
  by (auto simp: session_seal_bytes_def result_simps)

section \<open>Properties\<close>

text \<open>A session that was put away is taken out by the passphrase that put it away, and by no other.  The key a passphrase gives for a
  blob sealed under a key of its own, in another run and from the salt in the blob, opens it; a passphrase that stretches
  to another key, or a platform key that is not the one, is refused.\<close>

theorem passphrase_takes_out_what_it_put_away:
  assumes "aead_opens enc dec" "aead_grows enc" "aead_keyed enc dec" "base64_law unb64 b64"
    and "key_create stretch (Some salt) passphrase = Inr k" "length salt = 16" "length nonce = 24"
    and "session_seal_bytes enc (Some nonce) k body = Inr raw"
  shows "key_unlock unb64 stretch passphrase (b64 raw) = Inr k \<and> session_open_bytes dec k raw = Inr body \<and>
    open_blob unb64 b64 dec k (b64 raw) = Inr (b64 body) \<and>
    (\<forall>other k'. (key_unlock unb64 stretch other (b64 raw) = Inr k' \<or> unlock_with_platform_key unb64 p (b64 raw) = Inr k') \<longrightarrow>
      sk_bytes k' \<noteq> sk_bytes k \<longrightarrow> session_open_bytes dec k' raw = Inl WrongKeyOrAltered)"
proof -
  obtain key where key: "stretch (as_bytes passphrase) salt = Some key" "k = \<lparr> sk_bytes = key, sk_blob_salt = salt \<rparr>"
    using assms(5) by (auto simp: key_create_def result_simps split: if_splits)
  obtain sealed where s: "enc (sk_bytes k) nonce (seal_header k nonce) body = Some sealed" "raw = seal_header k nonce @ sealed"
    using assms(8) by (auto simp: session_seal_bytes_Inr)
  have salt: "length (sk_blob_salt k) = 16" using key(2) assms(6) by simp
  have long: "16 \<le> length sealed" using s(1) assms(2) by (auto simp: aead_grows_def)
  have opens: "session_open_bytes dec k' raw = ok_or WrongKeyOrAltered (dec (sk_bytes k') nonce (seal_header k nonce) sealed)" for k'
    unfolding s(2) by (rule open_sealed [OF salt assms(7) long])
  have "25 \<le> length raw" using header_parts(1) [OF salt assms(7)] by (simp add: s(2) SESSION_HEADER_LEN_def)
  then have "blob_salt unb64 (b64 raw) = Inr salt"
    using header_parts(2,4) [OF salt assms(7), of sealed] key(2) decode_encode [OF assms(4), of raw] s(2)
    by (simp add: blob_salt_def del: take_append drop_append)
  then have "key_unlock unb64 stretch passphrase (b64 raw) = Inr k" using key by (simp add: key_unlock_def)
  moreover have opened_body: "session_open_bytes dec k raw = Inr body" using opens [of k] aead_opensD [OF assms(1) s(1)] by simp
  moreover have "open_blob unb64 b64 dec k (b64 raw) = Inr (b64 body)"
    using opened_body decode_encode [OF assms(4), of raw] by (simp add: open_blob_def)
  moreover have "session_open_bytes dec k' raw = Inl WrongKeyOrAltered" if "sk_bytes k' \<noteq> sk_bytes k" for k'
    using opens [of k'] aead_keyedD [OF assms(3) s(1) that] by simp
  ultimately show ?thesis by blast
qed

theorem passphrase_takes_out_what_it_put_away_witness:
  "\<exists>raw. session_seal_bytes keyed_enc (Some (replicate 24 2)) \<lparr> sk_bytes = replicate 32 0, sk_blob_salt = replicate 16 5 \<rparr> [1, 2] = Inr raw \<and>
     session_open_bytes keyed_dec \<lparr> sk_bytes = replicate 32 0, sk_blob_salt = replicate 16 5 \<rparr> raw = Inr [1, 2]"
proof -
  let ?k = "\<lparr> sk_bytes = replicate 32 0, sk_blob_salt = replicate 16 5 \<rparr>"
  have "plain (replicate 8 65)" by (simp add: plain_def)
  then have k: "key_create (\<lambda>p s. Some (replicate 32 0)) (Some (replicate 16 5)) (replicate 8 65) = Inr ?k"
    by (simp add: key_create_def length_as_bytes_plain)
  obtain raw where raw: "session_seal_bytes keyed_enc (Some (replicate 24 2)) ?k [1, 2] = Inr raw"
    by (simp add: session_seal_bytes_def keyed_enc_def short_key_def)
  from passphrase_takes_out_what_it_put_away [OF keyed_aead letter_law k _ _ raw] raw show ?thesis by simp
qed

end
