(* ===== verification/Constellation.thy ===== *)
theory Constellation
  imports Rotelyx_Prelude "HOL-Library.List_Lexorder"
begin

text \<open>
  The constellation directory, \<^verbatim>\<open>rotelyx-directory/src/lib.rs\<close>: which mailboxes hold a tag, by rendezvous hashing, and what
  changes for a tag when the directory does.  BLAKE3 is the parameter \<open>blake3\<close>; its first eight bytes are the score.
  Strings are their bytes, ordered as Rust orders them.
\<close>

section \<open>Definitions\<close>

record mailbox_entry =
  mb_id :: bytes
  mb_url :: bytes

record directory =
  dir_version :: u64
  dir_replicas :: nat
  dir_mailboxes :: "mailbox_entry list"

definition rendezvous_score :: "(bytes \<Rightarrow> bytes) \<Rightarrow> bytes \<Rightarrow> bytes \<Rightarrow> u64" where
  "rendezvous_score blake3 i tag = word_of_nat (of_be (take 8 (blake3 (u64_be (word_of_nat (length i)) @ i @ tag))))"

text \<open>\<open>before s a b\<close> is the comparison the sort is given, on mailboxes scored by \<open>s\<close>: the higher score first, and on equal
  scores the smaller identifier.\<close>

definition before :: "(bytes \<Rightarrow> u64) \<Rightarrow> mailbox_entry \<Rightarrow> mailbox_entry \<Rightarrow> bool" where
  "before s a b \<longleftrightarrow> s (mb_id b) < s (mb_id a) \<or> s (mb_id a) = s (mb_id b) \<and> mb_id a \<le> mb_id b"

primrec stable_insert :: "(bytes \<Rightarrow> u64) \<Rightarrow> mailbox_entry \<Rightarrow> mailbox_entry list \<Rightarrow> mailbox_entry list" where
  "stable_insert s m [] = [m]"
| "stable_insert s m (x # xs) = (if before s m x then m # x # xs else x # stable_insert s m xs)"

text \<open>Rust's \<^verbatim>\<open>sort_by\<close> is stable: equal elements keep their order.\<close>

definition stable_sort :: "(bytes \<Rightarrow> u64) \<Rightarrow> mailbox_entry list \<Rightarrow> mailbox_entry list" where
  "stable_sort s ms = foldr (stable_insert s) ms []"

definition placement :: "(bytes \<Rightarrow> bytes) \<Rightarrow> directory \<Rightarrow> bytes \<Rightarrow> mailbox_entry list" where
  "placement blake3 dir tag =
     take (dir_replicas dir) (stable_sort (\<lambda>i. rendezvous_score blake3 i tag) (dir_mailboxes dir))"

record placement_delta =
  pd_added :: "mailbox_entry list"
  pd_removed :: "mailbox_entry list"
  pd_kept :: "mailbox_entry list"

definition is_unchanged :: "placement_delta \<Rightarrow> bool" where
  "is_unchanged d \<longleftrightarrow> pd_added d = [] \<and> pd_removed d = []"

definition supersedes :: "directory \<Rightarrow> directory \<Rightarrow> bool" where
  "supersedes dir current \<longleftrightarrow> dir_version current < dir_version dir"

definition delta_for :: "(bytes \<Rightarrow> bytes) \<Rightarrow> directory \<Rightarrow> directory \<Rightarrow> bytes \<Rightarrow> placement_delta" where
  "delta_for blake3 dir nxt tag =
     (let old = placement blake3 dir tag; new = placement blake3 nxt tag;
          old_ids = set (map mb_id old); new_ids = set (map mb_id new)
      in \<lparr> pd_added = filter (\<lambda>m. mb_id m \<notin> old_ids) new,
           pd_removed = filter (\<lambda>m. mb_id m \<notin> new_ids) old,
           pd_kept = filter (\<lambda>m. mb_id m \<in> old_ids) new \<rparr>)"

section \<open>The order is total\<close>

lemma before_total: "before s a b \<or> before s b a"
  by (auto simp: before_def)

lemma before_trans: "before s a b \<Longrightarrow> before s b c \<Longrightarrow> before s a c"
  by (auto simp: before_def)

lemma before_antisym: "before s a b \<Longrightarrow> before s b a \<Longrightarrow> mb_id a = mb_id b"
  by (auto simp: before_def)

lemma set_stable_insert [simp]: "set (stable_insert s m xs) = insert m (set xs)"
  by (induction xs) auto

lemma sorted_stable_insert: "sorted_wrt (before s) xs \<Longrightarrow> sorted_wrt (before s) (stable_insert s m xs)"
proof (induction xs)
  case (Cons x xs)
  show ?case
  proof (cases "before s m x")
    case True
    then show ?thesis using Cons.prems before_trans [OF True] by auto
  next
    case False
    then have "before s x m" using before_total by blast
    then show ?thesis using Cons False by simp
  qed
qed simp

lemma set_stable_sort [simp]: "set (stable_sort s ms) = set ms"
  unfolding stable_sort_def by (induction ms) auto

lemma sorted_stable_sort: "sorted_wrt (before s) (stable_sort s ms)"
  unfolding stable_sort_def by (induction ms) (auto simp: sorted_stable_insert)

lemma distinct_stable_sort: "distinct (map mb_id ms) \<Longrightarrow> distinct (map mb_id (stable_sort s ms))"
proof -
  have ins: "distinct (map mb_id xs) \<Longrightarrow> mb_id m \<notin> mb_id ` set xs \<Longrightarrow> distinct (map mb_id (stable_insert s m xs))" for m xs
    by (induction xs) auto
  show "distinct (map mb_id ms) \<Longrightarrow> distinct (map mb_id (stable_sort s ms))"
  proof (induction ms)
    case (Cons m ms)
    then have "distinct (map mb_id (stable_sort s ms))" "mb_id m \<notin> mb_id ` set (stable_sort s ms)" by auto
    from ins [OF this] show ?case by (simp add: stable_sort_def)
  qed (simp add: stable_sort_def)
qed

text \<open>A list sorted by the order, with one entry for each identifier, is determined by its entries.\<close>

lemma sorted_unique:
  "sorted_wrt (before s) xs \<Longrightarrow> sorted_wrt (before s) ys \<Longrightarrow> distinct (map mb_id xs) \<Longrightarrow> distinct (map mb_id ys) \<Longrightarrow>
   set xs = set ys \<Longrightarrow> xs = ys"
proof (induction xs arbitrary: ys)
  case (Cons x xs)
  then obtain y zs where ys: "ys = y # zs" by (cases ys) auto
  have "x = y"
  proof (rule ccontr)
    assume "x \<noteq> y"
    then have "y \<in> set xs" "x \<in> set zs" using Cons.prems(5) ys by auto
    then have "before s x y" "before s y x" using Cons.prems(1,2) ys by auto
    then have "mb_id x = mb_id y" by (rule before_antisym)
    then show False using Cons.prems(3) \<open>y \<in> set xs\<close> by (auto simp: image_iff)
  qed
  moreover have "set xs = set zs"
  proof -
    have "x \<notin> set xs" "y \<notin> set zs" using Cons.prems(3,4) ys by (auto simp: image_iff)
    then show ?thesis using Cons.prems(5) ys \<open>x = y\<close> by auto
  qed
  ultimately show ?case using Cons.IH [of zs] Cons.prems ys by simp
qed simp

section \<open>One mailbox more\<close>

lemma stable_insert_at: "\<exists>i\<le>length xs. stable_insert s m xs = take i xs @ m # drop i xs"
proof (induction xs)
  case (Cons x xs)
  then obtain i where "i \<le> length xs" "stable_insert s m xs = take i xs @ m # drop i xs" by blast
  then show ?case by (cases "before s m x") (auto intro: exI [of _ 0] exI [of _ "Suc i"])
qed simp

lemma sort_one_more:
  assumes "distinct (map mb_id ms)" "distinct (map mb_id ms')" "set ms' = insert m (set ms)" "m \<notin> set ms"
  shows "stable_sort s ms' = stable_insert s m (stable_sort s ms)"
proof (rule sorted_unique [where s = s])
  have "length ms' = length (m # ms)"
    using assms distinct_card [of ms] distinct_card [of ms'] by (simp add: distinct_map)
  then have "inj_on mb_id (set ms')" "set (m # ms) = set ms'" "length (m # ms) = length ms'"
    using assms by (auto simp: distinct_map)
  then have "distinct (map mb_id (m # ms))"
    using assms(1,4) by (metis distinct.simps(2) distinct_map)
  then show "distinct (map mb_id (stable_insert s m (stable_sort s ms)))"
    using distinct_stable_sort [of "m # ms" s] by (simp add: stable_sort_def)
qed (use assms in \<open>auto simp: sorted_stable_sort sorted_stable_insert distinct_stable_sort\<close>)

lemma take_inserted:
  assumes "i \<le> length xs"
  shows "take r (take i xs @ m # drop i xs) = (if r \<le> i then take r xs else take i xs @ m # take (r - Suc i) (drop i xs))"
proof (cases "r \<le> i")
  case False
  then have "r - i = Suc (r - Suc i)" by simp
  then show ?thesis using False assms by simp
qed (use assms in simp)

section \<open>Properties\<close>

text \<open>Both ends find the same mailboxes.  Two directories that list the same mailboxes, in whatever order, place every
  tag on the same mailboxes in the same order of preference, as long as no identifier is listed twice.
\<close>

theorem placement_ignores_order:
  assumes "distinct (map mb_id (dir_mailboxes a))" "distinct (map mb_id (dir_mailboxes b))"
    "set (dir_mailboxes a) = set (dir_mailboxes b)" "dir_replicas a = dir_replicas b"
  shows "placement blake3 a tag = placement blake3 b tag \<and> length (placement blake3 a tag) = min (dir_replicas a) (length (dir_mailboxes a))"
proof -
  let ?s = "\<lambda>i. rendezvous_score blake3 i tag"
  have "stable_sort ?s (dir_mailboxes a) = stable_sort ?s (dir_mailboxes b)"
    using assms by (intro sorted_unique [of ?s]) (simp_all add: sorted_stable_sort distinct_stable_sort)
  moreover have "length (stable_insert s m xs) = Suc (length xs)" for s m xs by (induction xs) auto
  then have "length (stable_sort ?s ms) = length ms" for ms by (induction ms) (auto simp: stable_sort_def)
  moreover from this have "length (dir_mailboxes a) = length (dir_mailboxes b)" by (metis calculation)
  ultimately show ?thesis using assms(4) by (simp add: placement_def min.commute)
qed

lemma placement_ignores_order_witness:
  "placement id \<lparr>dir_version = 1, dir_replicas = 2, dir_mailboxes = [\<lparr>mb_id = [1], mb_url = []\<rparr>, \<lparr>mb_id = [2], mb_url = []\<rparr>]\<rparr> [7] =
   placement id \<lparr>dir_version = 2, dir_replicas = 2, dir_mailboxes = [\<lparr>mb_id = [2], mb_url = []\<rparr>, \<lparr>mb_id = [1], mb_url = []\<rparr>]\<rparr> [7]"
  using placement_ignores_order [of "\<lparr>dir_version = 1, dir_replicas = 2, dir_mailboxes = [\<lparr>mb_id = [1], mb_url = []\<rparr>, \<lparr>mb_id = [2], mb_url = []\<rparr>]\<rparr>"
    "\<lparr>dir_version = 2, dir_replicas = 2, dir_mailboxes = [\<lparr>mb_id = [2], mb_url = []\<rparr>, \<lparr>mb_id = [1], mb_url = []\<rparr>]\<rparr>" id "[7]"]
  by (simp add: insert_commute)

text \<open>A constellation that grows moves almost nothing.  When one mailbox joins, a tag either keeps its mailboxes or gains
  the new one; it then loses at most one, the least preferred of those it had, and keeps all others in their order.
  Read backwards this is what happens when a mailbox leaves.
\<close>

theorem growing_moves_one_place:
  fixes blake3 tag
  assumes "distinct (map mb_id (dir_mailboxes a))" "distinct (map mb_id (dir_mailboxes b))"
    "set (dir_mailboxes b) = insert m (set (dir_mailboxes a))" "m \<notin> set (dir_mailboxes a)" "dir_replicas a = dir_replicas b"
  defines "old \<equiv> placement blake3 a tag" and "new \<equiv> placement blake3 b tag"
  shows "new = old \<or>
    (\<exists>i j. i + j \<le> length old \<and> length old \<le> i + j + 1 \<and> new = take i old @ m # take j (drop i old))"
proof -
  define s where "s = (\<lambda>i. rendezvous_score blake3 i tag)"
  define xs where "xs = stable_sort s (dir_mailboxes a)"
  define r where "r = dir_replicas a"
  obtain i where i: "i \<le> length xs" "stable_insert s m xs = take i xs @ m # drop i xs" using stable_insert_at by blast
  have old: "old = take r xs" and new: "new = take r (take i xs @ m # drop i xs)"
    using sort_one_more [OF assms(1-4), of s] i(2) assms(5) by (simp_all add: old_def new_def placement_def xs_def r_def s_def)
  show ?thesis
  proof (cases "r \<le> i")
    case True
    then have "new = old" by (simp only: new old take_inserted [OF i(1)] if_True)
    then show ?thesis ..
  next
    case False
    let ?j = "min (r - Suc i) (length xs - i)"
    have "new = take i xs @ m # take (r - Suc i) (drop i xs)" using False by (simp only: new take_inserted [OF i(1)] if_False)
    moreover have "take i old = take i xs" using False old by (simp add: min_def)
    moreover have "take ?j (drop i old) = take (r - Suc i) (drop i xs)"
      using False i(1) by (auto simp: old drop_take min_def)
    ultimately have "new = take i old @ m # take ?j (drop i old)" by simp
    moreover have "i + ?j \<le> length old" "length old \<le> i + ?j + 1" using False i(1) by (auto simp: old)
    ultimately show ?thesis by blast
  qed
qed

lemma growing_moves_one_place_witness:
  fixes a b :: directory
  defines "a \<equiv> \<lparr>dir_version = 1, dir_replicas = 1, dir_mailboxes = [\<lparr>mb_id = [1], mb_url = []\<rparr>]\<rparr>"
    and "b \<equiv> \<lparr>dir_version = 2, dir_replicas = 1, dir_mailboxes = [\<lparr>mb_id = [1], mb_url = []\<rparr>, \<lparr>mb_id = [2], mb_url = []\<rparr>]\<rparr>"
  shows "placement id b [7] = placement id a [7] \<or>
    (\<exists>i j. i + j \<le> length (placement id a [7]) \<and> length (placement id a [7]) \<le> i + j + 1 \<and>
      placement id b [7] = take i (placement id a [7]) @ \<lparr>mb_id = [2], mb_url = []\<rparr> # take j (drop i (placement id a [7])))"
  by (rule growing_moves_one_place) (auto simp: a_def b_def)

text \<open>A mailbox that moves looks unchanged.  When a mailbox of a tag's placement changes nothing but its address, the
  difference of the two directories is reported as unchanged, although the address to connect to is another.
\<close>

theorem moved_mailbox_looks_unchanged:
  fixes blake3 tag i url
  assumes "m \<in> set (placement blake3 a tag)" "mb_id m = i" "mb_url m \<noteq> url"
  defines "b \<equiv> a\<lparr>dir_mailboxes := map (\<lambda>x. if mb_id x = i then x\<lparr>mb_url := url\<rparr> else x) (dir_mailboxes a)\<rparr>"
  shows "is_unchanged (delta_for blake3 a b tag) \<and> m\<lparr>mb_url := url\<rparr> \<in> set (pd_kept (delta_for blake3 a b tag)) \<and>
    m \<notin> set (placement blake3 b tag)"
proof -
  define move where "move x = (if mb_id x = i then x\<lparr>mb_url := url\<rparr> else x)" for x :: mailbox_entry
  define s where "s = (\<lambda>i. rendezvous_score blake3 i tag)"
  have id: "mb_id (move x) = mb_id x" for x by (simp add: move_def)
  have "stable_insert s (move x) (map move xs) = map move (stable_insert s x xs)" for x xs
    by (induction xs) (auto simp: before_def id)
  then have "stable_sort s (map move ms) = map move (stable_sort s ms)" for ms
    by (induction ms) (auto simp: stable_sort_def)
  then have b: "placement blake3 b tag = map move (placement blake3 a tag)"
    by (simp add: placement_def b_def take_map s_def flip: move_def [abs_def])
  define old where "old = placement blake3 a tag"
  have ids: "map mb_id (map move old) = map mb_id old" by (simp add: id)
  have delta: "delta_for blake3 a b tag =
      \<lparr> pd_added = filter (\<lambda>m. mb_id m \<notin> set (map mb_id old)) (map move old),
        pd_removed = filter (\<lambda>m. mb_id m \<notin> set (map mb_id old)) old,
        pd_kept = filter (\<lambda>m. mb_id m \<in> set (map mb_id old)) (map move old) \<rparr>"
    unfolding delta_for_def Let_def b old_def [symmetric] ids ..
  have "pd_added (delta_for blake3 a b tag) = []" "pd_removed (delta_for blake3 a b tag) = []"
    unfolding delta by (simp_all add: filter_empty_conv id)
  then have "is_unchanged (delta_for blake3 a b tag)" by (simp add: is_unchanged_def)
  moreover have "pd_kept (delta_for blake3 a b tag) = map move old"
    unfolding delta placement_delta.select_convs by (rule filter_True) (auto simp: id)
  moreover have "mb_id (move x) \<noteq> i \<or> mb_url (move x) = url" for x by (simp add: move_def)
  then have "m \<noteq> move x" for x using assms(2,3) by metis
  moreover have "move m = m\<lparr>mb_url := url\<rparr>" using assms(2) by (simp add: move_def)
  moreover from this have "m\<lparr>mb_url := url\<rparr> \<in> set (map move old)"
    using assms(1) unfolding old_def set_map by (metis imageI)
  ultimately show ?thesis by (auto simp: b old_def image_iff)
qed

lemma moved_mailbox_looks_unchanged_witness:
  "is_unchanged (delta_for id \<lparr>dir_version = 1, dir_replicas = 1, dir_mailboxes = [\<lparr>mb_id = [1], mb_url = [5]\<rparr>]\<rparr>
     \<lparr>dir_version = 1, dir_replicas = 1, dir_mailboxes = [\<lparr>mb_id = [1], mb_url = [6]\<rparr>]\<rparr> [7])"
  using moved_mailbox_looks_unchanged [of "\<lparr>mb_id = [1], mb_url = [5]\<rparr>" id
    "\<lparr>dir_version = 1, dir_replicas = 1, dir_mailboxes = [\<lparr>mb_id = [1], mb_url = [5]\<rparr>]\<rparr>" "[7]" "[1]" "[6]"]
  by (simp add: placement_def stable_sort_def)

end
