(* ===== verification/Mailbox_Client.thy ===== *)
theory Mailbox_Client
  imports Meeting_Codes Constellation "HOL-Library.Multiset"
begin

text \<open>
  Talking to mailboxes, \<^verbatim>\<open>rotelyx-mailbox-client/src/lib.rs\<close>: one connection, and a constellation of them that keeps every
  address on a few members.  What a socket brings is a list of frames, in the order they arrive, so a statement about all
  lists is one about every server; what was written is aside in a list too.  \<^term>\<open>None\<close> is a wait that never ends.
  Base64, hexadecimal and BLAKE3 are parameters; the text of an error is a constructor.
\<close>

section \<open>What is said on a connection\<close>

record granted =
  gr_tier :: str
  gr_max_fanout :: nat
  gr_max_payload :: nat
  gr_retention_days :: u64
  gr_bytes_remaining :: u64

datatype client_request =
    AskSubscribe "str list"
  | AskCollected "str list"
  | AskUnsubscribe "str list"
  | AskDeposit str
  | AskAuth str
  | AskAuthBlind str

datatype client_reply =
    HeardReady nat
  | HeardEnvelope str
  | HeardStored
  | HeardError str
  | HeardOverQuota u64 u64 str
  | HeardTier granted
  | HeardOther

definition BLIND_TOKEN_MINIMUM :: nat where "BLIND_TOKEN_MINIMUM = 240"
definition TIER_REFUSAL :: str where "TIER_REFUSAL = chars ''tier allows at most''"

fun is_infix :: "'a list \<Rightarrow> 'a list \<Rightarrow> bool" where
  "is_infix p [] = (p = [])"
| "is_infix p (x # xs) = (take (length p) (x # xs) = p \<or> is_infix p xs)"

datatype mail_error =
    Gone
  | NotUnderstood
  | SubscriptionRefused str
  | DepositRefused str
  | AllowanceSpent u64 u64 str
  | TokenRefused str
  | NotATier client_reply
  | MailboxSaid str
  | NobodyStored
  | NobodyAccepted
  | NobodyAnswered

text \<open>
  A frame: text, read as a reply or not; the end; a ping or the like; a failed read.  \<open>Quiet\<close> is no frame but the time at
  which whoever waits with a deadline stops waiting.
\<close>

datatype socket_frame = TextFrame "client_reply option" | CloseFrame | ControlFrame | ReadFails | Quiet

text \<open>
  A connection: where it went, what it will bring, whether it was seen to end, whether the next writes succeed (they do
  where the list ends), what was written, the envelopes set aside, and the token.
\<close>

record link =
  lk_url :: bytes
  lk_arrives :: "socket_frame list"
  lk_ended :: bool
  lk_writes :: "bool list"
  lk_said :: "client_request list"
  lk_pending :: "str list"
  lk_token :: "str option"
  lk_presented :: bool

type_synonym ('x, 'a) awaited = "('x \<times> (mail_error, 'a) result) option"

definition await_then :: "('x, 'a) awaited \<Rightarrow> ('a \<Rightarrow> 'x \<Rightarrow> ('x, 'b) awaited) \<Rightarrow> ('x, 'b) awaited" where
  "await_then r f =
     (case r of
        None \<Rightarrow> None
      | Some (x, Inl e) \<Rightarrow> Some (x, Inl e)
      | Some (x, Inr a) \<Rightarrow> f a x)"

text \<open>Opening a connection: \<open>brings\<close> is \<^term>\<open>None\<close> where the other end does not answer.\<close>

definition link_connect :: "bytes \<Rightarrow> (socket_frame list \<times> bool list) option \<Rightarrow> link option" where
  "link_connect url brings =
     map_option (\<lambda>(frames, writes).
       \<lparr> lk_url = url, lk_arrives = frames, lk_ended = False, lk_writes = writes, lk_said = [], lk_pending = [],
         lk_token = None, lk_presented = False \<rparr>) brings"

definition link_send :: "client_request \<Rightarrow> link \<Rightarrow> link \<times> (mail_error, unit) result" where
  "link_send r lk =
     (case lk_writes lk of
        False # ws \<Rightarrow> (lk\<lparr>lk_writes := ws\<rparr>, Inl Gone)
      | ws \<Rightarrow> (lk\<lparr>lk_writes := tl ws, lk_said := lk_said lk @ [r]\<rparr>, Inr ()))"

text \<open>
  What each of the loops over \<^verbatim>\<open>next_reply\<close> does with a reply: return, keep the envelope in it, or go on.  \<open>quiet\<close> is what
  a loop with a deadline returns when it passes.
\<close>

datatype 'a reaction = Return "(mail_error, 'a) result" | Keep str | GoOn

fun reply_loop ::
  "'a option \<Rightarrow> (client_reply \<Rightarrow> 'a reaction) \<Rightarrow> socket_frame list \<Rightarrow> str list \<Rightarrow>
   (socket_frame list \<times> bool \<times> str list \<times> (mail_error, 'a) result) option" where
  "reply_loop quiet f [] aside = (case quiet of None \<Rightarrow> None | Some a \<Rightarrow> Some ([], False, aside, Inr a))"
| "reply_loop quiet f (TextFrame None # fs) aside = Some (fs, False, aside, Inl NotUnderstood)"
| "reply_loop quiet f (TextFrame (Some r) # fs) aside =
     (case f r of
        Return a \<Rightarrow> Some (fs, False, aside, a)
      | Keep e \<Rightarrow> reply_loop quiet f fs (aside @ [e])
      | GoOn \<Rightarrow> reply_loop quiet f fs aside)"
| "reply_loop quiet f (CloseFrame # fs) aside = Some (fs, True, aside, Inl Gone)"
| "reply_loop quiet f (ReadFails # fs) aside = Some (fs, True, aside, Inl Gone)"
| "reply_loop quiet f (ControlFrame # fs) aside = reply_loop quiet f fs aside"
| "reply_loop quiet f (Quiet # fs) aside =
     (case quiet of None \<Rightarrow> reply_loop quiet f fs aside | Some a \<Rightarrow> Some (fs, False, aside, Inr a))"

definition listen ::
  "'a option \<Rightarrow> (client_reply \<Rightarrow> 'a reaction) \<Rightarrow> link \<Rightarrow> (link \<times> str list \<times> (mail_error, 'a) result) option" where
  "listen quiet f lk =
     (if lk_ended lk then Some (lk, [], Inl Gone)
      else map_option (\<lambda>(fs, ended, aside, r). (lk\<lparr>lk_arrives := fs, lk_ended := ended\<rparr>, aside, r))
             (reply_loop quiet f (lk_arrives lk) []))"

text \<open>Keeping what arrived meanwhile for the next who asks.\<close>

definition set_aside :: "(link \<times> str list \<times> (mail_error, 'a) result) option \<Rightarrow> (link, 'a) awaited" where
  "set_aside = map_option (\<lambda>(lk, aside, r). (lk\<lparr>lk_pending := lk_pending lk @ aside\<rparr>, r))"

section \<open>One mailbox\<close>

fun on_subscribe_reply :: "client_reply \<Rightarrow> unit reaction" where
  "on_subscribe_reply (HeardEnvelope e) = Keep e"
| "on_subscribe_reply (HeardReady n) = Return (Inr ())"
| "on_subscribe_reply (HeardError m) = Return (Inl (SubscriptionRefused m))"
| "on_subscribe_reply _ = GoOn"

definition link_subscribe :: "str list \<Rightarrow> link \<Rightarrow> (link, str list) awaited" where
  "link_subscribe tags lk =
     await_then (Some (link_send (AskSubscribe tags) lk)) (\<lambda>_ lk.
       map_option (\<lambda>(lk, waiting, r). (lk, bind_result r (\<lambda>_. Inr waiting))) (listen None on_subscribe_reply lk))"

record mail_lib =
  ml_unb64 :: "bytes \<Rightarrow> bytes option"
  ml_unhex :: "bytes \<Rightarrow> bytes option"
  ml_kdf :: kdf
  ml_blake3 :: "bytes \<Rightarrow> bytes"

definition parse_envelope :: "mail_lib \<Rightarrow> str \<Rightarrow> envelope option" where
  "parse_envelope M s =
     (case ml_unb64 M (as_bytes s) of
        None \<Rightarrow> None
      | Some bs \<Rightarrow> (case envelope_from_bytes bs of Inl _ \<Rightarrow> None | Inr e \<Rightarrow> Some e))"

definition receipt_digests :: "mail_lib \<Rightarrow> str list \<Rightarrow> str list" where
  "receipt_digests M = List.map_filter (\<lambda>s. map_option (\<lambda>e. hex_str (digest (ml_kdf M) e)) (parse_envelope M s))"

definition link_collected :: "mail_lib \<Rightarrow> str list \<Rightarrow> link \<Rightarrow> (link, unit) awaited" where
  "link_collected M envelopes lk =
     Some (if envelopes = [] then (lk, Inr ())
           else
             let digests = receipt_digests M envelopes
             in if digests = [] then (lk, Inr ()) else link_send (AskCollected digests) lk)"

definition link_unsubscribe :: "str list \<Rightarrow> link \<Rightarrow> (link, unit) awaited" where
  "link_unsubscribe tags lk = Some (link_send (AskUnsubscribe tags) lk)"

datatype deposited = DepositStored | RefusedByTier mail_error | RefusedOutright mail_error

fun on_deposit_reply :: "client_reply \<Rightarrow> deposited reaction" where
  "on_deposit_reply HeardStored = Return (Inr DepositStored)"
| "on_deposit_reply (HeardError m) =
     Return (Inr (if is_infix TIER_REFUSAL m then RefusedByTier (DepositRefused m) else RefusedOutright (DepositRefused m)))"
| "on_deposit_reply (HeardOverQuota limit spent tier) = Return (Inr (RefusedByTier (AllowanceSpent limit spent tier)))"
| "on_deposit_reply (HeardEnvelope e) = Keep e"
| "on_deposit_reply _ = GoOn"

definition deposit_once :: "str \<Rightarrow> link \<Rightarrow> (link, deposited) awaited" where
  "deposit_once envelope lk =
     await_then (Some (link_send (AskDeposit envelope) lk)) (\<lambda>_ lk. set_aside (listen None on_deposit_reply lk))"

fun on_auth_reply :: "client_reply \<Rightarrow> granted reaction" where
  "on_auth_reply (HeardTier g) = Return (Inr g)"
| "on_auth_reply (HeardError m) = Return (Inl (TokenRefused m))"
| "on_auth_reply (HeardEnvelope e) = Keep e"
| "on_auth_reply r = Return (Inl (NotATier r))"

definition link_authenticate :: "str \<Rightarrow> link \<Rightarrow> (link, granted) awaited" where
  "link_authenticate token lk =
     (let token = trim token
      in await_then
           (Some (link_send (if BLIND_TOKEN_MINIMUM \<le> length (as_bytes token) then AskAuthBlind token else AskAuth token) lk))
           (\<lambda>_ lk. set_aside (listen None on_auth_reply lk)))"

definition present_held_token :: "link \<Rightarrow> (link, bool) awaited" where
  "present_held_token lk =
     (if lk_presented lk then Some (lk, Inr False)
      else
        (case lk_token lk of
           None \<Rightarrow> Some (lk, Inr False)
         | Some token \<Rightarrow> await_then (link_authenticate token lk) (\<lambda>_ lk. Some (lk\<lparr>lk_presented := True\<rparr>, Inr True))))"

text \<open>The second of at most two attempts, and both.\<close>

definition deposit_again :: "str \<Rightarrow> link \<Rightarrow> (link, unit) awaited" where
  "deposit_again envelope lk =
     await_then (deposit_once envelope lk) (\<lambda>d lk.
       Some (lk, case d of DepositStored \<Rightarrow> Inr () | RefusedByTier why \<Rightarrow> Inl why | RefusedOutright why \<Rightarrow> Inl why))"

definition link_deposit :: "str \<Rightarrow> link \<Rightarrow> (link, unit) awaited" where
  "link_deposit envelope lk =
     await_then (deposit_once envelope lk) (\<lambda>d lk.
       case d of
         DepositStored \<Rightarrow> Some (lk, Inr ())
       | RefusedByTier why \<Rightarrow>
           await_then (present_held_token lk) (\<lambda>presented lk.
             if presented then deposit_again envelope lk else Some (lk, Inl why))
       | RefusedOutright why \<Rightarrow> Some (lk, Inl why))"

definition link_hold_token :: "str \<Rightarrow> link \<Rightarrow> link" where
  "link_hold_token token lk = lk\<lparr>lk_token := Some token\<rparr>"

fun on_waiting_reply :: "client_reply \<Rightarrow> str option reaction" where
  "on_waiting_reply (HeardEnvelope e) = Return (Inr (Some e))"
| "on_waiting_reply (HeardError m) = Return (Inl (MailboxSaid m))"
| "on_waiting_reply _ = GoOn"

definition link_next_envelope :: "link \<Rightarrow> (link, str option) awaited" where
  "link_next_envelope lk =
     (case lk_pending lk of
        e # es \<Rightarrow> Some (lk\<lparr>lk_pending := es\<rparr>, Inr (Some e))
      | [] \<Rightarrow> map_option (\<lambda>(lk, _, r). (lk, r)) (listen (Some None) on_waiting_reply lk))"

section \<open>A constellation\<close>

record spread =
  sp_peers :: "link list"
  sp_directory :: directory
  sp_seen :: "str set"
  sp_seen_order :: "str list"
  sp_next_peer :: u64

definition SEEN_AT_MOST :: nat where "SEEN_AT_MOST = 4000"

definition connect_constellation ::
  "directory \<Rightarrow> (socket_frame list \<times> bool list) option list \<Rightarrow> (mail_error, spread) result" where
  "connect_constellation dir answers =
     (let peers = List.map_filter (\<lambda>(m, a). link_connect (mb_url m) a) (zip (dir_mailboxes dir) answers)
      in if peers = [] then Inl NobodyAnswered
         else Inr \<lparr> sp_peers = peers, sp_directory = dir, sp_seen = {}, sp_seen_order = [], sp_next_peer = 0 \<rparr>)"

definition mail_tag_from_hex :: "mail_lib \<Rightarrow> str \<Rightarrow> bytes option" where
  "mail_tag_from_hex M s =
     (case ml_unhex M (as_bytes s) of Some bs \<Rightarrow> if length bs = 32 then Some bs else None | None \<Rightarrow> None)"

definition tag_of_envelope :: "mail_lib \<Rightarrow> str \<Rightarrow> str option" where
  "tag_of_envelope M s = map_option (\<lambda>e. hex_str (e_tag e)) (parse_envelope M s)"

definition placed_urls :: "mail_lib \<Rightarrow> directory \<Rightarrow> bytes \<Rightarrow> bytes list" where
  "placed_urls M dir tag = map mb_url (placement (ml_blake3 M) dir tag)"

definition holders_of :: "mail_lib \<Rightarrow> spread \<Rightarrow> str \<Rightarrow> nat list" where
  "holders_of M sp tag_hex =
     (let all = [0..<length (sp_peers sp)]
      in case mail_tag_from_hex M tag_hex of
           None \<Rightarrow> all
         | Some tag \<Rightarrow>
             let urls = placed_urls M (sp_directory sp) tag
             in if urls = [] then all
                else
                  let picked = filter (\<lambda>i. lk_url (sp_peers sp ! i) \<in> set urls) all
                  in if picked = [] then all else picked)"

definition first_sight :: "str \<Rightarrow> spread \<Rightarrow> spread \<times> bool" where
  "first_sight e sp =
     (if e \<in> sp_seen sp then (sp, False)
      else
        let order = sp_seen_order sp @ [e]
        in if SEEN_AT_MOST < length order
           then (sp\<lparr>sp_seen := insert e (sp_seen sp) - {hd order}, sp_seen_order := tl order\<rparr>, True)
           else (sp\<lparr>sp_seen := insert e (sp_seen sp), sp_seen_order := order\<rparr>, True))"

fun sight_all :: "str list \<Rightarrow> spread \<Rightarrow> spread \<times> str list" where
  "sight_all [] sp = (sp, [])"
| "sight_all (e # es) sp =
     (case first_sight e sp of (sp, fresh) \<Rightarrow>
        (case sight_all es sp of (sp, out) \<Rightarrow> (sp, if fresh then e # out else out)))"

text \<open>One call on each of the members numbered, one after the other, and what each returned.\<close>

fun each_peer :: "nat list \<Rightarrow> (nat \<Rightarrow> link \<Rightarrow> (link, 'a) awaited) \<Rightarrow> link list \<Rightarrow> (link list \<times> (mail_error, 'a) result list) option" where
  "each_peer [] f ps = Some (ps, [])"
| "each_peer (i # is) f ps =
     (case f i (ps ! i) of
        None \<Rightarrow> None
      | Some (lk, r) \<Rightarrow> map_option (\<lambda>(ps, rs). (ps, r # rs)) (each_peer is f (ps[i := lk])))"

definition on_peers ::
  "nat list \<Rightarrow> (nat \<Rightarrow> link \<Rightarrow> (link, 'a) awaited) \<Rightarrow> ((mail_error, 'a) result list \<Rightarrow> spread \<Rightarrow> 'b) \<Rightarrow> spread \<Rightarrow> 'b option" where
  "on_peers is f g sp = map_option (\<lambda>(ps, rs). g rs (sp\<lparr>sp_peers := ps\<rparr>)) (each_peer is f (sp_peers sp))"

definition oks :: "('e, 'a) result list \<Rightarrow> 'a list" where
  "oks = List.map_filter (\<lambda>r. case r of Inl _ \<Rightarrow> None | Inr a \<Rightarrow> Some a)"

definition errs :: "('e, 'a) result list \<Rightarrow> 'e list" where
  "errs = List.map_filter (\<lambda>r. case r of Inl e \<Rightarrow> Some e | Inr _ \<Rightarrow> None)"

text \<open>The tags asked of the member with a number, and the members asked for any.\<close>

definition tags_of_peer :: "mail_lib \<Rightarrow> spread \<Rightarrow> str list \<Rightarrow> nat \<Rightarrow> str list" where
  "tags_of_peer M sp tags i = filter (\<lambda>t. i \<in> set (holders_of M sp t)) tags"

definition peers_asked :: "mail_lib \<Rightarrow> spread \<Rightarrow> str list \<Rightarrow> nat list" where
  "peers_asked M sp tags = filter (\<lambda>i. tags_of_peer M sp tags i \<noteq> []) [0..<length (sp_peers sp)]"

definition spread_subscribe :: "mail_lib \<Rightarrow> str list \<Rightarrow> spread \<Rightarrow> (spread, str list) awaited" where
  "spread_subscribe M tags sp =
     on_peers (peers_asked M sp tags) (\<lambda>i. link_subscribe (tags_of_peer M sp tags i))
       (\<lambda>rs sp. case sight_all (concat (oks rs)) sp of (sp, out) \<Rightarrow> (sp, Inr out)) sp"

definition spread_collected :: "mail_lib \<Rightarrow> str list \<Rightarrow> spread \<Rightarrow> (spread, unit) awaited" where
  "spread_collected M envelopes sp =
     (if envelopes = [] then Some (sp, Inr ())
      else on_peers [0..<length (sp_peers sp)] (\<lambda>_. link_collected M envelopes) (\<lambda>_ sp. (sp, Inr ())) sp)"

definition spread_unsubscribe :: "mail_lib \<Rightarrow> str list \<Rightarrow> spread \<Rightarrow> (spread, unit) awaited" where
  "spread_unsubscribe M tags sp =
     on_peers (peers_asked M sp tags) (\<lambda>i. link_unsubscribe (tags_of_peer M sp tags i)) (\<lambda>_ sp. (sp, Inr ())) sp"

definition deposit_holders :: "mail_lib \<Rightarrow> str \<Rightarrow> spread \<Rightarrow> nat list" where
  "deposit_holders M envelope sp =
     (case tag_of_envelope M envelope of Some tag \<Rightarrow> holders_of M sp tag | None \<Rightarrow> [0..<length (sp_peers sp)])"

definition spread_deposit :: "mail_lib \<Rightarrow> str \<Rightarrow> spread \<Rightarrow> (spread, unit) awaited" where
  "spread_deposit M envelope sp =
     on_peers (deposit_holders M envelope sp) (\<lambda>_. link_deposit envelope)
       (\<lambda>rs sp. (sp, if oks rs \<noteq> [] then Inr () else Inl (if errs rs = [] then NobodyStored else last (errs rs)))) sp"

definition spread_hold_token :: "str \<Rightarrow> spread \<Rightarrow> spread" where
  "spread_hold_token token sp = sp\<lparr>sp_peers := map (link_hold_token token) (sp_peers sp)\<rparr>"

definition spread_authenticate :: "str \<Rightarrow> spread \<Rightarrow> (spread, granted) awaited" where
  "spread_authenticate token sp =
     on_peers [0..<length (sp_peers sp)] (\<lambda>_. link_authenticate token)
       (\<lambda>rs sp. (sp, if oks rs \<noteq> [] then Inr (last (oks rs))
                      else Inl (if errs rs = [] then NobodyAccepted else last (errs rs)))) sp"

text \<open>The clock lets \<open>visits\<close> members be asked before the deadline.\<close>

fun spread_next_envelope :: "nat \<Rightarrow> spread \<Rightarrow> (spread, str option) awaited" where
  "spread_next_envelope 0 sp = Some (sp, Inr None)"
| "spread_next_envelope (Suc visits) sp =
     (let i = unat (sp_next_peer sp) mod length (sp_peers sp); sp = sp\<lparr>sp_next_peer := sp_next_peer sp + 1\<rparr>
      in case link_next_envelope (sp_peers sp ! i) of
           None \<Rightarrow> None
         | Some (lk, r) \<Rightarrow>
             let sp = sp\<lparr>sp_peers := (sp_peers sp)[i := lk]\<rparr>
             in (case r of
                   Inr (Some e) \<Rightarrow>
                     (case first_sight e sp of
                        (sp, True) \<Rightarrow> Some (sp, Inr (Some e))
                      | (sp, False) \<Rightarrow> spread_next_envelope visits sp)
                 | _ \<Rightarrow> spread_next_envelope visits sp))"

section \<open>Either\<close>

datatype mailbox_client = OneMailbox link | Spread spread

definition in_constellation :: "directory \<Rightarrow> bytes \<Rightarrow> bool" where
  "in_constellation dir url \<longleftrightarrow> (\<exists>m\<in>set (dir_mailboxes dir). mb_url m = url)"

definition CONSTELLATION :: directory where
  "CONSTELLATION =
     \<lparr> dir_version = 1, dir_replicas = 2, dir_mailboxes =
        [\<lparr> mb_id = ascii ''orvexa'', mb_url = ascii ''wss://orvexa.telyx.me/mailbox'' \<rparr>,
         \<lparr> mb_id = ascii ''caelix'', mb_url = ascii ''wss://caelix.telyx.me/mailbox'' \<rparr>,
         \<lparr> mb_id = ascii ''nyxara'', mb_url = ascii ''wss://nyxara.telyx.me/mailbox'' \<rparr>] \<rparr>"

text \<open>\<open>answers\<close> says what connecting to an address brings.\<close>

definition connect_for :: "(bytes \<Rightarrow> (socket_frame list \<times> bool list) option) \<Rightarrow> bytes \<Rightarrow> (mail_error, mailbox_client) result" where
  "connect_for answers url =
     (if in_constellation CONSTELLATION url then
        bind_result (connect_constellation CONSTELLATION (map (\<lambda>m. answers (mb_url m)) (dir_mailboxes CONSTELLATION)))
          (\<lambda>sp. Inr (Spread sp))
      else bind_result (ok_or NobodyAnswered (link_connect url (answers url))) (\<lambda>lk. Inr (OneMailbox lk)))"

definition rewrap :: "('x \<Rightarrow> 'y) \<Rightarrow> ('x, 'a) awaited \<Rightarrow> ('y, 'a) awaited" where
  "rewrap c = map_option (\<lambda>(x, r). (c x, r))"

fun mail_subscribe :: "mail_lib \<Rightarrow> str list \<Rightarrow> mailbox_client \<Rightarrow> (mailbox_client, str list) awaited" where
  "mail_subscribe M tags (OneMailbox lk) = rewrap OneMailbox (link_subscribe tags lk)"
| "mail_subscribe M tags (Spread sp) = rewrap Spread (spread_subscribe M tags sp)"

fun mail_unsubscribe :: "mail_lib \<Rightarrow> str list \<Rightarrow> mailbox_client \<Rightarrow> (mailbox_client, unit) awaited" where
  "mail_unsubscribe M tags (OneMailbox lk) = rewrap OneMailbox (link_unsubscribe tags lk)"
| "mail_unsubscribe M tags (Spread sp) = rewrap Spread (spread_unsubscribe M tags sp)"

fun mail_collected :: "mail_lib \<Rightarrow> str list \<Rightarrow> mailbox_client \<Rightarrow> (mailbox_client, unit) awaited" where
  "mail_collected M envelopes (OneMailbox lk) = rewrap OneMailbox (link_collected M envelopes lk)"
| "mail_collected M envelopes (Spread sp) = rewrap Spread (spread_collected M envelopes sp)"

fun mail_deposit :: "mail_lib \<Rightarrow> str \<Rightarrow> mailbox_client \<Rightarrow> (mailbox_client, unit) awaited" where
  "mail_deposit M envelope (OneMailbox lk) = rewrap OneMailbox (link_deposit envelope lk)"
| "mail_deposit M envelope (Spread sp) = rewrap Spread (spread_deposit M envelope sp)"

fun mail_next_envelope :: "nat \<Rightarrow> mailbox_client \<Rightarrow> (mailbox_client, str option) awaited" where
  "mail_next_envelope visits (OneMailbox lk) = rewrap OneMailbox (link_next_envelope lk)"
| "mail_next_envelope visits (Spread sp) = rewrap Spread (spread_next_envelope visits sp)"

section \<open>Awaiting\<close>

lemma await_then_Some:
  "await_then r f = Some (y, b) \<longleftrightarrow>
     (\<exists>x e. r = Some (x, Inl e) \<and> y = x \<and> b = Inl e) \<or> (\<exists>x a. r = Some (x, Inr a) \<and> f a x = Some (y, b))"
  by (auto simp: await_then_def split: option.splits sum.splits)

text \<open>What is kept by a call and by what follows it is kept by both.\<close>

lemma await_then_keeps:
  assumes "await_then r f = Some (y, b)" "\<And>x a. r = Some (x, a) \<Longrightarrow> I x"
    "\<And>x a. r = Some (x, Inr a) \<Longrightarrow> I x \<Longrightarrow> f a x = Some (y, b) \<Longrightarrow> I y"
  shows "I y"
  using assms(1) unfolding await_then_Some
proof (elim disjE exE conjE)
  show "I y" if "r = Some (x, Inl e)" "y = x" for x e using that assms(2) by simp
  show "I y" if "r = Some (x, Inr a)" "f a x = Some (y, b)" for x a using that assms(2,3) by blast
qed

lemma set_aside_Some:
  "set_aside r = Some (y, b) \<longleftrightarrow> (\<exists>lk ks. r = Some (lk, ks, b) \<and> y = lk\<lparr>lk_pending := lk_pending lk @ ks\<rparr>)"
  by (auto simp: set_aside_def)

lemma link_send_cases:
  "link_send r lk = (lk\<lparr>lk_writes := tl (lk_writes lk)\<rparr>, Inl Gone) \<and> (\<exists>ws. lk_writes lk = False # ws) \<or>
   link_send r lk = (lk\<lparr>lk_writes := tl (lk_writes lk), lk_said := lk_said lk @ [r]\<rparr>, Inr ()) \<and> \<not> (\<exists>ws. lk_writes lk = False # ws)"
  by (cases "lk_writes lk") (auto simp: link_send_def split: bool.splits)

lemma oks_simps [simp]: "oks [] = []" "oks (Inl e # rs) = oks rs" "oks (Inr a # rs) = a # oks rs"
  by (simp_all add: oks_def List.map_filter_def)

lemma errs_simps [simp]: "errs [] = []" "errs (Inl e # rs) = e # errs rs" "errs (Inr a # rs) = errs rs"
  by (simp_all add: errs_def List.map_filter_def)

section \<open>No envelope is read past\<close>

text \<open>The envelopes a list of frames still brings, up to its end.\<close>

fun envelopes_in :: "socket_frame list \<Rightarrow> str list" where
  "envelopes_in [] = []"
| "envelopes_in (TextFrame (Some (HeardEnvelope e)) # fs) = e # envelopes_in fs"
| "envelopes_in (CloseFrame # fs) = []"
| "envelopes_in (ReadFails # fs) = []"
| "envelopes_in (_ # fs) = envelopes_in fs"

definition to_come :: "link \<Rightarrow> str list" where
  "to_come lk = lk_pending lk @ (if lk_ended lk then [] else envelopes_in (lk_arrives lk))"

lemma to_come_update [simp]:
  "to_come (lk\<lparr>lk_presented := b\<rparr>) = to_come lk" "to_come (lk\<lparr>lk_token := tk\<rparr>) = to_come lk"
  by (simp_all add: to_come_def)

text \<open>A reaction that keeps an envelope or returns it, and returns nothing else; \<open>g\<close> is what a value hands over.\<close>

definition keeps_envelopes :: "('a \<Rightarrow> str list) \<Rightarrow> (client_reply \<Rightarrow> 'a reaction) \<Rightarrow> bool" where
  "keeps_envelopes g f \<longleftrightarrow>
     (\<forall>e. f (HeardEnvelope e) = Keep e \<or> (\<exists>a. f (HeardEnvelope e) = Return (Inr a) \<and> g a = [e])) \<and>
     (\<forall>r. (\<forall>e. r \<noteq> HeardEnvelope e) \<longrightarrow> f r = GoOn \<or> (\<exists>e. f r = Return (Inl e)) \<or> (\<exists>x. f r = Return (Inr x) \<and> g x = []))"

lemma keeps_envelopesD:
  assumes "keeps_envelopes g f"
  shows "f (HeardEnvelope e) = Keep e \<or> (\<exists>a. f (HeardEnvelope e) = Return (Inr a) \<and> g a = [e])"
    and "\<forall>e. r \<noteq> HeardEnvelope e \<Longrightarrow> f r = GoOn \<or> (\<exists>e. f r = Return (Inl e)) \<or> (\<exists>x. f r = Return (Inr x) \<and> g x = [])"
  using assms by (simp_all add: keeps_envelopes_def)

definition handed :: "('a \<Rightarrow> str list) \<Rightarrow> (mail_error, 'a) result \<Rightarrow> str list" where
  "handed g r = (case r of Inl _ \<Rightarrow> [] | Inr a \<Rightarrow> g a)"

lemma handed_simps [simp]: "handed g (Inl e) = []" "handed g (Inr a) = g a"
  by (simp_all add: handed_def)

lemma reply_loop_keeps:
  assumes "keeps_envelopes g f" "\<And>q. quiet = Some q \<Longrightarrow> g q = []"
  shows "reply_loop quiet f fs ks = Some (fs', ended, ks', r) \<Longrightarrow>
    ks' @ handed g r @ (if ended then [] else envelopes_in fs') = ks @ envelopes_in fs"
proof (induction fs arbitrary: ks)
  case Nil
  then show ?case using assms(2) by (auto split: option.splits)
next
  case (Cons x fs)
  show ?case
  proof (cases x)
    case (TextFrame t)
    show ?thesis
    proof (cases t)
      case (Some c)
      show ?thesis
      proof (cases "\<exists>e. c = HeardEnvelope e")
        case True
        then obtain e where c: "c = HeardEnvelope e" by blast
        show ?thesis
          using keeps_envelopesD(1) [OF assms(1), of e] Cons.prems Cons.IH TextFrame Some c by auto
      next
        case False
        then have "envelopes_in (x # fs) = envelopes_in fs" using TextFrame Some by (cases c) auto
        then show ?thesis
          using keeps_envelopesD(2) [OF assms(1), of c] False Cons.prems Cons.IH TextFrame Some by auto
      qed
    qed (use Cons.prems TextFrame in auto)
  next
    case Quiet
    then show ?thesis using Cons assms(2) by (auto split: option.splits)
  qed (use Cons in auto)
qed

lemma listen_keeps:
  assumes "keeps_envelopes g f" "\<And>q. quiet = Some q \<Longrightarrow> g q = []" "listen quiet f lk = Some (lk', ks, r)"
  shows "lk_pending lk' @ ks @ handed g r @ (if lk_ended lk' then [] else envelopes_in (lk_arrives lk')) = to_come lk"
proof (cases "lk_ended lk")
  case False
  then obtain fs ended where "reply_loop quiet f (lk_arrives lk) [] = Some (fs, ended, ks, r)"
    "lk' = lk\<lparr>lk_arrives := fs, lk_ended := ended\<rparr>"
    using assms(3) by (auto simp: listen_def)
  then show ?thesis using reply_loop_keeps [OF assms(1,2)] False by (fastforce simp: to_come_def)
qed (use assms(3) in \<open>auto simp: listen_def to_come_def\<close>)

lemma reactions_keep:
  "keeps_envelopes (\<lambda>_. []) on_subscribe_reply" "keeps_envelopes (\<lambda>_. []) on_deposit_reply" "keeps_envelopes (\<lambda>_. []) on_auth_reply"
  "keeps_envelopes (\<lambda>a. case a of None \<Rightarrow> [] | Some e \<Rightarrow> [e]) on_waiting_reply"
proof -
  have a: "f r = GoOn \<or> (\<exists>e. f r = Return (Inl e)) \<or> (\<exists>x. f r = Return (Inr x))"
    if "\<forall>e. f r \<noteq> Keep e" for f :: "client_reply \<Rightarrow> 'b reaction" and r
    using that by (cases "f r") (auto, meson sum.exhaust)
  have "\<forall>e. r \<noteq> HeardEnvelope e \<Longrightarrow> \<forall>e. on_subscribe_reply r \<noteq> Keep e \<and> on_deposit_reply r \<noteq> Keep e \<and> on_auth_reply r \<noteq> Keep e" for r
    by (cases r) auto
  then show "keeps_envelopes (\<lambda>_. []) on_subscribe_reply" "keeps_envelopes (\<lambda>_. []) on_deposit_reply" "keeps_envelopes (\<lambda>_. []) on_auth_reply"
    using a [of on_subscribe_reply] a [of on_deposit_reply] a [of on_auth_reply] by (simp_all add: keeps_envelopes_def)
  have "\<forall>e. r \<noteq> HeardEnvelope e \<Longrightarrow> on_waiting_reply r = GoOn \<or> (\<exists>e. on_waiting_reply r = Return (Inl e))" for r
    by (cases r) auto
  then show "keeps_envelopes (\<lambda>a. case a of None \<Rightarrow> [] | Some e \<Rightarrow> [e]) on_waiting_reply"
    by (auto simp: keeps_envelopes_def)
qed

lemma link_send_to_come: "link_send r lk = (lk', x) \<Longrightarrow> to_come lk' = to_come lk"
  using link_send_cases [of r lk] by (auto simp: to_come_def)

lemma set_aside_to_come:
  assumes "keeps_envelopes (\<lambda>_. []) f" "set_aside (listen None f lk) = Some (lk', r)"
  shows "to_come lk' = to_come lk"
proof -
  obtain lk1 ks where l: "listen None f lk = Some (lk1, ks, r)" "lk' = lk1\<lparr>lk_pending := lk_pending lk1 @ ks\<rparr>"
    using assms(2) by (auto simp: set_aside_Some)
  show ?thesis using listen_keeps [OF assms(1) _ l(1)] l(2) by (cases r) (auto simp: to_come_def)
qed

lemma deposit_once_to_come: "deposit_once e lk = Some (lk', r) \<Longrightarrow> to_come lk' = to_come lk"
  unfolding deposit_once_def
  by (erule await_then_keeps [where I = "\<lambda>x. to_come x = to_come lk"])
    (auto dest: set_aside_to_come [OF reactions_keep(2)] link_send_to_come)

lemma link_authenticate_to_come: "link_authenticate t lk = Some (lk', r) \<Longrightarrow> to_come lk' = to_come lk"
  unfolding link_authenticate_def Let_def
  by (erule await_then_keeps [where I = "\<lambda>x. to_come x = to_come lk"])
    (auto dest: set_aside_to_come [OF reactions_keep(3)] link_send_to_come)

lemma present_held_token_to_come:
  assumes "present_held_token lk = Some (lk', r)"
  shows "to_come lk' = to_come lk"
proof (cases "lk_presented lk \<or> lk_token lk = None")
  case False
  then obtain t where "await_then (link_authenticate t lk) (\<lambda>_ lk. Some (lk\<lparr>lk_presented := True\<rparr>, Inr True)) = Some (lk', r)"
    using assms by (auto simp: present_held_token_def)
  then show ?thesis
    by (rule await_then_keeps [where I = "\<lambda>x. to_come x = to_come lk"])
      (auto dest!: link_authenticate_to_come)
qed (use assms in \<open>auto simp: present_held_token_def split: option.splits\<close>)

lemma deposit_again_to_come: "deposit_again e lk = Some (lk', r) \<Longrightarrow> to_come lk' = to_come lk"
  unfolding deposit_again_def
  by (erule await_then_keeps [where I = "\<lambda>x. to_come x = to_come lk"]) (auto dest: deposit_once_to_come)

lemma link_deposit_to_come:
  assumes "link_deposit e lk = Some (lk', r)"
  shows "to_come lk' = to_come lk"
  using assms unfolding link_deposit_def
proof (rule await_then_keeps [where I = "\<lambda>x. to_come x = to_come lk"])
  show "to_come x = to_come lk" if "deposit_once e lk = Some (x, a)" for x a using that by (rule deposit_once_to_come)
  fix x d
  let ?after = "\<lambda>why. await_then (present_held_token x) (\<lambda>presented lk. if presented then deposit_again e lk else Some (lk, Inl why))"
  assume x: "to_come x = to_come lk"
    and d: "(case d of DepositStored \<Rightarrow> Some (x, Inr ()) | RefusedByTier why \<Rightarrow> ?after why | RefusedOutright why \<Rightarrow> Some (x, Inl why)) = Some (lk', r)"
  show "to_come lk' = to_come lk"
  proof (cases d)
    case (RefusedByTier why)
    then have "?after why = Some (lk', r)" using d by simp
    then show ?thesis
      by (rule await_then_keeps [where I = "\<lambda>x. to_come x = to_come lk"])
        (auto simp: x dest: present_held_token_to_come deposit_again_to_come split: if_splits)
  qed (use x d in auto)
qed

text \<open>What can be asked of one connection, and what it hands over.\<close>

datatype link_op =
    LinkSubscribe "str list"
  | LinkUnsubscribe "str list"
  | LinkCollected "str list"
  | LinkDeposit str
  | LinkAuthenticate str
  | LinkHoldToken str
  | LinkNext

definition hands :: "('a \<Rightarrow> str list) \<Rightarrow> ('x, 'a) awaited \<Rightarrow> ('x, str list) awaited" where
  "hands g = map_option (\<lambda>(x, r). (x, bind_result r (\<lambda>a. Inr (g a))))"

fun link_step :: "mail_lib \<Rightarrow> link_op \<Rightarrow> link \<Rightarrow> (link, str list) awaited" where
  "link_step M (LinkSubscribe tags) lk = link_subscribe tags lk"
| "link_step M (LinkUnsubscribe tags) lk = hands (\<lambda>_. []) (link_unsubscribe tags lk)"
| "link_step M (LinkCollected envelopes) lk = hands (\<lambda>_. []) (link_collected M envelopes lk)"
| "link_step M (LinkDeposit e) lk = hands (\<lambda>_. []) (link_deposit e lk)"
| "link_step M (LinkAuthenticate t) lk = hands (\<lambda>_. []) (link_authenticate t lk)"
| "link_step M (LinkHoldToken t) lk = Some (link_hold_token t lk, Inr [])"
| "link_step M LinkNext lk = hands (\<lambda>a. case a of None \<Rightarrow> [] | Some e \<Rightarrow> [e]) (link_next_envelope lk)"

text \<open>A history: the connection at its end and what each call returned.\<close>

fun link_run :: "mail_lib \<Rightarrow> link_op list \<Rightarrow> link \<Rightarrow> (link \<times> (mail_error, str list) result list) option" where
  "link_run M [] lk = Some (lk, [])"
| "link_run M (x # xs) lk =
     (case link_step M x lk of
        None \<Rightarrow> None
      | Some (lk, r) \<Rightarrow> map_option (\<lambda>(lk, rs). (lk, r # rs)) (link_run M xs lk))"

text \<open>
  What a call drops: a subscription that is refused or breaks off returns its error, and with it go the envelopes it had read
  in front of the answer.  No other call drops any.
\<close>

definition subscription_drops :: "str list \<Rightarrow> link \<Rightarrow> str list" where
  "subscription_drops tags lk =
     (case link_send (AskSubscribe tags) lk of
        (lk, Inl _) \<Rightarrow> []
      | (lk, Inr _) \<Rightarrow> (case listen None on_subscribe_reply lk of Some (_, waiting, Inl _) \<Rightarrow> waiting | _ \<Rightarrow> []))"

fun dropped_by :: "link_op \<Rightarrow> link \<Rightarrow> str list" where
  "dropped_by (LinkSubscribe tags) lk = subscription_drops tags lk"
| "dropped_by _ lk = []"

fun run_drops :: "mail_lib \<Rightarrow> link_op list \<Rightarrow> link \<Rightarrow> str list" where
  "run_drops M [] lk = []"
| "run_drops M (x # xs) lk =
     dropped_by x lk @ (case link_step M x lk of None \<Rightarrow> [] | Some (lk, _) \<Rightarrow> run_drops M xs lk)"

definition refused_subscription :: "link_op \<Rightarrow> (mail_error, str list) result \<Rightarrow> bool" where
  "refused_subscription x r \<longleftrightarrow> (\<exists>tags e. x = LinkSubscribe tags \<and> r = Inl e)"

lemma link_subscribe_hands:
  assumes "link_subscribe tags lk = Some (lk', r)"
  shows "mset (concat (oks [r])) + mset (subscription_drops tags lk) + mset (to_come lk') = mset (to_come lk)"
    and "r = Inr es \<Longrightarrow> subscription_drops tags lk = []"
proof -
  obtain lk1 x where s: "link_send (AskSubscribe tags) lk = (lk1, x)" by fastforce
  have came: "to_come lk1 = to_come lk" using link_send_to_come [OF s] .
  show "mset (concat (oks [r])) + mset (subscription_drops tags lk) + mset (to_come lk') = mset (to_come lk)"
  proof (cases x)
    case (Inl e)
    then have "lk' = lk1" "r = Inl e" using assms s by (auto simp: link_subscribe_def await_then_def)
    then show ?thesis using came s Inl by (simp add: subscription_drops_def)
  next
    case (Inr u)
    obtain waiting y where l: "listen None on_subscribe_reply lk1 = Some (lk', waiting, y)" "r = bind_result y (\<lambda>_. Inr waiting)"
      using assms s Inr by (auto simp: link_subscribe_def await_then_def)
    let ?left = "if lk_ended lk' then [] else envelopes_in (lk_arrives lk')"
    have "handed (\<lambda>_. []) y = []" by (cases y) simp_all
    then have "to_come lk = lk_pending lk' @ waiting @ ?left"
      using listen_keeps [OF reactions_keep(1) _ l(1)] came by simp
    then have "mset (to_come lk) = mset (lk_pending lk') + mset waiting + mset ?left" by (simp only: mset_append add.assoc)
    moreover have "mset (to_come lk') = mset (lk_pending lk') + mset ?left" by (simp only: to_come_def mset_append)
    moreover have "mset (concat (oks [r])) + mset (subscription_drops tags lk) = mset waiting"
      using s Inr l by (cases y) (simp_all add: subscription_drops_def)
    ultimately show ?thesis by (simp only: ac_simps)
  qed
  show "r = Inr es \<Longrightarrow> subscription_drops tags lk = []"
    using assms s by (cases x) (auto simp: link_subscribe_def await_then_def subscription_drops_def result_simps split: option.splits sum.splits)
qed

lemma link_next_hands:
  assumes "link_next_envelope lk = Some (lk', r)"
  shows "handed (\<lambda>a. case a of None \<Rightarrow> [] | Some e \<Rightarrow> [e]) r @ to_come lk' = to_come lk"
proof (cases "lk_pending lk")
  case Nil
  let ?g = "\<lambda>a. case a of None \<Rightarrow> [] | Some e \<Rightarrow> [e]"
  obtain ks where l: "listen (Some None) on_waiting_reply lk = Some (lk', ks, r)"
    using assms Nil by (auto simp: link_next_envelope_def)
  have "lk_pending lk' = []" using l Nil by (auto simp: listen_def split: if_splits)
  moreover have "ks = []"
  proof -
    have "reply_loop (Some None) on_waiting_reply fs a = Some (fs', e, ks, r) \<Longrightarrow> ks = a" for fs a fs' e
    proof (induction "Some None :: str option option" on_waiting_reply fs a rule: reply_loop.induct)
      case (3 x fs a)
      then show ?case by (cases x) auto
    qed auto
    then show ?thesis using l by (auto simp: listen_def split: if_splits)
  qed
  ultimately show ?thesis using listen_keeps [OF reactions_keep(4) _ l] by (simp add: to_come_def)
qed (use assms in \<open>auto simp: link_next_envelope_def to_come_def\<close>)

lemma link_step_hands:
  assumes "link_step M x lk = Some (lk', r)"
  shows "mset (concat (oks [r])) + mset (dropped_by x lk) + mset (to_come lk') = mset (to_come lk)"
proof (cases x)
  case (LinkSubscribe tags)
  then show ?thesis using link_subscribe_hands(1) assms by simp
next
  case LinkNext
  then obtain r' where r': "link_next_envelope lk = Some (lk', r')" "r = bind_result r' (\<lambda>a. Inr (case a of None \<Rightarrow> [] | Some e \<Rightarrow> [e]))"
    using assms by (auto simp: hands_def)
  have "mset (handed (\<lambda>a. case a of None \<Rightarrow> [] | Some e \<Rightarrow> [e]) r' @ to_come lk') = mset (to_come lk)"
    using link_next_hands [OF r'(1)] by simp
  then show ?thesis using LinkNext by (cases r') (simp_all add: r'(2))
next
  case (LinkCollected es)
  then show ?thesis using assms
    by (auto simp: hands_def link_collected_def Let_def bind_result_Inr_iff oks_def List.map_filter_def
        split: if_splits prod.splits sum.splits dest: link_send_to_come [OF sym] link_send_to_come)
next
  case (LinkUnsubscribe tags)
  then obtain y where "link_send (AskUnsubscribe tags) lk = (lk', y)" "r = bind_result y (\<lambda>_. Inr [])"
    using assms by (cases "link_send (AskUnsubscribe tags) lk") (auto simp: hands_def link_unsubscribe_def)
  then show ?thesis using link_send_to_come LinkUnsubscribe by (cases y) auto
next
  case (LinkDeposit e)
  then obtain y where "link_deposit e lk = Some (lk', y)" "r = bind_result y (\<lambda>_. Inr [])"
    using assms by (auto simp: hands_def)
  then show ?thesis using link_deposit_to_come LinkDeposit by (cases y) auto
next
  case (LinkAuthenticate e)
  then obtain y where "link_authenticate e lk = Some (lk', y)" "r = bind_result y (\<lambda>_. Inr [])"
    using assms by (auto simp: hands_def)
  then show ?thesis using link_authenticate_to_come LinkAuthenticate by (cases y) auto
next
  case (LinkHoldToken t)
  then show ?thesis using assms by (auto simp: link_hold_token_def)
qed

lemma link_run_hands:
  "link_run M xs lk = Some (lk', rs) \<Longrightarrow>
   mset (concat (oks rs)) + mset (run_drops M xs lk) + mset (to_come lk') = mset (to_come lk)"
proof (induction xs arbitrary: lk rs)
  case (Cons x xs)
  then obtain lk1 r rs' where s: "link_step M x lk = Some (lk1, r)" "link_run M xs lk1 = Some (lk', rs')" "rs = r # rs'"
    by (auto split: option.splits)
  have "mset (concat (oks rs)) + mset (run_drops M (x # xs) lk) + mset (to_come lk') =
      mset (concat (oks [r])) + mset (dropped_by x lk) + (mset (concat (oks rs')) + mset (run_drops M xs lk1) + mset (to_come lk'))"
    using s(1) by (cases r) (simp_all add: s(3) ac_simps)
  also have "mset (concat (oks rs')) + mset (run_drops M xs lk1) + mset (to_come lk') = mset (to_come lk1)" using Cons.IH s(2) .
  also have "mset (concat (oks [r])) + mset (dropped_by x lk) + mset (to_come lk1) = mset (to_come lk)"
    using link_step_hands [OF s(1)] .
  finally show ?case .
qed simp

lemma run_drops_nothing:
  "link_run M xs lk = Some (lk', rs) \<Longrightarrow> \<forall>(x, r)\<in>set (zip xs rs). \<not> refused_subscription x r \<Longrightarrow> run_drops M xs lk = []"
proof (induction xs arbitrary: lk rs)
  case (Cons x xs)
  then obtain lk1 r rs' where s: "link_step M x lk = Some (lk1, r)" "link_run M xs lk1 = Some (lk', rs')" "rs = r # rs'"
    by (auto split: option.splits)
  have "\<not> refused_subscription x r" using Cons.prems(2) s(3) by simp
  then have "dropped_by x lk = []"
    using s(1) link_subscribe_hands(2) by (cases x; cases r) (auto simp: refused_subscription_def)
  then show ?case using Cons s by simp
qed simp

text \<open>C11: no envelope is read past, but by a subscription that fails.  Whatever is asked of a connection and whatever it brings in
  between, the envelopes handed over, those set aside, those still to come, and those that subscriptions which were refused or
  broke off had read in front of their error, are the ones there were, each as often; and where no subscription failed,
  nothing was dropped.\<close>

theorem no_envelope_is_read_past:
  assumes "link_run M xs lk = Some (lk', rs)"
  shows "mset (concat (oks rs)) + mset (run_drops M xs lk) + mset (to_come lk') = mset (to_come lk) \<and>
    ((\<forall>(x, r)\<in>set (zip xs rs). \<not> refused_subscription x r) \<longrightarrow> run_drops M xs lk = [])"
  using link_run_hands [OF assms] run_drops_nothing [OF assms] by blast

definition toy_link :: "socket_frame list \<Rightarrow> link" where
  "toy_link fs =
     \<lparr> lk_url = [], lk_arrives = fs, lk_ended = False, lk_writes = [], lk_said = [], lk_pending = [], lk_token = None, lk_presented = False \<rparr>"

definition toy_mail :: mail_lib where
  "toy_mail = \<lparr> ml_unb64 = Some, ml_unhex = Some, ml_kdf = (\<lambda>_ _. []), ml_blake3 = (\<lambda>x. x) \<rparr>"

text \<open>An envelope in front of the answer to a deposit is handed over later; one in front of a refusal is dropped.\<close>

theorem no_envelope_is_read_past_witness:
  "\<exists>lk rs. link_run toy_mail [LinkDeposit [7], LinkNext, LinkSubscribe [[8]]]
       (toy_link [TextFrame (Some (HeardEnvelope [1])), TextFrame (Some HeardStored), TextFrame (Some (HeardEnvelope [2])),
                  TextFrame (Some (HeardError [3])), TextFrame (Some (HeardEnvelope [4]))]) = Some (lk, rs) \<and>
     concat (oks rs) = [[1]] \<and> to_come lk = [[4]] \<and>
     run_drops toy_mail [LinkDeposit [7], LinkNext, LinkSubscribe [[8]]]
       (toy_link [TextFrame (Some (HeardEnvelope [1])), TextFrame (Some HeardStored), TextFrame (Some (HeardEnvelope [2])),
                  TextFrame (Some (HeardError [3])), TextFrame (Some (HeardEnvelope [4]))]) = [[2]]"
proof -
  let ?fs = "[TextFrame (Some (HeardEnvelope [1])), TextFrame (Some HeardStored), TextFrame (Some (HeardEnvelope [2])),
    TextFrame (Some (HeardError [3])), TextFrame (Some (HeardEnvelope [4]))]"
  let ?ops = "[LinkDeposit [7], LinkNext, LinkSubscribe [[8]]]"
  have "\<exists>lk. link_run toy_mail ?ops (toy_link ?fs) = Some (lk, [Inr [], Inr [[1]], Inl (SubscriptionRefused [3])]) \<and> to_come lk = [[4]]"
    by (simp add: toy_link_def link_deposit_def deposit_once_def await_then_def link_send_def listen_def set_aside_def hands_def
        link_next_envelope_def link_subscribe_def to_come_def)
  then obtain lk where run: "link_run toy_mail ?ops (toy_link ?fs) = Some (lk, [Inr [], Inr [[1]], Inl (SubscriptionRefused [3])])"
    and left: "to_come lk = [[4]]" by blast
  have "mset (concat (oks [Inr [], Inr [[1 :: nat]], Inl (SubscriptionRefused [3])])) + mset (run_drops toy_mail ?ops (toy_link ?fs)) + mset [[4]] =
      mset (to_come (toy_link ?fs))"
    using no_envelope_is_read_past [OF run] left by simp
  then have "mset (run_drops toy_mail ?ops (toy_link ?fs)) = {#[2]#}" by (simp add: toy_link_def to_come_def)
  then show ?thesis using run left by simp
qed

section \<open>Nothing is handed over twice\<close>

text \<open>What can be asked of a constellation.\<close>

datatype spread_op =
    SpreadSubscribe "str list"
  | SpreadUnsubscribe "str list"
  | SpreadCollected "str list"
  | SpreadDeposit str
  | SpreadAuthenticate str
  | SpreadHoldToken str
  | SpreadNext nat

fun spread_step :: "mail_lib \<Rightarrow> spread_op \<Rightarrow> spread \<Rightarrow> (spread, str list) awaited" where
  "spread_step M (SpreadSubscribe tags) sp = spread_subscribe M tags sp"
| "spread_step M (SpreadUnsubscribe tags) sp = hands (\<lambda>_. []) (spread_unsubscribe M tags sp)"
| "spread_step M (SpreadCollected envelopes) sp = hands (\<lambda>_. []) (spread_collected M envelopes sp)"
| "spread_step M (SpreadDeposit e) sp = hands (\<lambda>_. []) (spread_deposit M e sp)"
| "spread_step M (SpreadAuthenticate t) sp = hands (\<lambda>_. []) (spread_authenticate t sp)"
| "spread_step M (SpreadHoldToken t) sp = Some (spread_hold_token t sp, Inr [])"
| "spread_step M (SpreadNext visits) sp = hands (\<lambda>a. case a of None \<Rightarrow> [] | Some e \<Rightarrow> [e]) (spread_next_envelope visits sp)"

fun spread_run :: "mail_lib \<Rightarrow> spread_op list \<Rightarrow> spread \<Rightarrow> (spread \<times> (mail_error, str list) result list) option" where
  "spread_run M [] sp = Some (sp, [])"
| "spread_run M (x # xs) sp =
     (case spread_step M x sp of
        None \<Rightarrow> None
      | Some (sp, r) \<Rightarrow> map_option (\<lambda>(sp, rs). (sp, r # rs)) (spread_run M xs sp))"

text \<open>The memory holds the last of what was handed over, and no two of any so many in a row are the same.\<close>

definition remembers_last :: "str list \<Rightarrow> spread \<Rightarrow> bool" where
  "remembers_last out sp \<longleftrightarrow>
     sp_seen sp = set (sp_seen_order sp) \<and> distinct (sp_seen_order sp) \<and> length (sp_seen_order sp) \<le> SEEN_AT_MOST \<and>
     (\<exists>old. out = old @ sp_seen_order sp \<and> (old \<noteq> [] \<longrightarrow> length (sp_seen_order sp) = SEEN_AT_MOST)) \<and>
     (\<forall>i j. i < j \<and> j < length out \<and> j \<le> i + SEEN_AT_MOST \<longrightarrow> out ! i \<noteq> out ! j)"

lemma seen_positive: "0 < SEEN_AT_MOST"
  by (simp add: SEEN_AT_MOST_def)

lemma remembers_last_peers [simp]:
  "remembers_last out (sp\<lparr>sp_peers := ps\<rparr>) = remembers_last out sp" "remembers_last out (sp\<lparr>sp_next_peer := n\<rparr>) = remembers_last out sp"
  by (simp_all add: remembers_last_def)

lemma first_sight_remembers:
  assumes "remembers_last out sp" "first_sight e sp = (sp', fresh)"
  shows "remembers_last (if fresh then out @ [e] else out) sp'"
proof (cases "e \<in> sp_seen sp")
  case False
  let ?o = "sp_seen_order sp"
  obtain old where out: "out = old @ ?o" "old \<noteq> [] \<longrightarrow> length ?o = SEEN_AT_MOST" using assms(1) by (auto simp: remembers_last_def)
  have o: "sp_seen sp = set ?o" "distinct ?o" "length ?o \<le> SEEN_AT_MOST" using assms(1) by (auto simp: remembers_last_def)
  have fresh: "fresh" using assms(2) False by (auto simp: first_sight_def Let_def split: if_splits)
  have apart: "(out @ [e]) ! i \<noteq> (out @ [e]) ! j" if "i < j" "j < length (out @ [e])" "j \<le> i + SEEN_AT_MOST" for i j
  proof (cases "j < length out")
    case True
    then show ?thesis using assms(1) that by (auto simp: remembers_last_def nth_append)
  next
    case j: False
    then have "length old \<le> i" using that out by (cases "old = []") auto
    then have "out ! i \<in> set ?o" using that j out(1) by (auto simp: nth_append intro!: nth_mem)
    then show ?thesis using that j False o(1) by (auto simp: nth_append)
  qed
  show ?thesis
  proof (cases "SEEN_AT_MOST < length (?o @ [e])")
    case True
    then obtain a os where a: "?o = a # os" "length ?o = SEEN_AT_MOST" using o(3) seen_positive by (cases ?o) auto
    have sp': "sp' = sp\<lparr>sp_seen := insert e (sp_seen sp) - {a}, sp_seen_order := os @ [e]\<rparr>"
      using assms(2) False True a by (auto simp: first_sight_def Let_def)
    have "out @ [e] = (old @ [a]) @ (os @ [e])" using out(1) a(1) by simp
    then show ?thesis using sp' a o False fresh apart by (auto simp: remembers_last_def intro!: exI [of _ "old @ [a]"])
  next
    case False
    then have "old = []" using out(2) by auto
    then show ?thesis using assms(2) False \<open>e \<notin> sp_seen sp\<close> o fresh apart out(1) by (auto simp: remembers_last_def first_sight_def Let_def)
  qed
qed (use assms in \<open>auto simp: first_sight_def\<close>)

lemma sight_all_remembers:
  "remembers_last out sp \<Longrightarrow> sight_all es sp = (sp', fresh) \<Longrightarrow> remembers_last (out @ fresh) sp'"
proof (induction es arbitrary: out sp fresh)
  case (Cons e es)
  obtain sp1 new where one: "first_sight e sp = (sp1, new)" by (cases "first_sight e sp")
  obtain rest where rest: "sight_all es sp1 = (sp', rest)" "fresh = (if new then e # rest else rest)"
    using Cons.prems(2) one by (auto split: prod.splits)
  have "remembers_last ((if new then out @ [e] else out) @ rest) sp'"
    using Cons.IH [OF first_sight_remembers [OF Cons.prems(1) one] rest(1)] .
  then show ?case using rest(2) by (cases new) auto
qed simp

lemma next_remembers:
  "remembers_last out sp \<Longrightarrow> spread_next_envelope n sp = Some (sp', r) \<Longrightarrow>
   remembers_last (out @ handed (\<lambda>a. case a of None \<Rightarrow> [] | Some e \<Rightarrow> [e]) r) sp'"
proof (induction n arbitrary: sp)
  case (Suc n)
  let ?i = "unat (sp_next_peer sp) mod length (sp_peers sp)"
  obtain lk x where one: "link_next_envelope (sp_peers sp ! ?i) = Some (lk, x)"
    using Suc.prems(2) by (auto simp: Let_def split: option.splits)
  let ?sp = "sp\<lparr>sp_next_peer := sp_next_peer sp + 1, sp_peers := (sp_peers sp)[?i := lk]\<rparr>"
  have kept: "remembers_last out ?sp" using Suc.prems(1) by simp
  show ?case
  proof (cases "\<exists>e. x = Inr (Some e)")
    case True
    then obtain e where x: "x = Inr (Some e)" by blast
    obtain sp2 fresh where f: "first_sight e ?sp = (sp2, fresh)" by (cases "first_sight e ?sp")
    show ?thesis
      using first_sight_remembers [OF kept f] Suc.prems(2) Suc.IH [of sp2] one x f by (cases fresh) (auto simp: Let_def)
  next
    case False
    then have "spread_next_envelope n ?sp = Some (sp', r)"
      using Suc.prems(2) one by (auto simp: Let_def split: sum.splits option.splits)
    then show ?thesis using Suc.IH kept by blast
  qed
qed auto

lemma on_peers_remembers:
  "on_peers is f (\<lambda>rs sp. (sp, h rs)) sp = Some (sp', r) \<Longrightarrow> remembers_last out sp' = remembers_last out sp"
  by (auto simp: on_peers_def)

lemma nothing_handed: "set (concat (oks [bind_result y (\<lambda>_. Inr [])])) = {}"
  by (cases y) simp_all

lemma spread_step_remembers:
  assumes "remembers_last out sp" "spread_step M x sp = Some (sp', r)"
  shows "remembers_last (out @ concat (oks [r])) sp'"
proof (cases x)
  case (SpreadSubscribe tags)
  then obtain ps and rs :: "(mail_error, str list) result list" where "(case sight_all (concat (oks rs)) (sp\<lparr>sp_peers := ps\<rparr>) of (sp, out) \<Rightarrow> (sp, Inr out)) = (sp', r)"
    using assms(2) by (auto simp: spread_subscribe_def on_peers_def)
  moreover obtain sp1 fresh where "sight_all (concat (oks rs)) (sp\<lparr>sp_peers := ps\<rparr>) = (sp1, fresh)"
    by (cases "sight_all (concat (oks rs)) (sp\<lparr>sp_peers := ps\<rparr>)")
  ultimately have "sight_all (concat (oks rs)) (sp\<lparr>sp_peers := ps\<rparr>) = (sp', fresh)" "r = Inr fresh" by auto
  then show ?thesis using sight_all_remembers [of out "sp\<lparr>sp_peers := ps\<rparr>"] assms(1) by simp
next
  case (SpreadNext n)
  then obtain y where y: "spread_next_envelope n sp = Some (sp', y)" "r = bind_result y (\<lambda>a. Inr (case a of None \<Rightarrow> [] | Some e \<Rightarrow> [e]))"
    using assms(2) by (auto simp: hands_def)
  then show ?thesis using next_remembers [OF assms(1) y(1)] by (cases y) simp_all
next
  case (SpreadCollected es)
  then show ?thesis using assms by (auto simp: hands_def spread_collected_def on_peers_def split: if_splits)
next
  case (SpreadHoldToken t)
  then show ?thesis using assms by (auto simp: spread_hold_token_def)
next
  case (SpreadUnsubscribe tags)
  then show ?thesis using assms by (auto simp: hands_def spread_unsubscribe_def on_peers_def)
next
  case (SpreadDeposit e)
  then obtain y :: "(mail_error, unit) result" where "spread_deposit M e sp = Some (sp', y)" "r = bind_result y (\<lambda>_. Inr [])"
    using assms(2) by (auto simp: hands_def)
  then show ?thesis using assms(1) nothing_handed [of y] by (auto simp: spread_deposit_def on_peers_def)
next
  case (SpreadAuthenticate t)
  then obtain y :: "(mail_error, granted) result" where "spread_authenticate t sp = Some (sp', y)" "r = bind_result y (\<lambda>_. Inr [])"
    using assms(2) by (auto simp: hands_def)
  then show ?thesis using assms(1) nothing_handed [of y] by (auto simp: spread_authenticate_def on_peers_def)
qed

lemma spread_run_remembers:
  "remembers_last out sp \<Longrightarrow> spread_run M xs sp = Some (sp', rs) \<Longrightarrow> remembers_last (out @ concat (oks rs)) sp'"
proof (induction xs arbitrary: out sp rs)
  case (Cons x xs)
  then obtain sp1 r rs' where s: "spread_step M x sp = Some (sp1, r)" "spread_run M xs sp1 = Some (sp', rs')" "rs = r # rs'"
    by (auto split: option.splits)
  have "remembers_last ((out @ concat (oks [r])) @ concat (oks rs')) sp'"
    using Cons.IH [OF spread_step_remembers [OF Cons.prems(1) s(1)] s(2)] .
  then show ?case by (cases r) (simp_all add: s(3))
qed simp

text \<open>C12: a copy is not handed over a second time.  In whatever order the members of a constellation bring what they hold, of the
  envelopes handed over since it was connected no two that have fewer than 4000 others between them are the same.\<close>

theorem copies_are_handed_over_once:
  assumes "connect_constellation dir answers = Inr sp" "spread_run M xs sp = Some (sp', rs)" "out = concat (oks rs)"
    "i < j" "j < length out" "j \<le> i + SEEN_AT_MOST"
  shows "out ! i \<noteq> out ! j"
proof -
  have "remembers_last [] sp" using assms(1) by (auto simp: connect_constellation_def remembers_last_def Let_def split: if_splits)
  then have "remembers_last out sp'" using spread_run_remembers [OF _ assms(2)] assms(3) by fastforce
  then show ?thesis using assms(4-6) by (simp add: remembers_last_def)
qed

theorem copies_are_handed_over_once_witness:
  "\<exists>sp sp' rs. connect_constellation CONSTELLATION [Some ([TextFrame (Some (HeardEnvelope [1])), TextFrame (Some (HeardReady 1))], []),
         Some ([TextFrame (Some (HeardEnvelope [1])), TextFrame (Some (HeardEnvelope [2])), TextFrame (Some (HeardReady 2))], []), None] = Inr sp \<and>
     spread_run toy_mail [SpreadSubscribe [[]]] sp = Some (sp', rs) \<and> concat (oks rs) = [[1], [2]] \<and>
     concat (oks rs) ! 0 \<noteq> concat (oks rs) ! 1"
proof -
  let ?answers = "[Some ([TextFrame (Some (HeardEnvelope [1])), TextFrame (Some (HeardReady 1))], []),
    Some ([TextFrame (Some (HeardEnvelope [1])), TextFrame (Some (HeardEnvelope [2])), TextFrame (Some (HeardReady 2))], []), None]
    :: (socket_frame list \<times> bool list) option list"
  obtain sp where c: "connect_constellation CONSTELLATION ?answers = Inr sp"
    by (simp add: connect_constellation_def CONSTELLATION_def link_connect_def List.map_filter_def)
  have "\<exists>sp'. spread_run toy_mail [SpreadSubscribe [[]]] sp = Some (sp', [Inr [[1], [2]]])"
    using c by (auto simp: connect_constellation_def CONSTELLATION_def link_connect_def List.map_filter_def spread_subscribe_def on_peers_def
        peers_asked_def tags_of_peer_def holders_of_def mail_tag_from_hex_def toy_mail_def as_bytes_def link_subscribe_def await_then_def
        link_send_def listen_def first_sight_def SEEN_AT_MOST_def)
  then obtain sp' where run: "spread_run toy_mail [SpreadSubscribe [[]]] sp = Some (sp', [Inr [[1], [2]]])" by blast
  show ?thesis using copies_are_handed_over_once [OF c run refl, of 0 1] c run by (simp add: SEEN_AT_MOST_def)
qed

section \<open>Where two ends meet\<close>

lemma each_peer_calls:
  assumes "distinct is"
  shows "each_peer is f ps = Some (ps', rs) \<Longrightarrow>
    length ps' = length ps \<and> (\<forall>i. i \<notin> set is \<longrightarrow> ps' ! i = ps ! i) \<and>
    (\<forall>i\<in>set is. i < length ps \<longrightarrow> (\<exists>r\<in>set rs. f i (ps ! i) = Some (ps' ! i, r)))"
  using assms
proof (induction "is" arbitrary: ps rs)
  case (Cons j js)
  then obtain lk r rs' where one: "f j (ps ! j) = Some (lk, r)" "each_peer js f (ps[j := lk]) = Some (ps', rs')" "rs = r # rs'"
    by (auto split: option.splits)
  have ih: "length ps' = length (ps[j := lk])" "\<And>i. i \<notin> set js \<Longrightarrow> ps' ! i = ps[j := lk] ! i"
    "\<And>i. i \<in> set js \<Longrightarrow> i < length (ps[j := lk]) \<Longrightarrow> \<exists>r\<in>set rs'. f i (ps[j := lk] ! i) = Some (ps' ! i, r)"
    using Cons.IH [OF one(2)] Cons.prems(2) by auto
  have "ps' ! j = lk" if "j < length ps" using ih(2) [of j] Cons.prems(2) that by simp
  moreover have "ps' ! i = ps ! i" if "i \<notin> set (j # js)" for i using ih(2) [of i] that by simp
  moreover have "\<exists>r\<in>set rs. f i (ps ! i) = Some (ps' ! i, r)" if "i \<in> set js" "i < length ps" for i
    using ih(3) [of i] that Cons.prems(2) one(3) by (cases "i = j") auto
  ultimately show ?case using ih(1) one by auto
qed simp

lemma on_peers_calls:
  assumes "on_peers is f g sp = Some y" "distinct is"
  shows "\<exists>ps rs. y = g rs (sp\<lparr>sp_peers := ps\<rparr>) \<and> length ps = length (sp_peers sp) \<and>
    (\<forall>i\<in>set is. i < length (sp_peers sp) \<longrightarrow> (\<exists>r\<in>set rs. f i (sp_peers sp ! i) = Some (ps ! i, r))) \<and>
    (\<forall>i. i \<notin> set is \<longrightarrow> ps ! i = sp_peers sp ! i)"
proof -
  obtain ps rs where e: "each_peer is f (sp_peers sp) = Some (ps, rs)" "y = g rs (sp\<lparr>sp_peers := ps\<rparr>)"
    using assms(1) by (auto simp: on_peers_def)
  show ?thesis using each_peer_calls [OF assms(2) e(1)] e(2) by blast
qed

lemma holders_distinct: "distinct (holders_of M sp t)" "set (holders_of M sp t) \<subseteq> {0..<length (sp_peers sp)}"
  by (auto simp: holders_of_def Let_def split: option.splits)

lemma holders_placed:
  assumes "mail_tag_from_hex M t = Some tag" "i < length (sp_peers sp)" "lk_url (sp_peers sp ! i) \<in> set (placed_urls M (sp_directory sp) tag)"
  shows "i \<in> set (holders_of M sp t)"
  using assms by (auto simp: holders_of_def Let_def)

lemma holders_only_placed:
  assumes "mail_tag_from_hex M t = Some tag" "i < length (sp_peers sp)" "lk_url (sp_peers sp ! i) \<in> set (placed_urls M (sp_directory sp) tag)"
    "j \<in> set (holders_of M sp t)"
  shows "lk_url (sp_peers sp ! j) \<in> set (placed_urls M (sp_directory sp) tag)"
  using assms by (auto simp: holders_of_def Let_def filter_empty_conv split: if_splits)

text \<open>What was written on a connection stays written.\<close>

definition can_write :: "link \<Rightarrow> bool" where
  "can_write lk \<longleftrightarrow> (\<forall>ws. lk_writes lk \<noteq> False # ws)"

lemma listen_said: "listen q f lk = Some (lk', ks, r) \<Longrightarrow> lk_said lk' = lk_said lk"
  by (auto simp: listen_def split: if_splits)

lemma set_aside_said: "set_aside (listen q f lk) = Some (lk', r) \<Longrightarrow> lk_said lk' = lk_said lk"
  by (auto simp: set_aside_Some dest: listen_said)

lemma link_send_said: "link_send r lk = (lk', x) \<Longrightarrow> set (lk_said lk) \<subseteq> set (lk_said lk') \<and> (can_write lk \<longrightarrow> r \<in> set (lk_said lk') \<and> x = Inr ())"
  using link_send_cases [of r lk] by (auto simp: can_write_def)

lemma deposit_once_said:
  assumes "deposit_once e lk = Some (lk', r)"
  shows "set (lk_said lk) \<subseteq> set (lk_said lk') \<and> (can_write lk \<longrightarrow> AskDeposit e \<in> set (lk_said lk'))"
  using assms unfolding deposit_once_def await_then_Some
  by (auto dest!: set_aside_said) (auto dest!: link_send_said [OF sym] link_send_said)

lemma link_authenticate_said:
  assumes "link_authenticate t lk = Some (lk', r)"
  shows "set (lk_said lk) \<subseteq> set (lk_said lk')"
  using assms unfolding link_authenticate_def await_then_Some Let_def
  by (auto dest!: set_aside_said) (auto dest!: link_send_said)

lemma present_held_token_said:
  assumes "present_held_token lk = Some (lk', r)"
  shows "set (lk_said lk) \<subseteq> set (lk_said lk')"
proof (cases "lk_presented lk \<or> lk_token lk = None")
  case False
  then obtain t where "await_then (link_authenticate t lk) (\<lambda>_ lk. Some (lk\<lparr>lk_presented := True\<rparr>, Inr True)) = Some (lk', r)"
    using assms by (auto simp: present_held_token_def)
  then show ?thesis
    by (rule await_then_keeps [where I = "\<lambda>x. set (lk_said lk) \<subseteq> set (lk_said x)"]) (auto dest!: link_authenticate_said)
qed (use assms in \<open>auto simp: present_held_token_def split: option.splits\<close>)

lemma deposit_again_said:
  "deposit_again e lk = Some (lk', r) \<Longrightarrow> set (lk_said lk) \<subseteq> set (lk_said lk')"
  unfolding deposit_again_def
  by (erule await_then_keeps [where I = "\<lambda>x. set (lk_said lk) \<subseteq> set (lk_said x)"]) (auto dest!: deposit_once_said)

lemma link_deposit_said:
  assumes "link_deposit e lk = Some (lk', r)" "can_write lk"
  shows "AskDeposit e \<in> set (lk_said lk')"
  using assms(1) unfolding link_deposit_def
proof (rule await_then_keeps [where I = "\<lambda>x. AskDeposit e \<in> set (lk_said x)"])
  show "AskDeposit e \<in> set (lk_said x)" if "deposit_once e lk = Some (x, a)" for x a
    using deposit_once_said [OF that] assms(2) by simp
  fix x d
  let ?after = "\<lambda>why. await_then (present_held_token x) (\<lambda>presented lk. if presented then deposit_again e lk else Some (lk, Inl why))"
  assume x: "AskDeposit e \<in> set (lk_said x)"
    and d: "(case d of DepositStored \<Rightarrow> Some (x, Inr ()) | RefusedByTier why \<Rightarrow> ?after why | RefusedOutright why \<Rightarrow> Some (x, Inl why)) = Some (lk', r)"
  show "AskDeposit e \<in> set (lk_said lk')"
  proof (cases d)
    case (RefusedByTier why)
    then have "?after why = Some (lk', r)" using d by simp
    then show ?thesis
      by (rule await_then_keeps [where I = "\<lambda>x. AskDeposit e \<in> set (lk_said x)"])
        (use x in \<open>auto dest!: present_held_token_said deposit_again_said split: if_splits\<close>)
  qed (use x d in auto)
qed

lemma link_subscribe_said:
  assumes "link_subscribe tags lk = Some (lk', r)" "can_write lk"
  shows "AskSubscribe tags \<in> set (lk_said lk')"
  using assms unfolding link_subscribe_def await_then_Some
  by (auto dest!: listen_said link_send_said [OF sym] link_send_said)

lemma first_sight_peers: "first_sight e sp = (sp', fresh) \<Longrightarrow> sp_peers sp' = sp_peers sp"
  by (auto simp: first_sight_def Let_def split: if_splits)

lemma sight_all_peers: "sight_all es sp = (sp', out) \<Longrightarrow> sp_peers sp' = sp_peers sp"
proof (induction es arbitrary: sp out)
  case (Cons e es)
  obtain sp1 fresh where one: "first_sight e sp = (sp1, fresh)" by (cases "first_sight e sp")
  obtain rest where rest: "sight_all es sp1 = (sp', rest)" using Cons.prems one by (auto split: prod.splits)
  show ?case using Cons.IH [OF rest] first_sight_peers [OF one] by simp
qed simp

lemma tag_of_envelope_hex:
  "parse_envelope M e = Some env \<Longrightarrow> tag_of_envelope M e = Some (hex_str (e_tag env))"
  by (simp add: tag_of_envelope_def)

text \<open>C13: both ends meet at every member they share.  Two clients with one directory, each connected to some members of the
  constellation: at a member that the placement of a tag names and both are connected to, what the one leaves under the tag
  is asked to be stored, and the other asks for the tag, as long as the connections take what is written.\<close>

theorem both_ends_meet:
  assumes "sp_directory receiver = sp_directory sender" "parse_envelope M e = Some env" "mail_tag_from_hex M (hex_str (e_tag env)) = Some tag"
    "u \<in> set (placed_urls M (sp_directory sender) tag)"
    "i < length (sp_peers sender)" "lk_url (sp_peers sender ! i) = u" "can_write (sp_peers sender ! i)"
    "j < length (sp_peers receiver)" "lk_url (sp_peers receiver ! j) = u" "can_write (sp_peers receiver ! j)"
    "hex_str (e_tag env) \<in> set tags"
    "spread_deposit M e sender = Some (sender', r)" "spread_subscribe M tags receiver = Some (receiver', r')"
  shows "AskDeposit e \<in> set (lk_said (sp_peers sender' ! i)) \<and>
    (\<exists>asked. AskSubscribe asked \<in> set (lk_said (sp_peers receiver' ! j)) \<and> hex_str (e_tag env) \<in> set asked)"
proof
  let ?t = "hex_str (e_tag env)"
  have holders: "deposit_holders M e sender = holders_of M sender ?t"
    using assms(2) by (simp add: deposit_holders_def tag_of_envelope_def)
  have i: "i \<in> set (deposit_holders M e sender)"
    unfolding holders using holders_placed [OF assms(3,5)] assms(4,6) by simp
  obtain ps and rs :: "(mail_error, unit) result list" where d: "sp_peers sender' = ps"
      "\<exists>x\<in>set rs. link_deposit e (sp_peers sender ! i) = Some (ps ! i, x)"
    using on_peers_calls [OF assms(12) [unfolded spread_deposit_def holders] holders_distinct(1)] i assms(5)
    unfolding holders by auto
  then show "AskDeposit e \<in> set (lk_said (sp_peers sender' ! i))" using link_deposit_said assms(7) by auto
  have j: "j \<in> set (holders_of M receiver ?t)"
    using holders_placed [OF assms(3,8)] assms(1,4,9) by simp
  then have asked: "?t \<in> set (tags_of_peer M receiver tags j)" "j \<in> set (peers_asked M receiver tags)"
    using assms(8,11) by (auto simp: tags_of_peer_def peers_asked_def filter_empty_conv)
  have distinct: "distinct (peers_asked M receiver tags)" by (simp add: peers_asked_def)
  obtain ps and rs :: "(mail_error, str list) result list"
    where s: "(case sight_all (concat (oks rs)) (receiver\<lparr>sp_peers := ps\<rparr>) of (sp, out) \<Rightarrow> (sp, Inr out)) = (receiver', r')"
      "\<exists>x\<in>set rs. link_subscribe (tags_of_peer M receiver tags j) (sp_peers receiver ! j) = Some (ps ! j, x)"
    using on_peers_calls [OF assms(13) [unfolded spread_subscribe_def] distinct] asked(2) assms(8) by metis
  obtain sp2 out where two: "sight_all (concat (oks rs)) (receiver\<lparr>sp_peers := ps\<rparr>) = (sp2, out)"
    by (cases "sight_all (concat (oks rs)) (receiver\<lparr>sp_peers := ps\<rparr>)")
  then have "sp_peers receiver' = ps" using sight_all_peers [OF two] s(1) two by simp
  then show "\<exists>asked. AskSubscribe asked \<in> set (lk_said (sp_peers receiver' ! j)) \<and> ?t \<in> set asked"
    using s(2) link_subscribe_said [OF _ assms(10)] asked(1) by blast
qed

definition hex_mail :: mail_lib where
  "hex_mail = toy_mail\<lparr>ml_unhex := \<lambda>_. Some (replicate 32 3)\<rparr>"

text \<open>What is stored is stored where nobody looks.  A client that reaches no member the placement of a tag names leaves its envelope
  with the members it does reach and is told that it was stored, and a client that reaches one of those named
  asks at none of the members the envelope was left with.\<close>

theorem stored_where_nobody_looks:
  assumes "sp_directory receiver = sp_directory sender" "mail_tag_from_hex M t = Some tag"
    "\<forall>lk\<in>set (sp_peers sender). lk_url lk \<notin> set (placed_urls M (sp_directory sender) tag)"
    "lk \<in> set (sp_peers receiver)" "lk_url lk \<in> set (placed_urls M (sp_directory sender) tag)"
  shows "holders_of M sender t = [0..<length (sp_peers sender)] \<and>
    (\<forall>i\<in>set (holders_of M sender t). \<forall>j\<in>set (holders_of M receiver t). lk_url (sp_peers sender ! i) \<noteq> lk_url (sp_peers receiver ! j))"
proof -
  obtain j where j: "j < length (sp_peers receiver)" "sp_peers receiver ! j = lk" using assms(4) by (auto simp: in_set_conv_nth)
  have "lk_url (sp_peers receiver ! k) \<in> set (placed_urls M (sp_directory sender) tag)" if "k \<in> set (holders_of M receiver t)" for k
    using holders_only_placed [OF assms(2) j(1) _ that] j(2) assms(1,5) by simp
  moreover have "lk_url (sp_peers sender ! i) \<notin> set (placed_urls M (sp_directory sender) tag)" if "i \<in> set (holders_of M sender t)" for i
    using holders_distinct(2) [of M sender t] that assms(3) by auto
  moreover have "filter (\<lambda>i. lk_url (sp_peers sender ! i) \<in> set (placed_urls M (sp_directory sender) tag)) [0..<length (sp_peers sender)] = []"
    using assms(3) by (auto simp: filter_empty_conv)
  then have "holders_of M sender t = [0..<length (sp_peers sender)]"
    using assms(2) by (simp add: holders_of_def Let_def)
  ultimately show ?thesis by metis
qed

section \<open>Members that are gone and members that are silent\<close>

definition dead :: "link \<Rightarrow> bool" where
  "dead lk \<longleftrightarrow> lk_ended lk \<and> lk_pending lk = []"

lemma listen_ended: "lk_ended lk \<Longrightarrow> listen q f lk = Some (lk, [], Inl Gone)"
  by (simp add: listen_def)

lemma link_send_dead: "dead lk \<Longrightarrow> link_send r lk = (lk', x) \<Longrightarrow> dead lk' \<and> (x = Inr () \<or> x = Inl Gone)"
  using link_send_cases [of r lk] by (auto simp: dead_def)

lemma dead_calls:
  assumes "dead lk"
  shows "\<exists>lk'. link_next_envelope lk = Some (lk', Inl Gone) \<and> dead lk'"
    and "\<exists>lk'. link_subscribe tags lk = Some (lk', Inl Gone) \<and> dead lk'"
    and "\<exists>lk'. link_deposit e lk = Some (lk', Inl Gone) \<and> dead lk'"
    and "\<exists>lk'. link_authenticate tk lk = Some (lk', Inl Gone) \<and> dead lk'"
    and "\<exists>lk' x. link_unsubscribe tags lk = Some (lk', x) \<and> dead lk'"
    and "\<exists>lk' x. link_collected M es lk = Some (lk', x) \<and> dead lk'"
proof -
  have after: "await_then (Some (link_send r lk)) (\<lambda>_ lk. set_aside (listen None f lk)) = Some (fst (link_send r lk), Inl Gone) \<and>
      dead (fst (link_send r lk))" for r and f :: "client_reply \<Rightarrow> 'a reaction"
    using link_send_dead [OF assms, of r] listen_ended [of "fst (link_send r lk)" None f]
    by (cases "link_send r lk") (auto simp: await_then_def set_aside_def dead_def)
  show "\<exists>lk'. link_next_envelope lk = Some (lk', Inl Gone) \<and> dead lk'"
    using assms by (simp add: link_next_envelope_def dead_def listen_ended)
  show "\<exists>lk'. link_subscribe tags lk = Some (lk', Inl Gone) \<and> dead lk'"
    using link_send_dead [OF assms, of "AskSubscribe tags"] listen_ended [of "fst (link_send (AskSubscribe tags) lk)" None on_subscribe_reply]
    by (cases "link_send (AskSubscribe tags) lk") (auto simp: link_subscribe_def await_then_def dead_def)
  have "deposit_once e lk = Some (fst (link_send (AskDeposit e) lk), Inl Gone) \<and> dead (fst (link_send (AskDeposit e) lk))"
    using after [of "AskDeposit e" on_deposit_reply] by (simp add: deposit_once_def)
  then show "\<exists>lk'. link_deposit e lk = Some (lk', Inl Gone) \<and> dead lk'" by (auto simp: link_deposit_def await_then_def)
  show "\<exists>lk'. link_authenticate tk lk = Some (lk', Inl Gone) \<and> dead lk'"
    unfolding link_authenticate_def Let_def using after by blast
  show "\<exists>lk' x. link_unsubscribe tags lk = Some (lk', x) \<and> dead lk'"
    using link_send_dead [OF assms] by (cases "link_send (AskUnsubscribe tags) lk") (auto simp: link_unsubscribe_def)
  show "\<exists>lk' x. link_collected M es lk = Some (lk', x) \<and> dead lk'"
    using link_send_dead [OF assms] assms
    by (cases "link_send (AskCollected (receipt_digests M es)) lk") (auto simp: link_collected_def Let_def)
qed

definition all_dead :: "spread \<Rightarrow> bool" where
  "all_dead sp \<longleftrightarrow> sp_peers sp \<noteq> [] \<and> (\<forall>lk\<in>set (sp_peers sp). dead lk)"

lemma each_peer_dead:
  assumes "\<And>i lk. dead lk \<Longrightarrow> \<exists>lk' r. f i lk = Some (lk', r) \<and> dead lk' \<and> P r"
  shows "\<forall>lk\<in>set ps. dead lk \<Longrightarrow> set is \<subseteq> {0..<length ps} \<Longrightarrow>
    \<exists>ps' rs. each_peer is f ps = Some (ps', rs) \<and> length ps' = length ps \<and> (\<forall>lk\<in>set ps'. dead lk) \<and> (\<forall>r\<in>set rs. P r) \<and>
      length rs = length is"
proof (induction "is" arbitrary: ps)
  case (Cons i js)
  then have "dead (ps ! i)" by simp
  then obtain lk' r where one: "f i (ps ! i) = Some (lk', r)" "dead lk'" "P r" using assms by blast
  have "\<forall>lk\<in>set (ps[i := lk']). dead lk" using Cons.prems(1) one(2) set_update_subset_insert [of ps i lk'] by blast
  then obtain ps' rs where "each_peer js f (ps[i := lk']) = Some (ps', rs)" "length ps' = length ps" "\<forall>lk\<in>set ps'. dead lk" "\<forall>r\<in>set rs. P r"
    "length rs = length js"
    using Cons.IH [of "ps[i := lk']"] Cons.prems(2) by auto
  then show ?case using one by auto
qed simp

lemma on_peers_dead:
  assumes "\<And>i lk. dead lk \<Longrightarrow> \<exists>lk' r. f i lk = Some (lk', r) \<and> dead lk' \<and> P r" "all_dead sp" "set is \<subseteq> {0..<length (sp_peers sp)}"
  obtains ps rs where "on_peers is f g sp = Some (g rs (sp\<lparr>sp_peers := ps\<rparr>))" "all_dead (sp\<lparr>sp_peers := ps\<rparr>)" "\<forall>r\<in>set rs. P r" "length rs = length is"
proof -
  obtain ps rs where e: "each_peer is f (sp_peers sp) = Some (ps, rs)" "length ps = length (sp_peers sp)" "\<forall>lk\<in>set ps. dead lk" "\<forall>r\<in>set rs. P r"
    "length rs = length is"
    using each_peer_dead [of f P "sp_peers sp" "is"] assms by (auto simp: all_dead_def)
  show thesis
  proof (rule that)
    show "on_peers is f g sp = Some (g rs (sp\<lparr>sp_peers := ps\<rparr>))" using e(1) by (simp add: on_peers_def)
    show "all_dead (sp\<lparr>sp_peers := ps\<rparr>)" using e assms(2) by (auto simp: all_dead_def)
  qed (rule e(4), rule e(5))
qed

lemma next_dead: "all_dead sp \<Longrightarrow> \<exists>sp'. spread_next_envelope n sp = Some (sp', Inr None) \<and> all_dead sp'"
proof (induction n arbitrary: sp)
  case (Suc n)
  let ?i = "unat (sp_next_peer sp) mod length (sp_peers sp)"
  have i: "?i < length (sp_peers sp)" using Suc.prems by (simp add: all_dead_def)
  then obtain lk where lk: "link_next_envelope (sp_peers sp ! ?i) = Some (lk, Inl Gone)" "dead lk"
    using dead_calls(1) [of "sp_peers sp ! ?i"] Suc.prems by (auto simp: all_dead_def)
  let ?sp = "sp\<lparr>sp_next_peer := sp_next_peer sp + 1, sp_peers := (sp_peers sp)[?i := lk]\<rparr>"
  have "all_dead ?sp"
    using Suc.prems lk(2) i set_update_subset_insert [of "sp_peers sp" ?i lk] by (auto simp: all_dead_def)
  from Suc.IH [OF this] show ?case using lk(1) by (simp add: Let_def)
qed simp

lemma oks_gone: "\<forall>r\<in>set rs. \<exists>e. r = Inl e \<Longrightarrow> oks rs = []"
  by (induction rs) auto

text \<open>What each call answers on a constellation whose connections have all ended.\<close>

fun gone_answer :: "spread_op \<Rightarrow> (mail_error, str list) result" where
  "gone_answer (SpreadDeposit e) = Inl Gone"
| "gone_answer (SpreadAuthenticate t) = Inl Gone"
| "gone_answer _ = Inr []"

lemma all_gone:
  assumes "\<forall>r\<in>set rs. r = Inl Gone" "rs \<noteq> []"
  shows "oks rs = [] \<and> errs rs \<noteq> [] \<and> last (errs rs) = Gone"
proof -
  have "errs rs = map (\<lambda>_. Gone) rs" using assms(1) by (induction rs) auto
  then show ?thesis using assms oks_gone [of rs] by (auto simp: last_map)
qed

text \<open>A deposit and an authentication ask at least one member.\<close>

lemma deposit_asks_someone:
  assumes "sp_peers sp \<noteq> []"
  shows "deposit_holders M e sp \<noteq> []" and "set (deposit_holders M e sp) \<subseteq> {0..<length (sp_peers sp)}"
  using assms holders_distinct(2) [of M sp]
  by (auto simp: deposit_holders_def holders_of_def Let_def split: option.splits)

lemma dead_step:
  assumes "all_dead sp"
  shows "\<exists>sp'. spread_step M x sp = Some (sp', gone_answer x) \<and> all_dead sp'"
proof (cases x)
  case (SpreadSubscribe tags)
  obtain ps and rs :: "(mail_error, str list) result list" where
    s: "spread_subscribe M tags sp = Some (case sight_all (concat (oks rs)) (sp\<lparr>sp_peers := ps\<rparr>) of (sp, out) \<Rightarrow> (sp, Inr out))"
      "all_dead (sp\<lparr>sp_peers := ps\<rparr>)" "\<forall>r\<in>set rs. \<exists>e. r = Inl e"
    unfolding spread_subscribe_def
    by (rule on_peers_dead [OF _ assms, of "\<lambda>i. link_subscribe (tags_of_peer M sp tags i)" "\<lambda>r. \<exists>e. r = Inl e" "peers_asked M sp tags"])
      (use dead_calls(2) in \<open>fastforce simp: peers_asked_def\<close>)+
  then show ?thesis using SpreadSubscribe by (simp add: oks_gone)
next
  case (SpreadNext n)
  then show ?thesis using next_dead [OF assms, of n] by (auto simp: hands_def)
next
  case (SpreadUnsubscribe tags)
  obtain ps and rs :: "(mail_error, unit) result list" where
    "spread_unsubscribe M tags sp = Some (sp\<lparr>sp_peers := ps\<rparr>, Inr ())" "all_dead (sp\<lparr>sp_peers := ps\<rparr>)"
    unfolding spread_unsubscribe_def
    by (rule on_peers_dead [OF _ assms, of "\<lambda>i. link_unsubscribe (tags_of_peer M sp tags i)" "\<lambda>_. True" "peers_asked M sp tags"])
      (use dead_calls(5) in \<open>fastforce simp: peers_asked_def\<close>)+
  then show ?thesis using SpreadUnsubscribe by (simp add: hands_def)
next
  case (SpreadCollected es)
  show ?thesis
  proof (cases "es = []")
    case False
    obtain ps and rs :: "(mail_error, unit) result list" where
      "on_peers [0..<length (sp_peers sp)] (\<lambda>_. link_collected M es) (\<lambda>_ sp. (sp, Inr () :: (mail_error, unit) result)) sp = Some (sp\<lparr>sp_peers := ps\<rparr>, Inr ())"
      "all_dead (sp\<lparr>sp_peers := ps\<rparr>)"
      by (rule on_peers_dead [OF _ assms, of "\<lambda>_. link_collected M es" "\<lambda>_. True" "[0..<length (sp_peers sp)]"])
        (use dead_calls(6) in fastforce)+
    with False have "spread_collected M es sp = Some (sp\<lparr>sp_peers := ps\<rparr>, Inr ())" "all_dead (sp\<lparr>sp_peers := ps\<rparr>)"
      by (simp_all add: spread_collected_def)
    then show ?thesis using SpreadCollected by (simp add: hands_def)
  qed (use SpreadCollected assms in \<open>simp add: spread_collected_def hands_def\<close>)
next
  case (SpreadDeposit e)
  have someone: "sp_peers sp \<noteq> []" using assms by (simp add: all_dead_def)
  obtain ps and rs :: "(mail_error, unit) result list" where
    d: "spread_deposit M e sp = Some (sp\<lparr>sp_peers := ps\<rparr>, if oks rs \<noteq> [] then Inr () else Inl (if errs rs = [] then NobodyStored else last (errs rs)))"
      "all_dead (sp\<lparr>sp_peers := ps\<rparr>)" "\<forall>r\<in>set rs. r = Inl Gone" "length rs = length (deposit_holders M e sp)"
    unfolding spread_deposit_def
    by (rule on_peers_dead [OF _ assms deposit_asks_someone(2) [OF someone], of "\<lambda>_. link_deposit e" "\<lambda>r. r = Inl Gone"])
      (use dead_calls(3) in fastforce)+
  have "rs \<noteq> []" using d(4) deposit_asks_someone(1) [OF someone, of M e] by force
  with all_gone [OF d(3)] d(1,2) show ?thesis using SpreadDeposit by (simp add: hands_def)
next
  case (SpreadAuthenticate tk)
  obtain ps and rs :: "(mail_error, granted) result list" where
    d: "spread_authenticate tk sp = Some (sp\<lparr>sp_peers := ps\<rparr>, if oks rs \<noteq> [] then Inr (last (oks rs))
        else Inl (if errs rs = [] then NobodyAccepted else last (errs rs)))" "all_dead (sp\<lparr>sp_peers := ps\<rparr>)"
      "\<forall>r\<in>set rs. r = Inl Gone" "length rs = length [0..<length (sp_peers sp)]"
    unfolding spread_authenticate_def
    by (rule on_peers_dead [OF _ assms, of "\<lambda>_. link_authenticate tk" "\<lambda>r. r = Inl Gone" "[0..<length (sp_peers sp)]"])
      (use dead_calls(4) in fastforce)+
  have "rs \<noteq> []" using d(4) assms by (auto simp: all_dead_def)
  with all_gone [OF d(3)] d(1,2) show ?thesis using SpreadAuthenticate by (simp add: hands_def)
next
  case (SpreadHoldToken tk)
  then show ?thesis
    using assms by (auto simp: spread_hold_token_def all_dead_def dead_def link_hold_token_def)
qed

text \<open>C14: a constellation that is gone does not say so to a listener.  When every connection of a constellation has ended, whatever is
  asked of it and in whatever order, subscribing, waiting for an envelope, unsubscribing, acknowledging and holding a token all answer as if
  nothing had arrived, and not with an error; only a deposit and an authentication answer that the connection is gone.  So a
  caller who connects again on an error, and who only listens, never does.\<close>

theorem gone_constellation_is_only_quiet:
  assumes "all_dead sp"
  shows "\<exists>sp'. spread_run M xs sp = Some (sp', map gone_answer xs) \<and> all_dead sp'"
  using assms
proof (induction xs arbitrary: sp)
  case (Cons x xs)
  obtain sp1 where one: "spread_step M x sp = Some (sp1, gone_answer x)" "all_dead sp1" using dead_step [OF Cons.prems] by blast
  then show ?case using Cons.IH [of sp1] by auto
qed simp

theorem gone_constellation_is_only_quiet_witness:
  "\<exists>sp'. spread_run toy_mail [SpreadSubscribe [[7]], SpreadNext 3, SpreadDeposit [9], SpreadNext 3, SpreadAuthenticate [5]]
       \<lparr> sp_peers = [(toy_link [])\<lparr>lk_ended := True\<rparr>], sp_directory = CONSTELLATION, sp_seen = {}, sp_seen_order = [], sp_next_peer = 0 \<rparr> =
     Some (sp', [Inr [], Inr [], Inl Gone, Inr [], Inl Gone])"
proof -
  let ?sp = "\<lparr> sp_peers = [(toy_link [])\<lparr>lk_ended := True\<rparr>], sp_directory = CONSTELLATION, sp_seen = {}, sp_seen_order = [], sp_next_peer = 0 \<rparr>"
  have "all_dead ?sp" by (simp add: all_dead_def dead_def toy_link_def)
  from gone_constellation_is_only_quiet [OF this, of toy_mail "[SpreadSubscribe [[7]], SpreadNext 3, SpreadDeposit [9], SpreadNext 3, SpreadAuthenticate [5]]"]
  show ?thesis by auto
qed

text \<open>One silent member stops the rest.  When a member that is asked for a tag takes what is written and then neither answers nor
  ends its connection, the subscription never returns, whatever the other members would have said.\<close>

theorem one_silent_member_stops_the_rest:
  assumes "i < length (sp_peers sp)" "i \<in> set (peers_asked M sp tags)" "lk_arrives (sp_peers sp ! i) = []" "\<not> lk_ended (sp_peers sp ! i)"
    "can_write (sp_peers sp ! i)"
  shows "spread_subscribe M tags sp = None"
proof -
  let ?f = "\<lambda>i. link_subscribe (tags_of_peer M sp tags i)"
  have "?f i (sp_peers sp ! i) = None"
    using link_send_cases [of "AskSubscribe (tags_of_peer M sp tags i)" "sp_peers sp ! i"] assms(3-5)
    by (auto simp: link_subscribe_def await_then_def listen_def can_write_def)
  moreover have "distinct (peers_asked M sp tags)" by (simp add: peers_asked_def)
  ultimately have "each_peer (peers_asked M sp tags) ?f (sp_peers sp) = None"
    using each_peer_calls [of "peers_asked M sp tags" ?f "sp_peers sp"] assms(1,2)
    by (cases "each_peer (peers_asked M sp tags) ?f (sp_peers sp)") fastforce+
  then show ?thesis by (simp add: spread_subscribe_def on_peers_def)
qed

text \<open>A directory of two members and one copy of everything, and an envelope.\<close>

definition toy_directory :: directory where
  "toy_directory = \<lparr> dir_version = 1, dir_replicas = 1, dir_mailboxes = [\<lparr> mb_id = [1], mb_url = [1] \<rparr>, \<lparr> mb_id = [1, 2], mb_url = [2] \<rparr>] \<rparr>"

definition toy_spread :: "bytes list \<Rightarrow> socket_frame list \<Rightarrow> spread" where
  "toy_spread urls fs =
     \<lparr> sp_peers = map (\<lambda>u. (toy_link fs)\<lparr>lk_url := u\<rparr>) urls, sp_directory = toy_directory, sp_seen = {}, sp_seen_order = [], sp_next_peer = 0 \<rparr>"

lemma toy_placed: "placed_urls hex_mail toy_directory tag = [[2]]"
proof -
  have "rendezvous_score (ml_blake3 hex_mail) [1] tag = 1" "rendezvous_score (ml_blake3 hex_mail) [1, 2] tag = 2"
    by (simp_all add: rendezvous_score_def hex_mail_def toy_mail_def u64_be_eval of_be_def)
  then show ?thesis
    by (simp add: placed_urls_def placement_def stable_sort_def toy_directory_def before_def)
qed

lemma hex_tag: "mail_tag_from_hex hex_mail s = Some (replicate 32 3)"
  by (simp add: mail_tag_from_hex_def hex_mail_def)

theorem stored_where_nobody_looks_witness:
  "holders_of hex_mail (toy_spread [[1]] []) [7] = [0] \<and>
   (\<forall>j\<in>set (holders_of hex_mail (toy_spread [[1], [2]] []) [7]). lk_url (sp_peers (toy_spread [[1], [2]] []) ! j) \<noteq> [1])"
proof -
  let ?one = "toy_spread [[1]] []" and ?two = "toy_spread [[1], [2]] []"
  have all: "holders_of hex_mail ?one [7] = [0..<length (sp_peers ?one)] \<and>
      (\<forall>i\<in>set (holders_of hex_mail ?one [7]). \<forall>j\<in>set (holders_of hex_mail ?two [7]). lk_url (sp_peers ?one ! i) \<noteq> lk_url (sp_peers ?two ! j))"
    by (rule stored_where_nobody_looks [OF _ hex_tag, of _ _ "(toy_link [])\<lparr>lk_url := [2]\<rparr>"]) (simp_all add: toy_spread_def toy_placed)
  moreover from all have "holders_of hex_mail ?one [7] = [0]" by (simp add: toy_spread_def)
  moreover have "lk_url (sp_peers ?one ! 0) = [1]" by (simp add: toy_spread_def)
  ultimately show ?thesis by fastforce
qed

text \<open>An envelope under that tag, in its Base64.\<close>

definition toy_text :: str where "toy_text = replicate 32 3 @ replicate 1024 0"

lemma toy_parsed: "parse_envelope hex_mail toy_text = Some \<lparr> e_tag = replicate 32 3, e_payload = replicate 1024 0 \<rparr>"
proof -
  have "as_bytes toy_text = replicate 32 3 @ replicate 1024 0"
    by (simp add: toy_text_def as_bytes_def utf8_char_def)
  then show ?thesis
    by (simp add: parse_envelope_def hex_mail_def toy_mail_def envelope_from_bytes_def tag_from_bytes_def bucket_from_size_def BUCKET_SIZES_def)
qed

theorem both_ends_meet_witness:
  "\<exists>sender receiver asked.
     spread_deposit hex_mail toy_text (toy_spread [[2]] [TextFrame (Some HeardStored)]) = Some (sender, Inr ()) \<and>
     spread_subscribe hex_mail [hex_str (replicate 32 3)] (toy_spread [[1], [2]] [TextFrame (Some (HeardReady 0))]) = Some (receiver, Inr []) \<and>
     AskDeposit toy_text \<in> set (lk_said (sp_peers sender ! 0)) \<and>
     AskSubscribe asked \<in> set (lk_said (sp_peers receiver ! 1)) \<and> hex_str (replicate 32 3) \<in> set asked"
proof -
  let ?s = "toy_spread [[2]] [TextFrame (Some HeardStored)]" and ?r = "toy_spread [[1], [2]] [TextFrame (Some (HeardReady 0))]"
  have hs: "holders_of hex_mail ?s t = [0]" "holders_of hex_mail ?r t = [1]" for t
    by (simp_all add: holders_of_def hex_tag toy_spread_def toy_placed)
  obtain s where s: "spread_deposit hex_mail toy_text ?s = Some (s, Inr ())"
    by (simp add: spread_deposit_def deposit_holders_def tag_of_envelope_def toy_parsed hs on_peers_def)
      (simp add: toy_spread_def toy_link_def link_deposit_def deposit_once_def await_then_def link_send_def listen_def set_aside_def)
  obtain r where r: "spread_subscribe hex_mail [hex_str (replicate 32 3)] ?r = Some (r, Inr [])"
    by (simp add: spread_subscribe_def peers_asked_def tags_of_peer_def hs on_peers_def)
      (simp add: toy_spread_def toy_link_def link_subscribe_def await_then_def link_send_def listen_def)
  show ?thesis
    using both_ends_meet [of ?r ?s hex_mail toy_text _ _ "[2]" 0 1, OF _ toy_parsed hex_tag _ _ _ _ _ _ _ _ s r] s r
    by (simp add: toy_spread_def toy_placed toy_link_def can_write_def)
qed

theorem one_silent_member_stops_the_rest_witness:
  "spread_subscribe hex_mail [[7]] (toy_spread [[2]] []) = None"
  using one_silent_member_stops_the_rest [of 0 "toy_spread [[2]] []" hex_mail "[[7]]"]
  by (simp add: toy_spread_def peers_asked_def tags_of_peer_def holders_of_def hex_tag toy_placed toy_link_def can_write_def)

end
