(* ===== verification/Front_Session.thy ===== *)
theory Front_Session
  imports Hybrid_Wraps
begin

text \<open>
  The sealed session a phone runs with the mailbox through a front, \<^verbatim>\<open>rotelyx-crypto/src/front.rs\<close>: the hello, the
  two directional keys, and frames sealed under counters.  A front carries the frames and may drop, repeat, reorder
  or reflect them.
\<close>

section \<open>Definitions\<close>

definition UP_CONTEXT :: bytes where "UP_CONTEXT = ascii ''rotelyx front session up v1''"
definition DOWN_CONTEXT :: bytes where "DOWN_CONTEXT = ascii ''rotelyx front session down v1''"
definition SESSION_ID_LEN :: nat where "SESSION_ID_LEN = 8"
definition HELLO_LEN :: nat where "HELLO_LEN = CIPHERTEXT_LEN + SESSION_ID_LEN"

datatype direction = Up | Down

fun direction_context :: "direction \<Rightarrow> bytes" where
  "direction_context Up = UP_CONTEXT"
| "direction_context Down = DOWN_CONTEXT"

record hello =
  hl_kem :: bytes
  hl_session_id :: bytes

definition hello_to_bytes :: "hello \<Rightarrow> bytes" where
  "hello_to_bytes hl = hl_kem hl @ hl_session_id hl"

definition hello_from_bytes :: "bytes \<Rightarrow> (hybrid_error, hello) result" where
  "hello_from_bytes bs =
     (if length bs \<noteq> HELLO_LEN then Inl BadCiphertext
      else bind_result (hybrid_ciphertext_from_bytes (take CIPHERTEXT_LEN bs)) (\<lambda>kem.
        Inr \<lparr> hl_kem = kem, hl_session_id = drop CIPHERTEXT_LEN bs \<rparr>))"

record front_session =
  fs_up :: bytes
  fs_down :: bytes
  fs_id :: bytes
  fs_dir :: direction
  fs_seal_counter :: u64
  fs_open_counter :: u64

text \<open>\<^verbatim>\<open>char::from_digit(d, 16)\<close>.\<close>

definition hex_digit :: "nat \<Rightarrow> u8" where
  "hex_digit d = word_of_nat (if d < 10 then 48 + d else 87 + d)"

definition front_binding :: "direction \<Rightarrow> bytes \<Rightarrow> bytes" where
  "front_binding dir session_id =
     direction_context dir @ 32 # concat (map (\<lambda>b. [hex_digit (unat (drop_bit 4 b)), hex_digit (unat (b AND 0xf))]) session_id)"

definition nonce_for :: "u64 \<Rightarrow> bytes" where
  "nonce_for counter = replicate 16 0 @ u64_be counter"

text \<open>\<open>encapsulated\<close> is what encapsulating to the mailbox's key returned.\<close>

definition front_open_to :: "hash \<Rightarrow> bytes \<times> bytes \<Rightarrow> bytes \<Rightarrow> front_session \<times> hello" where
  "front_open_to h encapsulated session_id =
     (case encapsulated of (kem, secret) \<Rightarrow>
        (\<lparr> fs_up = hybrid_derive_key h secret (front_binding Up session_id),
           fs_down = hybrid_derive_key h secret (front_binding Down session_id),
           fs_id = session_id, fs_dir = Up, fs_seal_counter = 0, fs_open_counter = 0 \<rparr>,
         \<lparr> hl_kem = kem, hl_session_id = session_id \<rparr>))"

definition front_accept :: "hash \<Rightarrow> (bytes \<Rightarrow> bytes) \<Rightarrow> hello \<Rightarrow> front_session" where
  "front_accept h decaps hl =
     (let secret = decaps (hl_kem hl)
      in \<lparr> fs_up = hybrid_derive_key h secret (front_binding Up (hl_session_id hl)),
           fs_down = hybrid_derive_key h secret (front_binding Down (hl_session_id hl)),
           fs_id = hl_session_id hl, fs_dir = Down, fs_seal_counter = 0, fs_open_counter = 0 \<rparr>)"

definition front_seal :: "aead_enc \<Rightarrow> front_session \<Rightarrow> bytes \<Rightarrow> front_session \<times> (hybrid_error, bytes) result" where
  "front_seal enc s plaintext =
     (let key = (case fs_dir s of Up \<Rightarrow> fs_up s | Down \<Rightarrow> fs_down s)
      in case enc key (nonce_for (fs_seal_counter s)) (fs_id s) plaintext of
           None \<Rightarrow> (s, Inl BadCiphertext)
         | Some sealed \<Rightarrow>
             (case checked_add (fs_seal_counter s) 1 of
                None \<Rightarrow> (s, Inl BadCiphertext)
              | Some c \<Rightarrow> (s\<lparr>fs_seal_counter := c\<rparr>, Inr sealed)))"

definition front_open :: "aead_dec \<Rightarrow> front_session \<Rightarrow> bytes \<Rightarrow> front_session \<times> (hybrid_error, bytes) result" where
  "front_open dec s sealed =
     (let key = (case fs_dir s of Up \<Rightarrow> fs_down s | Down \<Rightarrow> fs_up s)
      in case dec key (nonce_for (fs_open_counter s)) (fs_id s) sealed of
           None \<Rightarrow> (s, Inl BadCiphertext)
         | Some plaintext \<Rightarrow>
             (case checked_add (fs_open_counter s) 1 of
                None \<Rightarrow> (s, Inl BadCiphertext)
              | Some c \<Rightarrow> (s\<lparr>fs_open_counter := c\<rparr>, Inr plaintext)))"

section \<open>Keys and nonces are used once\<close>

lemma nonce_for_inj: "nonce_for c = nonce_for d \<longleftrightarrow> c = d"
  by (simp add: nonce_for_def)

lemma hex_digit_inj: "a < 16 \<Longrightarrow> b < 16 \<Longrightarrow> hex_digit a = hex_digit b \<longleftrightarrow> a = b"
  by (auto simp: hex_digit_def word_unat_eq_iff unat_of_nat split: if_splits)

lemma hex_digit_unat: "unat a < 16 \<Longrightarrow> unat b < 16 \<Longrightarrow> hex_digit (unat a) = hex_digit (unat b) \<longleftrightarrow> a = b" for a b :: u8
  using hex_digit_inj [of "unat a" "unat b"] unat_eqI [of a b] by auto

lemma hex_bytes_inj:
  "concat (map (\<lambda>b. [hex_digit (unat (drop_bit 4 b)), hex_digit (unat (b AND 0xf))]) xs) =
   concat (map (\<lambda>b. [hex_digit (unat (drop_bit 4 b)), hex_digit (unat (b AND 0xf))]) (ys :: bytes)) \<longleftrightarrow> xs = ys"
proof (induction xs arbitrary: ys)
  case Nil
  then show ?case by (cases ys) auto
next
  case (Cons x xs)
  have nib: "unat (drop_bit 4 b) < 16" "unat (b AND 0xf) < 16" "b = push_bit 4 (drop_bit 4 b) + (b AND 0xf)" for b :: u8
  proof -
    show "unat (drop_bit 4 b) < 16" by (simp only: unat_drop_bit_eq) (simp add: drop_bit_eq_div less_mult_imp_div_less)
    have low: "b AND 0xf = take_bit 4 b" by (simp add: take_bit_eq_mask mask_eq_exp_minus_1)
    then show "b = push_bit 4 (drop_bit 4 b) + (b AND 0xf)" by (simp add: bits_ident)
    from low show "unat (b AND 0xf) < 16" using take_bit_nat_less_exp [of 4 "unat b"] by (simp add: unsigned_take_bit_eq)
  qed
  show ?case
  proof (cases ys)
    case (Cons y zs)
    have "x = y" if "drop_bit 4 x = drop_bit 4 y" "x AND 0xf = y AND 0xf"
      using nib(3) [of x] nib(3) [of y] that by metis
    then show ?thesis
      using Cons nib(1,2) Cons.IH [of zs] by (auto simp: hex_digit_unat)
  qed auto
qed

text \<open>No two sessions, and no two directions of one, derive their keys over the same text.\<close>

lemma front_binding_inj: "front_binding dir i = front_binding dir' i' \<longleftrightarrow> dir = dir' \<and> i = i'"
proof -
  have "ascii ''rotelyx front session up v1'' @ 32 # xs \<noteq> ascii ''rotelyx front session down v1'' @ 32 # ys" for xs ys
    by simp
  then show ?thesis
    by (cases dir; cases dir') (auto simp: front_binding_def UP_CONTEXT_def DOWN_CONTEXT_def hex_bytes_inj
      dest: sym [of "ascii _ @ _"])
qed

section \<open>Runs\<close>

text \<open>What one end seals, message after message, and what the other end makes of the frames it is handed.\<close>

fun seal_all :: "aead_enc \<Rightarrow> front_session \<Rightarrow> bytes list \<Rightarrow> (hybrid_error, bytes list) result" where
  "seal_all enc s [] = Inr []"
| "seal_all enc s (m # ms) =
     (case front_seal enc s m of
        (_, Inl e) \<Rightarrow> Inl e
      | (s, Inr c) \<Rightarrow> bind_result (seal_all enc s ms) (\<lambda>cs. Inr (c # cs)))"

fun opened :: "aead_dec \<Rightarrow> front_session \<Rightarrow> bytes list \<Rightarrow> bytes list" where
  "opened dec s [] = []"
| "opened dec s (c # cs) =
     (case front_open dec s c of (s, r) \<Rightarrow> (case r of Inl _ \<Rightarrow> [] | Inr m \<Rightarrow> [m]) @ opened dec s cs)"

definition seal_key :: "front_session \<Rightarrow> bytes" where
  "seal_key s = (case fs_dir s of Up \<Rightarrow> fs_up s | Down \<Rightarrow> fs_down s)"

definition open_key :: "front_session \<Rightarrow> bytes" where
  "open_key s = (case fs_dir s of Up \<Rightarrow> fs_down s | Down \<Rightarrow> fs_up s)"

lemma session_keys_update [simp]:
  "seal_key (s\<lparr>fs_seal_counter := c\<rparr>) = seal_key s" "open_key (s\<lparr>fs_seal_counter := c\<rparr>) = open_key s"
  "seal_key (s\<lparr>fs_open_counter := c\<rparr>) = seal_key s" "open_key (s\<lparr>fs_open_counter := c\<rparr>) = open_key s"
  by (simp_all add: seal_key_def open_key_def split: direction.splits)

lemma front_seal_Inr_iff:
  "front_seal enc s m = (s', Inr c) \<longleftrightarrow>
    enc (seal_key s) (nonce_for (fs_seal_counter s)) (fs_id s) m = Some c \<and> fs_seal_counter s \<noteq> - 1 \<and>
    s' = s\<lparr>fs_seal_counter := fs_seal_counter s + 1\<rparr>"
  by (auto simp: front_seal_def seal_key_def Let_def checked_add_1 split: option.splits)

lemma front_open_cases:
  obtains (refused) e where "front_open dec s c = (s, Inl e)"
  | (taken) m where "front_open dec s c = (s\<lparr>fs_open_counter := fs_open_counter s + 1\<rparr>, Inr m)" "fs_open_counter s \<noteq> - 1"
      "dec (open_key s) (nonce_for (fs_open_counter s)) (fs_id s) c = Some m"
  by (cases "dec (open_key s) (nonce_for (fs_open_counter s)) (fs_id s) c"; cases "fs_open_counter s = - 1")
    (auto simp: front_open_def open_key_def Let_def checked_add_1)

text \<open>The frames of a run, each sealed under its own counter.\<close>

lemma seal_all_frames:
  assumes "seal_all enc s ms = Inr fs"
  shows "length fs = length ms \<and> unat (fs_seal_counter s) + length ms < 2 ^ 64 \<and>
    (\<forall>i<length ms. enc (seal_key s) (nonce_for (fs_seal_counter s + word_of_nat i)) (fs_id s) (ms ! i) = Some (fs ! i))"
  using assms
proof (induction ms arbitrary: s fs)
  case (Cons m ms)
  from Cons.prems obtain s' c cs where one: "front_seal enc s m = (s', Inr c)" and cs: "seal_all enc s' ms = Inr cs" "fs = c # cs"
    by (auto simp: result_simps split: prod.splits sum.splits)
  from one have s': "enc (seal_key s) (nonce_for (fs_seal_counter s)) (fs_id s) m = Some c" "fs_seal_counter s \<noteq> - 1"
    "s' = s\<lparr>fs_seal_counter := fs_seal_counter s + 1\<rparr>" by (simp_all add: front_seal_Inr_iff)
  have same: "seal_key s' = seal_key s" "fs_id s' = fs_id s" "fs_seal_counter s' = fs_seal_counter s + 1"
    by (simp_all add: s'(3))
  have "unat (fs_seal_counter s + 1) = unat (fs_seal_counter s) + 1"
    using checked_add_unat [of "fs_seal_counter s" 1] s'(2) by (simp add: checked_add_1)
  moreover have "enc (seal_key s) (nonce_for (fs_seal_counter s + word_of_nat i)) (fs_id s) ((m # ms) ! i) = Some ((c # cs) ! i)"
    if "i < Suc (length ms)" for i
    using that Cons.IH [OF cs(1)] s'(1) by (cases i) (simp_all add: same ac_simps)
  ultimately show ?case using Cons.IH [OF cs(1)] cs(2) by (simp add: same)
qed simp

text \<open>
  The receiving end of a run.  Every frame it is handed is one of the other end's, in any order and any number
  of times, or one that does not open under its key.
\<close>

lemma opened_prefix:
  assumes com: "aead_commits enc dec" and op: "aead_opens enc dec" and len: "length ms < 2 ^ 64"
    and fs: "\<And>i. i < length ms \<Longrightarrow> enc (open_key r) (nonce_for (word_of_nat i)) (fs_id r) (ms ! i) = Some (fs ! i)"
    and ds: "\<forall>d\<in>set ds. (\<exists>i<length ms. d = fs ! i) \<or> (\<forall>n. dec (open_key r) n (fs_id r) d = None)"
    and k: "fs_open_counter r = word_of_nat k" "k \<le> length ms"
  shows "\<exists>n. k \<le> n \<and> n \<le> length ms \<and> opened dec r ds = drop k (take n ms)"
  using fs ds k
proof (induction ds arbitrary: r k)
  case (Cons d ds)
  show ?case
  proof (cases rule: front_open_cases [of dec r d])
    case (refused e)
    then show ?thesis using Cons.IH [of r k] Cons.prems by simp
  next
    case (taken m)
    then obtain i where i: "i < length ms" "d = fs ! i" using Cons.prems(2) by auto
    note sealed = Cons.prems(1) [OF i(1)]
    have "nonce_for (fs_open_counter r) = nonce_for (word_of_nat i)"
      using aead_commitsD [OF com sealed] taken(3) i(2) by blast
    then have "word_of_nat k = (word_of_nat i :: u64)" by (simp add: nonce_for_inj Cons.prems(3))
    moreover have "unat (word_of_nat i :: u64) = i" "unat (word_of_nat k :: u64) = k"
      using i(1) Cons.prems(4) len by (simp_all add: unat_of_nat)
    ultimately have ki: "k = i" by metis
    have "m = ms ! k" using aead_opensD [OF op sealed] taken(3) i(2) ki Cons.prems(3) by simp
    have "fs_open_counter (r\<lparr>fs_open_counter := fs_open_counter r + 1\<rparr>) = word_of_nat (Suc k)"
      by (simp add: Cons.prems(3) add.commute)
    with Cons.IH [of "r\<lparr>fs_open_counter := fs_open_counter r + 1\<rparr>" "Suc k"] Cons.prems(1,2) i(1) ki
    obtain n where n: "Suc k \<le> n" "n \<le> length ms"
      "opened dec (r\<lparr>fs_open_counter := fs_open_counter r + 1\<rparr>) ds = drop (Suc k) (take n ms)"
      by auto
    have "drop k (take n ms) = ms ! k # drop (Suc k) (take n ms)"
      using n(1,2) Cons_nth_drop_Suc [of k "take n ms"] by simp
    then show ?thesis using n taken(1) \<open>m = ms ! k\<close> by (intro exI [of _ n]) simp
  qed
qed (auto intro: exI [of _ k])

lemma opened_in_order:
  assumes op: "aead_opens enc dec" and len: "length ms < 2 ^ 64" and l: "length fs = length ms"
    and fs: "\<And>i. i < length ms \<Longrightarrow> enc (open_key r) (nonce_for (word_of_nat i)) (fs_id r) (ms ! i) = Some (fs ! i)"
    and k: "fs_open_counter r = word_of_nat k" "k \<le> length ms"
  shows "opened dec r (drop k fs) = drop k ms"
  using fs k
proof (induction "length ms - k" arbitrary: r k)
  case (Suc j)
  then have lt: "k < length ms" by simp
  let ?r = "r\<lparr>fs_open_counter := fs_open_counter r + 1\<rparr>"
  have "unat (word_of_nat k :: u64) = k" "unat (- 1 :: u64) = 2 ^ 64 - 1"
    using lt len by (simp_all add: unat_of_nat unsigned_minus_1_eq_mask mask_eq_exp_minus_1)
  then have "fs_open_counter r \<noteq> - 1" using lt len Suc.prems(2) by auto
  moreover have "dec (open_key r) (nonce_for (fs_open_counter r)) (fs_id r) (fs ! k) = Some (ms ! k)"
    using aead_opensD [OF op Suc.prems(1) [OF lt]] Suc.prems(2) by simp
  ultimately have "front_open dec r (fs ! k) = (?r, Inr (ms ! k))"
    by (simp add: front_open_def open_key_def Let_def checked_add_1)
  moreover have "opened dec ?r (drop (Suc k) fs) = drop (Suc k) ms"
    using Suc.hyps(1) [of "Suc k" ?r] Suc.prems(1,2) Suc.hyps(2) lt
    by (simp add: add.commute)
  ultimately show ?case using lt l by (simp add: Cons_nth_drop_Suc [symmetric])
qed (simp add: l)

text \<open>Both together, for either end.\<close>

lemma session_run:
  assumes op: "aead_opens enc dec" and com: "aead_commits enc dec" and key: "open_key r = seal_key s" "fs_id r = fs_id s"
    and zero: "fs_seal_counter s = 0" "fs_open_counter r = 0" and fs: "seal_all enc s ms = Inr fs"
    and ds: "\<forall>d\<in>set ds. d \<in> set fs \<or> (\<forall>n. dec (open_key r) n (fs_id r) d = None)"
  shows "opened dec r fs = ms \<and> (\<exists>n\<le>length ms. opened dec r ds = take n ms)"
proof -
  note frames = seal_all_frames [OF fs]
  have len: "length ms < 2 ^ 64" using frames by (simp add: zero)
  have enc: "enc (open_key r) (nonce_for (word_of_nat i)) (fs_id r) (ms ! i) = Some (fs ! i)" if "i < length ms" for i
    using frames that by (simp add: zero key)
  have "\<forall>d\<in>set ds. (\<exists>i<length ms. d = fs ! i) \<or> (\<forall>n. dec (open_key r) n (fs_id r) d = None)"
    using ds frames by (metis in_set_conv_nth)
  from opened_prefix [OF com op len enc this, where k = 0] have "\<exists>n\<le>length ms. opened dec r ds = take n ms"
    by (auto simp: zero)
  moreover have "opened dec r fs = ms" using opened_in_order [OF op len _ enc, where k = 0] frames by (simp add: zero)
  ultimately show ?thesis by blast
qed

section \<open>Properties\<close>

text \<open>A front can delay a session but not change it.  Whatever frames it hands the mailbox, of the phone's in
  any order and any number of times, of the mailbox's own reflected back, or made up ones that do not open, what the
  mailbox takes is the beginning of what the phone said, in order and nothing twice; handed the frames as they were
  sent, it takes everything.  The same holds of the phone.\<close>

theorem front_cannot_reorder:
  assumes aead: "aead_opens enc dec" "aead_commits enc dec" and kem: "decaps kem = secret"
    and separate: "\<And>c c'. h c secret = h c' secret \<Longrightarrow> c = c'"
    and ends: "front_open_to h (kem, secret) sid = (phone, hl)" "front_accept h decaps hl = mailbox"
    and said: "seal_all enc phone ms = Inr fs" "seal_all enc mailbox replies = Inr gs"
    and up: "\<forall>d\<in>set us. d \<in> set fs \<union> set gs \<or> (\<forall>n. dec (fs_up phone) n sid d = None)"
    and down: "\<forall>d\<in>set ds. d \<in> set fs \<union> set gs \<or> (\<forall>n. dec (fs_down phone) n sid d = None)"
  shows "opened dec mailbox fs = ms \<and> (\<exists>n\<le>length ms. opened dec mailbox us = take n ms) \<and>
    opened dec phone gs = replies \<and> (\<exists>n\<le>length replies. opened dec phone ds = take n replies)"
proof -
  have p: "fs_id phone = sid" "fs_dir phone = Up" "fs_seal_counter phone = 0" "fs_open_counter phone = 0"
    "fs_up phone = h (front_binding Up sid) secret" "fs_down phone = h (front_binding Down sid) secret"
    "hl = \<lparr> hl_kem = kem, hl_session_id = sid \<rparr>"
    using ends(1) by (auto simp: front_open_to_def hybrid_derive_key_def)
  have m: "fs_id mailbox = sid" "fs_dir mailbox = Down" "fs_seal_counter mailbox = 0" "fs_open_counter mailbox = 0"
    "fs_up mailbox = fs_up phone" "fs_down mailbox = fs_down phone"
    using ends(2) kem p by (auto simp: front_accept_def hybrid_derive_key_def Let_def)
  have keys: "fs_up phone \<noteq> fs_down phone" using separate [of "front_binding Up sid" "front_binding Down sid"]
    by (auto simp: p front_binding_inj)
  have other: "dec k n sid d = None" if d: "d \<in> set cs" "seal_all enc s xs = Inr cs" "seal_key s \<noteq> k" for d cs s xs k n
  proof -
    note frames = seal_all_frames [OF d(2)]
    obtain i where "i < length cs" "d = cs ! i" using d(1) unfolding in_set_conv_nth by blast
    then have "enc (seal_key s) (nonce_for (fs_seal_counter s + word_of_nat i)) (fs_id s) (xs ! i) = Some d" using frames by simp
    then show ?thesis using aead_commitsD [OF aead(2), of "seal_key s" _ _ _ d k n sid] d(3) by (cases "dec k n sid d") blast+
  qed
  have keysof: "seal_key phone = fs_up phone" "open_key phone = fs_down phone" "seal_key mailbox = fs_down phone"
    "open_key mailbox = fs_up phone" by (simp_all add: seal_key_def open_key_def p m)
  have "\<forall>d\<in>set us. d \<in> set fs \<or> (\<forall>n. dec (open_key mailbox) n (fs_id mailbox) d = None)"
    using up other [OF _ said(2)] keys by (auto simp: keysof m)
  then have 1: "opened dec mailbox fs = ms \<and> (\<exists>n\<le>length ms. opened dec mailbox us = take n ms)"
    using session_run [OF aead _ _ _ _ said(1)] by (simp add: keysof p m)
  have "\<forall>d\<in>set ds. d \<in> set gs \<or> (\<forall>n. dec (open_key phone) n (fs_id phone) d = None)"
    using down other [OF _ said(1)] keys by (auto simp: keysof p)
  then have "opened dec phone gs = replies \<and> (\<exists>n\<le>length replies. opened dec phone ds = take n replies)"
    using session_run [OF aead _ _ _ _ said(2)] by (simp add: keysof p m)
  with 1 show ?thesis by simp
qed

lemma front_cannot_reorder_witness:
  "\<exists>phone mailbox fs. seal_all commit_enc phone [[1], [2]] = Inr fs \<and>
    opened commit_dec mailbox fs = [[1], [2]] \<and> (\<exists>n\<le>2. opened commit_dec mailbox (rev fs) = take n [[1], [2]])"
proof -
  define phone where "phone = fst (front_open_to (\<lambda>c m. c) ([6], [6]) (replicate 8 5))"
  define hl where "hl = snd (front_open_to (\<lambda>c m. c) ([6], [6]) (replicate 8 5))"
  define mailbox where "mailbox = front_accept (\<lambda>c m. c) (\<lambda>k. k) hl"
  have p: "fs_id phone = replicate 8 5" "seal_key phone = front_binding Up (replicate 8 5)" "fs_seal_counter phone = 0"
    by (simp_all add: phone_def front_open_to_def seal_key_def hybrid_derive_key_def)
  have "length (front_binding Up (replicate 8 5)) = 44"
    by (simp add: front_binding_def UP_CONTEXT_def numeral_eq_Suc)
  then have enc: "\<exists>c. commit_enc (front_binding Up (replicate 8 5)) (nonce_for n) (replicate 8 5) m = Some c" for n m
    by (simp add: commit_enc_def fits_all_def carry_enc_def nonce_for_def prefixed_def)
  obtain c where c: "front_seal commit_enc phone [1] = (phone\<lparr>fs_seal_counter := 1\<rparr>, Inr c)"
    using enc [of 0 "[1]"] by (auto simp: front_seal_Inr_iff p)
  obtain d where d: "front_seal commit_enc (phone\<lparr>fs_seal_counter := 1\<rparr>) [2] = (phone\<lparr>fs_seal_counter := 2\<rparr>, Inr d)"
    using enc [of 1 "[2]"] by (auto simp: front_seal_Inr_iff p)
  obtain fs where said: "seal_all commit_enc phone [[1], [2]] = Inr fs" by (simp add: c d)
  have "opened commit_dec mailbox fs = [[1], [2]] \<and>
      (\<exists>n\<le>length [[1 :: u8], [2]]. opened commit_dec mailbox (rev fs) = take n [[1], [2]]) \<and>
      opened commit_dec phone [] = [] \<and> (\<exists>n\<le>length ([] :: bytes list). opened commit_dec phone [] = take n [])"
    by (rule front_cannot_reorder [OF commit_aead, where decaps = "\<lambda>k. k" and kem = "[6]" and h = "\<lambda>c m. c" and
      sid = "replicate 8 5" and hl = hl and gs = "[]", OF refl _ _ mailbox_def [symmetric] said])
      (simp_all add: phone_def hl_def)
  then show ?thesis using said by (auto simp: numeral_2_eq_2 simp del: seal_all.simps)
qed

text \<open>A hello survives the wire, and anything of another length is refused.\<close>

lemma hello_crosses_the_wire:
  "hello_from_bytes bs = Inr hl \<longleftrightarrow>
    length (hl_kem hl) = CIPHERTEXT_LEN \<and> length (hl_session_id hl) = SESSION_ID_LEN \<and> bs = hello_to_bytes hl"
  by (cases hl) (auto simp: hello_from_bytes_def hello_to_bytes_def hybrid_ciphertext_from_bytes_def HELLO_LEN_def result_simps)

end
