(* ===== verification/Front_Demux.thy ===== *)
theory Front_Demux
  imports Front_Session "HOL-Library.AList"
begin

text \<open>
  The mailbox's end of a front's connection, \<^verbatim>\<open>rotelyx-mailbox-server/src/main.rs\<close>, \<^verbatim>\<open>run_front\<close>: one task opens and seals the
  frames of every session and speaks plain text to the tasks of the sessions over bounded channels.  The tasks are
  the demultiplexer, each session (\<^verbatim>\<open>run_session\<close>, whose requests are the subject of Mailbox_Session) and a forwarder for
  each session; a happening is one step of one of them, and a task that waits for room in a channel has no step.
\<close>

section \<open>Definitions\<close>

record front_frame =
  ff_s :: bytes
  ff_hello :: "bytes option"
  ff_b :: "bytes option"
  ff_close :: bool

text \<open>The libraries called: base64, the key encapsulation and its hash, the cipher, and what counts as UTF-8.\<close>

record front_lib =
  fl_b64 :: "bytes \<Rightarrow> bytes option"
  fl_b64_encode :: "bytes \<Rightarrow> bytes"
  fl_hash :: hash
  fl_decaps :: "bytes \<Rightarrow> bytes"
  fl_enc :: aead_enc
  fl_dec :: aead_dec
  fl_utf8 :: "bytes \<Rightarrow> bool"

record front_stream =
  st_session :: front_session
  st_to :: nat
  st_label :: bytes

text \<open>A spawned session with its two channels and its forwarder: \<open>rn_sender\<close> tells whether the demultiplexer still holds the
  sending half of its inbox, \<open>rn_unsent\<close> are the replies it has made and not yet sent, \<open>rn_held\<close> is what the forwarder has
  taken out and waits to pass on.\<close>

record running =
  rn_id :: bytes
  rn_sender :: bool
  rn_inbox :: "bytes list"
  rn_alive :: bool
  rn_unsent :: "bytes list"
  rn_outbox :: "bytes list"
  rn_forwards :: bool
  rn_held :: "bytes option"

datatype front_phase = Selecting | Handing bytes nat bytes | Returned

record demux =
  dm_streams :: "(bytes \<times> front_stream) list"
  dm_replies :: "(bytes \<times> bytes) list"
  dm_phase :: front_phase
  dm_sessions :: "running list"

definition MAX_SESSIONS :: nat where "MAX_SESSIONS = 256"
definition SESSION_CHANNEL :: nat where "SESSION_CHANNEL = 64"
definition REPLY_CHANNEL :: nat where "REPLY_CHANNEL = 256"

definition demux_start :: demux where
  "demux_start = \<lparr> dm_streams = [], dm_replies = [], dm_phase = Selecting, dm_sessions = [] \<rparr>"

definition spawned :: "bytes \<Rightarrow> running" where
  "spawned sid = \<lparr> rn_id = sid, rn_sender = True, rn_inbox = [], rn_alive = True, rn_unsent = [], rn_outbox = [],
     rn_forwards = True, rn_held = None \<rparr>"

definition update_session :: "nat \<Rightarrow> (running \<Rightarrow> running) \<Rightarrow> demux \<Rightarrow> demux" where
  "update_session k f d = d\<lparr>dm_sessions := (dm_sessions d)[k := f (dm_sessions d ! k)]\<rparr>"

text \<open>Removing a stream drops the sender of its session.\<close>

definition remove_stream :: "bytes \<Rightarrow> demux \<Rightarrow> demux" where
  "remove_stream sid d =
     (case map_of (dm_streams d) sid of
        None \<Rightarrow> d
      | Some st \<Rightarrow> update_session (st_to st) (\<lambda>r. r\<lparr>rn_sender := False\<rparr>) (d\<lparr>dm_streams := AList.delete sid (dm_streams d)\<rparr>))"

text \<open>What a step shows: a session opened with the hello it was opened with, a text handed to a session, a text a session's
  forwarder passed on, a frame sealed for the stream of a session.\<close>

datatype front_effect =
    Opened nat hello
  | Handed nat bytes
  | Said nat bytes
  | Framed nat bytes bytes bytes

definition accept_hello :: "front_lib \<Rightarrow> demux \<Rightarrow> bytes \<Rightarrow> bytes \<Rightarrow> bytes \<Rightarrow> demux \<times> front_effect list" where
  "accept_hello L d sid label hello_b64 =
     (if map_of (dm_streams d) sid \<noteq> None \<or> MAX_SESSIONS \<le> length (dm_streams d) then (d, [])
      else
        (case fl_b64 L hello_b64 of
           None \<Rightarrow> (d, [])
         | Some bs \<Rightarrow>
             (case hello_from_bytes bs of
                Inl _ \<Rightarrow> (d, [])
              | Inr hl \<Rightarrow>
                  let k = length (dm_sessions d);
                      st = \<lparr> st_session = front_accept (fl_hash L) (fl_decaps L) hl, st_to = k, st_label = label \<rparr>
                  in (d\<lparr>dm_sessions := dm_sessions d @ [spawned sid], dm_streams := (sid, st) # dm_streams d\<rparr>, [Opened k hl]))))"

definition open_body :: "front_lib \<Rightarrow> demux \<Rightarrow> bytes \<Rightarrow> bytes \<Rightarrow> demux" where
  "open_body L d sid body_b64 =
     (case fl_b64 L body_b64 of
        None \<Rightarrow> d
      | Some sealed \<Rightarrow>
          (case map_of (dm_streams d) sid of
             None \<Rightarrow> d
           | Some st \<Rightarrow>
               (case front_open (fl_dec L) (st_session st) sealed of
                  (_, Inl _) \<Rightarrow> remove_stream sid d
                | (s, Inr plain) \<Rightarrow>
                    if \<not> fl_utf8 L plain then remove_stream sid d
                    else d\<lparr>dm_streams := AList.update sid (st\<lparr>st_session := s\<rparr>) (dm_streams d), dm_phase := Handing sid (st_to st) plain\<rparr>)))"

definition take_frame :: "front_lib \<Rightarrow> demux \<Rightarrow> front_frame \<Rightarrow> demux \<times> front_effect list" where
  "take_frame L d f =
     (case fl_b64 L (ff_s f) of
        None \<Rightarrow> (d, [])
      | Some sid \<Rightarrow>
          if length sid \<noteq> SESSION_ID_LEN then (d, [])
          else if ff_close f then (remove_stream sid d, [])
          else
            (case ff_hello f of
               Some hello_b64 \<Rightarrow> accept_hello L d sid (ff_s f) hello_b64
             | None \<Rightarrow> (case ff_b f of None \<Rightarrow> (d, []) | Some body_b64 \<Rightarrow> (open_body L d sid body_b64, []))))"

text \<open>The loop ends: every stream is dropped, and with them every sender.\<close>

definition demux_return :: "demux \<Rightarrow> demux" where
  "demux_return d = d\<lparr>dm_streams := [], dm_replies := [], dm_phase := Returned,
     dm_sessions := map (\<lambda>r. r\<lparr>rn_sender := False\<rparr>) (dm_sessions d)\<rparr>"

text \<open>A reply taken out of the shared channel; \<open>ok\<close> tells whether the socket took the frame.\<close>

definition take_reply :: "front_lib \<Rightarrow> bool \<Rightarrow> demux \<Rightarrow> bytes \<times> bytes \<Rightarrow> demux \<times> front_effect list" where
  "take_reply L ok d reply =
     (case reply of (sid, plaintext) \<Rightarrow>
        (case map_of (dm_streams d) sid of
           None \<Rightarrow> (d, [])
         | Some st \<Rightarrow>
             (case front_seal (fl_enc L) (st_session st) plaintext of
                (_, Inl _) \<Rightarrow> (remove_stream sid d, [])
              | (s, Inr sealed) \<Rightarrow>
                  let d = d\<lparr>dm_streams := AList.update sid (st\<lparr>st_session := s\<rparr>) (dm_streams d)\<rparr>
                  in if ok then (d, [Framed (st_to st) (st_label st) (fl_b64_encode L sealed) plaintext]) else (demux_return d, []))))"

datatype front_event =
    Reply bool
  | Frame "front_frame option"
  | Hangup
  | Hand
  | Serve nat "bytes list"
  | Live nat "bytes list"
  | Put nat
  | Pull nat
  | Push nat
  | Finish nat

text \<open>One step of one task, \<open>None\<close> when the task cannot make it.  A session that has a text in its inbox serves it and has some
  replies to send, or is woken and has some; it takes no other text before it has sent them.\<close>

fun session_move :: "running \<Rightarrow> front_event \<Rightarrow> running option" where
  "session_move r (Serve _ replies) =
     (if rn_alive r \<and> rn_unsent r = [] then
        (case rn_inbox r of [] \<Rightarrow> None | _ # rest \<Rightarrow> Some (r\<lparr>rn_inbox := rest, rn_unsent := replies\<rparr>))
      else None)"
| "session_move r (Live _ replies) = (if rn_alive r \<and> rn_unsent r = [] then Some (r\<lparr>rn_unsent := replies\<rparr>) else None)"
| "session_move r (Put _) =
     (if \<not> rn_alive r then None
      else
        (case rn_unsent r of
           [] \<Rightarrow> None
         | x # rest \<Rightarrow>
             if \<not> rn_forwards r then Some (r\<lparr>rn_alive := False\<rparr>)
             else if length (rn_outbox r) < SESSION_CHANNEL then Some (r\<lparr>rn_unsent := rest, rn_outbox := rn_outbox r @ [x]\<rparr>)
             else None))"
| "session_move r (Pull _) =
     (if rn_forwards r \<and> rn_held r = None then
        (case rn_outbox r of
           [] \<Rightarrow> (if rn_alive r then None else Some (r\<lparr>rn_forwards := False\<rparr>))
         | x # rest \<Rightarrow> Some (r\<lparr>rn_outbox := rest, rn_held := Some x\<rparr>))
      else None)"
| "session_move r (Finish _) =
     (if rn_alive r \<and> rn_unsent r = [] \<and> rn_inbox r = [] \<and> \<not> rn_sender r then Some (r\<lparr>rn_alive := False\<rparr>) else None)"
| "session_move r _ = None"

fun event_session :: "front_event \<Rightarrow> nat option" where
  "event_session (Serve k _) = Some k"
| "event_session (Live k _) = Some k"
| "event_session (Put k) = Some k"
| "event_session (Pull k) = Some k"
| "event_session (Push k) = Some k"
| "event_session (Finish k) = Some k"
| "event_session _ = None"

definition push_reply :: "nat \<Rightarrow> demux \<Rightarrow> (demux \<times> front_effect list) option" where
  "push_reply k d =
     (let r = dm_sessions d ! k
      in case rn_held r of
           None \<Rightarrow> None
         | Some x \<Rightarrow>
             if \<not> rn_forwards r then None
             else if dm_phase d = Returned then Some (update_session k (\<lambda>r. r\<lparr>rn_forwards := False\<rparr>) d, [])
             else if length (dm_replies d) < REPLY_CHANNEL then
               Some (update_session k (\<lambda>r. r\<lparr>rn_held := None\<rparr>) (d\<lparr>dm_replies := dm_replies d @ [(rn_id r, x)]\<rparr>), [Said k x])
             else None)"

definition hand_over :: "demux \<Rightarrow> (demux \<times> front_effect list) option" where
  "hand_over d =
     (case dm_phase d of
        Handing sid k plain \<Rightarrow>
          let r = dm_sessions d ! k
          in if \<not> rn_alive r then Some (remove_stream sid (d\<lparr>dm_phase := Selecting\<rparr>), [])
             else if length (rn_inbox r) < SESSION_CHANNEL then
               Some (update_session k (\<lambda>r. r\<lparr>rn_inbox := rn_inbox r @ [plain]\<rparr>) (d\<lparr>dm_phase := Selecting\<rparr>), [Handed k plain])
             else None
      | _ \<Rightarrow> None)"

definition demux_step :: "front_lib \<Rightarrow> demux \<Rightarrow> front_event \<Rightarrow> (demux \<times> front_effect list) option" where
  "demux_step L d e =
     (case event_session e of
        Some k \<Rightarrow>
          if length (dm_sessions d) \<le> k then None
          else if e = Push k then push_reply k d
          else map_option (\<lambda>r. (update_session k (\<lambda>_. r) d, [])) (session_move (dm_sessions d ! k) e)
      | None \<Rightarrow>
          if e = Hand then hand_over d
          else if dm_phase d \<noteq> Selecting then None
          else
            (case e of
               Reply ok \<Rightarrow>
                 (case dm_replies d of
                    [] \<Rightarrow> None
                  | x # rest \<Rightarrow> Some (take_reply L ok (d\<lparr>dm_replies := rest\<rparr>) x))
             | Frame None \<Rightarrow> Some (d, [])
             | Frame (Some f) \<Rightarrow> Some (take_frame L d f)
             | _ \<Rightarrow> Some (demux_return d, [])))"

fun demux_run :: "front_lib \<Rightarrow> demux \<Rightarrow> front_event list \<Rightarrow> (demux \<times> front_effect list) option" where
  "demux_run L d [] = Some (d, [])"
| "demux_run L d (e # es) =
     (case demux_step L d e of
        None \<Rightarrow> None
      | Some (d, xs) \<Rightarrow> (case demux_run L d es of None \<Rightarrow> None | Some (d, ys) \<Rightarrow> Some (d, xs @ ys)))"

section \<open>The invariant\<close>

lemma update_session_fields [simp]:
  "dm_streams (update_session k f d) = dm_streams d" "dm_replies (update_session k f d) = dm_replies d"
  "dm_phase (update_session k f d) = dm_phase d" "length (dm_sessions (update_session k f d)) = length (dm_sessions d)"
  by (simp_all add: update_session_def)

lemma update_session_nth:
  "i < length (dm_sessions d) \<Longrightarrow> dm_sessions (update_session k f d) ! i = (if i = k then f (dm_sessions d ! k) else dm_sessions d ! i)"
  by (simp add: update_session_def nth_list_update)

lemma remove_stream_fields [simp]:
  "dm_replies (remove_stream sid d) = dm_replies d" "dm_phase (remove_stream sid d) = dm_phase d"
  "length (dm_sessions (remove_stream sid d)) = length (dm_sessions d)"
  "dm_streams (remove_stream sid d) = AList.delete sid (dm_streams d)"
  by (simp_all add: remove_stream_def delete_conv delete_id map_of_eq_None_iff split: option.splits)

text \<open>Every stream leads to a session of its own that was spawned for its identifier and whose sender is held; every channel
  keeps to its capacity.\<close>

definition stream_ok :: "demux \<Rightarrow> bytes \<Rightarrow> front_stream \<Rightarrow> bool" where
  "stream_ok d sid st \<longleftrightarrow> st_to st < length (dm_sessions d) \<and> rn_id (dm_sessions d ! st_to st) = sid \<and> rn_sender (dm_sessions d ! st_to st)"

definition channels_ok :: "running \<Rightarrow> bool" where
  "channels_ok r \<longleftrightarrow> length (rn_inbox r) \<le> SESSION_CHANNEL \<and> length (rn_outbox r) \<le> SESSION_CHANNEL"

definition demux_ok :: "demux \<Rightarrow> bool" where
  "demux_ok d \<longleftrightarrow> distinct (map fst (dm_streams d)) \<and> length (dm_streams d) \<le> MAX_SESSIONS \<and>
     (\<forall>sid st. map_of (dm_streams d) sid = Some st \<longrightarrow> stream_ok d sid st) \<and>
     (\<forall>r\<in>set (dm_sessions d). channels_ok r) \<and> length (dm_replies d) \<le> REPLY_CHANNEL \<and>
     (case dm_phase d of Handing sid k _ \<Rightarrow> \<exists>st. map_of (dm_streams d) sid = Some st \<and> st_to st = k | _ \<Rightarrow> True)"

lemma demux_start_ok: "demux_ok demux_start"
  by (simp add: demux_ok_def demux_start_def)

lemma streams_apart:
  "demux_ok d \<Longrightarrow> map_of (dm_streams d) sid = Some st \<Longrightarrow> map_of (dm_streams d) sid' = Some st' \<Longrightarrow> st_to st = st_to st' \<Longrightarrow> sid = sid'"
  by (metis demux_ok_def stream_ok_def)

lemma length_update_present: "map_of al k = Some v \<Longrightarrow> length (AList.update k w al) = length al" for al :: "('a \<times> 'b) list"
  by (induction al) (auto split: if_splits)

lemma length_delete_le: "length (AList.delete k al) \<le> length al"
  by (induction al) auto

text \<open>Changing one session without touching whose it is keeps all of it.\<close>

lemma update_session_ok:
  assumes "demux_ok d" "k < length (dm_sessions d)" "rn_id (f (dm_sessions d ! k)) = rn_id (dm_sessions d ! k)"
    "rn_sender (f (dm_sessions d ! k)) = rn_sender (dm_sessions d ! k)" "channels_ok (f (dm_sessions d ! k))"
  shows "demux_ok (update_session k f d)"
proof -
  have "stream_ok (update_session k f d) sid st" if "stream_ok d sid st" for sid st
    using that assms(3,4) by (auto simp: stream_ok_def update_session_nth)
  moreover have "\<forall>r\<in>set (dm_sessions (update_session k f d)). channels_ok r"
    using assms(1,5) by (auto simp: update_session_def demux_ok_def dest: set_update_subset_insert [THEN subsetD])
  ultimately show ?thesis using assms(1) unfolding demux_ok_def update_session_fields by blast
qed

lemma remove_stream_ok:
  assumes "demux_ok d" "\<And>k p. dm_phase d \<noteq> Handing sid k p"
  shows "demux_ok (remove_stream sid d)"
proof (cases "map_of (dm_streams d) sid")
  case None
  then show ?thesis using assms(1) by (simp add: remove_stream_def)
next
  case (Some st)
  let ?d = "d\<lparr>dm_streams := AList.delete sid (dm_streams d)\<rparr>"
  have eq: "remove_stream sid d = update_session (st_to st) (\<lambda>r. r\<lparr>rn_sender := False\<rparr>) ?d"
    using Some by (simp add: remove_stream_def)
  have "stream_ok (remove_stream sid d) sid' st'" if "map_of (AList.delete sid (dm_streams d)) sid' = Some st'" for sid' st'
  proof -
    have ne: "sid' \<noteq> sid" and m: "map_of (dm_streams d) sid' = Some st'" using that by (auto simp: delete_conv' split: if_splits)
    then have "st_to st' \<noteq> st_to st" using streams_apart [OF assms(1)] Some by metis
    then show ?thesis using m assms(1) by (auto simp: eq stream_ok_def update_session_nth demux_ok_def)
  qed
  moreover have "\<forall>r\<in>set (dm_sessions (remove_stream sid d)). channels_ok r"
    using assms(1) Some by (auto simp: eq update_session_def demux_ok_def channels_ok_def stream_ok_def dest!: set_update_subset_insert [THEN subsetD])
  moreover have "length (AList.delete sid (dm_streams d)) \<le> MAX_SESSIONS"
    using length_delete_le [of sid "dm_streams d"] assms(1) by (simp add: demux_ok_def)
  ultimately show ?thesis
    using assms by (auto simp: demux_ok_def delete_conv' intro: distinct_delete split: front_phase.splits)
qed

lemma refresh_stream_ok:
  assumes "demux_ok d" "map_of (dm_streams d) sid = Some st"
    "ph = dm_phase d \<or> (\<exists>p. ph = Handing sid (st_to st) p)"
  shows "demux_ok (d\<lparr>dm_streams := AList.update sid (st\<lparr>st_session := s\<rparr>) (dm_streams d), dm_phase := ph\<rparr>)"
proof -
  have "stream_ok d sid st" using assms(1,2) by (simp add: demux_ok_def)
  then show ?thesis
    using assms length_update_present [OF assms(2), of "st\<lparr>st_session := s\<rparr>"]
    by (auto simp: demux_ok_def stream_ok_def update_conv' intro: distinct_update split: front_phase.splits if_splits)
qed

lemma demux_return_ok: "demux_ok d \<Longrightarrow> demux_ok (demux_return d)"
  by (auto simp: demux_ok_def demux_return_def channels_ok_def)

lemma shorter_replies_ok: "demux_ok d \<Longrightarrow> length q \<le> REPLY_CHANNEL \<Longrightarrow> demux_ok (d\<lparr>dm_replies := q\<rparr>)"
  by (auto simp: demux_ok_def stream_ok_def split: front_phase.splits)

lemma take_reply_ok:
  assumes "demux_ok d" "dm_phase d = Selecting"
  shows "demux_ok (fst (take_reply L ok d x))"
proof -
  obtain sid plain where x: "x = (sid, plain)" by fastforce
  have "demux_ok (d\<lparr>dm_streams := AList.update sid (st\<lparr>st_session := s\<rparr>) (dm_streams d)\<rparr>)"
    if "map_of (dm_streams d) sid = Some st" for st s
    using refresh_stream_ok [OF assms(1) that, of Selecting s] assms(2) by (cases d) simp
  then show ?thesis
    using assms remove_stream_ok [OF assms(1), of sid]
    by (auto simp: x take_reply_def Let_def intro: demux_return_ok split: option.splits prod.splits sum.splits)
qed

lemma accept_hello_ok:
  assumes "demux_ok d" "dm_phase d = Selecting"
  shows "demux_ok (fst (accept_hello L d sid label hb))"
proof -
  have "demux_ok (d\<lparr>dm_sessions := dm_sessions d @ [spawned sid], dm_streams := (sid, st) # dm_streams d\<rparr>)"
    if "map_of (dm_streams d) sid = None" "length (dm_streams d) < MAX_SESSIONS" "st_to st = length (dm_sessions d)" for st
    using assms that
    by (auto simp: demux_ok_def stream_ok_def channels_ok_def spawned_def nth_append map_of_eq_None_iff intro: less_SucI split: if_splits)
  then show ?thesis using assms(1) by (auto simp: accept_hello_def Let_def not_le split: option.splits sum.splits)
qed

lemma open_body_ok:
  assumes "demux_ok d" "dm_phase d = Selecting"
  shows "demux_ok (open_body L d sid b)"
proof -
  have "demux_ok (d\<lparr>dm_streams := AList.update sid (st\<lparr>st_session := s\<rparr>) (dm_streams d), dm_phase := Handing sid (st_to st) p\<rparr>)"
    if "map_of (dm_streams d) sid = Some st" for st s p
    using refresh_stream_ok [OF assms(1) that] by blast
  then show ?thesis
    using assms remove_stream_ok [OF assms(1), of sid] by (auto simp: open_body_def split: option.splits prod.splits sum.splits)
qed

lemma take_frame_ok:
  assumes "demux_ok d" "dm_phase d = Selecting"
  shows "demux_ok (fst (take_frame L d f))"
  using accept_hello_ok [OF assms] open_body_ok [OF assms] remove_stream_ok [OF assms(1)] assms
  by (simp add: take_frame_def split: option.splits)

lemma session_move_keeps:
  assumes "session_move r e = Some r'"
  shows "rn_id r' = rn_id r" "rn_sender r' = rn_sender r" "channels_ok r \<Longrightarrow> channels_ok r'"
  using assms by (cases e; auto simp: channels_ok_def SESSION_CHANNEL_def split: if_splits list.splits)+

lemma push_reply_ok:
  assumes "demux_ok d" "k < length (dm_sessions d)" "push_reply k d = Some (d', xs)"
  shows "demux_ok d'"
proof -
  have ch: "channels_ok (dm_sessions d ! k)" using assms(1,2) by (simp add: demux_ok_def)
  have q: "demux_ok (d\<lparr>dm_replies := dm_replies d @ [y]\<rparr>)" if "length (dm_replies d) < REPLY_CHANNEL" for y
    using assms(1) that by (simp add: shorter_replies_ok)
  show ?thesis using assms ch
    by (auto simp: push_reply_def Let_def channels_ok_def intro!: update_session_ok q split: option.splits if_splits)
qed

lemma hand_over_ok:
  assumes "demux_ok d" "hand_over d = Some (d', xs)"
  shows "demux_ok d'"
proof -
  obtain sid k p where ph: "dm_phase d = Handing sid k p" using assms(2) by (auto simp: hand_over_def split: front_phase.splits)
  have sel: "demux_ok (d\<lparr>dm_phase := Selecting\<rparr>)" using assms(1) by (simp add: demux_ok_def stream_ok_def)
  have k: "k < length (dm_sessions d)" using assms(1) ph by (auto simp: demux_ok_def stream_ok_def)
  then have "channels_ok (dm_sessions d ! k)" using assms(1) by (simp add: demux_ok_def)
  then show ?thesis using assms(2) ph k sel
    by (auto simp: hand_over_def Let_def channels_ok_def intro!: update_session_ok remove_stream_ok split: if_splits)
qed

lemma demux_step_ok: "demux_ok d \<Longrightarrow> demux_step L d e = Some (d', xs) \<Longrightarrow> demux_ok d'"
proof -
  assume ok: "demux_ok d" and st: "demux_step L d e = Some (d', xs)"
  show ?thesis
  proof (cases "event_session e")
    case (Some k)
    have k: "k < length (dm_sessions d)" using st Some by (auto simp: demux_step_def split: if_splits)
    then have "channels_ok (dm_sessions d ! k)" using ok by (simp add: demux_ok_def)
    then show ?thesis using st Some k push_reply_ok [OF ok k] session_move_keeps
      by (auto simp: demux_step_def intro!: update_session_ok [OF ok k] split: if_splits)
  next
    case None
    show ?thesis
    proof (cases "e = Hand")
      case True
      then show ?thesis using st hand_over_ok [OF ok] by (simp add: demux_step_def)
    next
      case False
      have sel: "dm_phase d = Selecting" using st None False by (auto simp: demux_step_def split: if_splits)
      have len: "length rest \<le> REPLY_CHANNEL" if "dm_replies d = y # rest" for y rest using ok that by (simp add: demux_ok_def)
      show ?thesis
        using st None False sel ok take_frame_ok [OF ok sel] demux_return_ok [OF ok]
          take_reply_ok [OF shorter_replies_ok [OF ok len]]
        by (auto simp: demux_step_def split: front_event.splits option.splits list.splits) (metis fst_conv)+
    qed
  qed
qed

lemma demux_run_ok: "demux_ok d \<Longrightarrow> demux_run L d es = Some (d', xs) \<Longrightarrow> demux_ok d'"
proof (induction es arbitrary: d xs)
  case (Cons e es)
  then obtain d1 ys zs where "demux_step L d e = Some (d1, ys)" "demux_run L d1 es = Some (d', zs)" by (auto split: option.splits)
  with Cons.IH [of d1] demux_step_ok [OF Cons.prems(1)] show ?case by blast
qed simp

section \<open>What a session hears\<close>

fun handed :: "nat \<Rightarrow> front_effect list \<Rightarrow> bytes list" where
  "handed k [] = []"
| "handed k (Handed j t # xs) = (if j = k then t # handed k xs else handed k xs)"
| "handed k (_ # xs) = handed k xs"

definition waiting :: "demux \<Rightarrow> nat \<Rightarrow> bytes list" where
  "waiting d k = (case dm_phase d of Handing _ j p \<Rightarrow> if j = k then [p] else [] | _ \<Rightarrow> [])"

text \<open>The sealed bodies that a history of frames carried.\<close>

fun frame_body :: "front_lib \<Rightarrow> front_event \<Rightarrow> bytes set" where
  "frame_body L (Frame (Some f)) =
     (case ff_b f of None \<Rightarrow> {} | Some b \<Rightarrow> (case fl_b64 L b of None \<Rightarrow> {} | Some sealed \<Rightarrow> {sealed}))"
| "frame_body L _ = {}"

definition bodies :: "front_lib \<Rightarrow> front_event list \<Rightarrow> bytes set" where
  "bodies L es = (\<Union>e\<in>set es. frame_body L e)"

lemma handed_append [simp]: "handed k (xs @ ys) = handed k xs @ handed k ys"
  by (induction k xs rule: handed.induct) simp_all

text \<open>The end of a run of openings, and sessions that open alike.\<close>

fun after_opening :: "aead_dec \<Rightarrow> front_session \<Rightarrow> bytes list \<Rightarrow> front_session" where
  "after_opening dec s [] = s"
| "after_opening dec s (c # cs) = after_opening dec (fst (front_open dec s c)) cs"

lemma after_opening_append: "after_opening dec s (xs @ ys) = after_opening dec (after_opening dec s xs) ys"
  by (induction xs arbitrary: s) simp_all

lemma opened_append: "opened dec s (xs @ ys) = opened dec s xs @ opened dec (after_opening dec s xs) ys"
  by (induction xs arbitrary: s) (simp_all split: prod.splits)

definition opens_like :: "front_session \<Rightarrow> front_session \<Rightarrow> bool" where
  "opens_like s t \<longleftrightarrow> open_key s = open_key t \<and> fs_id s = fs_id t \<and> fs_open_counter s = fs_open_counter t"

lemma opens_like_refl [simp]: "opens_like s s"
  by (simp add: opens_like_def)

lemma opens_like_trans: "opens_like s t \<Longrightarrow> opens_like t u \<Longrightarrow> opens_like s u"
  by (simp add: opens_like_def)

lemma opens_like_open:
  assumes "opens_like s t" "front_open dec s c = (s', Inr m)"
  shows "snd (front_open dec t c) = Inr m \<and> opens_like s' (fst (front_open dec t c))"
proof (cases rule: front_open_cases [of dec s c])
  case (taken p)
  then have "front_open dec t c = (t\<lparr>fs_open_counter := fs_open_counter t + 1\<rparr>, Inr m)"
    using assms by (auto simp: opens_like_def front_open_def open_key_def Let_def checked_add_1 split: option.splits)
  then show ?thesis using taken assms by (auto simp: opens_like_def)
qed (use assms(2) in auto)

lemma opens_like_seal: "front_seal enc s m = (s', Inr c) \<Longrightarrow> opens_like s' s"
  by (auto simp: front_seal_Inr_iff opens_like_def)

text \<open>Every session has been handed the beginning of what opening some of the bodies in turn gives; where its stream still stands
  the stream's own session is at the end of them.\<close>

definition first_session :: "front_lib \<Rightarrow> hello \<Rightarrow> front_session" where
  "first_session L hl = front_accept (fl_hash L) (fl_decaps L) hl"

definition hears :: "front_lib \<Rightarrow> bytes set \<Rightarrow> demux \<Rightarrow> nat \<Rightarrow> front_session \<Rightarrow> bytes list \<Rightarrow> bytes list \<Rightarrow> bool" where
  "hears L B d k m us rest \<longleftrightarrow> set us \<subseteq> B \<and>
     (\<forall>sid st. map_of (dm_streams d) sid = Some st \<longrightarrow> st_to st = k \<longrightarrow> rest = [] \<and> opens_like (st_session st) (after_opening (fl_dec L) m us))"

definition heard :: "front_lib \<Rightarrow> bytes set \<Rightarrow> demux \<Rightarrow> front_effect list \<Rightarrow> bool" where
  "heard L B d xs \<longleftrightarrow>
     (\<forall>k. length (dm_sessions d) \<le> k \<longrightarrow> handed k xs = [] \<and> (\<forall>hl. Opened k hl \<notin> set xs)) \<and>
     (\<forall>k hl. Opened k hl \<in> set xs \<longrightarrow>
       (\<exists>us rest. hears L B d k (first_session L hl) us rest \<and>
          opened (fl_dec L) (first_session L hl) us = handed k xs @ waiting d k @ rest))"

definition calm :: "demux \<Rightarrow> demux \<Rightarrow> bool" where
  "calm d d' \<longleftrightarrow> length (dm_sessions d') = length (dm_sessions d) \<and> (\<forall>k. waiting d' k = waiting d k) \<and>
     (\<forall>sid st. map_of (dm_streams d') sid = Some st \<longrightarrow>
       (\<exists>st0. map_of (dm_streams d) sid = Some st0 \<and> st_to st = st_to st0 \<and> opens_like (st_session st) (st_session st0)))"

lemma calm_stream:
  assumes "calm d d'" "map_of (dm_streams d') sid = Some st"
  obtains st0 where "map_of (dm_streams d) sid = Some st0" "st_to st = st_to st0" "opens_like (st_session st) (st_session st0)"
  using assms unfolding calm_def by metis

lemma heard_calm:
  assumes "heard L B d xs" "calm d d'" "\<And>k. handed k ys = []" "\<And>k hl. Opened k hl \<notin> set ys"
  shows "heard L B d' (xs @ ys)"
proof -
  have h: "hears L B d' k m us rest" if "hears L B d k m us rest" for k m us rest
    unfolding hears_def
  proof (intro conjI allI impI)
    fix sid st
    assume "map_of (dm_streams d') sid = Some st" "st_to st = k"
    then obtain st0 where "map_of (dm_streams d) sid = Some st0" "st_to st0 = k" "opens_like (st_session st) (st_session st0)"
      using calm_stream [OF assms(2)] by metis
    then show "rest = []" "opens_like (st_session st) (after_opening (fl_dec L) m us)"
      using that opens_like_trans by (auto simp: hears_def)
  qed (use that in \<open>simp add: hears_def\<close>)
  have same: "Opened k hl \<in> set (xs @ ys) \<longleftrightarrow> Opened k hl \<in> set xs" "handed k (xs @ ys) = handed k xs"
    "waiting d' k = waiting d k" "length (dm_sessions d') = length (dm_sessions d)" for k hl
    using assms(2-4) by (simp_all add: calm_def)
  from assms(1) h show ?thesis unfolding heard_def same by blast
qed

text \<open>The steps that change neither what is waiting nor what a stream will open.\<close>

lemma waiting_selecting: "dm_phase d = Selecting \<Longrightarrow> waiting d k = []" "dm_phase d = Returned \<Longrightarrow> waiting d k = []"
  by (simp_all add: waiting_def)

lemma waiting_cong: "dm_phase d = dm_phase d' \<Longrightarrow> waiting d k = waiting d' k"
  by (simp add: waiting_def)

lemma calm_refl [simp]: "calm d d"
  by (auto simp: calm_def)

lemma calm_same:
  "dm_streams d' = dm_streams d \<Longrightarrow> dm_phase d' = dm_phase d \<Longrightarrow> length (dm_sessions d') = length (dm_sessions d) \<Longrightarrow> calm d d'"
  by (auto simp: calm_def waiting_def)

lemma calm_remove: "calm d (remove_stream sid d)"
  by (auto simp: calm_def delete_conv' waiting_def split: if_splits)

lemma calm_return: "dm_phase d = Selecting \<Longrightarrow> calm d (demux_return d)"
  by (simp add: calm_def demux_return_def waiting_def)

lemma calm_trans:
  assumes "calm d e" "calm e f"
  shows "calm d f"
  unfolding calm_def
proof (intro conjI allI impI)
  fix sid st
  assume "map_of (dm_streams f) sid = Some st"
  then obtain st1 where 1: "map_of (dm_streams e) sid = Some st1" "st_to st = st_to st1" "opens_like (st_session st) (st_session st1)"
    by (rule calm_stream [OF assms(2)])
  then obtain st0 where 0: "map_of (dm_streams d) sid = Some st0" "st_to st1 = st_to st0" "opens_like (st_session st1) (st_session st0)"
    by (rule_tac calm_stream [OF assms(1) 1(1)])
  show "\<exists>st0. map_of (dm_streams d) sid = Some st0 \<and> st_to st = st_to st0 \<and> opens_like (st_session st) (st_session st0)"
    using 0(1) 1(2) 0(2) opens_like_trans [OF 1(3) 0(3)] by simp
qed (use assms in \<open>simp_all add: calm_def\<close>)

lemma calm_seal:
  assumes "map_of (dm_streams d) sid = Some st" "front_seal enc (st_session st) m = (s, Inr c)"
  shows "calm d (d\<lparr>dm_streams := AList.update sid (st\<lparr>st_session := s\<rparr>) (dm_streams d)\<rparr>)"
  using assms opens_like_seal by (auto simp: calm_def waiting_def update_conv')

lemma take_reply_calm:
  assumes "dm_phase d = Selecting" "take_reply L ok d x = (d', ys)"
  shows "calm d d' \<and> handed k ys = [] \<and> Opened k hl \<notin> set ys"
proof -
  obtain sid plain where x: "x = (sid, plain)" by fastforce
  show ?thesis
  proof (cases "map_of (dm_streams d) sid")
    case None
    then show ?thesis using assms(2) by (simp add: x take_reply_def)
  next
    case (Some st)
    obtain s r where r: "front_seal (fl_enc L) (st_session st) plain = (s, r)" by fastforce
    let ?d = "d\<lparr>dm_streams := AList.update sid (st\<lparr>st_session := s\<rparr>) (dm_streams d)\<rparr>"
    show ?thesis
    proof (cases r)
      case (Inl e)
      then show ?thesis using assms(2) Some r calm_remove by (auto simp: x take_reply_def)
    next
      case (Inr c)
      then have "calm d ?d" "calm ?d (demux_return ?d)" using calm_seal [OF Some] r assms(1) by (simp_all add: calm_return)
      then show ?thesis using assms(2) Some r Inr calm_trans by (auto simp: x take_reply_def Let_def split: if_splits)
    qed
  qed
qed

lemma heardD:
  assumes "heard L B d xs" "Opened k hl \<in> set xs"
  obtains us rest where "hears L B d k (first_session L hl) us rest"
    "opened (fl_dec L) (first_session L hl) us = handed k xs @ waiting d k @ rest"
  using assms unfolding heard_def by meson

text \<open>A new session has heard nothing.\<close>

lemma heard_accept:
  assumes "heard L B d xs" "demux_ok d" "dm_phase d = Selecting" "accept_hello L d sid label hb = (d', ys)"
  shows "heard L B d' (xs @ ys)"
proof (cases "ys = []")
  case True
  then show ?thesis using assms(1,4) by (auto simp: accept_hello_def Let_def split: if_splits option.splits sum.splits)
next
  case False
  let ?n = "length (dm_sessions d)"
  obtain hl where fresh: "map_of (dm_streams d) sid = None" and ys: "ys = [Opened ?n hl]"
    and d0: "d' = d\<lparr>dm_sessions := dm_sessions d @ [spawned sid],
      dm_streams := (sid, \<lparr> st_session = first_session L hl, st_to = ?n, st_label = label \<rparr>) # dm_streams d\<rparr>"
    using assms(4) False by (auto simp: accept_hello_def first_session_def Let_def split: if_splits option.splits sum.splits)
  define st where "st = \<lparr> st_session = first_session L hl, st_to = ?n, st_label = label \<rparr>"
  have st: "st_to st = ?n" "st_session st = first_session L hl"
    and d': "d' = d\<lparr>dm_sessions := dm_sessions d @ [spawned sid], dm_streams := (sid, st) # dm_streams d\<rparr>"
    by (simp_all add: st_def d0)
  have none: "handed ?n xs = []" "Opened ?n hl' \<notin> set xs" for hl' using assms(1) by (auto simp: heard_def)
  have w: "waiting d' k = []" "waiting d k = []" for k using assms(3) by (simp_all add: d' waiting_def)
  have "\<exists>us rest. hears L B d' k (first_session L hl') us rest \<and>
      opened (fl_dec L) (first_session L hl') us = handed k (xs @ ys) @ waiting d' k @ rest" if k: "Opened k hl' \<in> set (xs @ ys)" for k hl'
  proof (cases "k = ?n")
    case True
    then have "hl' = hl" using k none ys by auto
    moreover have "st' = st" if "map_of (dm_streams d') sid' = Some st'" "st_to st' = ?n" for sid' st'
    proof -
      have "st_to st0 < ?n" if "map_of (dm_streams d) s0 = Some st0" for s0 st0
        using assms(2) that by (simp add: demux_ok_def stream_ok_def)
      then show ?thesis using that by (fastforce simp: d' split: if_splits)
    qed
    ultimately have "hears L B d' k (first_session L hl') [] []" using st(2) True by (auto simp: hears_def)
    then show ?thesis using none True by (intro exI [of _ "[]"]) (simp add: w ys)
  next
    case False
    then have old: "Opened k hl' \<in> set xs" using k ys by simp
    from heardD [OF assms(1) this] obtain us rest where us: "hears L B d k (first_session L hl') us rest"
      "opened (fl_dec L) (first_session L hl') us = handed k xs @ waiting d k @ rest" .
    have "hears L B d' k (first_session L hl') us rest" using us(1) False st(1) by (auto simp: hears_def d' split: if_splits)
    then show ?thesis using us(2) by (intro exI [of _ us] exI [of _ rest]) (simp add: w ys)
  qed
  then show ?thesis using assms(1) unfolding heard_def by (auto simp: d' ys)
qed

text \<open>A body that opens goes to its session next.\<close>

lemma heard_open:
  assumes "heard L B d xs" "demux_ok d" "dm_phase d = Selecting" "\<And>c. fl_b64 L b = Some c \<Longrightarrow> c \<in> B"
  shows "heard L B (open_body L d sid b) xs"
proof (cases "calm d (open_body L d sid b)")
  case True
  then show ?thesis using heard_calm [OF assms(1), of _ "[]"] by simp
next
  case False
  then obtain c st s plain where c: "fl_b64 L b = Some c" and st: "map_of (dm_streams d) sid = Some st"
    and op: "front_open (fl_dec L) (st_session st) c = (s, Inr plain)"
    and d': "open_body L d sid b = d\<lparr>dm_streams := AList.update sid (st\<lparr>st_session := s\<rparr>) (dm_streams d), dm_phase := Handing sid (st_to st) plain\<rparr>"
    using calm_remove by (auto simp: open_body_def split: option.splits prod.splits sum.splits if_splits)
  let ?d = "open_body L d sid b"
  have streams: "map_of (dm_streams ?d) sid' = (if sid' = sid then Some (st\<lparr>st_session := s\<rparr>) else map_of (dm_streams d) sid')" for sid'
    by (simp add: d' update_conv')
  have w: "waiting d k = []" "waiting ?d k = (if k = st_to st then [plain] else [])" for k using assms(3) by (auto simp: waiting_def d')
  have "\<exists>us rest. hears L B ?d k (first_session L hl) us rest \<and>
      opened (fl_dec L) (first_session L hl) us = handed k xs @ waiting ?d k @ rest" if k: "Opened k hl \<in> set xs" for k hl
  proof -
    from heardD [OF assms(1) k] obtain us rest where us: "hears L B d k (first_session L hl) us rest"
      "opened (fl_dec L) (first_session L hl) us = handed k xs @ waiting d k @ rest" .
    show ?thesis
    proof (cases "k = st_to st")
      case False
      then have "hears L B ?d k (first_session L hl) us rest" using us(1) by (auto simp: hears_def streams split: if_splits)
      then show ?thesis using us(2) False by (intro exI [of _ us] exI [of _ rest]) (simp add: w)
    next
      case True
      let ?e = "after_opening (fl_dec L) (first_session L hl) us"
      have like: "rest = []" "opens_like (st_session st) ?e" using us(1) st True by (auto simp: hears_def)
      from opens_like_open [OF like(2) op] have e: "snd (front_open (fl_dec L) ?e c) = Inr plain" "opens_like s (fst (front_open (fl_dec L) ?e c))"
        by simp_all
      have only: "st_session st' = s" if "map_of (dm_streams ?d) sid' = Some st'" "st_to st' = k" for sid' st'
        using that streams_apart [OF assms(2) st] True by (auto simp: streams split: if_splits)
      have "set (us @ [c]) \<subseteq> B" using us(1) assms(4) [OF c] by (simp add: hears_def)
      then have "hears L B ?d k (first_session L hl) (us @ [c]) []"
        using e(2) only unfolding hears_def by (simp add: after_opening_append)
      moreover have "opened (fl_dec L) (first_session L hl) (us @ [c]) = handed k xs @ [plain]"
        using us(2) e(1) like(1) by (auto simp: opened_append w split: prod.splits)
      ultimately show ?thesis using True by (intro exI [of _ "us @ [c]"] exI [of _ "[]"]) (simp add: w)
    qed
  qed
  moreover have "length (dm_sessions ?d) = length (dm_sessions d)" by (simp add: d')
  ultimately show ?thesis using assms(1) unfolding heard_def by metis
qed

lemma heard_frame:
  assumes "heard L B d xs" "demux_ok d" "dm_phase d = Selecting" "frame_body L (Frame (Some f)) \<subseteq> B" "take_frame L d f = (d', ys)"
  shows "heard L B d' (xs @ ys)"
proof -
  have rem: "heard L B (remove_stream sid d) (xs @ [])" for sid
    by (rule heard_calm [OF assms(1) calm_remove]) simp_all
  have op: "heard L B (open_body L d sid b) (xs @ [])" if "ff_b f = Some b" for sid b
  proof -
    have "c \<in> B" if "fl_b64 L b = Some c" for c using assms(4) \<open>ff_b f = Some b\<close> that by simp
    then show ?thesis using heard_open [OF assms(1-3)] by simp
  qed
  show ?thesis using assms(1,5) rem op heard_accept [OF assms(1-3)]
    by (auto simp: take_frame_def split: option.splits if_splits)
qed

text \<open>Handing a text over moves it from what waits to what was handed; a session that is gone takes its stream with it.\<close>

lemma heard_hand:
  assumes "heard L B d xs" "demux_ok d" "hand_over d = Some (d', ys)"
  shows "heard L B d' (xs @ ys)"
proof -
  obtain sid k p st where ph: "dm_phase d = Handing sid k p" and st: "map_of (dm_streams d) sid = Some st" "st_to st = k"
    using assms(2,3) by (auto simp: hand_over_def demux_ok_def split: front_phase.splits)
  have k: "k < length (dm_sessions d)" using assms(2) st by (auto simp: demux_ok_def stream_ok_def)
  have w: "waiting d j = (if k = j then [p] else [])" for j using ph by (simp add: waiting_def)
  have len: "length (dm_sessions d') = length (dm_sessions d)" and opened: "Opened j hl \<in> set (xs @ ys) \<longleftrightarrow> Opened j hl \<in> set xs"
    and sel: "dm_phase d' = Selecting" and new: "handed j ys = (if rn_alive (dm_sessions d ! k) \<and> j = k then [p] else [])" for j hl
    using assms(3) ph by (auto simp: hand_over_def Let_def split: if_splits)
  have "\<exists>us rest. hears L B d' j (first_session L hl) us rest \<and>
      opened (fl_dec L) (first_session L hl) us = handed j (xs @ ys) @ waiting d' j @ rest" if j: "Opened j hl \<in> set xs" for j hl
  proof -
    from heardD [OF assms(1) j] obtain us rest where us: "hears L B d j (first_session L hl) us rest"
      "opened (fl_dec L) (first_session L hl) us = handed j xs @ waiting d j @ rest" .
    have streams: "dm_streams d' = (if rn_alive (dm_sessions d ! k) then dm_streams d else AList.delete sid (dm_streams d))"
      using assms(3) ph by (auto simp: hand_over_def Let_def split: if_splits)
    have sub: "map_of (dm_streams d) sid' = Some st'" if "map_of (dm_streams d') sid' = Some st'" for sid' st'
      using that by (auto simp: streams delete_conv' split: if_splits)
    have gone: "st_to st' \<noteq> k" if "map_of (dm_streams d') sid' = Some st'" "\<not> rn_alive (dm_sessions d ! k)" for sid' st'
      using that streams_apart [OF assms(2) st(1)] st(2) by (auto simp: streams delete_conv' split: if_splits)
    show ?thesis
    proof (cases "j = k \<and> \<not> rn_alive (dm_sessions d ! k)")
      case True
      then have "hears L B d' j (first_session L hl) us (p # rest)" using us(1) gone by (auto simp: hears_def)
      then show ?thesis using us(2) True by (intro exI [of _ us] exI [of _ "p # rest"]) (simp add: new w waiting_selecting(1) [OF sel])
    next
      case False
      have "hears L B d' j (first_session L hl) us rest" unfolding hears_def
      proof (intro conjI allI impI)
        show "set us \<subseteq> B" using us(1) by (simp add: hears_def)
        fix s' st'
        assume "map_of (dm_streams d') s' = Some st'" "st_to st' = j"
        from sub [OF this(1)] this(2) us(1)
        show "rest = []" "opens_like (st_session st') (after_opening (fl_dec L) (first_session L hl) us)"
          by (simp_all add: hears_def)
      qed
      then show ?thesis using us(2) False
        by (intro exI [of _ us] exI [of _ rest]) (auto simp: new w waiting_selecting(1) [OF sel])
    qed
  qed
  moreover have "handed j (xs @ ys) = []" "Opened j hl \<notin> set xs" if "length (dm_sessions d) \<le> j" for j hl
    using assms(1) that k new by (auto simp: heard_def)
  ultimately show ?thesis unfolding heard_def len opened by blast
qed

lemma heard_step:
  assumes h: "heard L B d xs" and ok: "demux_ok d" and st: "demux_step L d e = Some (d', ys)" and B: "frame_body L e \<subseteq> B"
  shows "heard L B d' (xs @ ys)"
proof (cases "event_session e")
  case (Some k)
  have same: "dm_streams d' = dm_streams d" "dm_phase d' = dm_phase d" "length (dm_sessions d') = length (dm_sessions d)"
    "handed j ys = []" "Opened j hl \<notin> set ys" for j hl
    using st Some by (auto simp: demux_step_def push_reply_def Let_def split: if_splits option.splits)
  show ?thesis using heard_calm [OF h calm_same [OF same(1-3)] same(4,5)] .
next
  case None
  show ?thesis
  proof (cases "e = Hand")
    case True
    then show ?thesis using st heard_hand [OF h ok] by (simp add: demux_step_def)
  next
    case False
    have sel: "dm_phase d = Selecting" using st None False by (auto simp: demux_step_def split: if_splits)
    have quiet: "heard L B d (xs @ [])" "heard L B (demux_return d) (xs @ [])"
      using h by simp (rule heard_calm [OF h calm_return [OF sel]], simp_all)
    show ?thesis
    proof (cases e)
      case (Reply ok')
      then obtain x rest where q: "dm_replies d = x # rest" and t: "take_reply L ok' (d\<lparr>dm_replies := rest\<rparr>) x = (d', ys)"
        using st sel by (auto simp: demux_step_def split: list.splits)
      have "calm d (d\<lparr>dm_replies := rest\<rparr>)" by (rule calm_same) simp_all
      then show ?thesis using heard_calm [OF h] calm_trans take_reply_calm [OF _ t] sel by auto
    next
      case (Frame fo)
      then show ?thesis using st sel quiet heard_frame [OF h ok sel] B by (cases fo) (auto simp: demux_step_def)
    qed (use st sel quiet False None in \<open>auto simp: demux_step_def\<close>)
  qed
qed

lemma heard_run:
  assumes "heard L B d xs" "demux_ok d" "demux_run L d es = Some (d', ys)" "bodies L es \<subseteq> B"
  shows "heard L B d' (xs @ ys)"
  using assms
proof (induction es arbitrary: d xs ys)
  case (Cons e es)
  then obtain d1 us vs where st: "demux_step L d e = Some (d1, us)" and run: "demux_run L d1 es = Some (d', vs)" "ys = us @ vs"
    by (auto split: option.splits)
  have "heard L B d1 (xs @ us)" using heard_step [OF Cons.prems(1,2) st] Cons.prems(4) by (simp add: bodies_def)
  from Cons.IH [OF this demux_step_ok [OF Cons.prems(2) st] run(1)] Cons.prems(4) show ?case by (simp add: run bodies_def)
qed simp

section \<open>Properties\<close>

text \<open>C22: a session hears its own phone and nobody else.  Whatever frames arrive on a front's connection, under whatever identifiers and
  in whatever order, with sessions opened, closed and stalled in between, the texts a session is handed are the
  beginning of what the phone that sealed its hello said in it, as long as what else is delivered does not open under
  that phone's key.\<close>

theorem session_hears_its_phone:
  assumes "aead_opens (fl_enc L) (fl_dec L)" "aead_commits (fl_enc L) (fl_dec L)"
    and run: "demux_run L demux_start es = Some (d, xs)" "Opened k hl \<in> set xs"
    and phone: "front_open_to (fl_hash L) (kem, fl_decaps L kem) sid = (phone, hl)" "seal_all (fl_enc L) phone ms = Inr fs"
    and alien: "\<forall>c\<in>bodies L es. c \<in> set fs \<or> (\<forall>n. fl_dec L (fs_up phone) n sid c = None)"
  shows "\<exists>n\<le>length ms. handed k xs = take n ms"
proof -
  let ?m = "first_session L hl"
  have "heard L (bodies L es) demux_start []" by (simp add: heard_def demux_start_def)
  from heard_run [OF this demux_start_ok run(1) order.refl] have "heard L (bodies L es) d xs" by simp
  from heardD [OF this run(2)] obtain us rest where h: "hears L (bodies L es) d k ?m us rest"
    and op: "opened (fl_dec L) ?m us = handed k xs @ waiting d k @ rest" .
  have us: "set us \<subseteq> bodies L es" using h by (simp add: hears_def)
  have keys: "open_key ?m = seal_key phone" "fs_id ?m = fs_id phone" "fs_seal_counter phone = 0" "fs_open_counter ?m = 0"
    "fs_up phone = open_key ?m" "fs_id ?m = sid"
    using phone(1) by (auto simp: front_open_to_def first_session_def front_accept_def open_key_def seal_key_def Let_def)
  have "\<forall>c\<in>set us. c \<in> set fs \<or> (\<forall>n. fl_dec L (open_key ?m) n (fs_id ?m) c = None)"
    using us alien by (auto simp: keys(5,6))
  from session_run [OF assms(1,2) keys(1-4) phone(2) this] obtain n where "n \<le> length ms" "opened (fl_dec L) ?m us = take n ms" by blast
  then have le: "ms = handed k xs @ (waiting d k @ rest @ drop n ms)" using op by (metis append_assoc append_take_drop_id)
  then have "length (handed k xs) \<le> length ms" "take (length (handed k xs)) ms = handed k xs"
    by (metis length_append le_add1, metis append_eq_conv_conj)
  then show ?thesis by metis
qed

definition toy_front :: front_lib where
  "toy_front = \<lparr> fl_b64 = Some, fl_b64_encode = (\<lambda>bs. bs), fl_hash = (\<lambda>c m. c), fl_decaps = (\<lambda>k. k),
     fl_enc = commit_enc, fl_dec = commit_dec, fl_utf8 = (\<lambda>_. True) \<rparr>"

definition toy_sid :: bytes where "toy_sid = replicate 8 5"
definition toy_phone :: front_session where
  "toy_phone = fst (front_open_to (\<lambda>c m. c) (replicate CIPHERTEXT_LEN 6, replicate CIPHERTEXT_LEN 6) toy_sid)"
definition toy_hello :: hello where
  "toy_hello = snd (front_open_to (\<lambda>c m. c) (replicate CIPHERTEXT_LEN 6, replicate CIPHERTEXT_LEN 6) toy_sid)"

definition toy_opening :: front_event where
  "toy_opening = Frame (Some \<lparr> ff_s = toy_sid, ff_hello = Some (hello_to_bytes toy_hello), ff_b = None, ff_close = False \<rparr>)"
definition toy_body :: "bytes \<Rightarrow> front_event" where
  "toy_body c = Frame (Some \<lparr> ff_s = toy_sid, ff_hello = None, ff_b = Some c, ff_close = False \<rparr>)"
definition toy_open :: demux where
  "toy_open = demux_start\<lparr>dm_sessions := [spawned toy_sid],
     dm_streams := [(toy_sid, \<lparr> st_session = first_session toy_front toy_hello, st_to = 0, st_label = toy_sid \<rparr>)]\<rparr>"

lemma toy_front_laws: "aead_opens (fl_enc toy_front) (fl_dec toy_front)" "aead_commits (fl_enc toy_front) (fl_dec toy_front)"
  using commit_aead by (simp_all add: toy_front_def)

lemma toy_opening_step: "demux_step toy_front demux_start toy_opening = Some (toy_open, [Opened 0 toy_hello])"
proof -
  have "hello_from_bytes (hello_to_bytes toy_hello) = Inr toy_hello"
    by (simp add: hello_crosses_the_wire toy_hello_def front_open_to_def hello_to_bytes_def toy_sid_def HELLO_LEN_def SESSION_ID_LEN_def)
  then show ?thesis
    by (simp add: demux_step_def toy_opening_def take_frame_def accept_hello_def demux_start_def toy_open_def toy_front_def toy_sid_def
      SESSION_ID_LEN_def MAX_SESSIONS_def first_session_def)
qed

lemma toy_enc: "length k < 256 \<Longrightarrow> \<exists>c. commit_enc k (nonce_for n) toy_sid m = Some c"
  by (simp add: commit_enc_def fits_all_def carry_enc_def nonce_for_def prefixed_def toy_sid_def)

lemma toy_binding: "length (front_binding dir toy_sid) < 256"
  by (cases dir) (simp_all add: front_binding_def UP_CONTEXT_def DOWN_CONTEXT_def numeral_eq_Suc toy_sid_def)

lemma front_open_key:
  "front_open dec s c =
     (case dec (open_key s) (nonce_for (fs_open_counter s)) (fs_id s) c of
        None \<Rightarrow> (s, Inl BadCiphertext)
      | Some plain \<Rightarrow>
          (case checked_add (fs_open_counter s) 1 of
             None \<Rightarrow> (s, Inl BadCiphertext)
           | Some n \<Rightarrow> (s\<lparr>fs_open_counter := n\<rparr>, Inr plain)))"
  by (simp add: front_open_def open_key_def Let_def)

lemma session_hears_its_phone_witness:
  "\<exists>c d xs. seal_all commit_enc toy_phone [[1], [2]] = Inr c \<and>
     demux_run toy_front demux_start [toy_opening, toy_body (c ! 0), Hand, toy_body (c ! 0)] = Some (d, xs) \<and>
     handed 0 xs = [[1]] \<and> (\<exists>n\<le>2. handed 0 xs = take n [[1], [2]])"
proof -
  have p: "fs_id toy_phone = toy_sid" "seal_key toy_phone = front_binding Up toy_sid" "fs_seal_counter toy_phone = 0"
    "fs_up toy_phone = front_binding Up toy_sid"
    by (simp_all add: toy_phone_def front_open_to_def seal_key_def hybrid_derive_key_def)
  obtain c where c: "front_seal commit_enc toy_phone [1] = (toy_phone\<lparr>fs_seal_counter := 1\<rparr>, Inr c)"
    using toy_enc [OF toy_binding, of Up 0 "[1]"] by (auto simp: front_seal_Inr_iff p)
  obtain c' where c': "front_seal commit_enc (toy_phone\<lparr>fs_seal_counter := 1\<rparr>) [2] = (toy_phone\<lparr>fs_seal_counter := 2\<rparr>, Inr c')"
    using toy_enc [OF toy_binding, of Up 1 "[2]"] by (auto simp: front_seal_Inr_iff p)
  have said: "seal_all commit_enc toy_phone [[1], [2]] = Inr [c, c']" by (simp add: c c' result_simps)
  let ?m = "first_session toy_front toy_hello"
  have m: "fs_id ?m = toy_sid" "open_key ?m = front_binding Up toy_sid" "fs_open_counter ?m = 0"
    by (simp_all add: first_session_def front_accept_def toy_front_def toy_hello_def front_open_to_def open_key_def hybrid_derive_key_def Let_def)
  have enc: "commit_enc (front_binding Up toy_sid) (nonce_for 0) toy_sid [1] = Some c" using c by (simp add: front_seal_Inr_iff p)
  then have "commit_dec (front_binding Up toy_sid) (nonce_for 0) toy_sid c = Some [1]" using commit_aead(1) by (auto simp: aead_opens_def)
  then have op: "front_open commit_dec ?m c = (?m\<lparr>fs_open_counter := 1\<rparr>, Inr [1])"
    by (simp add: front_open_key m checked_add_1)
  have "nonce_for 0 \<noteq> nonce_for 1" by (simp add: nonce_for_inj)
  then have no: "commit_dec (front_binding Up toy_sid) (nonce_for 1) toy_sid c = None"
    using aead_commitsD [OF commit_aead(2) enc] by (metis not_None_eq)
  have again: "front_open commit_dec (?m\<lparr>fs_open_counter := 1\<rparr>) c = (?m\<lparr>fs_open_counter := 1\<rparr>, Inl BadCiphertext)"
    using no by (simp add: front_open_key m)
  have "demux_run toy_front toy_open [toy_body c, Hand, toy_body c] =
      Some (remove_stream toy_sid (update_session 0 (\<lambda>r. r\<lparr>rn_inbox := [[1]]\<rparr>)
        (toy_open\<lparr>dm_streams := [(toy_sid, \<lparr> st_session = ?m\<lparr>fs_open_counter := 1\<rparr>, st_to = 0, st_label = toy_sid \<rparr>)]\<rparr>)), [Handed 0 [1]])"
    using op again
    by (simp add: demux_step_def toy_body_def take_frame_def open_body_def toy_open_def toy_front_def toy_sid_def SESSION_ID_LEN_def
      demux_start_def hand_over_def spawned_def SESSION_CHANNEL_def update_session_def)
  then obtain d where run: "demux_run toy_front demux_start [toy_opening, toy_body c, Hand, toy_body c] = Some (d, [Opened 0 toy_hello, Handed 0 [1]])"
    by (simp only: demux_run.simps(2) [of toy_front demux_start] toy_opening_step) simp
  have "\<forall>x\<in>bodies toy_front [toy_opening, toy_body c, Hand, toy_body c]. x \<in> set [c, c'] \<or> (\<forall>n. fl_dec toy_front (fs_up toy_phone) n toy_sid x = None)"
    by (simp add: bodies_def toy_opening_def toy_body_def toy_front_def)
  note heard = this
  have "\<exists>n\<le>length [[1 :: u8], [2]]. handed 0 [Opened 0 toy_hello, Handed 0 [1]] = take n [[1], [2]]"
  proof (rule session_hears_its_phone [OF toy_front_laws run _ _ _ heard])
    show "front_open_to (fl_hash toy_front) (replicate CIPHERTEXT_LEN 6, fl_decaps toy_front (replicate CIPHERTEXT_LEN 6)) toy_sid =
      (toy_phone, toy_hello)" by (simp add: toy_phone_def toy_hello_def toy_front_def)
    show "seal_all (fl_enc toy_front) toy_phone [[1], [2]] = Inr [c, c']" using said by (simp add: toy_front_def)
  qed simp
  with said run show ?thesis
    by (intro exI [of _ "[c, c']"] exI [of _ d] exI [of _ "[Opened 0 toy_hello, Handed 0 [1]]"]) (simp add: numeral_2_eq_2 del: demux_run.simps seal_all.simps)
qed

text \<open>The connection stays within its bounds: over any history at most MAX_SESSIONS streams under distinct identifiers, each leading to
  a session of its own, and no channel above its capacity.\<close>

theorem front_stays_bounded:
  assumes "demux_run L demux_start es = Some (d, xs)"
  shows "demux_ok d"
  using demux_run_ok [OF demux_start_ok assms] .

lemma front_stays_bounded_witness: "demux_ok (demux_return toy_open)"
proof -
  have "demux_run toy_front demux_start [toy_opening, Hangup] = Some (demux_return toy_open, [Opened 0 toy_hello])"
    by (simp add: toy_opening_step) (simp add: demux_step_def toy_open_def demux_start_def)
  from front_stays_bounded [OF this] show ?thesis .
qed

section \<open>A connection that stands still\<close>

text \<open>The demultiplexer waits for room in the inbox of a session, the session for room in its outbox, its forwarder for room in the
  replies, and those only the demultiplexer takes.\<close>

definition wedged :: "demux \<Rightarrow> nat \<Rightarrow> bool" where
  "wedged d k \<longleftrightarrow> (\<exists>sid p. dm_phase d = Handing sid k p) \<and> REPLY_CHANNEL \<le> length (dm_replies d) \<and>
     (let r = dm_sessions d ! k
      in rn_alive r \<and> rn_forwards r \<and> SESSION_CHANNEL \<le> length (rn_inbox r) \<and> rn_unsent r \<noteq> [] \<and>
         SESSION_CHANNEL \<le> length (rn_outbox r) \<and> rn_held r \<noteq> None)"

lemma wedged_step:
  assumes w: "wedged d k" and st: "demux_step L d e = Some (d', ys)"
  shows "wedged d' k \<and> ys = [] \<and> dm_phase d' = dm_phase d \<and> dm_streams d' = dm_streams d \<and> (\<exists>j. event_session e = Some j \<and> j \<noteq> k)"
proof -
  obtain sid p where ph: "dm_phase d = Handing sid k p" using w by (auto simp: wedged_def)
  show ?thesis
  proof (cases "event_session e")
    case None
    then show ?thesis using st w ph by (auto simp: demux_step_def hand_over_def wedged_def Let_def split: if_splits)
  next
    case (Some j)
    show ?thesis
    proof (cases "j = k")
      case True
      then show ?thesis using st w ph Some
        by (cases e) (auto simp: demux_step_def push_reply_def wedged_def Let_def split: if_splits list.splits option.splits)
    next
      case False
      have "e \<noteq> Push j" using st w ph Some by (auto simp: demux_step_def push_reply_def wedged_def Let_def split: if_splits option.splits)
      then obtain r where "d' = update_session j (\<lambda>_. r) d" "ys = []" using st Some by (auto simp: demux_step_def split: if_splits)
      moreover have "dm_sessions (update_session j (\<lambda>_. r) d) ! k = dm_sessions d ! k" using False by (simp add: update_session_def)
      ultimately show ?thesis using w Some False by (simp add: wedged_def Let_def)
    qed
  qed
qed

lemma wedged_run:
  "wedged d k \<Longrightarrow> demux_run L d es = Some (d', ys) \<Longrightarrow>
    ys = [] \<and> dm_phase d' = dm_phase d \<and> dm_streams d' = dm_streams d \<and> (\<forall>e\<in>set es. \<exists>j. event_session e = Some j \<and> j \<noteq> k)"
proof (induction es arbitrary: d ys)
  case (Cons e es)
  then obtain d1 us vs where st: "demux_step L d e = Some (d1, us)" "demux_run L d1 es = Some (d', vs)" "ys = us @ vs"
    by (auto split: option.splits)
  from wedged_step [OF Cons.prems(1) st(1)] Cons.IH [OF _ st(2)] st(3) show ?case by auto
qed simp

lemma demux_run_append:
  "demux_run L d (es @ fs) =
     (case demux_run L d es of
        None \<Rightarrow> None
      | Some (d, xs) \<Rightarrow> (case demux_run L d fs of None \<Rightarrow> None | Some (d, ys) \<Rightarrow> Some (d, xs @ ys)))"
  by (induction es arbitrary: d) (auto split: option.splits prod.splits)

text \<open>A connection with one session.\<close>

definition lone :: "bytes \<Rightarrow> front_session \<Rightarrow> bytes \<Rightarrow> running \<Rightarrow> (bytes \<times> bytes) list \<Rightarrow> front_phase \<Rightarrow> demux" where
  "lone sid m label r q ph = \<lparr> dm_streams = [(sid, \<lparr> st_session = m, st_to = 0, st_label = label \<rparr>)], dm_replies = q, dm_phase = ph,
     dm_sessions = [r] \<rparr>"

lemma lone_put:
  "rn_alive r \<Longrightarrow> rn_forwards r \<Longrightarrow> rn_unsent r = x # xs \<Longrightarrow> length (rn_outbox r) < SESSION_CHANNEL \<Longrightarrow>
    demux_step L (lone sid m label r q ph) (Put 0) = Some (lone sid m label (r\<lparr>rn_unsent := xs, rn_outbox := rn_outbox r @ [x]\<rparr>) q ph, [])"
  by (simp add: demux_step_def lone_def update_session_def)

lemma lone_pull:
  "rn_forwards r \<Longrightarrow> rn_held r = None \<Longrightarrow> rn_outbox r = x # xs \<Longrightarrow>
    demux_step L (lone sid m label r q ph) (Pull 0) = Some (lone sid m label (r\<lparr>rn_outbox := xs, rn_held := Some x\<rparr>) q ph, [])"
  by (simp add: demux_step_def lone_def update_session_def)

lemma lone_push:
  "rn_forwards r \<Longrightarrow> rn_held r = Some x \<Longrightarrow> length q < REPLY_CHANNEL \<Longrightarrow> ph \<noteq> Returned \<Longrightarrow>
    demux_step L (lone sid m label r q ph) (Push 0) = Some (lone sid m label (r\<lparr>rn_held := None\<rparr>) (q @ [(rn_id r, x)]) ph, [Said 0 x])"
  by (simp add: demux_step_def push_reply_def lone_def update_session_def)

text \<open>Replies go out to the shared channel, then pile up behind it; texts pile up in the inbox.\<close>

lemma lone_drain:
  "rn_alive r \<Longrightarrow> rn_forwards r \<Longrightarrow> rn_held r = None \<Longrightarrow> rn_outbox r = [] \<Longrightarrow> rn_unsent r = xs @ ys \<Longrightarrow>
    length q + length xs \<le> REPLY_CHANNEL \<Longrightarrow> ph \<noteq> Returned \<Longrightarrow>
    demux_run L (lone sid m label r q ph) (concat (replicate (length xs) [Put 0, Pull 0, Push 0])) =
      Some (lone sid m label (r\<lparr>rn_unsent := ys\<rparr>) (q @ map (Pair (rn_id r)) xs) ph, map (Said 0) xs)"
proof (induction xs arbitrary: r q)
  case (Cons x xs)
  let ?r = "r\<lparr>rn_unsent := xs @ ys\<rparr>"
  have put: "demux_step L (lone sid m label r q ph) (Put 0) = Some (lone sid m label (?r\<lparr>rn_outbox := [x]\<rparr>) q ph, [])"
    using lone_put [of r x "xs @ ys"] Cons.prems by (simp add: SESSION_CHANNEL_def)
  have pull: "demux_step L (lone sid m label (?r\<lparr>rn_outbox := [x]\<rparr>) q ph) (Pull 0) = Some (lone sid m label (?r\<lparr>rn_outbox := [], rn_held := Some x\<rparr>) q ph, [])"
    using lone_pull [of "?r\<lparr>rn_outbox := [x]\<rparr>" x "[]"] Cons.prems by simp
  have push: "demux_step L (lone sid m label (?r\<lparr>rn_outbox := [], rn_held := Some x\<rparr>) q ph) (Push 0) =
      Some (lone sid m label (?r\<lparr>rn_outbox := [], rn_held := None\<rparr>) (q @ [(rn_id r, x)]) ph, [Said 0 x])"
    using lone_push [of "?r\<lparr>rn_outbox := [], rn_held := Some x\<rparr>" x q ph] Cons.prems by simp
  have "?r\<lparr>rn_outbox := [], rn_held := None\<rparr> = ?r" using Cons.prems by (cases r) simp
  with put pull push Cons.IH [of ?r "q @ [(rn_id r, x)]"] Cons.prems show ?case by simp
next
  case Nil
  then show ?case by (cases r) simp
qed

lemma lone_fill:
  "rn_alive r \<Longrightarrow> rn_forwards r \<Longrightarrow> rn_unsent r = xs @ ys \<Longrightarrow> length (rn_outbox r) + length xs \<le> SESSION_CHANNEL \<Longrightarrow>
    demux_run L (lone sid m label r q ph) (replicate (length xs) (Put 0)) =
      Some (lone sid m label (r\<lparr>rn_unsent := ys, rn_outbox := rn_outbox r @ xs\<rparr>) q ph, [])"
proof (induction xs arbitrary: r)
  case (Cons x xs)
  then show ?case using lone_put [of r x "xs @ ys"] by simp
next
  case Nil
  then show ?case by (cases r) simp
qed

definition body_frame :: "front_lib \<Rightarrow> bytes \<Rightarrow> bytes \<Rightarrow> front_event" where
  "body_frame L label c = Frame (Some \<lparr> ff_s = label, ff_hello = None, ff_b = Some (fl_b64_encode L c), ff_close = False \<rparr>)"

text \<open>Both ends of a session at the same place.\<close>

definition facing :: "front_session \<Rightarrow> front_session \<Rightarrow> bool" where
  "facing phone m \<longleftrightarrow> open_key m = seal_key phone \<and> fs_id m = fs_id phone \<and> fs_open_counter m = fs_seal_counter phone"

lemma facing_open:
  assumes "aead_opens enc dec" "facing phone m" "front_seal enc phone x = (phone', Inr c)"
  shows "\<exists>m'. front_open dec m c = (m', Inr x) \<and> facing phone' m'"
proof -
  have s: "enc (seal_key phone) (nonce_for (fs_seal_counter phone)) (fs_id phone) x = Some c" "fs_seal_counter phone \<noteq> - 1"
    "phone' = phone\<lparr>fs_seal_counter := fs_seal_counter phone + 1\<rparr>" using assms(3) by (simp_all add: front_seal_Inr_iff)
  have "dec (open_key m) (nonce_for (fs_open_counter m)) (fs_id m) c = Some x"
    using aead_opensD [OF assms(1) s(1)] assms(2) by (simp add: facing_def)
  then show ?thesis using assms(2) s(2,3) by (auto simp: front_open_key facing_def checked_add_1)
qed

lemma lone_frame:
  assumes "fl_b64 L label = Some sid" "length sid = SESSION_ID_LEN" "fl_b64 L (fl_b64_encode L c) = Some c"
    "front_open (fl_dec L) m c = (m', Inr x)" "fl_utf8 L x"
  shows "demux_step L (lone sid m label r q Selecting) (body_frame L label c) = Some (lone sid m' label r q (Handing sid 0 x), [])"
  using assms by (simp add: demux_step_def body_frame_def take_frame_def open_body_def lone_def)

lemma lone_hand:
  "rn_alive r \<Longrightarrow> length (rn_inbox r) < SESSION_CHANNEL \<Longrightarrow>
    demux_step L (lone sid m label r q (Handing sid 0 x)) Hand = Some (lone sid m label (r\<lparr>rn_inbox := rn_inbox r @ [x]\<rparr>) q Selecting, [Handed 0 x])"
  by (simp add: demux_step_def hand_over_def lone_def update_session_def)

lemma lone_feed:
  assumes "aead_opens (fl_enc L) (fl_dec L)" "\<And>bs. fl_b64 L (fl_b64_encode L bs) = Some bs" "fl_b64 L label = Some sid"
    "length sid = SESSION_ID_LEN"
  shows "facing phone m \<Longrightarrow> seal_all (fl_enc L) phone (ms @ [lst]) = Inr (fs @ [final]) \<Longrightarrow> length fs = length ms \<Longrightarrow>
    \<forall>x\<in>set (ms @ [lst]). fl_utf8 L x \<Longrightarrow> rn_alive r \<Longrightarrow> length (rn_inbox r) + length ms \<le> SESSION_CHANNEL \<Longrightarrow>
    \<exists>m'. demux_run L (lone sid m label r q Selecting) (concat (map (\<lambda>c. [body_frame L label c, Hand]) fs) @ [body_frame L label final]) =
      Some (lone sid m' label (r\<lparr>rn_inbox := rn_inbox r @ ms\<rparr>) q (Handing sid 0 lst), map (Handed 0) ms)"
proof (induction ms arbitrary: phone m fs r)
  case (Cons x ms)
  then obtain c fs' where fs: "fs = c # fs'" by (cases fs) auto
  obtain phone' c' cs where c: "front_seal (fl_enc L) phone x = (phone', Inr c')" "seal_all (fl_enc L) phone' (ms @ [lst]) = Inr cs"
    "c' # cs = fs @ [final]"
    using Cons.prems(2) by (auto simp: result_simps split: prod.splits sum.splits)
  then have eq: "c' = c" "cs = fs' @ [final]" using fs by simp_all
  obtain m' where m': "front_open (fl_dec L) m c = (m', Inr x)" "facing phone' m'"
    using facing_open [OF assms(1) Cons.prems(1) c(1)] eq by blast
  have 1: "demux_step L (lone sid m label r q Selecting) (body_frame L label c) = Some (lone sid m' label r q (Handing sid 0 x), [])"
    using lone_frame [OF assms(3,4) assms(2) m'(1)] Cons.prems(4) by simp
  have 2: "demux_step L (lone sid m' label r q (Handing sid 0 x)) Hand =
      Some (lone sid m' label (r\<lparr>rn_inbox := rn_inbox r @ [x]\<rparr>) q Selecting, [Handed 0 x])"
    using lone_hand Cons.prems(5,6) by simp
  from Cons.IH [OF m'(2), of fs' "r\<lparr>rn_inbox := rn_inbox r @ [x]\<rparr>"] c(2) eq(2) Cons.prems(3-6) fs
  obtain m'' where "demux_run L (lone sid m' label (r\<lparr>rn_inbox := rn_inbox r @ [x]\<rparr>) q Selecting)
      (concat (map (\<lambda>c. [body_frame L label c, Hand]) fs') @ [body_frame L label final]) =
      Some (lone sid m'' label (r\<lparr>rn_inbox := rn_inbox r @ x # ms\<rparr>) q (Handing sid 0 lst), map (Handed 0) ms)" by auto
  then show ?case by (auto simp: fs 1 2)
next
  case Nil
  then obtain phone' where "front_seal (fl_enc L) phone lst = (phone', Inr final)" by (auto simp: result_simps split: prod.splits sum.splits)
  from facing_open [OF assms(1) Nil.prems(1) this] obtain m' where "front_open (fl_dec L) m final = (m', Inr lst)" by blast
  from lone_frame [OF assms(3,4) assms(2) this] Nil show ?case by auto
qed

text \<open>The history: a hello, one request that is answered with 322 replies, all of them sent before the demultiplexer takes one, and
  sixty-five more requests.\<close>

definition stall_schedule :: "front_lib \<Rightarrow> bytes \<Rightarrow> hello \<Rightarrow> bytes list \<Rightarrow> bytes list \<Rightarrow> front_event list" where
  "stall_schedule L label hl fs replies =
     [Frame (Some \<lparr> ff_s = label, ff_hello = Some (fl_b64_encode L (hello_to_bytes hl)), ff_b = None, ff_close = False \<rparr>),
      body_frame L label (hd fs), Hand, Serve 0 replies] @
     concat (replicate REPLY_CHANNEL [Put 0, Pull 0, Push 0]) @ [Put 0, Pull 0] @ replicate SESSION_CHANNEL (Put 0) @
     concat (map (\<lambda>c. [body_frame L label c, Hand]) (butlast (tl fs))) @ [body_frame L label (last fs)]"

lemma split_three:
  fixes xs :: "'a list"
  assumes "length xs = m + (1 + (n + 1))"
  shows "\<exists>a x b y. xs = a @ x # b @ [y] \<and> length a = m \<and> length b = n"
proof -
  obtain x rest where r: "drop m xs = x # rest" using assms by (cases "drop m xs") auto
  then have "length (drop m xs) = Suc (length rest)" by (simp only: list.size)
  then have "length rest = Suc n" using assms by simp
  then obtain b y where "rest = b @ [y]" "length b = n" by (cases rest rule: rev_cases) auto
  moreover have "xs = take m xs @ x # rest" using append_take_drop_id [of m xs] r by simp
  ultimately show ?thesis using assms by (metis length_take min.absorb2 le_add1)
qed

lemma demux_run_join:
  "demux_run L d es = Some (d1, xs) \<Longrightarrow> demux_run L d1 fs = Some (d2, ys) \<Longrightarrow> demux_run L d (es @ fs) = Some (d2, xs @ ys)"
  by (simp add: demux_run_append)

text \<open>C23: one phone can stop a front's connection for everybody on it.  After that history nothing else ever happens there but steps of
  other sessions that show nothing: no frame of any phone is taken, no reply of any session is sealed, and not even the end
  of the connection is noticed.\<close>

theorem one_phone_stalls_the_connection:
  assumes "aead_opens (fl_enc L) (fl_dec L)" "\<And>bs. fl_b64 L (fl_b64_encode L bs) = Some bs" "fl_b64 L label = Some sid"
    "length sid = SESSION_ID_LEN" "length kem = CIPHERTEXT_LEN" "length phone_sid = SESSION_ID_LEN"
    "front_open_to (fl_hash L) (kem, fl_decaps L kem) phone_sid = (phone, hl)"
    "seal_all (fl_enc L) phone ms = Inr fs" "length ms = SESSION_CHANNEL + 2" "\<forall>x\<in>set ms. fl_utf8 L x"
    "length replies = REPLY_CHANNEL + SESSION_CHANNEL + 2"
  shows "\<exists>d xs. demux_run L demux_start (stall_schedule L label hl fs replies) = Some (d, xs) \<and>
    (\<forall>es d' ys. demux_run L d es = Some (d', ys) \<longrightarrow> ys = [] \<and> dm_phase d' = dm_phase d \<and> Hangup \<notin> set es)"
proof -
  let ?m = "first_session L hl"
  have hl: "hello_from_bytes (hello_to_bytes hl) = Inr hl" and m: "facing phone ?m"
    using assms(5-7) by (auto simp: hello_crosses_the_wire front_open_to_def facing_def first_session_def front_accept_def open_key_def seal_key_def Let_def)
  obtain x0 ms1 lst where ms: "ms = x0 # ms1 @ [lst]" "length ms1 = SESSION_CHANNEL"
    using split_three [of ms 0 SESSION_CHANNEL] assms(9) by auto
  obtain phone' c0 fs' where c0: "front_seal (fl_enc L) phone x0 = (phone', Inr c0)" "seal_all (fl_enc L) phone' (ms1 @ [lst]) = Inr fs'" "fs = c0 # fs'"
    using assms(8) by (auto simp: ms result_simps split: prod.splits sum.splits)
  have "length fs' = SESSION_CHANNEL + 1" using seal_all_frames [OF c0(2)] ms(2) by simp
  then obtain fs1 final where fs': "fs' = fs1 @ [final]" "length fs1 = length ms1" using ms(2) by (cases fs' rule: rev_cases) auto
  obtain a x b y where replies: "replies = a @ x # b @ [y]" "length a = REPLY_CHANNEL" "length b = SESSION_CHANNEL"
    using split_three [of replies REPLY_CHANNEL SESSION_CHANNEL] assms(11) by auto
  obtain m1 where m1: "front_open (fl_dec L) ?m c0 = (m1, Inr x0)" "facing phone' m1" using facing_open [OF assms(1) m c0(1)] by blast
  let ?r = "spawned sid" and ?l = "\<lambda>m. lone sid m label"
  let ?r1 = "?r\<lparr>rn_unsent := b @ [y], rn_held := Some x\<rparr>" and ?q = "map (Pair sid) a"
  let ?r2 = "?r1\<lparr>rn_unsent := [y], rn_outbox := b\<rparr>"
  have 1: "demux_step L demux_start (Frame (Some \<lparr> ff_s = label, ff_hello = Some (fl_b64_encode L (hello_to_bytes hl)), ff_b = None, ff_close = False \<rparr>)) =
      Some (?l ?m ?r [] Selecting, [Opened 0 hl])"
    using assms(2-4) hl
    by (simp add: demux_step_def take_frame_def accept_hello_def demux_start_def lone_def MAX_SESSIONS_def first_session_def)
  have 2: "demux_step L (?l ?m ?r [] Selecting) (body_frame L label c0) = Some (?l m1 ?r [] (Handing sid 0 x0), [])"
    using lone_frame [OF assms(3,4) assms(2) m1(1)] assms(10) ms(1) by simp
  have 3: "demux_step L (?l m1 ?r [] (Handing sid 0 x0)) Hand = Some (?l m1 (?r\<lparr>rn_inbox := [x0]\<rparr>) [] Selecting, [Handed 0 x0])"
    by (simp add: lone_hand spawned_def SESSION_CHANNEL_def)
  have 4: "demux_step L (?l m1 (?r\<lparr>rn_inbox := [x0]\<rparr>) [] Selecting) (Serve 0 replies) = Some (?l m1 (?r\<lparr>rn_unsent := replies\<rparr>) [] Selecting, [])"
    by (simp add: demux_step_def lone_def update_session_def spawned_def)
  have 5: "demux_run L (?l m1 (?r\<lparr>rn_unsent := replies\<rparr>) [] Selecting) (concat (replicate REPLY_CHANNEL [Put 0, Pull 0, Push 0])) =
      Some (?l m1 (?r\<lparr>rn_unsent := x # b @ [y]\<rparr>) ?q Selecting, map (Said 0) a)"
    using lone_drain [of "?r\<lparr>rn_unsent := replies\<rparr>" a "x # b @ [y]" "[]" Selecting L sid m1 label] replies by (simp add: spawned_def)
  have 6: "demux_run L (?l m1 (?r\<lparr>rn_unsent := x # b @ [y]\<rparr>) ?q Selecting) [Put 0, Pull 0] = Some (?l m1 ?r1 ?q Selecting, [])"
    by (simp add: lone_put lone_pull spawned_def SESSION_CHANNEL_def)
  have 7: "demux_run L (?l m1 ?r1 ?q Selecting) (replicate SESSION_CHANNEL (Put 0)) = Some (?l m1 ?r2 ?q Selecting, [])"
    using lone_fill [of ?r1 b "[y]" L sid m1 label ?q Selecting] replies(3) by (simp add: spawned_def)
  obtain m2 where 8: "demux_run L (?l m1 ?r2 ?q Selecting) (concat (map (\<lambda>c. [body_frame L label c, Hand]) fs1) @ [body_frame L label final]) =
      Some (?l m2 (?r2\<lparr>rn_inbox := ms1\<rparr>) ?q (Handing sid 0 lst), map (Handed 0) ms1)"
    using lone_feed [OF assms(1-4) m1(2), of ms1 lst fs1 final ?r2 ?q] c0(2) fs' assms(10) ms by (auto simp: spawned_def)
  let ?d = "?l m2 (?r2\<lparr>rn_inbox := ms1\<rparr>) ?q (Handing sid 0 lst)"
  have "demux_run L demux_start
      [Frame (Some \<lparr> ff_s = label, ff_hello = Some (fl_b64_encode L (hello_to_bytes hl)), ff_b = None, ff_close = False \<rparr>),
       body_frame L label c0, Hand, Serve 0 replies] = Some (?l m1 (?r\<lparr>rn_unsent := replies\<rparr>) [] Selecting, [Opened 0 hl, Handed 0 x0])"
    by (simp add: 1 2 3 4)
  from demux_run_join [OF this demux_run_join [OF 5 demux_run_join [OF 6 demux_run_join [OF 7 8]]]]
  have "\<exists>xs. demux_run L demux_start (stall_schedule L label hl fs replies) = Some (?d, xs)"
    unfolding stall_schedule_def c0(3) fs' by (simp only: list.sel butlast_snoc last.simps last_snoc append_is_Nil_conv list.distinct simp_thms if_False) blast
  moreover have "wedged ?d 0" using ms(2) replies by (simp add: wedged_def lone_def spawned_def)
  ultimately show ?thesis using wedged_run by fastforce
qed

lemma toy_seals: "length ms < 2 ^ 64 - unat (fs_seal_counter s) \<Longrightarrow> length (seal_key s) < 256 \<Longrightarrow> fs_id s = toy_sid \<Longrightarrow>
    \<exists>fs. seal_all commit_enc s ms = Inr fs"
proof (induction ms arbitrary: s)
  case (Cons m ms)
  have "unat (- 1 :: u64) = 2 ^ 64 - 1" by (simp add: unsigned_minus_1_eq_mask mask_eq_exp_minus_1)
  then have ne: "fs_seal_counter s \<noteq> - 1" using Cons.prems(1) by auto
  then have up: "unat (fs_seal_counter s + 1) = unat (fs_seal_counter s) + 1"
    using checked_add_unat [of "fs_seal_counter s" 1] by (simp add: checked_add_1)
  obtain c where "commit_enc (seal_key s) (nonce_for (fs_seal_counter s)) toy_sid m = Some c" using toy_enc [OF Cons.prems(2)] by blast
  then have "front_seal commit_enc s m = (s\<lparr>fs_seal_counter := fs_seal_counter s + 1\<rparr>, Inr c)"
    using ne Cons.prems(3) by (simp add: front_seal_Inr_iff)
  then show ?case using Cons.IH [of "s\<lparr>fs_seal_counter := fs_seal_counter s + 1\<rparr>"] Cons.prems up by (auto simp: result_simps)
qed simp

lemma one_phone_stalls_the_connection_witness:
  "\<exists>fs d xs. seal_all commit_enc toy_phone (replicate 66 [1]) = Inr fs \<and>
     demux_run toy_front demux_start (stall_schedule toy_front toy_sid toy_hello fs (replicate 322 [2])) = Some (d, xs) \<and>
     (\<forall>es d' ys. demux_run toy_front d es = Some (d', ys) \<longrightarrow> ys = [] \<and> dm_phase d' = dm_phase d \<and> Hangup \<notin> set es)"
proof -
  have "fs_id toy_phone = toy_sid" "seal_key toy_phone = front_binding Up toy_sid" "fs_seal_counter toy_phone = 0"
    by (simp_all add: toy_phone_def front_open_to_def seal_key_def hybrid_derive_key_def)
  then obtain fs where fs: "seal_all commit_enc toy_phone (replicate 66 [1]) = Inr fs"
    using toy_seals [of "replicate 66 [1]" toy_phone] toy_binding by auto
  have "\<exists>d xs. demux_run toy_front demux_start (stall_schedule toy_front toy_sid toy_hello fs (replicate 322 [2])) = Some (d, xs) \<and>
    (\<forall>es d' ys. demux_run toy_front d es = Some (d', ys) \<longrightarrow> ys = [] \<and> dm_phase d' = dm_phase d \<and> Hangup \<notin> set es)"
  proof (rule one_phone_stalls_the_connection [OF toy_front_laws(1)])
    show "front_open_to (fl_hash toy_front) (replicate CIPHERTEXT_LEN 6, fl_decaps toy_front (replicate CIPHERTEXT_LEN 6)) toy_sid =
      (toy_phone, toy_hello)" by (simp add: toy_phone_def toy_hello_def toy_front_def)
    show "seal_all (fl_enc toy_front) toy_phone (replicate 66 [1]) = Inr fs" using fs by (simp only: toy_front_def front_lib.simps)
    show "length toy_sid = SESSION_ID_LEN" by (simp add: toy_sid_def SESSION_ID_LEN_def)
    show "fl_b64 toy_front toy_sid = Some toy_sid" by (simp add: toy_front_def)
  qed (simp_all add: toy_front_def toy_sid_def SESSION_ID_LEN_def SESSION_CHANNEL_def REPLY_CHANNEL_def)
  then show ?thesis using fs by blast
qed

section \<open>Whose reply it is\<close>

fun said :: "nat \<Rightarrow> front_effect list \<Rightarrow> bytes list" where
  "said k [] = []"
| "said k (Said j t # xs) = (if j = k then t # said k xs else said k xs)"
| "said k (_ # xs) = said k xs"

fun framed :: "nat \<Rightarrow> front_effect list \<Rightarrow> bytes list" where
  "framed k [] = []"
| "framed k (Framed j _ _ t # xs) = (if j = k then t # framed k xs else framed k xs)"
| "framed k (_ # xs) = framed k xs"

lemma said_append [simp]: "said k (xs @ ys) = said k xs @ said k ys"
  by (induction k xs rule: said.induct) simp_all

lemma framed_append [simp]: "framed k (xs @ ys) = framed k xs @ framed k ys"
  by (induction k xs rule: framed.induct) simp_all

definition queued :: "demux \<Rightarrow> bytes \<Rightarrow> bytes list" where
  "queued d sid = map snd (filter (\<lambda>x. fst x = sid) (dm_replies d))"

text \<open>While no identifier is used twice, what is sealed for a session is what it said, as far as it got.\<close>

definition in_turn :: "demux \<Rightarrow> front_effect list \<Rightarrow> bool" where
  "in_turn d xs \<longleftrightarrow>
     (\<forall>k. length (dm_sessions d) \<le> k \<longrightarrow> said k xs = [] \<and> framed k xs = []) \<and>
     fst ` set (dm_replies d) \<subseteq> rn_id ` set (dm_sessions d) \<and>
     (\<forall>k<length (dm_sessions d). \<exists>pend. said k xs = framed k xs @ pend \<and>
       (\<forall>sid st. map_of (dm_streams d) sid = Some st \<longrightarrow> st_to st = k \<longrightarrow> pend = queued d sid))"

text \<open>Steps that neither say nor seal, and only take streams away.\<close>

definition fewer :: "demux \<Rightarrow> demux \<Rightarrow> bool" where
  "fewer d d' \<longleftrightarrow> map rn_id (dm_sessions d') = map rn_id (dm_sessions d) \<and> set (dm_replies d') \<subseteq> set (dm_replies d) \<and>
     (\<forall>sid st. map_of (dm_streams d') sid = Some st \<longrightarrow>
       queued d' sid = queued d sid \<and> (\<exists>st0. map_of (dm_streams d) sid = Some st0 \<and> st_to st = st_to st0))"

lemma fewer_stream:
  assumes "fewer d d'" "map_of (dm_streams d') sid = Some st"
  obtains st0 where "map_of (dm_streams d) sid = Some st0" "st_to st = st_to st0" "queued d' sid = queued d sid"
  using assms unfolding fewer_def by metis

lemma fewer_size: "fewer d d' \<Longrightarrow> length (dm_sessions d') = length (dm_sessions d)"
  unfolding fewer_def by (metis length_map)

lemma in_turn_fewer:
  assumes "in_turn d xs" "fewer d d'" "\<And>k. said k ys = []" "\<And>k. framed k ys = []"
  shows "in_turn d' (xs @ ys)"
  unfolding in_turn_def
proof (intro conjI allI impI)
  have "rn_id ` set (dm_sessions d') = rn_id ` set (dm_sessions d)" using assms(2) unfolding fewer_def by (metis set_map)
  moreover have "fst ` set (dm_replies d') \<subseteq> fst ` set (dm_replies d)" using assms(2) unfolding fewer_def by blast
  ultimately show "fst ` set (dm_replies d') \<subseteq> rn_id ` set (dm_sessions d')" using assms(1) unfolding in_turn_def by (metis (no_types) order.trans)
next
  fix k
  assume "k < length (dm_sessions d')"
  then have "k < length (dm_sessions d)" using fewer_size [OF assms(2)] by simp
  with assms(1) obtain pend where pend: "said k xs = framed k xs @ pend"
    "\<And>sid st. map_of (dm_streams d) sid = Some st \<Longrightarrow> st_to st = k \<Longrightarrow> pend = queued d sid" unfolding in_turn_def by blast
  have "pend = queued d' sid" if "map_of (dm_streams d') sid = Some st" "st_to st = k" for sid st
    using fewer_stream [OF assms(2) that(1)] pend(2) that(2) by metis
  then show "\<exists>pend. said k (xs @ ys) = framed k (xs @ ys) @ pend \<and>
      (\<forall>sid st. map_of (dm_streams d') sid = Some st \<longrightarrow> st_to st = k \<longrightarrow> pend = queued d' sid)"
    using pend(1) assms(3,4) by (intro exI [of _ pend]) simp
qed (use assms(1,3,4) fewer_size [OF assms(2)] in \<open>auto simp: in_turn_def\<close>)

lemma ids_update_session: "rn_id (f (dm_sessions d ! k)) = rn_id (dm_sessions d ! k) \<Longrightarrow> map rn_id (dm_sessions (update_session k f d)) = map rn_id (dm_sessions d)"
proof (cases "k < length (dm_sessions d)")
  case True
  then have "(map rn_id (dm_sessions d))[k := rn_id (dm_sessions d ! k)] = map rn_id (dm_sessions d)" by (metis list_update_id nth_map)
  then show "rn_id (f (dm_sessions d ! k)) = rn_id (dm_sessions d ! k) \<Longrightarrow> ?thesis" by (simp add: update_session_def map_update)
qed (simp add: update_session_def list_update_beyond)

lemma ids_remove [simp]: "map rn_id (dm_sessions (remove_stream sid d)) = map rn_id (dm_sessions d)"
  using ids_update_session [of "\<lambda>r. r\<lparr>rn_sender := False\<rparr>"] by (simp add: remove_stream_def split: option.splits)

lemma ids_return [simp]: "map rn_id (dm_sessions (demux_return d)) = map rn_id (dm_sessions d)"
  by (simp add: demux_return_def)

lemma fewer_remove: "fewer d (remove_stream sid d)"
  by (auto simp: fewer_def queued_def delete_conv' split: if_splits)

lemma fewer_return: "fewer d (demux_return d)"
  by (simp add: fewer_def) (simp add: demux_return_def)

lemma in_turnD:
  assumes "in_turn d xs" "k < length (dm_sessions d)"
  obtains pend where "said k xs = framed k xs @ pend"
    "\<And>sid st. map_of (dm_streams d) sid = Some st \<Longrightarrow> st_to st = k \<Longrightarrow> pend = queued d sid"
  using assms unfolding in_turn_def by blast

lemma fewer_refresh:
  assumes "map_of (dm_streams d) sid = Some st"
  shows "fewer d (d\<lparr>dm_streams := AList.update sid (st\<lparr>st_session := s\<rparr>) (dm_streams d), dm_phase := ph\<rparr>)"
  using assms by (auto simp: fewer_def queued_def update_conv')

lemma in_turn_push:
  assumes "in_turn d xs" "demux_ok d" "distinct (map rn_id (dm_sessions d))" "k < length (dm_sessions d)" "push_reply k d = Some (d', ys)"
  shows "in_turn d' (xs @ ys)"
proof (cases "ys = []")
  case True
  then have d': "d' = update_session k (\<lambda>r. r\<lparr>rn_forwards := False\<rparr>) d"
    using assms(5) by (auto simp: push_reply_def Let_def split: option.splits if_splits)
  then have "fewer d d'" by (auto simp: fewer_def queued_def ids_update_session)
  then show ?thesis using in_turn_fewer [OF assms(1), of d' ys] True by simp
next
  case False
  obtain x where ys: "ys = [Said k x]" and d': "d' = update_session k (\<lambda>r. r\<lparr>rn_held := None\<rparr>) (d\<lparr>dm_replies := dm_replies d @ [(rn_id (dm_sessions d ! k), x)]\<rparr>)"
    using assms(5) False by (auto simp: push_reply_def Let_def split: option.splits if_splits)
  have ids: "map rn_id (dm_sessions d') = map rn_id (dm_sessions d)"
    using ids_update_session [of "\<lambda>r. r\<lparr>rn_held := None\<rparr>" "d\<lparr>dm_replies := dm_replies d @ [(rn_id (dm_sessions d ! k), x)]\<rparr>" k] by (simp add: d')
  have streams: "dm_streams d' = dm_streams d" and len: "length (dm_sessions d') = length (dm_sessions d)" by (simp_all add: d')
  have q: "queued d' sid = queued d sid @ (if rn_id (dm_sessions d ! k) = sid then [x] else [])" for sid
    by (simp add: queued_def d')
  have "\<exists>pend. said j (xs @ ys) = framed j (xs @ ys) @ pend \<and>
      (\<forall>sid st. map_of (dm_streams d') sid = Some st \<longrightarrow> st_to st = j \<longrightarrow> pend = queued d' sid)" if j: "j < length (dm_sessions d')" for j
  proof -
    have jd: "j < length (dm_sessions d)" using j len by simp
    from in_turnD [OF assms(1) this] obtain pend where pend: "said j xs = framed j xs @ pend"
      "\<And>sid st. map_of (dm_streams d) sid = Some st \<Longrightarrow> st_to st = j \<Longrightarrow> pend = queued d sid" by blast
    have own: "rn_id (dm_sessions d ! k) = sid \<longleftrightarrow> k = j" if "map_of (dm_streams d) sid = Some st" "st_to st = j" for sid st
    proof -
      have "rn_id (dm_sessions d ! j) = sid" using assms(2) that by (auto simp: demux_ok_def stream_ok_def)
      then show ?thesis using assms(3,4) jd nth_eq_iff_index_eq [of "map rn_id (dm_sessions d)" k j] by auto
    qed
    show ?thesis
    proof (intro exI conjI allI impI)
      show "said j (xs @ ys) = framed j (xs @ ys) @ (pend @ (if k = j then [x] else []))" using pend(1) by (simp add: ys)
      fix sid st
      assume "map_of (dm_streams d') sid = Some st" "st_to st = j"
      then show "pend @ (if k = j then [x] else []) = queued d' sid" using own pend(2) by (simp add: q streams)
    qed
  qed
  moreover have "rn_id ` set (dm_sessions d') = rn_id ` set (dm_sessions d)" using ids by (metis set_map)
  moreover have "rn_id (dm_sessions d ! k) \<in> rn_id ` set (dm_sessions d)" using assms(4) by simp
  ultimately show ?thesis using assms(1,4) unfolding in_turn_def len
    by (auto simp: ys) (auto simp: d')
qed

lemma in_turn_accept:
  assumes "in_turn d xs" "demux_ok d" "accept_hello L d sid label hb = (d', ys)" "distinct (map rn_id (dm_sessions d'))"
  shows "in_turn d' (xs @ ys)"
proof (cases "ys = []")
  case True
  then have "d' = d" using assms(3) by (auto simp: accept_hello_def Let_def split: if_splits option.splits sum.splits)
  then show ?thesis using assms(1) True by simp
next
  case False
  let ?n = "length (dm_sessions d)"
  obtain hl where ys: "ys = [Opened ?n hl]"
    and d': "d' = d\<lparr>dm_sessions := dm_sessions d @ [spawned sid],
      dm_streams := (sid, \<lparr> st_session = first_session L hl, st_to = ?n, st_label = label \<rparr>) # dm_streams d\<rparr>"
    using assms(3) False by (auto simp: accept_hello_def first_session_def Let_def split: if_splits option.splits sum.splits)
  have new: "sid \<notin> rn_id ` set (dm_sessions d)" using assms(4) by (auto simp: d' spawned_def)
  have "queued d sid = []" using assms(1) new by (auto simp: queued_def in_turn_def filter_empty_conv)
  moreover have "queued d' sid' = queued d sid'" for sid' by (simp add: queued_def d')
  moreover have "st_to st' < ?n" if "map_of (dm_streams d) sid' = Some st'" for sid' st' using assms(2) that by (simp add: demux_ok_def stream_ok_def)
  moreover have "said ?n xs = []" "framed ?n xs = []" using assms(1) by (auto simp: in_turn_def)
  ultimately show ?thesis using assms(1) unfolding in_turn_def by (auto simp: d' ys less_Suc_eq) (metis less_irrefl)
qed

lemma in_turn_reply:
  assumes "in_turn d xs" "demux_ok d" "dm_replies d = x # rest" "take_reply L ok (d\<lparr>dm_replies := rest\<rparr>) x = (d', ys)"
  shows "in_turn d' (xs @ ys)"
proof -
  obtain sid t where x: "x = (sid, t)" by fastforce
  let ?d = "d\<lparr>dm_replies := rest\<rparr>"
  have q: "queued ?d sid' = queued d sid'" if "sid' \<noteq> sid" for sid' using that by (simp add: queued_def assms(3) x)
  have rm: "in_turn (remove_stream sid ?d) (xs @ [])"
  proof (rule in_turn_fewer [OF assms(1)])
    have "queued (remove_stream sid ?d) sid' = queued d sid'" if "sid' \<noteq> sid" for sid' using q that by (simp add: queued_def)
    then show "fewer d (remove_stream sid ?d)" by (auto simp: fewer_def delete_conv' assms(3) split: if_splits)
  qed simp_all
  show ?thesis
  proof (cases "map_of (dm_streams d) sid")
    case None
    then have "remove_stream sid ?d = ?d" by (simp add: remove_stream_def)
    then show ?thesis using rm None assms(4) by (simp add: x take_reply_def)
  next
    case (Some st)
    obtain s r where r: "front_seal (fl_enc L) (st_session st) t = (s, r)" by fastforce
    show ?thesis
    proof (cases r)
      case (Inl e)
      then show ?thesis using rm Some r assms(4) by (auto simp: x take_reply_def)
    next
      case (Inr c)
      let ?d1 = "?d\<lparr>dm_streams := AList.update sid (st\<lparr>st_session := s\<rparr>) (dm_streams d)\<rparr>"
      have shut: "fewer d (demux_return ?d1)" by (simp add: fewer_def) (simp add: demux_return_def)
      have "in_turn ?d1 (xs @ [Framed (st_to st) lb sealed t])" for lb sealed
      proof -
        have "\<exists>pend. said k xs = framed k (xs @ [Framed (st_to st) lb sealed t]) @ pend \<and>
            (\<forall>sid' st'. map_of (dm_streams ?d1) sid' = Some st' \<longrightarrow> st_to st' = k \<longrightarrow> pend = queued ?d1 sid')" if k: "k < length (dm_sessions d)" for k
        proof -
          from in_turnD [OF assms(1) k] obtain pend where pend: "said k xs = framed k xs @ pend"
            "\<And>sid st. map_of (dm_streams d) sid = Some st \<Longrightarrow> st_to st = k \<Longrightarrow> pend = queued d sid" by blast
          show ?thesis
          proof (cases "k = st_to st")
            case True
            have "pend = t # queued ?d sid" using pend(2) [OF Some] True by (simp add: queued_def assms(3) x)
            moreover have "sid' = sid" if "map_of (dm_streams ?d1) sid' = Some st'" "st_to st' = k" for sid' st'
              using that streams_apart [OF assms(2) Some] True by (auto simp: update_conv' split: if_splits)
            ultimately show ?thesis using pend(1) True by (intro exI [of _ "queued ?d sid"]) (auto simp: queued_def)
          next
            case False
            have "pend = queued ?d1 sid'" if "map_of (dm_streams ?d1) sid' = Some st'" "st_to st' = k" for sid' st'
              using that pend(2) q False by (auto simp: update_conv' queued_def split: if_splits)
            then show ?thesis using pend(1) False by (intro exI [of _ pend]) auto
          qed
        qed
        moreover have "st_to st < length (dm_sessions d)" using assms(2) Some by (simp add: demux_ok_def stream_ok_def)
        ultimately show ?thesis using assms(1) unfolding in_turn_def by (auto simp: assms(3))
      qed
      then show ?thesis using Inr Some r assms(4) in_turn_fewer [OF assms(1) shut, of "[]"]
        by (auto simp: x take_reply_def Let_def split: if_splits)
    qed
  qed
qed

lemma in_turn_step:
  assumes t: "in_turn d xs" and ok: "demux_ok d" and st: "demux_step L d e = Some (d', ys)" and ids: "distinct (map rn_id (dm_sessions d'))"
    "distinct (map rn_id (dm_sessions d))"
  shows "in_turn d' (xs @ ys)"
proof -
  have calm: "in_turn d1 (xs @ [])" if "fewer d d1" for d1 using in_turn_fewer [OF t that, of "[]"] by simp
  show ?thesis
  proof (cases "event_session e")
    case (Some k)
    then have k: "k < length (dm_sessions d)" using st by (auto simp: demux_step_def split: if_splits)
    show ?thesis
    proof (cases "e = Push k")
      case True
      then show ?thesis using st k in_turn_push [OF t ok ids(2) k] by (simp add: demux_step_def)
    next
      case False
      then obtain r where r: "session_move (dm_sessions d ! k) e = Some r" "d' = update_session k (\<lambda>_. r) d" "ys = []"
        using st Some by (auto simp: demux_step_def split: if_splits)
      then have "fewer d d'" using session_move_keeps(1) [OF r(1)] by (auto simp: fewer_def queued_def ids_update_session)
      then show ?thesis using calm r(3) by simp
    qed
  next
    case None
    show ?thesis
    proof (cases e)
      case (Reply b)
      then obtain x rest where "dm_replies d = x # rest" "take_reply L b (d\<lparr>dm_replies := rest\<rparr>) x = (d', ys)"
        using st by (auto simp: demux_step_def split: list.splits if_splits)
      then show ?thesis by (rule in_turn_reply [OF t ok])
    next
      case (Frame fo)
      have op: "fewer d (open_body L d sid b)" for sid b
        using fewer_refresh fewer_remove by (auto simp: open_body_def fewer_def queued_def split: option.splits prod.splits sum.splits)
      have "fewer d d" by (auto simp: fewer_def)
      then show ?thesis
        using Frame st calm [OF op] calm [OF fewer_remove] calm in_turn_accept [OF t ok _ ids(1)]
        by (cases fo) (auto simp: demux_step_def take_frame_def split: if_splits option.splits)
    next
      case Hangup
      then show ?thesis using st calm [OF fewer_return] by (auto simp: demux_step_def split: if_splits)
    next
      case Hand
      then have "ys = [] \<or> (\<exists>k p. ys = [Handed k p])" "fewer d d'"
        using st fewer_remove
        by (auto simp: demux_step_def hand_over_def Let_def fewer_def queued_def ids_update_session delete_conv' split: front_phase.splits if_splits)
      then show ?thesis using in_turn_fewer [OF t, of d' ys] by auto
    qed (use None in simp_all)
  qed
qed

text \<open>Sessions are only ever added.\<close>

lemma ids_reply: "map rn_id (dm_sessions (fst (take_reply L b d x))) = map rn_id (dm_sessions d)"
  by (auto simp: take_reply_def Let_def split: prod.splits option.splits sum.splits)

lemma ids_frame: "\<exists>new. map rn_id (dm_sessions (fst (take_frame L d f))) = map rn_id (dm_sessions d) @ new"
  by (auto simp: take_frame_def accept_hello_def open_body_def Let_def split: prod.splits option.splits sum.splits)

lemma ids_step:
  assumes "demux_step L d e = Some (d', ys)"
  shows "\<exists>new. map rn_id (dm_sessions d') = map rn_id (dm_sessions d) @ new"
proof (cases "event_session e")
  case (Some k)
  then show ?thesis using assms session_move_keeps(1)
    by (auto simp: demux_step_def push_reply_def Let_def ids_update_session split: if_splits option.splits)
next
  case None
  show ?thesis
  proof (cases e)
    case (Reply b)
    then obtain x rest where "take_reply L b (d\<lparr>dm_replies := rest\<rparr>) x = (d', ys)"
      using assms by (auto simp: demux_step_def split: list.splits if_splits)
    then show ?thesis using ids_reply [of L b "d\<lparr>dm_replies := rest\<rparr>" x] by simp
  next
    case (Frame fo)
    show ?thesis
    proof (cases fo)
      case (Some f)
      then have "take_frame L d f = (d', ys)" using assms Frame by (simp add: demux_step_def split: if_splits)
      then show ?thesis using ids_frame [of L d f] by simp
    qed (use assms Frame in \<open>simp add: demux_step_def split: if_splits\<close>)
  next
    case Hand
    then have "hand_over d = Some (d', ys)" using assms by (simp add: demux_step_def)
    then have "map rn_id (dm_sessions d') = map rn_id (dm_sessions (d\<lparr>dm_phase := Selecting\<rparr>))"
      using ids_remove [of _ "d\<lparr>dm_phase := Selecting\<rparr>"]
        ids_update_session [of "\<lambda>r. r\<lparr>rn_inbox := rn_inbox r @ [x]\<rparr>" "d\<lparr>dm_phase := Selecting\<rparr>" for x]
      by (auto simp: hand_over_def Let_def split: front_phase.splits if_splits)
    then show ?thesis by simp
  qed (use None assms in \<open>auto simp: demux_step_def split: if_splits\<close>)
qed

lemma ids_run: "demux_run L d es = Some (d', ys) \<Longrightarrow> \<exists>new. map rn_id (dm_sessions d') = map rn_id (dm_sessions d) @ new"
proof (induction es arbitrary: d ys)
  case (Cons e es)
  obtain d1 us vs where st: "demux_step L d e = Some (d1, us)" and run: "demux_run L d1 es = Some (d', vs)"
    using Cons.prems by (auto split: option.splits)
  from ids_step [OF st] Cons.IH [OF run] show ?case by (metis append_assoc)
qed simp

lemma in_turn_run:
  "in_turn d xs \<Longrightarrow> demux_ok d \<Longrightarrow> demux_run L d es = Some (d', ys) \<Longrightarrow> distinct (map rn_id (dm_sessions d')) \<Longrightarrow>
    in_turn d' (xs @ ys)"
proof (induction es arbitrary: d xs ys)
  case (Cons e es)
  obtain d1 us vs where st: "demux_step L d e = Some (d1, us)" and run: "demux_run L d1 es = Some (d', vs)" "ys = us @ vs"
    using Cons.prems(3) by (auto split: option.splits)
  have "distinct (map rn_id (dm_sessions d1))" using ids_run [OF run(1)] Cons.prems(4) by (metis distinct_append)
  moreover from this have "distinct (map rn_id (dm_sessions d))" using ids_step [OF st] by (metis distinct_append)
  ultimately have "in_turn d1 (xs @ us)" using in_turn_step [OF Cons.prems(1,2) st] by blast
  from Cons.IH [OF this demux_step_ok [OF Cons.prems(2) st] run(1) Cons.prems(4)] show ?case by (simp add: run(2))
qed simp

text \<open>C28: replies keep to their session.  As long as no identifier is used for two sessions of a connection, what the connection
  seals under the keys of a session is what that session said, in order, nothing left out and nothing twice.\<close>

theorem replies_keep_to_their_session:
  assumes "demux_run L demux_start es = Some (d, xs)" "distinct (map rn_id (dm_sessions d))"
  shows "\<exists>n\<le>length (said k xs). framed k xs = take n (said k xs)"
proof -
  have "in_turn demux_start []" by (simp add: in_turn_def demux_start_def)
  from in_turn_run [OF this demux_start_ok assms] have t: "in_turn d xs" by simp
  obtain pend where "said k xs = framed k xs @ pend"
  proof (cases "k < length (dm_sessions d)")
    case True
    then show ?thesis using in_turnD [OF t] that by metis
  next
    case False
    then show ?thesis using t that [of "[]"] by (auto simp: in_turn_def)
  qed
  then show ?thesis by (intro exI [of _ "length (framed k xs)"]) simp
qed

lemma replies_keep_to_their_session_witness:
  "\<exists>d xs. demux_run toy_front demux_start [toy_opening, Live 0 [[7]], Put 0, Pull 0, Push 0] = Some (d, xs) \<and>
     said 0 xs = [[7]] \<and> (\<exists>n\<le>1. framed 0 xs = take n [[7]])"
proof -
  have "demux_run toy_front toy_open [Live 0 [[7]], Put 0, Pull 0, Push 0] =
      Some (toy_open\<lparr>dm_replies := [(toy_sid, [7])]\<rparr>, [Said 0 [7]])"
    by (simp add: demux_step_def toy_open_def demux_start_def spawned_def push_reply_def update_session_def SESSION_CHANNEL_def REPLY_CHANNEL_def)
  then have run: "demux_run toy_front demux_start [toy_opening, Live 0 [[7]], Put 0, Pull 0, Push 0] =
      Some (toy_open\<lparr>dm_replies := [(toy_sid, [7])]\<rparr>, [Opened 0 toy_hello, Said 0 [7]])"
    by (simp only: demux_run.simps(2) [of toy_front demux_start] toy_opening_step) simp
  from replies_keep_to_their_session [OF run, of 0] run show ?thesis
    by (auto simp: toy_open_def simp del: demux_run.simps)
qed

text \<open>C29: when an identifier is used again they do not.  A reply that is still on its way when its session's stream is closed is sealed for
  whoever opens a stream under the same identifier next, with a hello of their own.\<close>

theorem late_reply_changes_hands:
  assumes "dm_phase d = Selecting" "dm_replies d = (sid, t) # rest" "length (dm_streams (remove_stream sid d)) < MAX_SESSIONS"
    "fl_b64 L label = Some sid" "length sid = SESSION_ID_LEN" "fl_b64 L hb = Some (hello_to_bytes hl)"
    "length (hl_kem hl) = CIPHERTEXT_LEN" "length (hl_session_id hl) = SESSION_ID_LEN"
    "front_seal (fl_enc L) (first_session L hl) t = (s, Inr c)"
  shows "\<exists>d'. demux_run L d
      [Frame (Some \<lparr> ff_s = label, ff_hello = None, ff_b = None, ff_close = True \<rparr>),
       Frame (Some \<lparr> ff_s = label, ff_hello = Some hb, ff_b = None, ff_close = False \<rparr>), Reply True] =
    Some (d', [Opened (length (dm_sessions d)) hl, Framed (length (dm_sessions d)) label (fl_b64_encode L c) t])"
proof -
  let ?k = "length (dm_sessions d)" and ?d1 = "remove_stream sid d"
  let ?d2 = "?d1\<lparr>dm_sessions := dm_sessions ?d1 @ [spawned sid],
      dm_streams := (sid, \<lparr> st_session = first_session L hl, st_to = ?k, st_label = label \<rparr>) # dm_streams ?d1\<rparr>"
  have hl: "hello_from_bytes (hello_to_bytes hl) = Inr hl" using assms(7,8) by (simp add: hello_crosses_the_wire)
  have 1: "demux_step L d (Frame (Some \<lparr> ff_s = label, ff_hello = None, ff_b = None, ff_close = True \<rparr>)) = Some (?d1, [])"
    using assms(1,4,5) by (simp add: demux_step_def take_frame_def)
  have none: "map_of (dm_streams ?d1) sid = None" by (simp add: delete_conv')
  have 2: "demux_step L ?d1 (Frame (Some \<lparr> ff_s = label, ff_hello = Some hb, ff_b = None, ff_close = False \<rparr>)) = Some (?d2, [Opened ?k hl])"
    using assms(1,3-6) hl none by (simp add: demux_step_def take_frame_def accept_hello_def first_session_def Let_def)
  have "\<exists>d'. demux_step L ?d2 (Reply True) = Some (d', [Framed ?k label (fl_b64_encode L c) t])"
    using assms(1,2,9) by (simp add: demux_step_def take_reply_def Let_def)
  then show ?thesis using 1 2 by auto
qed

lemma late_reply_changes_hands_witness:
  "\<exists>c d'. demux_run toy_front (toy_open\<lparr>dm_replies := [(toy_sid, [7])]\<rparr>)
      [Frame (Some \<lparr> ff_s = toy_sid, ff_hello = None, ff_b = None, ff_close = True \<rparr>),
       Frame (Some \<lparr> ff_s = toy_sid, ff_hello = Some (hello_to_bytes (toy_hello\<lparr>hl_kem := replicate CIPHERTEXT_LEN 9\<rparr>)), ff_b = None, ff_close = False \<rparr>),
       Reply True] =
    Some (d', [Opened 1 (toy_hello\<lparr>hl_kem := replicate CIPHERTEXT_LEN 9\<rparr>), Framed 1 toy_sid c [7]])"
proof -
  let ?hl = "toy_hello\<lparr>hl_kem := replicate CIPHERTEXT_LEN 9\<rparr>"
  have m: "fs_id (first_session toy_front ?hl) = toy_sid" "seal_key (first_session toy_front ?hl) = front_binding Down toy_sid"
    "fs_seal_counter (first_session toy_front ?hl) = 0"
    by (simp_all add: first_session_def front_accept_def toy_front_def toy_hello_def front_open_to_def seal_key_def hybrid_derive_key_def Let_def)
  obtain c where "commit_enc (front_binding Down toy_sid) (nonce_for 0) toy_sid [7] = Some c" using toy_enc [OF toy_binding] by blast
  then obtain s where "front_seal (fl_enc toy_front) (first_session toy_front ?hl) [7] = (s, Inr c)"
    using m by (simp add: front_seal_Inr_iff toy_front_def)
  from late_reply_changes_hands [OF _ _ _ _ _ _ _ _ this, of "toy_open\<lparr>dm_replies := [(toy_sid, [7])]\<rparr>" toy_sid "[]" toy_sid "hello_to_bytes ?hl"]
  show ?thesis
    by (simp add: toy_open_def demux_start_def MAX_SESSIONS_def toy_front_def toy_sid_def SESSION_ID_LEN_def toy_hello_def front_open_to_def
      del: demux_run.simps) blast
qed

end
