(* ===== verification/Front_Proxy.thy ===== *)
theory Front_Proxy
  imports Front_Demux
begin

text \<open>
  The front itself, \<^verbatim>\<open>rotelyx-mailbox-server/src/front.rs\<close>: phones on one side, a pool of connections to the mailbox on the
  other, and the one number it rewrites.  Every phone and every slot of the pool is a task; the happenings are their
  steps, with the wait for the lock between choosing a slot and registering a session on it as a step of its own.
  Channels hold as much as is sent here, and a task that would wait for room takes its step later.
\<close>

section \<open>Definitions\<close>

record phone_slot =
  ps_phone :: nat
  ps_id :: bytes

record upstream =
  up_out :: "front_frame list"
  up_routes :: "(u64 \<times> phone_slot) list"
  up_alive :: bool

record front =
  fr_upstreams :: "upstream list"
  fr_next_id :: u64
  fr_cursor :: u64

record phone_route =
  rt_upstream :: nat
  rt_upstream_id :: u64

datatype phone_message = PhoneText front_frame | PhoneClose

datatype phone_phase = Serving | Placing front_frame nat u64 | PhoneGone

record phone =
  ph_routes :: "(bytes \<times> phone_route) list"
  ph_inbox :: "phone_message list"
  ph_phase :: phone_phase

record front_world =
  fw_front :: front
  fw_phones :: "phone list"

definition front_new :: "nat \<Rightarrow> front" where
  "front_new pool = \<lparr> fr_upstreams = replicate (max pool 1) \<lparr> up_out = [], up_routes = [], up_alive = False \<rparr>, fr_next_id = 1, fr_cursor = 0 \<rparr>"

definition pick_upstream :: "front \<Rightarrow> front \<times> nat option" where
  "pick_upstream f =
     (let n = length (fr_upstreams f)
      in if n = 0 then (f, None)
         else
           (f\<lparr>fr_cursor := fr_cursor f + 1\<rparr>,
            find (\<lambda>i. up_alive (fr_upstreams f ! i)) (map (\<lambda>k. unat (fr_cursor f + word_of_nat k) mod n) [0..<n])))"

definition has_mailbox :: "front \<Rightarrow> bool" where
  "has_mailbox f \<longleftrightarrow> list_ex up_alive (fr_upstreams f)"

definition fresh_id :: "front \<Rightarrow> front \<times> u64" where
  "fresh_id f = (f\<lparr>fr_next_id := fr_next_id f + 1\<rparr>, fr_next_id f)"

definition upstream_label :: "front_lib \<Rightarrow> u64 \<Rightarrow> bytes" where
  "upstream_label L i = fl_b64_encode L (u64_be i)"

definition upstream_id_of :: "front_lib \<Rightarrow> bytes \<Rightarrow> u64 option" where
  "upstream_id_of L label =
     Option.bind (fl_b64 L label) (\<lambda>bs. if length bs = 8 then Some (word_of_nat (of_be bs)) else None)"

definition update_upstream :: "nat \<Rightarrow> (upstream \<Rightarrow> upstream) \<Rightarrow> front_world \<Rightarrow> front_world" where
  "update_upstream u g w =
     w\<lparr>fw_front := (fw_front w)\<lparr>fr_upstreams := (fr_upstreams (fw_front w))[u := g (fr_upstreams (fw_front w) ! u)]\<rparr>\<rparr>"

definition update_phone :: "nat \<Rightarrow> (phone \<Rightarrow> phone) \<Rightarrow> front_world \<Rightarrow> front_world" where
  "update_phone p g w = w\<lparr>fw_phones := (fw_phones w)[p := g (fw_phones w ! p)]\<rparr>"

text \<open>What a step shows: a frame queued for the mailbox on behalf of a phone's session, and a reply queued for a phone's session.\<close>

datatype proxy_effect = Up nat front_frame nat bytes | Down nat bytes nat bytes

definition send_up :: "nat \<Rightarrow> front_frame \<Rightarrow> front_world \<Rightarrow> front_world" where
  "send_up u f = update_upstream u (\<lambda>up. up\<lparr>up_out := up_out up @ [f]\<rparr>)"

definition forwarded :: "front_lib \<Rightarrow> u64 \<Rightarrow> front_frame \<Rightarrow> front_frame" where
  "forwarded L i f = \<lparr> ff_s = upstream_label L i, ff_hello = ff_hello f, ff_b = ff_b f, ff_close = False \<rparr>"

definition close_frame :: "front_lib \<Rightarrow> u64 \<Rightarrow> front_frame" where
  "close_frame L i = \<lparr> ff_s = upstream_label L i, ff_hello = None, ff_b = None, ff_close = True \<rparr>"

definition deregister :: "nat \<Rightarrow> u64 \<Rightarrow> front_world \<Rightarrow> front_world" where
  "deregister u i = update_upstream u (\<lambda>up. up\<lparr>up_routes := AList.delete i (up_routes up)\<rparr>)"

text \<open>Closing one session upstream.\<close>

definition close_route :: "front_lib \<Rightarrow> phone_route \<Rightarrow> front_world \<Rightarrow> front_world" where
  "close_route L rt w =
     deregister (rt_upstream rt) (rt_upstream_id rt) (send_up (rt_upstream rt) (close_frame L (rt_upstream_id rt)) w)"

text \<open>The phone is gone: every session of its is closed.\<close>

definition phone_leaves :: "front_lib \<Rightarrow> nat \<Rightarrow> front_world \<Rightarrow> front_world \<times> proxy_effect list" where
  "phone_leaves L p w =
     (let rs = ph_routes (fw_phones w ! p)
      in (update_phone p (\<lambda>ph. ph\<lparr>ph_routes := [], ph_phase := PhoneGone\<rparr>) (fold (\<lambda>x. close_route L (snd x)) rs w),
          map (\<lambda>(s, rt). Up (rt_upstream rt) (close_frame L (rt_upstream_id rt)) p s) rs))"

definition phone_frame :: "front_lib \<Rightarrow> nat \<Rightarrow> front_frame \<Rightarrow> front_world \<Rightarrow> front_world \<times> proxy_effect list" where
  "phone_frame L p f w =
     (let rs = ph_routes (fw_phones w ! p)
      in if ff_close f then
           (case map_of rs (ff_s f) of
              None \<Rightarrow> (w, [])
            | Some rt \<Rightarrow>
                (close_route L rt (update_phone p (\<lambda>ph. ph\<lparr>ph_routes := AList.delete (ff_s f) rs\<rparr>) w),
                 [Up (rt_upstream rt) (close_frame L (rt_upstream_id rt)) p (ff_s f)]))
         else if ff_hello f \<noteq> None then
           (if map_of rs (ff_s f) \<noteq> None then (w, [])
            else
              (case pick_upstream (fw_front w) of
                 (fr, None) \<Rightarrow> phone_leaves L p (w\<lparr>fw_front := fr\<rparr>)
               | (fr, Some u) \<Rightarrow>
                   (case fresh_id fr of
                      (fr, i) \<Rightarrow> (update_phone p (\<lambda>ph. ph\<lparr>ph_phase := Placing f u i\<rparr>) (w\<lparr>fw_front := fr\<rparr>), []))))
         else
           (case map_of rs (ff_s f) of
              None \<Rightarrow> (w, [])
            | Some rt \<Rightarrow>
                (send_up (rt_upstream rt) (forwarded L (rt_upstream_id rt) f) w,
                 [Up (rt_upstream rt) (forwarded L (rt_upstream_id rt) f) p (ff_s f)])))"

definition place_session :: "front_lib \<Rightarrow> nat \<Rightarrow> front_frame \<Rightarrow> nat \<Rightarrow> u64 \<Rightarrow> front_world \<Rightarrow> front_world \<times> proxy_effect list" where
  "place_session L p f u i w =
     (send_up u (forwarded L i f)
        (update_phone p (\<lambda>ph. ph\<lparr>ph_routes := AList.update (ff_s f) \<lparr> rt_upstream = u, rt_upstream_id = i \<rparr> (ph_routes ph), ph_phase := Serving\<rparr>)
          (update_upstream u (\<lambda>up. up\<lparr>up_routes := AList.update i \<lparr> ps_phone = p, ps_id = ff_s f \<rparr> (up_routes up)\<rparr>) w)),
      [Up u (forwarded L i f) p (ff_s f)])"

text \<open>A message for a phone; one that is gone takes none.\<close>

definition tell_phone :: "phone_message \<Rightarrow> nat \<Rightarrow> front_world \<Rightarrow> front_world" where
  "tell_phone m p w =
     (if ph_phase (fw_phones w ! p) = PhoneGone then w else update_phone p (\<lambda>ph. ph\<lparr>ph_inbox := ph_inbox ph @ [m]\<rparr>) w)"

definition mailbox_frame :: "front_lib \<Rightarrow> nat \<Rightarrow> front_frame \<Rightarrow> front_world \<Rightarrow> front_world \<times> proxy_effect list" where
  "mailbox_frame L u f w =
     (case Option.bind (upstream_id_of L (ff_s f)) (map_of (up_routes (fr_upstreams (fw_front w) ! u))) of
        None \<Rightarrow> (w, [])
      | Some slot \<Rightarrow>
          (case ff_b f of
             None \<Rightarrow> (w, [])
           | Some b \<Rightarrow>
               (tell_phone (PhoneText \<lparr> ff_s = ps_id slot, ff_hello = None, ff_b = Some b, ff_close = False \<rparr>) (ps_phone slot) w,
                [Down u (ff_s f) (ps_phone slot) (ps_id slot)])))"

definition upstream_lost :: "nat \<Rightarrow> front_world \<Rightarrow> front_world" where
  "upstream_lost u w =
     fold (\<lambda>slot. tell_phone PhoneClose (ps_phone slot)) (map snd (up_routes (fr_upstreams (fw_front w) ! u)))
       (update_upstream u (\<lambda>up. up\<lparr>up_alive := False, up_routes := []\<rparr>) w)"

datatype proxy_event =
    PhoneJoins
  | PhoneFrame nat front_frame
  | Place nat
  | PhoneLeaves nat
  | PhoneTakes nat bool
  | Pump nat
  | MailboxFrame nat front_frame
  | Lost nat
  | Connect nat

definition proxy_step :: "front_lib \<Rightarrow> front_world \<Rightarrow> proxy_event \<Rightarrow> (front_world \<times> proxy_effect list) option" where
  "proxy_step L w e =
     (let serving = (\<lambda>p. p < length (fw_phones w) \<and> ph_phase (fw_phones w ! p) = Serving);
          upstream = (\<lambda>u. u < length (fr_upstreams (fw_front w)));
          alive = (\<lambda>u. up_alive (fr_upstreams (fw_front w) ! u))
      in case e of
           PhoneJoins \<Rightarrow>
             if has_mailbox (fw_front w) then
               Some (w\<lparr>fw_phones := fw_phones w @ [\<lparr> ph_routes = [], ph_inbox = [], ph_phase = Serving \<rparr>]\<rparr>, [])
             else None
         | PhoneFrame p f \<Rightarrow> if serving p then Some (phone_frame L p f w) else None
         | Place p \<Rightarrow>
             if p < length (fw_phones w) then
               (case ph_phase (fw_phones w ! p) of Placing f u i \<Rightarrow> Some (place_session L p f u i w) | _ \<Rightarrow> None)
             else None
         | PhoneLeaves p \<Rightarrow> if serving p then Some (phone_leaves L p w) else None
         | PhoneTakes p ok \<Rightarrow>
             if serving p \<and> ph_inbox (fw_phones w ! p) \<noteq> [] then
               (let w = update_phone p (\<lambda>ph. ph\<lparr>ph_inbox := tl (ph_inbox ph)\<rparr>) w in if ok then Some (w, []) else Some (phone_leaves L p w))
             else None
         | Pump u \<Rightarrow>
             if upstream u \<and> alive u \<and> up_out (fr_upstreams (fw_front w) ! u) \<noteq> [] then
               Some (update_upstream u (\<lambda>up. up\<lparr>up_out := tl (up_out up)\<rparr>) w, [])
             else None
         | MailboxFrame u f \<Rightarrow> if upstream u \<and> alive u then Some (mailbox_frame L u f w) else None
         | Lost u \<Rightarrow> if upstream u \<and> alive u then Some (upstream_lost u w, []) else None
         | Connect u \<Rightarrow>
             if upstream u \<and> \<not> alive u then Some (update_upstream u (\<lambda>up. up\<lparr>up_out := [], up_alive := True\<rparr>) w, []) else None)"

fun proxy_run :: "front_lib \<Rightarrow> front_world \<Rightarrow> proxy_event list \<Rightarrow> (front_world \<times> proxy_effect list) option" where
  "proxy_run L w [] = Some (w, [])"
| "proxy_run L w (e # es) =
     (case proxy_step L w e of
        None \<Rightarrow> None
      | Some (w, xs) \<Rightarrow> (case proxy_run L w es of None \<Rightarrow> None | Some (w, ys) \<Rightarrow> Some (w, xs @ ys)))"

definition proxy_start :: "nat \<Rightarrow> front_world" where
  "proxy_start pool = \<lparr> fw_front = front_new pool, fw_phones = [] \<rparr>"

text \<open>The slot chosen is up, and one is chosen whenever one is up.\<close>

lemma pick_upstream_alive:
  "snd (pick_upstream f) = Some u \<Longrightarrow> u < length (fr_upstreams f) \<and> up_alive (fr_upstreams f ! u)"
  by (auto simp: pick_upstream_def Let_def find_Some_iff split: if_splits)

lemma find_present: "x \<in> set xs \<Longrightarrow> P x \<Longrightarrow> find P xs \<noteq> None"
  using find_None_iff [of P xs] by blast

lemma pick_upstream_finds:
  assumes "has_mailbox f" "unat (fr_cursor f) + length (fr_upstreams f) < 2 ^ 64"
  shows "snd (pick_upstream f) \<noteq> None"
proof -
  let ?n = "length (fr_upstreams f)" and ?c = "unat (fr_cursor f)"
  obtain u where u: "u < ?n" "up_alive (fr_upstreams f ! u)" using assms(1) by (auto simp: has_mailbox_def list_ex_length)
  let ?k = "(u + ?n - ?c mod ?n) mod ?n"
  have k: "?k < ?n" and "?c mod ?n < ?n" using u(1) by (metis mod_less_divisor gr_implies_not0 neq0_conv)+
  then have "(?c + ?k) mod ?n = (?c mod ?n + (u + ?n - ?c mod ?n)) mod ?n" by (metis mod_add_left_eq mod_add_right_eq)
  also have "\<dots> = u" using u(1) \<open>?c mod ?n < ?n\<close> by simp
  finally have "(?c + ?k) mod ?n = u" .
  moreover have "unat (fr_cursor f + word_of_nat ?k) = ?c + ?k"
    using assms(2) k by (simp add: unat_word_ariths unat_of_nat)
  ultimately have "u \<in> set (map (\<lambda>k. unat (fr_cursor f + word_of_nat k) mod ?n) [0..<?n])"
    using k by (force intro: image_eqI [of _ _ ?k])
  moreover have "snd (pick_upstream f) = find (\<lambda>i. up_alive (fr_upstreams f ! i)) (map (\<lambda>k. unat (fr_cursor f + word_of_nat k) mod ?n) [0..<?n])"
    using u(1) by (auto simp: pick_upstream_def Let_def)
  ultimately show ?thesis using find_present [where P = "\<lambda>i. up_alive (fr_upstreams f ! i)", OF _ u(2)] by simp
qed

section \<open>Who holds what\<close>

definition holds :: "front_world \<Rightarrow> nat \<Rightarrow> bytes \<Rightarrow> nat \<Rightarrow> u64 \<Rightarrow> bool" where
  "holds w p s u i \<longleftrightarrow> p < length (fw_phones w) \<and> map_of (ph_routes (fw_phones w ! p)) s = Some \<lparr> rt_upstream = u, rt_upstream_id = i \<rparr>"

definition placing :: "front_world \<Rightarrow> nat \<Rightarrow> front_frame \<Rightarrow> nat \<Rightarrow> u64 \<Rightarrow> bool" where
  "placing w p f u i \<longleftrightarrow> p < length (fw_phones w) \<and> ph_phase (fw_phones w ! p) = Placing f u i"

definition entry :: "front_world \<Rightarrow> nat \<Rightarrow> u64 \<Rightarrow> nat \<Rightarrow> bytes \<Rightarrow> bool" where
  "entry w u i p s \<longleftrightarrow> u < length (fr_upstreams (fw_front w)) \<and>
     map_of (up_routes (fr_upstreams (fw_front w) ! u)) i = Some \<lparr> ps_phone = p, ps_id = s \<rparr>"

lemma update_upstream_simps [simp]:
  "fw_phones (update_upstream u g w) = fw_phones w" "fr_next_id (fw_front (update_upstream u g w)) = fr_next_id (fw_front w)"
  "length (fr_upstreams (fw_front (update_upstream u g w))) = length (fr_upstreams (fw_front w))"
  "holds (update_upstream u g w) = holds w" "placing (update_upstream u g w) = placing w"
  by (simp_all add: update_upstream_def holds_def placing_def fun_eq_iff)

lemma update_phone_simps [simp]:
  "fw_front (update_phone p g w) = fw_front w" "length (fw_phones (update_phone p g w)) = length (fw_phones w)"
  "entry (update_phone p g w) = entry w"
  by (simp_all add: update_phone_def entry_def fun_eq_iff)

lemma upstream_nth:
  "v < length (fr_upstreams (fw_front w)) \<Longrightarrow> fr_upstreams (fw_front (update_upstream u g w)) ! v =
    (if v = u then g (fr_upstreams (fw_front w) ! v) else fr_upstreams (fw_front w) ! v)"
  by (simp add: update_upstream_def nth_list_update)

lemma phone_nth:
  "q < length (fw_phones w) \<Longrightarrow> fw_phones (update_phone p g w) ! q = (if q = p then g (fw_phones w ! q) else fw_phones w ! q)"
  by (simp add: update_phone_def nth_list_update)

lemma holds_update_phone:
  "holds (update_phone p g w) q s u i \<longleftrightarrow>
    (if q = p then p < length (fw_phones w) \<and> map_of (ph_routes (g (fw_phones w ! p))) s = Some \<lparr> rt_upstream = u, rt_upstream_id = i \<rparr>
     else holds w q s u i)"
  by (auto simp: holds_def phone_nth)

lemma placing_update_phone:
  "placing (update_phone p g w) q f u i \<longleftrightarrow>
    (if q = p then p < length (fw_phones w) \<and> ph_phase (g (fw_phones w ! p)) = Placing f u i else placing w q f u i)"
  by (auto simp: placing_def phone_nth)

lemma entry_update_upstream:
  "entry (update_upstream u g w) v i p s \<longleftrightarrow>
    (if v = u then u < length (fr_upstreams (fw_front w)) \<and> map_of (up_routes (g (fr_upstreams (fw_front w) ! u))) i = Some \<lparr> ps_phone = p, ps_id = s \<rparr>
     else entry w v i p s)"
  by (auto simp: entry_def upstream_nth)

lemma send_up_simps [simp]:
  "fw_phones (send_up u f w) = fw_phones w" "fr_next_id (fw_front (send_up u f w)) = fr_next_id (fw_front w)"
  "length (fr_upstreams (fw_front (send_up u f w))) = length (fr_upstreams (fw_front w))"
  "holds (send_up u f w) = holds w" "placing (send_up u f w) = placing w" "entry (send_up u f w) = entry w"
  by (auto simp: send_up_def entry_update_upstream fun_eq_iff) (auto simp: entry_def)

lemma close_route_simps [simp]:
  "fw_phones (close_route L rt w) = fw_phones w" "fr_next_id (fw_front (close_route L rt w)) = fr_next_id (fw_front w)"
  "holds (close_route L rt w) = holds w" "placing (close_route L rt w) = placing w"
  "entry (close_route L rt w) u i p s \<longleftrightarrow> entry w u i p s \<and> \<not> (u = rt_upstream rt \<and> i = rt_upstream_id rt)"
  by (simp_all add: close_route_def deregister_def entry_update_upstream delete_conv')
    (auto simp: entry_def send_up_def upstream_nth)

lemma fold_close_simps [simp]:
  "fw_phones (fold (\<lambda>x. close_route L (snd x)) rs w) = fw_phones w"
  "fr_next_id (fw_front (fold (\<lambda>x. close_route L (snd x)) rs w)) = fr_next_id (fw_front w)"
  "holds (fold (\<lambda>x. close_route L (snd x)) rs w) = holds w" "placing (fold (\<lambda>x. close_route L (snd x)) rs w) = placing w"
  "entry (fold (\<lambda>x. close_route L (snd x)) rs w) u i p s \<longleftrightarrow>
    entry w u i p s \<and> \<not> (\<exists>x\<in>set rs. u = rt_upstream (snd x) \<and> i = rt_upstream_id (snd x))"
  by (induction rs arbitrary: w) auto

lemma tell_phone_simps [simp]:
  "fw_front (tell_phone m p w) = fw_front w" "length (fw_phones (tell_phone m p w)) = length (fw_phones w)"
  "holds (tell_phone m p w) = holds w" "placing (tell_phone m p w) = placing w" "entry (tell_phone m p w) = entry w"
  by (auto simp: tell_phone_def holds_update_phone placing_update_phone fun_eq_iff)
    (auto simp: holds_def placing_def)

lemma phase_tell: "ph_phase (fw_phones (tell_phone m p w) ! q) = ph_phase (fw_phones w ! q)" "ph_routes (fw_phones (tell_phone m p w) ! q) = ph_routes (fw_phones w ! q)"
  by (cases "p < length (fw_phones w)"; simp add: tell_phone_def update_phone_def nth_list_update list_update_beyond)+

lemma fold_tell_simps [simp]:
  "fw_front (fold (\<lambda>x. tell_phone m (h x)) xs w) = fw_front w"
  "length (fw_phones (fold (\<lambda>x. tell_phone m (h x)) xs w)) = length (fw_phones w)"
  "holds (fold (\<lambda>x. tell_phone m (h x)) xs w) = holds w" "placing (fold (\<lambda>x. tell_phone m (h x)) xs w) = placing w"
  "entry (fold (\<lambda>x. tell_phone m (h x)) xs w) = entry w"
  "ph_phase (fw_phones (fold (\<lambda>x. tell_phone m (h x)) xs w) ! q) = ph_phase (fw_phones w ! q)"
  "ph_routes (fw_phones (fold (\<lambda>x. tell_phone m (h x)) xs w) ! q) = ph_routes (fw_phones w ! q)"
  by (induction xs arbitrary: w) (simp_all add: phase_tell)

text \<open>Every session registered with a slot of the pool is one its phone still has; a phone that is gone has none.\<close>

definition proxy_ok :: "front_world \<Rightarrow> bool" where
  "proxy_ok w \<longleftrightarrow>
     (\<forall>u i p s. entry w u i p s \<longrightarrow> holds w p s u i) \<and>
     (\<forall>p<length (fw_phones w). (ph_phase (fw_phones w ! p) = PhoneGone \<longrightarrow> ph_routes (fw_phones w ! p) = []) \<and>
        distinct (map fst (ph_routes (fw_phones w ! p)))) \<and>
     (\<forall>p f u i. placing w p f u i \<longrightarrow> map_of (ph_routes (fw_phones w ! p)) (ff_s f) = None)"

lemma proxy_start_ok: "proxy_ok (proxy_start pool)"
  by (auto simp: proxy_ok_def proxy_start_def front_new_def entry_def placing_def)

lemma proxy_okD:
  assumes "proxy_ok w"
  shows "entry w u i p s \<Longrightarrow> holds w p s u i"
    and "p < length (fw_phones w) \<Longrightarrow> ph_phase (fw_phones w ! p) = PhoneGone \<Longrightarrow> ph_routes (fw_phones w ! p) = []"
    and "p < length (fw_phones w) \<Longrightarrow> distinct (map fst (ph_routes (fw_phones w ! p)))"
    and "placing w p f u i \<Longrightarrow> map_of (ph_routes (fw_phones w ! p)) (ff_s f) = None"
  using assms unfolding proxy_ok_def by blast+

lemma proxy_okI:
  assumes "\<And>u i p s. entry w u i p s \<Longrightarrow> holds w p s u i"
    "\<And>p. p < length (fw_phones w) \<Longrightarrow> ph_phase (fw_phones w ! p) = PhoneGone \<Longrightarrow> ph_routes (fw_phones w ! p) = []"
    "\<And>p. p < length (fw_phones w) \<Longrightarrow> distinct (map fst (ph_routes (fw_phones w ! p)))"
    "\<And>p f u i. placing w p f u i \<Longrightarrow> map_of (ph_routes (fw_phones w ! p)) (ff_s f) = None"
  shows "proxy_ok w"
  using assms unfolding proxy_ok_def by blast

text \<open>Steps that leave the routes of every phone and its choice of a slot alone and register nothing.\<close>

lemma proxy_ok_same:
  assumes "proxy_ok w" "length (fw_phones w') = length (fw_phones w)" "\<And>p. ph_routes (fw_phones w' ! p) = ph_routes (fw_phones w ! p)"
    "\<And>p. ph_phase (fw_phones w' ! p) = ph_phase (fw_phones w ! p)" "\<And>u i p s. entry w' u i p s \<Longrightarrow> entry w u i p s"
  shows "proxy_ok w'"
proof -
  have "holds w' = holds w" "placing w' = placing w" using assms(2-4) by (simp_all add: holds_def placing_def fun_eq_iff)
  then show ?thesis using assms unfolding proxy_ok_def by metis
qed

lemma proxy_ok_leaves:
  assumes "proxy_ok w" "p < length (fw_phones w)"
  shows "proxy_ok (fst (phone_leaves L p w))"
proof -
  let ?rs = "ph_routes (fw_phones w ! p)" and ?w = "fst (phone_leaves L p w)"
  have e: "entry ?w u i q s \<longleftrightarrow> entry w u i q s \<and> \<not> (\<exists>x\<in>set ?rs. u = rt_upstream (snd x) \<and> i = rt_upstream_id (snd x))" for u i q s
    by (simp add: phone_leaves_def Let_def)
  have "q \<noteq> p" if "entry ?w u i q s" for u i q s
  proof
    assume "q = p"
    then have "map_of ?rs s = Some \<lparr> rt_upstream = u, rt_upstream_id = i \<rparr>" using that proxy_okD(1) [OF assms(1)] by (auto simp: e holds_def)
    from map_of_SomeD [OF this] that show False by (force simp: e)
  qed
  then have h: "holds ?w q s u i" if "entry ?w u i q s" for u i q s
    using that proxy_okD(1) [OF assms(1)] by (auto simp: e) (auto simp: phone_leaves_def Let_def holds_update_phone)
  have ph: "fw_phones ?w ! q = (if q = p then (fw_phones w ! p)\<lparr>ph_routes := [], ph_phase := PhoneGone\<rparr> else fw_phones w ! q)" for q
    using assms(2) by (simp add: phone_leaves_def Let_def update_phone_def nth_list_update)
  have len: "length (fw_phones ?w) = length (fw_phones w)" by (simp add: phone_leaves_def Let_def)
  have pl: "placing ?w q f u i \<Longrightarrow> q \<noteq> p \<and> placing w q f u i" for q f u i
    by (auto simp: phone_leaves_def Let_def placing_update_phone split: if_splits)
  show ?thesis
  proof (rule proxy_okI)
    show "map_of (ph_routes (fw_phones ?w ! q)) (ff_s f) = None" if "placing ?w q f u i" for q f u i
      using pl [OF that] proxy_okD(4) [OF assms(1), of q f u i] by (simp add: ph)
  qed (use h proxy_okD(2,3) [OF assms(1)] in \<open>auto simp: ph len split: if_splits\<close>)
qed

lemma fresh_front_same [simp]:
  "holds (w\<lparr>fw_front := f\<rparr>) = holds w" "placing (w\<lparr>fw_front := f\<rparr>) = placing w"
  by (simp_all add: holds_def placing_def fun_eq_iff)

lemma pick_upstream_fields:
  "fr_upstreams (fst (pick_upstream f)) = fr_upstreams f" "fr_next_id (fst (pick_upstream f)) = fr_next_id f"
  by (simp_all add: pick_upstream_def Let_def)

lemma proxy_ok_picked: "proxy_ok w \<Longrightarrow> fr_upstreams f = fr_upstreams (fw_front w) \<Longrightarrow> proxy_ok (w\<lparr>fw_front := f\<rparr>)"
  by (rule proxy_ok_same) (auto simp: entry_def)

lemma proxy_ok_placing:
  assumes "proxy_ok w" "map_of (ph_routes (fw_phones w ! p)) (ff_s f) = None" "ph_phase (fw_phones w ! p) = Serving"
  shows "proxy_ok (update_phone p (\<lambda>ph. ph\<lparr>ph_phase := Placing f u i\<rparr>) w)"
proof (cases "p < length (fw_phones w)")
  case True
  let ?w = "update_phone p (\<lambda>ph. ph\<lparr>ph_phase := Placing f u i\<rparr>) w"
  have h: "holds ?w = holds w" by (auto simp: holds_update_phone fun_eq_iff) (auto simp: holds_def)
  show ?thesis
  proof (rule proxy_okI)
    fix q g v j
    assume pl: "placing ?w q g v j"
    then have "q < length (fw_phones w)" by (simp add: placing_def)
    moreover have "q = p \<and> g = f \<or> placing w q g v j" using pl by (auto simp: placing_update_phone split: if_splits)
    ultimately show "map_of (ph_routes (fw_phones ?w ! q)) (ff_s g) = None"
      using assms(2) proxy_okD(4) [OF assms(1), of q g v j] by (auto simp: phone_nth)
  qed (use proxy_okD(1-3) [OF assms(1)] in \<open>auto simp: h phone_nth split: if_splits\<close>)
qed (use assms(1) in \<open>simp add: update_phone_def list_update_beyond\<close>)

lemma proxy_ok_close:
  assumes "proxy_ok w" "p < length (fw_phones w)" "map_of (ph_routes (fw_phones w ! p)) s = Some rt" "ph_phase (fw_phones w ! p) = Serving"
  shows "proxy_ok (close_route L rt (update_phone p (\<lambda>ph. ph\<lparr>ph_routes := AList.delete s (ph_routes (fw_phones w ! p))\<rparr>) w))" (is "proxy_ok ?w")
proof -
  have e: "entry ?w u i q s' \<longleftrightarrow> entry w u i q s' \<and> \<not> (u = rt_upstream rt \<and> i = rt_upstream_id rt)" for u i q s' by simp
  have h: "holds ?w q s' u i \<longleftrightarrow> holds w q s' u i \<and> \<not> (q = p \<and> s' = s)" for q s' u i
    using assms(2) by (auto simp: holds_update_phone delete_conv') (auto simp: holds_def)
  have hh: "holds ?w q s' u i" if "entry ?w u i q s'" for u i q s'
  proof -
    have "holds w q s' u i" using that proxy_okD(1) [OF assms(1)] by (simp add: e)
    moreover from this have "\<not> (q = p \<and> s' = s)" using that assms(3) by (auto simp: e holds_def)
    ultimately show ?thesis using h by blast
  qed
  have ph: "fw_phones ?w ! q = (if q = p then (fw_phones w ! p)\<lparr>ph_routes := AList.delete s (ph_routes (fw_phones w ! p))\<rparr> else fw_phones w ! q)" for q
    using assms(2) by (simp add: update_phone_def nth_list_update)
  have pl: "placing ?w q f u i \<longleftrightarrow> placing w q f u i" for q f u i
    by (auto simp: placing_update_phone) (auto simp: placing_def)
  show ?thesis
  proof (rule proxy_okI)
    show "map_of (ph_routes (fw_phones ?w ! q)) (ff_s f) = None" if "placing ?w q f u i" for q f u i
      using that pl [of q f u i] proxy_okD(4) [OF assms(1), of q f u i] unfolding ph by (auto simp: delete_conv')
  qed (use hh proxy_okD(2,3) [OF assms(1)] assms(4) in \<open>auto simp: phone_nth distinct_delete split: if_splits\<close>)
qed

lemma proxy_ok_place:
  assumes "proxy_ok w" "placing w p f u i"
  shows "proxy_ok (fst (place_session L p f u i w))" (is "proxy_ok ?w")
proof -
  have p: "p < length (fw_phones w)" and none: "map_of (ph_routes (fw_phones w ! p)) (ff_s f) = None"
    using assms(2) proxy_okD(4) [OF assms] by (simp_all add: placing_def)
  have h: "holds ?w q s v j \<longleftrightarrow> (if q = p \<and> s = ff_s f then v = u \<and> j = i else holds w q s v j)" for q s v j
    using p by (auto simp: place_session_def holds_update_phone update_conv') (auto simp: holds_def)
  have e: "entry ?w v j q s \<Longrightarrow> (v = u \<and> j = i \<and> q = p \<and> s = ff_s f) \<or> entry w v j q s" for v j q s
    by (auto simp: place_session_def entry_update_upstream update_conv' split: if_splits) (auto simp: entry_def)
  have hh: "holds ?w q s v j" if "entry ?w v j q s" for v j q s
    using e [OF that] proxy_okD(1) [OF assms(1), of v j q s] none by (auto simp: h) (auto simp: holds_def)
  have ph: "fw_phones ?w ! q = (if q = p then (fw_phones w ! p)\<lparr>ph_routes := AList.update (ff_s f) \<lparr> rt_upstream = u, rt_upstream_id = i \<rparr>
      (ph_routes (fw_phones w ! p)), ph_phase := Serving\<rparr> else fw_phones w ! q)" for q
    using p by (simp add: place_session_def update_phone_def nth_list_update)
  have pl: "placing ?w q g v j \<Longrightarrow> q \<noteq> p \<and> placing w q g v j" for q g v j
    by (auto simp: place_session_def placing_update_phone split: if_splits)
  have len: "length (fw_phones ?w) = length (fw_phones w)" by (simp add: place_session_def)
  show ?thesis
  proof (rule proxy_okI)
    show "map_of (ph_routes (fw_phones ?w ! q)) (ff_s g) = None" if "placing ?w q g v j" for q g v j
      using pl [OF that] proxy_okD(4) [OF assms(1), of q g v j] by (simp add: ph)
  qed (use hh proxy_okD(2,3) [OF assms(1)] in \<open>auto simp: ph len distinct_update split: if_splits\<close>)
qed

lemma proxy_ok_frame:
  assumes "proxy_ok w" "p < length (fw_phones w)" "ph_phase (fw_phones w ! p) = Serving"
  shows "proxy_ok (fst (phone_frame L p f w))"
proof (cases "ff_close f \<or> ff_hello f = None")
  case True
  have up: "proxy_ok (send_up u g w)" for u g by (rule proxy_ok_same [OF assms(1)]) simp_all
  from True show ?thesis using assms(1) up proxy_ok_close [OF assms(1,2) _ assms(3)]
    by (auto simp: phone_frame_def Let_def split: option.splits)
next
  case False
  obtain fr found where pick: "pick_upstream (fw_front w) = (fr, found)" by fastforce
  have fr: "fr_upstreams fr = fr_upstreams (fw_front w)" using pick_upstream_fields(1) [of "fw_front w"] by (simp add: pick)
  have "proxy_ok (w\<lparr>fw_front := fr\<rparr>)" "proxy_ok (w\<lparr>fw_front := fst (fresh_id fr)\<rparr>)"
    using proxy_ok_picked [OF assms(1)] fr by (simp_all add: fresh_id_def)
  then show ?thesis
    using False pick assms proxy_ok_leaves [of "w\<lparr>fw_front := fr\<rparr>" p] proxy_ok_placing [of "w\<lparr>fw_front := fst (fresh_id fr)\<rparr>" p f]
    by (auto simp: phone_frame_def Let_def fresh_id_def split: option.splits)
qed

lemma proxy_step_ok:
  assumes ok: "proxy_ok w" and st: "proxy_step L w e = Some (w', xs)"
  shows "proxy_ok w'"
proof -
  have same: "proxy_ok (update_phone p (\<lambda>ph. ph\<lparr>ph_inbox := h ph\<rparr>) w)" if "p < length (fw_phones w)" for p h
  proof (rule proxy_ok_same [OF ok])
    let ?w = "update_phone p (\<lambda>ph. ph\<lparr>ph_inbox := h ph\<rparr>) w"
    show "ph_routes (fw_phones ?w ! q) = ph_routes (fw_phones w ! q)" "ph_phase (fw_phones ?w ! q) = ph_phase (fw_phones w ! q)" for q
      using that by (simp_all add: update_phone_def nth_list_update)
  qed simp_all
  have tell: "proxy_ok (tell_phone m p w)" for m p by (rule proxy_ok_same [OF ok]) (simp_all add: phase_tell)
  have up: "proxy_ok (update_upstream u g w)" if "\<And>up. up_routes (g up) = up_routes up \<or> up_routes (g up) = []" for u g
  proof (rule proxy_ok_same [OF ok])
    show "entry w v i p s" if "entry (update_upstream u g w) v i p s" for v i p s
      using that \<open>\<And>up. up_routes (g up) = up_routes up \<or> up_routes (g up) = []\<close> [of "fr_upstreams (fw_front w) ! u"]
      by (auto simp: entry_update_upstream split: if_splits) (auto simp: entry_def)
  qed simp_all
  show ?thesis
  proof (cases e)
    case PhoneJoins
    let ?w = "w\<lparr>fw_phones := fw_phones w @ [\<lparr> ph_routes = [], ph_inbox = [], ph_phase = Serving \<rparr>]\<rparr>"
    have w': "w' = ?w" using st PhoneJoins by (simp add: proxy_step_def split: if_splits)
    have h: "holds w q s v j \<Longrightarrow> holds ?w q s v j" and en: "entry ?w v j q s = entry w v j q s"
      and pl: "placing ?w q g v j \<Longrightarrow> placing w q g v j" for q s v j g
      by (auto simp: holds_def entry_def placing_def nth_append split: if_splits)
    show ?thesis unfolding w'
    proof (rule proxy_okI)
      show "holds ?w q s v j" if "entry ?w v j q s" for q s v j using that h en proxy_okD(1) [OF ok] by blast
      fix q
      assume q: "q < length (fw_phones ?w)"
      show "ph_routes (fw_phones ?w ! q) = []" if "ph_phase (fw_phones ?w ! q) = PhoneGone"
        using that q proxy_okD(2) [OF ok, of q] by (auto simp: nth_append split: if_splits)
      show "distinct (map fst (ph_routes (fw_phones ?w ! q)))"
        using q proxy_okD(3) [OF ok, of q] by (auto simp: nth_append)
    next
      fix q g v j
      assume "placing ?w q g v j"
      from pl [OF this] show "map_of (ph_routes (fw_phones ?w ! q)) (ff_s g) = None"
        using proxy_okD(4) [OF ok] by (auto simp: nth_append placing_def)
    qed
  next
    case (PhoneFrame p f)
    then show ?thesis using st proxy_ok_frame [OF ok, of p L f] by (auto simp: proxy_step_def split: if_splits)
  next
    case (Place p)
    then obtain f u i where "placing w p f u i" "place_session L p f u i w = (w', xs)"
      using st by (auto simp: proxy_step_def placing_def split: if_splits phone_phase.splits)
    then show ?thesis using proxy_ok_place [OF ok] by (metis fst_conv)
  next
    case (PhoneLeaves p)
    then show ?thesis using st proxy_ok_leaves [OF ok, of p L] by (auto simp: proxy_step_def split: if_splits)
  next
    case (PhoneTakes p b)
    then show ?thesis using st same [of p "\<lambda>ph. tl (ph_inbox ph)"] proxy_ok_leaves [OF same [of p "\<lambda>ph. tl (ph_inbox ph)"], of p L]
      by (auto simp: proxy_step_def Let_def split: if_splits)
  next
    case (MailboxFrame u f)
    then show ?thesis using st tell ok by (auto simp: proxy_step_def mailbox_frame_def split: if_splits option.splits)
  next
    case (Lost u)
    have "proxy_ok (update_upstream u (\<lambda>up. up\<lparr>up_alive := False, up_routes := []\<rparr>) w)" by (rule up) simp
    then have "proxy_ok (upstream_lost u w)" by (rule proxy_ok_same) (simp_all add: upstream_lost_def comp_def)
    then show ?thesis using st Lost by (simp add: proxy_step_def split: if_splits)
  qed (use st up in \<open>auto simp: proxy_step_def split: if_splits\<close>)
qed

section \<open>One number, one session\<close>

text \<open>Who a number is taken to stand for: the frames sent up under its label, the replies handed down under it, the sessions that
  hold it, and the one being placed.\<close>

definition shown :: "front_lib \<Rightarrow> proxy_effect list \<Rightarrow> (u64 \<times> nat \<times> bytes) set" where
  "shown L xs =
     {(i, p, s). (\<exists>u f. Up u f p s \<in> set xs \<and> ff_s f = upstream_label L i) \<or>
        (\<exists>u l. Down u l p s \<in> set xs \<and> upstream_id_of L l = Some i)}"

definition held_by :: "front_world \<Rightarrow> (u64 \<times> nat \<times> bytes) set" where
  "held_by w = {(i, p, s). (\<exists>u. holds w p s u i) \<or> (\<exists>f u. placing w p f u i \<and> s = ff_s f)}"

definition one_owner :: "(u64 \<times> nat \<times> bytes) set \<Rightarrow> u64 \<Rightarrow> bool" where
  "one_owner A n \<longleftrightarrow> (\<forall>i x y. (i, x) \<in> A \<longrightarrow> (i, y) \<in> A \<longrightarrow> x = y) \<and> (\<forall>i x. (i, x) \<in> A \<longrightarrow> unat i < unat n)"

definition numbered :: "front_lib \<Rightarrow> front_world \<Rightarrow> proxy_effect list \<Rightarrow> bool" where
  "numbered L w xs \<longleftrightarrow> one_owner (shown L xs \<union> held_by w) (fr_next_id (fw_front w))"

lemma one_owner_mono: "one_owner A n \<Longrightarrow> B \<subseteq> A \<Longrightarrow> one_owner B n"
  unfolding one_owner_def by blast

lemma shown_append [simp]: "shown L (xs @ ys) = shown L xs \<union> shown L ys"
  by (auto simp: shown_def)

lemma shown_Nil [simp]: "shown L [] = {}"
  by (simp add: shown_def)

lemma numbered_mono:
  assumes "numbered L w xs" "held_by w' \<union> shown L ys \<subseteq> held_by w" "fr_next_id (fw_front w') = fr_next_id (fw_front w)"
  shows "numbered L w' (xs @ ys)"
proof -
  have "shown L (xs @ ys) \<union> held_by w' \<subseteq> shown L xs \<union> held_by w" using assms(2) by auto
  then show ?thesis using assms(1,3) one_owner_mono unfolding numbered_def by simp
qed

lemma label_inj:
  assumes "\<And>bs. fl_b64 L (fl_b64_encode L bs) = Some bs"
  shows "upstream_label L i = upstream_label L j \<longleftrightarrow> i = j" "upstream_id_of L (upstream_label L i) = Some i"
proof -
  have id: "upstream_id_of L (upstream_label L i) = Some i" for i
    using assms by (simp add: upstream_id_of_def upstream_label_def)
  then show "upstream_id_of L (upstream_label L i) = Some i" .
  from id show "upstream_label L i = upstream_label L j \<longleftrightarrow> i = j" by (metis option.inject)
qed

lemma held_byI: "holds w p s u i \<Longrightarrow> (i, p, s) \<in> held_by w"
  by (auto simp: held_by_def)

lemma route_held: "p < length (fw_phones w) \<Longrightarrow> map_of (ph_routes (fw_phones w ! p)) s = Some rt \<Longrightarrow> (rt_upstream_id rt, p, s) \<in> held_by w"
  by (rule held_byI [of _ _ _ "rt_upstream rt"]) (cases rt, simp add: holds_def)

lemma shown_up:
  assumes "\<And>bs. fl_b64 L (fl_b64_encode L bs) = Some bs"
  shows "shown L [Up u (close_frame L i) p s] = {(i, p, s)}" "shown L [Up u (forwarded L i f) p s] = {(i, p, s)}"
  using label_inj(1) [OF assms] by (auto simp: shown_def close_frame_def forwarded_def)

lemma leaves_claims:
  assumes b64: "\<And>bs. fl_b64 L (fl_b64_encode L bs) = Some bs" and p: "p < length (fw_phones w)"
    and d: "distinct (map fst (ph_routes (fw_phones w ! p)))" and st: "phone_leaves L p w = (w', ys)"
  shows "held_by w' \<union> shown L ys \<subseteq> held_by w" "fr_next_id (fw_front w') = fr_next_id (fw_front w)"
proof -
  let ?rs = "ph_routes (fw_phones w ! p)"
  have w': "w' = update_phone p (\<lambda>ph. ph\<lparr>ph_routes := [], ph_phase := PhoneGone\<rparr>) (fold (\<lambda>x. close_route L (snd x)) ?rs w)"
    and ys: "ys = map (\<lambda>(s, rt). Up (rt_upstream rt) (close_frame L (rt_upstream_id rt)) p s) ?rs"
    using st by (simp_all add: phone_leaves_def Let_def)
  show "fr_next_id (fw_front w') = fr_next_id (fw_front w)" by (simp add: w')
  have "shown L ys \<subseteq> (\<lambda>(s, rt). (rt_upstream_id rt, p, s)) ` set ?rs"
    using label_inj(1) [OF b64] by (force simp: ys shown_def close_frame_def)
  then have "shown L ys \<subseteq> held_by w" using route_held [OF p] d by fastforce
  moreover have "held_by w' \<subseteq> held_by w"
    by (auto simp: w' held_by_def holds_update_phone placing_update_phone split: if_splits)
  ultimately show "held_by w' \<union> shown L ys \<subseteq> held_by w" by simp
qed

lemma held_by_same: "holds w' = holds w \<Longrightarrow> placing w' = placing w \<Longrightarrow> held_by w' = held_by w"
  by (simp add: held_by_def)

lemma held_by_simps [simp]:
  "held_by (send_up u f w) = held_by w" "held_by (close_route L rt w) = held_by w" "held_by (tell_phone m p w) = held_by w"
  "held_by (update_upstream u g w) = held_by w" "held_by (w\<lparr>fw_front := fr\<rparr>) = held_by w"
  by (simp_all add: held_by_def)

lemma held_by_inbox [simp]: "held_by (update_phone p (\<lambda>ph. ph\<lparr>ph_inbox := h ph\<rparr>) w) = held_by w"
  by (rule held_by_same) (auto simp: holds_update_phone placing_update_phone fun_eq_iff, auto simp: holds_def placing_def)

lemma held_by_iff:
  "(i, q, s) \<in> held_by w \<longleftrightarrow> q < length (fw_phones w) \<and>
    ((\<exists>u. map_of (ph_routes (fw_phones w ! q)) s = Some \<lparr> rt_upstream = u, rt_upstream_id = i \<rparr>) \<or>
     (\<exists>f u. ph_phase (fw_phones w ! q) = Placing f u i \<and> s = ff_s f))"
  by (auto simp: held_by_def holds_def placing_def)

lemma held_by_update_phone:
  "(i, q, s) \<in> held_by (update_phone p g w) \<longleftrightarrow>
    (if q = p then p < length (fw_phones w) \<and>
       ((\<exists>u. map_of (ph_routes (g (fw_phones w ! p))) s = Some \<lparr> rt_upstream = u, rt_upstream_id = i \<rparr>) \<or>
        (\<exists>f u. ph_phase (g (fw_phones w ! p)) = Placing f u i \<and> s = ff_s f))
     else (i, q, s) \<in> held_by w)"
  by (auto simp: held_by_iff phone_nth)

lemma one_owner_new:
  assumes "one_owner A n" "n \<noteq> - 1" "B \<subseteq> insert (n, x) A"
  shows "one_owner B (n + 1)"
proof -
  have up: "unat (n + 1) = unat n + 1" using checked_add_unat [of n 1] assms(2) by (simp add: checked_add_1)
  have low: "unat i < unat n" if "(i, y) \<in> A" for i y using assms(1) that unfolding one_owner_def by blast
  then have new: "(n, y) \<notin> A" for y by blast
  have "one_owner (insert (n, x) A) (n + 1)" unfolding one_owner_def
  proof (intro conjI allI impI)
    fix i y z
    assume "(i, y) \<in> insert (n, x) A" "(i, z) \<in> insert (n, x) A"
    then show "y = z" using new assms(1) unfolding one_owner_def by blast
  next
    fix i y
    assume "(i, y) \<in> insert (n, x) A"
    then have "i = n \<or> unat i < unat n" using low [of i y] by blast
    then show "unat i < unat (n + 1)" using up by auto
  qed
  then show ?thesis using assms(3) by (rule one_owner_mono)
qed

lemma frame_claims:
  assumes b64: "\<And>bs. fl_b64 L (fl_b64_encode L bs) = Some bs" and ok: "proxy_ok w" and p: "p < length (fw_phones w)"
    and num: "numbered L w xs" and more: "fr_next_id (fw_front w) \<noteq> - 1" and st: "phone_frame L p f w = (w', ys)"
  shows "numbered L w' (xs @ ys) \<and> unat (fr_next_id (fw_front w')) \<le> Suc (unat (fr_next_id (fw_front w)))"
proof -
  let ?rs = "ph_routes (fw_phones w ! p)"
  have keep: ?thesis if "held_by w' \<union> shown L ys \<subseteq> held_by w" "fr_next_id (fw_front w') = fr_next_id (fw_front w)"
    using numbered_mono [OF num that] that(2) by simp
  have gone: "held_by (update_phone p (\<lambda>ph. ph\<lparr>ph_routes := AList.delete s ?rs\<rparr>) w) \<subseteq> held_by w" for s
    by (auto simp: held_by_update_phone delete_conv' split: if_splits) (auto simp: held_by_iff)
  consider (close) "ff_close f" | (hello) "\<not> ff_close f" "ff_hello f \<noteq> None" | (body) "\<not> ff_close f" "ff_hello f = None" by blast
  then show ?thesis
  proof cases
    case close
    show ?thesis
    proof (cases "map_of ?rs (ff_s f)")
      case (Some rt)
      then have "held_by w' \<subseteq> held_by w" "shown L ys \<subseteq> held_by w" "fr_next_id (fw_front w') = fr_next_id (fw_front w)"
        using st close gone [of "ff_s f"] route_held [OF p Some] shown_up [OF b64] by (simp_all add: phone_frame_def Let_def) auto
      then show ?thesis by (intro keep) auto
    qed (use st close in \<open>intro keep; auto simp: phone_frame_def Let_def\<close>)
  next
    case body
    then show ?thesis using st route_held [OF p] shown_up [OF b64]
      by (intro keep) (auto simp: phone_frame_def Let_def split: option.splits)
  next
    case hello
    obtain fr found where pick: "pick_upstream (fw_front w) = (fr, found)" by fastforce
    have fr: "fr_next_id fr = fr_next_id (fw_front w)" using pick_upstream_fields(2) [of "fw_front w"] by (simp add: pick)
    show ?thesis
    proof (cases "map_of ?rs (ff_s f)")
      case (Some rt)
      then show ?thesis using st hello by (intro keep) (auto simp: phone_frame_def Let_def)
    next
      case None
      show ?thesis
      proof (cases found)
        case None
        then have "phone_leaves L p (w\<lparr>fw_front := fr\<rparr>) = (w', ys)"
          using st hello pick \<open>map_of ?rs (ff_s f) = None\<close> by (simp add: phone_frame_def Let_def)
        from leaves_claims [OF b64 _ _ this] p proxy_okD(3) [OF ok p] fr show ?thesis by (intro keep) auto
      next
        case (Some u)
        let ?i = "fr_next_id (fw_front w)"
        have w': "w' = update_phone p (\<lambda>ph. ph\<lparr>ph_phase := Placing f u ?i\<rparr>) (w\<lparr>fw_front := fst (fresh_id fr)\<rparr>)" and ys: "ys = []"
          using st hello pick Some \<open>map_of ?rs (ff_s f) = None\<close> fr by (simp_all add: phone_frame_def Let_def fresh_id_def)
        have "held_by w' \<subseteq> insert (?i, p, ff_s f) (held_by w)"
          by (auto simp: w' held_by_update_phone split: if_splits) (auto simp: held_by_iff)
        then have "shown L (xs @ ys) \<union> held_by w' \<subseteq> insert (?i, p, ff_s f) (shown L xs \<union> held_by w)" by (auto simp: ys)
        moreover have "fr_next_id (fw_front w') = ?i + 1" by (simp add: w' fresh_id_def fr)
        ultimately show ?thesis
          using one_owner_new [OF _ more] num unat_word_ariths(1) [of ?i 1] by (auto simp: numbered_def intro: le_trans [OF mod_less_eq_dividend])
      qed
    qed
  qed
qed

lemma numbered_step:
  assumes b64: "\<And>bs. fl_b64 L (fl_b64_encode L bs) = Some bs" and ok: "proxy_ok w" and num: "numbered L w xs"
    and more: "fr_next_id (fw_front w) \<noteq> - 1" and st: "proxy_step L w e = Some (w', ys)"
  shows "numbered L w' (xs @ ys) \<and> unat (fr_next_id (fw_front w')) \<le> Suc (unat (fr_next_id (fw_front w)))"
proof -
  have keep: ?thesis if "held_by w' \<union> shown L ys \<subseteq> held_by w" "fr_next_id (fw_front w') = fr_next_id (fw_front w)"
    using numbered_mono [OF num that] that(2) by simp
  show ?thesis
  proof (cases e)
    case PhoneJoins
    then show ?thesis using st
      by (intro keep) (auto simp: proxy_step_def held_by_def holds_def placing_def nth_append split: if_splits)
  next
    case (PhoneFrame p f)
    then show ?thesis using st frame_claims [OF b64 ok _ num more, of p f] by (simp add: proxy_step_def split: if_splits)
  next
    case (Place p)
    then obtain f u i where pl: "placing w p f u i" and pw: "place_session L p f u i w = (w', ys)"
      using st by (auto simp: proxy_step_def placing_def split: if_splits phone_phase.splits)
    then have ys: "ys = [Up u (forwarded L i f) p (ff_s f)]" and next_id: "fr_next_id (fw_front w') = fr_next_id (fw_front w)"
      by (auto simp: place_session_def)
    have "held_by w' \<subseteq> held_by w" using pl pw
      by (auto simp: place_session_def held_by_update_phone update_conv' split: if_splits) (auto simp: held_by_iff placing_def)
    moreover have "shown L ys \<subseteq> held_by w" using pl shown_up(2) [OF b64] by (auto simp: ys held_by_def)
    ultimately show ?thesis using next_id by (intro keep) auto
  next
    case (PhoneLeaves p)
    then show ?thesis using st leaves_claims [OF b64, of p w w' ys] proxy_okD(3) [OF ok, of p]
      by (intro keep) (auto simp: proxy_step_def split: if_splits)
  next
    case (PhoneTakes p b)
    let ?w = "update_phone p (\<lambda>ph. ph\<lparr>ph_inbox := tl (ph_inbox ph)\<rparr>) w"
    from PhoneTakes st have p: "p < length (fw_phones w)" and out: "(w', ys) = (if b then (?w, []) else phone_leaves L p ?w)"
      by (auto simp: proxy_step_def Let_def split: if_splits)
    have "distinct (map fst (ph_routes (fw_phones ?w ! p)))" using proxy_okD(3) [OF ok p] p by (simp add: phone_nth)
    with out p leaves_claims [OF b64, of p ?w w' ys] show ?thesis by (intro keep) (auto split: if_splits)
  next
    case (MailboxFrame u f)
    have "(i, p, s) \<in> held_by w" if "entry w u i p s" for i p s using proxy_okD(1) [OF ok that] by (auto simp: held_by_def)
    then show ?thesis using st MailboxFrame
      by (intro keep) (auto simp: proxy_step_def mailbox_frame_def shown_def entry_def split: if_splits option.splits bind_splits)
  next
    case (Lost u)
    then have w': "w' = upstream_lost u w" and ys: "ys = []" using st by (simp_all add: proxy_step_def split: if_splits)
    have "held_by w' = held_by w" by (rule held_by_same) (simp_all add: w' upstream_lost_def)
    then show ?thesis by (intro keep) (simp_all add: ys, simp add: w' upstream_lost_def)
  next
    case (Pump u)
    then show ?thesis using st by (intro keep) (auto simp: proxy_step_def split: if_splits)
  next
    case (Connect u)
    then show ?thesis using st by (intro keep) (auto simp: proxy_step_def split: if_splits)
  qed
qed

lemma numbered_run:
  assumes b64: "\<And>bs. fl_b64 L (fl_b64_encode L bs) = Some bs"
  shows "proxy_ok w \<Longrightarrow> numbered L w xs \<Longrightarrow> unat (fr_next_id (fw_front w)) + length es < 2 ^ 64 \<Longrightarrow> proxy_run L w es = Some (w', ys) \<Longrightarrow>
    proxy_ok w' \<and> numbered L w' (xs @ ys)"
proof (induction es arbitrary: w xs ys)
  case (Cons e es)
  obtain w1 us vs where st: "proxy_step L w e = Some (w1, us)" and run: "proxy_run L w1 es = Some (w', vs)" "ys = us @ vs"
    using Cons.prems(4) by (auto split: option.splits)
  have "unat (- 1 :: u64) = 2 ^ 64 - 1" by (simp add: unsigned_minus_1_eq_mask mask_eq_exp_minus_1)
  then have "fr_next_id (fw_front w) \<noteq> - 1" using Cons.prems(3) by auto
  from numbered_step [OF b64 Cons.prems(1,2) this st] have "numbered L w1 (xs @ us)"
    "unat (fr_next_id (fw_front w1)) \<le> Suc (unat (fr_next_id (fw_front w)))" by simp_all
  with Cons.IH [OF proxy_step_ok [OF Cons.prems(1) st] _ _ run(1), of "xs @ us"] Cons.prems(3) show ?case by (simp add: run(2))
qed simp

text \<open>Every frame goes up under the label of a number.\<close>

definition labelled :: "front_lib \<Rightarrow> proxy_effect list \<Rightarrow> bool" where
  "labelled L xs \<longleftrightarrow> (\<forall>u f p s. Up u f p s \<in> set xs \<longrightarrow> (\<exists>i. ff_s f = upstream_label L i))"

lemma labelled_leaves: "labelled L (snd (phone_leaves L p w))"
  by (auto simp: labelled_def phone_leaves_def Let_def close_frame_def)

lemma labelled_frame: "labelled L (snd (phone_frame L p f w))"
  using labelled_leaves
  by (auto simp: phone_frame_def Let_def split: option.splits prod.splits) (auto simp: labelled_def close_frame_def forwarded_def)

lemma labelled_step: "proxy_step L w e = Some (w', ys) \<Longrightarrow> labelled L ys"
proof (cases e)
  case (PhoneFrame p f)
  then show "proxy_step L w e = Some (w', ys) \<Longrightarrow> ?thesis" using labelled_frame [of L p f w] by (simp add: proxy_step_def split: if_splits)
next
  case (PhoneLeaves p)
  then show "proxy_step L w e = Some (w', ys) \<Longrightarrow> ?thesis" using labelled_leaves [of L p w] by (simp add: proxy_step_def split: if_splits)
next
  case (PhoneTakes p b)
  then show "proxy_step L w e = Some (w', ys) \<Longrightarrow> ?thesis"
    using labelled_leaves [of L p "update_phone p (\<lambda>ph. ph\<lparr>ph_inbox := tl (ph_inbox ph)\<rparr>) w"]
    by (auto simp: proxy_step_def Let_def labelled_def split: if_splits)
qed (auto simp: proxy_step_def labelled_def place_session_def mailbox_frame_def forwarded_def split: if_splits option.splits phone_phase.splits)

lemma labelled_run: "proxy_run L w es = Some (w', ys) \<Longrightarrow> labelled L ys"
proof (induction es arbitrary: w ys)
  case (Cons e es)
  then obtain w1 us vs where "proxy_step L w e = Some (w1, us)" "proxy_run L w1 es = Some (w', vs)" "ys = us @ vs"
    by (auto split: option.splits)
  with Cons.IH labelled_step show ?case by (fastforce simp: labelled_def)
qed (simp add: labelled_def)

lemma proxy_start_numbered: "numbered L (proxy_start pool) []"
  by (auto simp: numbered_def one_owner_def held_by_def holds_def placing_def proxy_start_def)

section \<open>Properties\<close>

text \<open>C21: phones never cross.  Whatever phones and mailbox do, in any order, with connections lost and found again: the frames sent to the
  mailbox under one label are all of one session of one phone, and a reply under that label goes to that phone under the
  name it gave that session.  Two phones that choose the same name are kept apart, for as long as the counter lasts.\<close>

theorem phones_never_cross:
  assumes "\<And>bs. fl_b64 L (fl_b64_encode L bs) = Some bs" "proxy_run L (proxy_start pool) es = Some (w, xs)" "length es < 2 ^ 64 - 1"
    "Up u f p s \<in> set xs"
  shows "(Up u' f' p' s' \<in> set xs \<longrightarrow> ff_s f' = ff_s f \<longrightarrow> p' = p \<and> s' = s) \<and>
    (Down u' l p' s' \<in> set xs \<longrightarrow> upstream_id_of L l = upstream_id_of L (ff_s f) \<longrightarrow> p' = p \<and> s' = s)"
proof -
  have "unat (fr_next_id (fw_front (proxy_start pool))) = 1" by (simp add: proxy_start_def front_new_def)
  with numbered_run [OF assms(1) proxy_start_ok proxy_start_numbered _ assms(2)] assms(3)
  have "one_owner (shown L xs \<union> held_by w) (fr_next_id (fw_front w))" by (simp add: numbered_def)
  then have one: "x = y" if "(i, x) \<in> shown L xs" "(i, y) \<in> shown L xs" for i x y
    using that unfolding one_owner_def by blast
  obtain i where i: "ff_s f = upstream_label L i" using labelled_run [OF assms(2)] assms(4) unfolding labelled_def by blast
  then have mine: "(i, p, s) \<in> shown L xs" using assms(4) by (auto simp: shown_def)
  have "(i, p', s') \<in> shown L xs" if "Up u' f' p' s' \<in> set xs" "ff_s f' = ff_s f" using that i by (auto simp: shown_def)
  moreover have "(i, p', s') \<in> shown L xs" if "Down u' l p' s' \<in> set xs" "upstream_id_of L l = upstream_id_of L (ff_s f)"
    using that i label_inj(2) [OF assms(1)] by (auto simp: shown_def)
  ultimately show ?thesis using one [OF mine] by blast
qed

definition toy_hi :: "bytes \<Rightarrow> front_frame" where
  "toy_hi s = \<lparr> ff_s = s, ff_hello = Some [7], ff_b = None, ff_close = False \<rparr>"

lemma phones_never_cross_witness:
  "\<exists>w xs f g. proxy_run toy_front (proxy_start 1)
      [Connect 0, PhoneJoins, PhoneJoins, PhoneFrame 0 (toy_hi [1]), PhoneFrame 1 (toy_hi [1]), Place 1, Place 0,
       MailboxFrame 0 \<lparr> ff_s = u64_be 1, ff_hello = None, ff_b = Some [9], ff_close = False \<rparr>] = Some (w, xs) \<and>
    Up 0 f 0 [1] \<in> set xs \<and> Up 0 g 1 [1] \<in> set xs \<and> ff_s f \<noteq> ff_s g \<and> Down 0 (u64_be 1) 0 [1] \<in> set xs"
proof -
  let ?es = "[Connect 0, PhoneJoins, PhoneJoins, PhoneFrame 0 (toy_hi [1]), PhoneFrame 1 (toy_hi [1]), Place 1, Place 0,
       MailboxFrame 0 \<lparr> ff_s = u64_be 1, ff_hello = None, ff_b = Some [9], ff_close = False \<rparr>]"
  have "\<exists>w. proxy_run toy_front (proxy_start 1) ?es =
      Some (w, [Up 0 (forwarded toy_front 2 (toy_hi [1])) 1 [1], Up 0 (forwarded toy_front 1 (toy_hi [1])) 0 [1], Down 0 (u64_be 1) 0 [1]])"
    by (simp add: proxy_step_def proxy_start_def front_new_def has_mailbox_def update_upstream_def update_phone_def phone_frame_def
      toy_hi_def pick_upstream_def fresh_id_def place_session_def send_up_def mailbox_frame_def upstream_id_of_def toy_front_def)
  then obtain w where run: "proxy_run toy_front (proxy_start 1) ?es =
      Some (w, [Up 0 (forwarded toy_front 2 (toy_hi [1])) 1 [1], Up 0 (forwarded toy_front 1 (toy_hi [1])) 0 [1], Down 0 (u64_be 1) 0 [1]])" ..
  have "fl_b64 toy_front (fl_b64_encode toy_front bs) = Some bs" for bs by (simp add: toy_front_def)
  from phones_never_cross [OF this run, of 0 "forwarded toy_front 2 (toy_hi [1])" 1 "[1]" 0 "forwarded toy_front 1 (toy_hi [1])" 0 "[1]"]
  have "ff_s (forwarded toy_front 1 (toy_hi [1])) \<noteq> ff_s (forwarded toy_front 2 (toy_hi [1]))" by simp
  with run show ?thesis
    by (intro exI [of _ w] exI [of _ "[Up 0 (forwarded toy_front 2 (toy_hi [1])) 1 [1], Up 0 (forwarded toy_front 1 (toy_hi [1])) 0 [1], Down 0 (u64_be 1) 0 [1]]"]
      exI [of _ "forwarded toy_front 1 (toy_hi [1])"] exI [of _ "forwarded toy_front 2 (toy_hi [1])"]) (simp del: proxy_run.simps)
qed

text \<open>A phone that is gone is forgotten: in no reachable state is a session of it registered with a slot, so no reply finds it.\<close>

theorem gone_phones_are_forgotten:
  assumes "proxy_run L (proxy_start pool) es = Some (w, xs)" "p < length (fw_phones w)" "ph_phase (fw_phones w ! p) = PhoneGone"
  shows "\<not> entry w u i p s"
proof
  have "proxy_run L v es = Some (w, xs) \<Longrightarrow> proxy_ok v \<Longrightarrow> proxy_ok w" for v
  proof (induction es arbitrary: v xs)
    case (Cons e es)
    then show ?case using proxy_step_ok by (fastforce split: option.splits)
  qed simp
  with assms(1) have ok: "proxy_ok w" using proxy_start_ok by blast
  assume "entry w u i p s"
  from proxy_okD(1) [OF ok this] proxy_okD(2) [OF ok assms(2,3)] show False by (simp add: holds_def)
qed

lemma gone_phones_are_forgotten_witness:
  "\<exists>w xs. proxy_run toy_front (proxy_start 1) [Connect 0, PhoneJoins, PhoneFrame 0 (toy_hi [1]), Place 0, PhoneLeaves 0] = Some (w, xs) \<and>
    \<not> entry w 0 1 0 [1]"
proof -
  have "\<exists>w xs. proxy_run toy_front (proxy_start 1) [Connect 0, PhoneJoins, PhoneFrame 0 (toy_hi [1]), Place 0, PhoneLeaves 0] = Some (w, xs) \<and>
      0 < length (fw_phones w) \<and> ph_phase (fw_phones w ! 0) = PhoneGone"
    by (simp add: proxy_step_def proxy_start_def front_new_def has_mailbox_def update_upstream_def update_phone_def phone_frame_def
      toy_hi_def pick_upstream_def fresh_id_def place_session_def send_up_def phone_leaves_def close_route_def deregister_def)
  then show ?thesis using gone_phones_are_forgotten by blast
qed

text \<open>A session can be placed on a dead slot.  The slot is chosen while it is up and the session registered after it was lost: its hello
  is thrown away when the slot connects again, and the phone, whose other sessions are told to start over, keeps a session
  that the mailbox has never heard of.\<close>

theorem session_on_a_dead_slot:
  assumes "placing w p f u i" "u < length (fr_upstreams (fw_front w))" "up_alive (fr_upstreams (fw_front w) ! u)"
    "\<forall>slot\<in>snd ` set (up_routes (fr_upstreams (fw_front w) ! u)). ps_phone slot \<noteq> p"
  shows "\<exists>w'. proxy_run L w [Lost u, Place p, Connect u] = Some (w', [Up u (forwarded L i f) p (ff_s f)]) \<and>
    holds w' p (ff_s f) u i \<and> up_alive (fr_upstreams (fw_front w') ! u) \<and> up_out (fr_upstreams (fw_front w') ! u) = [] \<and>
    ph_inbox (fw_phones w' ! p) = ph_inbox (fw_phones w ! p)"
proof -
  let ?w1 = "upstream_lost u w" and ?w2 = "fst (place_session L p f u i (upstream_lost u w))"
  let ?w3 = "update_upstream u (\<lambda>up. up\<lparr>up_out := [], up_alive := True\<rparr>) ?w2"
  have p: "p < length (fw_phones w)" "ph_phase (fw_phones w ! p) = Placing f u i" using assms(1) by (simp_all add: placing_def)
  have quiet: "ph_inbox (fw_phones (fold (\<lambda>slot. tell_phone PhoneClose (ps_phone slot)) xs v) ! p) = ph_inbox (fw_phones v ! p)"
    if "\<forall>slot\<in>set xs. ps_phone slot \<noteq> p" "p < length (fw_phones v)" for xs v
    using that by (induction xs arbitrary: v) (auto simp: tell_phone_def phone_nth)
  have 1: "fr_upstreams (fw_front ?w1) = (fr_upstreams (fw_front w))[u := (fr_upstreams (fw_front w) ! u)\<lparr>up_alive := False, up_routes := []\<rparr>]"
    "length (fw_phones ?w1) = length (fw_phones w)" "ph_phase (fw_phones ?w1 ! p) = Placing f u i"
    "ph_inbox (fw_phones ?w1 ! p) = ph_inbox (fw_phones w ! p)" "placing ?w1 p f u i"
    using quiet [of "map snd (up_routes (fr_upstreams (fw_front w) ! u))" "update_upstream u (\<lambda>up. up\<lparr>up_alive := False, up_routes := []\<rparr>) w"]
      p assms(1,4) by (auto simp: upstream_lost_def update_upstream_def)
  have 2: "holds ?w2 p (ff_s f) u i" "ph_inbox (fw_phones ?w2 ! p) = ph_inbox (fw_phones w ! p)" "\<not> up_alive (fr_upstreams (fw_front ?w2) ! u)"
    "u < length (fr_upstreams (fw_front ?w2))"
    using p 1 assms(2) by (simp_all add: place_session_def holds_update_phone update_conv' phone_nth send_up_def upstream_nth)
  have "proxy_run L w [Lost u, Place p, Connect u] = Some (?w3, [Up u (forwarded L i f) p (ff_s f)])"
    using p 1 2 assms(2,3) by (simp add: proxy_step_def) (simp add: place_session_def)
  then show ?thesis using 2 by (intro exI [of _ ?w3]) (simp add: upstream_nth)
qed

lemma session_on_a_dead_slot_witness:
  "\<exists>w w'. proxy_run toy_front (proxy_start 1) [Connect 0, PhoneJoins, PhoneFrame 0 (toy_hi [1])] = Some (w, []) \<and>
     proxy_run toy_front w [Lost 0, Place 0, Connect 0] = Some (w', [Up 0 (forwarded toy_front 1 (toy_hi [1])) 0 [1]]) \<and>
     holds w' 0 [1] 0 1 \<and> up_out (fr_upstreams (fw_front w') ! 0) = []"
proof -
  have "\<exists>w. proxy_run toy_front (proxy_start 1) [Connect 0, PhoneJoins, PhoneFrame 0 (toy_hi [1])] = Some (w, []) \<and>
      placing w 0 (toy_hi [1]) 0 1 \<and> 0 < length (fr_upstreams (fw_front w)) \<and> up_alive (fr_upstreams (fw_front w) ! 0) \<and>
      up_routes (fr_upstreams (fw_front w) ! 0) = []"
    by (simp add: proxy_step_def proxy_start_def front_new_def has_mailbox_def update_upstream_def update_phone_def phone_frame_def
      toy_hi_def pick_upstream_def fresh_id_def placing_def)
  then obtain w where w: "proxy_run toy_front (proxy_start 1) [Connect 0, PhoneJoins, PhoneFrame 0 (toy_hi [1])] = Some (w, [])"
    "placing w 0 (toy_hi [1]) 0 1" "0 < length (fr_upstreams (fw_front w))" "up_alive (fr_upstreams (fw_front w) ! 0)"
    "up_routes (fr_upstreams (fw_front w) ! 0) = []" by blast
  from session_on_a_dead_slot [OF w(2-4), of toy_front] w show ?thesis by (auto simp: toy_hi_def simp del: proxy_run.simps)
qed

end
