(* ===== verification/Expiring_Slots.thy ===== *)
theory Expiring_Slots
  imports Rotelyx_Prelude "HOL-Library.AList"
begin

text \<open>
  What the mailbox store and the wake tickets share: a hash map from tags to lists of dated entries,
  modelled as an association list with distinct keys, and the contract of a store whose entries
  expire.  Times are \<^verbatim>\<open>u64\<close> seconds that are only ever subtracted with saturation, so they are
  natural numbers here, whose subtraction stops at zero in the same way.
\<close>

section \<open>Keyed lists\<close>

text \<open>\<^verbatim>\<open>map.get(&k)\<close> with the empty list for a missing key, and \<^verbatim>\<open>map.retain\<close> over the slots.\<close>

definition slot_of :: "('k \<times> 'v list) list \<Rightarrow> 'k \<Rightarrow> 'v list" where
  "slot_of m k = (case map_of m k of None \<Rightarrow> [] | Some s \<Rightarrow> s)"

definition retain_slots :: "('v \<Rightarrow> bool) \<Rightarrow> ('k \<times> 'v list) list \<Rightarrow> ('k \<times> 'v list) list" where
  "retain_slots live m = filter (\<lambda>(k, s). s \<noteq> []) (map (\<lambda>(k, s). (k, filter live s)) m)"

definition keys_distinct :: "('k \<times> 'v) list \<Rightarrow> bool" where
  "keys_distinct m \<longleftrightarrow> distinct (map fst m)"

lemma slot_of_update [simp]: "slot_of (AList.update k s m) k' = (if k' = k then s else slot_of m k')"
  by (simp add: slot_of_def update_conv')

lemma slot_of_delete [simp]: "slot_of (AList.delete k m) k' = (if k' = k then [] else slot_of m k')"
  by (simp add: slot_of_def delete_conv')

lemma keys_distinct_update [simp]: "keys_distinct m \<Longrightarrow> keys_distinct (AList.update k s m)"
  by (simp add: keys_distinct_def distinct_update)

lemma keys_distinct_delete [simp]: "keys_distinct m \<Longrightarrow> keys_distinct (AList.delete k m)"
  by (simp add: keys_distinct_def distinct_delete)

lemma map_of_retain_slots:
  "keys_distinct m \<Longrightarrow> map_of (retain_slots live m) k =
    (case map_of m k of None \<Rightarrow> None | Some s \<Rightarrow> if filter live s = [] then None else Some (filter live s))"
proof (induction m)
  case Nil
  then show ?case by (simp add: retain_slots_def)
next
  case (Cons p m)
  obtain k' s where p: "p = (k', s)" by (cases p)
  from Cons.prems have d: "keys_distinct m" and n: "k' \<notin> fst ` set m"
    by (auto simp: keys_distinct_def p)
  from n have none: "map_of m k' = None" by (simp add: map_of_eq_None_iff)
  have "map_of (retain_slots live (p # m)) k =
      (if filter live s \<noteq> [] \<and> k = k' then Some (filter live s) else map_of (retain_slots live m) k)"
    by (simp add: retain_slots_def p)
  then show ?case using Cons.IH [OF d] p none by (cases "k = k'") auto
qed

lemma slot_of_retain_slots: "keys_distinct m \<Longrightarrow> slot_of (retain_slots live m) k = filter live (slot_of m k)"
  by (auto simp: slot_of_def map_of_retain_slots split: option.splits)

lemma keys_distinct_retain_slots: "keys_distinct m \<Longrightarrow> keys_distinct (retain_slots live m)"
  by (induction m) (auto simp: retain_slots_def keys_distinct_def intro: rev_image_eqI)

lemma filter_filter_weaker: "(\<And>x. q x \<Longrightarrow> p x) \<Longrightarrow> filter q (filter p xs) = filter q xs"
  by (induction xs) auto

section \<open>The contract of a store whose entries expire\<close>

text \<open>
  \<open>live m k now\<close> is what can be read under \<open>k\<close> at \<open>now\<close>; \<open>leave\<close> adds an entry and \<open>sweep\<close> drops what
  has expired.  Sweeping is invisible from then on, and adding under one key does not touch another.
\<close>

locale expiring_store =
  fixes inv :: "'m \<Rightarrow> bool"
    and live :: "'m \<Rightarrow> 'k \<Rightarrow> nat \<Rightarrow> 'v list"
    and leave :: "'m \<Rightarrow> 'k \<Rightarrow> 'e \<Rightarrow> nat \<Rightarrow> 'm"
    and sweep :: "'m \<Rightarrow> nat \<Rightarrow> 'm"
  assumes inv_leave: "inv m \<Longrightarrow> inv (leave m k v now)"
    and inv_sweep: "inv m \<Longrightarrow> inv (sweep m now)"
    and live_sweep: "inv m \<Longrightarrow> now \<le> later \<Longrightarrow> live (sweep m now) k later = live m k later"
    and live_leave_other: "inv m \<Longrightarrow> k' \<noteq> k \<Longrightarrow> live (leave m k v now) k' later = live m k' later"
begin

text \<open>Sweeps may run at any time, as often as the timer fires: a reader cannot tell.\<close>

lemma inv_sweeps: "inv m \<Longrightarrow> inv (fold (\<lambda>t m. sweep m t) ts m)"
  by (induction ts arbitrary: m) (auto intro: inv_sweep)

lemma live_sweeps:
  "inv m \<Longrightarrow> \<forall>t\<in>set ts. t \<le> later \<Longrightarrow> live (fold (\<lambda>t m. sweep m t) ts m) k later = live m k later"
  by (induction ts arbitrary: m) (auto simp: live_sweep inv_sweep)

text \<open>Traffic under other keys, with sweeps in between, leaves a key alone.\<close>

lemma live_other_traffic:
  assumes "inv m" "\<forall>(k', v, t)\<in>set xs. k' \<noteq> k \<and> t \<le> later"
  shows "live (fold (\<lambda>(k', v, t) m. sweep (leave m k' v t) t) xs m) k later = live m k later"
  using assms
proof (induction xs arbitrary: m)
  case Nil
  then show ?case by simp
next
  case (Cons x xs)
  obtain k' v t where x: "x = (k', v, t)" by (cases x)
  with Cons.prems have "k' \<noteq> k" "t \<le> later" and rest: "\<forall>(k', v, t)\<in>set xs. k' \<noteq> k \<and> t \<le> later" by auto
  then have "live (sweep (leave m k' v t) t) k later = live m k later"
    using Cons.prems(1) by (simp add: live_sweep live_leave_other inv_leave)
  then show ?case using Cons.IH [OF inv_sweep [OF inv_leave [OF Cons.prems(1)]] rest] x by simp
qed

end

end
