(* ===== verification/Mailbox_Store.thy ===== *)
theory Mailbox_Store
  imports Expiring_Slots Envelopes
begin

text \<open>
  The blind mailbox, \<^verbatim>\<open>crates/rotelyx-mailbox/src/store.rs\<close>: deposits under explicit retention,
  delivery without removal, removal on acknowledgement, destructive collection, the sweep, and the
  snapshot an operator writes down.  The serialisation of a slot (\<^verbatim>\<open>postcard\<close>) and the digest are
  parameters.  A panic of the code is \<^term>\<open>None\<close>.
\<close>

section \<open>State\<close>

definition MAX_PER_TAG :: nat where "MAX_PER_TAG = 256"
definition DEFAULT_TTL_SECONDS :: nat where "DEFAULT_TTL_SECONDS = 7 * 24 * 3600"

datatype store_error = TagFull

record stored =
  st_envelope :: envelope
  deposited_at :: nat
  st_ttl_seconds :: nat

record mailbox =
  slots :: "(tag \<times> stored list) list"
  mb_ttl_seconds :: nat

definition mailbox_new :: "nat \<Rightarrow> mailbox" where
  "mailbox_new ttl = \<lparr> slots = [], mb_ttl_seconds = ttl \<rparr>"

definition with_default_ttl :: mailbox where
  "with_default_ttl = mailbox_new DEFAULT_TTL_SECONDS"

definition expired :: "stored \<Rightarrow> nat \<Rightarrow> nat \<Rightarrow> bool" where
  "expired s now ttl \<longleftrightarrow> ttl \<le> now - deposited_at s"

abbreviation gone :: "nat \<Rightarrow> stored \<Rightarrow> bool" where
  "gone now s \<equiv> expired s now (st_ttl_seconds s)"

definition is_expired :: "stored \<Rightarrow> nat \<Rightarrow> bool" where
  "is_expired s now = expired s now (st_ttl_seconds s)"

section \<open>Operations\<close>

text \<open>\<^verbatim>\<open>Vec::remove\<close>: the list without its \<open>i\<close>-th element, a panic when there is none.\<close>

definition vec_remove :: "nat \<Rightarrow> 'a list \<Rightarrow> 'a list option" where
  "vec_remove i xs = (if i < length xs then Some (take i xs @ drop (Suc i) xs) else None)"

text \<open>What a deposit does to its slot.\<close>

definition deposit_slot :: "stored list \<Rightarrow> stored \<Rightarrow> nat \<Rightarrow> nat \<Rightarrow> stored list option" where
  "deposit_slot slot s now max_per_tag =
     (let ceiling = min max_per_tag MAX_PER_TAG;
          live = length (filter (\<lambda>s. \<not> gone now s) slot)
      in if ceiling \<le> live then
           (case index_where (gone now) slot of
              Some dead \<Rightarrow> map_option (\<lambda>slot. slot @ [s]) (vec_remove dead slot)
            | None \<Rightarrow> map_option (\<lambda>slot. slot @ [s]) (vec_remove 0 slot))
         else Some (slot @ [s]))"

definition deposit_with ::
  "mailbox \<Rightarrow> envelope \<Rightarrow> nat \<Rightarrow> nat \<Rightarrow> nat \<Rightarrow> (mailbox \<times> (store_error, unit) result) option" where
  "deposit_with m e now ttl max_per_tag =
     map_option
       (\<lambda>slot. (m\<lparr>slots := AList.update (e_tag e) slot (slots m)\<rparr>, Inr ()))
       (deposit_slot (slot_of (slots m) (e_tag e))
          \<lparr> st_envelope = e, deposited_at = now, st_ttl_seconds = ttl \<rparr> now max_per_tag)"

definition deposit :: "mailbox \<Rightarrow> envelope \<Rightarrow> nat \<Rightarrow> (mailbox \<times> (store_error, unit) result) option" where
  "deposit m e now = deposit_with m e now (mb_ttl_seconds m) MAX_PER_TAG"

definition pending :: "mailbox \<Rightarrow> tag \<Rightarrow> nat \<Rightarrow> nat" where
  "pending m tag now = length (filter (\<lambda>s. \<not> gone now s) (slot_of (slots m) tag))"

definition collect :: "mailbox \<Rightarrow> tag \<Rightarrow> nat \<Rightarrow> mailbox \<times> envelope list" where
  "collect m tag now =
     (m\<lparr>slots := AList.delete tag (slots m)\<rparr>,
      map st_envelope (filter (\<lambda>s. \<not> is_expired s now) (slot_of (slots m) tag)))"

fun collect_many :: "mailbox \<Rightarrow> tag list \<Rightarrow> nat \<Rightarrow> mailbox \<times> envelope list" where
  "collect_many m [] now = (m, [])"
| "collect_many m (t # ts) now =
     (case collect m t now of (m', es) \<Rightarrow>
      case collect_many m' ts now of (m'', es') \<Rightarrow> (m'', es @ es'))"

definition peek_many :: "mailbox \<Rightarrow> tag list \<Rightarrow> nat \<Rightarrow> envelope list" where
  "peek_many m tags now =
     concat (map (\<lambda>slot. map st_envelope (filter (\<lambda>s. \<not> is_expired s now) slot))
       (List.map_filter (map_of (slots m)) tags))"

fun remove_acknowledged :: "kdf \<Rightarrow> mailbox \<Rightarrow> tag list \<Rightarrow> bytes \<Rightarrow> mailbox \<times> bool" where
  "remove_acknowledged kdf m [] d = (m, False)"
| "remove_acknowledged kdf m (t # ts) d =
     (case map_of (slots m) t of
        None \<Rightarrow> remove_acknowledged kdf m ts d
      | Some slot \<Rightarrow>
          let slot' = filter (\<lambda>s. digest kdf (st_envelope s) \<noteq> d) slot
          in if length slot' \<noteq> length slot then
               (if slot' = [] then m\<lparr>slots := AList.delete t (slots m)\<rparr>
                else m\<lparr>slots := AList.update t slot' (slots m)\<rparr>, True)
             else remove_acknowledged kdf m ts d)"

definition sweep :: "mailbox \<Rightarrow> nat \<Rightarrow> mailbox" where
  "sweep m now = m\<lparr>slots := retain_slots (\<lambda>s. \<not> gone now s) (slots m)\<rparr>"

definition sweep_removed :: "mailbox \<Rightarrow> nat \<Rightarrow> nat" where
  "sweep_removed m now =
     sum_list (map (\<lambda>(t, slot). length slot - length (filter (\<lambda>s. \<not> gone now s) slot)) (slots m))"

definition mailbox_len :: "mailbox \<Rightarrow> nat" where
  "mailbox_len m = sum_list (map (length \<circ> snd) (slots m))"

definition mailbox_is_empty :: "mailbox \<Rightarrow> bool" where
  "mailbox_is_empty m \<longleftrightarrow> mailbox_len m = 0"

definition snapshot :: "(stored list \<Rightarrow> bytes option) \<Rightarrow> mailbox \<Rightarrow> (tag \<times> bytes) list" where
  "snapshot ser m = List.map_filter (\<lambda>(t, slot). map_option (Pair t) (ser slot)) (slots m)"

fun restore_into ::
  "(bytes \<Rightarrow> stored list option) \<Rightarrow> mailbox \<Rightarrow> (tag \<times> bytes) list \<Rightarrow> nat \<Rightarrow> mailbox" where
  "restore_into de m [] now = m"
| "restore_into de m ((t, bs) # entries) now =
     (case de bs of
        None \<Rightarrow> restore_into de m entries now
      | Some slot \<Rightarrow>
          let live = filter (\<lambda>s. \<not> gone now s) slot
          in restore_into de (if live \<noteq> [] then m\<lparr>slots := AList.update t live (slots m)\<rparr> else m) entries now)"

definition restore :: "(bytes \<Rightarrow> stored list option) \<Rightarrow> nat \<Rightarrow> (tag \<times> bytes) list \<Rightarrow> nat \<Rightarrow> mailbox" where
  "restore de ttl entries now = restore_into de (mailbox_new ttl) entries now"

section \<open>One deposit\<close>

lemma vec_remove_Some:
  assumes "vec_remove i xs = Some ys"
  obtains a x b where "xs = a @ x # b" "ys = a @ b" "length a = i" "x = xs ! i"
  using assms id_take_nth_drop [of i xs] by (auto simp: vec_remove_def split: if_splits)

lemma gone_mono: "gone now s \<Longrightarrow> now \<le> later \<Longrightarrow> gone later s"
  by (simp add: expired_def)

text \<open>A deposit panics exactly when the slot is empty and the depositor's own limit is zero.\<close>

lemma vec_remove_None: "vec_remove i xs = None \<longleftrightarrow> length xs \<le> i"
  by (auto simp: vec_remove_def)

lemma deposit_slot_None: "deposit_slot slot s now cap = None \<longleftrightarrow> slot = [] \<and> cap = 0"
proof (cases "index_where (gone now) slot")
  case None
  then show ?thesis
    by (cases slot) (auto simp: deposit_slot_def Let_def MAX_PER_TAG_def vec_remove_def)
next
  case (Some i)
  then show ?thesis
    using position_Some_less [OF Some] position_Some_nth [OF Some] by (cases slot) (auto simp: deposit_slot_def Let_def vec_remove_def)
qed

text \<open>The shapes a slot can take: grown by one, or with one entry dropped to make room.\<close>

lemma deposit_slot_cases:
  assumes "deposit_slot slot s now cap = Some slot'"
  obtains (room) "length (filter (\<lambda>s. \<not> gone now s) slot) < min cap MAX_PER_TAG" "slot' = slot @ [s]"
  | (dead) a x b where "min cap MAX_PER_TAG \<le> length (filter (\<lambda>s. \<not> gone now s) slot)"
      "slot = a @ x # b" "gone now x" "slot' = a @ b @ [s]"
  | (oldest) x b where "min cap MAX_PER_TAG \<le> length (filter (\<lambda>s. \<not> gone now s) slot)"
      "slot = x # b" "\<forall>y\<in>set slot. \<not> gone now y" "slot' = b @ [s]"
proof (cases "min cap MAX_PER_TAG \<le> length (filter (\<lambda>s. \<not> gone now s) slot)")
  case False
  moreover from this have "slot' = slot @ [s]" using assms by (simp add: deposit_slot_def Let_def)
  ultimately show ?thesis using room by linarith
next
  case full: True
  show ?thesis
  proof (cases "index_where (gone now) slot")
    case None
    then obtain ys where "vec_remove 0 slot = Some ys" "slot' = ys @ [s]"
      using assms full by (auto simp: deposit_slot_def Let_def)
    then show ?thesis using oldest full None by (auto simp: position_None_iff elim!: vec_remove_Some)
  next
    case (Some i)
    then obtain ys where ys: "vec_remove i slot = Some ys" "slot' = ys @ [s]"
      using assms full by (auto simp: deposit_slot_def Let_def)
    then show ?thesis using dead full position_Some_less [OF Some] position_Some_nth [OF Some] by (auto elim!: vec_remove_Some)
  qed
qed

lemma deposit_slot_last: "deposit_slot slot s now cap = Some slot' \<Longrightarrow> s \<in> set slot'"
  by (erule deposit_slot_cases) auto

lemma deposit_with_Some:
  assumes "deposit_with m e now ttl cap = Some (m', res)"
  obtains slot where
    "deposit_slot (slot_of (slots m) (e_tag e)) \<lparr>st_envelope = e, deposited_at = now, st_ttl_seconds = ttl\<rparr> now cap = Some slot"
    "m' = m\<lparr>slots := AList.update (e_tag e) slot (slots m)\<rparr>" "res = Inr ()"
  using assms by (auto simp: deposit_with_def)

lemma deposit_with_other:
  "deposit_with m e now ttl cap = Some (m', res) \<Longrightarrow> t \<noteq> e_tag e \<Longrightarrow> slot_of (slots m') t = slot_of (slots m) t"
  by (auto elim!: deposit_with_Some)

section \<open>A held envelope stays until it is acknowledged, expired or evicted\<close>

text \<open>The entry is in the slot, with at most \<open>n\<close> younger ones behind it.\<close>

definition held :: "nat \<Rightarrow> stored \<Rightarrow> stored list \<Rightarrow> bool" where
  "held n s slot \<longleftrightarrow> (\<exists>pre post. slot = pre @ s # post \<and> length post \<le> n)"

lemma heldI: "slot = pre @ s # post \<Longrightarrow> length post \<le> n \<Longrightarrow> held n s slot"
  unfolding held_def by blast

lemma heldE:
  assumes "held n s slot"
  obtains pre post where "slot = pre @ s # post" "length post \<le> n"
  using assms unfolding held_def by blast

lemma held_mem: "held n s slot \<Longrightarrow> s \<in> set slot"
  by (auto elim: heldE)

lemma held_mono: "held n s slot \<Longrightarrow> n \<le> k \<Longrightarrow> held k s slot"
  by (auto elim!: heldE intro!: heldI)

lemma held_filter: "held n s slot \<Longrightarrow> p s \<Longrightarrow> held n s (filter p slot)"
  by (elim heldE, rule_tac pre = "filter p pre" and post = "filter p post" in heldI)
    (auto intro: le_trans [OF length_filter_le])

lemma held_drop:
  assumes "held n s (a @ x # b)" "s \<noteq> x \<or> s \<in> set b"
  shows "held n s (a @ b)"
proof -
  from assms(1) obtain pre post where eq: "a @ x # b = pre @ s # post" and n: "length post \<le> n"
    by (auto simp: held_def)
  then consider us where "a = pre @ s # us" "post = us @ x # b" | "a = pre" "x = s" "b = post"
    | us where "pre = a @ x # us" "b = us @ s # post"
    by (auto simp: append_eq_append_conv2 append_eq_Cons_conv Cons_eq_append_conv)
  then show ?thesis
  proof cases
    case 1
    then have "a @ b = pre @ s # (us @ b)" "length (us @ b) \<le> n" using n by auto
    then show ?thesis unfolding held_def by blast
  next
    case 2
    then have "s \<in> set b" using assms(2) by simp
    then obtain c d where "b = c @ s # d" by (meson split_list)
    moreover from this have "length d \<le> n" using n 2 by simp
    ultimately have "a @ b = (a @ c) @ s # d" "length d \<le> n" by auto
    then show ?thesis unfolding held_def by blast
  next
    case 3
    then have "a @ b = (a @ us) @ s # post" by simp
    then show ?thesis using n unfolding held_def by blast
  qed
qed

lemma held_snoc: "held n s slot \<Longrightarrow> held (Suc n) s (slot @ [x])"
  by (elim heldE, rule heldI) auto

lemma held_deposit:
  assumes "held n s slot" "deposit_slot slot x now cap = Some slot'" "\<not> gone now s"
    and "Suc n < min cap MAX_PER_TAG"
  shows "held (Suc n) s slot'"
  using assms(2)
proof (cases rule: deposit_slot_cases)
  case room
  then show ?thesis using held_snoc assms(1) by simp
next
  case (dead a y b)
  have "held n s (a @ y # b)" "s \<noteq> y" using assms(1,3) dead(2,3) by auto
  then have "held n s (a @ b)" using held_drop by blast
  then show ?thesis using dead(4) held_snoc [of n s "a @ b" x] by simp
next
  case (oldest y b)
  have "s \<noteq> y \<or> s \<in> set b"
  proof (rule ccontr)
    assume "\<not> (s \<noteq> y \<or> s \<in> set b)"
    then have "s = y" "s \<notin> set b" by auto
    from assms(1) obtain pre post where "slot = pre @ s # post" "length post \<le> n" by (rule heldE)
    then have "length b \<le> n" using oldest(2) \<open>s = y\<close> \<open>s \<notin> set b\<close> by (cases pre) auto
    moreover have "filter (\<lambda>s. \<not> gone now s) slot = slot" using oldest(3) by simp
    ultimately show False using oldest(1,2) assms(4) by simp
  qed
  then have "held n s b" using held_drop [of n s "[]" y b] assms(1) oldest(2) by simp
  then show ?thesis using oldest(4) held_snoc by simp
qed

section \<open>Histories\<close>

text \<open>The operations a server performs on its mailbox, and a run of them; a panic ends it.\<close>

datatype mailbox_op =
    OpDeposit envelope nat nat nat
  | OpAck "tag list" bytes
  | OpCollect tag nat
  | OpSweep nat

fun mailbox_step :: "kdf \<Rightarrow> mailbox \<Rightarrow> mailbox_op \<Rightarrow> mailbox option" where
  "mailbox_step kdf m (OpDeposit e now ttl cap) = map_option fst (deposit_with m e now ttl cap)"
| "mailbox_step kdf m (OpAck tags d) = Some (fst (remove_acknowledged kdf m tags d))"
| "mailbox_step kdf m (OpCollect t now) = Some (fst (collect m t now))"
| "mailbox_step kdf m (OpSweep now) = Some (sweep m now)"

fun mailbox_run :: "kdf \<Rightarrow> mailbox \<Rightarrow> mailbox_op list \<Rightarrow> mailbox option" where
  "mailbox_run kdf m [] = Some m"
| "mailbox_run kdf m (x # xs) =
     (case mailbox_step kdf m x of None \<Rightarrow> None | Some m' \<Rightarrow> mailbox_run kdf m' xs)"

text \<open>An operation that may not end the life of an entry under a tag before a given time.\<close>

fun spares :: "kdf \<Rightarrow> tag \<Rightarrow> stored \<Rightarrow> nat \<Rightarrow> nat \<Rightarrow> mailbox_op \<Rightarrow> bool" where
  "spares kdf t s later limit (OpDeposit e now ttl cap) \<longleftrightarrow>
     0 < cap \<and> now \<le> later \<and> (e_tag e = t \<longrightarrow> limit \<le> min cap MAX_PER_TAG)"
| "spares kdf t s later limit (OpAck tags d) \<longleftrightarrow> digest kdf (st_envelope s) \<noteq> d"
| "spares kdf t s later limit (OpCollect t' now) \<longleftrightarrow> t' \<noteq> t"
| "spares kdf t s later limit (OpSweep now) \<longleftrightarrow> now \<le> later"

fun deposits_under :: "tag \<Rightarrow> mailbox_op list \<Rightarrow> nat" where
  "deposits_under t [] = 0"
| "deposits_under t (OpDeposit e now ttl cap # xs) = (if e_tag e = t then 1 else 0) + deposits_under t xs"
| "deposits_under t (_ # xs) = deposits_under t xs"

definition mb_inv :: "mailbox \<Rightarrow> bool" where
  "mb_inv m \<longleftrightarrow> keys_distinct (slots m)"

lemma remove_acknowledged_slot:
  "slot_of (slots (fst (remove_acknowledged kdf m tags d))) t \<in>
     {slot_of (slots m) t, filter (\<lambda>s. digest kdf (st_envelope s) \<noteq> d) (slot_of (slots m) t)}"
proof (induction tags)
  case Nil
  then show ?case by simp
next
  case (Cons u us)
  show ?case
  proof (cases "map_of (slots m) u")
    case None
    then show ?thesis using Cons.IH by simp
  next
    case (Some slot)
    then have "slot_of (slots m) u = slot" by (simp add: slot_of_def)
    then show ?thesis using Some Cons.IH by (auto simp: Let_def)
  qed
qed

lemma mb_inv_remove_acknowledged: "mb_inv m \<Longrightarrow> mb_inv (fst (remove_acknowledged kdf m tags d))"
  by (induction tags) (auto simp: mb_inv_def Let_def split: option.splits)

lemma mb_inv_step:
  assumes "mb_inv m" "mailbox_step kdf m x = Some m'"
  shows "mb_inv m'"
proof (cases x)
  case (OpDeposit e now ttl cap)
  then obtain slot where "m' = m\<lparr>slots := AList.update (e_tag e) slot (slots m)\<rparr>"
    using assms(2) by (auto simp: deposit_with_def)
  then show ?thesis using assms(1) by (simp add: mb_inv_def)
next
  case (OpAck tags d)
  then show ?thesis using assms mb_inv_remove_acknowledged by auto
next
  case (OpCollect t now)
  then show ?thesis using assms by (auto simp: mb_inv_def collect_def)
next
  case (OpSweep now)
  then show ?thesis using assms by (auto simp: mb_inv_def sweep_def keys_distinct_retain_slots)
qed

lemma slot_of_sweep: "mb_inv m \<Longrightarrow> slot_of (slots (sweep m now)) t = filter (\<lambda>s. \<not> gone now s) (slot_of (slots m) t)"
  by (simp add: sweep_def mb_inv_def slot_of_retain_slots)

lemma held_step:
  assumes inv: "mb_inv m" and h: "held n s (slot_of (slots m) t)"
    and ok: "spares kdf t s later limit x" and alive: "\<not> gone later s"
    and room: "n + deposits_under t [x] < limit"
    and run: "mailbox_step kdf m x = Some m'"
  shows "held (n + deposits_under t [x]) s (slot_of (slots m') t)"
proof (cases x)
  case (OpDeposit e now ttl cap)
  have "\<not> gone now s" using alive ok OpDeposit gone_mono by auto
  from run OpDeposit obtain res where "deposit_with m e now ttl cap = Some (m', res)"
    by auto
  then obtain slot where dep: "deposit_slot (slot_of (slots m) (e_tag e))
      \<lparr>st_envelope = e, deposited_at = now, st_ttl_seconds = ttl\<rparr> now cap = Some slot"
    and m': "m' = m\<lparr>slots := AList.update (e_tag e) slot (slots m)\<rparr>" by (rule deposit_with_Some)
  show ?thesis
  proof (cases "e_tag e = t")
    case True
    then have "Suc n < min cap MAX_PER_TAG" using ok OpDeposit room by auto
    then have "held (Suc n) s slot" using held_deposit [OF _ dep \<open>\<not> gone now s\<close>] h True by simp
    then show ?thesis using OpDeposit True m' by simp
  next
    case False
    then show ?thesis using OpDeposit m' h by simp
  qed
next
  case (OpAck tags d)
  then have "digest kdf (st_envelope s) \<noteq> d" using ok by simp
  then have "held n s (filter (\<lambda>s. digest kdf (st_envelope s) \<noteq> d) (slot_of (slots m) t))"
    using held_filter [OF h] by simp
  then show ?thesis using OpAck run h remove_acknowledged_slot [of kdf m tags d t] by auto
next
  case (OpCollect t' now)
  then show ?thesis using ok run h by (auto simp: collect_def)
next
  case (OpSweep now)
  then have "\<not> gone now s" using alive ok gone_mono by auto
  then show ?thesis using OpSweep run held_filter [OF h] slot_of_sweep [OF inv] by auto
qed

lemma deposits_under_Cons: "deposits_under t (x # xs) = deposits_under t [x] + deposits_under t xs"
  by (cases x) auto

lemma held_run:
  "mb_inv m \<Longrightarrow> held n s (slot_of (slots m) t) \<Longrightarrow> \<forall>x\<in>set xs. spares kdf t s later limit x \<Longrightarrow>
    \<not> gone later s \<Longrightarrow> n + deposits_under t xs < limit \<Longrightarrow> mailbox_run kdf m xs = Some m' \<Longrightarrow>
    held (n + deposits_under t xs) s (slot_of (slots m') t)"
proof (induction xs arbitrary: m n)
  case Nil
  then show ?case by simp
next
  case (Cons x xs)
  from Cons.prems(6) obtain m1 where s1: "mailbox_step kdf m x = Some m1" and rest: "mailbox_run kdf m1 xs = Some m'"
    by (auto split: option.splits)
  have h: "held (n + deposits_under t [x]) s (slot_of (slots m1) t)"
    using Cons.prems by (intro held_step [OF _ _ _ _ _ s1]) (auto simp: deposits_under_Cons [of t x xs])
  have "held ((n + deposits_under t [x]) + deposits_under t xs) s (slot_of (slots m') t)"
    using Cons.prems rest
    by (intro Cons.IH [OF mb_inv_step [OF Cons.prems(1) s1] h]) (auto simp: deposits_under_Cons [of t x xs])
  then show ?case by (simp add: deposits_under_Cons [of t x xs] add.assoc)
qed

lemma peek_many_slots:
  "peek_many m tags now = concat (map (\<lambda>t. map st_envelope (filter (\<lambda>s. \<not> gone now s) (slot_of (slots m) t))) tags)"
  by (induction tags) (auto simp: peek_many_def is_expired_def slot_of_def split: option.splits)

lemma peek_many_set:
  "set (peek_many m tags now) = {st_envelope s |s t. t \<in> set tags \<and> s \<in> set (slot_of (slots m) t) \<and> \<not> gone now s}"
  by (auto simp: peek_many_slots)

section \<open>The mailbox is an expiring store\<close>

text \<open>Reading one tag, and a deposit with the store's defaults under a given tag.\<close>

definition peek_tag :: "mailbox \<Rightarrow> tag \<Rightarrow> nat \<Rightarrow> envelope list" where
  "peek_tag m t now = peek_many m [t] now"

definition deposit_state :: "mailbox \<Rightarrow> tag \<Rightarrow> bytes \<Rightarrow> nat \<Rightarrow> mailbox" where
  "deposit_state m t payload now =
     (case deposit m \<lparr>e_tag = t, e_payload = payload\<rparr> now of None \<Rightarrow> m | Some (m', _) \<Rightarrow> m')"

lemma deposit_state_other: "t' \<noteq> t \<Longrightarrow> slot_of (slots (deposit_state m t p now)) t' = slot_of (slots m) t'"
  by (auto simp: deposit_state_def deposit_def deposit_with_other split: option.splits)

lemma mb_inv_deposit_state: "mb_inv m \<Longrightarrow> mb_inv (deposit_state m t p now)"
  by (auto simp: deposit_state_def deposit_def mb_inv_def elim!: deposit_with_Some split: option.splits)

interpretation mbx: expiring_store mb_inv peek_tag deposit_state sweep
proof unfold_locales
  fix m k v now later
  assume inv: "mb_inv m"
  show "mb_inv (deposit_state m k v now)" using inv by (rule mb_inv_deposit_state)
  show "mb_inv (sweep m now)" using inv mb_inv_step [of m _ "OpSweep now"] by simp
  show "peek_tag (sweep m now) k later = peek_tag m k later" if "now \<le> later"
  proof -
    have "filter (\<lambda>s. \<not> gone later s) (filter (\<lambda>s. \<not> gone now s) xs) = filter (\<lambda>s. \<not> gone later s) xs" for xs
      using that gone_mono by (intro filter_filter_weaker) blast
    then show ?thesis using inv by (simp add: peek_tag_def peek_many_slots slot_of_sweep del: filter_filter)
  qed
  show "peek_tag (deposit_state m k v now) k' later = peek_tag m k' later" if "k' \<noteq> k" for k'
    using that by (simp add: peek_tag_def peek_many_slots deposit_state_other)
qed

section \<open>Acknowledgement, accounting and restart\<close>

lemma remove_acknowledged_True_iff:
  "snd (remove_acknowledged kdf m tags d) \<longleftrightarrow>
    (\<exists>t\<in>set tags. \<exists>s\<in>set (slot_of (slots m) t). digest kdf (st_envelope s) = d)"
proof (induction tags)
  case Nil
  then show ?case by simp
next
  case (Cons u us)
  let ?p = "\<lambda>s. digest kdf (st_envelope s) \<noteq> d"
  have len: "length (filter ?p xs) \<noteq> length xs \<longleftrightarrow> (\<exists>s\<in>set xs. \<not> ?p s)" for xs
    using filter_id_conv [of ?p xs] length_filter_less by (metis filter_True less_irrefl)
  show ?case
  proof (cases "map_of (slots m) u")
    case None
    then show ?thesis using Cons.IH by (simp add: slot_of_def)
  next
    case (Some slot)
    then have "slot_of (slots m) u = slot" by (simp add: slot_of_def)
    then show ?thesis using Some Cons.IH len [of slot] by (auto simp: Let_def)
  qed
qed

lemma filter_slot_remove_acknowledged:
  "filter (\<lambda>s. digest kdf (st_envelope s) \<noteq> d) (slot_of (slots (fst (remove_acknowledged kdf m tags d))) t) =
   filter (\<lambda>s. digest kdf (st_envelope s) \<noteq> d) (slot_of (slots m) t)"
  using remove_acknowledged_slot [of kdf m tags d t] by auto

lemma sweep_accounting_slots:
  "sum_list (map (length \<circ> snd) ms) =
     sum_list (map (length \<circ> snd) (retain_slots p ms)) +
     sum_list (map (\<lambda>(t, slot). length slot - length (filter p slot)) ms)"
proof (induction ms)
  case Nil
  then show ?case by (simp add: retain_slots_def)
next
  case (Cons x ms)
  obtain t slot where x: "x = (t, slot)" by (cases x)
  have "length slot = length (filter p slot) + (length slot - length (filter p slot))"
    using length_filter_le [of p slot] by linarith
  moreover have "sum_list (map (length \<circ> snd) (retain_slots p (x # ms))) =
      length (filter p slot) + sum_list (map (length \<circ> snd) (retain_slots p ms))"
    by (simp add: retain_slots_def x)
  moreover have "sum_list (map (length \<circ> snd) (x # ms)) = length slot + sum_list (map (length \<circ> snd) ms)"
    "sum_list (map (\<lambda>(t, slot). length slot - length (filter p slot)) (x # ms)) =
      (length slot - length (filter p slot)) + sum_list (map (\<lambda>(t, slot). length slot - length (filter p slot)) ms)"
    by (simp_all add: x)
  ultimately show ?case using Cons.IH by linarith
qed

lemma slot_of_restore_into:
  "distinct (map fst entries) \<Longrightarrow>
    slot_of (slots (restore_into de m entries now)) t =
      (case Option.bind (map_of entries t) de of
         None \<Rightarrow> slot_of (slots m) t
       | Some slot \<Rightarrow>
           (case filter (\<lambda>s. \<not> gone now s) slot of [] \<Rightarrow> slot_of (slots m) t | x # xs \<Rightarrow> x # xs))"
proof (induction entries arbitrary: m)
  case Nil
  then show ?case by simp
next
  case (Cons p entries)
  obtain u bs where p: "p = (u, bs)" by (cases p)
  from Cons.prems have d: "distinct (map fst entries)" and "u \<notin> fst ` set entries" by (auto simp: p)
  then have none: "map_of entries u = None" by (simp add: map_of_eq_None_iff)
  show ?case
  proof (cases "de bs")
    case None
    then show ?thesis using Cons.IH [OF d] p none by (cases "t = u") auto
  next
    case (Some slot)
    show ?thesis
    proof (cases "t = u")
      case True
      then show ?thesis using Cons.IH [OF d] p none Some by (auto simp: Let_def split: list.splits)
    next
      case False
      then show ?thesis using Cons.IH [OF d] p Some by (auto simp: Let_def split: option.splits list.splits)
    qed
  qed
qed

lemma slot_of_restore_snapshot:
  assumes law: "\<forall>slot\<in>snd ` set (slots m). \<exists>bs. ser slot = Some bs \<and> de bs = Some slot" and inv: "mb_inv m"
  shows "slot_of (slots (restore de ttl (snapshot ser m) now)) t = filter (\<lambda>s. \<not> gone now s) (slot_of (slots m) t)"
proof -
  define f where "f = (\<lambda>slot. the (ser slot))"
  have f: "ser slot = Some (f slot)" "de (f slot) = Some slot" if "(k, slot) \<in> set (slots m)" for k slot
    using law that by (force simp: f_def)+
  have snap: "snapshot ser m = map (\<lambda>(t, slot). (t, f slot)) (slots m)"
  proof -
    have "List.map_filter (\<lambda>(t, slot). map_option (Pair t) (ser slot)) xs = map (\<lambda>(t, slot). (t, f slot)) xs"
      if "set xs \<subseteq> set (slots m)" for xs
      using that by (induction xs) (auto simp: f(1))
    then show ?thesis by (simp add: snapshot_def)
  qed
  have held: "de (f slot) = Some slot" if "map_of (slots m) t = Some slot" for slot
    using f(2) [OF map_of_SomeD [OF that]] .
  have "distinct (map fst (snapshot ser m))"
    using inv by (simp add: snap mb_inv_def keys_distinct_def case_prod_unfold comp_def)
  moreover have "map_of (snapshot ser m) t = map_option f (map_of (slots m) t)"
    by (simp add: snap map_of_map)
  moreover have "slot_of (slots (mailbox_new ttl)) t = []"
    by (simp add: mailbox_new_def slot_of_def)
  ultimately have "slot_of (slots (restore de ttl (snapshot ser m) now)) t =
      (case map_of (slots m) t of None \<Rightarrow> []
       | Some slot \<Rightarrow> (case filter (\<lambda>s. \<not> gone now s) slot of [] \<Rightarrow> [] | x # xs \<Rightarrow> x # xs))"
    unfolding restore_def by (subst slot_of_restore_into) (auto simp: held split: option.splits list.splits)
  also have "\<dots> = filter (\<lambda>s. \<not> gone now s) (slot_of (slots m) t)"
    unfolding slot_of_def by (cases "map_of (slots m) t") (auto split: list.splits)
  finally show ?thesis .
qed

lemma mailbox_step_runs:
  "spares kdf t s later limit x \<Longrightarrow> \<exists>m'. mailbox_step kdf m x = Some m'"
proof (cases x)
  case (OpDeposit e now ttl cap)
  moreover assume "spares kdf t s later limit x"
  ultimately have "deposit_with m e now ttl cap \<noteq> None" by (simp add: deposit_with_def deposit_slot_None)
  then show ?thesis using OpDeposit by auto
qed auto

lemma mailbox_run_runs:
  "\<forall>x\<in>set xs. spares kdf t s later limit x \<Longrightarrow> \<exists>m'. mailbox_run kdf m xs = Some m'"
proof (induction xs arbitrary: m)
  case Nil
  then show ?case by simp
next
  case (Cons x xs)
  then obtain m1 where "mailbox_step kdf m x = Some m1" using mailbox_step_runs by fastforce
  then show ?case using Cons by simp
qed

lemma deposit_slot_held: "deposit_slot slot s now cap = Some slot' \<Longrightarrow> held 0 s slot'"
  by (erule deposit_slot_cases) (auto simp: held_def)

section \<open>Properties\<close>

text \<open>C15: an envelope accepted by the mailbox is offered to its recipient at every later time, across
  any run of deposits, acknowledgements, collections and sweeps, as long as it has not expired, its own
  digest is not acknowledged, its tag is not collected, and fewer deposits than the tag's ceiling have
  followed it under its tag; such a run never panics.\<close>

lemma mailbox_keeps_unacknowledged:
  assumes dep: "deposit_with m e now ttl cap = Some (m1, res)" and inv: "mb_inv m"
    and alive: "later - now < ttl"
    and ok: "\<forall>x\<in>set xs. spares kdf (e_tag e) \<lparr>st_envelope = e, deposited_at = now, st_ttl_seconds = ttl\<rparr> later limit x"
    and few: "deposits_under (e_tag e) xs < limit"
    and asked: "e_tag e \<in> set tags"
  shows "\<exists>m2. mailbox_run kdf m1 xs = Some m2 \<and> e \<in> set (peek_many m2 tags later)"
proof -
  let ?s = "\<lparr>st_envelope = e, deposited_at = now, st_ttl_seconds = ttl\<rparr>"
  obtain m2 where run: "mailbox_run kdf m1 xs = Some m2" using mailbox_run_runs [OF ok] by blast
  obtain slot where slot: "deposit_slot (slot_of (slots m) (e_tag e)) ?s now cap = Some slot"
    "m1 = m\<lparr>slots := AList.update (e_tag e) slot (slots m)\<rparr>" using dep by (rule deposit_with_Some)
  then have "held 0 ?s (slot_of (slots m1) (e_tag e))" "mb_inv m1"
    using deposit_slot_held inv by (auto simp: mb_inv_def)
  moreover have fresh: "\<not> gone later ?s" using alive by (simp add: expired_def)
  ultimately have "held (deposits_under (e_tag e) xs) ?s (slot_of (slots m2) (e_tag e))"
    using held_run [OF _ _ ok _ _ run, of 0] few by simp
  then show ?thesis using run fresh asked held_mem by (force simp: peek_many_set)
qed

definition sample_envelope :: "nat \<Rightarrow> envelope" where
  "sample_envelope n = \<lparr>e_tag = replicate 16 1, e_payload = [of_nat n]\<rparr>"

lemma mailbox_keeps_unacknowledged_witness:
  "\<exists>m2. mailbox_run (\<lambda>l x. x) (fst (the (deposit_with with_default_ttl (sample_envelope 7) 5 10 3)))
      [OpDeposit (sample_envelope 8) 6 10 3, OpSweep 7,
       OpAck [e_tag (sample_envelope 8)] (digest (\<lambda>l x. x) (sample_envelope 8))] = Some m2 \<and>
    sample_envelope 7 \<in> set (peek_many m2 [e_tag (sample_envelope 7)] 9)"
proof (rule mailbox_keeps_unacknowledged [where now = 5 and ttl = 10 and cap = 3 and limit = 3 and m = with_default_ttl and res = "Inr ()"])
  show "deposit_with with_default_ttl (sample_envelope 7) 5 10 3 =
      Some (fst (the (deposit_with with_default_ttl (sample_envelope 7) 5 10 3)), Inr ())"
    by (simp add: deposit_with_def deposit_slot_def with_default_ttl_def mailbox_new_def slot_of_def MAX_PER_TAG_def Let_def)
qed (simp_all add: with_default_ttl_def mailbox_new_def mb_inv_def keys_distinct_def sample_envelope_def
    MAX_PER_TAG_def digest_def)

text \<open>The outcome of a deposit.  It panics exactly when the tag's slot is empty and the depositor's
  own limit is zero; otherwise it is accepted, never refused: the new entry is the last of the slot, a slot
  whose live entries have reached the ceiling keeps its length and any other grows by one, and no other tag is
  touched.\<close>

lemma deposit_outcome:
  "case deposit_with m e now ttl cap of
     None \<Rightarrow> slot_of (slots m) (e_tag e) = [] \<and> cap = 0
   | Some (m', res) \<Rightarrow>
       res = Inr () \<and>
       last (slot_of (slots m') (e_tag e)) = \<lparr>st_envelope = e, deposited_at = now, st_ttl_seconds = ttl\<rparr> \<and>
       length (slot_of (slots m') (e_tag e)) = length (slot_of (slots m) (e_tag e)) +
         (if min cap MAX_PER_TAG \<le> pending m (e_tag e) now then 0 else 1) \<and>
       (slot_of (slots m'))(e_tag e := []) = (slot_of (slots m))(e_tag e := [])"
proof (cases "deposit_with m e now ttl cap")
  case None
  then have "slot_of (slots m) (e_tag e) = [] \<and> cap = 0" by (simp add: deposit_with_def deposit_slot_None)
  then show ?thesis using None by simp
next
  case (Some r)
  obtain m' res where r: "r = (m', res)" by (cases r)
  let ?s = "\<lparr>st_envelope = e, deposited_at = now, st_ttl_seconds = ttl\<rparr>"
  obtain slot where slot: "deposit_slot (slot_of (slots m) (e_tag e)) ?s now cap = Some slot"
    "m' = m\<lparr>slots := AList.update (e_tag e) slot (slots m)\<rparr>" "res = Inr ()"
    using Some r deposit_with_Some by blast
  have "last slot = ?s \<and> length slot = length (slot_of (slots m) (e_tag e)) +
      (if min cap MAX_PER_TAG \<le> pending m (e_tag e) now then 0 else 1)"
    using slot(1) by (cases rule: deposit_slot_cases) (auto simp: pending_def)
  then show ?thesis using Some r slot(2,3) by (auto simp: fun_eq_iff)
qed

text \<open>A history that keeps a tag filling: one deposit each second with a one-second lifetime, then a burst.\<close>

definition overfill :: "envelope \<Rightarrow> nat \<Rightarrow> mailbox_op list" where
  "overfill e n = map (\<lambda>i. OpDeposit e i 1 1) [0..<n] @ replicate (Suc n) (OpDeposit e n 1 1)"

abbreviation second :: "envelope \<Rightarrow> nat \<Rightarrow> stored" where
  "second e i \<equiv> \<lparr>st_envelope = e, deposited_at = i, st_ttl_seconds = 1\<rparr>"

lemma mailbox_run_append:
  "mailbox_run kdf m (xs @ ys) = (case mailbox_run kdf m xs of None \<Rightarrow> None | Some m' \<Rightarrow> mailbox_run kdf m' ys)"
  by (induction xs arbitrary: m) (auto split: option.splits)

lemma deposit_slot_head_gone:
  "gone now x \<Longrightarrow> min cap MAX_PER_TAG \<le> length (filter (\<lambda>s. \<not> gone now s) (x # b)) \<Longrightarrow>
    deposit_slot (x # b) s now cap = Some (b @ [s])"
  by (simp add: deposit_slot_def Let_def vec_remove_def)

lemma overfill_dead:
  "\<exists>m. mailbox_run kdf with_default_ttl (map (\<lambda>i. OpDeposit e i 1 1) [0..<n]) = Some m \<and>
    slot_of (slots m) (e_tag e) = map (second e) [0..<n]"
proof (induction n)
  case 0
  then show ?case by (simp add: with_default_ttl_def mailbox_new_def slot_of_def)
next
  case (Suc n)
  then obtain m where m: "mailbox_run kdf with_default_ttl (map (\<lambda>i. OpDeposit e i 1 1) [0..<n]) = Some m"
    "slot_of (slots m) (e_tag e) = map (second e) [0..<n]" by blast
  have "filter (\<lambda>s. \<not> gone n s) (map (second e) [0..<n]) = []"
    by (auto simp: filter_empty_conv expired_def)
  then have "deposit_slot (map (second e) [0..<n]) (second e n) n 1 = Some (map (second e) [0..<Suc n])"
    by (simp add: deposit_slot_def Let_def MAX_PER_TAG_def del: filter_map)
  then show ?case using m by (simp add: mailbox_run_append deposit_with_def)
qed

lemma overfill_live:
  "k \<le> n \<Longrightarrow> slot_of (slots m) (e_tag e) = map (second e) [0..<n] \<Longrightarrow>
    \<exists>m'. mailbox_run kdf m (replicate (Suc k) (OpDeposit e n 1 1)) = Some m' \<and>
      slot_of (slots m') (e_tag e) = map (second e) [k..<n] @ replicate (Suc k) (second e n)"
proof (induction k)
  case 0
  have "filter (\<lambda>s. \<not> gone n s) (map (second e) [0..<n]) = []"
    by (auto simp: filter_empty_conv expired_def)
  then show ?case using 0(2)
    by (simp add: deposit_with_def deposit_slot_def Let_def MAX_PER_TAG_def del: filter_map)
next
  case (Suc k)
  then obtain m' where m': "mailbox_run kdf m (replicate (Suc k) (OpDeposit e n 1 1)) = Some m'"
    "slot_of (slots m') (e_tag e) = map (second e) [k..<n] @ replicate (Suc k) (second e n)" by auto
  have "slot_of (slots m') (e_tag e) = second e k # (map (second e) [Suc k..<n] @ replicate (Suc k) (second e n))"
    using Suc.prems(1) m'(2) by (simp add: upt_conv_Cons)
  moreover have "gone n (second e k)" "\<not> gone n (second e n)"
    using Suc.prems(1) by (simp_all add: expired_def)
  ultimately have "deposit_slot (slot_of (slots m') (e_tag e)) (second e n) n 1 =
      Some (map (second e) [Suc k..<n] @ replicate (Suc k) (second e n) @ [second e n])"
    by (simp add: deposit_slot_head_gone MAX_PER_TAG_def del: replicate_Suc)
  then have "deposit_slot (slot_of (slots m') (e_tag e)) (second e n) n 1 =
      Some (map (second e) [Suc k..<n] @ replicate (Suc (Suc k)) (second e n))"
    by (simp add: replicate_append_same)
  then have "mailbox_run kdf m' [OpDeposit e n 1 1] = Some (m'\<lparr>slots := AList.update (e_tag e)
      (map (second e) [Suc k..<n] @ replicate (Suc (Suc k)) (second e n)) (slots m')\<rparr>)"
    by (simp add: deposit_with_def)
  moreover have "replicate (Suc (Suc k)) (OpDeposit e n 1 1) = replicate (Suc k) (OpDeposit e n 1 1) @ [OpDeposit e n 1 1]"
    by (simp add: replicate_append_same)
  ultimately show ?case using m'(1) by (simp only: mailbox_run_append) simp
qed

text \<open>The ceiling of a tag does not bound what waits under it.  When the tag is full but an expired entry
  is still in the slot, that one is dropped instead of a live one, so live entries displace expired ones without
  limit: with a ceiling of one, any number of live envelopes can be pending under a tag.\<close>

lemma ceiling_is_not_a_ceiling:
  "map_option (\<lambda>m. pending m (e_tag e) n) (mailbox_run kdf with_default_ttl (overfill e n)) = Some (Suc n)"
proof -
  obtain m where m: "mailbox_run kdf with_default_ttl (map (\<lambda>i. OpDeposit e i 1 1) [0..<n]) = Some m"
    "slot_of (slots m) (e_tag e) = map (second e) [0..<n]" using overfill_dead by blast
  obtain m' where m': "mailbox_run kdf m (replicate (Suc n) (OpDeposit e n 1 1)) = Some m'"
    "slot_of (slots m') (e_tag e) = map (second e) [n..<n] @ replicate (Suc n) (second e n)"
    using overfill_live [OF order_refl m(2)] by blast
  have "filter (\<lambda>s. \<not> gone n s) (replicate (Suc n) (second e n)) = replicate (Suc n) (second e n)"
    by (auto simp: expired_def)
  then have "pending m' (e_tag e) n = Suc n" using m'(2) by (simp add: pending_def)
  then show ?thesis using m(1) m'(1) by (simp only: overfill_def mailbox_run_append) simp
qed

text \<open>An acknowledgement names one envelope by its digest under the acknowledger's own tags: it reports
  whether such an envelope was held there, leaves every slot outside those tags as it was, and inside them
  removes nothing that has another digest, in order.\<close>

lemma acknowledgement_is_exact:
  "case remove_acknowledged kdf m tags d of (m', removed) \<Rightarrow>
     (removed \<longleftrightarrow> (\<exists>t\<in>set tags. \<exists>s\<in>set (slot_of (slots m) t). digest kdf (st_envelope s) = d)) \<and>
     (t \<in> set tags \<or> slot_of (slots m') t = slot_of (slots m) t) \<and>
     filter (\<lambda>s. digest kdf (st_envelope s) \<noteq> d) (slot_of (slots m') t) =
     filter (\<lambda>s. digest kdf (st_envelope s) \<noteq> d) (slot_of (slots m) t)"
proof -
  have "t \<in> set tags \<or> slot_of (slots (fst (remove_acknowledged kdf m tags d))) t = slot_of (slots m) t"
    by (induction tags) (auto simp: Let_def split: option.splits)
  then show ?thesis
    using remove_acknowledged_True_iff [of kdf m tags d] filter_slot_remove_acknowledged [of kdf d m tags t]
    by (simp add: case_prod_unfold)
qed

text \<open>An operator's restart loses nothing.  When every slot serialises and reads back, the mailbox restored
  from a snapshot offers, under any tags and at any later time, exactly the envelopes the old one would have
  offered, in the same order.\<close>

lemma restart_loses_nothing:
  assumes "mb_inv m" "\<forall>slot\<in>snd ` set (slots m). \<exists>bs. ser slot = Some bs \<and> de bs = Some slot" "now \<le> later"
  shows "peek_many (restore de ttl (snapshot ser m) now) tags later = peek_many m tags later"
proof -
  have "filter (\<lambda>s. \<not> gone later s) (filter (\<lambda>s. \<not> gone now s) xs) = filter (\<lambda>s. \<not> gone later s) xs" for xs
    using gone_mono [OF _ assms(3)] by (intro filter_filter_weaker) blast
  then show ?thesis
    by (simp add: peek_many_slots slot_of_restore_snapshot [OF assms(2,1)] del: filter_filter)
qed

lemma restart_loses_nothing_witness:
  "peek_many (restore (\<lambda>bs. if bs = [1] then Some [second (sample_envelope 7) 3] else None) 9
      (snapshot (\<lambda>_. Some [1]) \<lparr>slots = [(replicate 16 1, [second (sample_envelope 7) 3])], mb_ttl_seconds = 9\<rparr>) 2)
      [replicate 16 1] 3 =
    peek_many \<lparr>slots = [(replicate 16 1, [second (sample_envelope 7) 3])], mb_ttl_seconds = 9\<rparr> [replicate 16 1] 3"
  by (rule restart_loses_nothing) (simp_all add: mb_inv_def keys_distinct_def)

text \<open>Sweeps, at whatever times before a reading, change nothing a reader of any tag can see, and each
  accounts exactly for the entries it removed.\<close>

lemma sweeps_are_invisible:
  assumes "mb_inv m" "\<forall>t\<in>set ts. t \<le> later"
  shows "peek_tag (fold (\<lambda>t m. sweep m t) ts m) tag later = peek_tag m tag later \<and>
    mailbox_len m = mailbox_len (sweep m later) + sweep_removed m later"
  using mbx.live_sweeps [OF assms] sweep_accounting_slots [of "slots m"]
  by (simp add: mailbox_len_def sweep_def sweep_removed_def)

lemma sweeps_are_invisible_witness:
  "peek_tag (fold (\<lambda>t m. sweep m t) [4, 2] \<lparr>slots = [(replicate 16 1, [second (sample_envelope 7) 3])], mb_ttl_seconds = 9\<rparr>)
      (replicate 16 1) 4 =
    peek_tag \<lparr>slots = [(replicate 16 1, [second (sample_envelope 7) 3])], mb_ttl_seconds = 9\<rparr> (replicate 16 1) 4"
  by (rule conjunct1 [OF sweeps_are_invisible]) (simp_all add: mb_inv_def keys_distinct_def)

end
