(* ===== verification/Wake_Tickets.thy ===== *)
theory Wake_Tickets
  imports Expiring_Slots Envelopes
begin

text \<open>
  Sealed wake tickets by tag, \<^verbatim>\<open>crates/rotelyx-mailbox-server/src/tickets.rs\<close>.  The hash map is an
  association list with distinct keys; the order \<^verbatim>\<open>iter()\<close> walks it in is the order of the list, and
  nothing proved here depends on it.
\<close>

section \<open>State and operations\<close>

definition TICKETS_PER_TAG :: nat where "TICKETS_PER_TAG = 8"
definition MAX_TAGS :: nat where "MAX_TAGS = 200000"
definition TICKET_TTL :: nat where "TICKET_TTL = 48 * 3600"

record left_ticket =
  ticket :: string
  left_at :: nat

datatype refused = TicketsFull

type_synonym tickets = "(tag \<times> left_ticket list) list"

definition awake :: "nat \<Rightarrow> left_ticket \<Rightarrow> bool" where
  "awake now l \<longleftrightarrow> now - left_at l < TICKET_TTL"

definition leave_ticket :: "tickets \<Rightarrow> tag \<Rightarrow> string \<Rightarrow> nat \<Rightarrow> tickets \<times> (refused, unit) result" where
  "leave_ticket m tag t now =
     (if map_of m tag = None \<and> MAX_TAGS \<le> length m then (m, Inl TicketsFull)
      else
        let held = filter (awake now) (slot_of m tag);
            held' = (if TICKETS_PER_TAG \<le> length held then tl held else held)
        in (AList.update tag (held' @ [\<lparr>ticket = t, left_at = now\<rparr>]) m, Inr ()))"

definition for_tag :: "tickets \<Rightarrow> tag \<Rightarrow> nat \<Rightarrow> string list" where
  "for_tag m tag now = map ticket (filter (awake now) (slot_of m tag))"

text \<open>The walk of \<^verbatim>\<open>decoys\<close>: one live ticket of each other tag, until enough are found.\<close>

fun decoys_walk :: "tag \<Rightarrow> nat \<Rightarrow> nat \<Rightarrow> tickets \<Rightarrow> string list \<Rightarrow> string list" where
  "decoys_walk avoid want now [] out = out"
| "decoys_walk avoid want now ((tag, held) # rest) out =
     (if tag = avoid then decoys_walk avoid want now rest out
      else case List.find (awake now) held of
             None \<Rightarrow> decoys_walk avoid want now rest out
           | Some l \<Rightarrow>
               let out' = out @ [ticket l]
               in if length out' = want then out' else decoys_walk avoid want now rest out')"

definition decoys :: "tickets \<Rightarrow> tag \<Rightarrow> nat \<Rightarrow> nat \<Rightarrow> nat \<Rightarrow> string list" where
  "decoys m avoid want now start =
     (if want = 0 \<or> m = [] then []
      else decoys_walk avoid want now (rotate (start mod length m) m) [])"

definition sweep_tickets :: "tickets \<Rightarrow> nat \<Rightarrow> tickets" where
  "sweep_tickets m now = retain_slots (awake now) m"

section \<open>The tickets are an expiring store\<close>

definition tickets_inv :: "tickets \<Rightarrow> bool" where
  "tickets_inv m \<longleftrightarrow> keys_distinct m \<and> length m \<le> MAX_TAGS \<and> (\<forall>(t, held)\<in>set m. length held \<le> TICKETS_PER_TAG)"

definition leave_state :: "tickets \<Rightarrow> tag \<Rightarrow> string \<Rightarrow> nat \<Rightarrow> tickets" where
  "leave_state m tag t now = fst (leave_ticket m tag t now)"

lemma awake_mono: "awake later l \<Longrightarrow> now \<le> later \<Longrightarrow> awake now l"
  by (simp add: awake_def)

lemma slot_of_bound: "tickets_inv m \<Longrightarrow> length (slot_of m tag) \<le> TICKETS_PER_TAG"
  by (auto simp: slot_of_def tickets_inv_def split: option.splits dest!: map_of_SomeD)

lemma length_update: "length (AList.update k v m) = (if map_of m k = None then Suc (length m) else length m)"
  by (induction m) auto

lemma tickets_inv_leave: "tickets_inv m \<Longrightarrow> tickets_inv (leave_state m tag t now)"
proof -
  assume inv: "tickets_inv m"
  define held where "held = filter (awake now) (slot_of m tag)"
  define new where "new = (if TICKETS_PER_TAG \<le> length held then tl held else held) @ [\<lparr>ticket = t, left_at = now\<rparr>]"
  have "length held \<le> TICKETS_PER_TAG"
    using slot_of_bound [OF inv, of tag] length_filter_le [of "awake now" "slot_of m tag"] unfolding held_def by linarith
  then have "length new \<le> TICKETS_PER_TAG" by (auto simp: new_def TICKETS_PER_TAG_def)
  moreover have "length (AList.update tag new m) \<le> MAX_TAGS" if "\<not> (map_of m tag = None \<and> MAX_TAGS \<le> length m)"
    using that inv by (auto simp: length_update tickets_inv_def)
  ultimately show ?thesis
    using inv set_update_subset [of tag new m]
    by (auto simp: leave_state_def leave_ticket_def tickets_inv_def Let_def simp flip: held_def new_def)
qed

lemma tickets_inv_sweep: "tickets_inv m \<Longrightarrow> tickets_inv (sweep_tickets m now)"
proof -
  assume inv: "tickets_inv m"
  have "length (sweep_tickets m now) \<le> length m"
    by (simp add: sweep_tickets_def retain_slots_def le_trans [OF length_filter_le])
  moreover have "\<forall>(t, held)\<in>set (sweep_tickets m now). length held \<le> TICKETS_PER_TAG"
    using inv by (auto simp: sweep_tickets_def retain_slots_def tickets_inv_def intro: le_trans [OF length_filter_le])
  ultimately show ?thesis
    using inv by (simp add: tickets_inv_def sweep_tickets_def keys_distinct_retain_slots)
qed

interpretation tkt: expiring_store tickets_inv for_tag leave_state sweep_tickets
proof unfold_locales
  fix m k v now later
  assume inv: "tickets_inv m"
  show "tickets_inv (leave_state m k v now)" using inv by (rule tickets_inv_leave)
  show "tickets_inv (sweep_tickets m now)" using inv by (rule tickets_inv_sweep)
  show "for_tag (sweep_tickets m now) k later = for_tag m k later" if "now \<le> later"
  proof -
    have "filter (awake later) (filter (awake now) xs) = filter (awake later) xs" for xs
      using that awake_mono by (intro filter_filter_weaker) blast
    then show ?thesis
      using inv by (simp add: for_tag_def sweep_tickets_def slot_of_retain_slots tickets_inv_def del: filter_filter)
  qed
  show "for_tag (leave_state m k v now) k' later = for_tag m k' later" if "k' \<noteq> k" for k'
    using that by (simp add: for_tag_def leave_state_def leave_ticket_def Let_def)
qed

lemma decoys_walk_bound: "length out < want \<Longrightarrow> length (decoys_walk avoid want now m out) \<le> want"
  by (induction avoid want now m out rule: decoys_walk.induct) (auto simp: Let_def split: option.splits)

text \<open>The live tickets of the other tags.\<close>

definition live_elsewhere :: "tickets \<Rightarrow> tag \<Rightarrow> nat \<Rightarrow> string set" where
  "live_elsewhere m avoid now =
     set (concat (map (\<lambda>(t, held). map ticket (filter (awake now) held)) (filter (\<lambda>(t, _). t \<noteq> avoid) m)))"

lemma live_elsewhere_Cons:
  "live_elsewhere ((t, held) # m) avoid now =
     (if t = avoid then {} else ticket ` {l \<in> set held. awake now l}) \<union> live_elsewhere m avoid now"
  by (simp add: live_elsewhere_def)

lemma live_elsewhere_rotate: "live_elsewhere (rotate n m) avoid now = live_elsewhere m avoid now"
  by (simp add: live_elsewhere_def)

lemma decoys_walk_from: "set (decoys_walk avoid want now m out) \<subseteq> set out \<union> live_elsewhere m avoid now"
proof (induction m arbitrary: out)
  case Nil
  then show ?case by simp
next
  case (Cons p m)
  obtain t held where p: "p = (t, held)" by (cases p)
  show ?case
  proof (cases "List.find (awake now) held")
    case None
    then show ?thesis using Cons.IH [of out] by (auto simp: p live_elsewhere_Cons)
  next
    case (Some l)
    then have "l \<in> set held" "awake now l" by (auto simp: find_Some_iff)
    then have l: "ticket l \<in> ticket ` {l \<in> set held. awake now l}" by blast
    show ?thesis using Cons.IH [of out] Cons.IH [of "out @ [ticket l]"] l Some
      by (auto simp add: p live_elsewhere_Cons Let_def simp del: mem_Collect_eq)
  qed
qed

section \<open>Properties\<close>

text \<open>Tickets left under other tags, with sweeps in between, change nothing in what wakes a tag, at any
  later time; and however many are left, the store stays within its number of tags and its number of tickets a
  tag.\<close>

lemma tickets_other_traffic:
  assumes "tickets_inv m" "\<forall>(tag', t, now)\<in>set xs. tag' \<noteq> tag \<and> now \<le> later"
  shows "for_tag (fold (\<lambda>(tag', t, now) m. sweep_tickets (leave_state m tag' t now) now) xs m) tag later = for_tag m tag later \<and>
    tickets_inv (fold (\<lambda>t m. sweep_tickets m t) [later] m)"
  using tkt.live_other_traffic [OF assms] tkt.inv_sweeps [OF assms(1)] by blast

lemma tickets_other_traffic_witness:
  "for_tag (fold (\<lambda>(tag', t, now) m. sweep_tickets (leave_state m tag' t now) now)
      [([1], ''a'', 3), ([1], ''b'', 4)] [([2], [\<lparr>ticket = ''c'', left_at = 1\<rparr>])]) [2] 9 =
    for_tag [([2], [\<lparr>ticket = ''c'', left_at = 1\<rparr>])] [2] 9"
  by (rule conjunct1 [OF tickets_other_traffic])
    (simp_all add: tickets_inv_def keys_distinct_def MAX_TAGS_def TICKETS_PER_TAG_def)

text \<open>Leaving a ticket either is refused, when the tag is new and the store is full of tags, or makes the
  tag wake with what was live before, less its oldest ticket when eight were live, and the new one last.\<close>

lemma leave_ticket_outcome:
  "case leave_ticket m tag t now of
     (m', Inl TicketsFull) \<Rightarrow> m' = m \<and> map_of m tag = None \<and> MAX_TAGS \<le> length m
   | (m', Inr _) \<Rightarrow> for_tag m' tag now =
       (if TICKETS_PER_TAG \<le> length (for_tag m tag now) then tl (for_tag m tag now) else for_tag m tag now) @ [t]"
proof -
  define held where "held = filter (awake now) (slot_of m tag)"
  have old: "for_tag m tag now = map ticket held" by (simp add: for_tag_def held_def)
  have "filter (awake now) held = held" "filter (awake now) (tl held) = tl held"
    unfolding held_def by (simp, cases "filter (awake now) (slot_of m tag)") (auto simp: filter_eq_Cons_iff)
  then have "for_tag (AList.update tag ((if TICKETS_PER_TAG \<le> length held then tl held else held) @
      [\<lparr>ticket = t, left_at = now\<rparr>]) m) tag now =
      (if TICKETS_PER_TAG \<le> length held then map ticket (tl held) else map ticket held) @ [t]"
    by (simp add: for_tag_def awake_def TICKET_TTL_def)
  then show ?thesis by (simp add: leave_ticket_def old Let_def flip: held_def map_tl)
qed

text \<open>The decoys sent beside a real ticket are never more than asked for, and each is a live ticket of
  another tag.\<close>

lemma decoys_are_other_tags:
  "length (decoys m avoid want now start) \<le> want \<and>
   set (decoys m avoid want now start) \<subseteq> live_elsewhere m avoid now"
  using decoys_walk_bound [of "[]" want avoid now "rotate (start mod length m) m"]
    decoys_walk_from [of avoid want now "rotate (start mod length m) m" "[]"]
  by (simp add: decoys_def live_elsewhere_rotate)

end
