(* ===== verification/Wake_Registry.thy ===== *)
theory Wake_Registry
  imports Rotelyx_Prelude "HOL-Library.List_Lexorder" "HOL-Library.Product_Lexorder"
begin

text \<open>
  The registry of devices a mailbox server wakes on a schedule, \<^verbatim>\<open>rotelyx-mailbox-server/src/wake.rs\<close>, over the devices of
  \<^verbatim>\<open>rotelyx-push/src/lib.rs\<close>.  The ordered set of rows is a strictly sorted list, in the order Rust derives for the struct.
  SHA-256 in hexadecimal is the parameter \<open>sha\<close>; strings are their bytes.
\<close>

section \<open>Devices\<close>

definition TOKEN_MIN :: nat where "TOKEN_MIN = 32"
definition TOKEN_MAX :: nat where "TOKEN_MAX = 200"

record device =
  d_token :: bytes
  d_kind :: bytes
  d_revoke_hash :: bytes
  d_on_schedule :: bool

definition is_hexdigit :: "u8 \<Rightarrow> bool" where
  "is_hexdigit b \<longleftrightarrow> 48 \<le> b \<and> b \<le> 57 \<or> 65 \<le> b \<and> b \<le> 70 \<or> 97 \<le> b \<and> b \<le> 102"

definition device_valid :: "device \<Rightarrow> bool" where
  "device_valid d \<longleftrightarrow>
     TOKEN_MIN \<le> length (d_token d) \<and> length (d_token d) \<le> TOKEN_MAX \<and> list_all is_hexdigit (d_token d) \<and>
     (d_revoke_hash d = [] \<or> length (d_revoke_hash d) = 64) \<and> (d_kind d = ascii ''apns'' \<or> d_kind d = ascii ''fcm'')"

definition choosing :: "(bytes \<Rightarrow> bytes) \<Rightarrow> bytes \<Rightarrow> bytes \<Rightarrow> bytes \<Rightarrow> bool \<Rightarrow> device" where
  "choosing sha token kind secret on_schedule =
     \<lparr> d_token = token, d_kind = kind, d_revoke_hash = (if secret = [] then [] else sha secret), d_on_schedule = on_schedule \<rparr>"

definition registering :: "(bytes \<Rightarrow> bytes) \<Rightarrow> bytes \<Rightarrow> bytes \<Rightarrow> bytes \<Rightarrow> device" where
  "registering sha token kind secret = choosing sha token kind secret True"

section \<open>The registry\<close>

definition MAX_DEVICES :: nat where "MAX_DEVICES = 100000"
definition MIN_SECRET_LEN :: nat where "MIN_SECRET_LEN = 32"
definition MAX_ROWS_PER_TOKEN :: nat where "MAX_ROWS_PER_TOKEN = 4"

definition secret_is_long_enough :: "bytes \<Rightarrow> bool" where
  "secret_is_long_enough secret \<longleftrightarrow> secret = [] \<or> MIN_SECRET_LEN \<le> length secret"

type_synonym registry = "device list"

text \<open>The derived order of the struct: field by field.\<close>

definition device_key :: "device \<Rightarrow> bytes \<times> bytes \<times> bytes \<times> bool" where
  "device_key d = (d_token d, d_kind d, d_revoke_hash d, d_on_schedule d)"

definition set_insert :: "device \<Rightarrow> registry \<Rightarrow> registry" where
  "set_insert d r = (if d \<in> set r then r else insort_key device_key d r)"

definition secrets_match :: "bytes \<Rightarrow> bytes \<Rightarrow> bool" where
  "secrets_match a b \<longleftrightarrow> length a = length b \<and> a = b"

definition same_row :: "device \<Rightarrow> device \<Rightarrow> bool" where
  "same_row d e \<longleftrightarrow> d_token d = d_token e \<and> secrets_match (d_revoke_hash d) (d_revoke_hash e)"

definition register :: "registry \<Rightarrow> device \<Rightarrow> registry \<times> bool" where
  "register r d =
     (if \<not> device_valid d then (r, False)
      else if list_ex (\<lambda>e. same_row e d) r then (set_insert d (filter (\<lambda>e. \<not> same_row e d) r), True)
      else if MAX_ROWS_PER_TOKEN \<le> length (filter (\<lambda>e. d_token e = d_token d) r) \<or> MAX_DEVICES \<le> length r then (r, True)
      else (set_insert d r, True))"

definition forget_token :: "registry \<Rightarrow> bytes \<Rightarrow> registry \<times> bool" where
  "forget_token r token =
     (let r' = filter (\<lambda>e. d_token e \<noteq> token) r in (r', length r \<noteq> length r'))"

definition revoke_wake :: "(bytes \<Rightarrow> bytes) \<Rightarrow> registry \<Rightarrow> bytes \<Rightarrow> registry \<times> bool" where
  "revoke_wake sha r secret =
     (let r' = filter (\<lambda>e. \<not> secrets_match (d_revoke_hash e) (sha secret)) r in (r', length r \<noteq> length r'))"

text \<open>The filter with a growing set of tokens already seen.\<close>

fun first_of_token :: "bytes list \<Rightarrow> registry \<Rightarrow> registry" where
  "first_of_token ts [] = []"
| "first_of_token ts (d # r) =
     (if d_token d \<in> set ts then first_of_token ts r else d # first_of_token (d_token d # ts) r)"

definition to_wake :: "registry \<Rightarrow> registry" where
  "to_wake r = first_of_token [] (filter d_on_schedule r)"

definition registry_restore :: "device list \<Rightarrow> registry" where
  "registry_restore ds = fold set_insert (filter device_valid ds) []"

section \<open>Rows are a set\<close>

lemma device_key_inj: "device_key d = device_key e \<longleftrightarrow> d = e"
  by (cases d; cases e) (auto simp: device_key_def)

lemma secrets_match_eq [simp]: "secrets_match a b \<longleftrightarrow> a = b"
  by (auto simp: secrets_match_def)

definition ordered :: "registry \<Rightarrow> bool" where
  "ordered r \<longleftrightarrow> sorted (map device_key r) \<and> distinct r"

lemma set_insert_set [simp]: "set (set_insert d r) = insert d (set r)"
  by (auto simp: set_insert_def set_insort_key)

lemma ordered_insert: "ordered r \<Longrightarrow> ordered (set_insert d r)"
  by (auto simp: ordered_def set_insert_def distinct_insort sorted_insort_key)

lemma ordered_filter: "ordered r \<Longrightarrow> ordered (filter P r)"
  by (simp add: ordered_def sorted_filter)

lemma length_insert: "length (set_insert d r) = length r + (if d \<in> set r then 0 else 1)"
  by (simp add: set_insert_def)

lemma length_filter_insert:
  "length (filter P (set_insert d r)) = length (filter P r) + (if P d \<and> d \<notin> set r then 1 else 0)"
proof -
  have "length (filter P (insort_key device_key d r)) = length (filter P r) + (if P d then 1 else 0)" by (induction r) auto
  then show ?thesis by (simp add: set_insert_def)
qed

section \<open>Histories\<close>

datatype wake_event = Register device | Revoke bytes | Forget bytes

fun wake_step :: "(bytes \<Rightarrow> bytes) \<Rightarrow> registry \<Rightarrow> wake_event \<Rightarrow> registry" where
  "wake_step sha r (Register d) = fst (register r d)"
| "wake_step sha r (Revoke secret) = fst (revoke_wake sha r secret)"
| "wake_step sha r (Forget token) = fst (forget_token r token)"

definition registry_ok :: "registry \<Rightarrow> bool" where
  "registry_ok r \<longleftrightarrow> ordered r \<and> list_all device_valid r \<and> length r \<le> MAX_DEVICES \<and>
     (\<forall>t. length (filter (\<lambda>e. d_token e = t) r) \<le> MAX_ROWS_PER_TOKEN) \<and>
     (\<forall>d\<in>set r. \<forall>e\<in>set r. same_row d e \<longrightarrow> d = e)"

lemma registry_ok_filter:
  assumes "registry_ok r"
  shows "registry_ok (filter P r)"
proof -
  have "length (filter P r) \<le> MAX_DEVICES"
    using assms length_filter_le [of P r] unfolding registry_ok_def by linarith
  moreover have "length (filter (\<lambda>e. d_token e = t) (filter P r)) \<le> MAX_ROWS_PER_TOKEN" for t
  proof -
    have "length (filter (\<lambda>e. d_token e = t) (filter P r)) \<le> length (filter (\<lambda>e. d_token e = t) r)"
      using length_filter_le [of P "filter (\<lambda>e. d_token e = t) r"] by (simp add: filter_filter conj_commute)
    also have "\<dots> \<le> MAX_ROWS_PER_TOKEN" using assms by (simp add: registry_ok_def)
    finally show ?thesis .
  qed
  ultimately show ?thesis using assms by (auto simp: registry_ok_def ordered_filter list_all_iff)
qed

lemma registry_ok_insert:
  assumes "registry_ok r" "device_valid d" "\<forall>e\<in>set r. \<not> same_row e d"
    "length (filter (\<lambda>e. d_token e = d_token d) r) < MAX_ROWS_PER_TOKEN" "length r < MAX_DEVICES"
  shows "registry_ok (set_insert d r)"
proof -
  have "ordered (set_insert d r)" using assms(1) by (simp add: registry_ok_def ordered_insert)
  moreover have "list_all device_valid (set_insert d r)" using assms(1,2) by (simp add: registry_ok_def list_all_iff)
  moreover have "length (set_insert d r) \<le> MAX_DEVICES" using assms(5) by (simp add: length_insert)
  moreover have "length (filter (\<lambda>e. d_token e = t) (set_insert d r)) \<le> MAX_ROWS_PER_TOKEN" for t
    using assms(1,4) by (cases "t = d_token d") (simp_all add: length_filter_insert registry_ok_def)
  moreover have "\<forall>x\<in>set (set_insert d r). \<forall>y\<in>set (set_insert d r). same_row x y \<longrightarrow> x = y"
    using assms(1,3) unfolding registry_ok_def set_insert_set by (metis insert_iff same_row_def secrets_match_eq)
  ultimately show ?thesis by (simp add: registry_ok_def)
qed

lemma registry_ok_register:
  assumes "registry_ok r"
  shows "registry_ok (fst (register r d))"
proof (cases "device_valid d \<and> list_ex (\<lambda>e. same_row e d) r")
  case True
  let ?r = "filter (\<lambda>e. \<not> same_row e d) r"
  from True obtain e where e: "e \<in> set r" "same_row e d" by (auto simp: list_ex_iff)
  have "length ?r < length r" using e by (intro length_filter_less) auto
  moreover have "length (filter (\<lambda>e. d_token e = d_token d) ?r) < length (filter (\<lambda>e. d_token e = d_token d) r)"
  proof -
    have "filter (\<lambda>e. d_token e = d_token d) ?r = filter (\<lambda>e. \<not> same_row e d) (filter (\<lambda>e. d_token e = d_token d) r)"
      by (simp add: conj_commute)
    then show ?thesis using e by (simp only:) (intro length_filter_less [of e], auto simp: same_row_def)
  qed
  ultimately have "registry_ok (set_insert d ?r)"
    using True registry_ok_filter [OF assms] assms
    by (intro registry_ok_insert) (auto simp: registry_ok_def dest: less_le_trans)
  then show ?thesis using True by (simp add: register_def)
next
  case False
  then show ?thesis using assms registry_ok_insert [OF assms, of d] by (auto simp: register_def list_ex_iff)
qed

lemma registry_ok_step: "registry_ok r \<Longrightarrow> registry_ok (wake_step sha r ev)"
  by (cases ev) (auto simp: registry_ok_register registry_ok_filter revoke_wake_def forget_token_def Let_def)

lemma registry_ok_run: "registry_ok r \<Longrightarrow> registry_ok (fold (\<lambda>ev r. wake_step sha r ev) evs r)"
  by (induction evs arbitrary: r) (auto simp: registry_ok_step)

lemma registry_ok_Nil: "registry_ok []"
  by (simp add: registry_ok_def ordered_def)

section \<open>Properties\<close>

text \<open>The registry stays within its bounds.  Over any history of registrations, revocations and tokens the push service
  disowns, the rows are valid and in order, there are at most \<^verbatim>\<open>MAX_DEVICES\<close>, at most \<^verbatim>\<open>MAX_ROWS_PER_TOKEN\<close> for one token,
  and never two for one token and one secret.
\<close>

theorem registry_stays_bounded:
  fixes evs :: "wake_event list" and sha
  defines "r \<equiv> fold (\<lambda>ev r. wake_step sha r ev) evs []"
  shows "sorted (map device_key r) \<and> distinct r \<and> list_all device_valid r \<and> length r \<le> MAX_DEVICES \<and>
    length (filter (\<lambda>e. d_token e = t) r) \<le> MAX_ROWS_PER_TOKEN \<and>
    distinct (map (\<lambda>d. (d_token d, d_revoke_hash d)) r)"
proof -
  have ok: "registry_ok r" unfolding r_def by (rule registry_ok_run [OF registry_ok_Nil])
  then have "inj_on (\<lambda>d. (d_token d, d_revoke_hash d)) (set r)"
    by (auto simp: registry_ok_def inj_on_def same_row_def)
  then show ?thesis using ok by (simp add: registry_ok_def ordered_def distinct_map)
qed

lemma registry_stays_bounded_witness:
  "length (fold (\<lambda>ev r. wake_step id r ev) [Revoke [1], Forget [2]] []) \<le> MAX_DEVICES"
  using registry_stays_bounded [of id "[Revoke [1], Forget [2]]"] by blast

text \<open>What may take a row away: its own secret, at registration or revocation, or the push service.\<close>

fun touches :: "(bytes \<Rightarrow> bytes) \<Rightarrow> device \<Rightarrow> wake_event \<Rightarrow> bool" where
  "touches sha d (Register e) \<longleftrightarrow> d_token e = d_token d \<and> d_revoke_hash e = d_revoke_hash d"
| "touches sha d (Revoke secret) \<longleftrightarrow> sha secret = d_revoke_hash d"
| "touches sha d (Forget token) \<longleftrightarrow> token = d_token d"

lemma untouched_step: "d \<in> set r \<Longrightarrow> \<not> touches sha d ev \<Longrightarrow> d \<in> set (wake_step sha r ev)"
  by (cases ev) (auto simp: register_def revoke_wake_def forget_token_def Let_def same_row_def)

lemma untouched_run: "d \<in> set r \<Longrightarrow> \<forall>ev\<in>set evs. \<not> touches sha d ev \<Longrightarrow> d \<in> set (fold (\<lambda>ev r. wake_step sha r ev) evs r)"
  by (induction evs arbitrary: r) (auto simp: untouched_step)

lemma first_of_token_spec:
  "set (first_of_token ts r) \<subseteq> set r \<and> distinct (map d_token (first_of_token ts r)) \<and>
   d_token ` set (first_of_token ts r) = d_token ` set r - set ts"
  by (induction ts r rule: first_of_token.induct) auto

text \<open>Nobody silences a device without its secret.  A device that is registered and on the schedule stays woken, once and
  not more often, through any history in which its secret is not presented and the push service does not disown its
  token: however many strangers register its token, revoke with secrets of their own or fill the registry.
\<close>

theorem device_stays_woken:
  assumes "d \<in> set r" "d_on_schedule d" "\<forall>ev\<in>set evs. \<not> touches sha d ev"
  defines "w \<equiv> to_wake (fold (\<lambda>ev r. wake_step sha r ev) evs r)"
  shows "length (filter (\<lambda>e. d_token e = d_token d) w) = 1 \<and> distinct (map d_token w)"
proof -
  let ?r = "fold (\<lambda>ev r. wake_step sha r ev) evs r"
  have "d \<in> set (filter d_on_schedule ?r)" using untouched_run [OF assms(1,3)] assms(2) by simp
  then have mem: "d_token d \<in> d_token ` set w" and dist: "distinct (map d_token w)"
    using first_of_token_spec [of "[]" "filter d_on_schedule ?r"] by (auto simp: w_def to_wake_def)
  have "{t. t = d_token d} \<inter> set (map d_token w) = {d_token d}" using mem by auto
  then have "length (filter (\<lambda>t. t = d_token d) (map d_token w)) = 1" by (simp only: distinct_length_filter [OF dist]) simp
  then show ?thesis using dist by (simp add: filter_map comp_def)
qed

lemma device_stays_woken_witness:
  fixes d e :: device
  defines "d \<equiv> \<lparr> d_token = replicate 32 97, d_kind = ascii ''apns'', d_revoke_hash = replicate 64 97, d_on_schedule = True \<rparr>"
    and "e \<equiv> \<lparr> d_token = replicate 32 97, d_kind = ascii ''apns'', d_revoke_hash = replicate 64 98, d_on_schedule = False \<rparr>"
  shows "length (filter (\<lambda>x. d_token x = d_token d) (to_wake (fold (\<lambda>ev r. wake_step id r ev) [Register e, Revoke [1], Forget [2]] [d]))) = 1"
proof -
  have "\<forall>ev\<in>set [Register e, Revoke [1], Forget [2]]. \<not> touches id d ev"
    by (simp add: d_def e_def replicate_eq_replicate numeral_eq_Suc)
  with device_stays_woken [of d "[d]" "[Register e, Revoke [1], Forget [2]]" id] show ?thesis by (simp add: d_def)
qed

text \<open>The reply tells nothing.  Whether a registration is accepted depends on the device presented alone, so its answer
  says nothing of what the registry holds.
\<close>

theorem register_reply_is_blind: "snd (register r d) = device_valid d"
  by (simp add: register_def)

text \<open>A device without a secret can be silenced by anybody.  Two empty secrets match, so a stranger who knows nothing but
  the token of a device that registered without a secret replaces its row by one that declines the schedule, and the
  device is no longer woken.
\<close>

theorem device_without_secret_is_silenced:
  fixes sha :: "bytes \<Rightarrow> bytes"
  assumes "registry_ok r" "d \<in> set r" "d_revoke_hash d = []" "\<forall>e\<in>set r. d_token e = d_token d \<longrightarrow> e = d"
  defines "r' \<equiv> fst (register r (choosing sha (d_token d) (d_kind d) [] False))"
  shows "d_token d \<notin> d_token ` set (to_wake r')"
proof -
  let ?e = "choosing sha (d_token d) (d_kind d) [] False"
  have "device_valid d" using assms(1,2) by (auto simp: registry_ok_def list_all_iff)
  then have "device_valid ?e" by (simp add: device_valid_def choosing_def assms(3))
  moreover have "same_row d ?e" by (simp add: same_row_def choosing_def assms(3))
  ultimately have "set r' = insert ?e (set r - {d})"
    using assms(2,4) by (auto simp: r'_def register_def list_ex_iff same_row_def choosing_def)
  then have "d_token e \<noteq> d_token d" if "e \<in> set r'" "d_on_schedule e" for e
    using that assms(4) by (auto simp: choosing_def)
  note silent = this
  show ?thesis
  proof
    assume "d_token d \<in> d_token ` set (to_wake r')"
    then obtain e where e: "d_token d = d_token e" "e \<in> set (to_wake r')" by blast
    then have "e \<in> set r'" "d_on_schedule e"
      using first_of_token_spec [of "[]" "filter d_on_schedule r'"] by (auto simp: to_wake_def)
    from silent [OF this] e(1) show False by simp
  qed
qed

lemma device_without_secret_is_silenced_witness:
  fixes d :: device
  defines "d \<equiv> \<lparr> d_token = replicate 32 97, d_kind = ascii ''apns'', d_revoke_hash = [], d_on_schedule = True \<rparr>"
  shows "d_token d \<notin> d_token ` set (to_wake (fst (register [d] (choosing id (d_token d) (d_kind d) [] False))))"
proof -
  have "registry_ok [d]"
    by (simp add: registry_ok_def ordered_def device_valid_def d_def TOKEN_MIN_def TOKEN_MAX_def is_hexdigit_def
        list_all_iff MAX_DEVICES_def MAX_ROWS_PER_TOKEN_def)
  then show ?thesis using device_without_secret_is_silenced [of "[d]" d id] by (simp add: d_def)
qed

end
