(* ===== verification/Capabilities.thy ===== *)
theory Capabilities
  imports Rotelyx_Prelude "HOL-Library.AList" "HOL-Library.Multiset"
begin

text \<open>
  Paid capabilities: tiers, signed tokens and the meter, \<^verbatim>\<open>crates/rotelyx-capability/src/lib.rs\<close>, and blind
  tokens, \<^verbatim>\<open>crates/rotelyx-capability/src/blind.rs\<close>.  Base64, Ed25519, blind RSA and the decoding of claims
  come from third-party crates and are parameters.
\<close>

section \<open>Tiers\<close>

definition TOKEN_CONTEXT :: bytes where "TOKEN_CONTEXT = ascii ''rotelyx mailbox capability v1''"
definition PERIOD_HOURS :: u64 where "PERIOD_HOURS = 24"

datatype token_error = TokEncoding | TokMalformed | TokBadSignature | TokExpired | NoIssuer

datatype tier = Free | Plus | PlusPlus

record tier_limits =
  tl_ttl_seconds :: u64
  tl_max_per_tag :: nat
  tl_max_fanout :: nat
  tl_max_payload :: nat
  tl_bytes_per_period :: u64

fun limits_of :: "tier \<Rightarrow> tier_limits" where
  "limits_of Free = \<lparr> tl_ttl_seconds = 7 * 24 * 3600, tl_max_per_tag = 64, tl_max_fanout = 25,
     tl_max_payload = 64 * 1024, tl_bytes_per_period = 64 * 1024 * 1024 \<rparr>"
| "limits_of Plus = \<lparr> tl_ttl_seconds = 30 * 24 * 3600, tl_max_per_tag = 256, tl_max_fanout = 256,
     tl_max_payload = 8 * 1024 * 1024, tl_bytes_per_period = 8 * 1024 * 1024 * 1024 \<rparr>"
| "limits_of PlusPlus = \<lparr> tl_ttl_seconds = 90 * 24 * 3600, tl_max_per_tag = 256, tl_max_fanout = 1000,
     tl_max_payload = 8 * 1024 * 1024, tl_bytes_per_period = 64 * 1024 * 1024 * 1024 \<rparr>"

fun tier_name :: "tier \<Rightarrow> string" where
  "tier_name Free = ''free''"
| "tier_name Plus = ''plus''"
| "tier_name PlusPlus = ''plus++''"

section \<open>Signed tokens\<close>

record claims =
  cl_id :: bytes
  cl_tier :: tier
  cl_expires_hour :: u64
  cl_quota_bytes :: u64

record capability =
  cap_id :: bytes
  cap_tier :: tier
  cap_limits :: tier_limits

definition capability_free :: "bytes \<Rightarrow> capability" where
  "capability_free draw = \<lparr> cap_id = draw, cap_tier = Free, cap_limits = limits_of Free \<rparr>"

text \<open>\<open>vk\<close> is the verifying key's test of a message and a signature.\<close>

definition token_verify ::
  "(string \<Rightarrow> bytes option) \<Rightarrow> (bytes \<Rightarrow> bytes \<Rightarrow> bool) \<Rightarrow> (bytes \<Rightarrow> claims option) \<Rightarrow> string \<Rightarrow> u64 \<Rightarrow>
    (token_error, capability) result" where
  "token_verify b64 vk parse token now_hour =
     bind_result (ok_or TokEncoding (b64 (trim token))) (\<lambda>raw.
       if length raw \<le> 64 then Inl TokMalformed
       else
         let body = take (length raw - 64) raw; signature = drop (length raw - 64) raw;
             signed = TOKEN_CONTEXT @ body
         in if \<not> vk signed signature then Inl TokBadSignature
            else bind_result (ok_or TokMalformed (parse body)) (\<lambda>c.
              if cl_expires_hour c \<le> now_hour then Inl TokExpired
              else
                let limits = limits_of (cl_tier c);
                    limits = (if 0 < cl_quota_bytes c then limits\<lparr>tl_bytes_per_period := cl_quota_bytes c\<rparr> else limits)
                in Inr \<lparr> cap_id = cl_id c, cap_tier = cl_tier c, cap_limits = limits \<rparr>))"

section \<open>The meter\<close>

record spent =
  sp_period :: u64
  sp_bytes :: u64

type_synonym meter = "(bytes \<times> spent) list"

datatype charge_result = Allowed u64 | OverQuota u64 u64

definition charge :: "meter \<Rightarrow> capability \<Rightarrow> u64 \<Rightarrow> u64 \<Rightarrow> meter \<times> charge_result" where
  "charge m cap bytes now_hour =
     (let limit = tl_bytes_per_period (cap_limits cap)
      in if limit = 0 then (m, Allowed (- 1))
         else
           let period = now_hour div PERIOD_HOURS;
               entry = (case map_of m (cap_id cap) of Some e \<Rightarrow> e | None \<Rightarrow> \<lparr> sp_period = 0, sp_bytes = 0 \<rparr>);
               entry = (if sp_period entry \<noteq> period then \<lparr> sp_period = period, sp_bytes = 0 \<rparr> else entry);
               would_be = saturating_add (sp_bytes entry) bytes
           in if limit < would_be then (AList.update (cap_id cap) entry m, OverQuota limit (sp_bytes entry))
              else (AList.update (cap_id cap) (entry\<lparr>sp_bytes := would_be\<rparr>) m, Allowed (limit - would_be)))"

definition meter_sweep :: "meter \<Rightarrow> u64 \<Rightarrow> meter \<times> nat" where
  "meter_sweep m now_hour =
     (let period = now_hour div PERIOD_HOURS;
          before = length m;
          kept = filter (\<lambda>(k, s). sp_period s = period) m
      in (kept, before - length kept))"

text \<open>
  Written down and read back: \<open>file\<close> is the decoded snapshot, \<^term>\<open>None\<close> where there is no file yet.
\<close>

definition meter_load :: "meter option \<Rightarrow> u64 \<Rightarrow> meter" where
  "meter_load file now_hour =
     (case file of None \<Rightarrow> [] | Some m \<Rightarrow> fst (meter_sweep m now_hour))"

section \<open>Blind tokens\<close>

definition ID_BYTES :: nat where "ID_BYTES = 16"
definition RANDOMIZER_BYTES :: nat where "RANDOMIZER_BYTES = 32"

datatype blind_error = BadKey | BlindEncoding | BlindMalformed | BlindBadSignature string | Generate | Blinding

record redeemer =
  rd_id :: bytes
  rd_randomizer :: "bytes option"
  rd_secret :: bytes

definition redeemer_to_bytes :: "redeemer \<Rightarrow> bytes" where
  "redeemer_to_bytes r =
     rd_id r @ (case rd_randomizer r of Some x \<Rightarrow> x | None \<Rightarrow> replicate RANDOMIZER_BYTES 0) @ rd_secret r"

definition redeemer_from_bytes :: "bytes \<Rightarrow> (blind_error, redeemer) result" where
  "redeemer_from_bytes bs =
     (if length bs \<le> ID_BYTES + RANDOMIZER_BYTES then Inl BlindMalformed
      else
        let i = take ID_BYTES bs; rest = drop ID_BYTES bs
        in Inr \<lparr> rd_id = i, rd_randomizer = Some (take RANDOMIZER_BYTES rest), rd_secret = drop RANDOMIZER_BYTES rest \<rparr>)"

text \<open>
  \<open>finalize pk blind_sig redeemer\<close> is the crate's unblinding; the token is encoded text.
\<close>

definition redeemer_finish ::
  "(bytes \<Rightarrow> 'pk option) \<Rightarrow> (string \<Rightarrow> bytes option) \<Rightarrow> (bytes \<Rightarrow> string) \<Rightarrow> ('pk \<Rightarrow> bytes \<Rightarrow> redeemer \<Rightarrow> bytes option) \<Rightarrow>
    redeemer \<Rightarrow> bytes \<Rightarrow> string \<Rightarrow> (blind_error, string) result" where
  "redeemer_finish from_der b64 unb64 finalize r public_der blind_sig =
     bind_result (ok_or BadKey (from_der public_der)) (\<lambda>pk.
     bind_result (ok_or BlindEncoding (b64 (trim blind_sig))) (\<lambda>raw.
     bind_result (ok_or Blinding (finalize pk raw r)) (\<lambda>signature.
     bind_result (ok_or BlindMalformed (rd_randomizer r)) (\<lambda>randomizer.
       Inr (unb64 (rd_id r @ randomizer @ signature))))))"

definition with_tier :: "(bytes \<Rightarrow> 'pk option) \<Rightarrow> (tier \<times> 'pk) list \<Rightarrow> tier \<Rightarrow> bytes \<Rightarrow> (blind_error, (tier \<times> 'pk) list) result" where
  "with_tier from_der keys t public_der =
     bind_result (ok_or BadKey (from_der public_der)) (\<lambda>pk. Inr (keys @ [(t, pk)]))"

text \<open>\<open>good pk signature randomizer id\<close> is the crate's verification.\<close>

fun try_keys :: "('pk \<Rightarrow> bytes \<Rightarrow> bytes \<Rightarrow> bytes \<Rightarrow> bool) \<Rightarrow> bytes \<Rightarrow> bytes \<Rightarrow> bytes \<Rightarrow> (tier \<times> 'pk) list \<Rightarrow> capability option" where
  "try_keys good i randomizer signature [] = None"
| "try_keys good i randomizer signature ((t, pk) # keys) =
     (if good pk signature randomizer i
      then Some \<lparr> cap_id = i, cap_tier = t, cap_limits = limits_of t \<rparr>
      else try_keys good i randomizer signature keys)"

definition blind_verify ::
  "(string \<Rightarrow> bytes option) \<Rightarrow> ('pk \<Rightarrow> bytes \<Rightarrow> bytes \<Rightarrow> bytes \<Rightarrow> bool) \<Rightarrow> (tier \<times> 'pk) list \<Rightarrow> string \<Rightarrow>
    (blind_error, capability) result" where
  "blind_verify b64 good keys token =
     bind_result (ok_or BlindEncoding (b64 (trim token))) (\<lambda>raw.
       if length raw \<le> ID_BYTES + RANDOMIZER_BYTES then Inl BlindMalformed
       else
         let i = take ID_BYTES raw; rest = drop ID_BYTES raw;
             randomizer = take RANDOMIZER_BYTES rest; signature = drop RANDOMIZER_BYTES rest
         in ok_or (BlindBadSignature (case keys of [] \<Rightarrow> ''any'' | (t, _) # _ \<Rightarrow> tier_name t))
              (try_keys good i randomizer signature keys))"

section \<open>What a token can spend\<close>

datatype meter_op = Charge capability u64 u64 | Sweep u64

fun op_hour :: "meter_op \<Rightarrow> u64" where
  "op_hour (Charge cap b t) = t"
| "op_hour (Sweep t) = t"

fun meter_step :: "meter \<Rightarrow> meter_op \<Rightarrow> meter" where
  "meter_step m (Charge cap b t) = fst (charge m cap b t)"
| "meter_step m (Sweep t) = fst (meter_sweep m t)"

text \<open>The bytes a charge lets through for an id in a period, and their sum over a history.\<close>

fun op_allowed :: "bytes \<Rightarrow> u64 \<Rightarrow> meter \<Rightarrow> meter_op \<Rightarrow> nat" where
  "op_allowed i p m (Charge cap b t) =
     (case charge m cap b t of
        (_, Allowed _) \<Rightarrow> if cap_id cap = i \<and> t div PERIOD_HOURS = p then unat b else 0
      | _ \<Rightarrow> 0)"
| "op_allowed i p m (Sweep t) = 0"

fun allowed_bytes :: "bytes \<Rightarrow> u64 \<Rightarrow> meter \<Rightarrow> meter_op list \<Rightarrow> nat" where
  "allowed_bytes i p m [] = 0"
| "allowed_bytes i p m (x # xs) = op_allowed i p m x + allowed_bytes i p (meter_step m x) xs"

definition used :: "meter \<Rightarrow> bytes \<Rightarrow> u64 \<Rightarrow> nat" where
  "used m i p = (case map_of m i of None \<Rightarrow> 0 | Some e \<Rightarrow> if sp_period e = p then unat (sp_bytes e) else 0)"

definition meter_ok :: "meter \<Rightarrow> u64 \<Rightarrow> bool" where
  "meter_ok m q \<longleftrightarrow> distinct (map fst m) \<and> (\<forall>i e. map_of m i = Some e \<longrightarrow> sp_period e \<le> q)"

lemma no_later_bytes:
  "\<forall>x\<in>set xs. p < op_hour x div PERIOD_HOURS \<Longrightarrow> allowed_bytes i p m xs = 0"
proof (induction xs arbitrary: m)
  case (Cons x xs)
  then have "op_allowed i p m x = 0" by (cases x) (auto split: prod.splits charge_result.splits)
  then show ?case using Cons by simp
qed simp

lemma map_of_filter_values:
  "distinct (map fst m) \<Longrightarrow> map_of (filter (\<lambda>(k, v). P v) m) i = (case map_of m i of None \<Rightarrow> None | Some v \<Rightarrow> if P v then Some v else None)"
proof (induction m)
  case (Cons x m)
  obtain k v where x: "x = (k, v)" by (cases x)
  with Cons.prems have "map_of m k = None" by (simp add: map_of_eq_None_iff)
  then show ?case using Cons x by auto
qed simp

text \<open>A charge under another id, and one under the id itself, by what is in the table for it.\<close>

lemma charge_other: "cap_id cap \<noteq> i \<Longrightarrow> map_of (fst (charge m cap b t)) i = map_of m i"
  by (simp add: charge_def Let_def update_conv')

definition entry_for :: "meter \<Rightarrow> bytes \<Rightarrow> u64 \<Rightarrow> spent" where
  "entry_for m i r =
     (case map_of m i of
        Some e \<Rightarrow> if sp_period e \<noteq> r then \<lparr> sp_period = r, sp_bytes = 0 \<rparr> else e
      | None \<Rightarrow> \<lparr> sp_period = r, sp_bytes = 0 \<rparr>)"

lemma entry_for_period [simp]: "sp_period (entry_for m i r) = r"
  by (simp add: entry_for_def split: option.splits)

lemma entry_for_bytes: "unat (sp_bytes (entry_for m i r)) = used m i r"
  by (simp add: entry_for_def used_def split: option.splits)

lemma charge_eq:
  "tl_bytes_per_period (cap_limits cap) \<noteq> 0 \<Longrightarrow> charge m cap b t =
    (let e = entry_for m (cap_id cap) (t div PERIOD_HOURS); w = saturating_add (sp_bytes e) b
     in if tl_bytes_per_period (cap_limits cap) < w
        then (AList.update (cap_id cap) e m, OverQuota (tl_bytes_per_period (cap_limits cap)) (sp_bytes e))
        else (AList.update (cap_id cap) (e\<lparr>sp_bytes := w\<rparr>) m, Allowed (tl_bytes_per_period (cap_limits cap) - w)))"
  by (simp add: charge_def entry_for_def Let_def split: option.splits)

lemma used_charge:
  assumes lim: "tl_bytes_per_period (cap_limits cap) = L" "0 < L" "L \<noteq> - 1"
  shows "used (fst (charge m cap b t)) (cap_id cap) p =
      (if t div PERIOD_HOURS = p then used m (cap_id cap) p + op_allowed (cap_id cap) p m (Charge cap b t) else 0)"
    and "t div PERIOD_HOURS = p \<Longrightarrow> used m (cap_id cap) p \<le> unat L \<Longrightarrow>
      used m (cap_id cap) p + op_allowed (cap_id cap) p m (Charge cap b t) \<le> unat L"
proof -
  let ?r = "t div PERIOD_HOURS"
  let ?e = "entry_for m (cap_id cap) ?r"
  let ?w = "saturating_add (sp_bytes ?e) b"
  have L: "unat L < 2 ^ 64 - 1"
  proof -
    have "unat L \<noteq> unat (- 1 :: u64)" using lim(3) by (simp add: word_unat_eq_iff [symmetric])
    then have "unat L \<noteq> 18446744073709551615" by (simp add: unsigned_minus_1_eq_mask mask_eq_exp_minus_1)
    then have "unat L < 18446744073709551615" using unat_u64_less [of L] by linarith
    then show ?thesis by simp
  qed
  have fits: "unat ?w = used m (cap_id cap) ?r + unat b" if "\<not> L < ?w"
    using that L by (simp add: unat_saturating_add entry_for_bytes word_less_nat_alt)
  have nz: "tl_bytes_per_period (cap_limits cap) \<noteq> 0" using lim(1,2) by auto
  have allowed: "op_allowed (cap_id cap) p m (Charge cap b t) = (if L < ?w \<or> ?r \<noteq> p then 0 else unat b)"
    by (auto simp: charge_eq [OF nz] lim(1) Let_def)
  show "used (fst (charge m cap b t)) (cap_id cap) p =
      (if ?r = p then used m (cap_id cap) p + op_allowed (cap_id cap) p m (Charge cap b t) else 0)"
    unfolding allowed using fits entry_for_bytes [of m "cap_id cap" ?r]
    by (auto simp: charge_eq [OF nz] lim(1) Let_def used_def [of "AList.update _ _ _"] update_conv')
  show "?r = p \<Longrightarrow> used m (cap_id cap) p \<le> unat L \<Longrightarrow>
      used m (cap_id cap) p + op_allowed (cap_id cap) p m (Charge cap b t) \<le> unat L"
    unfolding allowed using fits by (auto simp: word_less_nat_alt)
qed

lemma meter_ok_update:
  assumes "meter_ok m q" "q \<le> r" "sp_period e = r"
  shows "meter_ok (AList.update i e m) r"
  using assms unfolding meter_ok_def
  by (auto simp: distinct_update update_conv' simp del: map_of_eq_Some_iff split: if_splits intro: order_trans)

lemma meter_ok_step:
  assumes "meter_ok m q" "q \<le> op_hour x div PERIOD_HOURS"
  shows "meter_ok (meter_step m x) (op_hour x div PERIOD_HOURS)"
proof (cases x)
  case (Charge cap b t)
  have le: "sp_period e \<le> t div PERIOD_HOURS" if "map_of m i = Some e" for i e
  proof -
    have "sp_period e \<le> q" using assms(1) that unfolding meter_ok_def by blast
    then show ?thesis using assms(2) Charge by simp
  qed
  show ?thesis
  proof (cases "tl_bytes_per_period (cap_limits cap) = 0")
    case True
    then show ?thesis using le assms(1) by (auto simp: Charge charge_def meter_ok_def)
  next
    case False
    then show ?thesis using meter_ok_update [OF assms(1), of "t div PERIOD_HOURS"] assms(2)
      by (simp add: Charge charge_eq Let_def)
  qed
next
  case (Sweep t)
  have "distinct (map fst (filter (\<lambda>(k, s). P s) m))" for P
    using assms(1) by (simp add: meter_ok_def distinct_map_filter)
  then show ?thesis using assms(1)
    by (auto simp: Sweep meter_sweep_def Let_def meter_ok_def map_of_filter_values split: option.splits if_splits)
qed

lemma used_zero: "meter_ok m q \<Longrightarrow> q < p \<Longrightarrow> used m i p = 0"
proof (cases "map_of m i")
  case (Some e)
  assume "meter_ok m q" "q < p"
  then have "sp_period e \<le> q" using Some unfolding meter_ok_def by blast
  then show ?thesis using Some \<open>q < p\<close> by (auto simp: used_def)
qed (simp add: used_def)

lemma used_step:
  assumes "meter_ok m q" "q \<le> op_hour x div PERIOD_HOURS" "op_hour x div PERIOD_HOURS \<le> p" "used m i p \<le> unat L"
    and lim: "\<forall>cap b t. x = Charge cap b t \<longrightarrow> cap_id cap = i \<longrightarrow> tl_bytes_per_period (cap_limits cap) = L" "0 < L" "L \<noteq> - 1"
  shows "used (meter_step m x) i p = used m i p + op_allowed i p m x \<and> used (meter_step m x) i p \<le> unat L"
proof (cases x)
  case (Charge cap b t)
  show ?thesis
  proof (cases "cap_id cap = i")
    case True
    then have L: "tl_bytes_per_period (cap_limits cap) = L" using lim(1) Charge by blast
    show ?thesis
    proof (cases "t div PERIOD_HOURS = p")
      case True
      then show ?thesis
        using used_charge(1) [OF L lim(2,3), of m b t p] used_charge(2) [OF L lim(2,3) True, of m b] assms(4)
          \<open>cap_id cap = i\<close> by (simp add: Charge)
    next
      case False
      then have "t div PERIOD_HOURS < p" using assms(3) Charge by simp
      then have "used m i p = 0" using assms(1,2) Charge used_zero by (auto intro: le_less_trans)
      moreover have "op_allowed i p m x = 0" using False by (auto simp: Charge split: prod.splits charge_result.splits)
      ultimately show ?thesis
        using used_charge(1) [OF L lim(2,3), of m b t p] False \<open>cap_id cap = i\<close> by (simp add: Charge)
    qed
  next
    case False
    then have "op_allowed i p m x = 0" by (auto simp: Charge split: prod.splits charge_result.splits)
    then show ?thesis using charge_other [OF False, of m b t] assms(4) by (simp add: Charge used_def)
  qed
next
  case (Sweep t)
  have "used (meter_step m x) i p = used m i p"
  proof (cases "t div PERIOD_HOURS = p")
    case True
    then show ?thesis using assms(1)
      by (auto simp: Sweep meter_sweep_def Let_def used_def map_of_filter_values meter_ok_def split: option.splits)
  next
    case False
    then have r: "t div PERIOD_HOURS < p" using assms(3) Sweep by simp
    have "meter_ok (meter_step m x) (t div PERIOD_HOURS)" using meter_ok_step [OF assms(1,2)] by (simp add: Sweep)
    then show ?thesis using used_zero r assms(1,2) Sweep by (auto simp: used_zero [OF _ r] intro: le_less_trans)
  qed
  then show ?thesis using assms(4) by (simp add: Sweep)
qed

lemma u64_div_mono: "(a :: u64) \<le> b \<Longrightarrow> a div c \<le> b div c"
  by (simp add: word_le_nat_alt unat_div div_le_mono)

lemma quota_run:
  assumes lim: "\<forall>cap b t. Charge cap b t \<in> set xs \<longrightarrow> cap_id cap = i \<longrightarrow> tl_bytes_per_period (cap_limits cap) = L"
    "0 < L" "L \<noteq> - 1"
  shows "sorted (map op_hour xs) \<Longrightarrow> meter_ok m q \<Longrightarrow> \<forall>x\<in>set xs. q \<le> op_hour x div PERIOD_HOURS \<Longrightarrow>
    used m i p \<le> unat L \<Longrightarrow> used m i p + allowed_bytes i p m xs \<le> unat L"
  using lim(1)
proof (induction xs arbitrary: m q)
  case Nil
  then show ?case by simp
next
  case (Cons x xs)
  let ?r = "op_hour x div PERIOD_HOURS"
  show ?case
  proof (cases "?r \<le> p")
    case False
    have "\<forall>y\<in>set (x # xs). p < op_hour y div PERIOD_HOURS"
      using Cons.prems(1) False by (auto simp: not_le intro: less_le_trans u64_div_mono)
    then show ?thesis using no_later_bytes [of "x # xs"] Cons.prems(4) by simp
  next
    case True
    have step: "used (meter_step m x) i p = used m i p + op_allowed i p m x" "used (meter_step m x) i p \<le> unat L"
      using used_step [OF Cons.prems(2) _ True Cons.prems(4) _ lim(2,3)] Cons.prems(3,5) by auto
    have "used (meter_step m x) i p + allowed_bytes i p (meter_step m x) xs \<le> unat L"
    proof (rule Cons.IH)
      show "meter_ok (meter_step m x) ?r" using meter_ok_step [OF Cons.prems(2)] Cons.prems(3) by simp
      show "\<forall>y\<in>set xs. ?r \<le> op_hour y div PERIOD_HOURS" using Cons.prems(1) by (auto intro: u64_div_mono)
    qed (use Cons.prems step in auto)
    then show ?thesis using step(1) by simp
  qed
qed

section \<open>Properties\<close>

text \<open>C36: a quota is a quota: over any history of charges and sweeps with a clock that does not go back, the bytes
  a token is allowed within one period add up to at most its limit, whatever else is charged in between.\<close>

lemma quota_is_kept:
  assumes "sorted (map op_hour xs)" "0 < L" "L \<noteq> - 1"
    and "\<forall>cap b t. Charge cap b t \<in> set xs \<longrightarrow> cap_id cap = i \<longrightarrow> tl_bytes_per_period (cap_limits cap) = L"
  shows "allowed_bytes i p [] xs \<le> unat L"
  using quota_run [OF assms(4,2,3,1), of "[]" 0 p] by (simp add: meter_ok_def used_def)

definition sample_cap :: capability where
  "sample_cap = \<lparr> cap_id = [1], cap_tier = Free, cap_limits = (limits_of Free)\<lparr>tl_bytes_per_period := 10\<rparr> \<rparr>"

lemma quota_is_kept_witness:
  "allowed_bytes [1] 0 [] [Charge sample_cap 6 1, Charge sample_cap 6 2, Sweep 30, Charge sample_cap 6 31] \<le> 10"
  using quota_is_kept [of "[Charge sample_cap 6 1, Charge sample_cap 6 2, Sweep 30, Charge sample_cap 6 31]" 10 "[1]" 0]
  by (auto simp: sample_cap_def word_le_nat_alt)

text \<open>A blind token its holder finishes verifies to the tier whose key signed it and to the id that was
  blinded, in whatever order the server keeps its keys, as long as no two keys verify one token.\<close>

lemma redeemed_token_has_its_tier:
  assumes b64: "\<And>bs. b64 (trim (unb64 bs)) = Some bs"
    and law: "\<And>pk raw r s x. finalize pk raw r = Some s \<Longrightarrow> rd_randomizer r = Some x \<Longrightarrow> good pk s x (rd_id r) \<and> s \<noteq> []"
    and key: "(t, pk) \<in> set keys" "from_der public_der = Some pk"
    and one: "\<And>t' pk' s x. (t', pk') \<in> set keys \<Longrightarrow> good pk s x (rd_id r) \<Longrightarrow> good pk' s x (rd_id r) \<Longrightarrow> t' = t"
    and lens: "length (rd_id r) = ID_BYTES" "rd_randomizer r = Some rnd" "length rnd = RANDOMIZER_BYTES"
    and fin: "redeemer_finish from_der b64 unb64 finalize r public_der blind_sig = Inr token"
  shows "blind_verify b64 good keys token = Inr \<lparr> cap_id = rd_id r, cap_tier = t, cap_limits = limits_of t \<rparr>"
proof -
  from fin key(2) lens(2) obtain raw s where s: "finalize pk raw r = Some s" and token: "token = unb64 (rd_id r @ rnd @ s)"
    by (auto simp: redeemer_finish_def result_simps)
  have good: "good pk s rnd (rd_id r)" "s \<noteq> []" using law [OF s lens(2)] by auto
  have "(\<forall>k\<in>set ks. k \<in> set keys) \<Longrightarrow> (t, pk) \<in> set ks \<Longrightarrow>
      try_keys good (rd_id r) rnd s ks = Some \<lparr> cap_id = rd_id r, cap_tier = t, cap_limits = limits_of t \<rparr>" for ks
  proof (induction ks)
    case Nil
    then show ?case by simp
  next
    case (Cons k ks)
    obtain t' pk' where k: "k = (t', pk')" by (cases k)
    show ?case
    proof (cases "good pk' s rnd (rd_id r)")
      case True
      then have "t' = t" using one [of t' pk' s rnd] good(1) Cons.prems(1) k by simp
      then show ?thesis using True k by simp
    next
      case False
      then have "(t, pk) \<in> set ks" using Cons.prems(2) good(1) k by auto
      then show ?thesis using Cons False k by simp
    qed
  qed
  then have "try_keys good (rd_id r) rnd s keys = Some \<lparr> cap_id = rd_id r, cap_tier = t, cap_limits = limits_of t \<rparr>"
    using key(1) by simp
  then show ?thesis
    using lens good(2) b64 by (simp add: blind_verify_def token)
qed

definition sample_redeemer :: redeemer where
  "sample_redeemer = \<lparr> rd_id = replicate 16 5, rd_randomizer = Some (replicate 32 6), rd_secret = [9] \<rparr>"

lemma redeemed_token_has_its_tier_witness:
  "blind_verify sample_untext (\<lambda>pk s x i. s = [pk]) [(Free, 1), (Plus, 2)]
      (sample_text (replicate 16 5 @ replicate 32 6 @ [2])) =
    Inr \<lparr> cap_id = replicate 16 5, cap_tier = Plus, cap_limits = limits_of Plus \<rparr>"
proof -
  have fin: "redeemer_finish (\<lambda>d. Some (2 :: u8)) sample_untext sample_text (\<lambda>pk raw r. Some [pk]) sample_redeemer [] (sample_text []) =
      Inr (sample_text (replicate 16 5 @ replicate 32 6 @ [2]))"
    by (simp add: redeemer_finish_def sample_redeemer_def sample_text_back)
  show ?thesis
    using redeemed_token_has_its_tier [of sample_untext sample_text "\<lambda>pk raw r. Some [pk]" "\<lambda>pk s x i. s = [pk]" Plus 2
        "[(Free, 1), (Plus, 2)]" "\<lambda>d. Some (2 :: u8)" "[]" sample_redeemer "replicate 32 6" "sample_text []", OF _ _ _ _ _ _ _ _ fin]
    by (auto simp: sample_redeemer_def ID_BYTES_def RANDOMIZER_BYTES_def sample_text_back)
qed

end
