(* ===== verification/Sealed_Tickets.thy ===== *)
theory Sealed_Tickets
  imports Hybrid_Wraps
begin

text \<open>
  A push token sealed to the notifier, \<^verbatim>\<open>rotelyx-crypto/src/wake_ticket.rs\<close>: what a device leaves under a tag so
  that the mailbox can have it woken without learning which device it is.  A token is its UTF-8 bytes.
\<close>

section \<open>Definitions\<close>

definition TICKET_CONTEXT :: bytes where "TICKET_CONTEXT = ascii ''rotelyx wake ticket v1''"
definition TICKET_LABEL :: bytes where "TICKET_LABEL = ascii ''rotelyx wake ticket v1''"
definition TOKEN_ROOM :: nat where "TOKEN_ROOM = 256"
definition TICKET_BODY_LEN :: nat where "TICKET_BODY_LEN = 1 + 2 + TOKEN_ROOM + 8"
definition SEALED_TICKET_LEN :: nat where "SEALED_TICKET_LEN = CIPHERTEXT_LEN + 24 + TICKET_BODY_LEN + 16"
definition TICKET_MAX_AGE_HOURS :: u64 where "TICKET_MAX_AGE_HOURS = 48"

datatype ticket_kind = Apns | Fcm

fun kind_code :: "ticket_kind \<Rightarrow> u8" where
  "kind_code Apns = 1"
| "kind_code Fcm = 2"

definition kind_from_code :: "u8 \<Rightarrow> ticket_kind option" where
  "kind_from_code code = (if code = 1 then Some Apns else if code = 2 then Some Fcm else None)"

fun kind_name :: "ticket_kind \<Rightarrow> string" where
  "kind_name Apns = ''apns''"
| "kind_name Fcm = ''fcm''"

record woken =
  wk_kind :: ticket_kind
  wk_token :: bytes

record wake_ticket =
  wt_kem :: bytes
  wt_nonce :: bytes
  wt_sealed :: bytes

definition ticket_key :: "hash \<Rightarrow> bytes \<Rightarrow> bytes" where
  "ticket_key h secret = hybrid_derive_key h secret TICKET_CONTEXT"

definition ticket_body :: "ticket_kind \<Rightarrow> bytes \<Rightarrow> u64 \<Rightarrow> bytes" where
  "ticket_body kind token minted_hour =
     kind_code kind # u16_be (word_of_nat (length token)) @ (token @ replicate (TOKEN_ROOM - length token) 0) @ u64_be minted_hour"

definition ticket_seal ::
  "hash \<Rightarrow> aead_enc \<Rightarrow> bytes \<times> bytes \<Rightarrow> bytes option \<Rightarrow> ticket_kind \<Rightarrow> bytes \<Rightarrow> u64 \<Rightarrow> (hybrid_error, wake_ticket) result" where
  "ticket_seal h enc encapsulated draw kind token minted_hour =
     (if token = [] \<or> TOKEN_ROOM < length token then Inl BadCiphertext
      else case encapsulated of (kem, kem_secret) \<Rightarrow>
        let key = ticket_key h kem_secret
        in bind_result (ok_or Entropy draw) (\<lambda>nonce.
           bind_result (ok_or BadCiphertext (enc key nonce TICKET_LABEL (ticket_body kind token minted_hour))) (\<lambda>sealed.
             Inr \<lparr> wt_kem = kem, wt_nonce = nonce, wt_sealed = sealed \<rparr>)))"

definition read_ticket :: "bytes \<Rightarrow> u64 \<Rightarrow> (hybrid_error, woken) result" where
  "read_ticket body now_hour =
     (if length body \<noteq> TICKET_BODY_LEN then Inl BadCiphertext
      else bind_result (ok_or BadCiphertext (kind_from_code (body ! 0))) (\<lambda>kind.
        let len = of_be [body ! 1, body ! 2]
        in if len = 0 \<or> TOKEN_ROOM < len then Inl BadCiphertext
           else
             let minted = word_of_nat (of_be (drop (3 + TOKEN_ROOM) body)) :: u64
             in if TICKET_MAX_AGE_HOURS < saturating_sub now_hour minted \<or> now_hour + 1 < minted then Inl BadCiphertext
                else let token = take len (drop 3 body)
                     in if utf8_valid token then Inr \<lparr> wk_kind = kind, wk_token = token \<rparr> else Inl BadCiphertext))"

definition ticket_open :: "hash \<Rightarrow> aead_dec \<Rightarrow> (bytes \<Rightarrow> bytes) \<Rightarrow> wake_ticket \<Rightarrow> u64 \<Rightarrow> (hybrid_error, woken) result" where
  "ticket_open h dec decaps t now_hour =
     (let key = ticket_key h (decaps (wt_kem t))
      in bind_result (ok_or Decapsulation (dec key (wt_nonce t) TICKET_LABEL (wt_sealed t))) (\<lambda>body. read_ticket body now_hour))"

definition ticket_to_bytes :: "wake_ticket \<Rightarrow> bytes" where
  "ticket_to_bytes t = wt_kem t @ wt_nonce t @ wt_sealed t"

definition ticket_from_bytes :: "bytes \<Rightarrow> (hybrid_error, wake_ticket) result" where
  "ticket_from_bytes bs =
     (if length bs \<noteq> SEALED_TICKET_LEN then Inl BadCiphertext
      else bind_result (hybrid_ciphertext_from_bytes (take CIPHERTEXT_LEN bs)) (\<lambda>kem.
        Inr \<lparr> wt_kem = kem, wt_nonce = take 24 (drop CIPHERTEXT_LEN bs), wt_sealed = drop (CIPHERTEXT_LEN + 24) bs \<rparr>))"

section \<open>Reading what was sealed\<close>

lemmas ticket_consts = TICKET_BODY_LEN_def TOKEN_ROOM_def SEALED_TICKET_LEN_def CIPHERTEXT_LEN_def

lemma kind_from_kind_code [simp]: "kind_from_code (kind_code k) = Some k"
  by (cases k) (simp_all add: kind_from_code_def)

lemma length_ticket_body: "length token \<le> TOKEN_ROOM \<Longrightarrow> length (ticket_body kind token m) = TICKET_BODY_LEN"
  by (simp add: ticket_body_def ticket_consts)

lemma young_iff:
  fixes now minted :: u64
  assumes "now \<noteq> - 1"
  shows "\<not> (TICKET_MAX_AGE_HOURS < saturating_sub now minted \<or> now + 1 < minted) \<longleftrightarrow>
    unat now \<le> unat minted + 48 \<and> unat minted \<le> unat now + 1"
proof -
  have "unat (now + 1) = unat now + 1" using checked_add_unat [of now 1] assms by (simp add: checked_add_1)
  then show ?thesis
    by (auto simp: TICKET_MAX_AGE_HOURS_def word_less_nat_alt)
qed

lemma two_bytes: "length xs = 2 \<Longrightarrow> [xs ! 0, xs ! Suc 0] = xs"
  by (cases xs; cases "tl xs") auto

lemma read_ticket_body:
  assumes "utf8_valid token" "token \<noteq> []" "length token \<le> TOKEN_ROOM" "now \<noteq> - 1"
  shows "read_ticket (ticket_body kind token minted) now =
    (if unat now \<le> unat minted + 48 \<and> unat minted \<le> unat now + 1
     then Inr \<lparr> wk_kind = kind, wk_token = token \<rparr> else Inl BadCiphertext)"
proof -
  let ?body = "ticket_body kind token minted"
  have len: "length ?body = TICKET_BODY_LEN" using assms(3) by (rule length_ticket_body)
  have "of_be (u16_be (word_of_nat (length token))) = length token"
    using assms(3) by (simp add: u16_be_def of_be_be_bytes unat_of_nat ticket_consts)
  moreover have "[?body ! 1, ?body ! 2] = u16_be (word_of_nat (length token))"
    using two_bytes [of "u16_be (word_of_nat (length token))"] by (simp add: ticket_body_def nth_append)
  ultimately have l: "of_be [?body ! 1, ?body ! 2] = length token" by simp
  have m: "word_of_nat (of_be (drop (3 + TOKEN_ROOM) ?body)) = minted"
    using assms(3) by (simp add: ticket_body_def TOKEN_ROOM_def drop_Cons')
  have t: "take (length token) (drop 3 ?body) = token" by (simp add: ticket_body_def)
  have k: "kind_from_code (?body ! 0) = Some kind" by (simp add: ticket_body_def)
  show ?thesis
    unfolding read_ticket_def len k l m t young_iff [OF assms(4)] Let_def
    using young_iff [OF assms(4), of minted] assms(1-3) by (auto split: if_splits)
qed

lemma ticket_seal_Inr:
  assumes "ticket_seal h enc (kem, secret) draw kind token minted = Inr t"
  obtains nonce sealed where "draw = Some nonce" "enc (ticket_key h secret) nonce TICKET_LABEL (ticket_body kind token minted) = Some sealed"
    "t = \<lparr> wt_kem = kem, wt_nonce = nonce, wt_sealed = sealed \<rparr>" "token \<noteq> []" "length token \<le> TOKEN_ROOM"
  using assms by (auto simp: ticket_seal_def Let_def result_simps split: if_splits)

section \<open>Properties\<close>

text \<open>A ticket wakes its device while it is young and never after: the notifier reads the sealed kind and token
  exactly when the ticket was minted at most 48 hours before and at most one hour after its own clock, and at any
  other time gets an error.\<close>

theorem ticket_opens_while_young:
  assumes "aead_opens enc dec" "decaps kem = secret" "utf8_valid token" "now \<noteq> - 1"
    and "ticket_seal h enc (kem, secret) draw kind token minted = Inr t"
  shows "ticket_open h dec decaps t now =
    (if unat now \<le> unat minted + 48 \<and> unat minted \<le> unat now + 1
     then Inr \<lparr> wk_kind = kind, wk_token = token \<rparr> else Inl BadCiphertext)"
  using assms(5)
proof (rule ticket_seal_Inr)
  fix nonce sealed
  assume s: "enc (ticket_key h secret) nonce TICKET_LABEL (ticket_body kind token minted) = Some sealed"
    "t = \<lparr> wt_kem = kem, wt_nonce = nonce, wt_sealed = sealed \<rparr>" "token \<noteq> []" "length token \<le> TOKEN_ROOM"
  then have "ticket_open h dec decaps t now = read_ticket (ticket_body kind token minted) now"
    using aead_opensD [OF assms(1) s(1)] assms(2) by (simp add: ticket_open_def)
  then show ?thesis using read_ticket_body [OF assms(3) s(3,4) assms(4)] by simp
qed

lemma ticket_opens_while_young_witness:
  "\<exists>t. ticket_seal (\<lambda>c m. m) sample_enc ([6], [6]) (Some (replicate 24 1)) Fcm [104, 105] 100 = Inr t \<and>
    ticket_open (\<lambda>c m. m) sample_dec (\<lambda>k. k) t 148 = Inr \<lparr> wk_kind = Fcm, wk_token = [104, 105] \<rparr> \<and>
    ticket_open (\<lambda>c m. m) sample_dec (\<lambda>k. k) t 149 = Inl BadCiphertext"
proof -
  obtain t where t: "ticket_seal (\<lambda>c m. m) sample_enc ([6], [6]) (Some (replicate 24 1)) Fcm [104, 105] 100 = Inr t"
    by (simp add: ticket_seal_def sample_enc_def TOKEN_ROOM_def)
  note young = ticket_opens_while_young [OF sample_aead(1) _ _ _ t, where decaps = "\<lambda>k. k"]
  show ?thesis using t young [of 148] young [of 149] by simp
qed

text \<open>A ticket says nothing by its length and survives the wire: whichever push service its token belongs to, it
  has the one length every ticket has, and its bytes read back as the ticket.\<close>

theorem tickets_look_alike:
  assumes "aead_grows enc" "length kem = CIPHERTEXT_LEN" "length nonce = 24"
    and "ticket_seal h enc (kem, secret) (Some nonce) kind token minted = Inr t"
  shows "length (ticket_to_bytes t) = SEALED_TICKET_LEN \<and> ticket_from_bytes (ticket_to_bytes t) = Inr t"
  using assms(4)
proof (rule ticket_seal_Inr)
  fix nonce' sealed
  assume s: "Some nonce = Some nonce'" "enc (ticket_key h secret) nonce' TICKET_LABEL (ticket_body kind token minted) = Some sealed"
    "t = \<lparr> wt_kem = kem, wt_nonce = nonce', wt_sealed = sealed \<rparr>" "length token \<le> TOKEN_ROOM"
  have "length sealed = TICKET_BODY_LEN + 16"
    using assms(1) s(2) length_ticket_body [OF s(4)] by (fastforce simp: aead_grows_def)
  then show ?thesis
    using s assms(2,3) by (simp add: ticket_to_bytes_def ticket_from_bytes_def SEALED_TICKET_LEN_def hybrid_ciphertext_from_bytes_def)
qed

lemma tickets_look_alike_witness:
  "\<exists>t. ticket_seal (\<lambda>c m. m) sample_enc (replicate 1120 6, [6]) (Some (replicate 24 1)) Apns [104] 100 = Inr t \<and>
    length (ticket_to_bytes t) = SEALED_TICKET_LEN"
proof -
  obtain t where t: "ticket_seal (\<lambda>c m. m) sample_enc (replicate 1120 6, [6]) (Some (replicate 24 1)) Apns [104] 100 = Inr t"
    by (simp add: ticket_seal_def sample_enc_def TOKEN_ROOM_def)
  show ?thesis using t tickets_look_alike [OF sample_aead(2) _ _ t] by (simp add: CIPHERTEXT_LEN_def)
qed

end
