(* ===== verification/Mailbox_Session.thy ===== *)
theory Mailbox_Session
  imports Hex_Tags Mailbox_Store Wake_Tickets Wake_Registry Capabilities Sealed_Tickets "HOL-Library.Multiset"
begin

text \<open>
  A session with the mailbox server, \<^verbatim>\<open>rotelyx-mailbox-server/src/main.rs\<close>: every request a client can make, what a
  session does when something arrives, and the server as a number of sessions around one mailbox, one ticket store,
  one registry and one meter.  The JSON of a frame is already read; Base64, SHA-256, BLAKE3 and the signatures are
  parameters; the text of an error is a constructor.  The server is built to abort on a panic, so a panic is
  \<^term>\<open>None\<close> for the server as a whole.
\<close>

section \<open>What a connection listens on\<close>

definition MAX_TAGS_PER_SUBSCRIPTION :: nat where "MAX_TAGS_PER_SUBSCRIPTION = 64"
definition MAX_TAGS_PER_CONNECTION :: nat where "MAX_TAGS_PER_CONNECTION = 256"
definition MAX_TICKET_CHARS :: nat where "MAX_TICKET_CHARS = 4 * ((SEALED_TICKET_LEN + 2) div 3) + 4"
definition MAX_FRAME_BYTES :: nat where "MAX_FRAME_BYTES = 12 * 1024 * 1024"

record listening =
  ls_set :: "tag set"
  ls_order :: "tag list"

definition listening_default :: listening where
  "listening_default = \<lparr> ls_set = {}, ls_order = [] \<rparr>"

definition listening_contains :: "listening \<Rightarrow> tag \<Rightarrow> bool" where
  "listening_contains l t \<longleftrightarrow> t \<in> ls_set l"

definition listening_len :: "listening \<Rightarrow> nat" where
  "listening_len l = card (ls_set l)"

definition listening_tags :: "listening \<Rightarrow> tag list" where
  "listening_tags l = ls_order l"

definition listening_add :: "tag \<Rightarrow> listening \<Rightarrow> listening" where
  "listening_add t l =
     (if t \<in> ls_set l then l else l\<lparr>ls_set := insert t (ls_set l), ls_order := ls_order l @ [t]\<rparr>)"

definition listening_remove :: "tag \<Rightarrow> listening \<Rightarrow> listening" where
  "listening_remove t l =
     (if t \<in> ls_set l then l\<lparr>ls_set := ls_set l - {t}, ls_order := filter (\<lambda>held. held \<noteq> t) (ls_order l)\<rparr> else l)"

text \<open>The loop of \<^verbatim>\<open>make_room_for\<close> over the queue, oldest first.\<close>

fun drop_oldest :: "tag set \<Rightarrow> tag list \<Rightarrow> nat \<Rightarrow> nat \<Rightarrow> listening \<times> nat" where
  "drop_oldest s [] wanted cap = (\<lparr> ls_set = s, ls_order = [] \<rparr>, 0)"
| "drop_oldest s (oldest # order) wanted cap =
     (if cap < card s + wanted
      then (case drop_oldest (s - {oldest}) order wanted cap of (l, dropped) \<Rightarrow> (l, dropped + 1))
      else (\<lparr> ls_set = s, ls_order = oldest # order \<rparr>, 0))"

definition make_room_for :: "listening \<Rightarrow> nat \<Rightarrow> nat \<Rightarrow> listening \<times> nat" where
  "make_room_for l wanted cap = drop_oldest (ls_set l) (ls_order l) wanted cap"

section \<open>The wire protocol\<close>

datatype request =
    Subscribe "bytes list"
  | Unsubscribe "bytes list"
  | Collected "bytes list"
  | Deposit string
  | Auth string
  | AuthBlind string
  | RegisterWake bytes bytes bytes bool
  | RevokeWake bytes
  | LeaveTickets "(bytes \<times> string) list"

datatype problem =
    NoTokenIssuer | TokenProblem token_error | NoBlindKey | BlindProblem blind_error
  | WakesNobody | ShortSecret | NotAPushToken
  | TooManyTags | NotATag | TooManyReceipts | NotAReceipt | TooManyTickets | NotATicket
  | NotBase64 | NotAnEnvelope envelope_error | PayloadOver string nat | StoreProblem store_error
  | FrameTooLarge | MalformedRequest

datatype reply =
    Ready nat
  | EnvelopeReply string
  | Stored
  | TicketsLeft nat
  | Dropped nat
  | WakeRegistered u64
  | TierReply string nat nat u64 u64
  | OverQuotaReply u64 u64 string
  | ErrorReply problem

section \<open>The server and its environment\<close>

record 'pk server =
  sv_mailbox :: mailbox
  sv_tickets :: tickets
  sv_meter :: meter
  sv_registry :: registry
  sv_tokens :: "(bytes \<Rightarrow> bytes \<Rightarrow> bool) option"
  sv_blind :: "(tier \<times> 'pk) list"
  sv_pushers :: bool
  sv_wake_every :: u64
  sv_notifier :: "nat option"
  sv_next_connection :: u64
  sv_deposit_micros :: u64
  sv_connections_open :: u64
  sv_connections_total :: u64
  sv_deposits :: u64
  sv_delivered :: u64
  sv_expired :: u64
  sv_refused :: u64

text \<open>The libraries, and what a request finds of the world: the time, how long the store took, the randomness drawn.\<close>

record 'pk lib =
  lib_b64 :: "string \<Rightarrow> bytes option"
  lib_b64_encode :: "bytes \<Rightarrow> string"
  lib_parse :: "bytes \<Rightarrow> claims option"
  lib_good :: "'pk \<Rightarrow> bytes \<Rightarrow> bytes \<Rightarrow> bytes \<Rightarrow> bool"
  lib_kdf :: kdf
  lib_sha :: "bytes \<Rightarrow> bytes"

record moment =
  now_seconds :: u64
  took_micros :: nat
  random_bytes :: "bytes option"

text \<open>
  A session: its number, what it listens on, its tier, how many more frames its peer takes before the socket fails,
  and the wakes broadcast to it that it has not looked at yet.
\<close>

record session =
  se_id :: u64
  se_listening :: listening
  se_cap :: capability
  se_wire :: nat
  se_inbox :: "(tag \<times> u64) list"

datatype effect = SendReply reply | Broadcast tag u64 | CallNotifier "string list"

type_synonym 'pk handled = "('pk server \<times> session \<times> effect list \<times> reply option) option"

definition answer :: "'pk server \<Rightarrow> session \<Rightarrow> reply \<Rightarrow> 'pk handled" where
  "answer sv se r = Some (sv, se, [], Some r)"

text \<open>Sending several frames, up to the first that the socket refuses.\<close>

definition send_all :: "session \<Rightarrow> reply list \<Rightarrow> session \<times> effect list \<times> bool" where
  "send_all se rs =
     (se\<lparr>se_wire := se_wire se - length rs\<rparr>, map SendReply (take (se_wire se) rs), length rs \<le> se_wire se)"

definition envelope_replies :: "'pk lib \<Rightarrow> envelope list \<Rightarrow> reply list" where
  "envelope_replies lb es = map (\<lambda>e. EnvelopeReply (lib_b64_encode lb (envelope_to_bytes e))) es"

section \<open>Requests\<close>

definition tier_reply :: "'pk server \<Rightarrow> capability \<Rightarrow> moment \<Rightarrow> 'pk server \<times> reply" where
  "tier_reply sv cap mo =
     (let (m, c) = charge (sv_meter sv) cap 0 (now_seconds mo div 3600);
          remaining = (case c of Allowed r \<Rightarrow> r | OverQuota _ _ \<Rightarrow> 0)
      in (sv\<lparr>sv_meter := m\<rparr>,
          TierReply (tier_name (cap_tier cap)) (tl_max_fanout (cap_limits cap)) (tl_max_payload (cap_limits cap))
            (tl_ttl_seconds (cap_limits cap) div 86400) remaining))"

definition handle_auth :: "'pk lib \<Rightarrow> moment \<Rightarrow> 'pk server \<Rightarrow> session \<Rightarrow> string \<Rightarrow> 'pk handled" where
  "handle_auth lb mo sv se token =
     (case sv_tokens sv of
        None \<Rightarrow> answer sv se (ErrorReply NoTokenIssuer)
      | Some vk \<Rightarrow>
          (case token_verify (lib_b64 lb) vk (lib_parse lb) token (now_seconds mo div 3600) of
             Inl e \<Rightarrow> answer sv se (ErrorReply (TokenProblem e))
           | Inr granted \<Rightarrow> (case tier_reply sv granted mo of (sv, r) \<Rightarrow> answer sv (se\<lparr>se_cap := granted\<rparr>) r)))"

definition handle_auth_blind :: "'pk lib \<Rightarrow> moment \<Rightarrow> 'pk server \<Rightarrow> session \<Rightarrow> string \<Rightarrow> 'pk handled" where
  "handle_auth_blind lb mo sv se token =
     (if sv_blind sv = [] then answer sv se (ErrorReply NoBlindKey)
      else
        (case blind_verify (lib_b64 lb) (lib_good lb) (sv_blind sv) token of
           Inl e \<Rightarrow> answer sv se (ErrorReply (BlindProblem e))
         | Inr granted \<Rightarrow> (case tier_reply sv granted mo of (sv, r) \<Rightarrow> answer sv (se\<lparr>se_cap := granted\<rparr>) r)))"

definition handle_register_wake ::
  "'pk lib \<Rightarrow> 'pk server \<Rightarrow> session \<Rightarrow> bytes \<Rightarrow> bytes \<Rightarrow> bytes \<Rightarrow> bool \<Rightarrow> 'pk handled" where
  "handle_register_wake lb sv se token kind secret on_schedule =
     (if \<not> sv_pushers sv then answer sv se (ErrorReply WakesNobody)
      else if \<not> secret_is_long_enough secret then answer sv se (ErrorReply ShortSecret)
      else
        let (r, accepted) = register (sv_registry sv) (choosing (lib_sha lb) token kind secret on_schedule);
            sv = sv\<lparr>sv_registry := r\<rparr>
        in if \<not> accepted then answer sv se (ErrorReply NotAPushToken)
           else answer sv se (WakeRegistered (if on_schedule then sv_wake_every sv else 0)))"

definition handle_revoke_wake :: "'pk lib \<Rightarrow> 'pk server \<Rightarrow> session \<Rightarrow> bytes \<Rightarrow> 'pk handled" where
  "handle_revoke_wake lb sv se secret =
     answer (sv\<lparr>sv_registry := fst (revoke_wake (lib_sha lb) (sv_registry sv) secret)\<rparr>) se (WakeRegistered (sv_wake_every sv))"

fun parse_tags :: "bytes list \<Rightarrow> tag list option option" where
  "parse_tags [] = Some (Some [])"
| "parse_tags (s # ss) =
     (case parse_tag s of
        None \<Rightarrow> None
      | Some None \<Rightarrow> Some None
      | Some (Some t) \<Rightarrow> map_option (map_option ((#) t)) (parse_tags ss))"

definition handle_subscribe :: "'pk lib \<Rightarrow> moment \<Rightarrow> 'pk server \<Rightarrow> session \<Rightarrow> bytes list \<Rightarrow> 'pk handled" where
  "handle_subscribe lb mo sv se tags =
     (if MAX_TAGS_PER_SUBSCRIPTION < length tags then answer sv se (ErrorReply TooManyTags)
      else
        (case parse_tags tags of
           None \<Rightarrow> None
         | Some None \<Rightarrow> answer sv se (ErrorReply NotATag)
         | Some (Some parsed) \<Rightarrow>
             let l = fst (make_room_for (se_listening se) (length parsed) MAX_TAGS_PER_CONNECTION);
                 l = fold listening_add parsed l;
                 waiting = peek_many (sv_mailbox sv) parsed (unat (now_seconds mo));
                 sv = sv\<lparr>sv_delivered := sv_delivered sv + word_of_nat (length waiting)\<rparr>;
                 (se, sent, ok) = send_all (se\<lparr>se_listening := l\<rparr>) (envelope_replies lb waiting)
             in Some (sv, se, sent, if ok then Some (Ready (length waiting)) else None)))"

datatype receipts = Removed nat | BadReceipt | ReceiptPanics

fun acknowledge :: "kdf \<Rightarrow> tag list \<Rightarrow> bytes list \<Rightarrow> mailbox \<Rightarrow> nat \<Rightarrow> mailbox \<times> receipts" where
  "acknowledge kdf listening [] m removed = (m, Removed removed)"
| "acknowledge kdf listening (d # ds) m removed =
     (case parse_digest d of
        None \<Rightarrow> (m, ReceiptPanics)
      | Some None \<Rightarrow> (m, BadReceipt)
      | Some (Some bs) \<Rightarrow>
          (case remove_acknowledged kdf m listening bs of
             (m', hit) \<Rightarrow> acknowledge kdf listening ds m' (if hit then removed + 1 else removed)))"

definition handle_collected :: "'pk lib \<Rightarrow> 'pk server \<Rightarrow> session \<Rightarrow> bytes list \<Rightarrow> 'pk handled" where
  "handle_collected lb sv se digests =
     (if MAX_TAGS_PER_CONNECTION < length digests then answer sv se (ErrorReply TooManyReceipts)
      else
        (case acknowledge (lib_kdf lb) (listening_tags (se_listening se)) digests (sv_mailbox sv) 0 of
           (m, Removed n) \<Rightarrow> answer (sv\<lparr>sv_mailbox := m\<rparr>) se (Dropped n)
         | (m, BadReceipt) \<Rightarrow> answer (sv\<lparr>sv_mailbox := m\<rparr>) se (ErrorReply NotAReceipt)
         | (m, ReceiptPanics) \<Rightarrow> None))"

fun unsubscribe_all :: "bytes list \<Rightarrow> listening \<Rightarrow> listening option" where
  "unsubscribe_all [] l = Some l"
| "unsubscribe_all (s # ss) l =
     (case parse_tag s of
        None \<Rightarrow> None
      | Some None \<Rightarrow> unsubscribe_all ss l
      | Some (Some t) \<Rightarrow> unsubscribe_all ss (listening_remove t l))"

definition handle_unsubscribe :: "'pk server \<Rightarrow> session \<Rightarrow> bytes list \<Rightarrow> 'pk handled" where
  "handle_unsubscribe sv se tags =
     (case unsubscribe_all tags (se_listening se) of
        None \<Rightarrow> None
      | Some l \<Rightarrow> answer sv (se\<lparr>se_listening := l\<rparr>) (Dropped (listening_len l)))"

datatype leaving = Taken nat | LeavingFails problem | LeavingPanics

fun leave_all :: "(bytes \<times> string) list \<Rightarrow> nat \<Rightarrow> tickets \<Rightarrow> nat \<Rightarrow> tickets \<times> leaving" where
  "leave_all [] now m taken = (m, Taken taken)"
| "leave_all ((s, tk) # pairs) now m taken =
     (case parse_tag s of
        None \<Rightarrow> (m, LeavingPanics)
      | Some None \<Rightarrow> (m, LeavingFails NotATag)
      | Some (Some t) \<Rightarrow>
          if MAX_TICKET_CHARS < length tk then (m, LeavingFails NotATicket)
          else
            (case leave_ticket m t tk now of
               (m', Inr _) \<Rightarrow> leave_all pairs now m' (taken + 1)
             | (m', Inl _) \<Rightarrow> leave_all pairs now m' taken))"

definition handle_leave_tickets :: "moment \<Rightarrow> 'pk server \<Rightarrow> session \<Rightarrow> (bytes \<times> string) list \<Rightarrow> 'pk handled" where
  "handle_leave_tickets mo sv se tickets =
     (if MAX_TAGS_PER_SUBSCRIPTION < length tickets then answer sv se (ErrorReply TooManyTickets)
      else
        (case leave_all tickets (unat (now_seconds mo)) (sv_tickets sv) 0 of
           (m, Taken n) \<Rightarrow> answer (sv\<lparr>sv_tickets := m\<rparr>) se (TicketsLeft n)
         | (m, LeavingFails p) \<Rightarrow> answer (sv\<lparr>sv_tickets := m\<rparr>) se (ErrorReply p)
         | (m, LeavingPanics) \<Rightarrow> None))"

text \<open>The tickets handed to the notifier: \<^verbatim>\<open>getrandom\<close> filled eight bytes for each, read in little-endian order.\<close>

definition swap :: "nat \<Rightarrow> nat \<Rightarrow> 'a list \<Rightarrow> 'a list" where
  "swap i j xs = xs[i := xs ! j, j := xs ! i]"

fun shuffle_from :: "nat \<Rightarrow> bytes \<Rightarrow> 'a list \<Rightarrow> 'a list" where
  "shuffle_from 0 random xs = xs"
| "shuffle_from (Suc i) random xs =
     (let j = of_be (rev (take 8 (drop (Suc i * 8) random))) mod (Suc i + 1)
      in shuffle_from i random (swap (Suc i) j xs))"

definition notify :: "moment \<Rightarrow> 'pk server \<Rightarrow> tag \<Rightarrow> effect list" where
  "notify mo sv tag =
     (case sv_notifier sv of
        None \<Rightarrow> []
      | Some n \<Rightarrow>
          let now = unat (now_seconds mo);
              real = for_tag (sv_tickets sv) tag now
          in if real = [] then []
             else
               let tickets = real @ decoys (sv_tickets sv) tag n now (unat (sv_next_connection sv))
               in [CallNotifier (case random_bytes mo of
                     None \<Rightarrow> tickets
                   | Some random \<Rightarrow> shuffle_from (length tickets - 1) random tickets)])"

definition handle_deposit :: "'pk lib \<Rightarrow> moment \<Rightarrow> 'pk server \<Rightarrow> session \<Rightarrow> string \<Rightarrow> 'pk handled" where
  "handle_deposit lb mo sv se text =
     (case lib_b64 lb (trim text) of
        None \<Rightarrow> answer sv se (ErrorReply NotBase64)
      | Some bs \<Rightarrow>
     (case envelope_from_bytes bs of
        Inl e \<Rightarrow> answer sv se (ErrorReply (NotAnEnvelope e))
      | Inr e \<Rightarrow>
     (if tl_max_payload (cap_limits (se_cap se)) < length (e_payload e)
      then answer sv se (ErrorReply (PayloadOver (tier_name (cap_tier (se_cap se))) (tl_max_payload (cap_limits (se_cap se)))))
      else
     (case charge (sv_meter sv) (se_cap se) (word_of_nat (length (e_payload e))) (now_seconds mo div 3600) of
        (m, OverQuota limit spent) \<Rightarrow>
          answer (sv\<lparr>sv_meter := m, sv_refused := sv_refused sv + 1\<rparr>) se
            (OverQuotaReply limit spent (tier_name (cap_tier (se_cap se))))
      | (m, Allowed _) \<Rightarrow>
     (case deposit_with (sv_mailbox sv) e (unat (now_seconds mo)) (unat (tl_ttl_seconds (cap_limits (se_cap se))))
             (tl_max_per_tag (cap_limits (se_cap se))) of
        None \<Rightarrow> None
      | Some (mb, Inl err) \<Rightarrow> answer (sv\<lparr>sv_meter := m, sv_mailbox := mb\<rparr>) se (ErrorReply (StoreProblem err))
      | Some (mb, Inr _) \<Rightarrow>
          let took = word_of_nat (min (took_micros mo) (2 ^ 32 - 1));
              sv = sv\<lparr>sv_meter := m, sv_mailbox := mb, sv_deposit_micros := (sv_deposit_micros sv * 7 + took) div 8\<rparr>
          in Some (sv\<lparr>sv_deposits := sv_deposits sv + 1\<rparr>, se,
               Broadcast (e_tag e) (se_id se) # notify mo sv (e_tag e), Some Stored))))))"

fun handle_request :: "'pk lib \<Rightarrow> moment \<Rightarrow> 'pk server \<Rightarrow> session \<Rightarrow> request \<Rightarrow> 'pk handled" where
  "handle_request lb mo sv se (Auth token) = handle_auth lb mo sv se token"
| "handle_request lb mo sv se (AuthBlind token) = handle_auth_blind lb mo sv se token"
| "handle_request lb mo sv se (RegisterWake token kind secret on_schedule) =
     handle_register_wake lb sv se token kind secret on_schedule"
| "handle_request lb mo sv se (RevokeWake secret) = handle_revoke_wake lb sv se secret"
| "handle_request lb mo sv se (Subscribe tags) = handle_subscribe lb mo sv se tags"
| "handle_request lb mo sv se (Collected digests) = handle_collected lb sv se digests"
| "handle_request lb mo sv se (Unsubscribe tags) = handle_unsubscribe sv se tags"
| "handle_request lb mo sv se (LeaveTickets tickets) = handle_leave_tickets mo sv se tickets"
| "handle_request lb mo sv se (Deposit text) = handle_deposit lb mo sv se text"

section \<open>A session\<close>

text \<open>
  What can happen to a session: a text frame of so many bytes, read as a request or malformed; a wake it takes from its
  inbox; the peer going away.  The result says whether the session goes on.
\<close>

datatype input = FrameIn nat "request option" | WakeUp | PeerGone

type_synonym 'pk stepped = "('pk server \<times> session \<times> effect list \<times> bool) option"

definition finish_request :: "'pk handled \<Rightarrow> 'pk stepped" where
  "finish_request h =
     map_option (\<lambda>(sv, se, out, r).
       case r of
         None \<Rightarrow> (sv, se, out, True)
       | Some r \<Rightarrow> (case send_all se [r] of (se, sent, ok) \<Rightarrow> (sv, se, out @ sent, ok))) h"

definition deliver_wake :: "'pk lib \<Rightarrow> moment \<Rightarrow> 'pk server \<Rightarrow> session \<Rightarrow> tag \<Rightarrow> u64 \<Rightarrow> 'pk stepped" where
  "deliver_wake lb mo sv se tag sender =
     (if sender = se_id se \<or> \<not> listening_contains (se_listening se) tag then Some (sv, se, [], True)
      else
        (case collect (sv_mailbox sv) tag (unat (now_seconds mo)) of
           (m, envelopes) \<Rightarrow>
             let sv = sv\<lparr>sv_mailbox := m, sv_delivered := sv_delivered sv + word_of_nat (length envelopes)\<rparr>
             in (case send_all se (envelope_replies lb envelopes) of (se, sent, ok) \<Rightarrow> Some (sv, se, sent, ok))))"

fun session_step :: "'pk lib \<Rightarrow> moment \<Rightarrow> 'pk server \<Rightarrow> session \<Rightarrow> input \<Rightarrow> 'pk stepped" where
  "session_step lb mo sv se (FrameIn len req) =
     (if MAX_FRAME_BYTES < len
      then (case send_all se [ErrorReply FrameTooLarge] of (se, sent, _) \<Rightarrow> Some (sv, se, sent, True))
      else finish_request (case req of
             None \<Rightarrow> answer sv se (ErrorReply MalformedRequest)
           | Some r \<Rightarrow> handle_request lb mo sv se r))"
| "session_step lb mo sv se WakeUp =
     (case se_inbox se of
        [] \<Rightarrow> Some (sv, se, [], True)
      | (tag, sender) # rest \<Rightarrow> deliver_wake lb mo sv (se\<lparr>se_inbox := rest\<rparr>) tag sender)"
| "session_step lb mo sv se PeerGone = Some (sv, se, [], False)"

section \<open>The server with its sessions\<close>

record 'pk world =
  w_server :: "'pk server"
  w_sessions :: "session list"

text \<open>
  What can happen: a connection is made, with the identifier its free tier draws and a peer that takes so many frames; a
  session goes a step; a session falls behind and misses the oldest of the wakes broadcast to it; the sweeper runs; the
  push service disowns tokens.
\<close>

datatype happening = Connect bytes nat | Step u64 moment input | Lag u64 nat | SweepAt u64 | Disowned "bytes list"

definition open_session :: "'pk server \<Rightarrow> bytes \<Rightarrow> nat \<Rightarrow> 'pk server \<times> session" where
  "open_session sv draw wire =
     (sv\<lparr>sv_next_connection := sv_next_connection sv + 1, sv_connections_total := sv_connections_total sv + 1,
         sv_connections_open := sv_connections_open sv + 1\<rparr>,
      \<lparr> se_id = sv_next_connection sv, se_listening = listening_default, se_cap = capability_free draw,
        se_wire = wire, se_inbox = [] \<rparr>)"

definition sweep_server :: "'pk server \<Rightarrow> u64 \<Rightarrow> 'pk server" where
  "sweep_server sv now =
     sv\<lparr>sv_mailbox := sweep (sv_mailbox sv) (unat now),
        sv_expired := sv_expired sv + word_of_nat (sweep_removed (sv_mailbox sv) (unat now)),
        sv_meter := fst (meter_sweep (sv_meter sv) (now div 3600)),
        sv_tickets := sweep_tickets (sv_tickets sv) (unat now)\<rparr>"

fun broadcasts :: "effect list \<Rightarrow> (tag \<times> u64) list" where
  "broadcasts [] = []"
| "broadcasts (Broadcast t i # es) = (t, i) # broadcasts es"
| "broadcasts (_ # es) = broadcasts es"

definition find_session :: "u64 \<Rightarrow> session list \<Rightarrow> session option" where
  "find_session i ss = find (\<lambda>se. se_id se = i) ss"

definition put_session :: "session \<Rightarrow> bool \<Rightarrow> session list \<Rightarrow> session list" where
  "put_session se alive ss =
     (if alive then map (\<lambda>s. if se_id s = se_id se then se else s) ss else filter (\<lambda>s. se_id s \<noteq> se_id se) ss)"

definition hear :: "(tag \<times> u64) list \<Rightarrow> session \<Rightarrow> session" where
  "hear ws se = se\<lparr>se_inbox := se_inbox se @ ws\<rparr>"

fun world_step :: "'pk lib \<Rightarrow> 'pk world \<Rightarrow> happening \<Rightarrow> ('pk world \<times> effect list) option" where
  "world_step lb w (Connect draw wire) =
     (case open_session (w_server w) draw wire of
        (sv, se) \<Rightarrow> Some (w\<lparr>w_server := sv, w_sessions := w_sessions w @ [se]\<rparr>, []))"
| "world_step lb w (Step i mo inp) =
     (case find_session i (w_sessions w) of
        None \<Rightarrow> Some (w, [])
      | Some se \<Rightarrow>
          map_option (\<lambda>(sv, se', out, alive).
            (w\<lparr>w_server := (if alive then sv else sv\<lparr>sv_connections_open := sv_connections_open sv - 1\<rparr>),
               w_sessions := map (hear (broadcasts out)) (put_session se' alive (w_sessions w))\<rparr>, out))
            (session_step lb mo (w_server w) se inp))"
| "world_step lb w (Lag i n) =
     Some (w\<lparr>w_sessions := map (\<lambda>s. if se_id s = i then s\<lparr>se_inbox := drop n (se_inbox s)\<rparr> else s) (w_sessions w)\<rparr>, [])"
| "world_step lb w (SweepAt now) = Some (w\<lparr>w_server := sweep_server (w_server w) now\<rparr>, [])"
| "world_step lb w (Disowned tokens) =
     Some (w\<lparr>w_server := (w_server w)\<lparr>sv_registry := fold (\<lambda>t r. fst (forget_token r t)) tokens (sv_registry (w_server w))\<rparr>\<rparr>, [])"

fun world_run :: "'pk lib \<Rightarrow> 'pk world \<Rightarrow> happening list \<Rightarrow> 'pk world option" where
  "world_run lb w [] = Some w"
| "world_run lb w (h # hs) = (case world_step lb w h of None \<Rightarrow> None | Some (w', _) \<Rightarrow> world_run lb w' hs)"

section \<open>What a connection listens on is bounded\<close>

definition listening_ok :: "listening \<Rightarrow> bool" where
  "listening_ok l \<longleftrightarrow> ls_set l = set (ls_order l) \<and> distinct (ls_order l)"

lemma listening_ok_default [simp]: "listening_ok listening_default"
  by (simp add: listening_ok_def listening_default_def)

lemma listening_len_order: "listening_ok l \<Longrightarrow> listening_len l = length (ls_order l)"
  by (simp add: listening_ok_def listening_len_def distinct_card)

lemma listening_ok_add: "listening_ok l \<Longrightarrow> listening_ok (listening_add t l)"
  by (auto simp: listening_ok_def listening_add_def)

lemma listening_ok_remove: "listening_ok l \<Longrightarrow> listening_ok (listening_remove t l)"
  by (auto simp: listening_ok_def listening_remove_def)

lemma listening_set_add [simp]: "ls_set (listening_add t l) = insert t (ls_set l)"
  by (auto simp: listening_add_def)

lemma listening_set_remove [simp]: "ls_set (listening_remove t l) = ls_set l - {t}"
  by (auto simp: listening_remove_def)

lemma add_all:
  "listening_ok l \<Longrightarrow> listening_ok (fold listening_add ts l) \<and> ls_set (fold listening_add ts l) = ls_set l \<union> set ts"
  by (induction ts arbitrary: l) (auto simp: listening_ok_add)

text \<open>The loop drops the shortest prefix of the queue that makes room.\<close>

lemma drop_oldest_spec:
  assumes "distinct order" "s = set order"
  shows "\<exists>n\<le>length order. drop_oldest s order wanted cap = (\<lparr> ls_set = set (drop n order), ls_order = drop n order \<rparr>, n) \<and>
    (n = length order \<or> length order - n + wanted \<le> cap) \<and> (n = 0 \<or> cap < length order - n + wanted + 1)"
  using assms
proof (induction order arbitrary: s)
  case (Cons t order)
  show ?case
  proof (cases "cap < card s + wanted")
    case True
    have "s - {t} = set order" using Cons.prems by auto
    then obtain n where n: "n \<le> length order"
      "drop_oldest (s - {t}) order wanted cap = (\<lparr> ls_set = set (drop n order), ls_order = drop n order \<rparr>, n)"
      "n = length order \<or> length order - n + wanted \<le> cap" "n = 0 \<or> cap < length order - n + wanted + 1"
      using Cons by auto
    have "card s = Suc (length order)" using Cons.prems distinct_card [of "t # order"] by simp
    then show ?thesis using n True by (intro exI [of _ "Suc n"]) (auto simp: Suc_diff_le)
  next
    case False
    have "card s = Suc (length order)" using Cons.prems distinct_card [of "t # order"] by simp
    then show ?thesis using False Cons.prems by (intro exI [of _ 0]) auto
  qed
qed simp

lemma make_room_spec:
  assumes "listening_ok l" "make_room_for l wanted cap = (l', n)"
  shows "listening_ok l'" "ls_order l' = drop n (ls_order l)" "n \<le> length (ls_order l)"
    "n = length (ls_order l) \<or> listening_len l' + wanted \<le> cap" "n = 0 \<or> cap < listening_len l' + wanted + 1"
proof -
  obtain k where k: "k \<le> length (ls_order l)"
    "drop_oldest (ls_set l) (ls_order l) wanted cap = (\<lparr> ls_set = set (drop k (ls_order l)), ls_order = drop k (ls_order l) \<rparr>, k)"
    "k = length (ls_order l) \<or> length (ls_order l) - k + wanted \<le> cap" "k = 0 \<or> cap < length (ls_order l) - k + wanted + 1"
    using drop_oldest_spec [of "ls_order l" "ls_set l" wanted cap] assms(1) unfolding listening_ok_def by blast
  with assms(2) have l': "l' = \<lparr> ls_set = set (drop k (ls_order l)), ls_order = drop k (ls_order l) \<rparr>" "n = k"
    by (auto simp: make_room_for_def)
  show ok: "listening_ok l'" using assms(1) l' by (simp add: listening_ok_def)
  show "ls_order l' = drop n (ls_order l)" "n \<le> length (ls_order l)" using l' k(1) by simp_all
  show "n = length (ls_order l) \<or> listening_len l' + wanted \<le> cap" "n = 0 \<or> cap < listening_len l' + wanted + 1"
    using k(3,4) l' listening_len_order [OF ok] by simp_all
qed

lemma fold_add_len: "listening_ok l \<Longrightarrow> listening_len (fold listening_add ts l) \<le> listening_len l + length ts"
  by (metis add_all listening_len_def card_Un_le card_length le_trans add_le_mono le_refl)

text \<open>What a subscription leaves the connection listening on.\<close>

definition subscribed :: "listening \<Rightarrow> tag list \<Rightarrow> listening" where
  "subscribed l parsed = fold listening_add parsed (fst (make_room_for l (length parsed) MAX_TAGS_PER_CONNECTION))"

lemma subscribed_ok:
  assumes "listening_ok l" "length parsed \<le> MAX_TAGS_PER_SUBSCRIPTION"
  shows "listening_ok (subscribed l parsed)" "set parsed \<subseteq> ls_set (subscribed l parsed)"
    "listening_len (subscribed l parsed) \<le> MAX_TAGS_PER_CONNECTION"
proof -
  obtain l' n where room: "make_room_for l (length parsed) MAX_TAGS_PER_CONNECTION = (l', n)" by (cases "make_room_for l (length parsed) MAX_TAGS_PER_CONNECTION")
  note spec = make_room_spec [OF assms(1) room]
  have sub: "subscribed l parsed = fold listening_add parsed l'" by (simp add: subscribed_def room)
  show "listening_ok (subscribed l parsed)" "set parsed \<subseteq> ls_set (subscribed l parsed)"
    using add_all [OF spec(1)] by (auto simp: sub)
  have "listening_len l' + length parsed \<le> MAX_TAGS_PER_CONNECTION"
  proof (cases "n = length (ls_order l)")
    case True
    then have "listening_len l' = 0" using spec(2) listening_len_order [OF spec(1)] by simp
    then show ?thesis using assms(2) by (simp add: MAX_TAGS_PER_CONNECTION_def MAX_TAGS_PER_SUBSCRIPTION_def)
  qed (use spec(4) in blast)
  then show "listening_len (subscribed l parsed) \<le> MAX_TAGS_PER_CONNECTION"
    using fold_add_len [OF spec(1), of parsed] sub by simp
qed

section \<open>What a step keeps\<close>

text \<open>Every envelope is filed under its own tag.\<close>

definition mail_filed :: "mailbox \<Rightarrow> bool" where
  "mail_filed m \<longleftrightarrow> mb_inv m \<and> (\<forall>t. \<forall>s\<in>set (slot_of (slots m) t). e_tag (st_envelope s) = t)"

definition server_ok :: "'pk server \<Rightarrow> bool" where
  "server_ok sv \<longleftrightarrow> mail_filed (sv_mailbox sv) \<and> tickets_inv (sv_tickets sv) \<and> registry_ok (sv_registry sv)"

definition session_ok :: "session \<Rightarrow> bool" where
  "session_ok se \<longleftrightarrow> listening_ok (se_listening se) \<and> listening_len (se_listening se) \<le> MAX_TAGS_PER_CONNECTION \<and>
     64 \<le> tl_max_per_tag (cap_limits (se_cap se))"

lemma mail_filed_inv: "mail_filed m \<Longrightarrow> mb_inv m"
  by (simp add: mail_filed_def)

lemma mail_filed_slot: "mail_filed m \<Longrightarrow> s \<in> set (slot_of (slots m) t) \<Longrightarrow> e_tag (st_envelope s) = t"
  by (simp add: mail_filed_def)

lemma deposit_slot_subset: "deposit_slot slot s now cap = Some slot' \<Longrightarrow> set slot' \<subseteq> insert s (set slot)"
  by (erule deposit_slot_cases) auto

lemma mail_filed_deposit:
  assumes "mail_filed m" "deposit_with m e now ttl cap = Some (m', res)"
  shows "mail_filed m'"
proof -
  from assms(2) obtain slot where slot: "deposit_slot (slot_of (slots m) (e_tag e))
      \<lparr>st_envelope = e, deposited_at = now, st_ttl_seconds = ttl\<rparr> now cap = Some slot"
    and m': "m' = m\<lparr>slots := AList.update (e_tag e) slot (slots m)\<rparr>" by (rule deposit_with_Some)
  then show ?thesis using assms(1) deposit_slot_subset [OF slot] by (auto simp: mail_filed_def mb_inv_def)
qed

lemma mail_filed_remove: "mail_filed m \<Longrightarrow> mail_filed (fst (remove_acknowledged kdf m tags d))"
  using remove_acknowledged_slot [of kdf m tags d] mb_inv_remove_acknowledged
  unfolding mail_filed_def by (metis (no_types, lifting) filter_is_subset insert_iff singletonD subsetD)

lemma mail_filed_collect: "mail_filed m \<Longrightarrow> mail_filed (fst (collect m t now))"
  by (auto simp: mail_filed_def mb_inv_def collect_def)

lemma mail_filed_sweep: "mail_filed m \<Longrightarrow> mail_filed (sweep m now)"
  using mb_inv_step [of m undefined "OpSweep now"] by (auto simp: mail_filed_def slot_of_sweep)

lemma remove_other: "t \<notin> set tags \<Longrightarrow> slot_of (slots (fst (remove_acknowledged kdf m tags d))) t = slot_of (slots m) t"
  by (induction tags) (auto simp: Let_def split: option.splits)

lemma acknowledge_keeps:
  assumes "mail_filed m" "acknowledge kdf l ds m n = (m', r)"
  shows "mail_filed m'" "t \<notin> set l \<Longrightarrow> slot_of (slots m') t = slot_of (slots m) t"
proof -
  have "mail_filed m' \<and> (t \<notin> set l \<longrightarrow> slot_of (slots m') t = slot_of (slots m) t)"
    using assms
  proof (induction ds arbitrary: m n)
    case (Cons d ds)
    then show ?case
      using mail_filed_remove [OF Cons.prems(1)] remove_other [of t l kdf m]
      by (auto split: option.splits prod.splits if_splits) (metis fst_conv)+
  qed simp
  then show "mail_filed m'" "t \<notin> set l \<Longrightarrow> slot_of (slots m') t = slot_of (slots m) t" by blast+
qed

lemma peek_filed:
  assumes "mail_filed m" "e \<in> set (peek_many m tags now)"
  shows "e_tag e \<in> set tags"
proof -
  from assms(2) obtain t slot s where "t \<in> set tags" "map_of (slots m) t = Some slot" "s \<in> set slot" "e = st_envelope s"
    by (auto simp: peek_many_def map_filter_def)
  moreover from this have "s \<in> set (slot_of (slots m) t)" by (simp add: slot_of_def)
  ultimately show ?thesis using mail_filed_slot [OF assms(1)] by metis
qed

lemma collect_filed: "mail_filed m \<Longrightarrow> e \<in> set (snd (collect m t now)) \<Longrightarrow> e_tag e = t"
  by (auto simp: collect_def mail_filed_slot)

lemma tickets_inv_leave_all: "tickets_inv m \<Longrightarrow> leave_all ps now m n = (m', r) \<Longrightarrow> tickets_inv m'"
proof (induction ps arbitrary: m n)
  case (Cons p ps)
  obtain s tk where p: "p = (s, tk)" by (cases p)
  have keep: "tickets_inv m''" if "leave_ticket m t tk now = (m'', x)" for t m'' x
    using tickets_inv_leave [OF Cons.prems(1), of t tk now] that by (simp add: leave_state_def)
  show ?case using Cons.prems Cons.IH keep
    by (auto simp: p split: option.splits prod.splits sum.splits if_splits) blast+
qed simp

lemma limits_of_room [simp]: "64 \<le> tl_max_per_tag (limits_of t)"
  by (cases t) simp_all

lemma token_verify_limit: "token_verify b64 vk parse token hour = Inr cap \<Longrightarrow> 64 \<le> tl_max_per_tag (cap_limits cap)"
  by (auto simp: token_verify_def Let_def result_simps split: if_splits)

lemma try_keys_limit: "try_keys good i r s keys = Some cap \<Longrightarrow> 64 \<le> tl_max_per_tag (cap_limits cap)"
proof (induction keys)
  case (Cons k keys)
  obtain t pk where "k = (t, pk)" by (cases k)
  then show ?case using Cons by (cases t) (auto split: if_splits)
qed simp

lemma blind_verify_limit: "blind_verify b64 good keys token = Inr cap \<Longrightarrow> 64 \<le> tl_max_per_tag (cap_limits cap)"
  by (auto simp: blind_verify_def Let_def result_simps try_keys_limit split: if_splits)

text \<open>
  What every step of a session obeys: the invariants are kept, the mail under a tag changes only where the session listens
  on the tag or deposits under it, and the envelopes shown carry a tag the session listens on.
\<close>

definition lawful :: "'pk lib \<Rightarrow> 'pk server \<Rightarrow> session \<Rightarrow> 'pk server \<Rightarrow> session \<Rightarrow> effect list \<Rightarrow> bool" where
  "lawful lb sv se sv' se' out \<longleftrightarrow>
     server_ok sv' \<and> session_ok se' \<and> se_id se' = se_id se \<and>
     (\<forall>t. slot_of (slots (sv_mailbox sv')) t = slot_of (slots (sv_mailbox sv)) t \<or>
          listening_contains (se_listening se) t \<or> Broadcast t (se_id se) \<in> set out) \<and>
     (\<forall>x. SendReply (EnvelopeReply x) \<in> set out \<longrightarrow>
        (\<exists>e. x = lib_b64_encode lb (envelope_to_bytes e) \<and> listening_contains (se_listening se') (e_tag e)))"

lemma lawful_quiet:
  assumes "server_ok sv'" "session_ok se'" "se_id se' = se_id se" "sv_mailbox sv' = sv_mailbox sv"
    "\<And>x. SendReply (EnvelopeReply x) \<notin> set out"
  shows "lawful lb sv se sv' se' out"
  using assms by (simp add: lawful_def)

lemma answer_iff: "answer sv se r = Some (sv', se', out, x) \<longleftrightarrow> sv' = sv \<and> se' = se \<and> out = [] \<and> x = Some r"
  by (auto simp: answer_def)

lemma tier_reply_keeps: "tier_reply sv cap mo = (sv', r) \<Longrightarrow> server_ok sv \<Longrightarrow> server_ok sv' \<and> sv_mailbox sv' = sv_mailbox sv"
  by (auto simp: tier_reply_def server_ok_def Let_def split: prod.splits)

lemma lawful_auth:
  assumes "server_ok sv" "session_ok se" "handle_auth lb mo sv se token = Some (sv', se', out, r)"
  shows "lawful lb sv se sv' se' out"
  using assms token_verify_limit
  by (intro lawful_quiet) (auto simp: handle_auth_def answer_iff session_ok_def dest!: tier_reply_keeps
      split: option.splits sum.splits prod.splits)

lemma lawful_auth_blind:
  assumes "server_ok sv" "session_ok se" "handle_auth_blind lb mo sv se token = Some (sv', se', out, r)"
  shows "lawful lb sv se sv' se' out"
  using assms blind_verify_limit
  by (intro lawful_quiet) (auto simp: handle_auth_blind_def answer_iff session_ok_def dest!: tier_reply_keeps
      split: if_splits sum.splits prod.splits)

lemma lawful_wake:
  assumes "server_ok sv" "session_ok se"
    "handle_register_wake lb sv se token kind secret on_schedule = Some (sv', se', out, r) \<or>
     handle_revoke_wake lb sv se secret = Some (sv', se', out, r)"
  shows "lawful lb sv se sv' se' out"
proof -
  have reg: "registry_ok (fst (register (sv_registry sv) d))" for d
    using assms(1) registry_ok_register by (simp add: server_ok_def)
  have rev: "registry_ok (fst (revoke_wake (lib_sha lb) (sv_registry sv) secret))"
    using assms(1) registry_ok_filter by (simp add: server_ok_def revoke_wake_def Let_def)
  from assms(3) show ?thesis
  proof
    assume "handle_register_wake lb sv se token kind secret on_schedule = Some (sv', se', out, r)"
    then show ?thesis using assms(1,2) reg [of "choosing (lib_sha lb) token kind secret on_schedule"]
      by (intro lawful_quiet) (auto simp: handle_register_wake_def answer_iff server_ok_def Let_def split: if_splits prod.splits)
  next
    assume "handle_revoke_wake lb sv se secret = Some (sv', se', out, r)"
    then show ?thesis using assms(1,2) rev
      by (intro lawful_quiet) (auto simp: handle_revoke_wake_def answer_iff server_ok_def)
  qed
qed

lemma parse_tags_length: "parse_tags ss = Some (Some ts) \<Longrightarrow> length ts = length ss"
  by (induction ss arbitrary: ts) (auto split: option.splits)

lemma sent_envelopes:
  "send_all se (envelope_replies lb es) = (se', out, ok) \<Longrightarrow> SendReply (EnvelopeReply x) \<in> set out \<Longrightarrow>
   \<exists>e\<in>set es. x = lib_b64_encode lb (envelope_to_bytes e)"
  unfolding send_all_def envelope_replies_def by (fastforce dest!: in_set_takeD)

lemma send_all_keeps: "send_all se rs = (se', out, ok) \<Longrightarrow> se' = se\<lparr>se_wire := se_wire se - length rs\<rparr>"
  by (simp add: send_all_def)

lemma subscribe_cases:
  assumes "handle_subscribe lb mo sv se tags = Some (sv', se', out, r)"
  obtains (refused) p where "sv' = sv" "se' = se" "out = []" "r = Some (ErrorReply p)"
  | (taken) parsed ok where "parse_tags tags = Some (Some parsed)" "length parsed \<le> MAX_TAGS_PER_SUBSCRIPTION"
      "sv' = sv\<lparr>sv_delivered := sv_delivered sv + word_of_nat (length (peek_many (sv_mailbox sv) parsed (unat (now_seconds mo))))\<rparr>"
      "send_all (se\<lparr>se_listening := subscribed (se_listening se) parsed\<rparr>)
         (envelope_replies lb (peek_many (sv_mailbox sv) parsed (unat (now_seconds mo)))) = (se', out, ok)"
      "r = (if ok then Some (Ready (length (peek_many (sv_mailbox sv) parsed (unat (now_seconds mo))))) else None)"
proof (cases "MAX_TAGS_PER_SUBSCRIPTION < length tags")
  case True
  then show ?thesis using assms refused by (auto simp: handle_subscribe_def answer_iff)
next
  case False
  show ?thesis
  proof (cases "parse_tags tags")
    case None
    then show ?thesis using assms False by (simp add: handle_subscribe_def)
  next
    case (Some ts)
    show ?thesis
    proof (cases ts)
      case None
      then show ?thesis using assms False Some refused by (auto simp: handle_subscribe_def answer_iff)
    next
      fix parsed
      assume ts: "ts = Some parsed"
      obtain se1 sent ok where sa: "send_all (se\<lparr>se_listening := subscribed (se_listening se) parsed\<rparr>)
         (envelope_replies lb (peek_many (sv_mailbox sv) parsed (unat (now_seconds mo)))) = (se1, sent, ok)" by (rule prod_cases3)
      have "length parsed \<le> MAX_TAGS_PER_SUBSCRIPTION" using parse_tags_length False Some ts by fastforce
      moreover have "sv' = sv\<lparr>sv_delivered := sv_delivered sv + word_of_nat (length (peek_many (sv_mailbox sv) parsed (unat (now_seconds mo))))\<rparr>"
        "se' = se1" "out = sent" "r = (if ok then Some (Ready (length (peek_many (sv_mailbox sv) parsed (unat (now_seconds mo))))) else None)"
        using assms False Some ts sa by (auto simp: handle_subscribe_def Let_def simp flip: subscribed_def)
      ultimately show ?thesis using taken Some ts sa by blast
    qed
  qed
qed

lemma lawful_subscribe:
  assumes "server_ok sv" "session_ok se" "handle_subscribe lb mo sv se tags = Some (sv', se', out, r)"
  shows "lawful lb sv se sv' se' out"
  using assms(3)
proof (cases rule: subscribe_cases)
  case (refused p)
  then show ?thesis using assms(1,2) by (intro lawful_quiet) auto
next
  case (taken parsed ok)
  have filed: "mail_filed (sv_mailbox sv)" using assms(1) by (simp add: server_ok_def)
  have ok: "listening_ok (se_listening se)" using assms(2) by (simp add: session_ok_def)
  note sub = subscribed_ok [OF ok taken(2)]
  have se': "se_listening se' = subscribed (se_listening se) parsed" "session_ok se'" "se_id se' = se_id se"
    using send_all_keeps [OF taken(4)] sub assms(2) by (auto simp: session_ok_def)
  have "\<exists>e. x = lib_b64_encode lb (envelope_to_bytes e) \<and> listening_contains (se_listening se') (e_tag e)"
    if "SendReply (EnvelopeReply x) \<in> set out" for x
  proof -
    from sent_envelopes [OF taken(4) that] obtain e where
      e: "e \<in> set (peek_many (sv_mailbox sv) parsed (unat (now_seconds mo)))" "x = lib_b64_encode lb (envelope_to_bytes e)" ..
    then have "e_tag e \<in> ls_set (subscribed (se_listening se) parsed)" using peek_filed [OF filed e(1)] sub(2) by blast
    then show ?thesis using e(2) se'(1) by (auto simp: listening_contains_def)
  qed
  then show ?thesis using assms(1) se' taken(3) by (auto simp: lawful_def server_ok_def)
qed

lemma lawful_collected:
  assumes "server_ok sv" "session_ok se" "handle_collected lb sv se digests = Some (sv', se', out, r)"
  shows "lawful lb sv se sv' se' out"
proof (cases "MAX_TAGS_PER_CONNECTION < length digests")
  case True
  then show ?thesis using assms by (intro lawful_quiet) (auto simp: handle_collected_def answer_iff)
next
  case False
  have filed: "mail_filed (sv_mailbox sv)" using assms(1) by (simp add: server_ok_def)
  obtain m res where ack: "acknowledge (lib_kdf lb) (listening_tags (se_listening se)) digests (sv_mailbox sv) 0 = (m, res)"
    by (cases "acknowledge (lib_kdf lb) (listening_tags (se_listening se)) digests (sv_mailbox sv) 0")
  have "sv' = sv\<lparr>sv_mailbox := m\<rparr>" "se' = se" "out = []"
    using assms(3) ack False by (auto simp: handle_collected_def answer_iff split: receipts.splits)
  moreover have "slot_of (slots m) t = slot_of (slots (sv_mailbox sv)) t \<or> listening_contains (se_listening se) t" for t
    using acknowledge_keeps(2) [OF filed ack, of t] assms(2)
    by (auto simp: session_ok_def listening_ok_def listening_tags_def listening_contains_def)
  ultimately show ?thesis using assms(1,2) acknowledge_keeps(1) [OF filed ack] by (auto simp: lawful_def server_ok_def)
qed

lemma unsubscribe_all_ok:
  "listening_ok l \<Longrightarrow> unsubscribe_all ss l = Some l' \<Longrightarrow> listening_ok l' \<and> ls_set l' \<subseteq> ls_set l"
proof (induction ss arbitrary: l)
  case (Cons s ss)
  show ?case
  proof (cases "parse_tag s")
    case (Some x)
    then show ?thesis using Cons.IH [of l] Cons.IH [OF listening_ok_remove] Cons.prems by (cases x) force+
  qed (use Cons.prems in simp)
qed simp

lemma lawful_unsubscribe:
  assumes "server_ok sv" "session_ok se" "handle_unsubscribe sv se tags = Some (sv', se', out, r)"
  shows "lawful lb sv se sv' se' out"
proof -
  from assms(3) obtain l where l: "unsubscribe_all tags (se_listening se) = Some l"
    and eq: "sv' = sv" "se' = se\<lparr>se_listening := l\<rparr>" "out = []"
    by (auto simp: handle_unsubscribe_def answer_iff split: option.splits)
  have ok: "listening_ok l" "ls_set l \<subseteq> ls_set (se_listening se)"
    using unsubscribe_all_ok [OF _ l] assms(2) by (auto simp: session_ok_def)
  have "finite (ls_set (se_listening se))" using assms(2) by (simp add: session_ok_def listening_ok_def)
  then have "listening_len l \<le> listening_len (se_listening se)" using ok(2) by (simp add: listening_len_def card_mono)
  then show ?thesis using assms(1,2) eq ok(1) by (intro lawful_quiet) (auto simp: session_ok_def)
qed

lemma lawful_leave_tickets:
  assumes "server_ok sv" "session_ok se" "handle_leave_tickets mo sv se tks = Some (sv', se', out, r)"
  shows "lawful lb sv se sv' se' out"
  using assms tickets_inv_leave_all [of "sv_tickets sv" tks "unat (now_seconds mo)" 0]
  by (intro lawful_quiet)
    (auto simp: handle_leave_tickets_def answer_iff server_ok_def split: if_splits prod.splits leaving.splits)

text \<open>A deposit that goes through: what it parsed, charged and stored.\<close>

lemma deposit_cases:
  assumes "handle_deposit lb mo sv se text = Some (sv', se', out, r)"
  obtains (refused) "sv_mailbox sv' = sv_mailbox sv" "sv_tickets sv' = sv_tickets sv" "sv_registry sv' = sv_registry sv"
      "se' = se" "out = []" "r \<noteq> Some Stored"
  | (stored) bs e m left mb dm dc where "lib_b64 lb (trim text) = Some bs" "envelope_from_bytes bs = Inr e"
      "length (e_payload e) \<le> tl_max_payload (cap_limits (se_cap se))"
      "charge (sv_meter sv) (se_cap se) (word_of_nat (length (e_payload e))) (now_seconds mo div 3600) = (m, Allowed left)"
      "deposit_with (sv_mailbox sv) e (unat (now_seconds mo)) (unat (tl_ttl_seconds (cap_limits (se_cap se))))
         (tl_max_per_tag (cap_limits (se_cap se))) = Some (mb, Inr ())"
      "sv' = sv\<lparr>sv_meter := m, sv_mailbox := mb, sv_deposit_micros := dm, sv_deposits := dc\<rparr>" "se' = se"
      "out = Broadcast (e_tag e) (se_id se) # notify mo sv (e_tag e)" "r = Some Stored"
proof -
  show ?thesis
  proof (cases "lib_b64 lb (trim text)")
    case None
    then show ?thesis using assms refused by (auto simp: handle_deposit_def answer_iff)
  next
    case bs: (Some bs)
    show ?thesis
    proof (cases "envelope_from_bytes bs")
      case (Inl e)
      then show ?thesis using assms bs refused by (auto simp: handle_deposit_def answer_iff)
    next
      case e: (Inr e)
      show ?thesis
      proof (cases "tl_max_payload (cap_limits (se_cap se)) < length (e_payload e)")
        case True
        then show ?thesis using assms bs e refused by (auto simp: handle_deposit_def answer_iff)
      next
        case len: False
        obtain m c where ch: "charge (sv_meter sv) (se_cap se) (word_of_nat (length (e_payload e))) (now_seconds mo div 3600) = (m, c)"
          by (cases "charge (sv_meter sv) (se_cap se) (word_of_nat (length (e_payload e))) (now_seconds mo div 3600)")
        show ?thesis
        proof (cases c)
          case (OverQuota a b)
          then show ?thesis using assms bs e len ch refused by (auto simp: handle_deposit_def answer_iff)
        next
          case (Allowed left)
          then obtain mb where dep: "deposit_with (sv_mailbox sv) e (unat (now_seconds mo))
              (unat (tl_ttl_seconds (cap_limits (se_cap se)))) (tl_max_per_tag (cap_limits (se_cap se))) = Some (mb, Inr ())"
            using assms bs e len ch
            by (auto simp: handle_deposit_def deposit_with_def split: option.splits)
          have same_call: "notify mo (sv\<lparr>sv_meter := m, sv_mailbox := mb, sv_deposit_micros := d\<rparr>) t = notify mo sv t" for d t
            by (simp add: notify_def Let_def split: option.split)
          let ?dm = "(sv_deposit_micros sv * 7 + word_of_nat (min (took_micros mo) (2 ^ 32 - 1))) div 8"
          have eqs: "sv' = sv\<lparr>sv_meter := m, sv_mailbox := mb, sv_deposit_micros := ?dm, sv_deposits := sv_deposits sv + 1\<rparr>"
            "se' = se" "out = Broadcast (e_tag e) (se_id se) # notify mo sv (e_tag e)" "r = Some Stored"
            using assms by (auto simp: handle_deposit_def bs e len ch Allowed dep Let_def same_call)
          show ?thesis using stored [OF bs e _ _ dep eqs] len ch Allowed by simp
        qed
      qed
    qed
  qed
qed

lemma notify_no_mail: "SendReply x \<notin> set (notify mo sv t)" "Broadcast u i \<notin> set (notify mo sv t)"
  by (auto simp: notify_def Let_def split: option.splits if_splits)

lemma lawful_deposit:
  assumes "server_ok sv" "session_ok se" "handle_deposit lb mo sv se text = Some (sv', se', out, r)"
  shows "lawful lb sv se sv' se' out"
  using assms(3)
proof (cases rule: deposit_cases)
  case refused
  then show ?thesis using assms(1,2) by (intro lawful_quiet) (auto simp: server_ok_def)
next
  case (stored bs e m left mb dm dc)
  have "mail_filed mb" using mail_filed_deposit [OF _ stored(5)] assms(1) by (simp add: server_ok_def)
  moreover have "slot_of (slots mb) t = slot_of (slots (sv_mailbox sv)) t \<or> t = e_tag e" for t
    using deposit_with_other [OF stored(5)] by blast
  ultimately show ?thesis using assms(1,2) stored(6-8) by (auto simp: lawful_def server_ok_def notify_no_mail)
qed

lemma lawful_request:
  assumes "server_ok sv" "session_ok se" "handle_request lb mo sv se req = Some (sv', se', out, r)"
  shows "lawful lb sv se sv' se' out"
  using assms
  by (cases req) (auto intro: lawful_auth lawful_auth_blind lawful_wake lawful_subscribe lawful_collected
      lawful_unsubscribe lawful_leave_tickets lawful_deposit)

text \<open>Answering sends no envelope, as no handler answers with one.\<close>

lemma request_reply: "handle_request lb mo sv se req = Some (sv', se', out, Some r) \<Longrightarrow> r \<noteq> EnvelopeReply x"
proof (cases req)
  case (Deposit body)
  assume "handle_request lb mo sv se req = Some (sv', se', out, Some r)"
  then show ?thesis using Deposit
    by (auto simp: handle_deposit_def answer_iff Let_def split: option.splits sum.splits prod.splits charge_result.splits if_splits)
qed (auto simp: handle_auth_def handle_auth_blind_def handle_register_wake_def handle_revoke_wake_def handle_subscribe_def
    handle_collected_def handle_unsubscribe_def handle_leave_tickets_def answer_iff tier_reply_def Let_def
    split: option.splits sum.splits prod.splits receipts.splits leaving.splits if_splits)

lemma lawful_finish:
  assumes "\<And>sv' se' out r. h = Some (sv', se', out, r) \<Longrightarrow> lawful lb sv se sv' se' out"
    "\<And>sv' se' out r x. h = Some (sv', se', out, Some r) \<Longrightarrow> r \<noteq> EnvelopeReply x"
    "finish_request h = Some (sv', se', out, alive)"
  shows "lawful lb sv se sv' se' out"
proof -
  from assms(3) obtain se1 out1 r where h: "h = Some (sv', se1, out1, r)"
    by (auto simp: finish_request_def send_all_def split: option.splits)
  note law = assms(1) [OF h]
  show ?thesis
  proof (cases r)
    case None
    then show ?thesis using assms(3) h law by (simp add: finish_request_def)
  next
    case (Some x)
    then have "se' = se1\<lparr>se_wire := se_wire se1 - 1\<rparr>" "set out \<subseteq> insert (SendReply x) (set out1)" "set out1 \<subseteq> set out"
      using assms(3) h by (auto simp: finish_request_def send_all_def dest!: in_set_takeD)
    moreover from this(2) have "SendReply (EnvelopeReply y) \<in> set out1" if "SendReply (EnvelopeReply y) \<in> set out" for y
      using that assms(2) h Some by blast
    ultimately show ?thesis using law by (auto simp: lawful_def session_ok_def)
  qed
qed

lemma lawful_wake_up:
  assumes "server_ok sv" "session_ok se" "deliver_wake lb mo sv se t i = Some (sv', se', out, alive)"
  shows "lawful lb sv se sv' se' out"
proof (cases "i = se_id se \<or> \<not> listening_contains (se_listening se) t")
  case True
  then show ?thesis using assms by (intro lawful_quiet) (auto simp: deliver_wake_def)
next
  case False
  obtain m es where c: "collect (sv_mailbox sv) t (unat (now_seconds mo)) = (m, es)" by (cases "collect (sv_mailbox sv) t (unat (now_seconds mo))")
  obtain se1 sent ok where s: "send_all se (envelope_replies lb es) = (se1, sent, ok)" by (rule prod_cases3)
  have eqs: "sv_mailbox sv' = m" "sv_tickets sv' = sv_tickets sv" "sv_registry sv' = sv_registry sv" "se' = se1" "out = sent"
    using assms(3) False c s by (auto simp: deliver_wake_def Let_def)
  have filed: "mail_filed (sv_mailbox sv)" using assms(1) by (simp add: server_ok_def)
  then have "mail_filed m" "\<forall>e\<in>set es. e_tag e = t" using mail_filed_collect collect_filed c by (metis fst_conv, metis snd_conv)
  moreover have "slot_of (slots m) u = slot_of (slots (sv_mailbox sv)) u \<or> u = t" for u
    using c by (auto simp: collect_def)
  moreover have "se_listening se1 = se_listening se" "session_ok se1" "se_id se1 = se_id se"
    using send_all_keeps [OF s] assms(2) by (auto simp: session_ok_def)
  moreover have "\<exists>e. x = lib_b64_encode lb (envelope_to_bytes e) \<and> listening_contains (se_listening se) (e_tag e)" if "SendReply (EnvelopeReply x) \<in> set sent" for x
    using sent_envelopes [OF s that] calculation(2) False by metis
  ultimately show ?thesis using assms(1) False eqs by (auto simp: lawful_def server_ok_def)
qed

lemma lawful_step:
  assumes "server_ok sv" "session_ok se" "session_step lb mo sv se inp = Some (sv', se', out, alive)"
  shows "lawful lb sv se sv' se' out"
proof (cases inp)
  case (FrameIn len req)
  show ?thesis
  proof (cases "MAX_FRAME_BYTES < len")
    case True
    then show ?thesis using assms FrameIn
      by (intro lawful_quiet) (auto simp: send_all_def session_ok_def dest!: in_set_takeD)
  next
    case False
    let ?h = "case req of None \<Rightarrow> answer sv se (ErrorReply MalformedRequest) | Some r \<Rightarrow> handle_request lb mo sv se r"
    have fin: "finish_request ?h = Some (sv', se', out, alive)" using assms(3) FrameIn False by simp
    show ?thesis
    proof (rule lawful_finish [OF _ _ fin])
      show "lawful lb sv se sv' se' out" if "?h = Some (sv', se', out, r)" for sv' se' out r
        using that assms(1,2) by (cases req) (auto simp: answer_iff lawful_quiet intro: lawful_request)
      show "r \<noteq> EnvelopeReply x" if "?h = Some (sv', se', out, Some r)" for sv' se' out r x
        using that by (cases req) (auto simp: answer_iff dest: request_reply)
    qed
  qed
next
  case WakeUp
  have same: "lawful lb sv (se\<lparr>se_inbox := rest\<rparr>) sv' se' out = lawful lb sv se sv' se' out" for rest
    by (simp add: lawful_def)
  show ?thesis
  proof (cases "se_inbox se")
    case Nil
    then show ?thesis using assms WakeUp by (intro lawful_quiet) auto
  next
    case (Cons w rest)
    have ok: "session_ok (se\<lparr>se_inbox := rest\<rparr>)" using assms(2) by (simp add: session_ok_def)
    have "deliver_wake lb mo sv (se\<lparr>se_inbox := rest\<rparr>) (fst w) (snd w) = Some (sv', se', out, alive)"
      using assms(3) WakeUp Cons by (cases w) simp
    then show ?thesis using lawful_wake_up [OF assms(1) ok] same by blast
  qed
next
  case PeerGone
  then show ?thesis using assms by (intro lawful_quiet) auto
qed

definition world_ok :: "'pk world \<Rightarrow> bool" where
  "world_ok w \<longleftrightarrow> server_ok (w_server w) \<and> list_all session_ok (w_sessions w)"

lemma world_ok_cong:
  "server_ok sv \<Longrightarrow> list_all session_ok ss \<Longrightarrow> world_ok (w\<lparr>w_server := sv, w_sessions := ss\<rparr>)"
  by (simp add: world_ok_def)

lemma find_session_ok: "list_all session_ok ss \<Longrightarrow> find_session i ss = Some se \<Longrightarrow> session_ok se \<and> se \<in> set ss \<and> se_id se = i"
  by (auto simp: find_session_def list_all_iff find_Some_iff)

lemma hear_ok [simp]: "session_ok (hear ws se) = session_ok se"
  by (simp add: hear_def session_ok_def)

lemma put_session_ok: "list_all session_ok ss \<Longrightarrow> session_ok se \<Longrightarrow> list_all session_ok (put_session se alive ss)"
  by (auto simp: put_session_def list_all_iff)

lemma sweep_server_ok: "server_ok sv \<Longrightarrow> server_ok (sweep_server sv now)"
  by (simp add: server_ok_def sweep_server_def mail_filed_sweep tickets_inv_sweep)

lemma forget_all_ok: "registry_ok r \<Longrightarrow> registry_ok (fold (\<lambda>t r. fst (forget_token r t)) ts r)"
  by (induction ts arbitrary: r) (auto simp: forget_token_def Let_def registry_ok_filter)

lemma world_ok_step:
  assumes "world_ok w" "world_step lb w h = Some (w', out)"
  shows "world_ok w'"
proof (cases h)
  case (Step i mo inp)
  have ok: "server_ok (w_server w)" "list_all session_ok (w_sessions w)" using assms(1) by (auto simp: world_ok_def)
  show ?thesis
  proof (cases "find_session i (w_sessions w)")
    case None
    then show ?thesis using assms Step by simp
  next
    case (Some se)
    then obtain sv se' alive where st: "session_step lb mo (w_server w) se inp = Some (sv, se', out, alive)"
      and w': "w' = w\<lparr>w_server := (if alive then sv else sv\<lparr>sv_connections_open := sv_connections_open sv - 1\<rparr>),
         w_sessions := map (hear (broadcasts out)) (put_session se' alive (w_sessions w))\<rparr>"
      using assms(2) Step by auto
    have "lawful lb (w_server w) se sv se' out"
      using lawful_step [OF ok(1) _ st] find_session_ok [OF ok(2) Some] by blast
    then have "server_ok sv" "session_ok se'" by (auto simp: lawful_def)
    then show ?thesis unfolding w' using put_session_ok [OF ok(2)]
      by (intro world_ok_cong) (auto simp: server_ok_def list_all_iff)
  qed
next
  case (Connect draw wire)
  then show ?thesis using assms
    by (auto simp: world_ok_def server_ok_def session_ok_def open_session_def capability_free_def listening_len_def listening_default_def
        listening_ok_def)
next
  case (Lag i n)
  then show ?thesis using assms by (auto simp: world_ok_def list_all_iff session_ok_def)
next
  case (SweepAt now)
  then show ?thesis using assms by (auto simp: world_ok_def sweep_server_ok)
next
  case (Disowned ts)
  then show ?thesis using assms by (auto simp: world_ok_def server_ok_def forget_all_ok)
qed

lemma world_ok_run: "world_ok w \<Longrightarrow> world_run lb w hs = Some w' \<Longrightarrow> world_ok w'"
proof (induction hs arbitrary: w)
  case (Cons h hs)
  from Cons.prems(2) obtain w1 out where "world_step lb w h = Some (w1, out)" "world_run lb w1 hs = Some w'"
    by (auto split: option.splits)
  then show ?case using Cons.IH world_ok_step [OF Cons.prems(1)] by blast
qed simp

section \<open>When the server stops\<close>

text \<open>Requests whose tags and receipts are text without bytes beyond ASCII.\<close>

definition plain_text :: "bytes \<Rightarrow> bool" where
  "plain_text s \<longleftrightarrow> (\<forall>b\<in>set s. \<not> continuation b)"

fun plain_request :: "request \<Rightarrow> bool" where
  "plain_request (Subscribe ts) \<longleftrightarrow> list_all plain_text ts"
| "plain_request (Unsubscribe ts) \<longleftrightarrow> list_all plain_text ts"
| "plain_request (Collected ds) \<longleftrightarrow> list_all plain_text ds"
| "plain_request (LeaveTickets ps) \<longleftrightarrow> list_all (plain_text \<circ> fst) ps"
| "plain_request _ \<longleftrightarrow> True"

fun plain_happening :: "happening \<Rightarrow> bool" where
  "plain_happening (Step i mo (FrameIn len (Some r))) \<longleftrightarrow> plain_request r"
| "plain_happening _ \<longleftrightarrow> True"

lemma parse_tags_plain: "list_all plain_text ss \<Longrightarrow> parse_tags ss \<noteq> None"
  by (induction ss) (auto simp: plain_text_def dest: parse_tag_plain split: option.splits)

lemma unsubscribe_plain: "list_all plain_text ss \<Longrightarrow> unsubscribe_all ss l \<noteq> None"
  by (induction ss arbitrary: l) (auto simp: plain_text_def dest: parse_tag_plain split: option.splits)

lemma acknowledge_plain: "list_all plain_text ds \<Longrightarrow> snd (acknowledge kdf l ds m n) \<noteq> ReceiptPanics"
  by (induction ds arbitrary: m n) (auto simp: plain_text_def dest: parse_digest_plain split: option.splits prod.splits)

lemma leave_plain: "list_all (plain_text \<circ> fst) ps \<Longrightarrow> snd (leave_all ps now m n) \<noteq> LeavingPanics"
proof (induction ps arbitrary: m n)
  case (Cons p ps)
  obtain s tk where "p = (s, tk)" by (cases p)
  then show ?case using Cons parse_tag_plain [of s]
    by (auto simp: plain_text_def split: option.splits prod.splits sum.splits if_splits)
qed simp

lemma deposit_never_panics:
  assumes "session_ok se"
  shows "handle_deposit lb mo sv se text \<noteq> None"
proof -
  have "deposit_with m e now ttl (tl_max_per_tag (cap_limits (se_cap se))) \<noteq> None" for m e now ttl
    using assms by (simp add: deposit_with_def deposit_slot_None session_ok_def)
  note never = this
  show ?thesis
    by (simp add: handle_deposit_def answer_def Let_def never split: option.split sum.split prod.split charge_result.split)
qed

lemma plain_request_answered:
  assumes "session_ok se" "plain_request r"
  shows "handle_request lb mo sv se r \<noteq> None"
proof (cases r)
  case (Subscribe ts)
  then show ?thesis using assms parse_tags_plain [of ts]
    by (auto simp: handle_subscribe_def answer_def Let_def split: option.splits prod.splits)
next
  case (Unsubscribe ts)
  then show ?thesis using assms unsubscribe_plain [of ts "se_listening se"]
    by (auto simp: handle_unsubscribe_def answer_def split: option.splits)
next
  case (Collected ds)
  then show ?thesis using assms acknowledge_plain [of ds "lib_kdf lb" "listening_tags (se_listening se)" "sv_mailbox sv" 0]
    by (auto simp: handle_collected_def answer_def split: prod.splits receipts.splits)
next
  case (LeaveTickets ps)
  then show ?thesis using assms leave_plain [of ps "unat (now_seconds mo)" "sv_tickets sv" 0]
    by (auto simp: handle_leave_tickets_def answer_def split: prod.splits leaving.splits)
next
  case (Deposit body)
  then show ?thesis using deposit_never_panics [OF assms(1)] by simp
qed (auto simp: handle_auth_def handle_auth_blind_def handle_register_wake_def handle_revoke_wake_def answer_def Let_def
    split: option.splits sum.splits prod.splits)

lemma plain_step:
  assumes "world_ok w" "plain_happening h"
  shows "world_step lb w h \<noteq> None"
proof (cases h)
  case (Step i mo inp)
  have "session_step lb mo (w_server w) se inp \<noteq> None" if "session_ok se" for se
  proof (cases inp)
    case (FrameIn len req)
    moreover have "finish_request h \<noteq> None \<longleftrightarrow> h \<noteq> None" for h :: "'a handled" by (simp add: finish_request_def)
    ultimately show ?thesis using that assms(2) Step plain_request_answered [OF that, of _ lb mo "w_server w"]
      by (cases req) (simp_all add: answer_def send_all_def del: not_None_eq)
  qed (auto simp: deliver_wake_def send_all_def Let_def split: list.splits prod.splits)
  then show ?thesis using Step assms(1) find_session_ok [of "w_sessions w" i]
    by (cases "find_session i (w_sessions w)") (auto simp: world_ok_def)
qed (auto split: prod.splits)

end
