(* ===== verification/Mailbox_Service.thy ===== *)
theory Mailbox_Service
  imports Mailbox_Session
begin

text \<open>
  What the mailbox server promises as a whole, over the sessions of Mailbox_Session: what it keeps over any history,
  who can see and remove mail, what is offered to whom, what the notifier is told, and when it stops.
\<close>

section \<open>The tickets handed over\<close>

lemma mset_swapped: "i < length xs \<Longrightarrow> j < length xs \<Longrightarrow> mset (swap i j xs) = mset xs"
  by (simp add: swap_def mset_swap)

lemma length_swap [simp]: "length (swap i j xs) = length xs"
  by (simp add: swap_def)

lemma mset_shuffle_from: "i < length xs \<Longrightarrow> mset (shuffle_from i random xs) = mset xs"
proof (induction i random xs rule: shuffle_from.induct)
  case (2 i random xs)
  define j where "j = of_be (rev (take 8 (drop (Suc i * 8) random))) mod (Suc i + 1)"
  have "j < Suc i + 1" by (simp add: j_def)
  then have "mset (swap (Suc i) j xs) = mset xs" using "2.prems" by (intro mset_swapped) auto
  moreover have "mset (shuffle_from i random (swap (Suc i) j xs)) = mset (swap (Suc i) j xs)"
    using "2.IH" [OF j_def] "2.prems" by simp
  ultimately show ?case by (simp only: shuffle_from.simps Let_def flip: j_def)
qed simp

section \<open>Properties\<close>

text \<open>C38: whatever connections come, ask, lag and go, and whatever the network does to them, every connection listens on at
  most \<^verbatim>\<open>MAX_TAGS_PER_CONNECTION\<close> tags, every envelope lies under its own tag, and the tickets and the registry of
  devices stay within their bounds.
\<close>

theorem service_stays_bounded:
  assumes "server_ok sv" "world_run lb \<lparr>w_server = sv, w_sessions = []\<rparr> hs = Some w"
  shows "(\<forall>se\<in>set (w_sessions w). listening_len (se_listening se) \<le> MAX_TAGS_PER_CONNECTION) \<and>
    (\<forall>t. \<forall>s\<in>set (slot_of (slots (sv_mailbox (w_server w))) t). e_tag (st_envelope s) = t) \<and>
    length (sv_tickets (w_server w)) \<le> MAX_TAGS \<and> length (slot_of (sv_tickets (w_server w)) t) \<le> TICKETS_PER_TAG \<and>
    length (sv_registry (w_server w)) \<le> MAX_DEVICES"
proof -
  have "world_ok w" using world_ok_run [OF _ assms(2)] assms(1) by (simp add: world_ok_def)
  then show ?thesis using slot_of_bound [of "sv_tickets (w_server w)"]
    by (auto simp: world_ok_def server_ok_def session_ok_def list_all_iff mail_filed_slot tickets_inv_def registry_ok_def)
qed

definition sample_server :: "unit server" where
  "sample_server = \<lparr> sv_mailbox = with_default_ttl, sv_tickets = [], sv_meter = [], sv_registry = [], sv_tokens = None,
     sv_blind = [], sv_pushers = False, sv_wake_every = 300, sv_notifier = Some 3, sv_next_connection = 0,
     sv_deposit_micros = 0, sv_connections_open = 0, sv_connections_total = 0, sv_deposits = 0, sv_delivered = 0,
     sv_expired = 0, sv_refused = 0 \<rparr>"

definition sample_lib :: "unit lib" where
  "sample_lib = \<lparr> lib_b64 = sample_untext, lib_b64_encode = sample_text, lib_parse = (\<lambda>_. None), lib_good = (\<lambda>_ _ _ _. False),
     lib_kdf = (\<lambda>_ m. m), lib_sha = id \<rparr>"

definition sample_moment :: moment where
  "sample_moment = \<lparr> now_seconds = 7200, took_micros = 12, random_bytes = None \<rparr>"

lemma sample_server_ok: "server_ok sample_server"
  by (simp add: server_ok_def sample_server_def mail_filed_def mb_inv_def with_default_ttl_def mailbox_new_def keys_distinct_def
      slot_of_def tickets_inv_def registry_ok_Nil MAX_TAGS_def)

lemma service_stays_bounded_witness:
  "length (sv_registry (w_server (the (world_run sample_lib \<lparr>w_server = sample_server, w_sessions = []\<rparr> [Connect [1] 5, SweepAt 9])))) \<le> MAX_DEVICES"
  using service_stays_bounded [OF sample_server_ok, of sample_lib "[Connect [1] 5, SweepAt 9]"
    "the (world_run sample_lib \<lparr>w_server = sample_server, w_sessions = []\<rparr> [Connect [1] 5, SweepAt 9])" "[]"]
  by (simp add: open_session_def)

text \<open>C30: mail is for those who listen.  Whatever a session does, an envelope that is put on its connection carries a tag the
  session listens on, and the mail under a tag changes only if the session listens on that tag or has deposited
  under it: a receipt for what somebody else waits for removes nothing.
\<close>

theorem mail_is_for_listeners:
  assumes "world_ok w" "world_step lb w (Step i mo inp) = Some (w', out)" "find_session i (w_sessions w) = Some se"
  shows "(slot_of (slots (sv_mailbox (w_server w'))) t \<noteq> slot_of (slots (sv_mailbox (w_server w))) t \<longrightarrow>
      listening_contains (se_listening se) t \<or> Broadcast t i \<in> set out) \<and>
    (SendReply (EnvelopeReply x) \<in> set out \<longrightarrow>
      (\<exists>e sv se' alive. session_step lb mo (w_server w) se inp = Some (sv, se', out, alive) \<and>
         x = lib_b64_encode lb (envelope_to_bytes e) \<and> listening_contains (se_listening se') (e_tag e)))"
proof -
  from assms(2,3) obtain sv se' alive where st: "session_step lb mo (w_server w) se inp = Some (sv, se', out, alive)"
    and mb: "sv_mailbox (w_server w') = sv_mailbox sv" by (auto split: if_splits)
  have "session_ok se" "se_id se = i" "server_ok (w_server w)"
    using assms(1,3) find_session_ok by (auto simp: world_ok_def)
  then have "lawful lb (w_server w) se sv se' out" "se_id se = i" using lawful_step [OF _ _ st] by auto
  then show ?thesis using st mb unfolding lawful_def by metis
qed

definition sample_session :: session where
  "sample_session = \<lparr> se_id = 0, se_listening = listening_default, se_cap = capability_free [1], se_wire = 5, se_inbox = [] \<rparr>"

lemma sample_session_ok: "session_ok sample_session"
  by (simp add: session_ok_def sample_session_def capability_free_def listening_len_def listening_default_def listening_ok_def)

lemma mail_is_for_listeners_witness:
  "slot_of (slots (sv_mailbox (w_server (fst (the (world_step sample_lib \<lparr>w_server = sample_server, w_sessions = [sample_session]\<rparr>
     (Step 0 sample_moment (FrameIn 9 (Some (Unsubscribe [])))))))))) [7] = []"
  using mail_is_for_listeners [of "\<lparr>w_server = sample_server, w_sessions = [sample_session]\<rparr>" sample_lib 0 sample_moment
      "FrameIn 9 (Some (Unsubscribe []))" _ _ sample_session "[7]"] sample_server_ok sample_session_ok
  by (simp add: world_ok_def find_session_def sample_session_def handle_unsubscribe_def answer_def finish_request_def send_all_def
      MAX_FRAME_BYTES_def listening_contains_def listening_default_def sample_server_def with_default_ttl_def mailbox_new_def slot_of_def)

section \<open>Mail that waits\<close>

text \<open>A step that broadcasts a tag has deposited one envelope under it.\<close>

lemma broadcast_deposits:
  assumes "session_ok se" "session_step lb mo sv se inp = Some (sv', se', out, alive)" "Broadcast t i \<in> set out"
  shows "\<exists>s cap. 64 \<le> cap \<and> deposit_slot (slot_of (slots (sv_mailbox sv)) t) s (unat (now_seconds mo)) cap =
    Some (slot_of (slots (sv_mailbox sv')) t)"
proof (cases inp)
  case (FrameIn len req)
  have "\<exists>se1 out1 r. req = Some r \<and> (\<exists>x. handle_request lb mo sv se r = Some (sv', se1, out1, x)) \<and> Broadcast t i \<in> set out1"
    using assms(2,3) FrameIn
    by (auto simp: finish_request_def send_all_def answer_def split: if_splits option.splits prod.splits dest!: in_set_takeD)
  then obtain se1 out1 r x where h: "handle_request lb mo sv se r = Some (sv', se1, out1, x)" "Broadcast t i \<in> set out1" by blast
  then obtain body where "r = Deposit body"
    by (cases r) (auto simp: handle_auth_def handle_auth_blind_def handle_register_wake_def handle_revoke_wake_def handle_subscribe_def
        handle_collected_def handle_unsubscribe_def handle_leave_tickets_def answer_iff send_all_def Let_def
        split: option.splits sum.splits prod.splits receipts.splits leaving.splits if_splits dest!: in_set_takeD)
  then have "handle_deposit lb mo sv se body = Some (sv', se1, out1, x)" using h(1) by simp
  then show ?thesis
  proof (cases rule: deposit_cases)
    case refused
    then show ?thesis using h(2) by simp
  next
    case (stored bs e m left mb dm dc)
    then have "t = e_tag e" using h(2) by (auto simp: notify_no_mail)
    from deposit_with_Some [OF stored(5)] obtain slot where "deposit_slot (slot_of (slots (sv_mailbox sv)) (e_tag e))
        \<lparr>st_envelope = e, deposited_at = unat (now_seconds mo), st_ttl_seconds = unat (tl_ttl_seconds (cap_limits (se_cap se)))\<rparr>
        (unat (now_seconds mo)) (tl_max_per_tag (cap_limits (se_cap se))) = Some slot"
      "mb = (sv_mailbox sv)\<lparr>slots := AList.update (e_tag e) slot (slots (sv_mailbox sv))\<rparr>" by metis
    moreover have "slot_of (slots (sv_mailbox sv')) t = slot" using calculation(2) stored(6) \<open>t = e_tag e\<close> by simp
    moreover have "64 \<le> tl_max_per_tag (cap_limits (se_cap se))" using assms(1) by (simp add: session_ok_def)
    ultimately show ?thesis using \<open>t = e_tag e\<close> by blast
  qed
qed (use assms in \<open>auto simp: deliver_wake_def send_all_def Let_def split: list.splits prod.splits if_splits dest!: in_set_takeD\<close>)

text \<open>
  A history that leaves the mail under a tag alone until a given time: nobody who listens on the tag acts, at most \<open>n\<close>
  further envelopes are deposited under it, and no clock runs past the time.
\<close>

fun leaves_alone :: "'pk lib \<Rightarrow> tag \<Rightarrow> nat \<Rightarrow> nat \<Rightarrow> 'pk world \<Rightarrow> happening list \<Rightarrow> bool" where
  "leaves_alone lb t later n w [] = True"
| "leaves_alone lb t later n w (h # hs) =
     (case world_step lb w h of
        None \<Rightarrow> False
      | Some (w', out) \<Rightarrow>
          (case h of
             Step i mo inp \<Rightarrow>
               (case find_session i (w_sessions w) of
                  None \<Rightarrow> leaves_alone lb t later n w' hs
                | Some se \<Rightarrow> \<not> listening_contains (se_listening se) t \<and>
                    (if Broadcast t i \<in> set out then 0 < n \<and> unat (now_seconds mo) \<le> later \<and> leaves_alone lb t later (n - 1) w' hs
                     else leaves_alone lb t later n w' hs))
           | SweepAt now \<Rightarrow> unat now \<le> later \<and> leaves_alone lb t later n w' hs
           | _ \<Rightarrow> leaves_alone lb t later n w' hs))"

lemma step_keeps_held:
  assumes ok: "world_ok w" and st: "world_step lb w (Step i mo inp) = Some (w', out)"
    and se: "find_session i (w_sessions w) = Some se" "\<not> listening_contains (se_listening se) t"
    and h: "held k s (slot_of (slots (sv_mailbox (w_server w))) t)"
  shows "Broadcast t i \<notin> set out \<Longrightarrow> held k s (slot_of (slots (sv_mailbox (w_server w'))) t)"
    and "Broadcast t i \<in> set out \<Longrightarrow> unat (now_seconds mo) \<le> later \<Longrightarrow> \<not> gone later s \<Longrightarrow> Suc k < 64 \<Longrightarrow>
      held (Suc k) s (slot_of (slots (sv_mailbox (w_server w'))) t)"
proof -
  from st se(1) obtain sv se' alive where step: "session_step lb mo (w_server w) se inp = Some (sv, se', out, alive)"
    and mb: "sv_mailbox (w_server w') = sv_mailbox sv" by (auto split: if_splits)
  have sok: "session_ok se" "se_id se = i" "server_ok (w_server w)" using ok se(1) find_session_ok by (auto simp: world_ok_def)
  have law: "lawful lb (w_server w) se sv se' out" using lawful_step [OF sok(3,1) step] .
  show "held k s (slot_of (slots (sv_mailbox (w_server w'))) t)" if "Broadcast t i \<notin> set out"
    using law that se(2) sok(2) h mb unfolding lawful_def by metis
  show "held (Suc k) s (slot_of (slots (sv_mailbox (w_server w'))) t)"
    if b: "Broadcast t i \<in> set out" and time: "unat (now_seconds mo) \<le> later" "\<not> gone later s" "Suc k < 64"
  proof -
    obtain s' cap where "64 \<le> cap" "deposit_slot (slot_of (slots (sv_mailbox (w_server w))) t) s' (unat (now_seconds mo)) cap =
        Some (slot_of (slots (sv_mailbox sv)) t)" using broadcast_deposits [OF sok(1) step b] by blast
    moreover have "\<not> gone (unat (now_seconds mo)) s" using gone_mono [OF _ time(1)] time(2) by blast
    ultimately show ?thesis using held_deposit [OF h] time(3) mb by (simp add: MAX_PER_TAG_def)
  qed
qed

lemma waits:
  "world_ok w \<Longrightarrow> held k s (slot_of (slots (sv_mailbox (w_server w))) t) \<Longrightarrow> \<not> gone later s \<Longrightarrow> k + n < 64 \<Longrightarrow>
   leaves_alone lb t later n w hs \<Longrightarrow>
   \<exists>w' j. world_run lb w hs = Some w' \<and> world_ok w' \<and> j < 64 \<and> held j s (slot_of (slots (sv_mailbox (w_server w'))) t)"
proof (induction hs arbitrary: w k n)
  case Nil
  then show ?case by (intro exI [of _ w] exI [of _ k]) auto
next
  case (Cons h hs)
  from Cons.prems(5) obtain w1 out where st: "world_step lb w h = Some (w1, out)" by (auto split: option.splits)
  have ok: "world_ok w1" using world_ok_step [OF Cons.prems(1) st] .
  let ?goal = "\<exists>k1 n1. k1 + n1 < 64 \<and> held k1 s (slot_of (slots (sv_mailbox (w_server w1))) t) \<and> leaves_alone lb t later n1 w1 hs"
  have same: ?goal if "held k s (slot_of (slots (sv_mailbox (w_server w1))) t)" "leaves_alone lb t later n w1 hs"
    using that Cons.prems(4) by blast
  have ?goal
  proof (cases h)
    case (Step i mo inp)
    show ?thesis
    proof (cases "find_session i (w_sessions w)")
      case None
      then show ?thesis using Cons.prems st Step by (intro same) auto
    next
      case (Some se)
      note st' = st [unfolded Step]
      note keep = step_keeps_held [OF Cons.prems(1) st' Some _ Cons.prems(2)]
      note alone = Cons.prems(5) [unfolded Step leaves_alone.simps st' Some option.case prod.case happening.case]
      show ?thesis
      proof (cases "Broadcast t i \<in> set out")
        case True
        then have "0 < n" "leaves_alone lb t later (n - 1) w1 hs" "held (Suc k) s (slot_of (slots (sv_mailbox (w_server w1))) t)"
          using alone keep(2) Cons.prems(3,4) by auto
        then show ?thesis using Cons.prems(4) by (intro exI [of _ "Suc k"] exI [of _ "n - 1"]) auto
      next
        case False
        then have "leaves_alone lb t later n w1 hs" "held k s (slot_of (slots (sv_mailbox (w_server w1))) t)"
          using alone keep(1) by auto
        then show ?thesis using Cons.prems(4) by blast
      qed
    qed
  next
    case (SweepAt now)
    have "mb_inv (sv_mailbox (w_server w))" using Cons.prems(1) by (simp add: world_ok_def server_ok_def mail_filed_inv)
    moreover have "\<not> gone (unat now) s" using Cons.prems(3,5) st SweepAt gone_mono by auto
    ultimately have "held k s (slot_of (slots (sv_mailbox (w_server w1))) t)"
      using st SweepAt held_filter [OF Cons.prems(2)] by (auto simp: sweep_server_def slot_of_sweep)
    then show ?thesis using Cons.prems st SweepAt by (intro same) auto
  qed (rule same; use Cons.prems st in \<open>auto simp: open_session_def\<close>)+
  then obtain k1 n1 where "k1 + n1 < 64" "held k1 s (slot_of (slots (sv_mailbox (w_server w1))) t)" "leaves_alone lb t later n1 w1 hs"
    by blast
  from Cons.IH [OF ok this(2) Cons.prems(3) this(1) this(3)] show ?case using st by simp
qed

text \<open>Subscribing to one tag shows everything that is live under it, and takes nothing away.\<close>

lemma subscribe_one:
  assumes "server_ok sv" "session_ok rd" "length t = 32" "s \<in> set (slot_of (slots (sv_mailbox sv)) t)"
    "\<not> gone (unat (now_seconds mo)) s" "length (slot_of (slots (sv_mailbox sv)) t) \<le> se_wire rd"
  shows "\<exists>sv' rd' out n. handle_request lb mo sv rd (Subscribe [hex_text t]) = Some (sv', rd', out, Some (Ready n)) \<and>
    SendReply (EnvelopeReply (lib_b64_encode lb (envelope_to_bytes (st_envelope s)))) \<in> set out \<and>
    sv_mailbox sv' = sv_mailbox sv \<and> listening_contains (se_listening rd') t"
proof -
  let ?es = "peek_many (sv_mailbox sv) [t] (unat (now_seconds mo))"
  have ok: "listening_ok (se_listening rd)" using assms(2) by (simp add: session_ok_def)
  have parsed: "parse_tags [hex_text t] = Some (Some [t])" using parse_hex_text(1) [OF assms(3)] by simp
  obtain slot where slot: "map_of (slots (sv_mailbox sv)) t = Some slot" "slot_of (slots (sv_mailbox sv)) t = slot"
    using assms(4) by (cases "map_of (slots (sv_mailbox sv)) t") (auto simp: slot_of_def)
  have es: "?es = map st_envelope (filter (\<lambda>s. \<not> is_expired s (unat (now_seconds mo))) slot)"
    using slot by (simp add: peek_many_def map_filter_def)
  have "length ?es \<le> length slot" unfolding es by simp
  then have len: "length ?es \<le> se_wire rd" using assms(6) unfolding slot(2) by (rule le_trans)
  have mem: "st_envelope s \<in> set ?es" using assms(4,5) slot(2) by (auto simp: es is_expired_def)
  have "listening_contains (subscribed (se_listening rd) [t]) t"
    using subscribed_ok(2) [OF ok, of "[t]"] by (simp add: listening_contains_def MAX_TAGS_PER_SUBSCRIPTION_def)
  moreover have "fold listening_add [t] (fst (make_room_for (se_listening rd) (length [t]) MAX_TAGS_PER_CONNECTION)) = subscribed (se_listening rd) [t]"
    by (simp only: subscribed_def)
  ultimately show ?thesis using parsed len mem
    by (simp add: handle_subscribe_def send_all_def envelope_replies_def Let_def MAX_TAGS_PER_SUBSCRIPTION_def)
qed

text \<open>C10: a message that was stored waits for its reader.  Once the server has answered a deposit with \<^verbatim>\<open>Stored\<close>, the envelope is
  offered to whoever subscribes to its tag, for as long as the depositor's tier keeps it: through any history of other
  sessions, sweeps, lost wakes and disowned devices in which nobody who listens on the tag has acted before and at most
  sixty-two further envelopes were deposited under it.  The server is still running then, and reading takes nothing away.
\<close>

theorem stored_mail_waits:
  assumes "world_ok w" "find_session i (w_sessions w) = Some se"
    "lib_b64 lb (trim body) = Some bs" "envelope_from_bytes bs = Inr e"
    "handle_request lb mo (w_server w) se (Deposit body) = Some (sv, se', out, Some Stored)"
    "unat (now_seconds mo') - unat (now_seconds mo) < unat (tl_ttl_seconds (cap_limits (se_cap se)))"
    "leaves_alone lb (e_tag e) (unat (now_seconds mo')) 62 (w\<lparr>w_server := sv\<rparr>) hs"
  shows "\<exists>w'. world_run lb (w\<lparr>w_server := sv\<rparr>) hs = Some w' \<and>
    (\<forall>rd. session_ok rd \<longrightarrow> length (slot_of (slots (sv_mailbox (w_server w'))) (e_tag e)) \<le> se_wire rd \<longrightarrow>
      (\<exists>sv' rd' out n. handle_request lb mo' (w_server w') rd (Subscribe [hex_text (e_tag e)]) = Some (sv', rd', out, Some (Ready n)) \<and>
        SendReply (EnvelopeReply (lib_b64_encode lb (envelope_to_bytes e))) \<in> set out \<and> sv_mailbox sv' = sv_mailbox (w_server w')))"
proof -
  have sok: "session_ok se" "server_ok (w_server w)" using assms(1,2) find_session_ok by (auto simp: world_ok_def)
  have dep: "handle_deposit lb mo (w_server w) se body = Some (sv, se', out, Some Stored)" using assms(5) by simp
  have law: "lawful lb (w_server w) se sv se' out" using lawful_deposit [OF sok(2,1) dep] .
  from dep obtain mb s where s: "deposit_with (sv_mailbox (w_server w)) e (unat (now_seconds mo))
      (unat (tl_ttl_seconds (cap_limits (se_cap se)))) (tl_max_per_tag (cap_limits (se_cap se))) = Some (mb, Inr ())"
    "sv_mailbox sv = mb" by (cases rule: deposit_cases) (use assms(3,4) in auto)
  let ?s = "\<lparr>st_envelope = e, deposited_at = unat (now_seconds mo), st_ttl_seconds = unat (tl_ttl_seconds (cap_limits (se_cap se)))\<rparr>"
  have held: "held 0 ?s (slot_of (slots (sv_mailbox sv)) (e_tag e))"
    using s by (auto elim!: deposit_with_Some intro: deposit_slot_held)
  have alive: "\<not> gone (unat (now_seconds mo')) ?s" using assms(6) by (simp add: expired_def)
  have len: "length (e_tag e) = 32" using assms(4) by (auto simp: envelope_from_bytes_def tag_from_bytes_def Let_def result_simps split: if_splits)
  have "world_ok (w\<lparr>w_server := sv\<rparr>)" using assms(1) law by (simp add: world_ok_def lawful_def)
  from waits [OF this _ alive _ assms(7), of 0] held obtain w' j where
    w': "world_run lb (w\<lparr>w_server := sv\<rparr>) hs = Some w'" "world_ok w'" "held j ?s (slot_of (slots (sv_mailbox (w_server w'))) (e_tag e))"
    by auto
  have "server_ok (w_server w')" using w'(2) by (simp add: world_ok_def)
  from subscribe_one [OF this _ len held_mem [OF w'(3)] alive, of _ lb] w'(1) show ?thesis by (auto simp del: handle_request.simps) blast
qed

definition zero_lib :: "unit lib" where
  "zero_lib = sample_lib\<lparr>lib_b64 := (\<lambda>_. Some (replicate 1056 0))\<rparr>"

definition sample_world :: "unit world" where
  "sample_world = \<lparr>w_server = sample_server, w_sessions = [sample_session]\<rparr>"

lemma sample_world_ok: "world_ok sample_world" "find_session 0 (w_sessions sample_world) = Some sample_session"
  using sample_server_ok sample_session_ok by (simp_all add: world_ok_def sample_world_def find_session_def sample_session_def)

lemma zero_envelope: "envelope_from_bytes (replicate 1056 0) = Inr \<lparr>e_tag = replicate 32 0, e_payload = replicate 1024 0\<rparr>"
  by (simp add: envelope_from_bytes_def tag_from_bytes_def bucket_from_size_def BUCKET_SIZES_def)

lemma zero_deposit:
  "\<exists>sv se' out. handle_request zero_lib sample_moment (w_server sample_world) sample_session (Deposit []) = Some (sv, se', out, Some Stored)"
  by (simp add: handle_deposit_def zero_lib_def zero_envelope sample_session_def capability_free_def sample_world_def sample_server_def
      charge_def saturating_add_def deposit_with_def deposit_slot_def MAX_PER_TAG_def with_default_ttl_def mailbox_new_def slot_of_def
      word_less_nat_alt Let_def sample_moment_def)

lemma stored_mail_waits_witness:
  "\<exists>sv w'. world_run zero_lib (sample_world\<lparr>w_server := sv\<rparr>) [Connect [2] 9] = Some w' \<and>
    (\<forall>rd. session_ok rd \<longrightarrow> length (slot_of (slots (sv_mailbox (w_server w'))) (replicate 32 0)) \<le> se_wire rd \<longrightarrow>
      (\<exists>sv' rd' out n. handle_request zero_lib sample_moment (w_server w') rd (Subscribe [hex_text (replicate 32 0)]) = Some (sv', rd', out, Some (Ready n)) \<and>
        SendReply (EnvelopeReply (lib_b64_encode zero_lib (replicate 1056 0))) \<in> set out))"
proof -
  let ?e = "\<lparr>e_tag = replicate 32 0, e_payload = replicate 1024 0\<rparr> :: envelope"
  obtain sv se' out where d: "handle_request zero_lib sample_moment (w_server sample_world) sample_session (Deposit []) = Some (sv, se', out, Some Stored)"
    using zero_deposit by blast
  have "lib_b64 zero_lib (trim []) = Some (replicate 1056 0)" by (simp add: zero_lib_def)
  moreover have "unat (now_seconds sample_moment) - unat (now_seconds sample_moment) < unat (tl_ttl_seconds (cap_limits (se_cap sample_session)))"
    by (simp add: sample_session_def capability_free_def)
  moreover have "leaves_alone zero_lib (e_tag ?e) (unat (now_seconds sample_moment)) 62 (sample_world\<lparr>w_server := sv\<rparr>) [Connect [2] 9]"
    by (simp add: open_session_def)
  moreover have "envelope_to_bytes ?e = replicate 1056 0" by (simp add: envelope_to_bytes_def flip: replicate_add)
  ultimately show ?thesis
    using stored_mail_waits [OF sample_world_ok _ zero_envelope d, of sample_moment "[Connect [2] 9]"] by fastforce
qed

text \<open>The notifier learns no more than it must.  It is called only when somebody left a live ticket under the tag, once for
  a deposit, and what it receives is a rearrangement of the tickets under the tag together with at most the configured number
  of live tickets from other tags, whatever the random bytes are.
\<close>

theorem notifier_sees_a_shuffle:
  assumes "CallNotifier ts \<in> set (notify mo sv t)"
  shows "\<exists>n riders. sv_notifier sv = Some n \<and> notify mo sv t = [CallNotifier ts] \<and> for_tag (sv_tickets sv) t (unat (now_seconds mo)) \<noteq> [] \<and>
    mset ts = mset (for_tag (sv_tickets sv) t (unat (now_seconds mo))) + mset riders \<and>
    length riders \<le> n \<and> set riders \<subseteq> live_elsewhere (sv_tickets sv) t (unat (now_seconds mo))"
proof -
  let ?now = "unat (now_seconds mo)"
  let ?real = "for_tag (sv_tickets sv) t ?now"
  from assms obtain n where n: "sv_notifier sv = Some n" "?real \<noteq> []"
    by (cases "sv_notifier sv") (auto simp: notify_def Let_def split: if_splits)
  define riders where "riders = decoys (sv_tickets sv) t n ?now (unat (sv_next_connection sv))"
  have call: "notify mo sv t = [CallNotifier (case random_bytes mo of None \<Rightarrow> ?real @ riders
      | Some random \<Rightarrow> shuffle_from (length (?real @ riders) - 1) random (?real @ riders))]"
    using n by (simp add: notify_def Let_def flip: riders_def)
  then have "mset ts = mset (?real @ riders)"
    using assms n(2) mset_shuffle_from [of "length (?real @ riders) - 1" "?real @ riders"]
    by (cases "random_bytes mo") (simp_all add: length_greater_0_conv [symmetric] del: length_greater_0_conv)
  moreover have "length riders \<le> n" "set riders \<subseteq> live_elsewhere (sv_tickets sv) t ?now"
    using decoys_walk_bound [of "[]" n]
      decoys_walk_from [of t n ?now "rotate (unat (sv_next_connection sv) mod length (sv_tickets sv)) (sv_tickets sv)" "[]"]
    by (auto simp: riders_def decoys_def live_elsewhere_rotate)
  ultimately show ?thesis using n call assms by auto
qed

lemma notifier_sees_a_shuffle_witness:
  "\<exists>riders. mset [''x''] = mset (for_tag [([1], [\<lparr>ticket = ''x'', left_at = 7000\<rparr>])] [1] 7200) + mset riders"
proof -
  let ?sv = "sample_server\<lparr>sv_tickets := [([1], [\<lparr>ticket = ''x'', left_at = 7000\<rparr>])]\<rparr>"
  have "for_tag (sv_tickets ?sv) [1] (unat (now_seconds sample_moment)) = [''x'']"
    by (simp add: for_tag_def slot_of_def awake_def TICKET_TTL_def sample_moment_def)
  then have "CallNotifier [''x''] \<in> set (notify sample_moment ?sv [1])"
    by (simp add: notify_def sample_server_def decoys_def sample_moment_def Let_def)
  from notifier_sees_a_shuffle [OF this] show ?thesis by (auto simp: sample_moment_def)
qed

text \<open>C31: text that splits a character stops the server.  A tag of sixty-four bytes is cut into pairs without looking for
  character boundaries, so one subscription that names a tag with a two-byte character across the first cut panics, and
  the server, which is built to abort on a panic, is gone with all its sessions.  Any connection can send it.
\<close>

theorem split_character_stops_the_server:
  assumes "find_session i (w_sessions w) = Some se" "utf8_valid s" "length s = 64" "continuation (s ! 2)" "len \<le> MAX_FRAME_BYTES"
  shows "world_step lb w (Step i mo (FrameIn len (Some (Subscribe [s])))) = None"
  using assms parse_split_char(1) [OF assms(3,4)]
  by (simp add: handle_subscribe_def finish_request_def MAX_TAGS_PER_SUBSCRIPTION_def)

lemma split_character_stops_the_server_witness:
  "utf8_valid (97 # 0xC3 # 0xA9 # replicate 61 97) \<and>
   world_step sample_lib sample_world (Step 0 sample_moment (FrameIn 99 (Some (Subscribe [97 # 0xC3 # 0xA9 # replicate 61 97])))) = None"
proof -
  have "utf8_valid (replicate n 97)" for n by (induction n) simp_all
  then have "utf8_valid (97 # 0xC3 # 0xA9 # replicate 61 97)" by (simp add: continuation_def)
  then show ?thesis
    using split_character_stops_the_server [OF sample_world_ok(2), of "97 # 0xC3 # 0xA9 # replicate 61 97" 99 sample_lib sample_moment]
    by (simp add: continuation_def MAX_FRAME_BYTES_def)
qed

text \<open>C32: nothing else stops it.  As long as the tags and receipts of every request are plain text, whatever they say, the
  server answers every history of happenings: no deposit, no token, no lost socket and no full table makes it panic.
\<close>

theorem plain_requests_never_stop_it:
  assumes "world_ok w" "list_all plain_happening hs"
  shows "\<exists>w'. world_run lb w hs = Some w'"
  using assms
proof (induction hs arbitrary: w)
  case (Cons h hs)
  then obtain w1 out where st: "world_step lb w h = Some (w1, out)" using plain_step [of w h lb] by auto
  then show ?case using Cons.IH [OF world_ok_step [OF Cons.prems(1) st]] Cons.prems(2) by simp
qed simp

lemma plain_requests_never_stop_it_witness:
  "\<exists>w'. world_run sample_lib sample_world [Step 0 sample_moment (FrameIn 9 (Some (Collected [[50, 51]]))), SweepAt 5] = Some w'"
  by (rule plain_requests_never_stop_it [OF sample_world_ok(1)]) (simp add: plain_text_def continuation_def)

text \<open>A live delivery can lose mail.  What arrives while somebody listens is taken out of the mailbox before it is put on the
  connection: if the socket no longer takes frames, every envelope under the tag is gone from the server and was sent to
  nobody, so that no later subscription finds it, although an envelope is meant to stay until its recipient says it arrived.
\<close>

theorem live_delivery_is_lost:
  assumes "find_session i (w_sessions w) = Some se" "listening_contains (se_listening se) t"
    "se_inbox se = (t, j) # rest" "j \<noteq> i" "se_wire se = 0"
  shows "\<exists>w'. world_step lb w (Step i mo WakeUp) = Some (w', []) \<and> (\<forall>now. peek_many (sv_mailbox (w_server w')) [t] now = [])"
proof -
  have i: "se_id se = i" using assms(1) by (simp add: find_session_def find_Some_iff) blast
  have gone_mail: "peek_many (fst (collect m t n)) [t] now = []" for m n now
    by (simp add: peek_many_def collect_def map_filter_def delete_conv')
  obtain m es where c: "collect (sv_mailbox (w_server w)) t (unat (now_seconds mo)) = (m, es)"
    by (cases "collect (sv_mailbox (w_server w)) t (unat (now_seconds mo))")
  have "peek_many m [t] now = []" for now using gone_mail [of "sv_mailbox (w_server w)" "unat (now_seconds mo)" now] c by simp
  then show ?thesis using assms i c by (simp add: deliver_wake_def send_all_def Let_def)
qed

lemma live_delivery_is_lost_witness:
  fixes w :: "unit world" and se :: session
  defines "se \<equiv> sample_session\<lparr>se_listening := \<lparr>ls_set = {[7]}, ls_order = [[7]]\<rparr>, se_wire := 0, se_inbox := [([7], 3)]\<rparr>"
    and "w \<equiv> sample_world\<lparr>w_sessions := [se]\<rparr>"
  shows "\<exists>w'. world_step sample_lib w (Step 0 sample_moment WakeUp) = Some (w', []) \<and> (\<forall>now. peek_many (sv_mailbox (w_server w')) [[7]] now = [])"
  by (rule live_delivery_is_lost [of _ _ se _ 3 "[]"])
    (simp_all add: w_def se_def find_session_def sample_session_def listening_contains_def)

lemma add_held: "set ts \<subseteq> ls_set l \<Longrightarrow> fold listening_add ts l = l"
  by (induction ts) (auto simp: listening_add_def)

text \<open>Asking again costs tags.  A connection that listens on as many tags as it may and subscribes once more to the \<open>k\<close> it asked
  for last needs no room, yet loses the \<open>k\<close> it asked for first.
\<close>

theorem resubscribing_drops_the_oldest:
  assumes "listening_ok l" "length (ls_order l) = MAX_TAGS_PER_CONNECTION" "k \<le> MAX_TAGS_PER_SUBSCRIPTION"
  shows "ls_order (subscribed l (drop (MAX_TAGS_PER_CONNECTION - k) (ls_order l))) = drop k (ls_order l)"
proof -
  let ?again = "drop (MAX_TAGS_PER_CONNECTION - k) (ls_order l)"
  have k: "k \<le> 64" "length ?again = k" using assms(2,3) by (auto simp: MAX_TAGS_PER_SUBSCRIPTION_def MAX_TAGS_PER_CONNECTION_def)
  obtain l' n where room: "make_room_for l (length ?again) MAX_TAGS_PER_CONNECTION = (l', n)" by (cases "make_room_for l (length ?again) MAX_TAGS_PER_CONNECTION")
  note spec = make_room_spec [OF assms(1) room]
  have len: "listening_len l' = 256 - n" using spec(2) assms(2) listening_len_order [OF spec(1)] by (simp add: MAX_TAGS_PER_CONNECTION_def)
  then have "n = k" using spec(3-5) k assms(2) by (auto simp: MAX_TAGS_PER_CONNECTION_def)
  have "set ?again \<subseteq> set (drop k (ls_order l))" using k(1) by (intro set_drop_subset_set_drop) (simp add: MAX_TAGS_PER_CONNECTION_def)
  then have "set ?again \<subseteq> ls_set l'" using spec(1,2) \<open>n = k\<close> by (simp add: listening_ok_def)
  then have "fold listening_add ?again l' = l'" by (rule add_held)
  then show ?thesis using room spec(2) \<open>n = k\<close> by (simp add: subscribed_def)
qed

lemma resubscribing_drops_the_oldest_witness:
  fixes ts :: "tag list"
  defines "ts \<equiv> map (\<lambda>n. [word_of_nat n]) [0..<256]"
  shows "ls_order (subscribed \<lparr>ls_set = set ts, ls_order = ts\<rparr> (drop 255 ts)) = drop 1 ts"
proof -
  have "inj_on (\<lambda>n. [word_of_nat n :: u8]) {0..<256}"
    by (rule inj_on_inverseI [of _ "\<lambda>t. unat (hd t)"]) (simp add: unat_of_nat)
  then have "listening_ok \<lparr>ls_set = set ts, ls_order = ts\<rparr>" by (simp add: listening_ok_def ts_def distinct_map)
  from resubscribing_drops_the_oldest [OF this, of 1] show ?thesis
    by (simp add: ts_def MAX_TAGS_PER_CONNECTION_def MAX_TAGS_PER_SUBSCRIPTION_def del: upt_rec_numeral)
qed

end
