(* ===== verification/Jitter_Buffer.thy ===== *)
theory Jitter_Buffer
  imports Media_Session "HOL-Library.AList"
begin

text \<open>
  The jitter buffer, \<^verbatim>\<open>crates/rotelyx-media/src/jitter.rs\<close>.  The ordered map of frames is an association
  list with distinct keys.  The jitter estimate is a floating-point number of a type of its own:
  \<open>smooth j d\<close> is \<open>j + (d - j) / 16\<close> and \<open>thrice j\<close> is three times it, cast to \<^verbatim>\<open>u32\<close>; nothing proved here
  depends on their values.  Counters are \<^verbatim>\<open>u64\<close> and wrap as in a release build.
\<close>

section \<open>State\<close>

definition FRAME_MS :: nat where "FRAME_MS = 20"
definition MIN_DELAY_MS :: nat where "MIN_DELAY_MS = FRAME_MS"
definition MAX_DELAY_MS :: nat where "MAX_DELAY_MS = 200"
definition MAX_FIDELITY_DELAY_MS :: nat where "MAX_FIDELITY_DELAY_MS = 5000"

lemmas jitter_consts = FRAME_MS_def MIN_DELAY_MS_def MAX_DELAY_MS_def MAX_FIDELITY_DELAY_MS_def

datatype jitter_mode = Conversational | Fidelity

fun max_delay_ms :: "jitter_mode \<Rightarrow> nat" where
  "max_delay_ms Conversational = MAX_DELAY_MS"
| "max_delay_ms Fidelity = MAX_FIDELITY_DELAY_MS"

fun floor_ms :: "jitter_mode \<Rightarrow> nat" where
  "floor_ms Conversational = MIN_DELAY_MS"
| "floor_ms Fidelity = 2000"

datatype playout = Frame bytes | Missing | Starved | Waiting

record 'f jitter_buffer =
  jb_mode :: jitter_mode
  jb_frames :: "(u64 \<times> bytes) list"
  jb_next :: "u64 option"
  jb_lowest_seen :: "u64 option"
  jb_target_ms :: nat
  jb_jitter_ms :: 'f
  jb_previous :: "(u64 \<times> u64) option"
  jb_played :: nat
  jb_missing :: nat
  jb_late :: nat

definition with_mode :: "'f \<Rightarrow> jitter_mode \<Rightarrow> 'f jitter_buffer" where
  "with_mode zero m =
     \<lparr> jb_mode = m, jb_frames = [], jb_next = None, jb_lowest_seen = None,
       jb_target_ms = max (floor_ms m) (MIN_DELAY_MS * 2), jb_jitter_ms = zero, jb_previous = None,
       jb_played = 0, jb_missing = 0, jb_late = 0 \<rparr>"

section \<open>Operations\<close>

text \<open>The smallest and largest keys: \<^verbatim>\<open>keys().next()\<close> and \<^verbatim>\<open>keys().next_back()\<close> of the ordered map.\<close>

definition lowest_key :: "(u64 \<times> 'v) list \<Rightarrow> u64 option" where
  "lowest_key m = (case map fst m of [] \<Rightarrow> None | k # ks \<Rightarrow> Some (fold min ks k))"

definition highest_key :: "(u64 \<times> 'v) list \<Rightarrow> u64 option" where
  "highest_key m = (case map fst m of [] \<Rightarrow> None | k # ks \<Rightarrow> Some (fold max ks k))"

definition observe_jitter ::
  "('f \<Rightarrow> nat \<Rightarrow> 'f) \<Rightarrow> ('f \<Rightarrow> nat) \<Rightarrow> 'f jitter_buffer \<Rightarrow> u64 \<Rightarrow> u64 \<Rightarrow> 'f jitter_buffer" where
  "observe_jitter smooth thrice jb counter now_ms =
     (let jb' = (case jb_previous jb of
          None \<Rightarrow> jb
        | Some (last_counter, last_arrival) \<Rightarrow>
            let expected = (counter - last_counter) * word_of_nat FRAME_MS;
                actual = now_ms - last_arrival;
                d = nat \<bar>sint (actual - expected)\<bar>;
                j = smooth (jb_jitter_ms jb) d;
                wanted = min (max (thrice j) (floor_ms (jb_mode jb))) (max_delay_ms (jb_mode jb))
            in jb\<lparr>jb_jitter_ms := j,
                  jb_target_ms := (if jb_target_ms jb < wanted then wanted else max (jb_target_ms jb - 1) wanted)\<rparr>)
      in jb'\<lparr>jb_previous := Some (counter, now_ms)\<rparr>)"

definition push ::
  "('f \<Rightarrow> nat \<Rightarrow> 'f) \<Rightarrow> ('f \<Rightarrow> nat) \<Rightarrow> 'f jitter_buffer \<Rightarrow> u64 \<Rightarrow> u64 \<Rightarrow> bytes \<Rightarrow> 'f jitter_buffer" where
  "push smooth thrice jb counter now_ms frame =
     (let jb = observe_jitter smooth thrice jb counter now_ms;
          jb = jb\<lparr>jb_lowest_seen := Some (case jb_lowest_seen jb of Some s \<Rightarrow> min s counter | None \<Rightarrow> counter)\<rparr>
      in if (case jb_next jb of Some n \<Rightarrow> counter < n | None \<Rightarrow> False)
         then jb\<lparr>jb_late := jb_late jb + 1\<rparr>
         else jb\<lparr>jb_frames := AList.update counter frame (jb_frames jb)\<rparr>)"

definition buffered_ms :: "'f jitter_buffer \<Rightarrow> nat" where
  "buffered_ms jb = min (length (jb_frames jb) mod 2 ^ 32 * FRAME_MS) (2 ^ 32 - 1)"

definition may_wait :: "'f jitter_buffer \<Rightarrow> bool" where
  "may_wait jb \<longleftrightarrow> jb_mode jb = Fidelity \<and> buffered_ms jb < jb_target_ms jb"

text \<open>What \<^verbatim>\<open>pop\<close> does once it knows the slot.\<close>

definition pop_slot :: "'f jitter_buffer \<Rightarrow> u64 \<Rightarrow> 'f jitter_buffer \<times> playout" where
  "pop_slot jb slot =
     (let jb = jb\<lparr>jb_next := Some (slot + 1)\<rparr>
      in case map_of (jb_frames jb) slot of
           Some frame \<Rightarrow>
             (jb\<lparr>jb_frames := AList.delete slot (jb_frames jb), jb_played := jb_played jb + 1\<rparr>, Frame frame)
         | None \<Rightarrow>
             if may_wait jb then (jb\<lparr>jb_next := Some slot\<rparr>, Waiting)
             else (jb\<lparr>jb_missing := jb_missing jb + 1\<rparr>, Missing))"

definition pop :: "'f jitter_buffer \<Rightarrow> 'f jitter_buffer \<times> playout" where
  "pop jb =
     (case lowest_key (jb_frames jb) of
        None \<Rightarrow> (jb, if jb_next jb \<noteq> None then Missing else Starved)
      | Some lowest \<Rightarrow>
          (case jb_next jb of
             Some slot \<Rightarrow> pop_slot jb slot
           | None \<Rightarrow>
               if buffered_ms jb < jb_target_ms jb then (jb, Starved)
               else pop_slot jb (min (case jb_lowest_seen jb of Some s \<Rightarrow> s | None \<Rightarrow> lowest) lowest)))"

definition recoverable_between :: "'f jitter_buffer \<Rightarrow> u64 option \<Rightarrow> u64 \<Rightarrow> u64 list" where
  "recoverable_between jb oldest_sent highest_sent =
     (if jb_mode jb \<noteq> Fidelity then []
      else
        case (case jb_next jb of
                Some n \<Rightarrow> Some n
              | None \<Rightarrow>
                  (case lowest_key (jb_frames jb) of
                     None \<Rightarrow> None
                   | Some s \<Rightarrow> Some (case oldest_sent of Some oldest \<Rightarrow> min oldest s | None \<Rightarrow> s))) of
          None \<Rightarrow> []
        | Some start \<Rightarrow>
            filter (\<lambda>c. map_of (jb_frames jb) c = None)
              (map word_of_nat [unat start..<Suc (unat highest_sent)]))"

definition recoverable_through :: "'f jitter_buffer \<Rightarrow> u64 \<Rightarrow> u64 list" where
  "recoverable_through jb highest_sent = recoverable_between jb None highest_sent"

definition recoverable :: "'f jitter_buffer \<Rightarrow> u64 list" where
  "recoverable jb = (case highest_key (jb_frames jb) of None \<Rightarrow> [] | Some h \<Rightarrow> recoverable_through jb h)"

definition jitter_counts :: "'f jitter_buffer \<Rightarrow> nat \<times> nat \<times> nat" where
  "jitter_counts jb = (jb_played jb, jb_missing jb, jb_late jb)"

section \<open>Sessions\<close>

datatype jitter_op = Push u64 u64 bytes | Pop

fun jitter_step :: "('f \<Rightarrow> nat \<Rightarrow> 'f) \<Rightarrow> ('f \<Rightarrow> nat) \<Rightarrow> 'f jitter_buffer \<Rightarrow> jitter_op \<Rightarrow> 'f jitter_buffer" where
  "jitter_step smooth thrice jb (Push c t f) = push smooth thrice jb c t f"
| "jitter_step smooth thrice jb Pop = fst (pop jb)"

text \<open>The counter and the bytes a step hands to the decoder.\<close>

fun jitter_plays :: "'f jitter_buffer \<Rightarrow> jitter_op \<Rightarrow> (u64 \<times> bytes) option" where
  "jitter_plays jb (Push c t f) = None"
| "jitter_plays jb Pop =
     (case pop jb of
        (jb', Frame f) \<Rightarrow> (case jb_next jb' of Some n \<Rightarrow> Some (n - 1, f) | None \<Rightarrow> None)
      | _ \<Rightarrow> None)"

section \<open>Playing in order\<close>

text \<open>A filter that hands values out in increasing order hands none out twice.\<close>

locale in_order_filter =
  fixes step :: "'s \<Rightarrow> 'x \<Rightarrow> 's"
    and takes :: "'s \<Rightarrow> 'x \<Rightarrow> 'c::linorder option"
    and repr :: "'s \<Rightarrow> 'c set \<Rightarrow> bool"
  assumes skipped: "repr s A \<Longrightarrow> takes s x = None \<Longrightarrow> repr (step s x) A"
    and taken_later: "repr s A \<Longrightarrow> takes s x = Some c \<Longrightarrow> a \<in> A \<Longrightarrow> a < c"
    and taken: "repr s A \<Longrightarrow> takes s x = Some c \<Longrightarrow> repr (step s x) (insert c A)"

sublocale in_order_filter \<subseteq> once: replay_filter step takes repr
  by unfold_locales (auto intro: skipped taken dest: taken_later)

context in_order_filter
begin

lemma taken_in_order:
  "repr s A \<Longrightarrow> sorted_wrt (<) (run_taken step takes s xs) \<and> (\<forall>a\<in>A. \<forall>c\<in>set (run_taken step takes s xs). a < c)"
proof (induction xs arbitrary: s A)
  case Nil
  then show ?case by simp
next
  case (Cons x xs)
  show ?case
  proof (cases "takes s x")
    case None
    then show ?thesis using Cons.IH [OF skipped [OF Cons.prems None]] by simp
  next
    case (Some c)
    have "sorted_wrt (<) (run_taken step takes (step s x) xs) \<and>
        (\<forall>a\<in>insert c A. \<forall>d\<in>set (run_taken step takes (step s x) xs). a < d)"
      by (rule Cons.IH [OF taken [OF Cons.prems Some]])
    then show ?thesis using taken_later [OF Cons.prems Some] Some by auto
  qed
qed

end

text \<open>
  The buffer is one while counters stay below the largest, so that the play head does not wrap: the guarded
  step leaves out frames with the largest counter.
\<close>

definition keys_of :: "(u64 \<times> 'v) list \<Rightarrow> u64 set" where
  "keys_of m = set (map fst m)"

lemma finite_keys_of: "finite (keys_of m)"
  by (simp add: keys_of_def)

lemma keys_of_Nil [simp]: "keys_of [] = {}"
  by (simp add: keys_of_def)

lemma keys_of_update [simp]: "keys_of (AList.update k v m) = insert k (keys_of m)"
  by (auto simp: keys_of_def update_keys simp del: set_map)

lemma keys_of_delete [simp]: "keys_of (AList.delete k m) = keys_of m - {k}"
  by (simp add: keys_of_def delete_keys del: set_map)

lemma map_of_None_keys_of: "map_of m k = None \<longleftrightarrow> k \<notin> keys_of m"
  by (simp add: keys_of_def map_of_eq_None_iff)

lemma lowest_key_Min: "lowest_key m = (if m = [] then None else Some (Min (keys_of m)))"
  by (cases m) (simp_all add: lowest_key_def keys_of_def Min.set_eq_fold [symmetric] del: set_map list.set)

lemma lowest_key_le: "lowest_key m = Some l \<Longrightarrow> k \<in> keys_of m \<Longrightarrow> l \<le> k"
  using Min_le [of "keys_of m" k] finite_keys_of [of m] by (auto simp: lowest_key_Min split: if_splits)

lemma lowest_key_in: "lowest_key m = Some l \<Longrightarrow> l \<in> keys_of m"
  using Min_in [of "keys_of m"] by (auto simp: lowest_key_Min keys_of_def split: if_splits)

definition in_order :: "'f jitter_buffer \<Rightarrow> u64 set \<Rightarrow> bool" where
  "in_order jb A \<longleftrightarrow>
     (\<forall>k\<in>keys_of (jb_frames jb). k < - 1) \<and>
     (case jb_next jb of
        None \<Rightarrow> A = {} \<and> (\<forall>k\<in>keys_of (jb_frames jb). \<exists>l. jb_lowest_seen jb = Some l \<and> l \<le> k)
      | Some n \<Rightarrow> (\<forall>k\<in>keys_of (jb_frames jb). n \<le> k) \<and> (\<forall>a\<in>A. a < n))"

lemma observe_jitter_keeps [simp]:
  "jb_frames (observe_jitter sm th jb c t) = jb_frames jb"
  "jb_next (observe_jitter sm th jb c t) = jb_next jb"
  "jb_lowest_seen (observe_jitter sm th jb c t) = jb_lowest_seen jb"
  "jb_mode (observe_jitter sm th jb c t) = jb_mode jb"
  by (auto simp: observe_jitter_def Let_def split: option.splits)

lemma in_order_push:
  assumes "in_order jb A" "c < - 1"
  shows "in_order (push sm th jb c t f) A"
proof (cases "jb_next jb")
  case None
  then show ?thesis
    using assms by (auto simp: in_order_def push_def Let_def min_def split: option.splits)
next
  case (Some n)
  then show ?thesis
    using assms by (auto simp: in_order_def push_def Let_def not_less)
qed

lemma pop_slot_frame:
  "pop_slot jb slot = (jb', Frame f) \<longleftrightarrow>
    map_of (jb_frames jb) slot = Some f \<and>
    jb' = jb\<lparr>jb_next := Some (slot + 1), jb_frames := AList.delete slot (jb_frames jb), jb_played := jb_played jb + 1\<rparr>"
  by (auto simp: pop_slot_def Let_def split: option.splits)

lemma below_max_Suc: "(n :: u64) < - 1 \<Longrightarrow> a < n + 1 \<longleftrightarrow> a \<le> n"
proof -
  assume "n < - 1"
  then have "unat (n + 1) = unat n + 1"
    by (simp add: unat_word_ariths word_less_nat_alt unsigned_minus_1_eq_mask mask_eq_exp_minus_1)
  then show ?thesis by (auto simp: word_less_nat_alt word_le_nat_alt)
qed

lemma Suc_le_of_less: "(n :: u64) < - 1 \<Longrightarrow> n + 1 \<le> k \<longleftrightarrow> n < k"
  using below_max_Suc [of n k] by (simp add: not_less [symmetric])

lemma in_order_pop_slot:
  assumes keys: "\<forall>k\<in>keys_of (jb_frames jb). slot \<le> k \<and> k < - 1" "slot < - 1" and A: "\<forall>a\<in>A. a < slot"
  shows "in_order (fst (pop_slot jb slot)) A"
    and "pop_slot jb slot = (jb', Frame f) \<Longrightarrow> in_order jb' (insert slot A)"
proof -
  have later: "a < slot + 1" if "a \<in> insert slot A" for a
    using that A below_max_Suc [OF keys(2)] by auto
  have rest: "slot + 1 \<le> k" if "k \<in> keys_of (jb_frames jb)" "k \<noteq> slot" for k
    using keys that by (auto simp: Suc_le_of_less)
  show "in_order (fst (pop_slot jb slot)) A"
    using keys A later rest
    by (auto simp: pop_slot_def in_order_def Let_def map_of_None_keys_of split: option.splits)
  show "pop_slot jb slot = (jb', Frame f) \<Longrightarrow> in_order jb' (insert slot A)"
    using keys later rest by (auto simp: pop_slot_frame in_order_def)
qed

text \<open>The slot a \<open>pop\<close> is about, when it is about one.\<close>

lemma pop_cases:
  assumes "in_order jb A"
  obtains (none) out where "pop jb = (jb, out)" "\<And>f. out \<noteq> Frame f"
  | (slot) slot where "pop jb = pop_slot jb slot" "\<forall>k\<in>keys_of (jb_frames jb). slot \<le> k \<and> k < - 1"
      "slot < - 1" "\<forall>a\<in>A. a < slot"
proof (cases "lowest_key (jb_frames jb)")
  case None
  then show ?thesis using none by (auto simp: pop_def split: if_splits)
next
  case (Some l)
  note l = lowest_key_in [OF Some] lowest_key_le [OF Some]
  show ?thesis
  proof (cases "jb_next jb")
    case (Some n)
    then have "pop jb = pop_slot jb n" using \<open>lowest_key (jb_frames jb) = Some l\<close> by (simp add: pop_def)
    moreover have "n \<le> l" "l < - 1" using assms l Some by (auto simp: in_order_def)
    ultimately show ?thesis using slot [of n] assms Some by (auto simp: in_order_def)
  next
    case None
    show ?thesis
    proof (cases "buffered_ms jb < jb_target_ms jb")
      case True
      then show ?thesis using none None Some by (simp add: pop_def)
    next
      case False
      obtain s where s: "jb_lowest_seen jb = Some s" using assms None l(1) by (auto simp: in_order_def)
      then have "pop jb = pop_slot jb (min s l)" using False None Some by (simp add: pop_def)
      moreover have "min s l < - 1" using assms l(1) None by (auto simp: in_order_def min_less_iff_disj)
      moreover have "\<forall>k\<in>keys_of (jb_frames jb). min s l \<le> k \<and> k < - 1"
        using assms None l(2) by (auto simp: in_order_def min_le_iff_disj)
      ultimately show ?thesis using slot [of "min s l"] assms None by (auto simp: in_order_def)
    qed
  qed
qed

text \<open>The guarded step, and what it plays.\<close>

fun guarded_step :: "('f \<Rightarrow> nat \<Rightarrow> 'f) \<Rightarrow> ('f \<Rightarrow> nat) \<Rightarrow> 'f jitter_buffer \<Rightarrow> jitter_op \<Rightarrow> 'f jitter_buffer" where
  "guarded_step sm th jb (Push c t f) = (if c = - 1 then jb else push sm th jb c t f)"
| "guarded_step sm th jb Pop = fst (pop jb)"

definition plays_counter :: "'f jitter_buffer \<Rightarrow> jitter_op \<Rightarrow> u64 option" where
  "plays_counter jb x = map_option fst (jitter_plays jb x)"

lemma plays_counter_pop_slot:
  assumes "pop jb = pop_slot jb slot"
  shows "plays_counter jb Pop = (if slot \<in> keys_of (jb_frames jb) then Some slot else None)"
proof (cases "map_of (jb_frames jb) slot")
  case None
  then show ?thesis
    by (auto simp: plays_counter_def assms pop_slot_def Let_def map_of_None_keys_of [symmetric])
next
  case (Some f)
  then have "slot \<in> keys_of (jb_frames jb)" using map_of_None_keys_of [of "jb_frames jb" slot] by simp
  then show ?thesis using Some by (simp add: plays_counter_def assms pop_slot_def Let_def)
qed

lemma plays_counter_none: "pop jb = (jb, out) \<Longrightarrow> (\<And>f. out \<noteq> Frame f) \<Longrightarrow> plays_counter jb Pop = None"
  by (cases out) (auto simp: plays_counter_def)

interpretation jb: in_order_filter "guarded_step sm th" plays_counter in_order
  for sm :: "'f \<Rightarrow> nat \<Rightarrow> 'f" and th :: "'f \<Rightarrow> nat"
proof unfold_locales
  fix s :: "'f jitter_buffer" and A x c a
  assume inv: "in_order s A"
  show "in_order (guarded_step sm th s x) A" if "plays_counter s x = None"
  proof (cases x)
    case (Push c t f)
    then show ?thesis using inv in_order_push by (auto simp: order_less_le)
  next
    case Pop
    from inv show ?thesis unfolding Pop
    proof (cases rule: pop_cases)
      case (none out)
      then show "in_order (guarded_step sm th s Pop) A" using inv by simp
    next
      case (slot n)
      then show "in_order (guarded_step sm th s Pop) A" using in_order_pop_slot(1) [OF slot(2-4)] by simp
    qed
  qed
  assume plays: "plays_counter s x = Some c"
  then have Pop: "x = Pop" by (cases x) (auto simp: plays_counter_def)
  from inv obtain n where n: "pop s = pop_slot s n" "\<forall>k\<in>keys_of (jb_frames s). n \<le> k \<and> k < - 1" "n < - 1" "\<forall>a\<in>A. a < n"
    using plays plays_counter_none unfolding Pop by (cases rule: pop_cases) fastforce+
  then have c: "c = n" "n \<in> keys_of (jb_frames s)"
    using plays plays_counter_pop_slot [OF n(1)] unfolding Pop by (auto split: if_splits)
  show "a < c" if "a \<in> A" using that n(4) c by simp
  obtain f where "map_of (jb_frames s) n = Some f" using c(2) map_of_None_keys_of [of "jb_frames s" n] by auto
  then obtain jb' where "pop_slot s n = (jb', Frame f)" using pop_slot_frame by blast
  then show "in_order (guarded_step sm th s x) (insert c A)"
    using in_order_pop_slot(2) [OF n(2-4)] n(1) c Pop by simp
qed

section \<open>What is played was pushed\<close>

lemma frames_were_pushed:
  "set (run_taken (jitter_step sm th) jitter_plays jb xs) \<subseteq>
    set (jb_frames jb) \<union> {(c, f). \<exists>t. Push c t f \<in> set xs}"
proof (induction xs arbitrary: jb)
  case Nil
  then show ?case by simp
next
  case (Cons x xs)
  have step: "set (jb_frames (jitter_step sm th jb x)) \<subseteq> set (jb_frames jb) \<union> {(c, f). \<exists>t. Push c t f = x}"
  proof (cases x)
    case (Push c t f)
    then show ?thesis using set_update_subset [of c f "jb_frames jb"] by (auto simp: push_def Let_def)
  next
    case Pop
    then show ?thesis using set_delete_subset [of _ "jb_frames jb"]
      by (auto simp: pop_def pop_slot_def Let_def split: option.splits)
  qed
  have plays: "(c, f) \<in> set (jb_frames jb)" if "jitter_plays jb x = Some (c, f)" for c f
  proof -
    from that obtain jb' n where x: "x = Pop" "pop jb = (jb', Frame f)" "jb_next jb' = Some n" "c = n - 1"
      by (cases x) (auto split: prod.splits playout.splits option.splits)
    then obtain slot where "pop_slot jb slot = (jb', Frame f)"
      by (auto simp: pop_def split: option.splits if_splits)
    then show ?thesis using x(3,4) by (auto simp: pop_slot_frame dest: map_of_SomeD)
  qed
  have later: "set (run_taken (jitter_step sm th) jitter_plays (jitter_step sm th jb x) xs) \<subseteq>
      set (jb_frames jb) \<union> {(c, f). \<exists>t. Push c t f \<in> set (x # xs)}"
    using Cons.IH [of "jitter_step sm th jb x"] step by auto
  then show ?case
  proof (cases "jitter_plays jb x")
    case (Some p)
    then have "p \<in> set (jb_frames jb)" using plays [of "fst p" "snd p"] by simp
    then show ?thesis using Some later by simp
  qed (use later in simp)
qed

lemma guarded_run:
  assumes "\<forall>c t f. Push c t f \<in> set xs \<longrightarrow> c < - 1"
  shows "run_taken (guarded_step sm th) plays_counter jb xs = map fst (run_taken (jitter_step sm th) jitter_plays jb xs)"
  using assms
proof (induction xs arbitrary: jb)
  case Nil
  then show ?case by simp
next
  case (Cons x xs)
  have same: "guarded_step sm th jb x = jitter_step sm th jb x" using Cons.prems by (cases x) auto
  have rest: "run_taken (guarded_step sm th) plays_counter jb xs = map fst (run_taken (jitter_step sm th) jitter_plays jb xs)" for jb
    using Cons.prems by (intro Cons.IH) auto
  show ?case by (cases "jitter_plays jb x") (simp_all add: same rest plays_counter_def [of jb x])
qed

section \<open>The target depth\<close>

definition depth_ok :: "'f jitter_buffer \<Rightarrow> bool" where
  "depth_ok jb \<longleftrightarrow> floor_ms (jb_mode jb) \<le> jb_target_ms jb \<and> jb_target_ms jb \<le> max_delay_ms (jb_mode jb)"

lemma floor_le_max: "floor_ms m \<le> max_delay_ms m"
  by (cases m) (simp_all add: jitter_consts)

lemma depth_ok_observe: "depth_ok jb \<Longrightarrow> depth_ok (observe_jitter sm th jb c t)"
  using floor_le_max [of "jb_mode jb"]
  by (auto simp: depth_ok_def observe_jitter_def Let_def min_def max_def split: option.splits)

lemma depth_ok_step: "depth_ok jb \<Longrightarrow> depth_ok (jitter_step sm th jb x)"
proof (cases x)
  case (Push c t f)
  then show "depth_ok jb \<Longrightarrow> ?thesis" using depth_ok_observe [of jb sm th c t] by (auto simp: push_def depth_ok_def Let_def)
next
  case Pop
  then show "depth_ok jb \<Longrightarrow> ?thesis" by (auto simp: pop_def pop_slot_def depth_ok_def Let_def split: option.splits)
qed

lemma mode_step: "jb_mode (jitter_step sm th jb x) = jb_mode jb"
  by (cases x) (auto simp: push_def pop_def pop_slot_def Let_def split: option.splits)

lemma plays_in_order:
  assumes "\<forall>c t f. Push c t f \<in> set xs \<longrightarrow> c < - 1"
  shows "sorted_wrt (<) (map fst (run_taken (jitter_step sm th) jitter_plays (with_mode zero m) xs)) \<and>
    distinct (map fst (run_taken (jitter_step sm th) jitter_plays (with_mode zero m) xs)) \<and>
    set (run_taken (jitter_step sm th) jitter_plays (with_mode zero m) xs) \<subseteq> {(c, f). \<exists>t. Push c t f \<in> set xs}"
proof -
  have "in_order (with_mode zero m) {}" by (simp add: in_order_def with_mode_def)
  then show ?thesis
    using jb.taken_in_order [of "with_mode zero m" "{}" sm th xs] jb.once.taken_once [of "with_mode zero m" "{}" sm th xs]
      frames_were_pushed [of sm th "with_mode zero m" xs]
    unfolding guarded_run [OF assms] by (simp add: with_mode_def)
qed

section \<open>Properties\<close>

text \<open>C34: whatever arrives in whatever order, and however pushes and the playback clock interleave, the frames a
  buffer hands to the decoder come out in increasing order of their counters, none twice, and each is a frame
  that was pushed under that counter, as long as no pushed counter is the largest one.\<close>

lemma frames_play_in_order:
  assumes "\<forall>c t f. Push c t f \<in> set xs \<longrightarrow> c < - 1"
  shows "sorted_wrt (<) (map fst (run_taken (jitter_step sm th) jitter_plays (with_mode zero m) xs)) \<and>
    distinct (map fst (run_taken (jitter_step sm th) jitter_plays (with_mode zero m) xs)) \<and>
    set (run_taken (jitter_step sm th) jitter_plays (with_mode zero m) xs) \<subseteq> {(c, f). \<exists>t. Push c t f \<in> set xs}"
  using assms by (rule plays_in_order)

lemma frames_play_in_order_witness:
  "sorted_wrt (<) (map fst (run_taken (jitter_step (\<lambda>j d. j + d) (\<lambda>j. 0)) jitter_plays (with_mode 0 Conversational)
    [Push 5 0 [1], Push 4 1 [2], Pop, Pop, Push 4 3 [3], Pop]))"
  by (rule conjunct1 [OF frames_play_in_order]) (auto simp: word_less_nat_alt unsigned_minus_1_eq_mask mask_eq_exp_minus_1)

text \<open>The depth stays within its mode: after any session the target is at least the mode's floor and at most
  its ceiling, whatever the jitter estimate does, and the mode never changes.\<close>

lemma depth_stays_in_mode:
  "let jb = fold (\<lambda>x jb. jitter_step sm th jb x) xs (with_mode zero m)
   in jb_mode jb = m \<and> floor_ms m \<le> jb_target_ms jb \<and> jb_target_ms jb \<le> max_delay_ms m"
proof -
  have "jb_mode (fold (\<lambda>x jb. jitter_step sm th jb x) xs jb) = jb_mode jb \<and>
      (depth_ok jb \<longrightarrow> depth_ok (fold (\<lambda>x jb. jitter_step sm th jb x) xs jb))" for jb
    by (induction xs arbitrary: jb) (simp_all add: mode_step depth_ok_step)
  moreover have "depth_ok (with_mode zero m)" by (cases m) (simp_all add: depth_ok_def with_mode_def jitter_consts)
  ultimately have m: "jb_mode (fold (\<lambda>x jb. jitter_step sm th jb x) xs (with_mode zero m)) = m"
    and "depth_ok (fold (\<lambda>x jb. jitter_step sm th jb x) xs (with_mode zero m))"
    by (auto simp: with_mode_def)
  then show ?thesis by (simp add: depth_ok_def m Let_def)
qed

end
