(* ===== verification/Media_Path.thy ===== *)
theory Media_Path
  imports Jitter_Buffer "HOL-Library.Sublist"
begin

text \<open>
  A call from one end to the other, \<^verbatim>\<open>rotelyx-media/src/transport.rs\<close>: \<^verbatim>\<open>MediaOut\<close> protects frames and keeps the recent
  ones for retransmission, \<^verbatim>\<open>MediaIn\<close> unprotects what arrives and plays it through the jitter buffer.  Both refuse a
  path policy (\<^verbatim>\<open>rotelyx-path/src/lib.rs\<close>) under which a direct path may be taken.  The ordered map of the history is
  an association list.
\<close>

section \<open>Path policies\<close>

datatype path_policy = Fastest | PreferDirect | DirectOnceAvailable | RelayOnly | Chained

definition tolerates_relay_alongside_direct :: "path_policy \<Rightarrow> bool" where
  "tolerates_relay_alongside_direct p \<longleftrightarrow> p \<in> {Fastest, RelayOnly, Chained}"

definition permits_direct :: "path_policy \<Rightarrow> bool" where
  "permits_direct p \<longleftrightarrow> p \<notin> {RelayOnly, Chained}"

definition requires_chain :: "path_policy \<Rightarrow> bool" where
  "requires_chain p \<longleftrightarrow> p = Chained"

section \<open>Sending\<close>

definition MAX_FRAME :: nat where "MAX_FRAME = 1100"
definition HISTORY :: nat where "HISTORY = 256"

datatype transport_error = DirectPathPermitted | TooLarge nat | MediaErr media_error

record media_out =
  mo_sender :: sender
  mo_mode :: jitter_mode
  mo_history :: "(u64 \<times> bytes) list"

definition media_out_with_mode :: "path_policy \<Rightarrow> sender_keys \<Rightarrow> jitter_mode \<Rightarrow> (transport_error, media_out) result" where
  "media_out_with_mode policy keys mode =
     (if permits_direct policy then Inl DirectPathPermitted
      else bind_result (map_err MediaErr (sender_new keys)) (\<lambda>s.
        Inr \<lparr> mo_sender = s, mo_mode = mode, mo_history = [] \<rparr>))"

definition media_out_new :: "path_policy \<Rightarrow> sender_keys \<Rightarrow> (transport_error, media_out) result" where
  "media_out_new policy keys = media_out_with_mode policy keys Conversational"

definition resend :: "media_out \<Rightarrow> u64 \<Rightarrow> bytes option" where
  "resend mo counter = map_of (mo_history mo) counter"

definition out_recoverable :: "media_out \<Rightarrow> nat" where
  "out_recoverable mo = length (mo_history mo)"

definition oldest_recoverable :: "media_out \<Rightarrow> u64 option" where
  "oldest_recoverable mo = lowest_key (mo_history mo)"

lemma lowest_key_mem: "lowest_key m = Some k \<Longrightarrow> k \<in> fst ` set m"
proof -
  have "fold min ks k \<in> insert k (set ks)" for ks and k :: u64
    by (induction ks arbitrary: k) (auto simp: min_def split: if_splits)
  then show "lowest_key m = Some k \<Longrightarrow> k \<in> fst ` set m"
    by (cases m) (auto simp: lowest_key_def simp flip: set_map)
qed

text \<open>The loop that drops the oldest frames beyond the history.\<close>

function trim_history :: "(u64 \<times> bytes) list \<Rightarrow> (u64 \<times> bytes) list" where
  "trim_history m =
     (if HISTORY < length m
      then (case lowest_key m of None \<Rightarrow> m | Some oldest \<Rightarrow> trim_history (AList.delete oldest m))
      else m)"
  by pat_completeness auto

termination
proof (relation "measure length")
  fix m :: "(u64 \<times> bytes) list" and k
  assume "lowest_key m = Some k"
  from lowest_key_mem [OF this] show "(AList.delete k m, m) \<in> measure length"
    by (auto simp: AList.delete_eq length_filter_less)
qed simp

declare trim_history.simps [simp del]

definition media_out_frame :: "aead_enc \<Rightarrow> media_out \<Rightarrow> bytes \<Rightarrow> media_out \<times> (transport_error, bytes) result" where
  "media_out_frame enc mo audio =
     (let counter = frames_sent (mo_sender mo)
      in case protect enc (mo_sender mo) audio of
           (s, Inl e) \<Rightarrow> (mo\<lparr>mo_sender := s\<rparr>, Inl (MediaErr e))
         | (s, Inr protected) \<Rightarrow>
             let mo = mo\<lparr>mo_sender := s\<rparr>
             in if MAX_FRAME < length protected then (mo, Inl (TooLarge (length protected)))
                else (if mo_mode mo = Fidelity
                      then mo\<lparr>mo_history := trim_history (AList.update counter protected (mo_history mo))\<rparr> else mo,
                      Inr protected))"

definition out_payload_budget :: "media_out \<Rightarrow> nat \<Rightarrow> nat" where
  "out_payload_budget mo datagram_bytes = payload_budget (mo_sender mo) datagram_bytes"

definition out_frames_sent :: "media_out \<Rightarrow> u64" where
  "out_frames_sent mo = frames_sent (mo_sender mo)"

section \<open>Receiving\<close>

record 'f media_in =
  mi_receiver :: receiver
  mi_buffer :: "'f jitter_buffer"
  mi_dropped :: u64
  mi_skipped :: u64

definition media_in_with_mode :: "'f \<Rightarrow> path_policy \<Rightarrow> sender_keys \<Rightarrow> jitter_mode \<Rightarrow> (transport_error, 'f media_in) result" where
  "media_in_with_mode zero policy keys mode =
     (if permits_direct policy then Inl DirectPathPermitted
      else bind_result (map_err MediaErr (receiver_new keys)) (\<lambda>r.
        Inr \<lparr> mi_receiver = r, mi_buffer = with_mode zero mode, mi_dropped = 0, mi_skipped = 0 \<rparr>))"

definition media_in_new :: "'f \<Rightarrow> path_policy \<Rightarrow> sender_keys \<Rightarrow> (transport_error, 'f media_in) result" where
  "media_in_new zero policy keys = media_in_with_mode zero policy keys Conversational"

definition to_recover :: "'f media_in \<Rightarrow> u64 list" where
  "to_recover mi = recoverable (mi_buffer mi)"

definition to_recover_between :: "'f media_in \<Rightarrow> u64 option \<Rightarrow> u64 \<Rightarrow> u64 list" where
  "to_recover_between mi oldest_sent highest_sent = recoverable_between (mi_buffer mi) oldest_sent highest_sent"

definition to_recover_through :: "'f media_in \<Rightarrow> u64 \<Rightarrow> u64 list" where
  "to_recover_through mi highest_sent = recoverable_through (mi_buffer mi) highest_sent"

definition media_in_accept ::
  "aead_dec \<Rightarrow> ('f \<Rightarrow> nat \<Rightarrow> 'f) \<Rightarrow> ('f \<Rightarrow> nat) \<Rightarrow> 'f media_in \<Rightarrow> bytes \<Rightarrow> u64 \<Rightarrow> 'f media_in" where
  "media_in_accept dec smooth thrice mi datagram now_ms =
     (case parse_header datagram of
        Inl _ \<Rightarrow> mi\<lparr>mi_dropped := saturating_add (mi_dropped mi) 1\<rparr>
      | Inr (_, counter, _) \<Rightarrow>
          (case unprotect dec (mi_receiver mi) datagram of
             (r, Inr audio) \<Rightarrow> mi\<lparr>mi_receiver := r, mi_buffer := push smooth thrice (mi_buffer mi) counter now_ms audio\<rparr>
           | (r, Inl _) \<Rightarrow> mi\<lparr>mi_receiver := r, mi_dropped := saturating_add (mi_dropped mi) 1\<rparr>))"

definition media_in_play :: "'f media_in \<Rightarrow> 'f media_in \<times> playout" where
  "media_in_play mi = (case pop (mi_buffer mi) of (jb, p) \<Rightarrow> (mi\<lparr>mi_buffer := jb\<rparr>, p))"

definition media_in_frame :: "aead_dec \<Rightarrow> 'f media_in \<Rightarrow> bytes \<Rightarrow> 'f media_in \<times> bytes option" where
  "media_in_frame dec mi datagram =
     (let before = highest_accepted (mi_receiver mi)
      in case unprotect dec (mi_receiver mi) datagram of
           (r, Inr audio) \<Rightarrow>
             (mi\<lparr>mi_receiver := r,
                 mi_skipped := (case (before, highest_accepted r) of
                                  (Some was, Some now) \<Rightarrow> if was < now then now - was - 1 else 0
                                | _ \<Rightarrow> 0)\<rparr>, Some audio)
         | (r, Inl _) \<Rightarrow>
             (mi\<lparr>mi_receiver := r, mi_dropped := saturating_add (mi_dropped mi) 1, mi_skipped := 0\<rparr>, None))"

definition delay_ms :: "'f media_in \<Rightarrow> nat" where
  "delay_ms mi = jb_target_ms (mi_buffer mi)"

section \<open>A run of the sender\<close>

fun frame_all :: "aead_enc \<Rightarrow> media_out \<Rightarrow> bytes list \<Rightarrow> media_out \<times> (transport_error, bytes) result list" where
  "frame_all enc mo [] = (mo, [])"
| "frame_all enc mo (a # as) =
     (case media_out_frame enc mo a of (mo, r) \<Rightarrow> case frame_all enc mo as of (mo, rs) \<Rightarrow> (mo, r # rs))"

text \<open>A sender with \<open>k\<close> frames behind it and room for more.\<close>

definition sent_so_far :: "sender_keys \<Rightarrow> media_out \<Rightarrow> nat \<Rightarrow> bool" where
  "sent_so_far keys mo k \<longleftrightarrow> s_keys (mo_sender mo) = keys \<and> s_counter (mo_sender mo) = word_of_nat k \<and> \<not> s_exhausted (mo_sender mo)"

lemma word_of_nat_Suc_max: "Suc k < 2 ^ 64 \<Longrightarrow> (word_of_nat k :: u64) \<noteq> - 1"
  by (auto simp: word_unat_eq_iff unat_of_nat unsigned_minus_1_eq_mask mask_eq_exp_minus_1)

lemma media_out_frame_step:
  assumes "sent_so_far keys mo k" "Suc k < 2 ^ 64" "media_out_frame enc mo a = (mo', r)"
  shows "sent_so_far keys mo' (Suc k) \<and> mo_mode mo' = mo_mode mo \<and>
    (\<forall>d. r = Inr d \<longrightarrow> (\<exists>s'. protect enc (mo_sender mo) a = (s', Inr d))) \<and>
    mo_history mo' = (case r of Inr d \<Rightarrow> if mo_mode mo = Fidelity then trim_history (AList.update (word_of_nat k) d (mo_history mo)) else mo_history mo
                      | Inl _ \<Rightarrow> mo_history mo)"
proof -
  have "advance (mo_sender mo) = (mo_sender mo)\<lparr>s_counter := word_of_nat (Suc k)\<rparr>"
    using assms(1) word_of_nat_Suc_max [OF assms(2)] by (simp add: sent_so_far_def advance_def checked_add_1 add.commute)
  moreover have "fst (protect enc (mo_sender mo) a) = advance (mo_sender mo)"
    using assms(1) by (simp add: sent_so_far_def protect_def Let_def)
  ultimately show ?thesis
    using assms(1,3)
    by (auto simp: sent_so_far_def media_out_frame_def frames_sent_def Let_def split: prod.splits sum.splits if_splits)
qed

lemma frame_all_sent:
  assumes "sent_so_far keys mo k" "k + length as < 2 ^ 64" "frame_all enc mo as = (mo', rs)"
  shows "length rs = length as \<and> (\<forall>i d. i < length as \<longrightarrow> rs ! i = Inr d \<longrightarrow>
    (\<exists>s s'. s_counter s = word_of_nat (k + i) \<and> s_keys s = keys \<and> protect enc s (as ! i) = (s', Inr d)))"
  using assms
proof (induction as arbitrary: mo k rs)
  case (Cons a as)
  obtain mo1 r where one: "media_out_frame enc mo a = (mo1, r)" by (cases "media_out_frame enc mo a")
  obtain rs1 where rest: "frame_all enc mo1 as = (mo', rs1)" "rs = r # rs1"
    using Cons.prems(3) one by (auto split: prod.splits)
  have step: "sent_so_far keys mo1 (Suc k)" "\<And>d. r = Inr d \<Longrightarrow> \<exists>s'. protect enc (mo_sender mo) a = (s', Inr d)"
    using media_out_frame_step [OF Cons.prems(1) _ one] Cons.prems(2) by auto
  note IH = Cons.IH [OF step(1) _ rest(1)]
  have "\<exists>s s'. s_counter s = word_of_nat (k + i) \<and> s_keys s = keys \<and> protect enc s ((a # as) ! i) = (s', Inr d)"
    if "i < Suc (length as)" "(r # rs1) ! i = Inr d" for i d
  proof (cases i)
    case 0
    then show ?thesis using step(2) that Cons.prems(1) by (auto simp: sent_so_far_def)
  next
    case (Suc j)
    then have "\<exists>s s'. s_counter s = word_of_nat (Suc k + j) \<and> s_keys s = keys \<and> protect enc s (as ! j) = (s', Inr d)"
      using IH Cons.prems(2) that by auto
    then show ?thesis using Suc by simp
  qed
  then show ?case using IH Cons.prems(2) rest(2) by auto
qed simp

section \<open>A run of the receiver\<close>

datatype call_event = Arrive bytes u64 | Play

fun call_step :: "aead_dec \<Rightarrow> ('f \<Rightarrow> nat \<Rightarrow> 'f) \<Rightarrow> ('f \<Rightarrow> nat) \<Rightarrow> 'f media_in \<Rightarrow> call_event \<Rightarrow> 'f media_in" where
  "call_step dec sm th mi (Arrive d t) = media_in_accept dec sm th mi d t"
| "call_step dec sm th mi Play = fst (media_in_play mi)"

fun call_plays :: "'f media_in \<Rightarrow> call_event \<Rightarrow> bytes option" where
  "call_plays mi (Arrive d t) = None"
| "call_plays mi Play = (case snd (media_in_play mi) of Frame f \<Rightarrow> Some f | _ \<Rightarrow> None)"

text \<open>What the jitter buffer sees of it.\<close>

fun jitter_ops :: "aead_dec \<Rightarrow> receiver \<Rightarrow> call_event list \<Rightarrow> jitter_op list" where
  "jitter_ops dec r [] = []"
| "jitter_ops dec r (Arrive d t # xs) =
     (case unprotect dec r d of
        (r', Inl _) \<Rightarrow> jitter_ops dec r' xs
      | (r', Inr a) \<Rightarrow> (case parse_header d of Inl _ \<Rightarrow> [] | Inr (_, c, _) \<Rightarrow> [Push c t a]) @ jitter_ops dec r' xs)"
| "jitter_ops dec r (Play # xs) = Pop # jitter_ops dec r xs"

lemma pop_frame_next: "pop jb = (jb', Frame f) \<Longrightarrow> \<exists>n. jb_next jb' = Some n"
  by (auto simp: pop_def pop_slot_def Let_def split: option.splits if_splits)

lemma call_run:
  "run_taken (call_step dec sm th) call_plays mi xs =
    map snd (run_taken (jitter_step sm th) jitter_plays (mi_buffer mi) (jitter_ops dec (mi_receiver mi) xs))"
proof (induction xs arbitrary: mi)
  case (Cons x xs)
  show ?case
  proof (cases x)
    case (Arrive d t)
    then show ?thesis
      using Cons.IH by (cases rule: unprotect_cases [of dec "mi_receiver mi" d])
        (auto simp: media_in_accept_def unprotect_def split: sum.splits prod.splits)
  next
    case Play
    obtain jb p where pop: "pop (mi_buffer mi) = (jb, p)" by (cases "pop (mi_buffer mi)")
    then show ?thesis
      using Cons.IH [of "mi\<lparr>mi_buffer := jb\<rparr>"] Play pop_frame_next [of "mi_buffer mi" jb]
      by (cases p) (auto simp: media_in_play_def)
  qed
qed simp

text \<open>A datagram nobody with the key made: it does not open under the counter it claims.\<close>

definition forged :: "aead_dec \<Rightarrow> sender_keys \<Rightarrow> bytes \<Rightarrow> bool" where
  "forged dec keys d \<longleftrightarrow>
     (\<forall>s c n. parse_header d = Inr (s, c, n) \<longrightarrow> dec (sk_key keys) (nonce keys c) (take n d) (drop n d) = None)"

lemma unprotect_sent:
  assumes "aead_opens enc dec" "unat (sk_id (s_keys s)) < MAX_SENDERS" "r_keys r = s_keys s" "protect enc s frame = (s', Inr d)"
    and "unprotect dec r d = (r', Inr a)"
  shows "a = frame \<and> (\<exists>id n. parse_header d = Inr (id, s_counter s, n))"
proof -
  from assms(4) obtain sealed where d: "d = header (s_keys s) (s_counter s) @ sealed" by (rule protect_Inr)
  then have p: "parse_header d = Inr (sk_id (s_keys s), s_counter s, length (header (s_keys s) (s_counter s)))"
    using assms(2) by (simp add: parse_header_append MAX_SENDERS_def)
  have "check_replay r (s_counter s) = Inr ()"
    using assms(5) p by (auto simp: unprotect_def split: if_splits sum.splits)
  from unprotect_protect [OF assms(1-4) this] show ?thesis using assms(5) p by simp
qed

lemma jitter_ops_pushes:
  assumes law: "aead_opens enc dec" and id: "unat (sk_id keys) < MAX_SENDERS" and keys: "r_keys r = keys"
    and sent: "\<And>i d. i < length as \<Longrightarrow> rs ! i = Inr d \<Longrightarrow>
      \<exists>s s'. s_counter s = word_of_nat i \<and> s_keys s = keys \<and> protect enc s (as ! i) = (s', Inr d)"
    and arrive: "\<And>d t. Arrive d t \<in> set xs \<Longrightarrow> forged dec keys d \<or> (\<exists>i<length as. rs ! i = Inr d)"
    and push: "Push c t f \<in> set (jitter_ops dec r xs)"
  shows "\<exists>i<length as. c = word_of_nat i \<and> f = as ! i"
  using keys arrive push
proof (induction xs arbitrary: r)
  case (Cons x xs)
  show ?case
  proof (cases x)
    case (Arrive d u)
    obtain r' res where u: "unprotect dec r d = (r', res)" by (cases "unprotect dec r d")
    have keys': "r_keys r' = keys" using u Cons.prems(1) by (cases rule: unprotect_cases [of dec r d]) auto
    have arr: "forged dec keys d \<or> (\<exists>i<length as. rs ! i = Inr d)" if "Arrive d t \<in> set xs" for d t
      using Cons.prems(2) [of d t] that by simp
    have later: ?thesis if "Push c t f \<in> set (jitter_ops dec r' xs)"
      using Cons.IH [OF keys' arr that] .
    show ?thesis
    proof (cases res)
      case (Inl e)
      then show ?thesis using later Cons.prems(3) u Arrive by simp
    next
      case (Inr a)
      have "\<not> forged dec keys d"
        using u Inr Cons.prems(1) by (cases rule: unprotect_cases [of dec r d]) (auto simp: forged_def)
      then obtain i where i: "i < length as" "rs ! i = Inr d" using Cons.prems(2) [of d u] Arrive by auto
      from sent [OF this] obtain s s' where s: "s_counter s = word_of_nat i" "s_keys s = keys" "protect enc s (as ! i) = (s', Inr d)" by blast
      have "a = as ! i \<and> (\<exists>h n. parse_header d = Inr (h, s_counter s, n))"
        by (rule unprotect_sent [OF law _ _ s(3), of r r' a]) (use u Inr s(2) id Cons.prems(1) in simp_all)
      then obtain h n where "a = as ! i" "parse_header d = Inr (h, s_counter s, n)" by blast
      then show ?thesis using later Cons.prems(3) u Inr Arrive i(1) s(1) by auto
    qed
  qed (use Cons in auto)
qed simp

section \<open>Playing a subsequence\<close>

lemma subseq_nth:
  assumes "sorted_wrt (<) is" "\<forall>i\<in>set is. i < length xs"
  shows "subseq (map ((!) xs) is) xs"
proof -
  have "sorted_wrt (<) (filter (\<lambda>i. i \<in> set is) [0..<length xs])" by (simp add: sorted_wrt_filter)
  moreover have "set (filter (\<lambda>i. i \<in> set is) [0..<length xs]) = set is" using assms(2) by auto
  ultimately have "is = filter (\<lambda>i. i \<in> set is) [0..<length xs]"
    using assms(1) strict_sorted_equal by metis
  then have "subseq is [0..<length xs]" by (metis subseq_filter_left)
  then have "subseq (map ((!) xs) is) (map ((!) xs) [0..<length xs])" by (rule subseq_map)
  then show ?thesis by (simp add: map_nth)
qed

section \<open>What can be sent again\<close>

fun sent_frames :: "nat \<Rightarrow> (transport_error, bytes) result list \<Rightarrow> (u64 \<times> bytes) list" where
  "sent_frames k [] = []"
| "sent_frames k (r # rs) = (case r of Inr d \<Rightarrow> [(word_of_nat k, d)] | Inl _ \<Rightarrow> []) @ sent_frames (Suc k) rs"

lemma fold_min_sorted: "\<forall>x\<in>set ks. k < x \<Longrightarrow> fold min ks k = (k :: u64)"
  by (induction ks) (auto simp: min_def)

lemma lowest_key_sorted: "sorted_wrt (<) (map fst m) \<Longrightarrow> m \<noteq> [] \<Longrightarrow> lowest_key m = Some (fst (hd m))"
  by (cases m) (auto simp: lowest_key_def intro!: fold_min_sorted)

lemma trim_history_sorted:
  assumes "sorted_wrt (<) (map fst m)" "length m \<le> Suc HISTORY"
  shows "trim_history m = drop (length m - HISTORY) m"
proof (cases "HISTORY < length m")
  case True
  then obtain k d m' where m: "m = (k, d) # m'" by (cases m) auto
  have "AList.delete k m = m'"
    using assms(1) by (auto simp: m AList.delete_eq filter_id_conv)
  moreover have "lowest_key m = Some k" using lowest_key_sorted [OF assms(1)] m by simp
  ultimately have "trim_history m = trim_history m'" using True by (subst trim_history.simps) simp
  also have "\<dots> = m'" using assms(2) m by (subst trim_history.simps) simp
  finally show ?thesis using True assms(2) m by (simp add: le_antisym Suc_diff_le)
next
  case False
  then show ?thesis by (subst trim_history.simps) simp
qed

definition newest :: "'a list \<Rightarrow> 'a list" where
  "newest xs = drop (length xs - HISTORY) xs"

lemma newest_snoc: "newest (newest xs @ [x]) = newest (xs @ [x])"
proof (cases "length xs < 256")
  case False
  then have "Suc (length xs - 256) = length xs - 255" by linarith
  then show ?thesis using False by (simp add: newest_def HISTORY_def)
qed (simp add: newest_def HISTORY_def)

lemma frame_all_history:
  assumes "sent_so_far keys mo k" "k + length as < 2 ^ 64" "frame_all enc mo as = (mo', rs)" "mo_mode mo = Fidelity"
    and "mo_history mo = newest hs" "sorted_wrt (<) (map fst hs)" "\<forall>(c, d)\<in>set hs. unat c < k"
  shows "mo_history mo' = newest (hs @ sent_frames k rs)"
  using assms
proof (induction as arbitrary: mo k rs hs)
  case (Cons a as)
  obtain mo1 r where one: "media_out_frame enc mo a = (mo1, r)" by (cases "media_out_frame enc mo a")
  obtain rs1 where rest: "frame_all enc mo1 as = (mo', rs1)" "rs = r # rs1"
    using Cons.prems(3) one by (auto split: prod.splits)
  have step: "sent_so_far keys mo1 (Suc k)" "mo_mode mo1 = Fidelity"
    "mo_history mo1 = (case r of Inr d \<Rightarrow> trim_history (AList.update (word_of_nat k) d (newest hs)) | Inl _ \<Rightarrow> newest hs)"
    using media_out_frame_step [OF Cons.prems(1) _ one] Cons.prems(2,4,5) by (auto split: sum.splits)
  show ?case
  proof (cases r)
    case (Inl e)
    have "\<forall>(c, d)\<in>set hs. unat c < Suc k" using Cons.prems(7) by auto
    then show ?thesis
      using Cons.IH [OF step(1) _ rest(1) step(2), of hs] Cons.prems(2,6) step(3) Inl rest(2) by simp
  next
    case (Inr d)
    have k: "unat (word_of_nat k :: u64) = k" using Cons.prems(2) by (simp add: unat_of_nat)
    have below: "unat c < k" if "(c, e) \<in> set hs" for c e using Cons.prems(7) that by auto
    have sorted: "sorted_wrt (<) (map fst (hs @ [(word_of_nat k, d)]))"
      using Cons.prems(6) below by (auto simp: sorted_wrt_append k word_less_nat_alt [of _ "word_of_nat k"])
    have sub: "set (newest hs) \<subseteq> set hs" by (auto simp: newest_def dest: in_set_dropD)
    have "word_of_nat k \<notin> fst ` set (newest hs)" using below sub k by force
    then have "AList.update (word_of_nat k) d (newest hs) = newest hs @ [(word_of_nat k, d)]" by (rule update_new_key)
    moreover have "sorted_wrt (<) (map fst (newest hs @ [(word_of_nat k, d)]))"
      using sorted sub sorted_wrt_drop [of "(<)" "map fst hs" "length hs - HISTORY"]
      by (auto simp: newest_def sorted_wrt_append simp flip: drop_map dest!: in_set_dropD)
    moreover have "length (newest hs @ [(word_of_nat k, d)]) \<le> Suc HISTORY" by (simp add: newest_def)
    ultimately have "mo_history mo1 = newest (newest hs @ [(word_of_nat k, d)])"
      using step(3) Inr by (simp only: trim_history_sorted newest_def sum.case)
    also have "\<dots> = newest (hs @ [(word_of_nat k, d)])" by (rule newest_snoc)
    finally have h: "mo_history mo1 = newest (hs @ [(word_of_nat k, d)])" .
    have "\<forall>(c, e)\<in>set (hs @ [(word_of_nat k, d)]). unat c < Suc k" using below k by (auto simp: less_Suc_eq)
    from Cons.IH [OF step(1) _ rest(1) step(2) h sorted this] show ?thesis
      using Cons.prems(2) Inr rest(2) by simp
  qed
qed simp

section \<open>A sample call\<close>

lemma sample_frame:
  assumes "sent_so_far sample_keys mo k" "Suc k < 2 ^ 64" "s_pad_to (mo_sender mo) = None" "length a \<le> 1000"
  shows "\<exists>mo' d. media_out_frame sample_enc mo a = (mo', Inr d) \<and> sent_so_far sample_keys mo' (Suc k) \<and> s_pad_to (mo_sender mo') = None"
proof -
  obtain mo' r where r: "media_out_frame sample_enc mo a = (mo', r)" by (cases "media_out_frame sample_enc mo a")
  have "length (header sample_keys (word_of_nat k)) \<le> 9" using header_length_bounds by simp
  then have "\<exists>d. r = Inr d" "s_pad_to (mo_sender mo') = None"
    using r assms(1,3,4)
    by (auto simp: media_out_frame_def protect_def sample_enc_def sent_so_far_def MAX_FRAME_def length_pad PAD_MARKER_LEN_def Let_def
      split: if_splits)
  then show ?thesis using media_out_frame_step [OF assms(1,2) r] r by auto
qed

lemma sample_frames:
  assumes "media_out_with_mode RelayOnly sample_keys m = Inr mo"
  shows "\<exists>mo' d e. frame_all sample_enc mo [[1], [2]] = (mo', [Inr d, Inr e])"
proof -
  have "sent_so_far sample_keys mo 0" "s_pad_to (mo_sender mo) = None"
    using assms by (auto simp: media_out_with_mode_def sender_new_def sent_so_far_def result_simps split: if_splits)
  from sample_frame [OF this(1) _ this(2), of "[1]"] obtain mo1 d where
    one: "media_out_frame sample_enc mo [1] = (mo1, Inr d)" "sent_so_far sample_keys mo1 (Suc 0)" "s_pad_to (mo_sender mo1) = None"
    by auto
  from sample_frame [OF one(2) _ one(3), of "[2]"] obtain mo2 e where "media_out_frame sample_enc mo1 [2] = (mo2, Inr e)" by auto
  then show ?thesis using one(1) by simp
qed

section \<open>Properties\<close>

text \<open>C3: a call plays what was said.  Whatever the network does to a sender's datagrams, losing, repeating,
  reordering or delaying them and mixing in others that nobody with the key made, and however arrivals and the
  playback clock interleave, the frames handed to the decoder are frames that were said, in the order they were said,
  none twice; and neither end exists on a path that could be direct.\<close>

theorem call_plays_what_was_said:
  assumes law: "aead_opens enc dec"
    and ends: "media_out_with_mode policy keys m = Inr mo" "media_in_with_mode zero policy keys m' = Inr mi"
    and said: "frame_all enc mo said = (mo', rs)" "Suc (length said) < 2 ^ 64"
    and arrive: "\<And>d t. Arrive d t \<in> set xs \<Longrightarrow> forged dec keys d \<or> Inr d \<in> set rs"
  shows "subseq (run_taken (call_step dec sm th) call_plays mi xs) said \<and> \<not> permits_direct policy"
proof -
  have out: "sent_so_far keys mo 0" and id: "unat (sk_id keys) < MAX_SENDERS" and policy: "\<not> permits_direct policy"
    using ends(1) by (auto simp: media_out_with_mode_def sender_new_def sent_so_far_def result_simps split: if_splits)
  have r: "r_keys (mi_receiver mi) = keys" "mi_buffer mi = with_mode zero m'"
    using ends(2) by (auto simp: media_in_with_mode_def receiver_new_def result_simps split: if_splits)
  have sent: "length rs = length said"
    "\<And>i d. i < length said \<Longrightarrow> rs ! i = Inr d \<Longrightarrow>
      \<exists>s s'. s_counter s = word_of_nat i \<and> s_keys s = keys \<and> protect enc s (said ! i) = (s', Inr d)"
    using frame_all_sent [OF out _ said(1)] said(2) by auto
  define ops where "ops = jitter_ops dec (mi_receiver mi) xs"
  have ops: "\<exists>i<length said. c = word_of_nat i \<and> f = said ! i" if "Push c t f \<in> set ops" for c t f
  proof (rule jitter_ops_pushes [OF law id r(1) sent(2)])
    show "forged dec keys d \<or> (\<exists>i<length said. rs ! i = Inr d)" if "Arrive d t \<in> set xs" for d t
      using arrive [OF that] sent(1) by (auto simp: in_set_conv_nth)
    show "Push c t f \<in> set (jitter_ops dec (mi_receiver mi) xs)" using that by (simp add: ops_def)
  qed
  have "c < - 1" if p: "Push c t f \<in> set ops" for c t f
  proof -
    obtain i where "i < length said" "c = word_of_nat i" using ops [OF p] by blast
    then show ?thesis using said(2)
      by (simp add: word_less_nat_alt unat_of_nat unsigned_minus_1_eq_mask mask_eq_exp_minus_1)
  qed
  then have bounded: "\<forall>c t f. Push c t f \<in> set ops \<longrightarrow> c < - 1" by blast
  define ps where "ps = run_taken (jitter_step sm th) jitter_plays (with_mode zero m') ops"
  have order: "sorted_wrt (<) (map fst ps)" and pushed: "set ps \<subseteq> {(c, f). \<exists>t. Push c t f \<in> set ops}"
    using plays_in_order [OF bounded, of sm th zero m'] by (simp_all add: ps_def)
  have frames: "unat c < length said \<and> f = said ! unat c" if "(c, f) \<in> set ps" for c f
  proof -
    obtain t where "Push c t f \<in> set ops" using pushed \<open>(c, f) \<in> set ps\<close> by auto
    then obtain i where "i < length said" "c = word_of_nat i" "f = said ! i" using ops by blast
    moreover have "unat (word_of_nat i :: u64) = i" using \<open>i < length said\<close> said(2) by (simp add: unat_of_nat)
    ultimately show ?thesis by simp
  qed
  have "map snd ps = map ((!) said) (map (unat \<circ> fst) ps)" using frames by auto
  moreover have "sorted_wrt (<) (map (unat \<circ> fst) ps)"
    using order by (simp add: sorted_wrt_map word_less_nat_alt)
  moreover have "\<forall>i\<in>set (map (unat \<circ> fst) ps). i < length said" using frames by auto
  ultimately have "subseq (map snd ps) said" using subseq_nth by metis
  then show ?thesis
    unfolding call_run r(2) ops_def [symmetric] ps_def [symmetric] using policy by simp
qed

lemma call_plays_what_was_said_witness:
  "\<exists>mo mi mo' d e. frame_all sample_enc mo [[1], [2]] = (mo', [Inr d, Inr e]) \<and>
    subseq (run_taken (call_step sample_dec (\<lambda>j d. j + d) (\<lambda>j. 0)) call_plays mi
      [Arrive e 7, Arrive d 9, Play, Arrive e 11, Play, Play]) [[1], [2]]"
proof -
  obtain mo where mo: "media_out_with_mode RelayOnly sample_keys Conversational = Inr mo"
    by (simp add: media_out_with_mode_def permits_direct_def sender_new_def sample_keys_def MAX_SENDERS_def)
  obtain mi :: "nat media_in" where mi: "media_in_with_mode 0 RelayOnly sample_keys Conversational = Inr mi"
    by (simp add: media_in_with_mode_def permits_direct_def receiver_new_def sample_keys_def MAX_SENDERS_def)
  from sample_frames [OF mo] obtain mo' d e where rs: "frame_all sample_enc mo [[1], [2]] = (mo', [Inr d, Inr e])" by blast
  have "subseq (run_taken (call_step sample_dec (\<lambda>j d. j + d) (\<lambda>j. 0)) call_plays mi
      [Arrive e 7, Arrive d 9, Play, Arrive e 11, Play, Play]) [[1], [2]]"
    by (rule call_plays_what_was_said [OF sample_aead(1) mo mi rs, THEN conjunct1]) auto
  then show ?thesis using rs by blast
qed

text \<open>In fidelity mode exactly the last 256 datagrams a sender put out can be asked for again, each under its own
  counter and byte for byte as it was sent.\<close>

theorem recent_frames_can_be_resent:
  assumes "media_out_with_mode policy keys Fidelity = Inr mo" "frame_all enc mo said = (mo', rs)" "length said < 2 ^ 64"
  shows "resend mo' c = map_of (drop (length (sent_frames 0 rs) - HISTORY) (sent_frames 0 rs)) c \<and>
    out_recoverable mo' = min HISTORY (length (sent_frames 0 rs))"
proof -
  have "sent_so_far keys mo 0" "mo_mode mo = Fidelity" "mo_history mo = newest []"
    using assms(1) by (auto simp: media_out_with_mode_def sender_new_def sent_so_far_def newest_def result_simps split: if_splits)
  then have "mo_history mo' = newest (sent_frames 0 rs)"
    using frame_all_history [of keys mo 0 said enc mo' rs "[]"] assms(2,3) by simp
  then show ?thesis by (simp add: resend_def out_recoverable_def newest_def min_def)
qed

lemma recent_frames_can_be_resent_witness:
  "\<exists>mo. out_recoverable (fst (frame_all sample_enc mo [[1], [2]])) = 2"
proof -
  obtain mo where mo: "media_out_with_mode RelayOnly sample_keys Fidelity = Inr mo"
    by (simp add: media_out_with_mode_def permits_direct_def sender_new_def sample_keys_def MAX_SENDERS_def)
  from sample_frames [OF mo] obtain mo' d e where rs: "frame_all sample_enc mo [[1], [2]] = (mo', [Inr d, Inr e])" by blast
  then have "out_recoverable mo' = 2" using recent_frames_can_be_resent [OF mo rs] by (simp add: HISTORY_def)
  then show ?thesis using rs by (intro exI [of _ mo]) simp
qed

end
