(* ===== verification/Path_Selection.thy ===== *)
theory Path_Selection
  imports Media_Path
begin

text \<open>
  Choosing a network path by policy, \<^verbatim>\<open>rotelyx-net/src/path.rs\<close>.  A candidate is what the selector reads of a path: whether
  it is an IP path and its round-trip time in nanoseconds, absent for a path that has closed.
\<close>

section \<open>Definitions\<close>

type_synonym u128 = "128 word"

record 'p candidate =
  c_path :: 'p
  c_is_ip :: bool
  c_rtt :: "u128 option"

datatype choice = Direct | Relayed | KeepCurrent

definition rtt_nanos :: "'p candidate \<Rightarrow> u128" where
  "rtt_nanos c = (case c_rtt c of Some rtt \<Rightarrow> rtt | None \<Rightarrow> - 1)"

fun decide :: "path_policy \<Rightarrow> u128 option \<Rightarrow> u128 option \<Rightarrow> bool \<Rightarrow> choice" where
  "decide Fastest (Some d) (Some r) currently_direct = (if d \<le> r then Direct else Relayed)"
| "decide Fastest (Some d) None currently_direct = Direct"
| "decide Fastest None (Some r) currently_direct = Relayed"
| "decide Fastest None None currently_direct = KeepCurrent"
| "decide PreferDirect (Some d) best_relayed currently_direct = Direct"
| "decide PreferDirect None (Some r) currently_direct = Relayed"
| "decide PreferDirect None None currently_direct = KeepCurrent"
| "decide RelayOnly best_direct (Some r) currently_direct = Relayed"
| "decide RelayOnly best_direct None currently_direct = KeepCurrent"
| "decide Chained best_direct (Some r) currently_direct = Relayed"
| "decide Chained best_direct None currently_direct = KeepCurrent"
| "decide DirectOnceAvailable (Some d) best_relayed currently_direct = Direct"
| "decide DirectOnceAvailable None (Some r) currently_direct = (if currently_direct then KeepCurrent else Relayed)"
| "decide DirectOnceAvailable None None currently_direct = KeepCurrent"

text \<open>The loop of \<^verbatim>\<open>select\<close>: the best direct and the best relayed candidate so far.\<close>

definition better :: "('p candidate \<times> u128) option \<Rightarrow> 'p candidate \<Rightarrow> ('p candidate \<times> u128) option" where
  "better slot c = (let rtt = rtt_nanos c
     in case slot of None \<Rightarrow> Some (c, rtt) | Some (_, best) \<Rightarrow> if rtt < best then Some (c, rtt) else slot)"

definition rank_candidates ::
  "'p candidate list \<Rightarrow> ('p candidate \<times> u128) option \<times> ('p candidate \<times> u128) option" where
  "rank_candidates cs =
     fold (\<lambda>c (direct, relayed). if c_is_ip c then (better direct c, relayed) else (direct, better relayed c)) cs (None, None)"

definition select_path :: "path_policy \<Rightarrow> 'p candidate list \<Rightarrow> 'p candidate option \<Rightarrow> 'p candidate option" where
  "select_path policy cs current =
     (let (best_direct, best_relayed) = rank_candidates cs;
          currently_direct = (case current of None \<Rightarrow> False | Some c \<Rightarrow> c_is_ip c)
      in case decide policy (map_option snd best_direct) (map_option snd best_relayed) currently_direct of
           Direct \<Rightarrow> map_option fst best_direct
         | Relayed \<Rightarrow> map_option fst best_relayed
         | KeepCurrent \<Rightarrow> None)"

text \<open>An empty selection keeps the current path.\<close>

definition switch_path :: "path_policy \<Rightarrow> 'p candidate option \<Rightarrow> 'p candidate list \<Rightarrow> 'p candidate option" where
  "switch_path policy current cs = (case select_path policy cs current of None \<Rightarrow> current | Some c \<Rightarrow> Some c)"

section \<open>The best of each kind\<close>

definition best_of :: "('p candidate \<times> u128) option \<Rightarrow> 'p candidate list \<Rightarrow> bool" where
  "best_of slot cs \<longleftrightarrow> (case slot of
     None \<Rightarrow> cs = []
   | Some (c, rtt) \<Rightarrow> c \<in> set cs \<and> rtt = rtt_nanos c \<and> (\<forall>d\<in>set cs. rtt \<le> rtt_nanos d))"

lemma better_best: "best_of slot cs \<Longrightarrow> best_of (better slot c) (cs @ [c])"
  by (auto simp: best_of_def better_def Let_def split: option.splits if_splits intro: order_trans [OF less_imp_le])

lemma rank_best:
  "rank_candidates cs = (d, r) \<Longrightarrow> best_of d (filter c_is_ip cs) \<and> best_of r (filter (\<lambda>c. \<not> c_is_ip c) cs)"
proof (induction cs arbitrary: d r rule: rev_induct)
  case Nil
  then show ?case by (simp add: rank_candidates_def best_of_def)
next
  case (snoc c cs)
  obtain d0 r0 where before: "rank_candidates cs = (d0, r0)" by (cases "rank_candidates cs")
  have "(d, r) = (if c_is_ip c then (better d0 c, r0) else (d0, better r0 c))"
    using snoc.prems before by (simp add: rank_candidates_def)
  then show ?case using snoc.IH [OF before] better_best [of d0 "filter c_is_ip cs" c] better_best [of r0 "filter (\<lambda>c. \<not> c_is_ip c) cs" c]
    by (auto split: if_splits)
qed

lemma select_some:
  assumes "select_path policy cs current = Some c"
  shows "c \<in> set cs"
    and "\<not> permits_direct policy \<Longrightarrow> \<not> c_is_ip c"
    and "policy = DirectOnceAvailable \<Longrightarrow> current = Some p \<Longrightarrow> c_is_ip p \<Longrightarrow> c_is_ip c"
proof -
  obtain d r where rank: "rank_candidates cs = (d, r)" by (cases "rank_candidates cs")
  note best = rank_best [OF rank]
  show "c \<in> set cs" using assms rank best
    by (auto simp: select_path_def best_of_def Let_def split: choice.splits option.splits prod.splits)
  show "\<not> c_is_ip c" if "\<not> permits_direct policy"
    using that assms rank best
    by (cases policy; cases r) (auto simp: permits_direct_def select_path_def best_of_def Let_def split: prod.splits)
  show "c_is_ip c" if "policy = DirectOnceAvailable" "current = Some p" "c_is_ip p"
    using that assms rank best
    by (cases d; cases r) (auto simp: select_path_def best_of_def Let_def split: prod.splits)
qed

section \<open>Properties\<close>

text \<open>A path policy is kept for as long as the connection lives.  Whatever candidates come and go and whatever they
  measure, under a policy that does not permit a direct path no direct path is ever taken, and under
  \<^verbatim>\<open>DirectOnceAvailable\<close> a connection that has become direct never goes back to a relay.
\<close>

theorem policy_outlives_the_network:
  assumes "\<not> permits_direct policy \<and> \<not> direct \<or> policy = DirectOnceAvailable \<and> direct"
    and "pred_option (\<lambda>c. c_is_ip c = direct) current" "direct \<longrightarrow> current \<noteq> None"
  shows "pred_option (\<lambda>c. c_is_ip c = direct) (fold (\<lambda>cs current. switch_path policy current cs) history current)"
  using assms(2,3)
proof (induction history arbitrary: current)
  case (Cons cs history)
  have "pred_option (\<lambda>c. c_is_ip c = direct) (switch_path policy current cs) \<and> (direct \<longrightarrow> switch_path policy current cs \<noteq> None)"
  proof (cases "select_path policy cs current")
    case None
    then show ?thesis using Cons.prems by (simp add: switch_path_def)
  next
    case (Some c)
    have "c_is_ip c = direct"
    proof (cases direct)
      case True
      with Cons.prems obtain p where "current = Some p" "c_is_ip p" by (cases current) auto
      then show ?thesis using True assms(1) select_some(3) [OF Some] by simp
    next
      case False
      then show ?thesis using assms(1) select_some(2) [OF Some] by simp
    qed
    then show ?thesis using Some by (simp add: switch_path_def)
  qed
  then show ?case using Cons.IH by simp
qed simp

lemma policy_outlives_the_network_witness:
  "pred_option (\<lambda>c. c_is_ip c = False) (fold (\<lambda>cs current. switch_path RelayOnly current cs)
     [[\<lparr>c_path = 1 :: nat, c_is_ip = True, c_rtt = Some 5\<rparr>], [\<lparr>c_path = 2, c_is_ip = False, c_rtt = None\<rparr>]] None)"
  by (rule policy_outlives_the_network) (simp_all add: permits_direct_def)

text \<open>Any direct path beats any relayed path.  Under the two policies that prefer one, a direct candidate is taken
  whenever there is one, at whatever latency, and it is the fastest of the direct ones.
\<close>

theorem direct_beats_relayed:
  assumes "policy = PreferDirect \<or> policy = DirectOnceAvailable" "\<exists>c\<in>set cs. c_is_ip c"
  shows "\<exists>c\<in>set cs. switch_path policy current cs = Some c \<and> c_is_ip c \<and> (\<forall>d\<in>set cs. c_is_ip d \<longrightarrow> rtt_nanos c \<le> rtt_nanos d)"
proof -
  obtain d r where rank: "rank_candidates cs = (d, r)" by (cases "rank_candidates cs")
  have "filter c_is_ip cs \<noteq> []" using assms(2) by (simp add: filter_empty_conv)
  then obtain c rtt where c: "d = Some (c, rtt)" using rank_best [OF rank] by (auto simp: best_of_def split: option.splits)
  then have "c \<in> set cs" "c_is_ip c" "\<forall>d\<in>set cs. c_is_ip d \<longrightarrow> rtt_nanos c \<le> rtt_nanos d"
    using rank_best [OF rank] by (auto simp: best_of_def)
  moreover have "switch_path policy current cs = Some c"
    using assms(1) rank c by (auto simp: switch_path_def select_path_def Let_def)
  ultimately show ?thesis by blast
qed

lemma direct_beats_relayed_witness:
  "\<exists>c\<in>set [\<lparr>c_path = 1 :: nat, c_is_ip = True, c_rtt = Some 500\<rparr>, \<lparr>c_path = 2, c_is_ip = False, c_rtt = Some 1\<rparr>].
     switch_path PreferDirect None [\<lparr>c_path = 1, c_is_ip = True, c_rtt = Some 500\<rparr>, \<lparr>c_path = 2, c_is_ip = False, c_rtt = Some 1\<rparr>] = Some c \<and> c_is_ip c"
  using direct_beats_relayed [of PreferDirect "[\<lparr>c_path = 1 :: nat, c_is_ip = True, c_rtt = Some 500\<rparr>, \<lparr>c_path = 2, c_is_ip = False, c_rtt = Some 1\<rparr>]" None]
  by simp

end
