(* ===== verification/Forwarding.thy ===== *)
theory Forwarding
  imports Media_Session "HOL-Library.AList"
begin

text \<open>
  The forwarding unit of a group call, \<^verbatim>\<open>crates/rotelyx-media/src/forward.rs\<close>: the join datagram, and the
  routing decision of a room.  The map of frame counts is an association list with distinct keys.
\<close>

section \<open>Joining\<close>

datatype forward_error =
    NotAJoin nat
  | RoomFull
  | AlreadyJoined u8
  | NotJoined u8
  | WrongConnection u8 u8
  | MediaErr media_error

definition JOIN_MAGIC :: bytes where
  "JOIN_MAGIC = map (\<lambda>c. word_of_nat (of_char c)) ''RXROOM1''"

definition ROOM_ID_LEN :: nat where "ROOM_ID_LEN = 32"

record join_msg =
  room :: bytes
  seat :: u8

definition join_datagram :: "bytes \<Rightarrow> u8 \<Rightarrow> bytes" where
  "join_datagram r s = JOIN_MAGIC @ r @ [s]"

definition parse_join :: "bytes \<Rightarrow> (forward_error, join_msg) result" where
  "parse_join datagram =
     (let want = length JOIN_MAGIC + ROOM_ID_LEN + 1
      in if length datagram \<noteq> want \<or> take (length JOIN_MAGIC) datagram \<noteq> JOIN_MAGIC
         then Inl (NotAJoin (length datagram))
         else Inr \<lparr> room = take ROOM_ID_LEN (drop (length JOIN_MAGIC) datagram),
                     seat = datagram ! (want - 1) \<rparr>)"

text \<open>\<open>hkdf salt ikm info n\<close> is the key derivation of a third-party crate.\<close>

definition room_for :: "(bytes \<Rightarrow> bytes \<Rightarrow> bytes \<Rightarrow> nat \<Rightarrow> bytes) \<Rightarrow> bytes \<Rightarrow> bytes" where
  "room_for hkdf call =
     hkdf (map (\<lambda>c. word_of_nat (of_char c)) ''rotelyx room v1'') call
       (map (\<lambda>c. word_of_nat (of_char c)) ''room id'') 32"

section \<open>Routing\<close>

record routed =
  to_whom :: "u8 list"
  from_whom :: u8
  routed_counter :: u64

record forwarder =
  seen :: "(u8 \<times> u64) list"
  relay_silence :: bool

definition forwarder_new :: forwarder where
  "forwarder_new = \<lparr> seen = [], relay_silence = False \<rparr>"

definition set_relay_silence :: "forwarder \<Rightarrow> bool \<Rightarrow> forwarder" where
  "set_relay_silence f on = f\<lparr>relay_silence := on\<rparr>"

definition room_join :: "forwarder \<Rightarrow> u8 \<Rightarrow> forwarder \<times> (forward_error, unit) result" where
  "room_join f i =
     (if MAX_SENDERS \<le> unat i then (f, Inl (MediaErr (SenderOutOfRange i)))
      else if map_of (seen f) i \<noteq> None then (f, Inl (AlreadyJoined i))
      else if MAX_SENDERS \<le> length (seen f) then (f, Inl RoomFull)
      else (f\<lparr>seen := AList.update i 0 (seen f)\<rparr>, Inr ()))"

definition room_leave :: "forwarder \<Rightarrow> u8 \<Rightarrow> forwarder \<times> (forward_error, unit) result" where
  "room_leave f i =
     (f\<lparr>seen := AList.delete i (seen f)\<rparr>,
      if map_of (seen f) i = None then Inl (NotJoined i) else Inr ())"

definition participants :: "forwarder \<Rightarrow> u8 list" where
  "participants f = sort (map fst (seen f))"

definition frames_seen :: "forwarder \<Rightarrow> u8 \<Rightarrow> u64 option" where
  "frames_seen f i = map_of (seen f) i"

definition route :: "forwarder \<Rightarrow> u8 \<Rightarrow> bytes \<Rightarrow> forwarder \<times> (forward_error, routed) result" where
  "route f arrived_on datagram =
     (case parse_header datagram of
        Inl e \<Rightarrow> (f, Inl (MediaErr e))
      | Inr (claimed, counter, _) \<Rightarrow>
          (case map_of (seen f) arrived_on of
             None \<Rightarrow> (f, Inl (NotJoined arrived_on))
           | Some count \<Rightarrow>
               if claimed \<noteq> arrived_on then (f, Inl (WrongConnection claimed arrived_on))
               else
                 let f' = f\<lparr>seen := AList.update arrived_on (saturating_add count 1) (seen f)\<rparr>
                 in (f', Inr \<lparr> to_whom = sort (filter (\<lambda>i. i \<noteq> arrived_on) (map fst (seen f'))),
                               from_whom = arrived_on, routed_counter = counter \<rparr>)))"

definition wants_filler :: "forwarder \<Rightarrow> u8 \<Rightarrow> bool" where
  "wants_filler f i \<longleftrightarrow> relay_silence f \<and> map_of (seen f) i \<noteq> None"

section \<open>The states of a room\<close>

inductive room_step :: "forwarder \<Rightarrow> forwarder \<Rightarrow> bool" where
  joins: "room_step f (fst (room_join f i))"
| leaves: "room_step f (fst (room_leave f i))"
| routes: "room_step f (fst (route f i datagram))"
| silence: "room_step f (set_relay_silence f on)"

inductive_cases room_stepE: "room_step f f'"

inductive room_reachable :: "forwarder \<Rightarrow> bool" where
  start: "room_reachable forwarder_new"
| step: "room_reachable f \<Longrightarrow> room_step f f' \<Longrightarrow> room_reachable f'"

definition room_inv :: "forwarder \<Rightarrow> bool" where
  "room_inv f \<longleftrightarrow> distinct (map fst (seen f)) \<and> list_all (\<lambda>i. unat i < MAX_SENDERS) (map fst (seen f))"

lemma room_inv_join: "room_inv f \<Longrightarrow> room_inv (fst (room_join f i))"
  by (auto simp: room_inv_def room_join_def distinct_update update_keys)

lemma room_inv_leave: "room_inv f \<Longrightarrow> room_inv (fst (room_leave f i))"
  by (auto simp: room_inv_def room_leave_def distinct_delete list_all_iff delete_keys distinct_removeAll)

lemma keys_update_mem: "map_of m i = Some c \<Longrightarrow> map fst (AList.update i v m) = map fst m"
  using map_of_SomeD [of m i c] by (force simp: update_keys)

lemma room_inv_route: "room_inv f \<Longrightarrow> room_inv (fst (route f i d))"
  by (auto simp: room_inv_def route_def keys_update_mem Let_def split: sum.splits option.splits)

lemma room_inv_step: "room_step f f' \<Longrightarrow> room_inv f \<Longrightarrow> room_inv f'"
  by (elim room_stepE)
    (auto simp: room_inv_join room_inv_leave room_inv_route, simp add: room_inv_def set_relay_silence_def)

lemma reachable_inv: "room_reachable f \<Longrightarrow> room_inv f"
proof (induction rule: room_reachable.induct)
  case start
  then show ?case by (simp add: room_inv_def forwarder_new_def)
next
  case (step f f')
  then show ?case using room_inv_step by blast
qed

lemma room_size:
  assumes "room_inv f"
  shows "length (seen f) \<le> MAX_SENDERS"
    and "unat i < MAX_SENDERS \<Longrightarrow> map_of (seen f) i = None \<Longrightarrow> length (seen f) < MAX_SENDERS"
proof -
  have inj: "inj_on unat (fst ` set (seen f))" by (auto intro!: inj_onI unat_eqI)
  have len: "length (seen f) = card (unat ` fst ` set (seen f))"
    using assms distinct_card [of "map fst (seen f)"] card_image [OF inj] by (simp add: room_inv_def)
  have sub: "unat ` fst ` set (seen f) \<subseteq> {..<MAX_SENDERS}" using assms by (auto simp: room_inv_def list_all_iff)
  show "length (seen f) \<le> MAX_SENDERS" using len card_mono [OF _ sub] by simp
  assume i: "unat i < MAX_SENDERS" "map_of (seen f) i = None"
  then have "unat i \<notin> unat ` fst ` set (seen f)" by (auto simp: map_of_eq_None_iff dest: unat_eqI)
  then have "unat ` fst ` set (seen f) \<subset> {..<MAX_SENDERS}" using sub i(1) by blast
  then have "card (unat ` fst ` set (seen f)) < card {..<MAX_SENDERS}" by (intro psubset_card_mono) simp_all
  then show "length (seen f) < MAX_SENDERS" using len by simp
qed

section \<open>Properties\<close>

text \<open>In every state a room can reach, joining is decided by the id alone: it is refused when the id is
  out of range or already in, accepted otherwise, and never refused because the room is full.\<close>

lemma join_never_full:
  assumes "room_reachable f"
  shows "snd (room_join f i) =
    (if MAX_SENDERS \<le> unat i then Inl (MediaErr (SenderOutOfRange i))
     else if i \<in> set (participants f) then Inl (AlreadyJoined i) else Inr ())"
proof -
  have "i \<in> set (participants f) \<longleftrightarrow> map_of (seen f) i \<noteq> None"
    by (simp add: participants_def map_of_eq_None_iff)
  then show ?thesis
    using room_size(2) [OF reachable_inv [OF assms], of i] by (auto simp: room_join_def not_le)
qed

lemma join_never_full_witness: "snd (room_join forwarder_new 3) = Inr ()"
  using join_never_full [OF room_reachable.start, of 3] by (simp add: MAX_SENDERS_def participants_def forwarder_new_def)

text \<open>In every state a room can reach, a routed datagram came over the connection of the participant its
  header names, and goes to every other participant once, in order, and never to its sender; a refused one
  changes nothing.\<close>

lemma routes_to_everybody_else:
  assumes "room_reachable f"
  shows "case route f i datagram of
      (f', Inl e) \<Rightarrow> f' = f
    | (f', Inr r) \<Rightarrow>
        claimed_sender datagram = Inr i \<and> from_whom r = i \<and> i \<in> set (participants f) \<and>
        set (to_whom r) = set (participants f) - {i} \<and> distinct (to_whom r) \<and> sorted (to_whom r) \<and>
        participants f' = participants f"
proof (cases "snd (route f i datagram)")
  case (Inl e)
  then show ?thesis by (auto simp: route_def Let_def split: sum.splits option.splits if_splits)
next
  case (Inr r)
  from Inr obtain counter n count where h: "parse_header datagram = Inr (i, counter, n)"
    and c: "map_of (seen f) i = Some count"
    by (auto simp: route_def Let_def split: sum.splits option.splits if_splits)
  have inv: "distinct (map fst (seen f))" using reachable_inv [OF assms] by (simp add: room_inv_def)
  have mem: "i \<in> fst ` set (seen f)" using map_of_SomeD [OF c] by force
  have keys: "map fst (AList.update i v (seen f)) = map fst (seen f)" for v
    using c by (rule keys_update_mem)
  show ?thesis
    using h c inv mem by (auto simp: route_def claimed_sender_def Let_def participants_def keys)
qed

lemma routes_to_everybody_else_witness:
  "case route (fst (room_join (fst (room_join forwarder_new 1)) 2)) 1 [1, 7, 9] of
      (f', Inl e) \<Rightarrow> f' = fst (room_join (fst (room_join forwarder_new 1)) 2)
    | (f', Inr r) \<Rightarrow>
        claimed_sender [1, 7, 9] = Inr 1 \<and> from_whom r = 1 \<and>
        1 \<in> set (participants (fst (room_join (fst (room_join forwarder_new 1)) 2))) \<and>
        set (to_whom r) = set (participants (fst (room_join (fst (room_join forwarder_new 1)) 2))) - {1} \<and>
        distinct (to_whom r) \<and> sorted (to_whom r) \<and>
        participants f' = participants (fst (room_join (fst (room_join forwarder_new 1)) 2))"
  by (rule routes_to_everybody_else) (blast intro: room_reachable.intros room_step.intros)

text \<open>The join format is unambiguous: a datagram parses as a join exactly when it is the datagram a
  participant builds for that room and seat, with a room id of the fixed length.\<close>

lemma join_roundtrip:
  "parse_join d = Inr j \<longleftrightarrow> length (room j) = ROOM_ID_LEN \<and> d = join_datagram (room j) (seat j)"
proof -
  have magic: "length JOIN_MAGIC = 7" by (simp add: JOIN_MAGIC_def)
  have split: "d = take 7 d @ take 32 (drop 7 d) @ [d ! 39]" if "length d = 40"
  proof -
    have "d = take 7 d @ take 32 (drop 7 d) @ drop 39 d"
      using append_take_drop_id [of 32 "drop 7 d"] by simp
    moreover have "drop 39 d = [d ! 39]" using that by (simp add: Cons_nth_drop_Suc [symmetric])
    ultimately show ?thesis by simp
  qed
  show ?thesis
  proof
    assume "parse_join d = Inr j"
    then have d: "length d = 40" "take 7 d = JOIN_MAGIC"
      "j = \<lparr>room = take 32 (drop 7 d), seat = d ! 39\<rparr>"
      by (auto simp: parse_join_def magic ROOM_ID_LEN_def Let_def split: if_splits)
    then show "length (room j) = ROOM_ID_LEN \<and> d = join_datagram (room j) (seat j)"
      using split [OF d(1)] by (simp add: join_datagram_def ROOM_ID_LEN_def)
  next
    assume "length (room j) = ROOM_ID_LEN \<and> d = join_datagram (room j) (seat j)"
    then show "parse_join d = Inr j"
      by (simp add: parse_join_def join_datagram_def magic ROOM_ID_LEN_def nth_append)
  qed
qed

text \<open>A protected frame can be exactly as long as a join, so length alone does not tell the two apart.\<close>

lemma frame_as_long_as_a_join:
  "\<exists>frame. map_sum id length (snd (protect sample_enc \<lparr>s_keys = \<lparr>sk_id = 1, sk_key = [], sk_salt = []\<rparr>,
      s_counter = 0, s_exhausted = False, s_pad_to = None\<rparr> frame)) = Inr (length (join_datagram (replicate 32 0) 1))"
  by (rule exI [of _ "replicate 21 0"])
    (simp add: protect_def advance_def header_def pad_def sample_enc_def join_datagram_def JOIN_MAGIC_def
      checked_add_def u64_be_eval PAD_MARKER_LEN_def Let_def)

end
