(* ===== verification/Wire_Frames.thy ===== *)
theory Wire_Frames
  imports Rotelyx_Prelude
begin

text \<open>
  Framing of the control stream, \<^verbatim>\<open>crates/rotelyx-core/src/wire.rs\<close>.  An asynchronous reader is the
  list of bytes it will deliver before it ends; an asynchronous writer receives the bytes of the
  result.  The interface \<open>framing\<close> says what a reader and a writer of frames owe each other.
\<close>

section \<open>Frames\<close>

definition MAX_FRAME_LEN :: nat where "MAX_FRAME_LEN = 2 ^ 20"
definition HEADER_LEN :: nat where "HEADER_LEN = 4"

datatype wire_error =
    UnexpectedEof
  | FrameTooLarge nat nat
  | EmptyFrame
  | UnknownKind u8

datatype frame_kind = Message | Handshake | CallControl | Ping | Pong | AdmissionFrame | Resume | Hello

fun kind_byte :: "frame_kind \<Rightarrow> u8" where
  "kind_byte Message = 1"
| "kind_byte Handshake = 2"
| "kind_byte CallControl = 3"
| "kind_byte Ping = 4"
| "kind_byte Pong = 5"
| "kind_byte AdmissionFrame = 6"
| "kind_byte Resume = 7"
| "kind_byte Hello = 8"

definition kind_from_u8 :: "u8 \<Rightarrow> (wire_error, frame_kind) result" where
  "kind_from_u8 v =
     (if v = 1 then Inr Message else if v = 2 then Inr Handshake else if v = 3 then Inr CallControl
      else if v = 4 then Inr Ping else if v = 5 then Inr Pong else if v = 6 then Inr AdmissionFrame
      else if v = 7 then Inr Resume else if v = 8 then Inr Hello else Inl (UnknownKind v))"

record frame =
  f_kind :: frame_kind
  f_payload :: bytes

definition frame_write :: "frame \<Rightarrow> (wire_error, bytes) result" where
  "frame_write f =
     (let body_len = length (f_payload f) + 1
      in if MAX_FRAME_LEN < body_len then Inl (FrameTooLarge body_len MAX_FRAME_LEN)
         else Inr (u32_be (word_of_nat body_len) @ [kind_byte (f_kind f)] @ f_payload f))"

definition frame_read :: "bytes \<Rightarrow> (wire_error, frame \<times> bytes) result" where
  "frame_read bs =
     bind_result (ok_or UnexpectedEof (read_exact HEADER_LEN bs)) (\<lambda>(hd, bs).
       let body_len = unat (word_of_nat (of_be hd) :: u32)
       in if body_len = 0 then Inl EmptyFrame
          else if MAX_FRAME_LEN < body_len then Inl (FrameTooLarge body_len MAX_FRAME_LEN)
          else bind_result (ok_or UnexpectedEof (read_exact 1 bs)) (\<lambda>(k, bs).
            bind_result (kind_from_u8 (k ! 0)) (\<lambda>kind.
              bind_result (ok_or UnexpectedEof (read_exact (body_len - 1) bs)) (\<lambda>(payload, bs).
                Inr (\<lparr>f_kind = kind, f_payload = payload\<rparr>, bs)))))"

section \<open>The contract of a framing\<close>

text \<open>Reading \<open>n\<close> items one after another off a stream.\<close>

fun read_many :: "(bytes \<Rightarrow> ('e, 'f \<times> bytes) result) \<Rightarrow> nat \<Rightarrow> bytes \<Rightarrow> ('e, 'f list \<times> bytes) result" where
  "read_many rd 0 bs = Inr ([], bs)"
| "read_many rd (Suc n) bs =
     bind_result (rd bs) (\<lambda>(f, bs). bind_result (read_many rd n bs) (\<lambda>(fs, bs). Inr (f # fs, bs)))"

locale framing =
  fixes wr :: "'f \<Rightarrow> ('e, bytes) result"
    and rd :: "bytes \<Rightarrow> ('e, 'f \<times> bytes) result"
  assumes reads_back: "wr f = Inr w \<Longrightarrow> rd (w @ rest) = Inr (f, rest)"
    and only_written: "rd bs = Inr (f, rest) \<Longrightarrow> \<exists>w. wr f = Inr w \<and> bs = w @ rest"
begin

lemma stream_reads_back:
  "list_all2 (\<lambda>f w. wr f = Inr w) fs ws \<Longrightarrow> read_many rd (length fs) (concat ws @ rest) = Inr (fs, rest)"
  by (induction rule: list_all2_induct) (auto simp: reads_back)

text \<open>What a reader makes of a stream was written by somebody, frame for frame.\<close>

lemma stream_only_written:
  "read_many rd n bs = Inr (fs, rest) \<Longrightarrow>
    \<exists>ws. list_all2 (\<lambda>f w. wr f = Inr w) fs ws \<and> length fs = n \<and> bs = concat ws @ rest"
proof (induction n arbitrary: bs fs)
  case 0
  then show ?case by (intro exI [of _ "[]"]) auto
next
  case (Suc n)
  then obtain f bs' fs' where f: "rd bs = Inr (f, bs')" and fs: "read_many rd n bs' = Inr (fs', rest)" "fs = f # fs'"
    by (auto simp: result_simps)
  obtain w where w: "wr f = Inr w" "bs = w @ bs'" using only_written [OF f] by blast
  obtain ws where "list_all2 (\<lambda>f w. wr f = Inr w) fs' ws" "length fs' = n" "bs' = concat ws @ rest"
    using Suc.IH [OF fs(1)] by blast
  then show ?case using w fs(2) by (intro exI [of _ "w # ws"]) simp
qed

end

lemma kind_from_kind_byte [simp]: "kind_from_u8 (kind_byte k) = Inr k"
  by (cases k) (simp_all add: kind_from_u8_def)

lemma kind_from_u8_Inr_iff: "kind_from_u8 v = Inr k \<longleftrightarrow> v = kind_byte k"
  by (cases k) (auto simp: kind_from_u8_def split: if_splits)

lemma frame_read_write:
  assumes "frame_write f = Inr w"
  shows "frame_read (w @ rest) = Inr (f, rest)"
proof -
  define n where "n = length (f_payload f) + 1"
  have n: "0 < n" "\<not> MAX_FRAME_LEN < n" and w: "w = u32_be (word_of_nat n) @ [kind_byte (f_kind f)] @ f_payload f"
    using assms by (auto simp: frame_write_def n_def Let_def split: if_splits)
  have "unat (word_of_nat n :: u32) = n"
    using n(2) by (simp add: MAX_FRAME_LEN_def unat_of_nat)
  then show ?thesis
    using n unfolding w n_def by (simp add: frame_read_def HEADER_LEN_def read_exact_def Let_def)
qed

lemma frame_read_written:
  assumes "frame_read bs = Inr (f, rest)"
  shows "\<exists>w. frame_write f = Inr w \<and> bs = w @ rest"
proof -
  from assms obtain hd k payload where
    bs: "bs = hd @ k @ payload @ rest" "length hd = 4" "length k = 1"
    and n: "unat (word_of_nat (of_be hd) :: u32) \<noteq> 0" "\<not> MAX_FRAME_LEN < unat (word_of_nat (of_be hd) :: u32)"
      "length payload = unat (word_of_nat (of_be hd) :: u32) - 1"
    and f: "kind_from_u8 (k ! 0) = Inr (f_kind f)" "f_payload f = payload"
    by (auto simp: frame_read_def result_simps read_exact_Some_iff HEADER_LEN_def Let_def split: if_splits)
  have "u32_be (word_of_nat (length payload + 1)) = hd"
    using n(1,3) u32_be_of_be [OF bs(2)] by simp
  moreover have "k = [kind_byte (f_kind f)]"
    using bs(3) f(1) by (cases k) (auto simp: kind_from_u8_Inr_iff)
  ultimately show ?thesis using bs(1) n f(2) by (simp add: frame_write_def Let_def)
qed

interpretation wire: framing frame_write frame_read
  by unfold_locales (auto intro: frame_read_write dest: frame_read_written)

section \<open>Properties\<close>

text \<open>Whatever frames are written to a stream one after another, a reader gets exactly those frames in
  order and leaves what follows them unread.\<close>

lemma frames_cross_a_stream:
  assumes "list_all2 (\<lambda>f w. frame_write f = Inr w) fs ws"
  shows "read_many frame_read (length fs) (concat ws @ rest) = Inr (fs, rest)"
  using assms by (rule wire.stream_reads_back)

lemma frames_cross_a_stream_witness:
  "read_many frame_read (Suc (Suc 0)) (concat [[0, 0, 0, 3, 1, 7, 8], [0, 0, 0, 1, 8]] @ [9]) =
    Inr ([\<lparr>f_kind = Message, f_payload = [7, 8]\<rparr>, \<lparr>f_kind = Hello, f_payload = []\<rparr>], [9])"
  using frames_cross_a_stream [of "[\<lparr>f_kind = Message, f_payload = [7, 8]\<rparr>, \<lparr>f_kind = Hello, f_payload = []\<rparr>]"
      "[[0, 0, 0, 3, 1, 7, 8], [0, 0, 0, 1, 8]]" "[9]"]
  by (simp add: frame_write_def u32_be_eval MAX_FRAME_LEN_def Let_def del: read_many.simps)

text \<open>A reader accepts nothing but frames a writer can write: the bytes it consumed are the encoding of the
  frame it returns, whose body is within the cap.\<close>

lemma frame_read_is_strict:
  "frame_read bs = Inr (f, rest) \<longleftrightarrow> (\<exists>w. frame_write f = Inr w \<and> bs = w @ rest)"
  using frame_read_write frame_read_written by blast

end
