(* ===== verification/Access_Control.thy ===== *)
theory Access_Control
  imports Rotelyx_Prelude
begin

unbundle bit_operations_syntax

text \<open>
  Reachability, \<^verbatim>\<open>crates/rotelyx-core/src/access.rs\<close>: proofs of work, invitations and their codes, the
  admission evidence on the wire, and the gate that decides.  An identity is its 32 bytes.  BLAKE3 in its
  two keyed forms, the public key of a secret and the test that 32 bytes are a point of the curve come
  from third-party crates and are parameters.
\<close>

section \<open>Epochs and proofs of work\<close>

definition EPOCH_SECONDS :: u64 where "EPOCH_SECONDS = 3600"

definition epoch_at :: "u64 \<Rightarrow> u64" where
  "epoch_at unix_seconds = unix_seconds div EPOCH_SECONDS"

datatype access_error =
    WrongTarget
  | StaleProof u64 u64 u64
  | InsufficientWork u8
  | BadInvitation
  | ExpiredInvitation u64
  | Malformed
  | MalformedAdmission

type_synonym peer_id = bytes

record contact_proof =
  cp_nonce :: u64
  cp_epoch :: u64

definition POW_CONTEXT :: bytes where
  "POW_CONTEXT = ascii ''rotelyx contact proof-of-work v1''"

definition pow_digest :: "hash \<Rightarrow> peer_id \<Rightarrow> peer_id \<Rightarrow> u64 \<Rightarrow> u64 \<Rightarrow> bytes" where
  "pow_digest h sender target epoch nonce =
     h POW_CONTEXT (sender @ target @ u64_be epoch @ u64_be nonce)"

text \<open>\<^verbatim>\<open>u8::leading_zeros\<close>.\<close>

definition leading_zeros8 :: "u8 \<Rightarrow> nat" where
  "leading_zeros8 b = length (takeWhile (\<lambda>i. \<not> bit b i) [7, 6, 5, 4, 3, 2, 1, 0])"

fun leading_zero_bits :: "bytes \<Rightarrow> nat" where
  "leading_zero_bits [] = 0"
| "leading_zero_bits (b # bs) =
     (let z = leading_zeros8 b in if z \<noteq> 8 then z else z + leading_zero_bits bs)"

text \<open>The search counts up from zero and wraps; it may never end.\<close>

partial_function (option) solve_from :: "hash \<Rightarrow> peer_id \<Rightarrow> peer_id \<Rightarrow> u64 \<Rightarrow> u8 \<Rightarrow> u64 \<Rightarrow> contact_proof option" where
  "solve_from h sender target epoch difficulty nonce =
     (if unat difficulty \<le> leading_zero_bits (pow_digest h sender target epoch nonce)
      then Some \<lparr>cp_nonce = nonce, cp_epoch = epoch\<rparr>
      else solve_from h sender target epoch difficulty (nonce + 1))"

definition solve :: "hash \<Rightarrow> peer_id \<Rightarrow> peer_id \<Rightarrow> u64 \<Rightarrow> u8 \<Rightarrow> contact_proof option" where
  "solve h sender target epoch difficulty = solve_from h sender target epoch difficulty 0"

definition verify_proof ::
  "hash \<Rightarrow> contact_proof \<Rightarrow> peer_id \<Rightarrow> peer_id \<Rightarrow> u64 \<Rightarrow> u8 \<Rightarrow> u64 \<Rightarrow> (access_error, unit) result" where
  "verify_proof h p sender target current_epoch difficulty tolerance =
     (if tolerance < abs_diff (cp_epoch p) current_epoch
      then Inl (StaleProof (cp_epoch p) current_epoch tolerance)
      else if leading_zero_bits (pow_digest h sender target (cp_epoch p) (cp_nonce p)) < unat difficulty
      then Inl (InsufficientWork difficulty)
      else Inr ())"

section \<open>Identities of a roster\<close>

definition peer_identity :: "(bytes \<Rightarrow> bool) \<Rightarrow> bytes list \<Rightarrow> peer_id \<Rightarrow> peer_id option" where
  "peer_identity on_curve roster me =
     List.find (\<lambda>b. b \<noteq> me) (filter on_curve (filter (\<lambda>b. length b = 32) roster))"

section \<open>Invitations\<close>

record exit_relay =
  ex_relay :: peer_id
  ex_key_hash :: bytes
  ex_url :: bytes

definition fingerprint :: "hash \<Rightarrow> bytes \<Rightarrow> bytes" where
  "fingerprint h key = h (ascii ''rotelyx relay circuit key fingerprint v1'') key"

definition accepts :: "hash \<Rightarrow> exit_relay \<Rightarrow> bytes \<Rightarrow> bool" where
  "accepts h ex key \<longleftrightarrow> fingerprint h key = ex_key_hash ex"

record read_code_result =
  rc_secret :: bytes
  rc_address :: peer_id
  rc_exit :: "exit_relay option"

record invitation =
  inv_secret :: bytes
  inv_expires :: u64
  inv_address :: peer_id
  inv_transport :: bytes

text \<open>\<open>address_of\<close> is the public key of a transport secret; \<open>issue\<close> takes the two draws of the random source.\<close>

definition from_parts :: "(bytes \<Rightarrow> peer_id) \<Rightarrow> bytes \<Rightarrow> bytes \<Rightarrow> u64 \<Rightarrow> invitation" where
  "from_parts address_of secret transport expires =
     \<lparr> inv_secret = secret, inv_expires = expires, inv_address = address_of transport, inv_transport = transport \<rparr>"

definition issue :: "(bytes \<Rightarrow> peer_id) \<Rightarrow> bytes \<Rightarrow> bytes \<Rightarrow> u64 \<Rightarrow> invitation" where
  "issue address_of secret transport expires =
     \<lparr> inv_secret = secret, inv_expires = expires, inv_address = address_of transport, inv_transport = transport \<rparr>"

definition from_secret :: "(bytes \<Rightarrow> peer_id) \<Rightarrow> bytes \<Rightarrow> bytes \<Rightarrow> u64 \<Rightarrow> invitation" where
  "from_secret address_of transport secret expires =
     \<lparr> inv_secret = secret, inv_expires = expires, inv_address = address_of transport, inv_transport = transport \<rparr>"

definition code :: "invitation \<Rightarrow> bytes" where
  "code i = inv_secret i @ inv_address i"

definition code_with_exit :: "invitation \<Rightarrow> exit_relay \<Rightarrow> bytes" where
  "code_with_exit i ex = code i @ ex_relay ex @ ex_key_hash ex @ ex_url ex"

definition read_code_full :: "(bytes \<Rightarrow> bool) \<Rightarrow> bytes \<Rightarrow> (access_error, read_code_result) result" where
  "read_code_full on_curve bs =
     (if length bs < 64 then Inl Malformed
      else
        let secret = take 32 bs; addr = take 32 (drop 32 bs)
        in if \<not> on_curve addr then Inl Malformed
           else if length bs = 64 then Inr \<lparr>rc_secret = secret, rc_address = addr, rc_exit = None\<rparr>
           else if 128 < length bs then
             (let relay = take 32 (drop 64 bs); key_hash = take 32 (drop 96 bs); url = drop 128 bs
              in if \<not> on_curve relay then Inl Malformed
                 else if \<not> utf8_valid url then Inl Malformed
                 else Inr \<lparr>rc_secret = secret, rc_address = addr,
                           rc_exit = Some \<lparr>ex_relay = relay, ex_key_hash = key_hash, ex_url = url\<rparr>\<rparr>)
           else Inl Malformed)"

definition read_code :: "(bytes \<Rightarrow> bool) \<Rightarrow> bytes \<Rightarrow> (access_error, bytes \<times> peer_id) result" where
  "read_code on_curve bs =
     bind_result (read_code_full on_curve bs) (\<lambda>r. Inr (rc_secret r, rc_address r))"

definition INVITE_CONTEXT :: bytes where
  "INVITE_CONTEXT = ascii ''rotelyx invitation proof v1''"

definition prove :: "hash \<Rightarrow> invitation \<Rightarrow> peer_id \<Rightarrow> u64 \<Rightarrow> bytes" where
  "prove mac i caller epoch = mac (inv_secret i) (INVITE_CONTEXT @ caller @ u64_be epoch)"

definition verify :: "hash \<Rightarrow> invitation \<Rightarrow> bytes \<Rightarrow> peer_id \<Rightarrow> u64 \<Rightarrow> u64 \<Rightarrow> (access_error, unit) result" where
  "verify mac i proof caller epoch current_epoch =
     (if inv_expires i < current_epoch then Inl (ExpiredInvitation (inv_expires i))
      else if prove mac i caller epoch = proof then Inr () else Inl BadInvitation)"

section \<open>The gate\<close>

datatype policy = InvitationOnly | ProofOfWork u8 | Open

fun admits_strangers :: "policy \<Rightarrow> bool" where
  "admits_strangers InvitationOnly = False"
| "admits_strangers _ = True"

datatype admission = AdmInvitation bytes u64 | AdmWork contact_proof | AdmNone

record gate =
  g_policy :: policy
  g_invitations :: "invitation list"
  g_tolerance :: u64

definition gate_new :: "policy \<Rightarrow> gate" where
  "gate_new p = \<lparr> g_policy = p, g_invitations = [], g_tolerance = 1 \<rparr>"

definition gate_invitation_only :: gate where
  "gate_invitation_only = gate_new InvitationOnly"

definition add_invitation :: "gate \<Rightarrow> invitation \<Rightarrow> gate" where
  "add_invitation g i = g\<lparr>g_invitations := g_invitations g @ [i]\<rparr>"

definition revoke :: "gate \<Rightarrow> bytes \<Rightarrow> gate \<times> nat" where
  "revoke g secret =
     (let before = length (g_invitations g);
          kept = filter (\<lambda>i. inv_secret i \<noteq> secret) (g_invitations g)
      in (g\<lparr>g_invitations := kept\<rparr>, before - length kept))"

definition prune :: "gate \<Rightarrow> u64 \<Rightarrow> gate \<times> nat" where
  "prune g current_epoch =
     (let before = length (g_invitations g);
          kept = filter (\<lambda>i. current_epoch \<le> inv_expires i) (g_invitations g)
      in (g\<lparr>g_invitations := kept\<rparr>, before - length kept))"

definition invitation_count :: "gate \<Rightarrow> nat" where
  "invitation_count g = length (g_invitations g)"

text \<open>The loop over the invitations, which ends at the first that verifies.\<close>

fun admit_loop ::
  "hash \<Rightarrow> bool \<Rightarrow> peer_id option \<Rightarrow> bytes \<Rightarrow> peer_id \<Rightarrow> u64 \<Rightarrow> u64 \<Rightarrow> invitation list \<Rightarrow> (access_error, unit) result" where
  "admit_loop mac named dialled proof caller epoch current [] = Inl BadInvitation"
| "admit_loop mac named dialled proof caller epoch current (i # is) =
     (if named \<and> dialled \<noteq> Some (inv_address i) then admit_loop mac named dialled proof caller epoch current is
      else case verify mac i proof caller epoch current of
             Inr _ \<Rightarrow> Inr ()
           | Inl _ \<Rightarrow> admit_loop mac named dialled proof caller epoch current is)"

definition admit ::
  "hash \<Rightarrow> hash \<Rightarrow> gate \<Rightarrow> peer_id \<Rightarrow> peer_id \<Rightarrow> admission \<Rightarrow> u64 \<Rightarrow> peer_id option \<Rightarrow> (access_error, unit) result" where
  "admit h mac g caller me evidence current_epoch dialled =
     (case g_policy g of
        Open \<Rightarrow> Inr ()
      | InvitationOnly \<Rightarrow>
          (case evidence of
             AdmInvitation proof epoch \<Rightarrow>
               let named = (case dialled of None \<Rightarrow> False
                            | Some at \<Rightarrow> list_ex (\<lambda>i. inv_address i = at) (g_invitations g))
               in admit_loop mac named dialled proof caller epoch current_epoch (g_invitations g)
           | _ \<Rightarrow> Inl BadInvitation)
      | ProofOfWork difficulty \<Rightarrow>
          (case evidence of
             AdmWork p \<Rightarrow> verify_proof h p caller me current_epoch difficulty (g_tolerance g)
           | _ \<Rightarrow> Inl (InsufficientWork difficulty)))"

section \<open>Admission evidence on the wire\<close>

fun admission_to_bytes :: "admission \<Rightarrow> bytes" where
  "admission_to_bytes (AdmInvitation proof epoch) = 1 # proof @ u64_be epoch"
| "admission_to_bytes (AdmWork p) = 2 # u64_be (cp_nonce p) @ u64_be (cp_epoch p)"
| "admission_to_bytes AdmNone = [0]"

definition admission_from_bytes :: "bytes \<Rightarrow> (access_error, admission) result" where
  "admission_from_bytes bs =
     (case bs of
        [] \<Rightarrow> Inl MalformedAdmission
      | b # rest \<Rightarrow>
          if b = 0 \<and> length bs = 1 then Inr AdmNone
          else if b = 1 \<and> length bs = 41 then
            Inr (AdmInvitation (take 32 (drop 1 bs)) (word_of_nat (of_be (take 8 (drop 33 bs)))))
          else if b = 2 \<and> length bs = 17 then
            Inr (AdmWork \<lparr>cp_nonce = word_of_nat (of_be (take 8 (drop 1 bs))),
                          cp_epoch = word_of_nat (of_be (take 8 (drop 9 bs)))\<rparr>)
          else Inl MalformedAdmission)"

section \<open>What the work means\<close>

lemma takeWhile_length_ge: "d \<le> length xs \<Longrightarrow> d \<le> length (takeWhile p xs) \<longleftrightarrow> (\<forall>i<d. p (xs ! i))"
proof (induction xs arbitrary: d)
  case Nil
  then show ?case by simp
next
  case (Cons x xs)
  then show ?case by (cases d) (auto simp: less_Suc_eq_0_disj)
qed

lemma no_high_bits: "(\<forall>i. k \<le> i \<and> i < 8 \<longrightarrow> \<not> bit b i) \<longleftrightarrow> unat (b :: u8) < 2 ^ k"
proof -
  have "(\<forall>i. k \<le> i \<and> i < 8 \<longrightarrow> \<not> bit b i) \<longleftrightarrow> drop_bit k b = 0"
  proof
    assume h: "\<forall>i. k \<le> i \<and> i < 8 \<longrightarrow> \<not> bit b i"
    show "drop_bit k b = 0"
    proof (rule bit_word_eqI)
      fix n
      show "bit (drop_bit k b) n \<longleftrightarrow> bit 0 n"
        using h [rule_format, of "k + n"] bit_imp_le_length [of b "k + n"] by (auto simp: bit_simps)
    qed
  next
    assume "drop_bit k b = 0"
    moreover have "bit (drop_bit k b) n \<longleftrightarrow> bit b (k + n)" for n by (simp add: bit_simps)
    ultimately have z: "\<not> bit b (k + n)" for n by simp
    have "\<not> bit b i" if "k \<le> i" for i using z [of "i - k"] that by simp
    then show "\<forall>i. k \<le> i \<and> i < 8 \<longrightarrow> \<not> bit b i" by blast
  qed
  also have "\<dots> \<longleftrightarrow> unat b div 2 ^ k = 0"
    by (simp only: word_unat_eq_iff unsigned_drop_bit_eq) (simp add: drop_bit_eq_div take_bit_nat_eq_self)
  finally show ?thesis by (simp add: div_eq_0_iff)
qed

lemma leading_zeros8_ge:
  assumes "d \<le> 8"
  shows "d \<le> leading_zeros8 b \<longleftrightarrow> unat b < 2 ^ (8 - d)"
proof -
  have nth: "[7, 6, 5, 4, 3, 2, 1, 0] ! i = 7 - i" if "i < 8" for i :: nat
  proof -
    have "i = 0 \<or> i = 1 \<or> i = 2 \<or> i = 3 \<or> i = 4 \<or> i = 5 \<or> i = 6 \<or> i = 7" using that by linarith
    then show ?thesis by (elim disjE) simp_all
  qed
  have "d \<le> leading_zeros8 b \<longleftrightarrow> (\<forall>i<d. \<not> bit b (7 - i))"
    using assms unfolding leading_zeros8_def by (subst takeWhile_length_ge) (auto simp: nth simp del: One_nat_def)
  also have "\<dots> \<longleftrightarrow> (\<forall>i. 8 - d \<le> i \<and> i < 8 \<longrightarrow> \<not> bit b i)"
  proof
    assume h: "\<forall>i<d. \<not> bit b (7 - i)"
    have "\<not> bit b i" if "8 - d \<le> i" "i < 8" for i
      using h [rule_format, of "7 - i"] that assms by simp
    then show "\<forall>i. 8 - d \<le> i \<and> i < 8 \<longrightarrow> \<not> bit b i" by blast
  next
    assume h: "\<forall>i. 8 - d \<le> i \<and> i < 8 \<longrightarrow> \<not> bit b i"
    have "\<not> bit b (7 - i)" if "i < d" for i
    proof -
      have "8 - d \<le> 7 - i \<and> 7 - i < 8" using that assms by linarith
      then show ?thesis using h by blast
    qed
    then show "\<forall>i<d. \<not> bit b (7 - i)" by blast
  qed
  finally show ?thesis by (simp add: no_high_bits)
qed

text \<open>A digest with \<open>d\<close> leading zero bits is a number below \<open>2 ^ (8 * length - d)\<close>.\<close>

lemma leading_zeros8_le: "leading_zeros8 b \<le> 8"
  unfolding leading_zeros8_def by (rule le_trans [OF length_takeWhile_le]) simp

lemma leading_zero_bits_ge:
  "d \<le> 8 * length ds \<Longrightarrow> d \<le> leading_zero_bits ds \<longleftrightarrow> of_be ds * 2 ^ d < 256 ^ length ds"
proof (induction ds arbitrary: d)
  case Nil
  then show ?case by simp
next
  case (Cons b ds)
  define P where "P = (256 :: nat) ^ length ds"
  have r: "of_be ds < P" by (simp add: P_def of_be_less)
  have P: "0 < P" by (simp add: P_def)
  have cons: "of_be (b # ds) = unat b * P + of_be ds"
    using of_be_append [of "[b]" ds] by (simp add: of_be_def P_def)
  have small: "d \<le> leading_zeros8 b \<longleftrightarrow> of_be (b # ds) * 2 ^ d < P * 256" if "d \<le> 8"
  proof -
    have "unat b * P + of_be ds < m * P \<longleftrightarrow> unat b < m" for m
    proof
      assume "unat b < m"
      then have "Suc (unat b) * P \<le> m * P" by (intro mult_le_mono1) simp
      then show "unat b * P + of_be ds < m * P" using r by simp
    next
      assume "unat b * P + of_be ds < m * P"
      then have "unat b * P < m * P" by linarith
      then show "unat b < m" by simp
    qed
    moreover have "P * 256 = 2 ^ (8 - d) * P * 2 ^ d"
      using that by (simp add: mult.commute mult.left_commute flip: power_add)
    moreover have "of_be (b # ds) * 2 ^ d < 2 ^ (8 - d) * P * 2 ^ d \<longleftrightarrow> of_be (b # ds) < 2 ^ (8 - d) * P"
      by (simp only: mult_less_cancel2) simp
    ultimately show ?thesis using leading_zeros8_ge [OF that, of b] by (simp only: cons)
  qed
  show ?case
  proof (cases "leading_zeros8 b = 8")
    case False
    then have "leading_zeros8 b < 8" using leading_zeros8_le [of b] by simp
    show ?thesis
    proof (cases "d \<le> 8")
      case True
      then show ?thesis using small False by (simp add: P_def mult.commute)
    next
      case d: False
      have "b \<noteq> 0" using False leading_zeros8_ge [of 8 b] leading_zeros8_le [of b] by auto
      then have "1 \<le> unat b" by (metis One_nat_def Suc_leI neq0_conv unat_eq_zero)
      then have "1 * P \<le> unat b * P" by (rule mult_le_mono1)
      then have "P \<le> of_be (b # ds)" unfolding cons by linarith
      moreover have "(2 :: nat) ^ 8 \<le> 2 ^ d" using d by (intro power_increasing) auto
      ultimately have "P * 256 \<le> of_be (b # ds) * 2 ^ d" by (intro mult_le_mono) simp_all
      then show ?thesis using False d \<open>leading_zeros8 b < 8\<close> by (simp add: P_def mult.commute)
    qed
  next
    case True
    then have b: "unat b = 0" using leading_zeros8_ge [of 8 b] by simp
    show ?thesis
    proof (cases "d \<le> 8")
      case d: True
      then show ?thesis using small True by (simp add: P_def mult.commute)
    next
      case d: False
      then obtain e where e: "d = 8 + e" by (metis le_add_diff_inverse nat_le_linear)
      have "of_be ds * 2 ^ d < P * 256 \<longleftrightarrow> of_be ds * 2 ^ e < P"
        by (simp add: e power_add mult.assoc [symmetric] mult.commute [of "2 ^ e"])
      then show ?thesis
        using Cons.IH [of e] Cons.prems True e by (simp add: cons b P_def mult.commute)
    qed
  qed
qed

section \<open>The search\<close>

abbreviation enough :: "hash \<Rightarrow> peer_id \<Rightarrow> peer_id \<Rightarrow> u64 \<Rightarrow> u8 \<Rightarrow> u64 \<Rightarrow> bool" where
  "enough h s t e d n \<equiv> unat d \<le> leading_zero_bits (pow_digest h s t e n)"

lemma solve_from_sound:
  "solve_from h s t e d n = Some p \<Longrightarrow> cp_epoch p = e \<and> enough h s t e d (cp_nonce p)"
proof (erule solve_from.raw_induct [rotated], goal_cases)
  case (1 solve_from h s t e d n p)
  then show ?case by (auto split: if_splits)
qed

lemma solve_from_reaches:
  "enough h s t e d m \<Longrightarrow> \<forall>k. n \<le> k \<and> k < m \<longrightarrow> \<not> enough h s t e d k \<Longrightarrow> n \<le> m \<Longrightarrow>
    solve_from h s t e d n = Some \<lparr>cp_nonce = m, cp_epoch = e\<rparr>"
proof (induction "unat m - unat n" arbitrary: n)
  case 0
  then have "n = m" by (simp add: word_le_nat_alt unat_eqI)
  then show ?case using 0 by (subst solve_from.simps) simp
next
  case (Suc x)
  then have lt: "n < m" by (simp add: word_less_nat_alt)
  then have "unat n + 1 < 18446744073709551616"
    using unat_u64_less [of m] lt [unfolded word_less_nat_alt] by linarith
  then have u: "unat (n + 1) = unat n + 1" by (simp add: unat_word_ariths)
  have "solve_from h s t e d (n + 1) = Some \<lparr>cp_nonce = m, cp_epoch = e\<rparr>"
  proof (rule Suc.hyps(1))
    show "x = unat m - unat (n + 1)" using Suc.hyps(2) u by simp
    show "\<forall>k. n + 1 \<le> k \<and> k < m \<longrightarrow> \<not> enough h s t e d k"
      using Suc.prems(2) u by (auto simp: word_le_nat_alt)
    show "n + 1 \<le> m" using lt u by (simp add: word_le_nat_alt word_less_nat_alt)
  qed (rule Suc.prems(1))
  moreover have "\<not> enough h s t e d n" using Suc.prems(2) lt by simp
  ultimately show ?case by (subst solve_from.simps) simp
qed

lemma solve_least:
  assumes "enough h s t e d n"
  obtains m where "solve h s t e d = Some \<lparr>cp_nonce = m, cp_epoch = e\<rparr>" "enough h s t e d m"
    "\<forall>k < m. \<not> enough h s t e d k"
proof -
  obtain m where "enough h s t e d m" "\<forall>k. enough h s t e d k \<longrightarrow> unat m \<le> unat k"
    using ex_has_least_nat [of "enough h s t e d" n unat, OF assms] by blast
  then have m: "enough h s t e d m" "\<forall>k < m. \<not> enough h s t e d k"
    by (auto simp: word_less_nat_alt simp flip: not_le)
  then have "solve h s t e d = Some \<lparr>cp_nonce = m, cp_epoch = e\<rparr>"
    unfolding solve_def by (intro solve_from_reaches) auto
  then show ?thesis using that m by blast
qed

section \<open>What the gate decides\<close>

lemma verify_Inr_iff:
  "verify mac i proof caller epoch current = Inr () \<longleftrightarrow> current \<le> inv_expires i \<and> prove mac i caller epoch = proof"
  by (auto simp: verify_def not_less)

lemma admit_loop_iff:
  "admit_loop mac named dialled proof caller epoch current is = Inr () \<longleftrightarrow>
    (\<exists>i\<in>set is. (named \<longrightarrow> dialled = Some (inv_address i)) \<and> current \<le> inv_expires i \<and> prove mac i caller epoch = proof)"
proof (induction "is")
  case Nil
  then show ?case by simp
next
  case (Cons i "is")
  have v: "(case verify mac i proof caller epoch current of Inl _ \<Rightarrow> r | Inr _ \<Rightarrow> Inr ()) =
      (if current \<le> inv_expires i \<and> prove mac i caller epoch = proof then Inr () else r)" for r
    by (auto simp: verify_def not_less)
  show ?case using Cons.IH by (auto simp: v)
qed

lemma admit_loop_outcome:
  "admit_loop mac named dialled proof caller epoch current is = Inr () \<or>
    admit_loop mac named dialled proof caller epoch current is = Inl BadInvitation"
  by (induction "is") (auto split: sum.splits if_splits)

lemma admit_invitation_iff:
  "g_policy g = InvitationOnly \<Longrightarrow>
    admit h mac g caller me (AdmInvitation proof epoch) current dialled = Inr () \<longleftrightarrow>
    (\<exists>i\<in>set (g_invitations g).
      ((\<exists>j\<in>set (g_invitations g). dialled = Some (inv_address j)) \<longrightarrow> dialled = Some (inv_address i)) \<and>
      current \<le> inv_expires i \<and> prove mac i caller epoch = proof)"
  by (auto simp: admit_def admit_loop_iff list_ex_iff split: option.splits)

lemma admit_invitation_outcome:
  "g_policy g = InvitationOnly \<Longrightarrow>
    admit h mac g caller me (AdmInvitation pf epoch) current dialled = Inr () \<or>
    admit h mac g caller me (AdmInvitation pf epoch) current dialled = Inl BadInvitation"
  by (simp add: admit_def Let_def admit_loop_outcome)

text \<open>
  What the gate relies on of the keyed hash, as an ideal: under keys of 32 bytes, equal tags come from
  equal keys and equal messages.
\<close>

definition mac_binds :: "hash \<Rightarrow> bool" where
  "mac_binds mac \<longleftrightarrow> (\<forall>k k' m m'. length k = 32 \<longrightarrow> length k' = 32 \<longrightarrow> mac k m = mac k' m' \<longrightarrow> k = k' \<and> m = m')"

lemma prove_binds:
  assumes "mac_binds mac" "length (inv_secret i) = 32" "length (inv_secret j) = 32" "length a = 32" "length b = 32"
    and "prove mac i a e = prove mac j b f"
  shows "inv_secret i = inv_secret j \<and> a = b \<and> e = f"
proof -
  have "inv_secret i = inv_secret j \<and> INVITE_CONTEXT @ a @ u64_be e = INVITE_CONTEXT @ b @ u64_be f"
    using assms(1) [unfolded mac_binds_def, rule_format, OF assms(2,3) assms(6) [unfolded prove_def]] .
  then show ?thesis using assms(4,5) by simp
qed

section \<open>Properties\<close>

text \<open>C19: a captured invitation proof is worth nothing to anybody else.  If an invitation-only gate admits a
  caller that presents the proof somebody computed, then the caller is the identity the proof was computed for,
  under the epoch it was computed for, the gate holds a live invitation with that secret, and where the address
  that answered belongs to an invitation, it belongs to that one.\<close>

lemma stolen_proof_is_useless:
  assumes "mac_binds mac" "g_policy g = InvitationOnly" "\<forall>i\<in>set (g_invitations g). length (inv_secret i) = 32"
    and "length (inv_secret i0) = 32" "length caller = 32" "length caller0 = 32"
    and "admit h mac g caller me (AdmInvitation (prove mac i0 caller0 e0) epoch) current dialled = Inr ()"
  shows "caller = caller0 \<and> epoch = e0 \<and>
    (\<exists>i\<in>set (g_invitations g). inv_secret i = inv_secret i0 \<and> current \<le> inv_expires i \<and>
      (dialled \<in> Some ` inv_address ` set (g_invitations g) \<longrightarrow> dialled = Some (inv_address i)))"
proof -
  from assms(7) obtain i where i: "i \<in> set (g_invitations g)"
    "(\<exists>j\<in>set (g_invitations g). dialled = Some (inv_address j)) \<longrightarrow> dialled = Some (inv_address i)"
    "current \<le> inv_expires i" "prove mac i caller epoch = prove mac i0 caller0 e0"
    unfolding admit_invitation_iff [OF assms(2)] by (elim bexE conjE) (rule that)
  have "inv_secret i = inv_secret i0 \<and> caller = caller0 \<and> epoch = e0"
    using prove_binds [OF assms(1) _ assms(4) assms(5) assms(6) i(4)] assms(3) i(1) by simp
  then show ?thesis using i by auto
qed

definition sample_invitation :: invitation where
  "sample_invitation = from_parts (\<lambda>t. rev t) (replicate 32 7) (replicate 32 9) 200"

definition sample_gate :: gate where
  "sample_gate = add_invitation gate_invitation_only sample_invitation"

lemma stolen_proof_is_useless_witness:
  "(100 :: u64) \<le> inv_expires sample_invitation \<and>
   (\<exists>i\<in>set (g_invitations sample_gate). inv_secret i = inv_secret sample_invitation)"
  using stolen_proof_is_useless [of "\<lambda>k m. k @ m" sample_gate sample_invitation "replicate 32 1" "replicate 32 1"
      "\<lambda>k m. m" "replicate 32 2" 90 90 100 None]
  by (simp add: mac_binds_def sample_gate_def add_invitation_def gate_invitation_only_def gate_new_def
      sample_invitation_def from_parts_def admit_def verify_def)

text \<open>Revocation is immediate and surgical: after it no proof made with the revoked secret is admitted, by
  anybody, at any address, at any time; it counts what it removed; and every other invitation is kept.\<close>

lemma revocation_is_immediate:
  assumes "mac_binds mac" "g_policy g = InvitationOnly" "\<forall>i\<in>set (g_invitations g). length (inv_secret i) = 32"
    and "length (inv_secret i0) = 32" "length caller = 32" "length caller0 = 32"
  shows "case revoke g (inv_secret i0) of (g', n) \<Rightarrow>
    admit h mac g' caller me (AdmInvitation (prove mac i0 caller0 e0) epoch) current dialled = Inl BadInvitation \<and>
    n + invitation_count g' = invitation_count g \<and>
    set (g_invitations g') = {i \<in> set (g_invitations g). inv_secret i \<noteq> inv_secret i0}"
proof -
  define g' where "g' = g\<lparr>g_invitations := filter (\<lambda>i. inv_secret i \<noteq> inv_secret i0) (g_invitations g)\<rparr>"
  have pol: "g_policy g' = InvitationOnly" using assms(2) by (simp add: g'_def)
  have sec: "\<forall>i\<in>set (g_invitations g'). length (inv_secret i) = 32 \<and> inv_secret i \<noteq> inv_secret i0"
    using assms(3) by (simp add: g'_def)
  have "admit h mac g' caller me (AdmInvitation (prove mac i0 caller0 e0) epoch) current dialled \<noteq> Inr ()"
  proof
    assume "admit h mac g' caller me (AdmInvitation (prove mac i0 caller0 e0) epoch) current dialled = Inr ()"
    then obtain i where i: "i \<in> set (g_invitations g')" "prove mac i caller epoch = prove mac i0 caller0 e0"
      unfolding admit_invitation_iff [OF pol] by blast
    then show False using sec prove_binds [OF assms(1) _ assms(4) assms(5) assms(6) i(2)] by blast
  qed
  then have "admit h mac g' caller me (AdmInvitation (prove mac i0 caller0 e0) epoch) current dialled = Inl BadInvitation"
    using admit_invitation_outcome [OF pol] by blast
  moreover have "length (filter (\<lambda>i. inv_secret i \<noteq> inv_secret i0) (g_invitations g)) \<le> length (g_invitations g)" by simp
  ultimately show ?thesis
    by (auto simp: revoke_def Let_def invitation_count_def g'_def)
qed

lemma revocation_is_immediate_witness:
  "case revoke sample_gate (inv_secret sample_invitation) of (g', n) \<Rightarrow>
    admit (\<lambda>k m. m) (\<lambda>k m. k @ m) g' (replicate 32 1) (replicate 32 2)
      (AdmInvitation (prove (\<lambda>k m. k @ m) sample_invitation (replicate 32 1) 90) 90) 100 None = Inl BadInvitation \<and>
    n + invitation_count g' = invitation_count sample_gate \<and>
    set (g_invitations g') = {i \<in> set (g_invitations sample_gate). inv_secret i \<noteq> inv_secret sample_invitation}"
  by (rule revocation_is_immediate)
    (simp_all add: mac_binds_def sample_gate_def add_invitation_def gate_invitation_only_def gate_new_def
      sample_invitation_def from_parts_def)

text \<open>An invitation proof does not age: the holder of a live invitation is admitted at the identity's own
  address whatever epoch the proof was computed under, today's or not, until the invitation itself expires.\<close>

lemma invitation_proofs_do_not_age:
  assumes "g_policy g = InvitationOnly" "i \<in> set (g_invitations g)" "current \<le> inv_expires i"
  shows "admit h mac g caller me (AdmInvitation (prove mac i caller epoch) epoch) current None = Inr ()"
  unfolding admit_invitation_iff [OF assms(1)] using assms(2,3) by blast

lemma invitation_proofs_do_not_age_witness:
  "admit (\<lambda>k m. m) (\<lambda>k m. k @ m) sample_gate (replicate 32 1) (replicate 32 2)
    (AdmInvitation (prove (\<lambda>k m. k @ m) sample_invitation (replicate 32 1) 3) 3) 200 None = Inr ()"
  by (rule invitation_proofs_do_not_age)
    (simp_all add: sample_gate_def add_invitation_def gate_invitation_only_def gate_new_def
      sample_invitation_def from_parts_def)

text \<open>Pruning expired invitations changes no decision, from the epoch it was done at on, except at the
  addresses of the invitations it dropped.\<close>

lemma pruning_changes_no_decision:
  assumes "pruned \<le> current"
    and "\<forall>i\<in>set (g_invitations g). inv_expires i < pruned \<longrightarrow> dialled \<noteq> Some (inv_address i)"
  shows "admit h mac (fst (prune g pruned)) caller me evidence current dialled =
    admit h mac g caller me evidence current dialled"
proof (cases "g_policy g = InvitationOnly")
  case False
  then show ?thesis by (cases "g_policy g") (auto simp: admit_def prune_def Let_def split: admission.splits)
next
  case True
  define g' where "g' = fst (prune g pruned)"
  have g': "g_policy g' = InvitationOnly" "g_invitations g' = filter (\<lambda>i. pruned \<le> inv_expires i) (g_invitations g)"
    using True by (simp_all add: g'_def prune_def Let_def)
  show ?thesis
  proof (cases evidence)
    case (AdmInvitation pf epoch)
    have "admit h mac g' caller me evidence current dialled = Inr () \<longleftrightarrow>
        admit h mac g caller me evidence current dialled = Inr ()"
    proof -
      define named where "named \<longleftrightarrow> (\<exists>j\<in>set (g_invitations g). dialled = Some (inv_address j))"
      have "(\<exists>j\<in>set (g_invitations g'). dialled = Some (inv_address j)) \<longleftrightarrow> named"
        unfolding named_def g'(2) using assms(2) by (auto simp: not_le [symmetric])
      moreover have "pruned \<le> inv_expires i" if "current \<le> inv_expires i" for i :: invitation
        using assms(1) that by (rule order_trans)
      ultimately show ?thesis
        unfolding AdmInvitation admit_invitation_iff [OF True] admit_invitation_iff [OF g'(1)] named_def [symmetric]
        by (auto simp: g'(2))
    qed
    then show ?thesis
      using admit_invitation_outcome [OF True, of h mac caller me pf epoch current dialled]
        admit_invitation_outcome [OF g'(1), of h mac caller me pf epoch current dialled] AdmInvitation
      unfolding g'_def [symmetric] by auto
  next
    case (AdmWork p)
    then show ?thesis using True g'(1) by (simp add: admit_def g'_def)
  next
    case AdmNone
    then show ?thesis using True g'(1) by (simp add: admit_def g'_def)
  qed
qed

lemma pruning_changes_no_decision_witness:
  "admit (\<lambda>k m. m) (\<lambda>k m. k @ m) (fst (prune sample_gate 150)) (replicate 32 1) (replicate 32 2) AdmNone 180 None =
   admit (\<lambda>k m. m) (\<lambda>k m. k @ m) sample_gate (replicate 32 1) (replicate 32 2) AdmNone 180 None"
  by (rule pruning_changes_no_decision) simp_all

text \<open>C40: the search for a proof of work returns exactly when some nonce has enough work, and then with the
  least such nonce; what it returns verifies against the same two identities at every epoch within the tolerance
  of the one it was solved for.\<close>

lemma solving_ends_and_verifies:
  "(solve h s t e d = None \<longleftrightarrow> (\<nexists>n. enough h s t e d n)) \<and>
   (solve h s t e d = Some p \<longrightarrow>
      cp_epoch p = e \<and> (\<forall>n<cp_nonce p. \<not> enough h s t e d n) \<and>
      (abs_diff e now \<le> tol \<longrightarrow> verify_proof h p s t now d tol = Inr ()))"
proof (cases "\<exists>n. enough h s t e d n")
  case False
  then have "solve h s t e d = None"
    unfolding solve_def by (metis not_None_eq solve_from_sound)
  then show ?thesis using False by simp
next
  case True
  then obtain m where m: "solve h s t e d = Some \<lparr>cp_nonce = m, cp_epoch = e\<rparr>" "enough h s t e d m"
    "\<forall>k<m. \<not> enough h s t e d k" using solve_least by blast
  then show ?thesis using True by (auto simp: verify_proof_def)
qed

lemma solving_ends_and_verifies_witness:
  "solve (\<lambda>k m. drop 23 m) [0] [0] 7 3 = None \<longleftrightarrow> (\<nexists>n. enough (\<lambda>k m. drop 23 m) [0] [0] 7 3 n)"
  using solving_ends_and_verifies [of "\<lambda>k m. drop 23 m" "[0]" "[0]" 7 3] by blast

text \<open>What a proof of work costs: with a hash of 32 bytes, a proof is accepted exactly when its epoch is
  within the tolerance and its digest, read as a number, is below \<open>2 ^ (256 - difficulty)\<close>.\<close>

lemma accepted_work_is_rare:
  assumes "\<forall>k m. length (h k m) = 32"
  shows "verify_proof h p s t now d tol = Inr () \<longleftrightarrow>
    abs_diff (cp_epoch p) now \<le> tol \<and> of_be (pow_digest h s t (cp_epoch p) (cp_nonce p)) < 2 ^ (256 - unat d)"
proof -
  define D where "D = pow_digest h s t (cp_epoch p) (cp_nonce p)"
  have len: "length D = 32" using assms by (simp add: D_def pow_digest_def)
  have d: "unat d < 256" by simp
  have "unat d \<le> leading_zero_bits D \<longleftrightarrow> of_be D * 2 ^ unat d < 256 ^ 32"
    using leading_zero_bits_ge [of "unat d" D] d len by simp
  moreover have "(256 :: nat) ^ 32 = 2 ^ (256 - unat d) * 2 ^ unat d"
  proof -
    have "256 - unat d + unat d = 256" using d by linarith
    then have "(2 :: nat) ^ (256 - unat d) * 2 ^ unat d = 2 ^ 256" by (simp only: power_add [symmetric])
    then show ?thesis by simp
  qed
  ultimately have "unat d \<le> leading_zero_bits D \<longleftrightarrow> of_be D < 2 ^ (256 - unat d)"
    by (simp only: mult_less_cancel2) simp
  then show ?thesis by (simp add: verify_proof_def not_less flip: D_def) (meson not_le)
qed

lemma accepted_work_is_rare_witness:
  "verify_proof (\<lambda>k m. replicate 32 0) \<lparr>cp_nonce = 0, cp_epoch = 3\<rparr> [1] [2] 4 20 1 = Inr () \<longleftrightarrow>
    abs_diff 3 4 \<le> (1 :: u64) \<and> of_be (pow_digest (\<lambda>k m. replicate 32 0) [1] [2] 3 0) < 2 ^ (256 - unat (20 :: u8))"
  using accepted_work_is_rare [of "\<lambda>k m. replicate 32 0" "\<lparr>cp_nonce = 0, cp_epoch = 3\<rparr>" "[1]" "[2]" 4 20 1] by simp

text \<open>Admission evidence has one encoding: bytes decode to evidence exactly when they are its encoding, and
  everything else a stranger sends is an error.\<close>

lemma admission_decodes_only_encodings:
  "admission_from_bytes bs = Inr a \<longleftrightarrow>
    bs = admission_to_bytes a \<and> (case a of AdmInvitation p _ \<Rightarrow> length p = 32 | _ \<Rightarrow> True)"
proof
  assume "admission_from_bytes bs = Inr a"
  then obtain b rest where bs: "bs = b # rest" and
    cases: "b = 0 \<and> rest = [] \<and> a = AdmNone \<or>
     b = 1 \<and> length rest = 40 \<and> a = AdmInvitation (take 32 rest) (word_of_nat (of_be (take 8 (drop 32 rest)))) \<or>
     b = 2 \<and> length rest = 16 \<and> a = AdmWork \<lparr>cp_nonce = word_of_nat (of_be (take 8 rest)),
       cp_epoch = word_of_nat (of_be (take 8 (drop 8 rest)))\<rparr>"
    by (auto simp: admission_from_bytes_def split: list.splits if_splits)
  have eight: "u64_be (word_of_nat (of_be (take 8 xs))) = xs" if "length xs = 8" for xs
    using u64_be_of_be [OF that] that by simp
  have first: "u64_be (word_of_nat (of_be (take 8 xs))) = take 8 xs" if "8 \<le> length xs" for xs
    using u64_be_of_be [of "take 8 xs"] that by simp
  from cases show "bs = admission_to_bytes a \<and> (case a of AdmInvitation p _ \<Rightarrow> length p = 32 | _ \<Rightarrow> True)"
  proof (elim disjE conjE)
    assume "b = 1" "length rest = 40" "a = AdmInvitation (take 32 rest) (word_of_nat (of_be (take 8 (drop 32 rest))))"
    then show ?thesis using eight [of "drop 32 rest"] by (simp add: bs)
  next
    assume "b = 2" "length rest = 16" "a = AdmWork \<lparr>cp_nonce = word_of_nat (of_be (take 8 rest)),
       cp_epoch = word_of_nat (of_be (take 8 (drop 8 rest)))\<rparr>"
    then show ?thesis using eight [of "drop 8 rest"] first [of rest] by (simp add: bs)
  qed (simp add: bs)
next
  assume "bs = admission_to_bytes a \<and> (case a of AdmInvitation p _ \<Rightarrow> length p = 32 | _ \<Rightarrow> True)"
  then show "admission_from_bytes bs = Inr a"
    by (cases a) (simp_all add: admission_from_bytes_def)
qed

text \<open>An invitation code reads back to its secret and address, and with an exit relay to that relay too,
  provided the relay has an address at all: a code with an empty one is refused.\<close>

lemma invitation_codes_read_back:
  assumes "length (inv_secret i) = 32" "length (inv_address i) = 32" "on_curve (inv_address i)"
    and "length (ex_relay ex) = 32" "on_curve (ex_relay ex)" "length (ex_key_hash ex) = 32" "utf8_valid (ex_url ex)"
  shows "read_code_full on_curve (code i) = Inr \<lparr>rc_secret = inv_secret i, rc_address = inv_address i, rc_exit = None\<rparr> \<and>
    read_code_full on_curve (code_with_exit i ex) =
      (if ex_url ex = [] then Inl Malformed
       else Inr \<lparr>rc_secret = inv_secret i, rc_address = inv_address i, rc_exit = Some ex\<rparr>)"
  using assms by (simp_all add: read_code_full_def code_def code_with_exit_def Let_def)

lemma invitation_codes_read_back_witness:
  "read_code_full (\<lambda>a. True) (code sample_invitation) =
      Inr \<lparr>rc_secret = replicate 32 7, rc_address = replicate 32 9, rc_exit = None\<rparr> \<and>
   read_code_full (\<lambda>a. True)
      (code_with_exit sample_invitation \<lparr>ex_relay = replicate 32 3, ex_key_hash = replicate 32 4, ex_url = [104, 105]\<rparr>) =
    Inr \<lparr>rc_secret = replicate 32 7, rc_address = replicate 32 9,
      rc_exit = Some \<lparr>ex_relay = replicate 32 3, ex_key_hash = replicate 32 4, ex_url = [104, 105]\<rparr>\<rparr>"
  using invitation_codes_read_back [of sample_invitation "\<lambda>a. True"
      "\<lparr>ex_relay = replicate 32 3, ex_key_hash = replicate 32 4, ex_url = [104, 105]\<rparr>"]
  by (simp add: sample_invitation_def from_parts_def)

end
