(* ===== verification/Circuit_Hops.thy ===== *)
theory Circuit_Hops
  imports Hybrid_Wraps Access_Control
begin

text \<open>
  The sealed next hop of a relay circuit, \<^verbatim>\<open>crates/rotelyx-crypto/src/circuit.rs\<close>, and the two layers an
  exit relay's circuit is opened with, \<^verbatim>\<open>ExitRelay::seal_circuit\<close> of
  \<^verbatim>\<open>crates/rotelyx-core/src/access.rs\<close>.  An address is the bytes of its UTF-8 text.
\<close>

section \<open>Definitions\<close>

definition NEXT_RELAY_LEN :: nat where "NEXT_RELAY_LEN = 96"
definition CIRCUIT_BODY_LEN :: nat where "CIRCUIT_BODY_LEN = 32 + 32 + NEXT_RELAY_LEN + 8"
definition SEALED_HOP_LEN :: nat where "SEALED_HOP_LEN = CIPHERTEXT_LEN + 24 + CIRCUIT_BODY_LEN + 16"

lemmas circuit_consts = NEXT_RELAY_LEN_def CIRCUIT_BODY_LEN_def SEALED_HOP_LEN_def CIPHERTEXT_LEN_def

definition CIRCUIT_LABEL :: bytes where
  "CIRCUIT_LABEL = ascii ''rotelyx relay circuit v1''"

record sealed_hop =
  sh_kem :: bytes
  sh_nonce :: bytes
  sh_sealed :: bytes

record hop =
  h_destination :: bytes
  h_return_key :: bytes
  h_next_relay :: "bytes option"
  h_hour :: u64

definition circuit_binding :: "bytes \<Rightarrow> u64 \<Rightarrow> bytes" where
  "circuit_binding exit_id hour = prefixed CIRCUIT_LABEL @ prefixed exit_id @ u64_be hour"

definition circuit_key :: "hash \<Rightarrow> bytes \<Rightarrow> bytes" where
  "circuit_key h kem_secret = hybrid_derive_key h kem_secret CIRCUIT_LABEL"

definition hop_seal ::
  "hash \<Rightarrow> aead_enc \<Rightarrow> bytes \<times> bytes \<Rightarrow> bytes option \<Rightarrow> bytes \<Rightarrow> hop \<Rightarrow> (hybrid_error, sealed_hop) result" where
  "hop_seal h enc encapsulated draw exit_id hp =
     (case encapsulated of (kem, kem_secret) \<Rightarrow>
       let key = circuit_key h kem_secret
       in bind_result (ok_or Entropy draw) (\<lambda>nonce.
         bind_result
           (case h_next_relay hp of
              None \<Rightarrow> Inr (replicate NEXT_RELAY_LEN 0)
            | Some url \<Rightarrow>
                if url = [] \<or> NEXT_RELAY_LEN < length url then Inl BadCiphertext
                else Inr (url @ replicate (NEXT_RELAY_LEN - length url) 0))
           (\<lambda>next.
             let body = h_destination hp @ h_return_key hp @ next @ u64_be (h_hour hp)
             in bind_result (ok_or BadCiphertext (enc key nonce (circuit_binding exit_id (h_hour hp)) body))
                  (\<lambda>sealed. Inr \<lparr> sh_kem = kem, sh_nonce = nonce, sh_sealed = sealed \<rparr>))))"

text \<open>What the loop body makes of a body that opened under \<open>hour\<close>.\<close>

definition read_body :: "bytes \<Rightarrow> u64 \<Rightarrow> (hybrid_error, hop) result" where
  "read_body body hour =
     (if length body \<noteq> CIRCUIT_BODY_LEN then Inl BadCiphertext
      else
        let destination = take 32 body;
            return_key = take 32 (drop 32 body);
            padded = take NEXT_RELAY_LEN (drop 64 body);
            stop = length (takeWhile (\<lambda>b. b \<noteq> 0) padded)
        in bind_result
             (if stop = 0 then Inr None
              else if list_ex (\<lambda>b. b \<noteq> 0) (drop stop padded) then Inl BadCiphertext
              else if utf8_valid (take stop padded) then Inr (Some (take stop padded))
              else Inl BadCiphertext)
             (\<lambda>next_relay.
               let inner = word_of_nat (of_be (drop (64 + NEXT_RELAY_LEN) body))
               in if inner \<noteq> hour then Inl BadCiphertext
                  else Inr \<lparr> h_destination = destination, h_return_key = return_key,
                             h_next_relay = next_relay, h_hour = hour \<rparr>))"

fun open_hours :: "aead_dec \<Rightarrow> bytes \<Rightarrow> bytes \<Rightarrow> sealed_hop \<Rightarrow> u64 list \<Rightarrow> (hybrid_error, hop) result" where
  "open_hours dec key exit_id s [] = Inl BadCiphertext"
| "open_hours dec key exit_id s (hour # hours) =
     (case dec key (sh_nonce s) (circuit_binding exit_id hour) (sh_sealed s) of
        None \<Rightarrow> open_hours dec key exit_id s hours
      | Some body \<Rightarrow> read_body body hour)"

definition hop_open ::
  "hash \<Rightarrow> aead_dec \<Rightarrow> (bytes \<Rightarrow> bytes) \<Rightarrow> bytes \<Rightarrow> u64 \<Rightarrow> sealed_hop \<Rightarrow> (hybrid_error, hop) result" where
  "hop_open h dec decaps exit_id now_hour s =
     (let key = circuit_key h (decaps (sh_kem s))
      in open_hours dec key exit_id s [now_hour, now_hour - 1, now_hour + 1])"

definition hop_to_bytes :: "sealed_hop \<Rightarrow> bytes" where
  "hop_to_bytes s = sh_kem s @ sh_nonce s @ sh_sealed s"

definition hop_from_bytes :: "bytes \<Rightarrow> (hybrid_error, sealed_hop) result" where
  "hop_from_bytes bs =
     (if length bs \<noteq> SEALED_HOP_LEN then Inl BadCiphertext
      else bind_result (hybrid_ciphertext_from_bytes (take CIPHERTEXT_LEN bs)) (\<lambda>kem.
        Inr \<lparr> sh_kem = kem, sh_nonce = take 24 (drop CIPHERTEXT_LEN bs),
              sh_sealed = drop (CIPHERTEXT_LEN + 24) bs \<rparr>))"

text \<open>The two layers: what the caller seals to its own relay, and what it seals to the exit relay.\<close>

definition seal_circuit ::
  "hash \<Rightarrow> aead_enc \<Rightarrow> (bytes \<times> bytes) \<times> bytes option \<Rightarrow> (bytes \<times> bytes) \<times> bytes option \<Rightarrow>
    exit_relay \<Rightarrow> bytes \<Rightarrow> bytes \<Rightarrow> bytes \<Rightarrow> u64 \<Rightarrow> (access_error, bytes \<times> bytes) result" where
  "seal_circuit h enc exit_draws first_draws ex first_relay destination return_key hour =
     bind_result (map_err (\<lambda>_. Malformed)
       (hop_seal h enc (fst exit_draws) (snd exit_draws) (ex_relay ex)
         \<lparr> h_destination = destination, h_return_key = return_key, h_next_relay = None, h_hour = hour \<rparr>)) (\<lambda>inner.
     bind_result (map_err (\<lambda>_. Malformed)
       (hop_seal h enc (fst first_draws) (snd first_draws) first_relay
         \<lparr> h_destination = ex_relay ex, h_return_key = return_key, h_next_relay = Some (ex_url ex), h_hour = hour \<rparr>)) (\<lambda>outer.
     Inr (hop_to_bytes outer, hop_to_bytes inner)))"

section \<open>Opening what was sealed\<close>

lemma circuit_binding_hour: "circuit_binding e hour = circuit_binding e hour' \<longleftrightarrow> hour = hour'"
  by (simp add: circuit_binding_def)

text \<open>A hop whose fields the format can carry.\<close>

definition hop_ok :: "hop \<Rightarrow> bool" where
  "hop_ok hp \<longleftrightarrow> length (h_destination hp) = 32 \<and> length (h_return_key hp) = 32 \<and>
     (case h_next_relay hp of None \<Rightarrow> True | Some url \<Rightarrow> utf8_valid url \<and> 0 \<notin> set url)"

lemma takeWhile_padded: "0 \<notin> set url \<Longrightarrow> takeWhile (\<lambda>b. b \<noteq> 0) (url @ replicate n 0) = (url :: bytes)"
  by (induction url) (cases n; auto)+

lemma read_body_sealed:
  assumes "hop_ok hp" "length pad = NEXT_RELAY_LEN"
    and "pad = (case h_next_relay hp of None \<Rightarrow> replicate NEXT_RELAY_LEN 0
                 | Some url \<Rightarrow> url @ replicate (NEXT_RELAY_LEN - length url) 0)"
    and "h_next_relay hp \<noteq> Some []"
  shows "read_body (h_destination hp @ h_return_key hp @ pad @ u64_be (h_hour hp)) (h_hour hp) = Inr hp"
proof -
  have "takeWhile (\<lambda>b. b \<noteq> 0) pad = (case h_next_relay hp of None \<Rightarrow> [] | Some url \<Rightarrow> url)"
    using assms(1,3) takeWhile_padded by (auto simp: hop_ok_def NEXT_RELAY_LEN_def split: option.splits)
  then have "(let stop = length (takeWhile (\<lambda>b. b \<noteq> 0) pad) in
      if stop = 0 then Inr None
      else if list_ex (\<lambda>b. b \<noteq> 0) (drop stop pad) then Inl BadCiphertext
      else if utf8_valid (take stop pad) then Inr (Some (take stop pad))
      else Inl BadCiphertext) = Inr (h_next_relay hp)"
    using assms by (auto simp: hop_ok_def list_ex_iff split: option.splits)
  then show ?thesis
    using assms(1,2) by (simp add: read_body_def CIRCUIT_BODY_LEN_def hop_ok_def Let_def)
qed

lemma hop_sealD:
  assumes "hop_seal h enc (kem, kem_secret) draw exit_id hp = Inr s"
  obtains nonce pad sealed where "draw = Some nonce" "length pad = NEXT_RELAY_LEN"
    "pad = (case h_next_relay hp of None \<Rightarrow> replicate NEXT_RELAY_LEN 0
             | Some url \<Rightarrow> url @ replicate (NEXT_RELAY_LEN - length url) 0)"
    "h_next_relay hp \<noteq> Some []"
    "enc (circuit_key h kem_secret) nonce (circuit_binding exit_id (h_hour hp))
       (h_destination hp @ h_return_key hp @ pad @ u64_be (h_hour hp)) = Some sealed"
    "s = \<lparr> sh_kem = kem, sh_nonce = nonce, sh_sealed = sealed \<rparr>"
  using assms by (auto simp: hop_seal_def Let_def result_simps split: option.splits if_splits)

lemma hop_open_sealed:
  assumes "aead_opens enc dec" "aead_binds enc dec" "decaps kem = kem_secret" "hop_ok hp"
    and "hop_seal h enc (kem, kem_secret) draw exit_id hp = Inr s"
  shows "hop_open h dec decaps exit_id now s =
    (if h_hour hp \<in> {now, now - 1, now + 1} then Inr hp else Inl BadCiphertext)"
proof -
  from assms(5) obtain nonce pad sealed where n: "length pad = NEXT_RELAY_LEN"
    "pad = (case h_next_relay hp of None \<Rightarrow> replicate NEXT_RELAY_LEN 0
             | Some url \<Rightarrow> url @ replicate (NEXT_RELAY_LEN - length url) 0)" "h_next_relay hp \<noteq> Some []"
    and sealed: "enc (circuit_key h kem_secret) nonce (circuit_binding exit_id (h_hour hp))
       (h_destination hp @ h_return_key hp @ pad @ u64_be (h_hour hp)) = Some sealed"
    and s: "s = \<lparr> sh_kem = kem, sh_nonce = nonce, sh_sealed = sealed \<rparr>" by (rule hop_sealD)
  have "dec (circuit_key h kem_secret) nonce (circuit_binding exit_id hour) sealed =
      (if hour = h_hour hp then Some (h_destination hp @ h_return_key hp @ pad @ u64_be (h_hour hp)) else None)" for hour
    using aead_opensD [OF assms(1) sealed] aead_bindsD [OF assms(2) sealed] circuit_binding_hour by auto
  then have "open_hours dec (circuit_key h kem_secret) exit_id s hours =
      (if h_hour hp \<in> set hours then Inr hp else Inl BadCiphertext)" for hours
    by (induction hours) (simp_all add: s read_body_sealed [OF assms(4) n])
  then show ?thesis using assms(3) by (simp add: hop_open_def Let_def s del: open_hours.simps)
qed

lemma hop_bytes_roundtrip:
  assumes "length (sh_kem s) = CIPHERTEXT_LEN" "length (sh_nonce s) = 24" "length (sh_sealed s) = CIRCUIT_BODY_LEN + 16"
  shows "hop_from_bytes (hop_to_bytes s) = Inr s"
  using assms by (simp add: hop_from_bytes_def hop_to_bytes_def hybrid_ciphertext_from_bytes_def circuit_consts)

lemma length_sealed_hop:
  assumes "aead_grows enc" "hop_seal h enc (kem, kem_secret) draw exit_id hp = Inr s"
    and "length (h_destination hp) = 32" "length (h_return_key hp) = 32"
  shows "length (sh_sealed s) = CIRCUIT_BODY_LEN + 16"
  using assms(2) by (rule hop_sealD) (use assms(1,3,4) in \<open>auto simp: aead_grows_def CIRCUIT_BODY_LEN_def\<close>)

section \<open>Properties\<close>

text \<open>A relay reads the hop that was sealed to it when its clock is within an hour of the sealer's, and at any
  other time, however often the descriptor is replayed, gets an error.\<close>

lemma hop_opens_within_the_hour:
  assumes "aead_opens enc dec" "aead_binds enc dec" "decaps kem = kem_secret" "hop_ok hp"
    and "hop_seal h enc (kem, kem_secret) draw exit_id hp = Inr s"
  shows "hop_open h dec decaps exit_id now s =
    (if h_hour hp \<in> {now, now - 1, now + 1} then Inr hp else Inl BadCiphertext)"
  using assms by (rule hop_open_sealed)

definition sample_hop :: hop where
  "sample_hop = \<lparr> h_destination = replicate 32 1, h_return_key = replicate 32 2, h_next_relay = Some [104], h_hour = 9 \<rparr>"

lemma hop_opens_within_the_hour_witness:
  "hop_open (\<lambda>c m. m) carry_dec (\<lambda>k. k) [6] 12
    (projr (hop_seal (\<lambda>c m. m) carry_enc ([5], [5]) (Some []) [6] sample_hop)) = Inl BadCiphertext"
proof -
  have "hop_seal (\<lambda>c m. m) carry_enc ([5], [5]) (Some []) [6] sample_hop =
      Inr (projr (hop_seal (\<lambda>c m. m) carry_enc ([5], [5]) (Some []) [6] sample_hop))"
    by (simp add: hop_seal_def sample_hop_def carry_enc_def circuit_binding_def prefixed_def CIRCUIT_LABEL_def
        NEXT_RELAY_LEN_def Let_def)
  from hop_opens_within_the_hour [OF carry_aead, of "\<lambda>k. k", OF refl _ this, of 12]
  show ?thesis by (simp add: sample_hop_def hop_ok_def)
qed

text \<open>A circuit through two relays comes apart one layer at a time: from the first descriptor the first relay
  reads where the exit relay is and nothing else, and from the second, which it carries, the exit relay reads
  where the circuit ends; both read the same return key.\<close>

lemma circuit_splits_between_relays:
  assumes "aead_opens enc dec" "aead_binds enc dec" "decaps1 kem1 = secret1" "decaps2 kem2 = secret2"
    and "length kem1 = CIPHERTEXT_LEN" "length kem2 = CIPHERTEXT_LEN" "length nonce1 = 24" "length nonce2 = 24"
    and "length destination = 32" "length return_key = 32" "length (ex_relay ex) = 32"
    and "utf8_valid (ex_url ex)" "0 \<notin> set (ex_url ex)"
    and "seal_circuit h enc ((kem2, secret2), Some nonce2) ((kem1, secret1), Some nonce1) ex first_relay
      destination return_key hour = Inr (outer, inner)"
  shows "\<exists>outer_hop inner_hop.
    hop_to_bytes outer_hop = outer \<and> hop_to_bytes inner_hop = inner \<and>
    hop_open h dec decaps1 first_relay hour outer_hop =
      Inr \<lparr> h_destination = ex_relay ex, h_return_key = return_key, h_next_relay = Some (ex_url ex), h_hour = hour \<rparr> \<and>
    hop_open h dec decaps2 (ex_relay ex) hour inner_hop =
      Inr \<lparr> h_destination = destination, h_return_key = return_key, h_next_relay = None, h_hour = hour \<rparr>"
proof -
  from assms(14) obtain i out where
    i: "hop_seal h enc (kem2, secret2) (Some nonce2) (ex_relay ex)
      \<lparr> h_destination = destination, h_return_key = return_key, h_next_relay = None, h_hour = hour \<rparr> = Inr i" "inner = hop_to_bytes i"
    and o: "hop_seal h enc (kem1, secret1) (Some nonce1) first_relay
      \<lparr> h_destination = ex_relay ex, h_return_key = return_key, h_next_relay = Some (ex_url ex), h_hour = hour \<rparr> = Inr out" "outer = hop_to_bytes out"
    by (auto simp: seal_circuit_def result_simps)
  have "hop_open h dec decaps1 first_relay hour out =
      Inr \<lparr> h_destination = ex_relay ex, h_return_key = return_key, h_next_relay = Some (ex_url ex), h_hour = hour \<rparr>"
    using assms(9-13) by (subst hop_open_sealed [where decaps = decaps1 and kem = kem1, OF assms(1,2,3) _ o(1)]) (simp_all add: hop_ok_def)
  moreover have "hop_open h dec decaps2 (ex_relay ex) hour i =
      Inr \<lparr> h_destination = destination, h_return_key = return_key, h_next_relay = None, h_hour = hour \<rparr>"
    using assms(9-13) by (subst hop_open_sealed [where decaps = decaps2 and kem = kem2, OF assms(1,2,4) _ i(1)]) (simp_all add: hop_ok_def)
  ultimately show ?thesis using i(2) o(2) by blast
qed

definition sample_exit :: exit_relay where
  "sample_exit = \<lparr> ex_relay = replicate 32 3, ex_key_hash = replicate 32 4, ex_url = [104] \<rparr>"

definition sample_layers :: "(access_error, bytes \<times> bytes) result" where
  "sample_layers = seal_circuit (\<lambda>c m. m) carry_enc ((replicate 1120 0, [5]), Some (replicate 24 0))
    ((replicate 1120 1, [6]), Some (replicate 24 0)) sample_exit [7] (replicate 32 8) (replicate 32 9) 5"

lemma circuit_splits_between_relays_witness:
  "\<exists>outer_hop. hop_to_bytes outer_hop = fst (projr sample_layers) \<and>
    hop_open (\<lambda>c m. m) carry_dec (\<lambda>_. [6]) [7] 5 outer_hop =
      Inr \<lparr> h_destination = replicate 32 3, h_return_key = replicate 32 9, h_next_relay = Some [104], h_hour = 5 \<rparr>"
proof -
  have "sample_layers = Inr (fst (projr sample_layers), snd (projr sample_layers))"
    by (simp add: sample_layers_def sample_exit_def seal_circuit_def hop_seal_def carry_enc_def circuit_binding_def
        prefixed_def CIRCUIT_LABEL_def NEXT_RELAY_LEN_def Let_def)
  then show ?thesis
    using circuit_splits_between_relays [OF carry_aead, of "\<lambda>_. [6]" "replicate 1120 1" "[6]" "\<lambda>_. [5]" "replicate 1120 0" "[5]"
        "replicate 24 0" "replicate 24 0" "replicate 32 8" "replicate 32 9" sample_exit "\<lambda>c m. m" "[7]" 5
        "fst (projr sample_layers)" "snd (projr sample_layers)"]
    by (auto simp: sample_layers_def sample_exit_def CIPHERTEXT_LEN_def)
qed

text \<open>A sealed hop survives the wire, and every one has the same length whatever is inside.\<close>

lemma sealed_hops_look_alike:
  assumes "aead_grows enc" "hop_seal h enc (kem, kem_secret) (Some nonce) exit_id hp = Inr s"
    and "length kem = CIPHERTEXT_LEN" "length nonce = 24"
    and "length (h_destination hp) = 32" "length (h_return_key hp) = 32"
  shows "length (hop_to_bytes s) = SEALED_HOP_LEN \<and> hop_from_bytes (hop_to_bytes s) = Inr s"
proof -
  have "sh_kem s = kem" "sh_nonce s = nonce" using assms(2) by (rule hop_sealD, simp)+
  moreover have "length (sh_sealed s) = CIRCUIT_BODY_LEN + 16"
    using length_sealed_hop [OF assms(1,2,5,6)] .
  ultimately show ?thesis
    using assms(3,4) hop_bytes_roundtrip [of s] by (simp add: hop_to_bytes_def SEALED_HOP_LEN_def)
qed

lemma sealed_hops_look_alike_witness:
  "length (hop_to_bytes \<lparr> sh_kem = replicate 1120 0, sh_nonce = replicate 24 0,
     sh_sealed = (replicate 32 1 @ replicate 32 2 @ (104 # replicate 95 0) @ [0, 0, 0, 0, 0, 0, 0, 9]) @ replicate 16 0 \<rparr>) = SEALED_HOP_LEN"
  by (rule sealed_hops_look_alike [where hp = sample_hop and h = "\<lambda>c m. m" and exit_id = "[]" and
        kem = "replicate 1120 0" and nonce = "replicate 24 0", OF sample_aead(2), THEN conjunct1])
    (simp_all add: hop_seal_def sample_hop_def sample_enc_def circuit_consts u64_be_eval Let_def)

end
