(* ===== verification/Sealed_Storage.thy ===== *)
theory Sealed_Storage
  imports Rotelyx_Prelude
begin

text \<open>
  State at rest: the sealed file format of \<^verbatim>\<open>crates/rotelyx-core/src/sealed.rs\<close>, and backups with their
  high-water mark, \<^verbatim>\<open>crates/rotelyx-core/src/backup.rs\<close>.  Argon2id and XChaCha20-Poly1305 come from
  third-party crates and are parameters.  The mark is a file: its text, or \<^term>\<open>None\<close> where there is none.
\<close>

section \<open>Sealed files\<close>

definition SEAL_MAGIC :: bytes where "SEAL_MAGIC = ascii ''ROTELYX'' @ [1]"
definition SEAL_VERSION :: u8 where "SEAL_VERSION = 1"
definition SALT_LEN :: nat where "SALT_LEN = 16"
definition XNONCE_LEN :: nat where "XNONCE_LEN = 24"
definition KEY_LEN :: nat where "KEY_LEN = 32"
definition SECRET_LEN :: nat where "SECRET_LEN = 32"
definition MIN_BYTES_LEN :: nat where
  "MIN_BYTES_LEN = length SEAL_MAGIC + 1 + SALT_LEN + XNONCE_LEN + 16"

lemma length_SEAL_MAGIC [simp]: "length SEAL_MAGIC = 8"
  by (simp add: SEAL_MAGIC_def)

lemmas seal_consts = SEAL_VERSION_def SALT_LEN_def XNONCE_LEN_def KEY_LEN_def SECRET_LEN_def MIN_BYTES_LEN_def

datatype seal_error =
    SealBadMagic
  | SealUnsupportedVersion u8 u8
  | SealTruncated nat nat
  | Unopenable
  | Kdf
  | SealEntropy

text \<open>\<open>argon input salt\<close> is the 32-byte key, or the crate's error.\<close>

definition seal_derive_key :: "(bytes \<Rightarrow> bytes \<Rightarrow> bytes option) \<Rightarrow> bytes \<Rightarrow> bytes \<Rightarrow> (seal_error, bytes) result" where
  "seal_derive_key argon passphrase salt =
     ok_or Kdf (argon (ascii ''rotelyx sealed identity v1'' @ passphrase) salt)"

definition seal_bytes ::
  "(bytes \<Rightarrow> bytes \<Rightarrow> bytes option) \<Rightarrow> aead_enc \<Rightarrow> bytes option \<Rightarrow> bytes option \<Rightarrow> bytes \<Rightarrow> bytes \<Rightarrow>
    (seal_error, bytes) result" where
  "seal_bytes argon enc salt_draw nonce_draw plaintext passphrase =
     bind_result (ok_or SealEntropy salt_draw) (\<lambda>salt.
     bind_result (ok_or SealEntropy nonce_draw) (\<lambda>nonce.
     bind_result (seal_derive_key argon passphrase salt) (\<lambda>key.
       let hd = SEAL_MAGIC @ [SEAL_VERSION] @ salt @ nonce
       in bind_result (ok_or Kdf (enc key nonce hd plaintext)) (\<lambda>ciphertext. Inr (hd @ ciphertext)))))"

definition open_bytes ::
  "(bytes \<Rightarrow> bytes \<Rightarrow> bytes option) \<Rightarrow> aead_dec \<Rightarrow> bytes \<Rightarrow> bytes \<Rightarrow> (seal_error, bytes) result" where
  "open_bytes argon dec bs passphrase =
     (if length bs < MIN_BYTES_LEN then Inl (SealTruncated (length bs) MIN_BYTES_LEN)
      else if take (length SEAL_MAGIC) bs \<noteq> SEAL_MAGIC then Inl SealBadMagic
      else
        let version = bs ! length SEAL_MAGIC
        in if version \<noteq> SEAL_VERSION then Inl (SealUnsupportedVersion version SEAL_VERSION)
           else
             let salt_at = length SEAL_MAGIC + 1;
                 nonce_at = salt_at + SALT_LEN;
                 body_at = nonce_at + XNONCE_LEN;
                 salt = take SALT_LEN (drop salt_at bs);
                 nonce = take XNONCE_LEN (drop nonce_at bs);
                 hd = take body_at bs
             in bind_result (seal_derive_key argon passphrase salt) (\<lambda>key.
                  ok_or Unopenable (dec key nonce hd (drop body_at bs))))"

definition is_sealed :: "bytes \<Rightarrow> bool" where
  "is_sealed bs \<longleftrightarrow> length SEAL_MAGIC \<le> length bs \<and> take (length SEAL_MAGIC) bs = SEAL_MAGIC"

text \<open>Opening an identity: what was sealed has to be exactly a secret key.\<close>

definition open_identity ::
  "(bytes \<Rightarrow> bytes \<Rightarrow> bytes option) \<Rightarrow> aead_dec \<Rightarrow> bytes \<Rightarrow> bytes \<Rightarrow> (seal_error, bytes) result" where
  "open_identity argon dec bs passphrase =
     bind_result (open_bytes argon dec bs passphrase) (\<lambda>plain.
       if length plain \<noteq> SECRET_LEN then Inl (SealTruncated (length plain) SECRET_LEN) else Inr plain)"

section \<open>Backups\<close>

definition BACKUP_MAGIC :: bytes where "BACKUP_MAGIC = ascii ''RTLXBAK'' @ [0]"
definition BACKUP_VERSION :: u8 where "BACKUP_VERSION = 1"
definition BACKUP_HEADER_LEN :: nat where "BACKUP_HEADER_LEN = 8 + 1 + 8 + 8 + 8 + 4"

lemma length_BACKUP_MAGIC [simp]: "length BACKUP_MAGIC = 8"
  by (simp add: BACKUP_MAGIC_def)

datatype backup_error =
    BadMagic
  | UnsupportedVersion u8 u8
  | BackupTruncated nat nat
  | Rollback u64 u64
  | Seal seal_error

record backup =
  bk_sequence :: u64
  bk_epoch :: u64
  bk_created_at_epoch :: u64
  bk_state :: bytes

definition backup_payload :: "backup \<Rightarrow> bytes" where
  "backup_payload b =
     BACKUP_MAGIC @ [BACKUP_VERSION] @ u64_be (bk_sequence b) @ u64_be (bk_epoch b) @
     u64_be (bk_created_at_epoch b) @ u32_be (word_of_nat (length (bk_state b))) @ bk_state b"

definition backup_seal ::
  "(bytes \<Rightarrow> bytes \<Rightarrow> bytes option) \<Rightarrow> aead_enc \<Rightarrow> bytes option \<Rightarrow> bytes option \<Rightarrow> backup \<Rightarrow> bytes \<Rightarrow>
    (backup_error, bytes) result" where
  "backup_seal argon enc salt_draw nonce_draw b passphrase =
     map_err Seal (seal_bytes argon enc salt_draw nonce_draw (backup_payload b) passphrase)"

definition u64_at :: "bytes \<Rightarrow> nat \<Rightarrow> u64" where
  "u64_at bs at = word_of_nat (of_be (take 8 (drop at bs)))"

definition read_payload :: "bytes \<Rightarrow> (backup_error, backup) result" where
  "read_payload payload =
     (if length payload < BACKUP_HEADER_LEN then Inl (BackupTruncated (length payload) BACKUP_HEADER_LEN)
      else if take 8 payload \<noteq> BACKUP_MAGIC then Inl BadMagic
      else if payload ! 8 \<noteq> BACKUP_VERSION then Inl (UnsupportedVersion (payload ! 8) BACKUP_VERSION)
      else
        let len = unat (word_of_nat (of_be (take 4 (drop 33 payload))) :: u32)
        in if length payload < BACKUP_HEADER_LEN + len
           then Inl (BackupTruncated (length payload) (BACKUP_HEADER_LEN + len))
           else Inr \<lparr> bk_sequence = u64_at payload 9, bk_epoch = u64_at payload 17,
                      bk_created_at_epoch = u64_at payload 25,
                      bk_state = take len (drop BACKUP_HEADER_LEN payload) \<rparr>)"

definition backup_open ::
  "(bytes \<Rightarrow> bytes \<Rightarrow> bytes option) \<Rightarrow> aead_dec \<Rightarrow> bytes \<Rightarrow> bytes \<Rightarrow> (backup_error, backup) result" where
  "backup_open argon dec bs passphrase =
     bind_result (map_err Seal (open_bytes argon dec bs passphrase)) read_payload"

section \<open>The high-water mark\<close>

text \<open>Decimal text: \<^verbatim>\<open>format!\<close> of a number, and \<^verbatim>\<open>trim().parse::<u64>()\<close> of ASCII text.\<close>

fun decimal :: "nat \<Rightarrow> string" where
  "decimal n = (if n < 10 then [char_of (48 + n)] else decimal (n div 10) @ [char_of (48 + n mod 10)])"

declare decimal.simps [simp del]

definition digit_value :: "char \<Rightarrow> nat option" where
  "digit_value c = (let n = of_char c in if 48 \<le> n \<and> n \<le> 57 then Some (n - 48) else None)"

fun digits_value :: "nat \<Rightarrow> string \<Rightarrow> nat option" where
  "digits_value acc [] = Some acc"
| "digits_value acc (c # cs) =
     (case digit_value c of None \<Rightarrow> None | Some d \<Rightarrow> digits_value (acc * 10 + d) cs)"

definition parse_u64 :: "string \<Rightarrow> u64 option" where
  "parse_u64 s =
     (let ds = (case s of c # cs \<Rightarrow> if c = CHR ''+'' then cs else s | [] \<Rightarrow> [])
      in if ds = [] then None
         else case digits_value 0 ds of
                None \<Rightarrow> None
              | Some n \<Rightarrow> if n < 2 ^ 64 then Some (word_of_nat n) else None)"

definition high_water :: "string option \<Rightarrow> u64" where
  "high_water mark =
     (case mark of None \<Rightarrow> 0
      | Some text \<Rightarrow> (case parse_u64 (trim text) of None \<Rightarrow> 0 | Some n \<Rightarrow> n))"

definition record_epoch :: "string option \<Rightarrow> u64 \<Rightarrow> string option" where
  "record_epoch mark epoch =
     (let seen = high_water mark
      in if epoch \<le> seen then mark else Some (decimal (unat epoch) @ [CHR 0x0A]))"

definition refuse_rollback :: "string option \<Rightarrow> backup \<Rightarrow> (backup_error, unit) result" where
  "refuse_rollback mark b =
     (let seen = high_water mark
      in if bk_epoch b < seen then Inl (Rollback (bk_epoch b) seen) else Inr ())"

section \<open>Files read back\<close>

lemma open_seal_bytes:
  assumes "aead_opens enc dec" "aead_grows enc" "length salt = SALT_LEN" "length nonce = XNONCE_LEN"
    and "seal_bytes argon enc (Some salt) (Some nonce) plaintext passphrase = Inr bs"
  shows "open_bytes argon dec bs passphrase = Inr plaintext \<and> is_sealed bs"
proof -
  let ?hd = "SEAL_MAGIC @ [SEAL_VERSION] @ salt @ nonce"
  from assms(5) obtain key c where key: "seal_derive_key argon passphrase salt = Inr key"
    and c: "enc key nonce ?hd plaintext = Some c" and bs: "bs = ?hd @ c"
    by (auto simp: seal_bytes_def result_simps Let_def)
  have len: "length ?hd = 49" using assms(3,4) by (simp add: seal_consts)
  have "length c = length plaintext + 16" using assms(2) c by (auto simp: aead_grows_def)
  then have "\<not> length bs < MIN_BYTES_LEN" using len by (simp add: bs seal_consts)
  moreover have "take 49 bs = ?hd" "drop 49 bs = c" using len unfolding bs by simp_all
  moreover have "bs ! 8 = SEAL_VERSION" "take 8 bs = SEAL_MAGIC" "take SALT_LEN (drop 9 bs) = salt"
    "take XNONCE_LEN (drop 25 bs) = nonce" "8 \<le> length bs"
    using assms(3,4) by (simp_all add: bs nth_append seal_consts)
  ultimately show ?thesis
    using aead_opensD [OF assms(1) c] key
    by (simp add: open_bytes_def is_sealed_def SALT_LEN_def XNONCE_LEN_def)
qed

text \<open>The length field has 32 bits: a longer state comes back cut to its length modulo \<open>2 ^ 32\<close>.\<close>

lemma read_payload_roundtrip:
  "read_payload (backup_payload b) = Inr (b\<lparr>bk_state := take (length (bk_state b) mod 2 ^ 32) (bk_state b)\<rparr>)"
proof -
  have "length (bk_state b) mod 2 ^ 32 \<le> length (bk_state b)" by (rule mod_less_eq_dividend)
  then show ?thesis
    by (simp add: read_payload_def backup_payload_def BACKUP_HEADER_LEN_def u64_at_def nth_append unat_of_nat
        BACKUP_VERSION_def Let_def)
qed

lemma digit_value_char: "d < 10 \<Longrightarrow> digit_value (char_of (48 + d)) = Some d"
  by (simp add: digit_value_def of_char_of)

lemma digits_value_append:
  "digits_value acc (xs @ ys) = Option.bind (digits_value acc xs) (\<lambda>a. digits_value a ys)"
  by (induction acc xs rule: digits_value.induct) (auto split: option.splits)

lemma digits_value_decimal: "digits_value 0 (decimal n) = Some n"
proof (induction n rule: decimal.induct)
  case (1 n)
  show ?case
  proof (cases "n < 10")
    case True
    then show ?thesis using digit_value_char [of n] by (simp add: decimal.simps [of n])
  next
    case False
    then show ?thesis
      using 1 digit_value_char [of "n mod 10"]
      by (simp add: decimal.simps [of n] digits_value_append)
  qed
qed

lemma decimal_digits: "c \<in> set (decimal n) \<Longrightarrow> \<exists>d<10 :: nat. c = char_of (48 + d)"
proof (induction n rule: decimal.induct)
  case (1 n)
  then show ?case by (subst (asm) (2) decimal.simps) (auto split: if_splits intro: exI [of _ "n mod 10"])
qed

lemma decimal_not_Nil: "decimal n \<noteq> []"
  by (subst decimal.simps) simp

lemma parse_decimal:
  assumes "n < 2 ^ 64"
  shows "parse_u64 (trim (decimal n @ [CHR 0x0A])) = Some (word_of_nat n)"
proof -
  have ws: "\<not> whitespace c \<and> c \<noteq> CHR ''+''" if c: "c \<in> set (decimal n)" for c
  proof -
    obtain d where "d < (10 :: nat)" "c = char_of (48 + d)" using decimal_digits [OF c] by blast
    then have "digit_value c = Some d" by (simp add: digit_value_char)
    then show ?thesis by (auto simp: digit_value_def whitespace_def Let_def split: if_splits)
  qed
  have keep: "dropWhile whitespace xs = xs" if "\<forall>c\<in>set xs. \<not> whitespace c" for xs
    using that by (cases xs) auto
  obtain c cs where dec: "decimal n = c # cs" using decimal_not_Nil [of n] by (cases "decimal n") auto
  have "dropWhile whitespace (decimal n @ [CHR 0x0A]) = decimal n @ [CHR 0x0A]"
    using ws [of c] by (simp add: dec)
  moreover have "whitespace (CHR 0x0A)" by (simp add: whitespace_def)
  moreover have "dropWhile whitespace (rev (decimal n)) = rev (decimal n)"
    using ws by (intro keep) simp
  ultimately have "trim (decimal n @ [CHR 0x0A]) = decimal n" by (simp add: trim_def)
  moreover have "c \<noteq> CHR ''+''" using ws [of c] by (simp add: dec)
  ultimately show ?thesis
    using assms digits_value_decimal [of n] by (simp add: parse_u64_def dec)
qed

lemma high_water_record: "high_water (record_epoch mark e) = max (high_water mark) e"
  using parse_decimal [of "unat e"]
  by (auto simp: record_epoch_def Let_def high_water_def max_def)

lemma high_water_run: "high_water (fold (\<lambda>e mark. record_epoch mark e) es mark) = fold max es (high_water mark)"
  by (induction es arbitrary: mark) (simp_all add: high_water_record max.commute)

lemma fold_max_le: "fold max es a \<le> b \<longleftrightarrow> a \<le> b \<and> (\<forall>e\<in>set es. e \<le> (b :: u64))"
  by (induction es arbitrary: a) auto

section \<open>Properties\<close>

text \<open>What is sealed under a passphrase opens under it, whatever was sealed and however short, and is
  recognised as sealed.\<close>

lemma sealed_file_opens:
  assumes "aead_opens enc dec" "aead_grows enc" "length salt = SALT_LEN" "length nonce = XNONCE_LEN"
    and "seal_bytes argon enc (Some salt) (Some nonce) plaintext passphrase = Inr bs"
  shows "open_bytes argon dec bs passphrase = Inr plaintext \<and> is_sealed bs"
  using assms by (rule open_seal_bytes)

lemma sealed_file_opens_witness:
  "open_bytes (\<lambda>p s. Some p) sample_dec
    (SEAL_MAGIC @ [1] @ replicate 16 2 @ replicate 24 3 @ [7] @ replicate 16 0) [9] = Inr [7]"
  by (rule sealed_file_opens [where salt = "replicate 16 2" and nonce = "replicate 24 3", OF sample_aead, THEN conjunct1])
    (simp_all add: seal_consts seal_bytes_def seal_derive_key_def sample_enc_def Let_def)

text \<open>A backup survives the round trip, with every field; a state of \<open>2 ^ 32\<close> bytes or more comes back cut,
  without an error, to its length modulo \<open>2 ^ 32\<close>.\<close>

lemma backup_survives:
  assumes "aead_opens enc dec" "aead_grows enc" "length salt = SALT_LEN" "length nonce = XNONCE_LEN"
    and "backup_seal argon enc (Some salt) (Some nonce) b passphrase = Inr bs"
  shows "backup_open argon dec bs passphrase =
    Inr (b\<lparr>bk_state := take (length (bk_state b) mod 2 ^ 32) (bk_state b)\<rparr>)"
proof -
  have "seal_bytes argon enc (Some salt) (Some nonce) (backup_payload b) passphrase = Inr bs"
    using assms(5) by (simp add: backup_seal_def result_simps)
  then have "open_bytes argon dec bs passphrase = Inr (backup_payload b)"
    using open_seal_bytes [OF assms(1-4)] by blast
  then show ?thesis by (simp add: backup_open_def read_payload_roundtrip)
qed

definition sample_backup :: backup where
  "sample_backup = \<lparr> bk_sequence = 7, bk_epoch = 41, bk_created_at_epoch = 480000, bk_state = [1, 2, 3] \<rparr>"

lemma backup_survives_witness:
  "backup_open (\<lambda>p s. Some p) sample_dec
    (SEAL_MAGIC @ [1] @ replicate 16 2 @ replicate 24 3 @ backup_payload sample_backup @ replicate 16 0) [9] = Inr sample_backup"
proof -
  have "backup_seal (\<lambda>p s. Some p) sample_enc (Some (replicate 16 2)) (Some (replicate 24 3)) sample_backup [9] =
      Inr (SEAL_MAGIC @ [1] @ replicate 16 2 @ replicate 24 3 @ backup_payload sample_backup @ replicate 16 0)"
    by (simp add: backup_seal_def seal_bytes_def seal_derive_key_def sample_enc_def SEAL_VERSION_def Let_def)
  from backup_survives [OF sample_aead _ _ this] show ?thesis
    by (simp add: seal_consts sample_backup_def)
qed

text \<open>A device is not rewound: whatever epochs it has recorded, in whatever order, its mark is the furthest,
  and a backup may be restored exactly when it is at none of them an older epoch.\<close>

lemma rollback_is_refused:
  "(refuse_rollback (fold (\<lambda>e mark. record_epoch mark e) es None) b = Inr () \<longleftrightarrow> (\<forall>e\<in>set es. e \<le> bk_epoch b)) \<and>
   high_water (fold (\<lambda>e mark. record_epoch mark e) es None) = fold max es 0"
proof -
  have "high_water (fold (\<lambda>e mark. record_epoch mark e) es None) = fold max es 0"
    using high_water_run [of es None] by (simp add: high_water_def [of None])
  then show ?thesis using fold_max_le [of es 0 "bk_epoch b"] by (auto simp: refuse_rollback_def Let_def not_less)
qed

lemma rollback_is_refused_witness:
  "refuse_rollback (fold (\<lambda>e mark. record_epoch mark e) [40, 42, 41] None) sample_backup \<noteq> Inr ()"
  using rollback_is_refused [of "[40, 42, 41]" sample_backup] by (simp add: sample_backup_def)

end
