(* ===== verification/Admission_Gate.thy ===== *)
theory Admission_Gate
  imports Rotelyx_Prelude "HOL-Library.AList"
begin

text \<open>
  What the relay's limiter and the mailbox server's have in common: the contract of a gate that admits
  connections one by one and is told when each ends, with a cap in total and a cap for each key it limits,
  and the token buckets they keep.  Tokens are floating-point numbers: their operations are the fields of
  a \<open>token_clock\<close>, and no claim about the caps depends on them.
\<close>

section \<open>Buckets\<close>

record 'f token_clock =
  tc_burst :: 'f
  tc_refill :: "'f \<Rightarrow> nat \<Rightarrow> 'f"
  tc_has_one :: "'f \<Rightarrow> bool"
  tc_spend :: "'f \<Rightarrow> 'f"

record 'f bucket =
  bk_tokens :: 'f
  bk_refilled :: nat
  bk_open :: nat

definition open_in :: "('k \<times> 'f bucket) list \<Rightarrow> 'k \<Rightarrow> nat" where
  "open_in m k = (case map_of m k of None \<Rightarrow> 0 | Some b \<Rightarrow> bk_open b)"

definition retain_buckets :: "('f bucket \<Rightarrow> bool) \<Rightarrow> ('k \<times> 'f bucket) list \<Rightarrow> ('k \<times> 'f bucket) list" where
  "retain_buckets p m = filter (\<lambda>(k, b). p b) m"

lemma open_in_update [simp]: "open_in (AList.update k b m) j = (if j = k then bk_open b else open_in m j)"
  by (simp add: open_in_def update_conv')

text \<open>A table has one bucket for each key; forgetting buckets that hold nothing changes no count.\<close>

definition table_ok :: "('k \<times> 'v) list \<Rightarrow> bool" where
  "table_ok m \<longleftrightarrow> distinct (map fst m)"

lemma table_ok_update [simp]: "table_ok m \<Longrightarrow> table_ok (AList.update k b m)"
  by (simp add: table_ok_def distinct_update)

lemma table_ok_retain [simp]: "table_ok m \<Longrightarrow> table_ok (retain_buckets p m)"
  by (simp add: table_ok_def retain_buckets_def distinct_map_filter)

lemma open_in_retain:
  assumes "table_ok m" "\<And>b. \<not> p b \<Longrightarrow> bk_open b = 0"
  shows "open_in (retain_buckets p m) k = open_in m k"
  using assms(1)
proof (induction m)
  case Nil
  then show ?case by (simp add: retain_buckets_def)
next
  case (Cons x m)
  obtain j b where x: "x = (j, b)" by (cases x)
  from Cons.prems have "table_ok m" "map_of m j = None" by (auto simp: table_ok_def x map_of_eq_None_iff)
  then have ih: "open_in (retain_buckets p m) k = open_in m k" and none: "open_in m j = 0"
    using Cons.IH by (simp_all add: open_in_def)
  show ?case
  proof (cases "p b")
    case True
    then have "retain_buckets p (x # m) = x # retain_buckets p m" by (simp add: retain_buckets_def x)
    then show ?thesis using ih by (simp add: open_in_def x)
  next
    case False
    then have "retain_buckets p (x # m) = retain_buckets p m" by (simp add: retain_buckets_def x)
    then show ?thesis using ih none assms(2) [OF False] by (cases "k = j") (simp_all add: x open_in_def)
  qed
qed

section \<open>The contract\<close>

datatype 'k conn = Arrive 'k nat | Depart 'k

text \<open>
  One event: an arrival holds a slot when it is admitted; a departure gives back a slot that is held.
\<close>

fun gate_step ::
  "('s \<Rightarrow> 'k \<Rightarrow> nat \<Rightarrow> 's \<times> bool) \<Rightarrow> ('s \<Rightarrow> 'k \<Rightarrow> 's) \<Rightarrow> 'k conn \<Rightarrow> 's \<times> 'k list \<Rightarrow> 's \<times> 'k list" where
  "gate_step admit release (Arrive k t) (s, held) =
     (case admit s k t of (s', ok) \<Rightarrow> (s', if ok then k # held else held))"
| "gate_step admit release (Depart k) (s, held) =
     (if k \<in> set held then (release s k, remove1 k held) else (s, held))"

locale admission_gate =
  fixes admit :: "'s \<Rightarrow> 'k \<Rightarrow> nat \<Rightarrow> 's \<times> bool"
    and release :: "'s \<Rightarrow> 'k \<Rightarrow> 's"
    and ok :: "'s \<Rightarrow> bool"
    and total :: "'s \<Rightarrow> nat"
    and open_of :: "'s \<Rightarrow> 'k \<Rightarrow> nat"
    and limited :: "'k \<Rightarrow> bool"
    and cap_total :: nat
    and cap_key :: nat
  assumes admit_ok: "ok s \<Longrightarrow> ok (fst (admit s k t))"
    and release_ok: "ok s \<Longrightarrow> ok (release s k)"
    and admit_total: "ok s \<Longrightarrow> total (fst (admit s k t)) = total s + (if snd (admit s k t) then 1 else 0)"
    and admit_open: "ok s \<Longrightarrow> limited j \<Longrightarrow>
      open_of (fst (admit s k t)) j = open_of s j + (if snd (admit s k t) \<and> j = k then 1 else 0)"
    and admit_caps: "ok s \<Longrightarrow> snd (admit s k t) \<Longrightarrow>
      total s < cap_total \<and> (limited k \<longrightarrow> open_of s k < cap_key)"
    and release_total: "ok s \<Longrightarrow> total (release s k) = total s - 1"
    and release_open: "ok s \<Longrightarrow> limited j \<Longrightarrow> open_of (release s k) j = (if j = k then open_of s j - 1 else open_of s j)"
begin

definition counts :: "'s \<times> 'k list \<Rightarrow> bool" where
  "counts sh \<longleftrightarrow> (case sh of (s, held) \<Rightarrow>
     ok s \<and> total s = length held \<and> length held \<le> cap_total \<and>
     (\<forall>k. limited k \<longrightarrow> open_of s k = count_list held k \<and> count_list held k \<le> cap_key))"

lemma counts_step:
  assumes "counts (s, held)"
  shows "counts (gate_step admit release e (s, held))"
proof (cases e)
  case (Arrive k t)
  have "ok s" using assms by (simp add: counts_def)
  note admit = admit_ok [OF this, of k t] admit_total [OF this, of k t] admit_open [OF this, of _ k t]
    admit_caps [OF this, of k t]
  show ?thesis using assms admit by (cases "snd (admit s k t)") (auto simp: counts_def Arrive case_prod_unfold)
next
  case (Depart k)
  have c: "count_list (remove1 k held) j = (if j = k then count_list held j - 1 else count_list held j)" for j
    by (induction held) auto
  have "ok s" using assms by (simp add: counts_def)
  then show ?thesis
    using assms release_ok release_total [of s k] release_open [of s _ k]
    by (auto simp: counts_def Depart c length_remove1)
qed

lemma counts_run: "counts sh \<Longrightarrow> counts (fold (gate_step admit release) es sh)"
proof (induction es arbitrary: sh)
  case (Cons e es)
  then show ?case using counts_step [of "fst sh" "snd sh" e] by simp
qed simp

text \<open>From an empty gate: the books balance and the caps hold after any arrivals and departures.\<close>

lemma books_balance:
  assumes "ok s" "total s = 0" "\<forall>k. limited k \<longrightarrow> open_of s k = 0"
    and "fold (gate_step admit release) es (s, []) = (s', held)"
  shows "total s' = length held \<and> length held \<le> cap_total \<and>
    (\<forall>k. limited k \<longrightarrow> open_of s' k = count_list held k \<and> count_list held k \<le> cap_key)"
proof -
  have "counts (s, [])" using assms(1-3) by (simp add: counts_def)
  then show ?thesis using counts_run [of "(s, [])" es] assms(4) by (simp add: counts_def)
qed

end

end
