(* ===== verification/Relay_Limits.thy ===== *)
theory Relay_Limits
  imports Admission_Gate
begin

text \<open>
  Admission control of the relay, \<^verbatim>\<open>crates/rotelyx-relay/src/limits.rs\<close>.  Instants are nanoseconds, and
  \<^verbatim>\<open>duration_since\<close> saturates.  The mutex makes each operation one step.
\<close>

definition PER_ENDPOINT_CONNECTIONS :: nat where "PER_ENDPOINT_CONNECTIONS = 8"
definition TOTAL_CONNECTIONS :: nat where "TOTAL_CONNECTIONS = 4096"
definition FORGET_AFTER :: nat where "FORGET_AFTER = 600 * 10 ^ 9"

record ('k, 'f) relay_state =
  rs_buckets :: "('k \<times> 'f bucket) list"
  rs_total_open :: nat
  rs_refused_rate :: nat
  rs_refused_concurrent :: nat
  rs_refused_total :: nat

definition relay_state_new :: "('k, 'f) relay_state" where
  "relay_state_new = \<lparr> rs_buckets = [], rs_total_open = 0, rs_refused_rate = 0, rs_refused_concurrent = 0,
     rs_refused_total = 0 \<rparr>"

definition relay_refusals :: "('k, 'f) relay_state \<Rightarrow> nat \<times> nat \<times> nat" where
  "relay_refusals s = (rs_refused_rate s, rs_refused_concurrent s, rs_refused_total s)"

definition relay_open :: "('k, 'f) relay_state \<Rightarrow> nat" where
  "relay_open s = rs_total_open s"

definition relay_admit ::
  "'f token_clock \<Rightarrow> ('k, 'f) relay_state \<Rightarrow> 'k \<Rightarrow> nat \<Rightarrow> ('k, 'f) relay_state \<times> bool" where
  "relay_admit fl s endpoint now =
     (if TOTAL_CONNECTIONS \<le> rs_total_open s
      then (s\<lparr>rs_refused_total := rs_refused_total s + 1\<rparr>, False)
      else
        let s = (if 1024 < length (rs_buckets s)
                 then s\<lparr>rs_buckets := retain_buckets (\<lambda>b. 0 < bk_open b \<or> now - bk_refilled b < FORGET_AFTER) (rs_buckets s)\<rparr>
                 else s);
            b = (case map_of (rs_buckets s) endpoint of
                   Some b \<Rightarrow> b
                 | None \<Rightarrow> \<lparr> bk_tokens = tc_burst fl, bk_refilled = now, bk_open = 0 \<rparr>);
            b = b\<lparr>bk_tokens := tc_refill fl (bk_tokens b) (now - bk_refilled b), bk_refilled := now\<rparr>;
            s = s\<lparr>rs_buckets := AList.update endpoint b (rs_buckets s)\<rparr>
        in if PER_ENDPOINT_CONNECTIONS \<le> bk_open b
           then (s\<lparr>rs_refused_concurrent := rs_refused_concurrent s + 1\<rparr>, False)
           else if \<not> tc_has_one fl (bk_tokens b)
           then (s\<lparr>rs_refused_rate := rs_refused_rate s + 1\<rparr>, False)
           else
             (s\<lparr>rs_buckets := AList.update endpoint (b\<lparr>bk_tokens := tc_spend fl (bk_tokens b), bk_open := bk_open b + 1\<rparr>) (rs_buckets s),
                rs_total_open := rs_total_open s + 1\<rparr>, True))"

definition relay_released :: "('k, 'f) relay_state \<Rightarrow> 'k \<Rightarrow> ('k, 'f) relay_state" where
  "relay_released s endpoint =
     (let s = s\<lparr>rs_total_open := rs_total_open s - 1\<rparr>
      in case map_of (rs_buckets s) endpoint of
           None \<Rightarrow> s
         | Some b \<Rightarrow> s\<lparr>rs_buckets := AList.update endpoint (b\<lparr>bk_open := bk_open b - 1\<rparr>) (rs_buckets s)\<rparr>)"

text \<open>
  \<^verbatim>\<open>Limited::on_connect\<close>: the inner decision (\<open>None\<close> allows, a reason denies) comes first, and only an allowed
  endpoint reaches the limiter.
\<close>

definition limited_on_connect ::
  "'f token_clock \<Rightarrow> ('k, 'f) relay_state \<Rightarrow> string option option \<Rightarrow> 'k \<Rightarrow> nat \<Rightarrow>
    ('k, 'f) relay_state \<times> string option option" where
  "limited_on_connect fl s inner endpoint now =
     (case inner of
        Some reason \<Rightarrow> (s, Some reason)
      | None \<Rightarrow>
          (case relay_admit fl s endpoint now of
             (s', True) \<Rightarrow> (s', None)
           | (s', False) \<Rightarrow> (s', Some (Some ''not permitted''))))"

section \<open>The relay's limiter is an admission gate\<close>

definition relay_ok :: "('k, 'f) relay_state \<Rightarrow> bool" where
  "relay_ok s \<longleftrightarrow> table_ok (rs_buckets s)"

definition relay_open_of :: "('k, 'f) relay_state \<Rightarrow> 'k \<Rightarrow> nat" where
  "relay_open_of s k = open_in (rs_buckets s) k"

lemma bucket_open: "bk_open (case map_of m k of Some b \<Rightarrow> b | None \<Rightarrow> \<lparr> bk_tokens = x, bk_refilled = t, bk_open = 0 \<rparr>) = open_in m k"
  by (simp add: open_in_def split: option.splits)

text \<open>The table an arrival meets, swept or not, and what \<open>relay_admit\<close> is over it.\<close>

lemma relay_admit_cases:
  assumes "relay_ok s"
  obtains (full) "TOTAL_CONNECTIONS \<le> rs_total_open s"
      "relay_admit fl s k now = (s\<lparr>rs_refused_total := rs_refused_total s + 1\<rparr>, False)"
  | (refused) m b s' where "relay_admit fl s k now = (s', False)" "rs_total_open s' = rs_total_open s"
      "rs_buckets s' = AList.update k b m" "table_ok m" "\<And>j. open_in m j = open_in (rs_buckets s) j" "bk_open b = open_in m k"
  | (admitted) m b s' where "relay_admit fl s k now = (s', True)" "rs_total_open s' = rs_total_open s + 1"
      "rs_total_open s < TOTAL_CONNECTIONS" "open_in m k < PER_ENDPOINT_CONNECTIONS"
      "rs_buckets s' = AList.update k b m" "table_ok m"
      "\<And>j. open_in m j = open_in (rs_buckets s) j" "bk_open b = open_in m k + 1"
proof (cases "TOTAL_CONNECTIONS \<le> rs_total_open s")
  case True
  then show ?thesis using full by (simp add: relay_admit_def)
next
  case False
  define m where "m = (if 1024 < length (rs_buckets s)
      then retain_buckets (\<lambda>b. 0 < bk_open b \<or> now - bk_refilled b < FORGET_AFTER) (rs_buckets s) else rs_buckets s)"
  have m: "table_ok m" "open_in m j = open_in (rs_buckets s) j" for j
    using assms by (auto simp: m_def relay_ok_def intro!: open_in_retain)
  define b0 where "b0 = (case map_of m k of Some b \<Rightarrow> b | None \<Rightarrow> \<lparr> bk_tokens = tc_burst fl, bk_refilled = now, bk_open = 0 \<rparr>)"
  define b where "b = b0\<lparr>bk_tokens := tc_refill fl (bk_tokens b0) (now - bk_refilled b0), bk_refilled := now\<rparr>"
  have b: "bk_open b = open_in m k" by (simp add: b_def b0_def bucket_open)
  have eq: "relay_admit fl s k now =
     (if PER_ENDPOINT_CONNECTIONS \<le> bk_open b
      then (s\<lparr>rs_buckets := AList.update k b m, rs_refused_concurrent := rs_refused_concurrent s + 1\<rparr>, False)
      else if \<not> tc_has_one fl (bk_tokens b)
      then (s\<lparr>rs_buckets := AList.update k b m, rs_refused_rate := rs_refused_rate s + 1\<rparr>, False)
      else (s\<lparr>rs_buckets := AList.update k (b\<lparr>bk_tokens := tc_spend fl (bk_tokens b), bk_open := bk_open b + 1\<rparr>) m,
              rs_total_open := rs_total_open s + 1\<rparr>, True))"
    using False unfolding b_def b0_def m_def relay_admit_def by (simp add: Let_def cong: if_cong option.case_cong)
  consider "PER_ENDPOINT_CONNECTIONS \<le> bk_open b" | "bk_open b < PER_ENDPOINT_CONNECTIONS" "\<not> tc_has_one fl (bk_tokens b)"
    | "bk_open b < PER_ENDPOINT_CONNECTIONS" "tc_has_one fl (bk_tokens b)" by linarith
  then show ?thesis
  proof cases
    case 1
    then have "relay_admit fl s k now =
      (s\<lparr>rs_buckets := AList.update k b m, rs_refused_concurrent := rs_refused_concurrent s + 1\<rparr>, False)" using eq by simp
    then show ?thesis by (rule refused [of _ b m]) (simp_all add: m b)
  next
    case 2
    then have "relay_admit fl s k now =
      (s\<lparr>rs_buckets := AList.update k b m, rs_refused_rate := rs_refused_rate s + 1\<rparr>, False)" using eq by simp
    then show ?thesis by (rule refused [of _ b m]) (simp_all add: m b)
  next
    case 3
    then have "relay_admit fl s k now =
      (s\<lparr>rs_buckets := AList.update k (b\<lparr>bk_tokens := tc_spend fl (bk_tokens b), bk_open := bk_open b + 1\<rparr>) m,
         rs_total_open := rs_total_open s + 1\<rparr>, True)" using eq by simp
    then show ?thesis
      by (rule admitted [of _ m "b\<lparr>bk_tokens := tc_spend fl (bk_tokens b), bk_open := bk_open b + 1\<rparr>"])
        (use 3 False m b in simp_all)
  qed
qed

lemma relay_released_facts:
  "relay_ok s \<Longrightarrow> relay_ok (relay_released s k)"
  "rs_total_open (relay_released s k) = rs_total_open s - 1"
  "relay_open_of (relay_released s k) j = (if j = k then relay_open_of s j - 1 else relay_open_of s j)"
  by (auto simp: relay_released_def relay_ok_def relay_open_of_def open_in_def update_conv' Let_def split: option.splits)

interpretation relay: admission_gate "relay_admit fl" relay_released relay_ok rs_total_open relay_open_of "\<lambda>_. True"
    TOTAL_CONNECTIONS PER_ENDPOINT_CONNECTIONS
  for fl :: "'f token_clock"
proof unfold_locales
  fix s :: "('k, 'f) relay_state" and k j t
  assume inv: "relay_ok s"
  show "relay_ok (fst (relay_admit fl s k t))"
    by (rule relay_admit_cases [OF inv, of fl k t]) (use inv in \<open>auto simp: relay_ok_def\<close>)
  show "rs_total_open (fst (relay_admit fl s k t)) = rs_total_open s + (if snd (relay_admit fl s k t) then 1 else 0)"
    using inv by (cases rule: relay_admit_cases [of s fl k t]) auto
  show "relay_open_of (fst (relay_admit fl s k t)) j =
      relay_open_of s j + (if snd (relay_admit fl s k t) \<and> j = k then 1 else 0)"
    using inv by (cases rule: relay_admit_cases [of s fl k t]) (auto simp: relay_open_of_def)
  show "rs_total_open s < TOTAL_CONNECTIONS \<and> (True \<longrightarrow> relay_open_of s k < PER_ENDPOINT_CONNECTIONS)"
    if "snd (relay_admit fl s k t)"
    using inv that by (cases rule: relay_admit_cases [of s fl k t]) (auto simp: relay_open_of_def)
qed (auto simp: relay_released_facts)

section \<open>Properties\<close>

text \<open>C37: the relay's books balance: after any arrivals and departures, whatever the clock and the token arithmetic
  do, the open count is the number of connections held, at most the total cap, and each identity's bucket counts
  the connections that identity holds, at most its own cap; forgetting idle buckets loses no count.\<close>

lemma relay_books_balance:
  assumes "fold (gate_step (relay_admit fl) relay_released) es (relay_state_new, []) = (s, held)"
  shows "relay_open s = length held \<and> length held \<le> TOTAL_CONNECTIONS \<and>
    (\<forall>k. relay_open_of s k = count_list held k \<and> count_list held k \<le> PER_ENDPOINT_CONNECTIONS)"
  using relay.books_balance [of relay_state_new fl es s held] assms
  by (simp add: relay_ok_def relay_state_new_def relay_open_of_def open_in_def relay_open_def table_ok_def)

definition steady_clock :: "nat token_clock" where
  "steady_clock = \<lparr> tc_burst = 2, tc_refill = (\<lambda>x _. x), tc_has_one = (\<lambda>x. 0 < x), tc_spend = (\<lambda>x. x - 1) \<rparr>"

lemma relay_books_balance_witness:
  "\<exists>s held. fold (gate_step (relay_admit steady_clock) relay_released) [Arrive ''a'' 1, Arrive ''b'' 2, Depart ''a''] (relay_state_new, []) = (s, held) \<and>
     relay_open s = length held \<and> held = [''b'']"
proof -
  obtain s held where run: "fold (gate_step (relay_admit steady_clock) relay_released)
      [Arrive ''a'' 1, Arrive ''b'' 2, Depart ''a''] (relay_state_new, []) = (s, held)" by fastforce
  moreover have "held = [''b'']"
    using run by (simp add: relay_admit_def steady_clock_def relay_state_new_def relay_released_def
        TOTAL_CONNECTIONS_def PER_ENDPOINT_CONNECTIONS_def Let_def)
  ultimately show ?thesis using relay_books_balance [OF run] by blast
qed

end
