(* ===== verification/Mailbox_Limits.thy ===== *)
theory Mailbox_Limits
  imports Admission_Gate
begin

text \<open>
  Admission control of the mailbox server, \<^verbatim>\<open>crates/rotelyx-mailbox-server/src/limits.rs\<close>.  A slot is the
  address it was given to; dropping it is \<open>drop_slot\<close>.  Addresses the operator exempts count against the
  total only.
\<close>

definition PER_ADDRESS_CONNECTIONS :: nat where "PER_ADDRESS_CONNECTIONS = 16"
definition FORGET_ADDRESS_AFTER :: nat where "FORGET_ADDRESS_AFTER = 600 * 10 ^ 9"

datatype refusal = Concurrent | Rate | Total

record ('k, 'f) limits_state =
  ls_buckets :: "('k \<times> 'f bucket) list"
  ls_total_open :: nat
  ls_refused_rate :: nat
  ls_refused_concurrent :: nat
  ls_refused_total :: nat

record 'k limits =
  lm_max_total :: nat
  lm_exempt :: "'k list"

definition limits_with_max :: "'k list \<Rightarrow> nat \<Rightarrow> 'k limits" where
  "limits_with_max addresses max_total = \<lparr> lm_max_total = max max_total 1, lm_exempt = addresses \<rparr>"

definition limits_state_new :: "('k, 'f) limits_state" where
  "limits_state_new = \<lparr> ls_buckets = [], ls_total_open = 0, ls_refused_rate = 0, ls_refused_concurrent = 0,
     ls_refused_total = 0 \<rparr>"

definition limits_refusals :: "('k, 'f) limits_state \<Rightarrow> nat \<times> nat \<times> nat" where
  "limits_refusals s = (ls_refused_rate s, ls_refused_concurrent s, ls_refused_total s)"

definition limits_admit ::
  "'f token_clock \<Rightarrow> 'k limits \<Rightarrow> ('k, 'f) limits_state \<Rightarrow> 'k \<Rightarrow> nat \<Rightarrow> ('k, 'f) limits_state \<times> (refusal, 'k) result" where
  "limits_admit fl cfg s address now =
     (if lm_max_total cfg \<le> ls_total_open s
      then (s\<lparr>ls_refused_total := ls_refused_total s + 1\<rparr>, Inl Total)
      else if address \<in> set (lm_exempt cfg)
      then (s\<lparr>ls_total_open := ls_total_open s + 1\<rparr>, Inr address)
      else
        let s = s\<lparr>ls_buckets := retain_buckets (\<lambda>b. 0 < bk_open b \<or> now - bk_refilled b < FORGET_ADDRESS_AFTER) (ls_buckets s)\<rparr>;
            b = (case map_of (ls_buckets s) address of
                   Some b \<Rightarrow> b
                 | None \<Rightarrow> \<lparr> bk_tokens = tc_burst fl, bk_refilled = now, bk_open = 0 \<rparr>);
            b = b\<lparr>bk_tokens := tc_refill fl (bk_tokens b) (now - bk_refilled b), bk_refilled := now\<rparr>;
            s = s\<lparr>ls_buckets := AList.update address b (ls_buckets s)\<rparr>
        in if PER_ADDRESS_CONNECTIONS \<le> bk_open b
           then (s\<lparr>ls_refused_concurrent := ls_refused_concurrent s + 1\<rparr>, Inl Concurrent)
           else if \<not> tc_has_one fl (bk_tokens b)
           then (s\<lparr>ls_refused_rate := ls_refused_rate s + 1\<rparr>, Inl Rate)
           else
             (s\<lparr>ls_buckets := AList.update address (b\<lparr>bk_tokens := tc_spend fl (bk_tokens b), bk_open := bk_open b + 1\<rparr>) (ls_buckets s),
                ls_total_open := ls_total_open s + 1\<rparr>, Inr address))"

definition drop_slot :: "('k, 'f) limits_state \<Rightarrow> 'k \<Rightarrow> ('k, 'f) limits_state" where
  "drop_slot s address =
     (let s = s\<lparr>ls_total_open := ls_total_open s - 1\<rparr>
      in case map_of (ls_buckets s) address of
           None \<Rightarrow> s
         | Some b \<Rightarrow> s\<lparr>ls_buckets := AList.update address (b\<lparr>bk_open := bk_open b - 1\<rparr>) (ls_buckets s)\<rparr>)"

text \<open>
  Which address a connection is held against.  \<open>parse\<close> reads an address out of text; the list is split at its
  last comma.
\<close>

definition client_address :: "(string \<Rightarrow> 'k option) \<Rightarrow> 'k \<Rightarrow> 'k list \<Rightarrow> string option \<Rightarrow> 'k" where
  "client_address parse peer trusted_proxies forwarded =
     (if peer \<notin> set trusted_proxies then peer
      else case forwarded of
             None \<Rightarrow> peer
           | Some v \<Rightarrow>
               (case parse (trim (rev (takeWhile (\<lambda>c. c \<noteq> CHR '','') (rev v)))) of
                  None \<Rightarrow> peer | Some a \<Rightarrow> a))"

section \<open>The mailbox server's limits are an admission gate\<close>

text \<open>The decision as the gate sees it.\<close>

definition limits_gate :: "'f token_clock \<Rightarrow> 'k limits \<Rightarrow> ('k, 'f) limits_state \<Rightarrow> 'k \<Rightarrow> nat \<Rightarrow> ('k, 'f) limits_state \<times> bool" where
  "limits_gate fl cfg s k t = (case limits_admit fl cfg s k t of (s', Inl _) \<Rightarrow> (s', False) | (s', Inr _) \<Rightarrow> (s', True))"

definition limits_ok :: "('k, 'f) limits_state \<Rightarrow> bool" where
  "limits_ok s \<longleftrightarrow> table_ok (ls_buckets s)"

definition limits_open_of :: "('k, 'f) limits_state \<Rightarrow> 'k \<Rightarrow> nat" where
  "limits_open_of s k = open_in (ls_buckets s) k"

lemma limits_gate_cases:
  assumes "limits_ok s"
  obtains (full) r where "lm_max_total cfg \<le> ls_total_open s"
      "limits_gate fl cfg s k now = (s\<lparr>ls_refused_total := ls_refused_total s + 1\<rparr>, False)"
  | (exempt) "ls_total_open s < lm_max_total cfg" "k \<in> set (lm_exempt cfg)"
      "limits_gate fl cfg s k now = (s\<lparr>ls_total_open := ls_total_open s + 1\<rparr>, True)"
  | (refused) m b s' where "limits_gate fl cfg s k now = (s', False)" "ls_total_open s' = ls_total_open s"
      "ls_buckets s' = AList.update k b m" "table_ok m" "\<And>j. open_in m j = open_in (ls_buckets s) j" "bk_open b = open_in m k"
  | (admitted) m b s' where "limits_gate fl cfg s k now = (s', True)" "ls_total_open s' = ls_total_open s + 1"
      "ls_total_open s < lm_max_total cfg" "open_in m k < PER_ADDRESS_CONNECTIONS" "ls_buckets s' = AList.update k b m" "table_ok m"
      "\<And>j. open_in m j = open_in (ls_buckets s) j" "bk_open b = open_in m k + 1"
proof (cases "lm_max_total cfg \<le> ls_total_open s")
  case True
  then show ?thesis using full by (simp add: limits_gate_def limits_admit_def)
next
  case room: False
  show ?thesis
  proof (cases "k \<in> set (lm_exempt cfg)")
    case True
    then show ?thesis using exempt room by (simp add: limits_gate_def limits_admit_def)
  next
    case False
    define m where "m = retain_buckets (\<lambda>b. 0 < bk_open b \<or> now - bk_refilled b < FORGET_ADDRESS_AFTER) (ls_buckets s)"
    have m: "table_ok m" "open_in m j = open_in (ls_buckets s) j" for j
      using assms by (auto simp: m_def limits_ok_def intro!: open_in_retain)
    define b0 where "b0 = (case map_of m k of Some b \<Rightarrow> b | None \<Rightarrow> \<lparr> bk_tokens = tc_burst fl, bk_refilled = now, bk_open = 0 \<rparr>)"
    define b where "b = b0\<lparr>bk_tokens := tc_refill fl (bk_tokens b0) (now - bk_refilled b0), bk_refilled := now\<rparr>"
    have b: "bk_open b = open_in m k" by (simp add: b_def b0_def open_in_def split: option.splits)
    have eq: "limits_gate fl cfg s k now =
       (if PER_ADDRESS_CONNECTIONS \<le> bk_open b
        then (s\<lparr>ls_buckets := AList.update k b m, ls_refused_concurrent := ls_refused_concurrent s + 1\<rparr>, False)
        else if \<not> tc_has_one fl (bk_tokens b)
        then (s\<lparr>ls_buckets := AList.update k b m, ls_refused_rate := ls_refused_rate s + 1\<rparr>, False)
        else (s\<lparr>ls_buckets := AList.update k (b\<lparr>bk_tokens := tc_spend fl (bk_tokens b), bk_open := bk_open b + 1\<rparr>) m,
                ls_total_open := ls_total_open s + 1\<rparr>, True))"
      using False room unfolding b_def b0_def m_def limits_gate_def limits_admit_def
      by (simp add: Let_def cong: if_cong option.case_cong)
    consider "PER_ADDRESS_CONNECTIONS \<le> bk_open b" | "bk_open b < PER_ADDRESS_CONNECTIONS" "\<not> tc_has_one fl (bk_tokens b)"
      | "bk_open b < PER_ADDRESS_CONNECTIONS" "tc_has_one fl (bk_tokens b)" by linarith
    then show ?thesis
    proof cases
      case 1
      then have "limits_gate fl cfg s k now =
        (s\<lparr>ls_buckets := AList.update k b m, ls_refused_concurrent := ls_refused_concurrent s + 1\<rparr>, False)" using eq by simp
      then show ?thesis by (rule refused [of _ b m]) (simp_all add: m b)
    next
      case 2
      then have "limits_gate fl cfg s k now =
        (s\<lparr>ls_buckets := AList.update k b m, ls_refused_rate := ls_refused_rate s + 1\<rparr>, False)" using eq by simp
      then show ?thesis by (rule refused [of _ b m]) (simp_all add: m b)
    next
      case 3
      then have "limits_gate fl cfg s k now =
        (s\<lparr>ls_buckets := AList.update k (b\<lparr>bk_tokens := tc_spend fl (bk_tokens b), bk_open := bk_open b + 1\<rparr>) m,
           ls_total_open := ls_total_open s + 1\<rparr>, True)" using eq by simp
      then show ?thesis
        by (rule admitted [of _ m "b\<lparr>bk_tokens := tc_spend fl (bk_tokens b), bk_open := bk_open b + 1\<rparr>"])
          (use 3 room m b in simp_all)
    qed
  qed
qed

lemma drop_slot_facts:
  "limits_ok s \<Longrightarrow> limits_ok (drop_slot s k)"
  "ls_total_open (drop_slot s k) = ls_total_open s - 1"
  "limits_open_of (drop_slot s k) j = (if j = k then limits_open_of s j - 1 else limits_open_of s j)"
  by (auto simp: drop_slot_def limits_ok_def limits_open_of_def open_in_def update_conv' Let_def split: option.splits)

interpretation mbl: admission_gate "limits_gate fl cfg" drop_slot limits_ok ls_total_open limits_open_of
    "\<lambda>k. k \<notin> set (lm_exempt cfg)" "lm_max_total cfg" PER_ADDRESS_CONNECTIONS
  for fl :: "'f token_clock" and cfg :: "'k limits"
proof unfold_locales
  fix s :: "('k, 'f) limits_state" and k j t
  assume inv: "limits_ok s"
  show "limits_ok (fst (limits_gate fl cfg s k t))"
    by (rule limits_gate_cases [OF inv, of cfg fl k t]) (use inv in \<open>auto simp: limits_ok_def\<close>)
  show "ls_total_open (fst (limits_gate fl cfg s k t)) = ls_total_open s + (if snd (limits_gate fl cfg s k t) then 1 else 0)"
    by (rule limits_gate_cases [OF inv, of cfg fl k t]) auto
  show "limits_open_of (fst (limits_gate fl cfg s k t)) j =
      limits_open_of s j + (if snd (limits_gate fl cfg s k t) \<and> j = k then 1 else 0)" if "j \<notin> set (lm_exempt cfg)"
    by (rule limits_gate_cases [OF inv, of cfg fl k t]) (use that in \<open>auto simp: limits_open_of_def\<close>)
  show "ls_total_open s < lm_max_total cfg \<and> (k \<notin> set (lm_exempt cfg) \<longrightarrow> limits_open_of s k < PER_ADDRESS_CONNECTIONS)"
    if "snd (limits_gate fl cfg s k t)"
    by (rule limits_gate_cases [OF inv, of cfg fl k t]) (use that in \<open>auto simp: limits_open_of_def\<close>)
qed (auto simp: drop_slot_facts)

section \<open>Properties\<close>

text \<open>The mailbox server's books balance: after any arrivals and dropped slots, the open count is the number of
  slots held, at most the configured total, and each address that is not exempt has as many open as it holds
  slots, at most its cap.\<close>

lemma mailbox_books_balance:
  assumes "fold (gate_step (limits_gate fl (limits_with_max exempt max_total)) drop_slot) es
      (limits_state_new, []) = (s, held)"
  shows "ls_total_open s = length held \<and> length held \<le> max max_total 1 \<and>
    (\<forall>k. k \<notin> set exempt \<longrightarrow> limits_open_of s k = count_list held k \<and> count_list held k \<le> PER_ADDRESS_CONNECTIONS)"
  using mbl.books_balance [of limits_state_new "limits_with_max exempt max_total" fl es s held] assms
  by (simp add: limits_with_max_def limits_state_new_def limits_ok_def limits_open_of_def open_in_def table_ok_def)

definition even_clock :: "nat token_clock" where
  "even_clock = \<lparr> tc_burst = 2, tc_refill = (\<lambda>x _. x), tc_has_one = (\<lambda>x. 0 < x), tc_spend = (\<lambda>x. x - 1) \<rparr>"

lemma mailbox_books_balance_witness:
  "\<exists>s held. fold (gate_step (limits_gate even_clock (limits_with_max [''x''] 5)) drop_slot)
      [Arrive ''a'' 1, Arrive ''x'' 2, Depart ''a''] (limits_state_new, []) = (s, held) \<and>
     ls_total_open s = length held \<and> held = [''x'']"
proof -
  obtain s held where run: "fold (gate_step (limits_gate even_clock (limits_with_max [''x''] 5)) drop_slot)
      [Arrive ''a'' 1, Arrive ''x'' 2, Depart ''a''] (limits_state_new, []) = (s, held)" by fastforce
  moreover have "held = [''x'']"
    using run by (simp add: limits_gate_def limits_admit_def even_clock_def limits_with_max_def limits_state_new_def drop_slot_def
        PER_ADDRESS_CONNECTIONS_def retain_buckets_def Let_def)
  ultimately show ?thesis using mailbox_books_balance [OF run] by blast
qed

end
