(* ===== verification/Bit_Packer.thy ===== *)
theory Bit_Packer
  imports Rotelyx_Prelude
begin

unbundle bit_operations_syntax

text \<open>
  The bit packer of the audio codec, \<^verbatim>\<open>crates/rotelyx-codec/src/rangecoder.rs\<close>: values written most
  significant bit first, signed values folded, and the reader that yields zeroes past the end.  A decoder is
  its bytes and a position.
\<close>

section \<open>Operations\<close>

record encoder =
  en_bytes :: bytes
  en_partial :: u8
  en_partial_bits :: nat

definition encoder_new :: encoder where
  "encoder_new = \<lparr> en_bytes = [], en_partial = 0, en_partial_bits = 0 \<rparr>"

text \<open>One turn of the loop of \<open>write_bits\<close>.\<close>

definition write_bit :: "encoder \<Rightarrow> bool \<Rightarrow> encoder" where
  "write_bit e b =
     (let partial = push_bit 1 (en_partial e) OR (if b then 1 else 0);
          n = en_partial_bits e + 1
      in if n = 8 then \<lparr> en_bytes = en_bytes e @ [partial], en_partial = 0, en_partial_bits = 0 \<rparr>
         else \<lparr> en_bytes = en_bytes e, en_partial = partial, en_partial_bits = n \<rparr>)"

definition write_bits :: "encoder \<Rightarrow> u32 \<Rightarrow> nat \<Rightarrow> encoder" where
  "write_bits e v count =
     fold (\<lambda>i e. write_bit e (drop_bit i v AND 1 = 1)) (rev [0..<count]) e"

text \<open>Zig-zag folding of a signed 16-bit value.\<close>

definition fold_signed :: "16 word \<Rightarrow> u32" where
  "fold_signed v =
     (if 0 \<le> sint v then word_of_int (sint v) * 2 else word_of_int (- sint v) * 2 - 1)"

definition write_signed :: "encoder \<Rightarrow> 16 word \<Rightarrow> nat \<Rightarrow> encoder" where
  "write_signed e v count =
     (let mx = push_bit count 1 - 1 in write_bits e (min (fold_signed v) mx) count)"

definition len_bits :: "encoder \<Rightarrow> nat" where
  "len_bits e = length (en_bytes e) * 8 + en_partial_bits e"

definition finish_bits :: "encoder \<Rightarrow> bytes" where
  "finish_bits e =
     (if 0 < en_partial_bits e then en_bytes e @ [push_bit (8 - en_partial_bits e) (en_partial e)] else en_bytes e)"

definition read_bit :: "bytes \<Rightarrow> nat \<Rightarrow> bool" where
  "read_bit bs position =
     (let byte = position div 8; i = 7 - position mod 8
      in if byte < length bs then drop_bit i (bs ! byte) AND 1 = 1 else False)"

fun read_bits_from :: "bytes \<Rightarrow> nat \<Rightarrow> nat \<Rightarrow> u32 \<Rightarrow> u32" where
  "read_bits_from bs position 0 acc = acc"
| "read_bits_from bs position (Suc n) acc =
     read_bits_from bs (position + 1) n (push_bit 1 acc OR (if read_bit bs position then 1 else 0))"

definition read_bits :: "bytes \<Rightarrow> nat \<Rightarrow> nat \<Rightarrow> u32 \<times> nat" where
  "read_bits bs position count = (read_bits_from bs position count 0, position + count)"

definition unfold_signed :: "u32 \<Rightarrow> 16 word" where
  "unfold_signed folded =
     (if folded mod 2 = 0 then ucast (folded div 2) else - ucast ((folded + 1) div 2))"

definition read_signed :: "bytes \<Rightarrow> nat \<Rightarrow> nat \<Rightarrow> 16 word \<times> nat" where
  "read_signed bs position count =
     (case read_bits bs position count of (folded, position) \<Rightarrow> (unfold_signed folded, position))"

section \<open>What was written, as bits\<close>

definition byte_bits :: "u8 \<Rightarrow> bool list" where
  "byte_bits b = map (\<lambda>i. bit b (7 - i)) [0..<8]"

definition written :: "encoder \<Rightarrow> bool list" where
  "written e = concat (map byte_bits (en_bytes e)) @
     map (\<lambda>i. bit (en_partial e) (en_partial_bits e - 1 - i)) [0..<en_partial_bits e]"

definition encoder_ok :: "encoder \<Rightarrow> bool" where
  "encoder_ok e \<longleftrightarrow> en_partial_bits e < 8"

lemma and_one_eq: "(drop_bit i (v :: 'a::len word) AND 1 = 1) = bit v i"
proof -
  have "drop_bit i v AND 1 = (if bit v i then 1 else 0)"
    by (rule bit_word_eqI) (auto simp: bit_simps bit_1_iff intro!: gr0I)
  then show ?thesis by simp
qed

lemma bit_shift_in:
  "bit (push_bit 1 (x :: 'a::len word) OR (if b then 1 else 0)) i \<longleftrightarrow>
    (if i = 0 then b else i < LENGTH('a) \<and> bit x (i - 1))"
proof -
  have "bit (push_bit 1 x) i \<longleftrightarrow> 0 < i \<and> i < LENGTH('a) \<and> bit x (i - 1)"
    by (simp only: bit_push_bit_iff possible_bit_word) auto
  then show ?thesis by (simp only: bit_or_iff) (auto simp: bit_1_iff)
qed

lemma written_write_bit:
  assumes "encoder_ok e"
  shows "written (write_bit e b) = written e @ [b]" "encoder_ok (write_bit e b)"
proof -
  let ?k = "en_partial_bits e"
  let ?p = "push_bit 1 (en_partial e) OR (if b then 1 else 0)"
  have k: "?k < 8" using assms by (simp add: encoder_ok_def)
  have bits: "map (\<lambda>i. bit ?p (?k - i)) [0..<Suc ?k] = map (\<lambda>i. bit (en_partial e) (?k - 1 - i)) [0..<?k] @ [b]"
    using k by (auto simp only: bit_shift_in) (auto simp: bit_shift_in)
  show "written (write_bit e b) = written e @ [b]"
  proof (cases "?k + 1 = 8")
    case True
    then have "?k = 7" by simp
    then have "byte_bits ?p = map (\<lambda>i. bit (en_partial e) (?k - 1 - i)) [0..<?k] @ [b]"
      using bits by (simp add: byte_bits_def del: upt_Suc)
    then show ?thesis using True by (simp add: written_def write_bit_def Let_def)
  next
    case False
    then show ?thesis using bits by (simp add: written_def write_bit_def Let_def del: upt_Suc)
  qed
  show "encoder_ok (write_bit e b)" using k by (auto simp: encoder_ok_def write_bit_def Let_def)
qed

lemma written_fold:
  "encoder_ok e \<Longrightarrow> written (fold (\<lambda>x e. write_bit e (f x)) xs e) = written e @ map f xs \<and>
    encoder_ok (fold (\<lambda>x e. write_bit e (f x)) xs e)"
  by (induction xs arbitrary: e) (simp_all add: written_write_bit)

definition value_bits :: "u32 \<Rightarrow> nat \<Rightarrow> bool list" where
  "value_bits v count = map (bit v) (rev [0..<count])"

lemma written_write_bits:
  "encoder_ok e \<Longrightarrow> written (write_bits e v count) = written e @ value_bits v count \<and> encoder_ok (write_bits e v count)"
  using written_fold [of e "\<lambda>i. drop_bit i v AND 1 = 1"]
  by (simp add: write_bits_def value_bits_def and_one_eq)

lemma length_byte_bits [simp]: "length (byte_bits b) = 8"
  by (simp add: byte_bits_def)

lemma length_written: "encoder_ok e \<Longrightarrow> length (written e) = len_bits e"
  by (simp add: written_def len_bits_def length_concat comp_def sum_list_triv)

text \<open>Finishing pads with zeroes.\<close>

lemma finish_bits_written:
  assumes "encoder_ok e"
  shows "\<exists>n. concat (map byte_bits (finish_bits e)) = written e @ replicate n False"
proof (cases "en_partial_bits e = 0")
  case True
  then show ?thesis by (intro exI [of _ 0]) (simp add: finish_bits_def written_def)
next
  case False
  let ?k = "en_partial_bits e"
  have k: "?k < 8" "0 < ?k" using assms False by (auto simp: encoder_ok_def)
  have "byte_bits (push_bit (8 - ?k) (en_partial e)) =
      map (\<lambda>i. bit (en_partial e) (?k - 1 - i)) [0..<?k] @ replicate (8 - ?k) False"
  proof (rule nth_equalityI)
    show "length (byte_bits (push_bit (8 - ?k) (en_partial e))) =
        length (map (\<lambda>i. bit (en_partial e) (?k - 1 - i)) [0..<?k] @ replicate (8 - ?k) False)" using k by simp
    fix i
    assume "i < length (byte_bits (push_bit (8 - ?k) (en_partial e)))"
    then have i: "i < 8" by simp
    have "7 - i - (8 - ?k) = ?k - 1 - i" if "i < ?k" using that k i by linarith
    then show "byte_bits (push_bit (8 - ?k) (en_partial e)) ! i =
        (map (\<lambda>i. bit (en_partial e) (?k - 1 - i)) [0..<?k] @ replicate (8 - ?k) False) ! i"
      using i k by (auto simp: byte_bits_def nth_append bit_simps)
  qed
  then show ?thesis using k by (intro exI [of _ "8 - ?k"]) (simp add: finish_bits_def written_def)
qed

section \<open>Reading back\<close>

lemma nth_concat_bytes:
  "p < 8 * length bs \<Longrightarrow> concat (map byte_bits bs) ! p = bit (bs ! (p div 8)) (7 - p mod 8)"
proof (induction bs arbitrary: p)
  case (Cons b bs)
  show ?case
  proof (cases "p < 8")
    case True
    then show ?thesis by (simp add: nth_append) (simp add: byte_bits_def)
  next
    case False
    then have "p div 8 = Suc ((p - 8) div 8)" "p mod 8 = (p - 8) mod 8"
      by (simp_all add: le_div_geq le_mod_geq)
    then show ?thesis using False Cons.IH [of "p - 8"] Cons.prems by (simp add: nth_append)
  qed
qed simp

lemma read_bit_written:
  assumes "concat (map byte_bits bs) = ws @ replicate n False"
  shows "read_bit bs p = (p < length ws \<and> ws ! p)"
proof -
  have len: "8 * length bs = length ws + n"
    using arg_cong [OF assms, of length] by (simp add: length_concat comp_def sum_list_triv)
  show ?thesis
  proof (cases "p < 8 * length bs")
    case True
    then have "p div 8 < length bs" by (simp add: less_mult_imp_div_less mult.commute)
    then have "read_bit bs p = concat (map byte_bits bs) ! p"
      using nth_concat_bytes [OF True] by (simp add: read_bit_def and_one_eq Let_def)
    also have "\<dots> = (p < length ws \<and> ws ! p)" using True len unfolding assms by (simp add: nth_append)
    finally show ?thesis .
  next
    case False
    then have "\<not> p div 8 < length bs" by (simp add: not_less less_eq_div_iff_mult_less_eq mult.commute)
    then show ?thesis using False len by (simp add: read_bit_def)
  qed
qed

text \<open>A run of bits read into an accumulator.\<close>

definition bits_value :: "u32 \<Rightarrow> bool list \<Rightarrow> u32" where
  "bits_value acc bs = foldl (\<lambda>a b. push_bit 1 a OR (if b then 1 else 0)) acc bs"

lemma read_bits_from_value:
  "read_bits_from bs p n acc = bits_value acc (map (read_bit bs) [p..<p + n])"
proof (induction n arbitrary: p acc)
  case (Suc n)
  then show ?case by (simp add: bits_value_def upt_conv_Cons del: upt_Suc)
qed (simp add: bits_value_def)

lemma bits_value_value_bits: "count \<le> 32 \<Longrightarrow> bits_value 0 (value_bits v count) = take_bit count v"
proof -
  have "bits_value (take_bit k (drop_bit count v)) (value_bits v count) = take_bit (k + count) v" if "k + count \<le> 32" for k
    using that
  proof (induction count arbitrary: k)
    case 0
    then show ?case by (simp add: bits_value_def value_bits_def)
  next
    case (Suc c)
    have "push_bit 1 (take_bit k (drop_bit (Suc c) v)) OR (if bit v c then 1 else 0) = take_bit (Suc k) (drop_bit c v)"
    proof (rule bit_word_eqI)
      fix n
      show "bit (push_bit 1 (take_bit k (drop_bit (Suc c) v)) OR (if bit v c then 1 else 0)) n =
          bit (take_bit (Suc k) (drop_bit c v)) n"
        unfolding bit_shift_in using Suc.prems by (cases n) (auto simp: bit_simps)
    qed
    then show ?case using Suc.IH [of "Suc k"] Suc.prems by (simp add: bits_value_def value_bits_def)
  qed
  from this [of 0] show "count \<le> 32 \<Longrightarrow> ?thesis" by simp
qed

fun write_all :: "encoder \<Rightarrow> (u32 \<times> nat) list \<Rightarrow> encoder" where
  "write_all e [] = e"
| "write_all e ((v, c) # ws) = write_all (write_bits e v c) ws"

fun read_all :: "bytes \<Rightarrow> nat \<Rightarrow> nat list \<Rightarrow> u32 list \<times> nat" where
  "read_all bs p [] = ([], p)"
| "read_all bs p (c # cs) =
     (case read_bits bs p c of (v, p) \<Rightarrow> (case read_all bs p cs of (vs, p) \<Rightarrow> (v # vs, p)))"

definition all_bits :: "(u32 \<times> nat) list \<Rightarrow> bool list" where
  "all_bits ws = concat (map (\<lambda>(v, c). value_bits v c) ws)"

lemma length_value_bits [simp]: "length (value_bits v c) = c"
  by (simp add: value_bits_def)

lemma written_write_all:
  "encoder_ok e \<Longrightarrow> written (write_all e ws) = written e @ all_bits ws \<and> encoder_ok (write_all e ws)"
proof (induction ws arbitrary: e)
  case (Cons w ws)
  then show ?case using written_write_bits by (cases w) (simp add: all_bits_def)
qed (simp add: all_bits_def)

lemma read_bits_segment:
  assumes "concat (map byte_bits bs) = pre @ value_bits v c @ post @ replicate n False" "c \<le> 32"
  shows "read_bits bs (length pre) c = (take_bit c v, length pre + c)"
proof -
  have whole: "concat (map byte_bits bs) = (pre @ value_bits v c @ post) @ replicate n False" using assms(1) by simp
  have "map (read_bit bs) [length pre..<length pre + c] = value_bits v c"
    by (rule nth_equalityI) (simp_all add: read_bit_written [OF whole] nth_append)
  then show ?thesis using bits_value_value_bits [OF assms(2)] by (simp add: read_bits_def read_bits_from_value)
qed

lemma read_all_written:
  "concat (map byte_bits bs) = pre @ all_bits ws @ replicate n False \<Longrightarrow> \<forall>(v, c)\<in>set ws. c \<le> 32 \<Longrightarrow>
    read_all bs (length pre) (map snd ws) = (map (\<lambda>(v, c). take_bit c v) ws, length pre + length (all_bits ws))"
proof (induction ws arbitrary: pre)
  case Nil
  then show ?case by (simp add: all_bits_def)
next
  case (Cons w ws)
  obtain v c where w: "w = (v, c)" by (cases w)
  have head: "read_bits bs (length pre) c = (take_bit c v, length pre + c)"
    using Cons.prems by (intro read_bits_segment [where post = "all_bits ws" and n = n]) (auto simp: all_bits_def w)
  have "read_all bs (length (pre @ value_bits v c)) (map snd ws) =
      (map (\<lambda>(v, c). take_bit c v) ws, length (pre @ value_bits v c) + length (all_bits ws))"
    using Cons.prems by (intro Cons.IH) (auto simp: all_bits_def w)
  then show ?case using head by (simp add: w all_bits_def)
qed

lemma sint16_bounds: "- 32768 \<le> sint (v :: 16 word)" "sint v < 32768"
  using sint_greater_eq [of v] sint_less [of v] by simp_all

lemma uint_word_of_small_int: "0 \<le> x \<Longrightarrow> x < 4294967296 \<Longrightarrow> uint (word_of_int x :: u32) = x"
  by (simp add: uint_word_of_int)

text \<open>Folding as arithmetic on integers, and its inverse.\<close>

lemma fold_signed_int:
  "fold_signed v = word_of_int (if 0 \<le> sint v then 2 * sint v else - 2 * sint v - 1)"
proof -
  define x where "x = sint v"
  show ?thesis unfolding fold_signed_def x_def [symmetric]
    by (simp add: word_of_int_minus algebra_simps)
qed

lemma uint_fold_signed: "uint (fold_signed v) = (if 0 \<le> sint v then 2 * sint v else - 2 * sint v - 1)"
  unfolding fold_signed_int using sint16_bounds [of v] by (intro uint_word_of_small_int) auto

lemma unfold_fold_signed: "unfold_signed (fold_signed v) = v"
proof -
  let ?f = "fold_signed v"
  have v: "word_of_int (sint v) = v" by simp
  show ?thesis
  proof (cases "0 \<le> sint v")
    case True
    then have u: "uint ?f = 2 * sint v" by (simp add: uint_fold_signed)
    then have "?f mod 2 = 0" by (simp add: word_uint_eq_iff uint_mod)
    moreover have "ucast (?f div 2) = (word_of_int (uint (?f div 2)) :: 16 word)" by (simp add: unsigned_of_int)
    moreover have "uint (?f div 2) = sint v" using u by (simp add: uint_div)
    ultimately show ?thesis using v by (simp add: unfold_signed_def)
  next
    case False
    then have u: "uint ?f = - 2 * sint v - 1" by (simp add: uint_fold_signed)
    have "uint (?f + 1) = uint ?f + 1"
      using u False sint16_bounds [of v] by (simp add: uint_word_ariths)
    then have d: "uint ((?f + 1) div 2) = - sint v" using u by (simp add: uint_div)
    have odd: "uint (?f mod 2) = 1" using u by (simp add: uint_mod) presburger
    have "?f mod 2 \<noteq> 0"
    proof
      assume "?f mod 2 = 0"
      from odd [unfolded this] show False by simp
    qed
    moreover have "ucast ((?f + 1) div 2) = (word_of_int (uint ((?f + 1) div 2)) :: 16 word)" by (simp add: unsigned_of_int)
    ultimately show ?thesis using v d by (simp add: unfold_signed_def)
  qed
qed

lemma unat_fold_signed: "unat (fold_signed v) = nat (if 0 \<le> sint v then 2 * sint v else - 2 * sint v - 1)"
  by (simp only: unat_eq_nat_uint uint_fold_signed)

lemma read_all_packed:
  assumes "\<forall>(v, c)\<in>set ws. c \<le> 32"
  defines "e \<equiv> write_all encoder_new ws"
  shows "read_all (finish_bits e) 0 (map snd ws) = (map (\<lambda>(v, c). take_bit c v) ws, len_bits e)"
    and "map (read_bit (finish_bits e)) [len_bits e..<len_bits e + n] = replicate n False"
proof -
  have new: "encoder_ok encoder_new" "written encoder_new = []" by (simp_all add: encoder_ok_def encoder_new_def written_def)
  have w: "written e = all_bits ws" "encoder_ok e" using written_write_all [OF new(1), of ws] new(2) by (simp_all add: e_def)
  obtain k where fin: "concat (map byte_bits (finish_bits e)) = all_bits ws @ replicate k False"
    using finish_bits_written [OF w(2)] w(1) by auto
  show "read_all (finish_bits e) 0 (map snd ws) = (map (\<lambda>(v, c). take_bit c v) ws, len_bits e)"
    using read_all_written [of _ "[]" ws k] fin assms length_written [OF w(2)] w(1) by simp
  show "map (read_bit (finish_bits e)) [len_bits e..<len_bits e + n] = replicate n False"
    by (rule nth_equalityI) (simp_all add: read_bit_written [OF fin] length_written [OF w(2), unfolded w(1), symmetric])
qed

section \<open>Properties\<close>

text \<open>What is packed is read back: whatever values are written, each in at most 32 bits, reading the finished
  bytes with the same widths gives the low bits of each value in order, and reading on gives zero.\<close>

lemma packed_bits_read_back:
  assumes "\<forall>(v, c)\<in>set ws. c \<le> 32"
  shows "case read_all (finish_bits (write_all encoder_new ws)) 0 (map snd ws) of (vs, p) \<Rightarrow>
    vs = map (\<lambda>(v, c). take_bit c v) ws \<and> p = len_bits (write_all encoder_new ws) \<and>
    fst (read_bits (finish_bits (write_all encoder_new ws)) p n) = 0"
proof -
  note all = read_all_packed(1) [OF assms] and past = read_all_packed(2) [OF assms, of n]
  have "bits_value 0 (replicate n False) = 0" by (induction n) (simp_all add: bits_value_def)
  then show ?thesis using all past by (simp add: read_bits_def read_bits_from_value)
qed

lemma packed_bits_read_back_witness:
  "case read_all (finish_bits (write_all encoder_new [(5, 3), (1000, 7)])) 0 [3, 7] of (vs, p) \<Rightarrow>
    vs = [5, 104] \<and> p = len_bits (write_all encoder_new [(5, 3), (1000, 7)])"
  using packed_bits_read_back [of "[(5, 3), (1000, 7)]" 0] by (simp add: case_prod_unfold take_bit_eq_mod)

text \<open>Every signed value whose folded form fits the width survives: \<open>write_signed\<close> writes what
  \<open>read_signed\<close> reads back, wherever in a stream it stands.\<close>

lemma signed_values_survive:
  assumes "count \<le> 31" "unat (fold_signed v) < 2 ^ count" "encoder_ok e"
  shows "read_signed (finish_bits (write_signed e v count)) (len_bits e) count = (v, len_bits e + count)"
proof -
  let ?mx = "push_bit count 1 - 1 :: u32"
  have "unat (push_bit count (1 :: u32)) = 2 ^ count"
  proof -
    have "(2 :: nat) ^ count \<le> 2 ^ 31" using assms(1) by (intro power_increasing) auto
    then have "unat (word_of_nat (2 ^ count) :: u32) = 2 ^ count" by (simp add: unat_of_nat del: of_nat_power)
    moreover have "push_bit count (1 :: u32) = word_of_nat (2 ^ count)" by (simp add: push_bit_eq_mult)
    ultimately show ?thesis by (simp only:)
  qed
  then have "unat ?mx = 2 ^ count - 1"
    by (metis One_nat_def one_le_numeral one_le_power unat_1 unat_sub word_le_nat_alt)
  then have "fold_signed v \<le> ?mx" using assms(2) by (simp add: word_le_nat_alt)
  then have w: "write_signed e v count = write_bits e (fold_signed v) count"
    by (simp add: write_signed_def min_def Let_def)
  have wr: "written (write_bits e (fold_signed v) count) = written e @ value_bits (fold_signed v) count"
    "encoder_ok (write_bits e (fold_signed v) count)" using written_write_bits [OF assms(3)] by auto
  obtain n where "concat (map byte_bits (finish_bits (write_bits e (fold_signed v) count))) =
      written e @ value_bits (fold_signed v) count @ [] @ replicate n False"
    using finish_bits_written [OF wr(2)] wr(1) by auto
  from read_bits_segment [OF this] have "read_bits (finish_bits (write_signed e v count)) (len_bits e) count =
      (take_bit count (fold_signed v), len_bits e + count)"
    using assms(1) length_written [OF assms(3)] by (simp add: w)
  moreover have "take_bit count (fold_signed v) = fold_signed v"
    using assms(2) by (simp add: unat_eqI take_bit_nat_eq_self unsigned_take_bit_eq)
  ultimately show ?thesis by (simp add: read_signed_def unfold_fold_signed)
qed

lemma signed_values_survive_witness:
  "read_signed (finish_bits (write_signed (write_bits encoder_new 1 3) (- 7) 5)) 3 5 = (- 7, 8)"
proof -
  have "sint (- 7 :: 16 word) = - 7" by simp
  then have "unat (fold_signed (- 7)) = 13" by (simp add: unat_fold_signed)
  moreover have e: "encoder_ok (write_bits encoder_new 1 3)" "len_bits (write_bits encoder_new 1 3) = 3"
    using written_write_bits [of encoder_new 1 3] length_written [of "write_bits encoder_new 1 3"]
    by (simp_all add: encoder_ok_def encoder_new_def written_def)
  ultimately show ?thesis using signed_values_survive [of 5 "- 7" "write_bits encoder_new 1 3"] by simp
qed

end
