(* ===== verification/Pulse_Codebook.thy ===== *)
theory Pulse_Codebook
  imports Rotelyx_Prelude
begin

text \<open>
  The pyramid vector quantiser's codebook, \<^verbatim>\<open>rotelyx-codec/src/pvq.rs\<close>: the table of codebook sizes, the position of
  a vector in its codebook and the vector at a position.  Sizes and positions are 64-bit words that wrap, entries of a
  vector are 32-bit words read as signed.  The search for the nearest vector is floating point and not here; the
  logarithm that prices a codebook is a parameter.
\<close>

section \<open>Definitions\<close>

type_synonym i32 = "32 word"

definition MAX_N :: nat where "MAX_N = 256"
definition MAX_K :: nat where "MAX_K = 32"
definition MAX_INDEX_BITS :: nat where "MAX_INDEX_BITS = 62"

definition unsigned_abs :: "i32 \<Rightarrow> nat" where
  "unsigned_abs v = nat \<bar>sint v\<bar>"

text \<open>One row of the table from the row above it, its entries from left to right.\<close>

fun fill_row :: "u64 list \<Rightarrow> u64 \<Rightarrow> u64 list" where
  "fill_row (diag # up # row) left =
     (let x = saturating_add (saturating_add up left) diag in x # fill_row (up # row) x)"
| "fill_row row left = []"

primrec table_rows :: "u64 list \<Rightarrow> nat \<Rightarrow> u64 list list" where
  "table_rows row 0 = [row]"
| "table_rows row (Suc n) = row # table_rows (1 # fill_row row 1) n"

definition build_table :: "u64 list list" where
  "build_table = table_rows (1 # replicate MAX_K 0) MAX_N"

definition count :: "nat \<Rightarrow> nat \<Rightarrow> u64" where
  "count n k = (if n < length build_table \<and> k < length (build_table ! n) then build_table ! n ! k else 0)"

text \<open>\<open>affordable c budget\<close> stands for \<^verbatim>\<open>(c as f32).log2() <= budget as f32\<close>.\<close>

datatype cost = Free | Priced u64 | Infinite

definition bits :: "nat \<Rightarrow> nat \<Rightarrow> cost" where
  "bits n k =
     (let c = count n k
      in if c \<le> 1 then Free else if push_bit MAX_INDEX_BITS 1 \<le> c then Infinite else Priced c)"

fun within_budget :: "(u64 \<Rightarrow> nat \<Rightarrow> bool) \<Rightarrow> cost \<Rightarrow> nat \<Rightarrow> bool" where
  "within_budget affordable Free budget = True"
| "within_budget affordable (Priced c) budget = affordable c budget"
| "within_budget affordable Infinite budget = False"

fun pulses_loop :: "(u64 \<Rightarrow> nat \<Rightarrow> bool) \<Rightarrow> nat \<Rightarrow> nat \<Rightarrow> nat list \<Rightarrow> nat \<Rightarrow> nat" where
  "pulses_loop affordable n budget [] best = best"
| "pulses_loop affordable n budget (k # ks) best =
     (if count n k = 0 then best
      else if within_budget affordable (bits n k) budget then pulses_loop affordable n budget ks k
      else best)"

definition pulses_for :: "(u64 \<Rightarrow> nat \<Rightarrow> bool) \<Rightarrow> nat \<Rightarrow> nat \<Rightarrow> nat" where
  "pulses_for affordable n budget = (if n = 0 then 0 else pulses_loop affordable n budget [1..<MAX_K + 1] 0)"

fun index_from :: "i32 list \<Rightarrow> nat \<Rightarrow> u64 \<Rightarrow> u64" where
  "index_from [] k i = i"
| "index_from (v # ys) k i =
     (let remaining = length ys;
          magnitude = unsigned_abs v;
          i = fold (\<lambda>smaller i. i + (let ways = count remaining (k - smaller) in if smaller = 0 then ways else 2 * ways))
                [0..<magnitude] i;
          i = (if 0 < magnitude \<and> 0 <s v then i + count remaining (k - magnitude) else i)
      in index_from ys (k - magnitude) i)"

definition index :: "i32 list \<Rightarrow> u64" where
  "index y = index_from y (sum_list (map unsigned_abs y)) 0"

function scan_slot :: "nat \<Rightarrow> nat \<Rightarrow> nat \<Rightarrow> u64 \<Rightarrow> i32 \<times> u64" where
  "scan_slot remaining k magnitude i =
     (let ways = count remaining (k - magnitude);
          block = (if magnitude = 0 then ways else 2 * ways)
      in if i < block then
           (if magnitude = 0 then (0, i)
            else if i < ways then (- word_of_nat magnitude, i)
            else (word_of_nat magnitude, i - ways))
         else if k < magnitude + 1 then (0, i - block)
         else scan_slot remaining k (magnitude + 1) (i - block))"
  by pat_completeness auto
termination
  by (relation "measure (\<lambda>(remaining, k, magnitude, i). k + 1 - magnitude)") auto

declare scan_slot.simps [simp del]

primrec deindex_from :: "nat \<Rightarrow> nat \<Rightarrow> u64 \<Rightarrow> i32 list" where
  "deindex_from 0 k i = []"
| "deindex_from (Suc remaining) k i =
     (case scan_slot remaining k 0 i of (slot, i) \<Rightarrow> slot # deindex_from remaining (k - unsigned_abs slot) i)"

definition deindex :: "nat \<Rightarrow> nat \<Rightarrow> u64 \<Rightarrow> i32 list" where
  "deindex n k i = deindex_from n k i"

section \<open>How many vectors there are\<close>

text \<open>The codebook, and its size without the bound of a machine word.\<close>

definition codebook :: "nat \<Rightarrow> nat \<Rightarrow> i32 list set" where
  "codebook n k = {y. length y = n \<and> sum_list (map unsigned_abs y) = k}"

fun V :: "nat \<Rightarrow> nat \<Rightarrow> nat" where
  "V n 0 = 1"
| "V 0 (Suc k) = 0"
| "V (Suc n) (Suc k) = V n (Suc k) + V (Suc n) k + V n k"

definition sat64 :: "nat \<Rightarrow> u64" where
  "sat64 x = word_of_nat (min x (2 ^ 64 - 1))"

lemma unat_sat64: "unat (sat64 x) = min x (2 ^ 64 - 1)"
  by (simp add: sat64_def unat_of_nat)

lemma saturating_add_sat64: "saturating_add (sat64 a) (sat64 b) = sat64 (a + b)"
  by (rule unat_eqI) (simp add: unat_saturating_add unat_sat64)

lemma fill_row_V:
  "fill_row (map (\<lambda>k. sat64 (V n k)) [j..<j + Suc m]) (sat64 (V (Suc n) j)) = map (\<lambda>k. sat64 (V (Suc n) k)) [Suc j..<Suc j + m]"
proof (induction m arbitrary: j)
  case 0
  then show ?case by simp
next
  case (Suc m)
  have "[j..<j + Suc (Suc m)] = j # Suc j # [Suc (Suc j)..<Suc j + Suc m]" "[Suc j..<Suc j + Suc m] = Suc j # [Suc (Suc j)..<Suc j + Suc m]"
    by (simp_all add: upt_conv_Cons)
  moreover have "saturating_add (saturating_add (sat64 (V n (Suc j))) (sat64 (V (Suc n) j))) (sat64 (V n j)) = sat64 (V (Suc n) (Suc j))"
    by (simp add: saturating_add_sat64)
  ultimately show ?case using Suc.IH [of "Suc j"] by (simp add: Let_def del: upt_Suc V.simps)
qed

lemma table_rows_V:
  "table_rows (map (\<lambda>k. sat64 (V n k)) [0..<Suc m]) r = map (\<lambda>n. map (\<lambda>k. sat64 (V n k)) [0..<Suc m]) [n..<n + Suc r]"
proof (induction r arbitrary: n)
  case 0
  then show ?case by simp
next
  case (Suc r)
  have "sat64 (V (Suc n) 0) = 1" "sat64 (V n 0) = 1" by (simp_all add: sat64_def)
  with fill_row_V [of n 0 m]
  have "1 # fill_row (map (\<lambda>k. sat64 (V n k)) [0..<Suc m]) 1 = map (\<lambda>k. sat64 (V (Suc n) k)) [0..<Suc m]"
    by (simp add: upt_conv_Cons del: upt_Suc)
  moreover have "[n..<n + Suc (Suc r)] = n # [Suc n..<Suc n + Suc r]" by (simp add: upt_conv_Cons)
  ultimately show ?case using Suc.IH [of "Suc n"] by (simp only: table_rows.simps list.map)
qed

lemma count_eq: "count n k = (if n \<le> MAX_N \<and> k \<le> MAX_K then sat64 (V n k) else 0)"
proof -
  have "V 0 k = (if k = 0 then 1 else 0)" for k by (cases k) simp_all
  then have "1 # replicate MAX_K 0 = map (\<lambda>k. sat64 (V 0 k)) [0..<Suc MAX_K]"
    by (simp add: upt_conv_Cons sat64_def del: upt_Suc) (simp add: comp_def map_replicate_const map_Suc_upt [symmetric] del: upt_Suc)
  then have tab: "build_table = map (\<lambda>n. map (\<lambda>k. sat64 (V n k)) [0..<Suc MAX_K]) [0..<0 + Suc MAX_N]"
    unfolding build_table_def by (simp only: table_rows_V)
  show ?thesis unfolding count_def tab by (auto simp del: upt_Suc)
qed

section \<open>Positions\<close>

text \<open>The vectors whose first entry is smaller than \<open>m\<close> come first.\<close>

definition below :: "nat \<Rightarrow> nat \<Rightarrow> nat \<Rightarrow> nat" where
  "below r k m = (\<Sum>s<m. (if s = 0 then 1 else 2) * V r (k - s))"

lemma below_0 [simp]: "below r k 0 = 0"
  by (simp add: below_def)

lemma below_Suc: "below r k (Suc m) = below r k m + (if m = 0 then 1 else 2) * V r (k - m)"
  by (simp add: below_def)

lemma below_mono: "m \<le> m' \<Longrightarrow> below r k m \<le> below r k m'"
  unfolding below_def by (rule sum_mono2) auto

lemma below_shift: "below r (Suc k) (Suc (Suc m)) = V r (Suc k) + V r k + below r k (Suc m)"
  by (induction m) (simp_all add: below_Suc)

lemma below_all: "below r k (Suc k) = V (Suc r) k"
proof (induction k)
  case 0
  then show ?case by (simp add: below_Suc)
next
  case (Suc k)
  then show ?case using below_shift [of r k k] by simp
qed

lemma V_mono_left: "n \<le> n' \<Longrightarrow> V n k \<le> V n' k"
proof (induction n' rule: dec_induct)
  case (step n')
  then show ?case using below_Suc [of n' k 0] below_mono [of 1 "Suc k" n' k] by (simp add: below_all)
qed simp

lemma V_mono_right: "k \<le> k' \<Longrightarrow> 0 < n \<Longrightarrow> V n k \<le> V n k'"
proof (induction k' rule: dec_induct)
  case (step k')
  then obtain m where "n = Suc m" by (cases n) auto
  then show ?case using step by simp
qed simp

text \<open>The position of a vector, in the naturals.\<close>

fun place :: "i32 list \<Rightarrow> nat \<Rightarrow> nat" where
  "place [] k = 0"
| "place (v # ys) k =
     below (length ys) k (unsigned_abs v) + (if 0 <s v then V (length ys) (k - unsigned_abs v) else 0)
       + place ys (k - unsigned_abs v)"

abbreviation norm :: "i32 list \<Rightarrow> nat" where
  "norm y \<equiv> sum_list (map unsigned_abs y)"

lemma unsigned_abs_0 [simp]: "unsigned_abs v = 0 \<longleftrightarrow> v = 0"
  by (simp add: unsigned_abs_def signed_eq_0_iff)

lemma signed_eqI:
  assumes "unsigned_abs v = unsigned_abs w" "0 <s v \<longleftrightarrow> 0 <s w"
  shows "v = w"
proof -
  have "0 < sint v \<longleftrightarrow> 0 < sint w" using assms(2) by (simp add: word_sless_alt)
  moreover have "\<bar>sint v\<bar> = \<bar>sint w\<bar>" using assms(1) by (simp add: unsigned_abs_def)
  ultimately have "sint v = sint w" by linarith
  then show ?thesis by (rule signed_word_eqI)
qed

lemma place_bound: "norm y = k \<Longrightarrow> place y k < V (length y) k"
proof (induction y arbitrary: k)
  case Nil
  then show ?case by simp
next
  case (Cons v ys)
  let ?m = "unsigned_abs v"
  from Cons.prems have m: "?m \<le> k" "norm ys = k - ?m" by auto
  have "below (length ys) k (Suc ?m) \<le> V (Suc (length ys)) k"
    using below_mono [of "Suc ?m" "Suc k" "length ys" k] m by (simp add: below_all)
  moreover have "place ys (k - ?m) < V (length ys) (k - ?m)" using Cons.IH [OF m(2)] .
  ultimately show ?case by (cases "v = 0") (auto simp: below_Suc)
qed

lemma place_inj:
  "norm y = k \<Longrightarrow> norm z = k \<Longrightarrow> length y = length z \<Longrightarrow> place y k = place z k \<Longrightarrow> y = z"
proof (induction y arbitrary: k z)
  case Nil
  then show ?case by simp
next
  case (Cons v ys)
  then obtain w zs where z: "z = w # zs" "length zs = length ys" by (cases z) auto
  let ?r = "length ys" and ?m = "unsigned_abs v" and ?l = "unsigned_abs w"
  have m: "?m \<le> k" "norm ys = k - ?m" and l: "?l \<le> k" "norm zs = k - ?l" using Cons.prems z by auto
  have pv: "place ys (k - ?m) < V ?r (k - ?m)" and pw: "place zs (k - ?l) < V ?r (k - ?l)"
    using place_bound [OF m(2)] place_bound [OF l(2)] z by auto
  have inv: "below ?r k ?m \<le> place (v # ys) k \<and> place (v # ys) k < below ?r k (Suc ?m)"
    using pv by (cases "v = 0") (auto simp: below_Suc)
  have inw: "below ?r k ?l \<le> place (w # zs) k \<and> place (w # zs) k < below ?r k (Suc ?l)"
    using pw z(2) by (cases "w = 0") (auto simp: below_Suc)
  have eq: "place (v # ys) k = place (w # zs) k" using Cons.prems z by simp
  have "\<not> ?m < ?l" using inv inw eq below_mono [of "Suc ?m" ?l ?r k] by linarith
  moreover have "\<not> ?l < ?m" using inv inw eq below_mono [of "Suc ?l" ?m ?r k] by linarith
  ultimately have ml: "?m = ?l" by simp
  then have "(0 <s v) = (0 <s w)" using eq z(2) pv pw by (auto split: if_splits)
  with ml have "v = w" by (rule signed_eqI)
  moreover have "place ys (k - ?m) = place zs (k - ?m)" using eq z(2) \<open>v = w\<close> by (auto split: if_splits)
  ultimately show ?case using Cons.IH [OF m(2), of zs] l ml z by simp
qed

lemma below_reaches: "p < below r k (Suc m) \<Longrightarrow> \<exists>j\<le>m. below r k j \<le> p \<and> p < below r k (Suc j)"
proof (induction m)
  case (Suc m)
  then show ?case by (cases "p < below r k (Suc m)") (auto intro: le_SucI)
qed auto

lemma entry_of:
  assumes "m \<le> MAX_K"
  shows "unsigned_abs (word_of_nat m) = m" "unsigned_abs (- word_of_nat m) = m"
    "0 <s (word_of_nat m :: i32) \<longleftrightarrow> 0 < m" "\<not> 0 <s (- word_of_nat m :: i32)"
proof -
  have m: "m < 2 ^ 31" using assms by (simp add: MAX_K_def)
  then have p: "sint (word_of_nat m :: i32) = int m"
    by (simp add: signed_of_nat signed_take_bit_int_eq_self)
  have n: "sint (- word_of_nat m :: i32) = - int m"
  proof -
    have "(- word_of_nat m :: i32) = word_of_int (- int m)" by simp
    then show ?thesis using m by (simp only: signed_of_int) (simp add: signed_take_bit_int_eq_self)
  qed
  from p n show "unsigned_abs (word_of_nat m) = m" "unsigned_abs (- word_of_nat m) = m"
    "0 <s (word_of_nat m :: i32) \<longleftrightarrow> 0 < m" "\<not> 0 <s (- word_of_nat m :: i32)"
    by (simp_all add: unsigned_abs_def word_sless_alt)
qed

lemma place_surj: "k \<le> MAX_K \<Longrightarrow> p < V n k \<Longrightarrow> \<exists>y. length y = n \<and> norm y = k \<and> place y k = p"
proof (induction n arbitrary: k p)
  case 0
  then show ?case by (cases k) auto
next
  case (Suc r)
  from Suc.prems have "p < below r k (Suc k)" by (simp add: below_all)
  from below_reaches [OF this] obtain m where m: "m \<le> k" "below r k m \<le> p" "p < below r k (Suc m)" by blast
  define q where "q = p - below r k m"
  have mK: "m \<le> MAX_K" and kK: "k - m \<le> MAX_K" using m(1) Suc.prems by auto
  note entry = entry_of [OF mK]
  define positive where "positive = (0 < m \<and> V r (k - m) \<le> q)"
  define v :: i32 where "v = (if positive then word_of_nat m else - word_of_nat m)"
  define q' where "q' = (if positive then q - V r (k - m) else q)"
  have "q < (if m = 0 then 1 else 2) * V r (k - m)" using m by (auto simp: q_def below_Suc)
  then have "q' < V r (k - m)" by (auto simp: q'_def positive_def split: if_splits)
  from Suc.IH [OF kK this] obtain ys where ys: "length ys = r" "norm ys = k - m" "place ys (k - m) = q'" by blast
  have v: "unsigned_abs v = m" "0 <s v \<longleftrightarrow> positive" using entry by (auto simp: v_def positive_def)
  have "place (v # ys) k = p"
    using ys m(2) by (auto simp: v q'_def q_def positive_def)
  then show ?case using ys v(1) m(1) by (intro exI [of _ "v # ys"]) simp
qed

lemma place_bij:
  assumes "k \<le> MAX_K"
  shows "bij_betw (\<lambda>y. place y k) (codebook n k) {..<V n k}"
proof (rule bij_betwI')
  show "place y k = place z k \<longleftrightarrow> y = z" if "y \<in> codebook n k" "z \<in> codebook n k" for y z
    using that place_inj [of y k z] by (auto simp: codebook_def)
  show "place y k \<in> {..<V n k}" if "y \<in> codebook n k" for y
    using that place_bound [of y k] by (auto simp: codebook_def)
  show "\<exists>y\<in>codebook n k. p = place y k" if "p \<in> {..<V n k}" for p
    using that place_surj [OF assms, of p n] by (auto simp: codebook_def)
qed

lemma card_codebook: "k \<le> MAX_K \<Longrightarrow> card (codebook n k) = V n k"
  using bij_betw_same_card [OF place_bij [of k n]] by simp

section \<open>The machine arithmetic\<close>

text \<open>A codebook whose size a word can hold, and with it every count that its positions add up.\<close>

definition addressable :: "nat \<Rightarrow> nat \<Rightarrow> bool" where
  "addressable n k \<longleftrightarrow> n \<le> MAX_N \<and> k \<le> MAX_K \<and> V n k < 2 ^ 64"

lemma addressable_smaller: "addressable n k \<Longrightarrow> r < n \<Longrightarrow> j \<le> k \<Longrightarrow> addressable r j"
  using V_mono_left [of r n j] V_mono_right [of j k n] by (auto simp: addressable_def)

lemma unat_count: "addressable n k \<Longrightarrow> unat (count n k) = V n k"
  by (simp add: addressable_def count_eq unat_sat64)

lemma count_exact: "addressable n k \<Longrightarrow> count n k = word_of_nat (V n k)"
  by (rule unat_eqI) (simp add: unat_count, simp add: addressable_def unat_of_nat)

lemma index_fold:
  assumes "addressable (Suc r) k"
  shows "fold (\<lambda>smaller i. i + (let ways = count r (k - smaller) in if smaller = 0 then ways else 2 * ways)) [0..<m] i
    = i + word_of_nat (below r k m)"
proof (induction m)
  case (Suc m)
  have "count r (k - m) = word_of_nat (V r (k - m))"
    using addressable_smaller [OF assms, of r "k - m"] by (simp add: count_exact)
  then show ?case using Suc by (simp add: below_Suc)
qed simp

lemma index_from_place:
  "addressable (length ys) k \<Longrightarrow> index_from ys k i = i + word_of_nat (place ys k)"
proof (induction ys arbitrary: k i)
  case (Cons v ys)
  let ?m = "unsigned_abs v"
  have sm: "addressable (length ys) (k - ?m)" using addressable_smaller [OF Cons.prems] by simp
  have "0 < ?m \<and> 0 <s v \<longleftrightarrow> 0 <s v" by (auto simp: word_sless_alt unsigned_abs_def)
  then show ?case
    using Cons.IH [OF sm] index_fold [of "length ys" k ?m] Cons.prems count_exact [OF sm]
    by (simp add: Let_def add.assoc)
qed simp

lemma index_place:
  assumes "y \<in> codebook n k" "addressable n k"
  shows "index y = word_of_nat (place y k)" "unat (index y) = place y k"
proof -
  show i: "index y = word_of_nat (place y k)"
    using assms index_from_place [of y k 0] by (auto simp: codebook_def index_def)
  have "place y k < 2 ^ 64" using assms place_bound [of y k] by (auto simp: codebook_def addressable_def)
  then show "unat (index y) = place y k" by (simp add: i unat_of_nat)
qed

definition block :: "nat \<Rightarrow> nat \<Rightarrow> nat \<Rightarrow> u64" where
  "block r k m = (let ways = count r (k - m) in if m = 0 then ways else 2 * ways)"

lemma unat_block:
  assumes "addressable (Suc r) k" "m \<le> k"
  shows "unat (block r k m) = below r k (Suc m) - below r k m" "unat (count r (k - m)) = V r (k - m)"
proof -
  show c: "unat (count r (k - m)) = V r (k - m)"
    using addressable_smaller [OF assms(1), of r "k - m"] by (simp add: unat_count)
  have "below r k (Suc m) \<le> V (Suc r) k" using below_mono [of "Suc m" "Suc k" r k] assms(2) by (simp add: below_all)
  then have "(if m = 0 then 1 else 2) * V r (k - m) < 2 ^ 64" using assms(1) by (simp add: addressable_def below_Suc)
  then show "unat (block r k m) = below r k (Suc m) - below r k m"
    using c by (auto simp: block_def Let_def below_Suc unat_word_ariths)
qed

lemma scan_slot_here:
  assumes "addressable (Suc r) k" "norm (v # ys) = k" "length ys = r"
    and i: "unat i = place (v # ys) k - below r k (unsigned_abs v)"
  shows "scan_slot r k (unsigned_abs v) i = (v, word_of_nat (place ys (k - unsigned_abs v)))"
proof -
  define m where "m = unsigned_abs v"
  have m: "m \<le> k" "norm ys = k - m" using assms(2) by (auto simp: m_def)
  have tail: "place ys (k - m) < V r (k - m)" using place_bound [OF m(2)] assms(3) by simp
  have here: "unat i = (if 0 <s v then V r (k - m) else 0) + place ys (k - m)" using i assms(3) by (simp add: m_def)
  have mK: "m \<le> MAX_K" using m(1) assms(1) by (simp add: addressable_def)
  note entry = entry_of [OF mK] and blk = unat_block [OF assms(1) m(1)]
  have v: "v = (if 0 <s v then word_of_nat m else - word_of_nat m)"
    using entry by (intro signed_eqI) (auto simp: m_def word_sless_alt)
  have v0: "\<not> 0 <s v" if "m = 0" using that by (simp add: m_def)
  have inside: "i < block r k m"
    using here tail v0 blk(1) by (auto simp: word_less_nat_alt below_Suc)
  have low: "i < count r (k - m) \<longleftrightarrow> \<not> 0 <s v"
    using here tail blk(2) by (auto simp: word_less_nat_alt)
  have rest: "place ys (k - m) = unat (if 0 <s v then i - count r (k - m) else i)"
    using here blk(2) by (auto simp: unat_sub word_le_nat_alt)
  show ?thesis unfolding m_def [symmetric]
    using inside low v v0 rest by (subst scan_slot.simps) (auto simp: Let_def block_def)
qed

lemma scan_slot_finds:
  assumes "addressable (Suc r) k" "norm (v # ys) = k" "length ys = r"
  shows "m \<le> unsigned_abs v \<Longrightarrow> unat i = place (v # ys) k - below r k m \<Longrightarrow>
    scan_slot r k m i = (v, word_of_nat (place ys (k - unsigned_abs v)))"
proof (induction "unsigned_abs v - m" arbitrary: m i)
  case 0
  then show ?case using scan_slot_here [OF assms, of i] by simp
next
  case (Suc x)
  then have m: "m < unsigned_abs v" "m \<le> k" using assms(2) by auto
  have "below r k (Suc m) \<le> place (v # ys) k"
    using below_mono [of "Suc m" "unsigned_abs v" r k] m(1) assms(3) by simp
  moreover have "below r k m \<le> below r k (Suc m)" by (simp add: below_Suc)
  ultimately have past: "\<not> i < block r k m" "unat (i - block r k m) = place (v # ys) k - below r k (Suc m)"
    using Suc.prems(2) unat_block(1) [OF assms(1) m(2)]
    by (auto simp: word_less_nat_alt unat_sub word_le_nat_alt simp del: place.simps)
  have "scan_slot r k (Suc m) (i - block r k m) = (v, word_of_nat (place ys (k - unsigned_abs v)))"
    using Suc.hyps(2) m past(2) by (intro Suc.hyps(1)) auto
  then show ?case using past(1) m assms(2) by (subst scan_slot.simps) (auto simp: Let_def block_def)
qed

lemma deindex_from_place:
  "addressable (length y) k \<Longrightarrow> norm y = k \<Longrightarrow> unat i = place y k \<Longrightarrow> deindex_from (length y) k i = y"
proof (induction y arbitrary: k i)
  case (Cons v ys)
  then have "addressable (Suc (length ys)) k" by simp
  from scan_slot_finds [OF this Cons.prems(2) refl, of 0 i] Cons.prems(3)
  have found: "scan_slot (length ys) k 0 i = (v, word_of_nat (place ys (k - unsigned_abs v)))" by simp
  have sm: "addressable (length ys) (k - unsigned_abs v)" using addressable_smaller [OF Cons.prems(1)] by simp
  have "norm ys = k - unsigned_abs v" using Cons.prems(2) by auto
  moreover from place_bound [OF this] have "place ys (k - unsigned_abs v) < 2 ^ 64"
    using sm by (simp add: addressable_def)
  ultimately show ?case using Cons.IH [OF sm] found by (simp add: unat_of_nat)
qed simp

lemma deindex_index: "y \<in> codebook n k \<Longrightarrow> addressable n k \<Longrightarrow> deindex n k (index y) = y"
  using deindex_from_place [of y k "index y"] index_place(2) [of y n k] by (auto simp: deindex_def codebook_def)

lemma index_deindex:
  assumes "addressable n k" "i < count n k"
  shows "deindex n k i \<in> codebook n k" "index (deindex n k i) = i"
proof -
  have "unat i < V n k" "k \<le> MAX_K" using assms unat_count [OF assms(1)] by (auto simp: word_less_nat_alt addressable_def)
  then obtain y where y: "y \<in> codebook n k" "place y k = unat i"
    using place_surj [of k "unat i" n] by (auto simp: codebook_def)
  then have "index y = i" by (intro unat_eqI) (simp add: index_place(2) [OF y(1) assms(1)])
  with deindex_index [OF y(1) assms(1)] y show "deindex n k i \<in> codebook n k" "index (deindex n k i) = i" by auto
qed

section \<open>Properties\<close>

text \<open>The table counts the codebook.  Every entry of the table that \<^verbatim>\<open>build_table\<close> fills with saturating additions is
  the number of vectors of that many entries and pulses, cut off at the largest 64-bit word.
\<close>

theorem count_counts_the_codebook:
  assumes "n \<le> MAX_N" "k \<le> MAX_K"
  shows "unat (count n k) = min (card (codebook n k)) (2 ^ 64 - 1)"
  using assms by (simp add: count_eq unat_sat64 card_codebook)

lemma count_counts_the_codebook_witness: "unat (count 2 1) = min (card (codebook 2 1)) (2 ^ 64 - 1)"
  by (rule count_counts_the_codebook) (simp_all add: MAX_N_def MAX_K_def)

text \<open>C20: indexing is a bijection.  Where a codebook is small enough to be indexed, \<^verbatim>\<open>index\<close> and \<^verbatim>\<open>deindex\<close> are inverse to
  each other between the vectors of the codebook and the indices below its size, the wrapping arithmetic of both
  included.
\<close>

theorem indexing_is_a_bijection:
  assumes "n \<le> MAX_N" "k \<le> MAX_K" "count n k < push_bit MAX_INDEX_BITS 1"
  shows "bij_betw index (codebook n k) {i. i < count n k} \<and>
    (\<forall>y. y \<in> codebook n k \<longrightarrow> deindex n k (index y) = y) \<and>
    (\<forall>i. i < count n k \<longrightarrow> deindex n k i \<in> codebook n k \<and> index (deindex n k i) = i)"
proof -
  have ad: "addressable n k"
    using assms by (auto simp: addressable_def count_eq word_less_nat_alt unat_sat64 MAX_INDEX_BITS_def)
  have below: "index y < count n k" if "y \<in> codebook n k" for y
    using that index_place(2) [OF that ad] place_bound [of y k] unat_count [OF ad]
    by (auto simp: word_less_nat_alt codebook_def)
  have "bij_betw index (codebook n k) {i. i < count n k}"
    using deindex_index [OF _ ad] index_deindex [OF ad] below
    by (intro bij_betw_byWitness [where f' = "deindex n k"]) auto
  then show ?thesis using deindex_index [OF _ ad] index_deindex [OF ad] by blast
qed

lemma indexing_is_a_bijection_witness:
  "deindex 2 1 (index [0, - 1]) = [0, - 1] \<and> index (deindex 2 1 3) = 3"
proof -
  have "V 2 1 = 4" by (simp add: numeral_2_eq_2)
  then have c: "count 2 1 = 4" by (simp add: count_eq MAX_N_def MAX_K_def sat64_def)
  have "[0, - 1] \<in> codebook 2 1" by (simp add: codebook_def unsigned_abs_def)
  moreover have "2 \<le> MAX_N" "1 \<le> MAX_K" by (simp_all add: MAX_N_def MAX_K_def)
  moreover have "count 2 1 < push_bit MAX_INDEX_BITS 1" unfolding c by (simp add: MAX_INDEX_BITS_def)
  moreover have "3 < count 2 1" unfolding c by simp
  ultimately show ?thesis using indexing_is_a_bijection [of 2 1] by blast
qed

lemma pulses_loop_fits:
  "best \<le> m \<Longrightarrow> \<forall>j\<in>set ks. j \<le> m \<Longrightarrow> k = pulses_loop affordable n budget ks best \<Longrightarrow>
    k \<le> m \<and> (k = best \<or> within_budget affordable (bits n k) budget \<and> count n k \<noteq> 0)"
proof (induction ks arbitrary: best)
  case (Cons j ks)
  show ?case
  proof (cases "count n j \<noteq> 0 \<and> within_budget affordable (bits n j) budget")
    case True
    with Cons.prems Cons.IH [of j] show ?thesis by auto
  next
    case False
    with Cons.prems have "k = best" by (auto split: if_splits)
    with Cons.prems show ?thesis by simp
  qed
qed simp

lemma unlimited_below: "bits n k \<noteq> Infinite \<longleftrightarrow> count n k < push_bit MAX_INDEX_BITS 1"
proof -
  have "(1 :: u64) < push_bit MAX_INDEX_BITS 1" by (simp add: MAX_INDEX_BITS_def)
  then show ?thesis by (auto simp: bits_def Let_def not_le split: if_splits)
qed

lemma indexable_addressable: "n \<le> MAX_N \<Longrightarrow> k \<le> MAX_K \<Longrightarrow> bits n k \<noteq> Infinite \<Longrightarrow> addressable n k"
  unfolding unlimited_below by (auto simp: addressable_def count_eq word_less_nat_alt unat_sat64 MAX_INDEX_BITS_def)

lemma index_below: "addressable n k \<Longrightarrow> y \<in> codebook n k \<Longrightarrow> index y < count n k"
  using index_place(2) [of y n k] place_bound [of y k] unat_count [of n k]
  by (auto simp: word_less_nat_alt codebook_def)

lemma pulses_for_ok:
  assumes "n \<le> MAX_N" "k = pulses_for affordable n budget"
  shows "k \<le> MAX_K" "0 < count n k" "bits n k \<noteq> Infinite" "0 < k \<longrightarrow> within_budget affordable (bits n k) budget"
proof -
  have zero: "count n 0 = 1" using assms(1) by (simp add: count_eq sat64_def)
  then have zero': "bits n 0 \<noteq> Infinite" by (simp add: bits_def)
  have k: "k \<le> MAX_K \<and> (k = 0 \<or> within_budget affordable (bits n k) budget \<and> count n k \<noteq> 0)"
    using pulses_loop_fits [of 0 MAX_K "[1..<MAX_K + 1]" k affordable n budget]
    by (auto simp: assms(2) pulses_for_def simp del: upt_Suc)
  then show "k \<le> MAX_K" "0 < k \<longrightarrow> within_budget affordable (bits n k) budget" by auto
  show "0 < count n k" using k zero by (cases "k = 0") (auto simp: word_gt_0)
  show "bits n k \<noteq> Infinite" using k zero' by (cases "k = 0") auto
qed

text \<open>The quantiser only chooses codebooks it can index.  However codebooks are priced, the number of pulses chosen
  for a band is one whose codebook has vectors, is within the budget and has fewer than \<^verbatim>\<open>2 ^ MAX_INDEX_BITS\<close> of them.
\<close>

theorem chosen_codebook_is_indexable:
  fixes affordable :: "u64 \<Rightarrow> nat \<Rightarrow> bool" and n budget :: nat
  assumes "n \<le> MAX_N"
  defines "k \<equiv> pulses_for affordable n budget"
  shows "k \<le> MAX_K \<and> 0 < count n k \<and> count n k < push_bit MAX_INDEX_BITS 1 \<and> (0 < k \<longrightarrow> within_budget affordable (bits n k) budget)"
  using pulses_for_ok [OF assms(1) k_def [THEN meta_eq_to_obj_eq]] by (simp add: unlimited_below)

lemma chosen_codebook_is_indexable_witness:
  "pulses_for (\<lambda>c b. unat c \<le> 2 ^ b) 4 6 \<le> MAX_K \<and> count 4 (pulses_for (\<lambda>c b. unat c \<le> 2 ^ b) 4 6) < push_bit MAX_INDEX_BITS 1"
  using chosen_codebook_is_indexable [of 4 "\<lambda>c b. unat c \<le> 2 ^ b" 6] by (simp add: MAX_N_def)

end
