(* ===== verification/Range_Coder.thy ===== *)
theory Range_Coder
  imports Rotelyx_Prelude
begin

text \<open>
  The entropy coder of \<^verbatim>\<open>rotelyx-codec/src/entropy.rs\<close>: a carry-propagating range coder and an adaptive
  frequency model.  The coder works on machine words as the code does; a division by zero or an index out of range
  is \<^term>\<open>None\<close>, and so is a renormalisation that never ends (a range of zero).  The number of queued bytes
  (\<^verbatim>\<open>cache_size\<close>) is a number, since it never exceeds the number of bytes written.
\<close>

definition TOP :: u32 where "TOP = push_bit 24 1"
definition MAX_TOTAL :: u32 where "MAX_TOTAL = 2048"

section \<open>The encoder\<close>

record range_encoder =
  re_low :: u64
  re_range :: u32
  re_cache :: u8
  re_cache_size :: nat
  re_out :: bytes

definition range_encoder_new :: range_encoder where
  "range_encoder_new = \<lparr> re_low = 0, re_range = - 1, re_cache = 0, re_cache_size = 1, re_out = [] \<rparr>"

definition range_shift :: "range_encoder \<Rightarrow> range_encoder" where
  "range_shift e =
     (let carry = ucast (drop_bit 32 (re_low e)) :: u8;
          low32 = ucast (re_low e) :: u32;
          e = (if carry \<noteq> 0 \<or> low32 < 0xff000000
               then e\<lparr>re_out := re_out e @ (re_cache e + carry) # replicate (re_cache_size e - 1) (0xff + carry),
                      re_cache := ucast (drop_bit 24 (re_low e)), re_cache_size := 0\<rparr>
               else e)
      in e\<lparr>re_cache_size := re_cache_size e + 1, re_low := ucast (push_bit 8 low32)\<rparr>)"

partial_function (option) encoder_renorm :: "range_encoder \<Rightarrow> range_encoder option" where
  "encoder_renorm e =
     (if re_range e < TOP then encoder_renorm ((range_shift e)\<lparr>re_range := push_bit 8 (re_range e)\<rparr>) else Some e)"

definition range_encode :: "range_encoder \<Rightarrow> u32 \<Rightarrow> u32 \<Rightarrow> u32 \<Rightarrow> range_encoder option" where
  "range_encode e cum freq tot =
     (if tot = 0 then None
      else let r = re_range e div tot
           in encoder_renorm (e\<lparr>re_low := re_low e + ucast r * ucast cum, re_range := r * freq\<rparr>))"

definition range_finish :: "range_encoder \<Rightarrow> bytes" where
  "range_finish e = tl (re_out ((range_shift ^^ 5) e))"

definition range_len :: "range_encoder \<Rightarrow> nat" where
  "range_len e = length (re_out e)"

section \<open>The decoder\<close>

record range_decoder =
  rd_code :: u32
  rd_range :: u32
  rd_input :: bytes
  rd_position :: nat

definition next_byte :: "range_decoder \<Rightarrow> u8 \<times> range_decoder" where
  "next_byte d =
     (if rd_position d < length (rd_input d) then rd_input d ! rd_position d else 0,
      d\<lparr>rd_position := rd_position d + 1\<rparr>)"

definition take_in :: "range_decoder \<Rightarrow> range_decoder" where
  "take_in d = (case next_byte d of (b, d) \<Rightarrow> d\<lparr>rd_code := push_bit 8 (rd_code d) OR ucast b\<rparr>)"

definition range_decoder_new :: "bytes \<Rightarrow> range_decoder" where
  "range_decoder_new bs = (take_in ^^ 4) \<lparr> rd_code = 0, rd_range = - 1, rd_input = bs, rd_position = 0 \<rparr>"

definition decoder_target :: "range_decoder \<Rightarrow> u32 \<Rightarrow> (u32 \<times> range_decoder) option" where
  "decoder_target d tot =
     (if tot = 0 then None
      else let range = rd_range d div tot
           in if range = 0 then None
              else Some (min (rd_code d div range) (tot - 1), d\<lparr>rd_range := range\<rparr>))"

partial_function (option) decoder_renorm :: "range_decoder \<Rightarrow> range_decoder option" where
  "decoder_renorm d =
     (if rd_range d < TOP
      then decoder_renorm ((take_in d)\<lparr>rd_range := push_bit 8 (rd_range d)\<rparr>) else Some d)"

definition decoder_update :: "range_decoder \<Rightarrow> u32 \<Rightarrow> u32 \<Rightarrow> range_decoder option" where
  "decoder_update d cum freq =
     decoder_renorm (d\<lparr>rd_code := rd_code d - cum * rd_range d, rd_range := rd_range d * freq\<rparr>)"

section \<open>The adaptive model\<close>

record freq_model =
  fm_counts :: "u32 list"
  fm_total :: u32

definition model_new :: "nat \<Rightarrow> freq_model" where
  "model_new symbols = \<lparr> fm_counts = replicate symbols 1, fm_total = word_of_nat symbols \<rparr>"

definition range_of :: "freq_model \<Rightarrow> nat \<Rightarrow> (u32 \<times> u32) option" where
  "range_of m symbol =
     (if symbol < length (fm_counts m)
      then Some (sum_list (take symbol (fm_counts m)), fm_counts m ! symbol) else None)"

fun symbol_scan :: "u32 \<Rightarrow> nat \<Rightarrow> u32 \<Rightarrow> u32 list \<Rightarrow> (nat \<times> u32 \<times> u32) option" where
  "symbol_scan target symbol cum [] = None"
| "symbol_scan target symbol cum (c # cs) =
     (if target < cum + c then Some (symbol, cum, c) else symbol_scan target (Suc symbol) (cum + c) cs)"

definition symbol_at :: "freq_model \<Rightarrow> u32 \<Rightarrow> (nat \<times> u32 \<times> u32) option" where
  "symbol_at m target =
     (case symbol_scan target 0 0 (fm_counts m) of
        Some r \<Rightarrow> Some r
      | None \<Rightarrow>
          if fm_counts m = [] then None
          else let c = last (fm_counts m) in Some (length (fm_counts m) - 1, fm_total m - c, c))"

definition model_update :: "freq_model \<Rightarrow> nat \<Rightarrow> freq_model option" where
  "model_update m symbol =
     (if symbol < length (fm_counts m)
      then let counts = (fm_counts m)[symbol := fm_counts m ! symbol + 24];
               tot = fm_total m + 24
           in Some (if MAX_TOTAL \<le> tot
                    then let halved = map (\<lambda>c. max (drop_bit 1 c) 1) counts
                         in \<lparr> fm_counts = halved, fm_total = sum_list halved \<rparr>
                    else \<lparr> fm_counts = counts, fm_total = tot \<rparr>)
      else None)"

definition encode_symbol :: "range_encoder \<Rightarrow> freq_model \<Rightarrow> nat \<Rightarrow> (range_encoder \<times> freq_model) option" where
  "encode_symbol e m symbol =
     Option.bind (range_of m symbol) (\<lambda>(cum, freq).
     Option.bind (range_encode e cum freq (fm_total m)) (\<lambda>e.
     Option.bind (model_update m symbol) (\<lambda>m. Some (e, m))))"

definition decode_symbol :: "range_decoder \<Rightarrow> freq_model \<Rightarrow> (nat \<times> range_decoder \<times> freq_model) option" where
  "decode_symbol d m =
     Option.bind (decoder_target d (fm_total m)) (\<lambda>(target, d).
     Option.bind (symbol_at m target) (\<lambda>(symbol, cum, freq).
     Option.bind (decoder_update d cum freq) (\<lambda>d.
     Option.bind (model_update m symbol) (\<lambda>m. Some (symbol, d, m)))))"

section \<open>The number an encoder has written\<close>

text \<open>
  An encoder stands for the bytes it has written, its cached byte, the queued \<open>0xff\<close> bytes and \<open>low\<close>, read as one
  number.  Shifting a byte out multiplies that number by 256 and changes nothing else, whatever carries.
\<close>

definition pending :: "range_encoder \<Rightarrow> bytes" where
  "pending e = re_out e @ re_cache e # replicate (re_cache_size e - 1) 0xff"

definition code_value :: "range_encoder \<Rightarrow> nat" where
  "code_value e = of_be (pending e) * 2 ^ 32 + unat (re_low e)"

definition code_bytes :: "range_encoder \<Rightarrow> nat" where
  "code_bytes e = length (re_out e) + re_cache_size e"

definition carry_ok :: "nat \<Rightarrow> range_encoder \<Rightarrow> bool" where
  "carry_ok r e \<longleftrightarrow> 1 \<le> re_cache_size e \<and> unat (re_low e) + r \<le> 2 ^ 33 \<and> 0 < r \<and>
     (re_cache e = 0xff \<longrightarrow> unat (re_low e) + r \<le> 2 ^ 32)"

lemma of_be_snoc_Cons: "of_be (xs @ c # ys @ [d]) = of_be (xs @ c # ys) * 256 + unat d"
  using of_be_snoc [of "xs @ c # ys" d] by simp

lemma of_be_carry: "c \<noteq> 0xff \<Longrightarrow> of_be (xs @ (c + 1) # replicate n 0) = Suc (of_be (xs @ c # replicate n 0xff))"
proof (induction n)
  case 0
  have "unat c \<noteq> 255" using 0 unat_eqI [of c 255] by auto
  moreover have "unat c < 256" by simp
  ultimately have "Suc (unat c) < 256" by linarith
  then have "unat (c + 1) = Suc (unat c)" by (simp add: unat_word_ariths)
  then show ?case by (simp add: of_be_snoc [of "xs" "c + 1"] of_be_snoc [of xs c])
next
  case (Suc n)
  have "xs @ d # replicate (Suc n) y = (xs @ d # replicate n y) @ [y]" for d y :: u8
    by (simp add: replicate_append_same)
  then show ?case using Suc by (simp only: of_be_snoc) simp
qed

lemma shift_parts:
  fixes low :: u64
  assumes "unat low < 2 ^ 33"
  shows "unat (ucast (drop_bit 32 low) :: u8) = unat low div 2 ^ 32"
    and "unat (ucast low :: u32) = unat low mod 2 ^ 32"
    and "unat (ucast (drop_bit 24 low) :: u8) = unat low div 2 ^ 24 mod 256"
    and "unat (ucast (push_bit 8 (ucast low :: u32)) :: u64) = 256 * unat low mod 2 ^ 32"
proof -
  have "unat low div 2 ^ 32 < 256" using assms by simp
  then have "unat low div 2 ^ 32 mod 2 ^ LENGTH(8) = unat low div 2 ^ 32" by simp
  then show "unat (ucast (drop_bit 32 low) :: u8) = unat low div 2 ^ 32"
    by (simp only: unat_ucast unat_drop_bit_eq) (simp only: drop_bit_eq_div)
  show "unat (ucast low :: u32) = unat low mod 2 ^ 32" by (simp add: unat_ucast)
  show "unat (ucast (drop_bit 24 low) :: u8) = unat low div 2 ^ 24 mod 256"
    by (simp only: unat_ucast unat_drop_bit_eq) (simp add: drop_bit_eq_div)
  have "unat (push_bit 8 (ucast low :: u32)) = 256 * unat low mod 2 ^ 32"
    by (simp add: push_bit_eq_mult unat_word_ariths unat_ucast mod_mult_right_eq mult.commute)
  then show "unat (ucast (push_bit 8 (ucast low :: u32)) :: u64) = 256 * unat low mod 2 ^ 32"
    by (simp add: unat_ucast)
qed

text \<open>One byte shifted out.\<close>

lemma range_shift_value:
  assumes "carry_ok r e"
  shows "code_value (range_shift e) = 256 * code_value e \<and> code_bytes (range_shift e) = Suc (code_bytes e) \<and>
    1 \<le> re_cache_size (range_shift e) \<and> unat (re_low (range_shift e)) = 256 * unat (re_low e) mod 2 ^ 32 \<and>
    re_range (range_shift e) = re_range e \<and>
    (re_cache (range_shift e) = 0xff \<longrightarrow> unat (re_low (range_shift e)) + 256 * r \<le> 2 ^ 32)"
proof -
  obtain low range cache n out where e: "e = \<lparr> re_low = low, re_range = range, re_cache = cache, re_cache_size = Suc n, re_out = out \<rparr>"
    using assms by (cases e; cases "re_cache_size e") (auto simp: carry_ok_def)
  define l where "l = unat low"
  have r: "0 < r" and l: "l + r \<le> 2 ^ 33" and ff: "cache = 0xff \<Longrightarrow> l + r \<le> 2 ^ 32"
    using assms by (auto simp: carry_ok_def e l_def)
  then have l33: "unat low < 2 ^ 33" by (simp add: l_def)
  note parts = shift_parts [OF l33, folded l_def]
  have less: "(ucast low :: u32) < 0xff000000 \<longleftrightarrow> l mod 2 ^ 32 < 0xff000000"
    by (simp add: word_less_nat_alt parts(2))
  define low' :: u64 where "low' = ucast (push_bit 8 (ucast low :: u32))"
  have low': "unat low' = 256 * l mod 2 ^ 32" using parts(4) by (simp add: low'_def)
  have m: "256 * l mod 4294967296 = 256 * (l mod 16777216)" "l = l div 16777216 * 16777216 + l mod 16777216"
    using mult_mod_right [of 256 l 16777216] by simp_all
  define top :: u8 where "top = ucast (drop_bit 24 low)"
  have top: "unat top = l div 2 ^ 24 mod 256" using parts(3) by (simp add: top_def)
  consider "l < 0xff000000" | "0xff000000 \<le> l" "l < 2 ^ 32" | "2 ^ 32 \<le> l" by linarith
  then show ?thesis
  proof cases
    case 1
    have "(ucast (drop_bit 32 low) :: u8) = 0" by (rule unat_eqI) (use parts(1) 1 in simp)
    then have s: "range_shift e = \<lparr> re_low = low', re_range = range, re_cache = top, re_cache_size = 1,
        re_out = out @ cache # replicate n 0xff \<rparr>"
      using less 1 by (simp add: range_shift_def e low'_def top_def Let_def)
    have "unat top \<noteq> 255" using 1 by (simp add: top)
    then have "top \<noteq> 0xff" by auto
    moreover have "256 * l = l div 16777216 * 4294967296 + 256 * l mod 4294967296" using m by linarith
    moreover have "l div 16777216 mod 256 = l div 16777216" using 1 by simp
    ultimately show ?thesis
      unfolding s by (simp add: low' top e code_value_def pending_def code_bytes_def of_be_snoc_Cons flip: l_def)
  next
    case 2
    have "(ucast (drop_bit 32 low) :: u8) = 0" by (rule unat_eqI) (use parts(1) 2 in simp)
    then have s: "range_shift e = \<lparr> re_low = low', re_range = range, re_cache = cache, re_cache_size = Suc (Suc n), re_out = out \<rparr>"
      using less 2 by (simp add: range_shift_def e low'_def top_def Let_def)
    have "l div 16777216 = 255" using 2 by (intro div_nat_eqI) simp_all
    then have low: "256 * l = 255 * 4294967296 + 256 * l mod 4294967296" using m by linarith
    moreover have "256 * l mod 4294967296 + 256 * r \<le> 4294967296" if "cache = 255"
    proof -
      have "l + r \<le> 4294967296" using ff that by simp
      then show ?thesis using low by linarith
    qed
    moreover have "out @ cache # replicate (Suc n) 0xff = out @ cache # replicate n 0xff @ [0xff]"
      by (simp add: replicate_append_same)
    ultimately show ?thesis
      unfolding s by (simp add: low' e code_value_def pending_def code_bytes_def of_be_snoc_Cons flip: l_def del: replicate_Suc)
  next
    case 3
    have "cache \<noteq> 0xff" using 3 ff r by fastforce
    note carry = of_be_carry [OF this, of out n]
    have c: "(ucast (drop_bit 32 low) :: u8) = 1" by (rule unat_eqI) (use parts(1) 3 l r in simp)
    then have s: "range_shift e = \<lparr> re_low = low', re_range = range, re_cache = top, re_cache_size = 1,
        re_out = out @ (cache + 1) # replicate n 0 \<rparr>"
      by (simp add: range_shift_def e low'_def top_def Let_def)
    have "256 \<le> l div 16777216" "l div 16777216 < 512"
      using 3 l r by (simp_all add: less_eq_div_iff_mult_less_eq div_less_iff_less_mult)
    then have d: "l div 16777216 = 256 + l div 16777216 mod 256" by (simp only: le_mod_geq) simp
    define q where "q = l div 16777216 mod 256"
    define lo where "lo = l mod 16777216"
    have lo: "256 * l mod 4294967296 = 256 * lo" "l = (256 + q) * 16777216 + lo"
      using m unfolding q_def [symmetric] d [folded q_def] lo_def by simp_all
    moreover have "256 * lo + 256 * r \<le> 4294967296" if "top = 255"
    proof -
      have "q = 255" using that top by (simp add: q_def)
      moreover have "l + r \<le> 8589934592" using l by simp
      ultimately show ?thesis using lo(2) by simp
    qed
    moreover have "unat top = q" by (simp add: top q_def)
    ultimately show ?thesis
      unfolding s by (simp add: low' e code_value_def pending_def code_bytes_def carry of_be_snoc_Cons flip: l_def)
  qed
qed

section \<open>What encoding a symbol does to that number\<close>

text \<open>How many bytes a range is short of.\<close>

function byte_shifts :: "nat \<Rightarrow> nat" where
  "byte_shifts r = (if 0 < r \<and> r < 2 ^ 24 then Suc (byte_shifts (256 * r)) else 0)"
  by pat_completeness auto
termination
  by (relation "measure (\<lambda>r. 2 ^ 24 - r)") auto

declare byte_shifts.simps [simp del]

lemma byte_shifts_large: "2 ^ 24 \<le> r \<Longrightarrow> byte_shifts r = 0"
  by (simp add: byte_shifts.simps)

lemma byte_shifts_small: "0 < r \<Longrightarrow> r < 2 ^ 24 \<Longrightarrow> byte_shifts r = Suc (byte_shifts (256 * r))"
  by (subst byte_shifts.simps) simp

definition enc_ok :: "range_encoder \<Rightarrow> bool" where
  "enc_ok e \<longleftrightarrow> carry_ok (unat (re_range e)) e \<and> code_value e + unat (re_range e) \<le> 256 ^ (code_bytes e + 3)"

lemma unat_TOP: "unat TOP = 2 ^ 24"
  by (simp add: TOP_def push_bit_eq_mult)

lemma range_less_TOP: "r < TOP \<longleftrightarrow> unat r < 2 ^ 24"
  by (simp add: word_less_nat_alt unat_TOP)

lemma unat_push_range: "unat (r :: u32) < 2 ^ 24 \<Longrightarrow> unat (push_bit 8 r) = 256 * unat r"
  by (simp add: push_bit_eq_mult unat_word_ariths mult.commute)

lemma enc_ok_shift:
  assumes "enc_ok e" "unat (re_range e) < 2 ^ 24"
  defines "e' \<equiv> (range_shift e)\<lparr>re_range := push_bit 8 (re_range e)\<rparr>"
  shows "enc_ok e' \<and> code_value e' = 256 * code_value e \<and> code_bytes e' = Suc (code_bytes e) \<and>
    unat (re_range e') = 256 * unat (re_range e)"
proof -
  have ok: "carry_ok (unat (re_range e)) e" and bound: "code_value e + unat (re_range e) \<le> 256 ^ (code_bytes e + 3)"
    using assms(1) by (auto simp: enc_ok_def)
  note s = range_shift_value [OF ok]
  have range: "unat (re_range e') = 256 * unat (re_range e)" using assms(2) by (simp add: e'_def unat_push_range)
  have same: "code_value e' = code_value (range_shift e)" "code_bytes e' = code_bytes (range_shift e)"
    by (simp_all add: e'_def code_value_def pending_def code_bytes_def)
  have "unat (re_low (range_shift e)) < 2 ^ 32" using s by simp
  then have "carry_ok (unat (re_range e')) e'"
    unfolding carry_ok_def range using s ok assms(2) by (auto simp: e'_def carry_ok_def)
  moreover have "code_value e' + unat (re_range e') \<le> 256 ^ (code_bytes e' + 3)"
    using mult_le_mono2 [OF bound, of 256] s by (simp add: same range algebra_simps power_add)
  ultimately show ?thesis using s by (simp add: enc_ok_def same range)
qed

lemma encoder_renorm_value:
  assumes "enc_ok e"
  shows "\<exists>e'. encoder_renorm e = Some e' \<and> enc_ok e' \<and> 2 ^ 24 \<le> unat (re_range e') \<and>
    code_value e' = 256 ^ byte_shifts (unat (re_range e)) * code_value e \<and>
    code_bytes e' = code_bytes e + byte_shifts (unat (re_range e)) \<and>
    unat (re_range e') = 256 ^ byte_shifts (unat (re_range e)) * unat (re_range e)"
  using assms
proof (induction "unat (re_range e)" arbitrary: e rule: byte_shifts.induct)
  case 1
  have pos: "0 < unat (re_range e)" using 1(2) by (simp add: enc_ok_def carry_ok_def)
  show ?case
  proof (cases "unat (re_range e) < 2 ^ 24")
    case True
    note s = enc_ok_shift [OF 1(2) True]
    define f where "f = (range_shift e)\<lparr>re_range := push_bit 8 (re_range e)\<rparr>"
    have "encoder_renorm e = encoder_renorm f"
      using True by (subst encoder_renorm.simps) (simp add: range_less_TOP f_def)
    moreover have "256 * unat (re_range e) = unat (re_range f)" "enc_ok f" using s by (simp_all add: f_def)
    ultimately show ?thesis
      using 1(1) [OF _ _ \<open>enc_ok f\<close>] s True pos
      by (auto simp: byte_shifts_small [OF pos True] simp flip: f_def)
  next
    case False
    then show ?thesis using 1(2)
      by (subst encoder_renorm.simps) (simp add: range_less_TOP byte_shifts_large)
  qed
qed

text \<open>A share of the range: the interval a symbol takes lies in the range.\<close>

lemma share_bounds:
  assumes "2 ^ 24 \<le> R" "0 < (f :: nat)" "c + f \<le> t" "t \<le> 2 ^ 24"
  shows "0 < R div t" "R div t * c + R div t * f \<le> R"
proof -
  show "0 < R div t" using assms by (simp add: div_greater_zero_iff)
  have "R div t * (c + f) \<le> R div t * t" using assms(3) by (rule mult_le_mono2)
  also have "\<dots> \<le> R" by simp
  finally show "R div t * c + R div t * f \<le> R" by (simp add: distrib_left)
qed

lemma unat_mult_less: "unat (a :: 'a :: len word) * unat b < 2 ^ LENGTH('a) \<Longrightarrow> unat (a * b) = unat a * unat b"
  by (simp add: unat_word_ariths)

lemma unat_u64_of_u32: "unat (ucast (x :: u32) :: u64) = unat x"
proof -
  have "unat x < 18446744073709551616" by (rule less_trans [OF unat_u32_less]) simp
  then show ?thesis by (simp add: unat_ucast)
qed

lemma range_encode_value:
  assumes ok: "enc_ok e" and R: "2 ^ 24 \<le> unat (re_range e)" and freq: "0 < unat freq"
    and cum: "unat cum + unat freq \<le> unat tot" and tot: "unat tot \<le> 2 ^ 24"
  defines "r \<equiv> unat (re_range e) div unat tot"
  defines "n \<equiv> byte_shifts (r * unat freq)"
  shows "\<exists>e'. range_encode e cum freq tot = Some e' \<and> enc_ok e' \<and> 2 ^ 24 \<le> unat (re_range e') \<and>
    code_value e' = 256 ^ n * (code_value e + r * unat cum) \<and> code_bytes e' = code_bytes e + n \<and>
    unat (re_range e') = 256 ^ n * (r * unat freq)"
proof -
  have share: "0 < r" "r * unat cum + r * unat freq \<le> unat (re_range e)"
    using share_bounds [OF R freq cum tot] by (simp_all add: r_def)
  have R32: "unat (re_range e) < 2 ^ 32" using unsigned_less [of "re_range e", where ?'a = nat] by simp
  then have small: "r * unat freq < 2 ^ 32" "r * unat cum < 2 ^ 32" using share(2) by linarith+
  have low: "unat (re_low e) + unat (re_range e) \<le> 2 ^ 33" using ok by (simp add: enc_ok_def carry_ok_def)
  define f where "f = e\<lparr>re_low := re_low e + ucast (re_range e div tot) * ucast cum, re_range := re_range e div tot * freq\<rparr>"
  have rw: "unat (re_range e div tot) = r" by (simp add: r_def unat_div_distrib)
  have range: "unat (re_range f) = r * unat freq"
    using small(1) unat_mult_less [of "re_range e div tot" freq] by (simp add: f_def rw)
  have cw: "unat (ucast (re_range e div tot) * ucast cum :: u64) = r * unat cum"
    using small(2) unat_mult_less [of "ucast (re_range e div tot) :: u64" "ucast cum"]
    by (simp add: unat_u64_of_u32 rw)
  have lowf: "unat (re_low f) = unat (re_low e) + r * unat cum"
    using low share cw unat_add_lem [of "re_low e" "ucast (re_range e div tot) * ucast cum"] by (simp add: f_def)
  have worth: "code_value f = code_value e + r * unat cum"
    by (simp add: code_value_def lowf) (simp add: f_def pending_def)
  have bytes: "code_bytes f = code_bytes e" by (simp add: f_def code_bytes_def)
  have "carry_ok (unat (re_range f)) f"
    using ok share freq unfolding carry_ok_def range lowf enc_ok_def by (auto simp: f_def carry_ok_def)
  then have "enc_ok f" using ok share unfolding enc_ok_def worth bytes range by linarith
  then have "\<exists>e'. encoder_renorm f = Some e' \<and> enc_ok e' \<and> 2 ^ 24 \<le> unat (re_range e') \<and>
      code_value e' = 256 ^ n * code_value f \<and> code_bytes e' = code_bytes f + n \<and> unat (re_range e') = 256 ^ n * unat (re_range f)"
    using encoder_renorm_value [of f] by (simp add: n_def range)
  moreover have "tot \<noteq> 0" using freq cum by auto
  then have "range_encode e cum freq tot = encoder_renorm f" by (simp add: range_encode_def f_def Let_def)
  ultimately show ?thesis by (simp add: worth bytes range)
qed

section \<open>Finishing\<close>

lemma range_shift_again:
  assumes "carry_ok r e"
  shows "carry_ok 1 (range_shift e) \<and> code_value (range_shift e) = 256 * code_value e \<and>
    code_bytes (range_shift e) = Suc (code_bytes e) \<and> unat (re_low (range_shift e)) = 256 * unat (re_low e) mod 2 ^ 32"
  using range_shift_value [OF assms] mod_less_divisor [of "2 ^ 32" "256 * unat (re_low e)"]
  by (auto simp: carry_ok_def Suc_le_eq)

lemma shift_power_mod: "256 * (a mod m) mod m = 256 * a mod (m :: nat)"
  by (simp add: mod_mult_right_eq)

lemma range_shifts:
  assumes "carry_ok r e" "0 < n"
  shows "carry_ok 1 ((range_shift ^^ n) e) \<and> code_value ((range_shift ^^ n) e) = 256 ^ n * code_value e \<and>
    code_bytes ((range_shift ^^ n) e) = code_bytes e + n \<and>
    unat (re_low ((range_shift ^^ n) e)) = 256 ^ n * unat (re_low e) mod 2 ^ 32"
  using assms(2)
proof (induction n rule: nat_induct_non_zero)
  case 1
  then show ?case using range_shift_again [OF assms(1)] by simp
next
  case (Suc n)
  then show ?case
    using range_shift_again [of 1 "(range_shift ^^ n) e"] shift_power_mod [of "256 ^ n * unat (re_low e)" "2 ^ 32"]
    by (simp add: mult.assoc)
qed

lemma of_be_Cons: "of_be (b # bs) = unat b * 256 ^ length bs + of_be bs"
  using of_be_append [of "[b]" bs] of_be_snoc [of "[]" b] by simp

lemma range_finish_value:
  assumes "enc_ok e"
  shows "length (range_finish e) = code_bytes e + 3 \<and> of_be (range_finish e) = code_value e"
proof -
  have ok: "carry_ok (unat (re_range e)) e" and bound: "code_value e < 256 ^ (code_bytes e + 3)"
    using assms by (auto simp: enc_ok_def carry_ok_def)
  define f where "f = (range_shift ^^ 4) e"
  have f: "carry_ok 1 f" "code_value f = 256 ^ 4 * code_value e" "code_bytes f = code_bytes e + 4" "unat (re_low f) = 0"
    using range_shifts [OF ok, of 4] by (simp_all add: f_def)
  have low: "re_low f = 0" by (rule unat_eqI) (simp add: f(4))
  define out where "out = re_out f @ re_cache f # replicate (re_cache_size f - 1) 0xff"
  have "range_shift f = f\<lparr>re_out := out, re_cache := 0, re_cache_size := 1\<rparr>"
    by (simp add: range_shift_def low out_def Let_def)
  moreover have "code_value (range_shift f) = 256 * code_value f" "code_bytes (range_shift f) = Suc (code_bytes f)"
    using range_shift_value [OF f(1)] by auto
  moreover have "code_value (f\<lparr>re_out := out, re_cache := 0, re_cache_size := 1\<rparr>) = of_be out * 1099511627776"
    by (simp add: code_value_def pending_def low)
  ultimately have "of_be out = code_value e" "length out = Suc (code_bytes e + 3)"
    using f(2,3) by (simp_all add: code_bytes_def)
  then obtain b bs where out: "out = b # bs" "length bs = code_bytes e + 3" "unat b * 256 ^ (code_bytes e + 3) + of_be bs = code_value e"
    by (cases out) (simp_all add: of_be_Cons ac_simps)
  have "unat b = 0"
  proof (rule ccontr)
    assume "unat b \<noteq> 0"
    then have "256 ^ (code_bytes e + 3) \<le> unat b * 256 ^ (code_bytes e + 3)" by simp
    then show False using out(3) bound by linarith
  qed
  moreover have "range_finish e = bs"
    using out(1) \<open>range_shift f = _\<close> by (simp add: range_finish_def f_def numeral_eq_Suc)
  ultimately show ?thesis using out by simp
qed

section \<open>Decoding follows encoding\<close>

definition prefix_value :: "bytes \<Rightarrow> nat \<Rightarrow> nat" where
  "prefix_value bs n = of_be (take n bs)"

lemma prefix_value_Suc: "n < length bs \<Longrightarrow> prefix_value bs (Suc n) = 256 * prefix_value bs n + unat (bs ! n)"
  by (simp add: prefix_value_def take_Suc_conv_app_nth)

lemma prefix_value_div:
  assumes "n + k \<le> length bs"
  shows "prefix_value bs n = prefix_value bs (n + k) div 256 ^ k"
proof -
  have "of_be (take k (drop n bs)) < 256 ^ k" using of_be_less [of "take k (drop n bs)"] assms by simp
  moreover have "length (take k (drop n bs)) = k" using assms by simp
  ultimately show ?thesis by (simp only: prefix_value_def take_add of_be_append) simp
qed

definition synced :: "bytes \<Rightarrow> range_encoder \<Rightarrow> range_decoder \<Rightarrow> bool" where
  "synced bs e d \<longleftrightarrow> rd_input d = bs \<and> rd_range d = re_range e \<and> rd_position d = code_bytes e + 3 \<and>
     prefix_value bs (code_bytes e + 3) = code_value e + unat (rd_code d) \<and> unat (rd_code d) < unat (re_range e)"

definition inside :: "bytes \<Rightarrow> range_encoder \<Rightarrow> bool" where
  "inside bs e \<longleftrightarrow> code_bytes e + 3 \<le> length bs \<and> code_value e \<le> prefix_value bs (code_bytes e + 3) \<and>
     prefix_value bs (code_bytes e + 3) < code_value e + unat (re_range e)"

lemma take_in_value:
  assumes "rd_position d < length (rd_input d)" "unat (rd_code d) < 2 ^ 24"
  shows "unat (rd_code (take_in d)) = 256 * unat (rd_code d) + unat (rd_input d ! rd_position d)"
    and "rd_range (take_in d) = rd_range d" "rd_input (take_in d) = rd_input d" "rd_position (take_in d) = Suc (rd_position d)"
proof -
  let ?b = "rd_input d ! rd_position d"
  have "unat ?b < 4294967296" by (rule less_trans [OF unat_byte_less]) simp
  then have "unat (ucast ?b :: u32) = unat ?b" by (simp add: unat_ucast)
  moreover have "256 * unat (rd_code d) + unat ?b < 4294967296"
  proof -
    have "unat (rd_code d) < 16777216" using assms(2) by simp
    then show ?thesis using unat_byte_less [of ?b] by linarith
  qed
  ultimately show "unat (rd_code (take_in d)) = 256 * unat (rd_code d) + unat ?b"
    using assms(1) by (simp add: take_in_def next_byte_def push_or_byte unat_word_ariths mult.commute)
qed (simp_all add: take_in_def next_byte_def)

lemma decoder_renorm_value:
  assumes "0 < unat (rd_range d)" "unat (rd_code d) < unat (rd_range d)" "rd_input d = bs"
    and "rd_position d + byte_shifts (unat (rd_range d)) \<le> length bs" "prefix_value bs (rd_position d) = T + unat (rd_code d)"
  defines "n \<equiv> byte_shifts (unat (rd_range d))"
  shows "\<exists>d'. decoder_renorm d = Some d' \<and> rd_input d' = bs \<and> rd_position d' = rd_position d + n \<and>
    unat (rd_range d') = 256 ^ n * unat (rd_range d) \<and> unat (rd_code d') < unat (rd_range d') \<and>
    prefix_value bs (rd_position d + n) = 256 ^ n * T + unat (rd_code d')"
  using assms(1-5) unfolding n_def
proof (induction "unat (rd_range d)" arbitrary: d T rule: byte_shifts.induct)
  case 1
  show ?case
  proof (cases "unat (rd_range d) < 2 ^ 24")
    case True
    define f where "f = (take_in d)\<lparr>rd_range := push_bit 8 (rd_range d)\<rparr>"
    have n: "byte_shifts (unat (rd_range d)) = Suc (byte_shifts (256 * unat (rd_range d)))"
      using 1(2) True by (rule byte_shifts_small)
    then have in_range: "rd_position d < length (rd_input d)" using 1(4,5) by simp
    note took = take_in_value [OF in_range less_trans [OF 1(3) True]]
    have range: "unat (rd_range f) = 256 * unat (rd_range d)" using True by (simp add: f_def unat_push_range)
    have f: "rd_input f = bs" "rd_position f = Suc (rd_position d)"
      "unat (rd_code f) = 256 * unat (rd_code d) + unat (bs ! rd_position d)"
      using took 1(4) by (simp_all add: f_def)
    have "unat (rd_code f) < unat (rd_range f)"
      using 1(3) unat_byte_less [of "bs ! rd_position d"] unfolding f(3) range by linarith
    moreover have "prefix_value bs (Suc (rd_position d)) = 256 * T + unat (rd_code f)"
      using prefix_value_Suc [of "rd_position d" bs] in_range 1(4,6) by (simp add: f(3))
    ultimately have "\<exists>d'. decoder_renorm f = Some d' \<and> rd_input d' = bs \<and>
        rd_position d' = rd_position f + byte_shifts (unat (rd_range f)) \<and>
        unat (rd_range d') = 256 ^ byte_shifts (unat (rd_range f)) * unat (rd_range f) \<and>
        unat (rd_code d') < unat (rd_range d') \<and>
        prefix_value bs (rd_position f + byte_shifts (unat (rd_range f))) =
          256 ^ byte_shifts (unat (rd_range f)) * (256 * T) + unat (rd_code d')"
      using 1(1) [of f "256 * T"] 1(2,5) True n range f by simp
    moreover have "decoder_renorm d = decoder_renorm f"
      using True by (subst decoder_renorm.simps) (simp add: range_less_TOP f_def)
    ultimately show ?thesis by (simp add: n range f mult.assoc mult.left_commute)
  next
    case False
    then show ?thesis using 1 by (subst decoder_renorm.simps) (simp add: range_less_TOP byte_shifts_large)
  qed
qed

text \<open>What lies in the interval of an encoder after a symbol lies in the symbol's share of the one before.\<close>

lemma encode_narrows:
  assumes e: "enc_ok e" "2 ^ 24 \<le> unat (re_range e)" and freq: "0 < unat freq"
    and cum: "unat cum + unat freq \<le> unat tot" and tot: "unat tot \<le> 2 ^ 24"
    and enc: "range_encode e cum freq tot = Some e'" and inside: "inside bs e'"
  defines "r \<equiv> unat (re_range e) div unat tot"
  shows "inside bs e \<and> code_value e + r * unat cum \<le> prefix_value bs (code_bytes e + 3) \<and>
    prefix_value bs (code_bytes e + 3) < code_value e + r * unat cum + r * unat freq"
proof -
  define n where "n = byte_shifts (r * unat freq)"
  have e': "code_value e' = 256 ^ n * (code_value e + r * unat cum)" "code_bytes e' = code_bytes e + n"
    "unat (re_range e') = 256 ^ n * (r * unat freq)"
    using range_encode_value [OF e freq cum tot] enc by (auto simp: r_def n_def)
  have share: "r * unat cum + r * unat freq \<le> unat (re_range e)"
    using share_bounds [OF e(2) freq cum tot] by (simp add: r_def)
  define D where "D = prefix_value bs (code_bytes e + 3)"
  have len: "code_bytes e + 3 + n \<le> length bs" using inside e'(2) by (simp add: inside_def)
  have D: "D = prefix_value bs (code_bytes e' + 3) div 256 ^ n"
    using prefix_value_div [OF len] by (simp add: D_def e'(2) ac_simps)
  have lower: "code_value e + r * unat cum \<le> D"
    using inside by (simp add: D inside_def e'(1) less_eq_div_iff_mult_less_eq mult.commute)
  have "prefix_value bs (code_bytes e' + 3) < (code_value e + r * unat cum + r * unat freq) * 256 ^ n"
    using inside by (simp add: inside_def e'(1,3) algebra_simps)
  then have "D < code_value e + r * unat cum + r * unat freq"
    by (simp add: D div_less_iff_less_mult)
  then show ?thesis using lower share len by (simp add: inside_def D_def)
qed

text \<open>A decoder that follows an encoder finds the symbol the encoder coded next, and follows it on.\<close>

lemma decoder_follows:
  assumes e: "enc_ok e" "2 ^ 24 \<le> unat (re_range e)" and freq: "0 < unat freq"
    and cum: "unat cum + unat freq \<le> unat tot" and tot: "unat tot \<le> 2 ^ 24"
    and enc: "range_encode e cum freq tot = Some e'" and synced: "synced bs e d" and inside: "inside bs e'"
  shows "\<exists>t d1 d'. decoder_target d tot = Some (t, d1) \<and> unat cum \<le> unat t \<and> unat t < unat cum + unat freq \<and>
    decoder_update d1 cum freq = Some d' \<and> synced bs e' d'"
proof -
  define r where "r = unat (re_range e) div unat tot"
  define n where "n = byte_shifts (r * unat freq)"
  have e': "code_value e' = 256 ^ n * (code_value e + r * unat cum)" "code_bytes e' = code_bytes e + n"
    "unat (re_range e') = 256 ^ n * (r * unat freq)"
    using range_encode_value [OF e freq cum tot] enc by (auto simp: r_def n_def)
  have share: "0 < r" "r * unat cum + r * unat freq \<le> unat (re_range e)"
    using share_bounds [OF e(2) freq cum tot] by (simp_all add: r_def)
  define D where "D = prefix_value bs (code_bytes e + 3)"
  have len: "code_bytes e + 3 + n \<le> length bs" using inside e'(2) by (simp add: inside_def)
  have lower: "code_value e + r * unat cum \<le> D" and upper: "D < code_value e + r * unat cum + r * unat freq"
    using encode_narrows [OF e freq cum tot enc inside] by (simp_all add: r_def D_def)
  have code: "D = code_value e + unat (rd_code d)" and d: "rd_input d = bs" "rd_range d = re_range e" "rd_position d = code_bytes e + 3"
    using synced by (simp_all add: synced_def D_def)
  define rw where "rw = re_range e div tot"
  have rw: "unat rw = r" by (simp add: r_def rw_def unat_div_distrib)
  have "rw \<noteq> 0" using share(1) rw by auto
  moreover have "tot \<noteq> 0" using freq cum by auto
  ultimately have target: "decoder_target d tot = Some (min (rd_code d div rw) (tot - 1), d\<lparr>rd_range := rw\<rparr>)"
    by (simp add: decoder_target_def d rw_def Let_def)
  have q: "unat (rd_code d div rw) = unat (rd_code d) div r" by (simp add: unat_div_distrib rw)
  have bounds: "unat cum \<le> unat (rd_code d) div r" "unat (rd_code d) div r < unat cum + unat freq"
    using lower upper share(1) by (simp_all add: code less_eq_div_iff_mult_less_eq div_less_iff_less_mult algebra_simps)
  have "unat (tot - 1) = unat tot - 1" using \<open>tot \<noteq> 0\<close> by (simp add: unat_minus_one)
  then have t: "unat (min (rd_code d div rw) (tot - 1)) = unat (rd_code d) div r"
    using bounds cum by (auto simp: min_def word_le_nat_alt q)
  define f where "f = d\<lparr>rd_code := rd_code d - cum * rw, rd_range := rw * freq\<rparr>"
  have "unat (re_range e) < 4294967296" by (rule unat_u32_less)
  then have small: "unat cum * r < 4294967296" "r * unat freq < 4294967296"
    using share(2) mult.commute [of "unat cum" r] by linarith+
  have "unat (cum * rw) = unat cum * r" using unat_mult_less [of cum rw] small(1) by (simp add: rw)
  moreover have "unat cum * r \<le> unat (rd_code d)" using lower by (simp add: code mult.commute)
  ultimately have fc: "unat (rd_code f) = unat (rd_code d) - r * unat cum"
    by (simp add: f_def unat_sub word_le_nat_alt mult.commute)
  have fr: "unat (rd_range f) = r * unat freq" using unat_mult_less [of rw freq] small(2) by (simp add: f_def rw)
  have le: "r * unat cum \<le> unat (rd_code d)" using lower by (simp add: code)
  have at: "rd_position f + n = code_bytes e' + 3" by (simp add: f_def d e'(2))
  have "\<exists>d'. decoder_renorm f = Some d' \<and> rd_input d' = bs \<and> rd_position d' = rd_position f + n \<and>
      unat (rd_range d') = 256 ^ n * unat (rd_range f) \<and> unat (rd_code d') < unat (rd_range d') \<and>
      prefix_value bs (rd_position f + n) = 256 ^ n * (code_value e + r * unat cum) + unat (rd_code d')"
    unfolding n_def fr [symmetric]
  proof (rule decoder_renorm_value)
    show "0 < unat (rd_range f)" using share(1) freq by (simp add: fr)
    show "unat (rd_code f) < unat (rd_range f)" using upper le by (simp add: fc fr code)
    show "rd_position f + byte_shifts (unat (rd_range f)) \<le> length bs"
      unfolding fr using len by (simp add: f_def d flip: n_def)
    show "prefix_value bs (rd_position f) = code_value e + r * unat cum + unat (rd_code f)"
      unfolding fc using le code by (simp add: f_def d D_def)
  qed (simp add: f_def d)
  then obtain d' where d': "decoder_renorm f = Some d'" "rd_input d' = bs" "rd_position d' = code_bytes e' + 3"
    "unat (rd_range d') = unat (re_range e')" "unat (rd_code d') < unat (rd_range d')"
    "prefix_value bs (code_bytes e' + 3) = code_value e' + unat (rd_code d')"
    unfolding at fr e'(1,3) [symmetric] by blast
  then have "synced bs e' d'" using unat_eqI [OF d'(4)] by (simp add: synced_def)
  moreover have "decoder_update (d\<lparr>rd_range := rw\<rparr>) cum freq = Some d'"
    using d'(1) by (simp add: decoder_update_def f_def)
  ultimately show ?thesis using target t bounds by auto
qed

section \<open>The model keeps to its bounds\<close>

definition model_ok :: "freq_model \<Rightarrow> bool" where
  "model_ok m \<longleftrightarrow> fm_counts m \<noteq> [] \<and> length (fm_counts m) \<le> 2024 \<and> (\<forall>c\<in>set (fm_counts m). 0 < unat c) \<and>
     unat (fm_total m) = sum_list (map unat (fm_counts m)) \<and> unat (fm_total m) < unat MAX_TOTAL"

lemma unat_sum_list: "sum_list (map unat ws) < 4294967296 \<Longrightarrow> unat (sum_list ws :: u32) = sum_list (map unat ws)"
proof (induction ws)
  case (Cons w ws)
  then have "unat (sum_list ws) = sum_list (map unat ws)" by simp
  then show ?case using Cons.prems by (simp add: unat_word_ariths)
qed simp

lemma sum_list_split: "i < length xs \<Longrightarrow> sum_list (take i xs) + (xs ! i + sum_list (drop (Suc i) xs)) = (sum_list xs :: nat)"
  using arg_cong [OF id_take_nth_drop [of i xs], of sum_list] by simp

lemma model_ok_new: "0 < n \<Longrightarrow> n \<le> 2024 \<Longrightarrow> model_ok (model_new n)"
  by (simp add: model_ok_def model_new_def MAX_TOTAL_def unat_of_nat sum_list_replicate)

lemma range_of_ok:
  assumes "model_ok m" "s < length (fm_counts m)"
  shows "\<exists>cum freq. range_of m s = Some (cum, freq) \<and> freq = fm_counts m ! s \<and>
    unat cum = sum_list (take s (map unat (fm_counts m))) \<and> 0 < unat freq \<and>
    unat cum + unat freq \<le> unat (fm_total m) \<and> unat (fm_total m) \<le> 2 ^ 24"
proof -
  have total: "unat (fm_total m) = sum_list (map unat (fm_counts m))" "unat (fm_total m) < 2048"
    using assms(1) by (simp_all add: model_ok_def MAX_TOTAL_def)
  have split: "sum_list (take s (map unat (fm_counts m))) + (unat (fm_counts m ! s) + sum_list (drop (Suc s) (map unat (fm_counts m)))) =
      sum_list (map unat (fm_counts m))"
    using sum_list_split [of s "map unat (fm_counts m)"] assms(2) by simp
  then have "unat (sum_list (take s (fm_counts m))) = sum_list (take s (map unat (fm_counts m)))"
    using total unat_sum_list [of "take s (fm_counts m)"] by (simp add: take_map)
  moreover have "0 < unat (fm_counts m ! s)" using assms by (simp add: model_ok_def)
  ultimately show ?thesis using assms(2) split total by (simp add: range_of_def)
qed

lemma symbol_scan_finds:
  assumes "s < length cs" "unat c0 + sum_list (map unat cs) < 4294967296"
    and "unat c0 + sum_list (take s (map unat cs)) \<le> unat t" "unat t < unat c0 + sum_list (take (Suc s) (map unat cs))"
  shows "\<exists>cum. symbol_scan t i c0 cs = Some (i + s, cum, cs ! s) \<and> unat cum = unat c0 + sum_list (take s (map unat cs))"
  using assms
proof (induction cs arbitrary: s i c0)
  case (Cons c cs)
  have step: "unat (c0 + c) = unat c0 + unat c" using Cons.prems(2) by (simp add: unat_word_ariths)
  show ?case
  proof (cases s)
    case 0
    then show ?thesis using Cons.prems(4) by (simp add: word_less_nat_alt step)
  next
    case (Suc k)
    then have "\<not> t < c0 + c" using Cons.prems(3) by (simp add: word_less_nat_alt step)
    then show ?thesis using Cons.IH [of k "c0 + c" "Suc i"] Cons.prems Suc by (simp add: step add.assoc)
  qed
qed simp

lemma symbol_at_finds:
  assumes "model_ok m" "range_of m s = Some (cum, freq)" "unat cum \<le> unat t" "unat t < unat cum + unat freq"
  shows "symbol_at m t = Some (s, cum, freq)"
proof -
  have s: "s < length (fm_counts m)" "freq = fm_counts m ! s" using assms(2) by (auto simp: range_of_def split: if_splits)
  then have cum: "unat cum = sum_list (take s (map unat (fm_counts m)))" using range_of_ok [OF assms(1) s(1)] assms(2) by auto
  have "sum_list (take (Suc s) (map unat (fm_counts m))) = unat cum + unat freq"
    using s cum by (simp add: take_Suc_conv_app_nth)
  moreover have "sum_list (map unat (fm_counts m)) < 4294967296" using assms(1) by (simp add: model_ok_def MAX_TOTAL_def)
  ultimately obtain cum' where "symbol_scan t 0 0 (fm_counts m) = Some (s, cum', freq)" "unat cum' = unat cum"
    using symbol_scan_finds [OF s(1), of 0 t 0] assms(3,4) cum s(2) by auto
  then show ?thesis using unat_eqI [of cum' cum] by (simp add: symbol_at_def)
qed

lemma sum_halved: "\<forall>c\<in>set cs. 0 < c \<Longrightarrow> 2 * sum_list (map (\<lambda>c. max (c div 2) 1) cs) \<le> sum_list cs + length (cs :: nat list)"
  by (induction cs) (auto simp: max_def)

lemma model_ok_update:
  assumes "model_ok m" "s < length (fm_counts m)"
  shows "\<exists>m'. model_update m s = Some m' \<and> model_ok m' \<and> length (fm_counts m') = length (fm_counts m)"
proof -
  define cs where "cs = (fm_counts m)[s := fm_counts m ! s + 24]"
  have m: "length (fm_counts m) \<le> 2024" "\<forall>c\<in>set (fm_counts m). 0 < unat c"
    "unat (fm_total m) = sum_list (map unat (fm_counts m))" "unat (fm_total m) < 2048"
    using assms(1) by (simp_all add: model_ok_def MAX_TOTAL_def)
  have "unat (fm_counts m ! s) \<le> unat (fm_total m)" using assms(2) m(3) by (simp add: member_le_sum_list)
  then have c: "unat (fm_counts m ! s + 24) = unat (fm_counts m ! s) + 24" using m(4) by (simp add: unat_word_ariths)
  have sum: "sum_list (map unat cs) = unat (fm_total m) + 24"
    using assms(2) m(3) sum_list_split [of s "map unat (fm_counts m)"]
    by (simp add: cs_def map_update c sum_list_update)
  have pos: "\<forall>c\<in>set cs. 0 < unat c" using m(2) c by (auto simp: cs_def dest!: set_update_subset_insert [THEN subsetD])
  have total: "unat (fm_total m + 24) = unat (fm_total m) + 24" using m(4) by (simp add: unat_word_ariths)
  have len: "length cs = length (fm_counts m)" "cs \<noteq> []" using assms(2) by (auto simp: cs_def)
  show ?thesis
  proof (cases "MAX_TOTAL \<le> fm_total m + 24")
    case True
    define hs where "hs = map (\<lambda>c. max (drop_bit 1 c) 1) cs"
    have halve: "map unat hs = map (\<lambda>c. max (c div 2) 1) (map unat cs)"
      by (simp add: hs_def drop_bit_Suc max_def word_le_nat_alt unat_div_distrib)
    have hpos: "\<forall>c\<in>set hs. 0 < unat c"
      by (auto simp: hs_def max_def word_le_nat_alt)
    have "2 * sum_list (map unat hs) \<le> sum_list (map unat cs) + length cs"
      using sum_halved [of "map unat cs"] pos by (simp add: halve)
    then have "sum_list (map unat hs) < 2048" using sum m(1,4) len by simp
    moreover from this have "unat (sum_list hs) = sum_list (map unat hs)" by (intro unat_sum_list) simp
    ultimately have "model_ok \<lparr> fm_counts = hs, fm_total = sum_list hs \<rparr>"
      using hpos len m(1) by (auto simp: model_ok_def MAX_TOTAL_def hs_def)
    then show ?thesis using True assms(2) len by (simp add: model_update_def Let_def cs_def hs_def)
  next
    case False
    then have "model_ok \<lparr> fm_counts = cs, fm_total = fm_total m + 24 \<rparr>"
      using pos len m(1) by (simp add: model_ok_def sum total word_le_nat_alt not_le)
    then show ?thesis using False assms(2) len by (simp add: model_update_def Let_def cs_def)
  qed
qed

section \<open>Coding a message\<close>

text \<open>
  How the codec uses the coder: one encoder, several models, and for each symbol the model its context picks; the
  decoder picks the same models.
\<close>

fun encode_all :: "range_encoder \<Rightarrow> freq_model list \<Rightarrow> (nat \<times> nat) list \<Rightarrow> (range_encoder \<times> freq_model list) option" where
  "encode_all e ms [] = Some (e, ms)"
| "encode_all e ms ((k, s) # xs) = Option.bind (encode_symbol e (ms ! k) s) (\<lambda>(e, m). encode_all e (ms[k := m]) xs)"

fun decode_all :: "range_decoder \<Rightarrow> freq_model list \<Rightarrow> nat list \<Rightarrow> (nat list \<times> range_decoder \<times> freq_model list) option" where
  "decode_all d ms [] = Some ([], d, ms)"
| "decode_all d ms (k # ks) = Option.bind (decode_symbol d (ms ! k)) (\<lambda>(s, d, m).
     map_option (\<lambda>(ss, d, ms). (s # ss, d, ms)) (decode_all d (ms[k := m]) ks))"

definition codable :: "freq_model list \<Rightarrow> (nat \<times> nat) list \<Rightarrow> bool" where
  "codable ms xs \<longleftrightarrow> (\<forall>m\<in>set ms. model_ok m) \<and> (\<forall>(k, s)\<in>set xs. k < length ms \<and> s < length (fm_counts (ms ! k)))"

definition encoding :: "range_encoder \<Rightarrow> bool" where
  "encoding e \<longleftrightarrow> enc_ok e \<and> 2 ^ 24 \<le> unat (re_range e)"

lemma symbol_follows:
  assumes "encoding e" "model_ok m" "s < length (fm_counts m)"
  shows "\<exists>e' m'. encode_symbol e m s = Some (e', m') \<and> encoding e' \<and> model_ok m' \<and> length (fm_counts m') = length (fm_counts m) \<and>
    (\<forall>bs. inside bs e' \<longrightarrow> inside bs e) \<and>
    (\<forall>bs d. synced bs e d \<longrightarrow> inside bs e' \<longrightarrow> (\<exists>d'. decode_symbol d m = Some (s, d', m') \<and> synced bs e' d'))"
proof -
  have e: "enc_ok e" "2 ^ 24 \<le> unat (re_range e)" using assms(1) by (simp_all add: encoding_def)
  from range_of_ok [OF assms(2,3)] obtain cum freq where r: "range_of m s = Some (cum, freq)"
    and b: "0 < unat freq" "unat cum + unat freq \<le> unat (fm_total m)" "unat (fm_total m) \<le> 2 ^ 24" by auto
  from range_encode_value [OF e b] obtain e' where e': "range_encode e cum freq (fm_total m) = Some e'" "encoding e'"
    by (auto simp: encoding_def)
  from model_ok_update [OF assms(2,3)] obtain m' where m': "model_update m s = Some m'" "model_ok m'"
    "length (fm_counts m') = length (fm_counts m)" by auto
  have "\<exists>d'. decode_symbol d m = Some (s, d', m') \<and> synced bs e' d'" if "synced bs e d" "inside bs e'" for bs d
    using decoder_follows [OF e b e'(1) that] symbol_at_finds [OF assms(2) r] m'(1) by (auto simp: decode_symbol_def)
  moreover have "encode_symbol e m s = Some (e', m')" by (simp add: encode_symbol_def r e' m')
  moreover have "inside bs e" if "inside bs e'" for bs using encode_narrows [OF e b e'(1) that] by simp
  ultimately show ?thesis using e'(2) m'(2,3) by auto
qed

lemma message_follows:
  assumes "encoding e" "codable ms xs"
  shows "\<exists>e' ms'. encode_all e ms xs = Some (e', ms') \<and> encoding e' \<and> (\<forall>bs. inside bs e' \<longrightarrow> inside bs e) \<and>
    (\<forall>bs d. synced bs e d \<longrightarrow> inside bs e' \<longrightarrow>
      (\<exists>d'. decode_all d ms (map fst xs) = Some (map snd xs, d', ms') \<and> synced bs e' d'))"
  using assms
proof (induction xs arbitrary: e ms)
  case (Cons x xs)
  obtain k s where x: "x = (k, s)" by (cases x)
  have k: "k < length ms" "model_ok (ms ! k)" "s < length (fm_counts (ms ! k))" using Cons.prems(2) by (auto simp: codable_def x)
  from symbol_follows [OF Cons.prems(1) k(2,3)] obtain e1 m1 where one: "encode_symbol e (ms ! k) s = Some (e1, m1)"
    "encoding e1" "model_ok m1" "length (fm_counts m1) = length (fm_counts (ms ! k))" "\<And>bs. inside bs e1 \<Longrightarrow> inside bs e"
    "\<And>bs d. synced bs e d \<Longrightarrow> inside bs e1 \<Longrightarrow> \<exists>d'. decode_symbol d (ms ! k) = Some (s, d', m1) \<and> synced bs e1 d'"
    by blast
  have "codable (ms[k := m1]) xs"
    using Cons.prems(2) one(3,4) unfolding codable_def x
    by (auto simp: nth_list_update split: if_splits dest!: set_update_subset_insert [THEN subsetD])
  from Cons.IH [OF one(2) this] obtain e2 ms2 where two: "encode_all e1 (ms[k := m1]) xs = Some (e2, ms2)" "encoding e2"
    "\<And>bs. inside bs e2 \<Longrightarrow> inside bs e1"
    "\<And>bs d. synced bs e1 d \<Longrightarrow> inside bs e2 \<Longrightarrow>
      \<exists>d'. decode_all d (ms[k := m1]) (map fst xs) = Some (map snd xs, d', ms2) \<and> synced bs e2 d'"
    by blast
  have "\<exists>d'. decode_all d ms (map fst (x # xs)) = Some (map snd (x # xs), d', ms2) \<and> synced bs e2 d'"
    if d: "synced bs e d" "inside bs e2" for bs d
  proof -
    from one(6) [OF d(1) two(3) [OF d(2)]] obtain d1 where d1: "decode_symbol d (ms ! k) = Some (s, d1, m1)" "synced bs e1 d1" by blast
    from two(4) [OF d1(2) d(2)] show ?thesis by (auto simp: x d1(1))
  qed
  moreover have "encode_all e ms (x # xs) = Some (e2, ms2)" by (simp add: x one(1) two(1))
  ultimately show ?case using two(2,3) one(5) by blast
qed auto

lemma encoding_new: "encoding range_encoder_new"
  by (simp add: encoding_def enc_ok_def carry_ok_def range_encoder_new_def code_value_def code_bytes_def pending_def of_be_Cons unsigned_minus_1_eq_mask mask_eq_exp_minus_1)

lemma decoder_fills:
  assumes "4 \<le> length bs" "n \<le> 4"
  defines "d \<equiv> (take_in ^^ n) \<lparr> rd_code = 0, rd_range = - 1, rd_input = bs, rd_position = 0 \<rparr>"
  shows "rd_input d = bs \<and> rd_range d = - 1 \<and> rd_position d = n \<and> unat (rd_code d) = prefix_value bs n"
  unfolding d_def using assms(2)
proof (induction n)
  case (Suc n)
  define d where "d = (take_in ^^ n) \<lparr> rd_code = 0, rd_range = - 1, rd_input = bs, rd_position = 0 \<rparr>"
  have d: "rd_input d = bs" "rd_range d = - 1" "rd_position d = n" "unat (rd_code d) = prefix_value bs n"
    using Suc by (simp_all add: d_def)
  have n: "n < length bs" "n \<le> 3" using assms(1) Suc.prems by auto
  have "prefix_value bs n < 256 ^ n" using of_be_less [of "take n bs"] n by (simp add: prefix_value_def min_def)
  also have "(256 :: nat) ^ n \<le> 256 ^ 3" using n(2) by (intro power_increasing) auto
  finally have "unat (rd_code d) < 2 ^ 24" by (simp add: d(4))
  then show ?case using take_in_value [of d] n(1) d prefix_value_Suc [OF n(1)] by (simp flip: d_def)
qed (simp add: prefix_value_def)

lemma synced_new:
  assumes "inside bs range_encoder_new"
  shows "synced bs range_encoder_new (range_decoder_new bs)"
proof -
  have "code_bytes range_encoder_new + 3 = 4" "code_value range_encoder_new = 0"
    by (simp_all add: range_encoder_new_def code_bytes_def code_value_def pending_def of_be_Cons)
  then show ?thesis
    using assms decoder_fills [of bs 4]
    by (simp add: inside_def synced_def range_decoder_new_def) (simp add: range_encoder_new_def)
qed

lemma finish_inside: "encoding e \<Longrightarrow> inside (range_finish e @ rest) e"
  using range_finish_value [of e] by (auto simp: encoding_def inside_def prefix_value_def)

section \<open>Properties\<close>

text \<open>C16: whatever symbols are coded, each under whatever model its context picks, the encoder always
  finishes, and a decoder that picks the same models reads the same symbols back, ends with the same adapted
  models, and is not disturbed by whatever follows the code.\<close>

theorem coded_symbols_read_back:
  assumes "codable ms xs"
  shows "\<exists>e ms'. encode_all range_encoder_new ms xs = Some (e, ms') \<and>
    (\<forall>rest. \<exists>d. decode_all (range_decoder_new (range_finish e @ rest)) ms (map fst xs) = Some (map snd xs, d, ms'))"
proof -
  from message_follows [OF encoding_new assms] obtain e ms' where e: "encode_all range_encoder_new ms xs = Some (e, ms')"
    "encoding e" "\<And>bs. inside bs e \<Longrightarrow> inside bs range_encoder_new"
    "\<And>bs d. synced bs range_encoder_new d \<Longrightarrow> inside bs e \<Longrightarrow>
      \<exists>d'. decode_all d ms (map fst xs) = Some (map snd xs, d', ms') \<and> synced bs e d'"
    by blast
  have "\<exists>d. decode_all (range_decoder_new (range_finish e @ rest)) ms (map fst xs) = Some (map snd xs, d, ms')" for rest
    using e(4) [OF synced_new [OF e(3)]] finish_inside [OF e(2)] by blast
  then show ?thesis using e(1) by blast
qed

lemma coded_symbols_read_back_witness:
  "\<exists>e ms'. encode_all range_encoder_new [model_new 3, model_new 40] [(0, 2), (1, 39), (0, 2)] = Some (e, ms') \<and>
    (\<forall>rest. \<exists>d. decode_all (range_decoder_new (range_finish e @ rest)) [model_new 3, model_new 40] [0, 1, 0] =
      Some ([2, 39, 2], d, ms'))"
  using coded_symbols_read_back [of "[model_new 3, model_new 40]" "[(0, 2), (1, 39), (0, 2)]"]
  by (simp add: codable_def model_ok_new) (simp add: model_new_def)

lemma prefix_sum_finds: "t < sum_list xs \<Longrightarrow> \<exists>s<length xs. sum_list (take s xs) \<le> t \<and> t < sum_list (take (Suc s) xs)" for t :: nat
proof (induction xs arbitrary: t)
  case (Cons x xs)
  show ?case
  proof (cases "t < x")
    case False
    then obtain s where "s < length xs" "sum_list (take s xs) \<le> t - x" "t - x < sum_list (take (Suc s) xs)"
      using Cons.IH [of "t - x"] Cons.prems less_diff_conv2 [of x t "sum_list xs"] by (auto simp: add.commute)
    then show ?thesis using False by (intro exI [of _ "Suc s"]) auto
  qed (auto intro: exI [of _ 0])
qed simp

lemma symbol_at_complete:
  assumes "model_ok m" "t < fm_total m"
  shows "\<exists>s cum freq. symbol_at m t = Some (s, cum, freq) \<and> range_of m s = Some (cum, freq) \<and> unat cum \<le> unat t \<and>
    unat t < unat cum + unat freq"
proof -
  have "unat t < sum_list (map unat (fm_counts m))" using assms by (simp add: model_ok_def word_less_nat_alt)
  from prefix_sum_finds [OF this] obtain s where s: "s < length (fm_counts m)"
    "sum_list (take s (map unat (fm_counts m))) \<le> unat t" "unat t < sum_list (take (Suc s) (map unat (fm_counts m)))"
    by auto
  from range_of_ok [OF assms(1) s(1)] obtain cum freq where r: "range_of m s = Some (cum, freq)" "freq = fm_counts m ! s"
    "unat cum = sum_list (take s (map unat (fm_counts m)))" by auto
  have "unat cum \<le> unat t" "unat t < unat cum + unat freq"
    using s r by (simp_all add: take_Suc_conv_app_nth)
  then show ?thesis using symbol_at_finds [OF assms(1) r(1)] r(1) by blast
qed

text \<open>An adaptive model stays usable: whatever symbols it is told of, in whatever order, its counts stay
  positive and add up to its total, the total stays below the maximum, and every target below the total is found in
  the symbol whose range holds it.\<close>

theorem model_stays_in_bounds:
  assumes "0 < n" "n \<le> 2024" "\<forall>s\<in>set ss. s < n"
  shows "\<exists>m. fold (\<lambda>s m. Option.bind m (\<lambda>m. model_update m s)) ss (Some (model_new n)) = Some m \<and>
    length (fm_counts m) = n \<and> (\<forall>c\<in>set (fm_counts m). 0 < c) \<and>
    unat (fm_total m) = sum_list (map unat (fm_counts m)) \<and> fm_total m < MAX_TOTAL \<and>
    (\<forall>t<fm_total m. \<exists>s cum freq. symbol_at m t = Some (s, cum, freq) \<and> range_of m s = Some (cum, freq) \<and>
      unat cum \<le> unat t \<and> unat t < unat cum + unat freq)"
proof -
  have "\<exists>m'. fold (\<lambda>s m. Option.bind m (\<lambda>m. model_update m s)) ss (Some m) = Some m' \<and> model_ok m' \<and> length (fm_counts m') = n"
    if "model_ok m" "length (fm_counts m) = n" for m
    using assms(3) that
  proof (induction ss arbitrary: m)
    case (Cons s ss)
    then show ?case using model_ok_update [of m s] by (auto split: option.splits)
  qed auto
  from this [OF model_ok_new [OF assms(1,2)]] obtain m where
    m: "fold (\<lambda>s m. Option.bind m (\<lambda>m. model_update m s)) ss (Some (model_new n)) = Some m" "model_ok m" "length (fm_counts m) = n"
    by (auto simp: model_new_def)
  have "(\<forall>c\<in>set (fm_counts m). 0 < c)" "unat (fm_total m) = sum_list (map unat (fm_counts m))" "fm_total m < MAX_TOTAL"
    using m(2) by (auto simp: model_ok_def word_less_nat_alt word_gt_0)
  then show ?thesis using m symbol_at_complete [OF m(2)] by blast
qed

lemma model_stays_in_bounds_witness:
  "\<exists>m. fold (\<lambda>s m. Option.bind m (\<lambda>m. model_update m s)) (replicate 100 1) (Some (model_new 3)) = Some m \<and>
    fm_total m < MAX_TOTAL"
  using model_stays_in_bounds [of 3 "replicate 100 1"] by auto

end
