(* ===== verification/Layered_Frames.thy ===== *)
theory Layered_Frames
  imports Range_Coder Bit_Packer Pulse_Codebook
begin

text \<open>
  The layered frames of the voice codec, \<^verbatim>\<open>rotelyx-codec/src/layered.rs\<close>: the wire form of a frame and its trimming to a
  budget, the coding of band levels against adaptive models, and of the residual stages of a band; and the groups of
  frames that share one level stream, \<^verbatim>\<open>grouped.rs\<close>.  The shapes themselves are floating point: what turns sound into
  levels, stages and back is not here.  A panic of the range coder is \<open>None\<close>.
\<close>

section \<open>The wire form of a frame\<close>

datatype codec_error = WrongFrameSize nat | Malformed | RateTooLow nat nat

definition LAYERS :: nat where "LAYERS = 1 + 3"

record layered_frame =
  lf_base :: bytes
  lf_refinements :: "bytes list"

definition frame_len :: "layered_frame \<Rightarrow> nat" where
  "frame_len f = length (lf_base f) + sum_list (map length (lf_refinements f))"

text \<open>The loop that drops empty layers from the end, and the one that writes a length.\<close>

function drop_empty :: "bytes list \<Rightarrow> bytes list" where
  "drop_empty layers = (if 1 < length layers \<and> last layers = [] then drop_empty (butlast layers) else layers)"
  by pat_completeness auto
termination
  by (relation "measure length") auto

declare drop_empty.simps [simp del]

fun leb128 :: "nat \<Rightarrow> bytes" where
  "leb128 n =
     (let byte = word_of_nat (n mod 128) :: u8; rest = n div 128
      in if rest = 0 then [byte] else (byte OR 0x80) # leb128 rest)"

declare leb128.simps [simp del]

definition frame_to_bytes :: "layered_frame \<Rightarrow> bytes" where
  "frame_to_bytes f =
     (let layers = drop_empty (lf_base f # lf_refinements f)
      in word_of_nat (length layers) # concat (map (\<lambda>layer. leb128 (length layer)) (butlast layers)) @ concat layers)"

fun read_length :: "bytes \<Rightarrow> nat \<Rightarrow> nat \<Rightarrow> (nat \<times> bytes) option" where
  "read_length [] n shift = None"
| "read_length (byte # bs) n shift =
     (if 21 < shift then None
      else let n = n OR push_bit shift (unat (byte AND 0x7f))
           in if byte AND 0x80 = 0 then Some (n, bs) else read_length bs n (shift + 7))"

primrec read_lengths :: "nat \<Rightarrow> bytes \<Rightarrow> (nat list \<times> bytes) option" where
  "read_lengths 0 bs = Some ([], bs)"
| "read_lengths (Suc c) bs =
     Option.bind (read_length bs 0 0) (\<lambda>(n, bs). map_option (\<lambda>(ns, bs). (n # ns, bs)) (read_lengths c bs))"

fun cut_layers :: "nat list \<Rightarrow> bytes \<Rightarrow> bytes list" where
  "cut_layers [] bs = []"
| "cut_layers (n # ns) bs = take n bs # cut_layers ns (drop n bs)"

definition frame_from_bytes :: "bytes \<Rightarrow> (codec_error, layered_frame) result" where
  "frame_from_bytes bs =
     (case bs of
        [] \<Rightarrow> Inl Malformed
      | first # rest \<Rightarrow>
          let n = unat first
          in if n = 0 \<or> LAYERS < n then Inl Malformed
             else (case read_lengths (n - 1) rest of
                     None \<Rightarrow> Inl Malformed
                   | Some (lengths, body) \<Rightarrow>
                       if length body < sum_list lengths then Inl Malformed
                       else let layers = cut_layers (lengths @ [length body - sum_list lengths]) body
                            in Inr \<lparr> lf_base = hd layers, lf_refinements = tl layers \<rparr>))"

definition truncated :: "layered_frame \<Rightarrow> nat \<Rightarrow> layered_frame" where
  "truncated f keep = f\<lparr>lf_refinements := take keep (lf_refinements f)\<rparr>"

fun first_within :: "layered_frame \<Rightarrow> nat \<Rightarrow> nat list \<Rightarrow> layered_frame" where
  "first_within f budget [] = truncated f 0"
| "first_within f budget (keep # ks) =
     (let candidate = truncated f keep
      in if length (frame_to_bytes candidate) \<le> budget then candidate else first_within f budget ks)"

definition frame_within :: "layered_frame \<Rightarrow> nat \<Rightarrow> layered_frame" where
  "frame_within f budget = first_within f budget (rev [0..<length (lf_refinements f) + 1])"

section \<open>Band levels\<close>

text \<open>Sixteen-bit values are integers here: none leaves the range of \<^verbatim>\<open>i16\<close> on the levels a quantiser produces.\<close>

definition BANDS :: nat where "BANDS = 24"
definition ENERGY_SYMBOLS :: nat where "ENERGY_SYMBOLS = 192"
definition SILENT :: u8 where "SILENT = 0"
definition BAND_CONTEXTS :: nat where "BAND_CONTEXTS = 6"
definition RESIDUAL_CONTEXTS :: nat where "RESIDUAL_CONTEXTS = 5"
definition AWAKE_LEVELS :: int where "AWAKE_LEVELS = int (ENERGY_SYMBOLS - 1)"

definition fold_delta :: "int \<Rightarrow> nat" where
  "fold_delta delta = min (if 0 \<le> delta then nat delta * 2 else nat (- delta) * 2 - 1) (ENERGY_SYMBOLS - 1)"

definition unfold_delta :: "nat \<Rightarrow> int" where
  "unfold_delta symbol = (if symbol mod 2 = 0 then int (symbol div 2) else - int ((symbol + 1) div 2))"

definition band_context :: "nat \<Rightarrow> nat" where
  "band_context b = min (b * BAND_CONTEXTS div BANDS) (BAND_CONTEXTS - 1)"

definition fold_residual :: "int \<Rightarrow> nat" where
  "fold_residual residual =
     (let d = residual mod AWAKE_LEVELS in fold_delta (if AWAKE_LEVELS div 2 < d then d - AWAKE_LEVELS else d))"

definition unfold_residual :: "nat \<Rightarrow> u8 \<Rightarrow> u8" where
  "unfold_residual symbol predictor =
     (let d = unfold_delta symbol mod AWAKE_LEVELS
      in word_of_int (1 + (int (unat predictor) - 1 + d) mod AWAKE_LEVELS))"

definition residual_context :: "int \<Rightarrow> nat" where
  "residual_context previous =
     (if previous \<le> - 4 then 0 else if previous \<le> - 2 then 1 else if previous \<le> 0 then 2 else if previous \<le> 2 then 3 else 4)"

record level_models =
  lm_silence :: "freq_model list"
  lm_residual :: "freq_model list"
  lm_first :: freq_model

definition level_models_new :: level_models where
  "level_models_new =
     \<lparr> lm_silence = replicate BAND_CONTEXTS (model_new 2),
       lm_residual = replicate (BAND_CONTEXTS * RESIDUAL_CONTEXTS) (model_new ENERGY_SYMBOLS),
       lm_first = model_new ENERGY_SYMBOLS \<rparr>"

definition residual_model :: "nat \<Rightarrow> int \<Rightarrow> nat" where
  "residual_model b previous = band_context b * RESIDUAL_CONTEXTS + residual_context previous"

text \<open>The two loops of \<^verbatim>\<open>write_levels\<close>, from band \<open>b\<close> on.\<close>

fun write_silence :: "range_encoder \<Rightarrow> level_models \<Rightarrow> nat \<Rightarrow> u8 list \<Rightarrow> (range_encoder \<times> level_models) option" where
  "write_silence e ms b [] = Some (e, ms)"
| "write_silence e ms b (level # levels) =
     Option.bind (encode_symbol e (lm_silence ms ! band_context b) (if level = SILENT then 1 else 0)) (\<lambda>(e, m).
     write_silence e (ms\<lparr>lm_silence := (lm_silence ms)[band_context b := m]\<rparr>) (Suc b) levels)"

fun write_awake ::
  "range_encoder \<Rightarrow> level_models \<Rightarrow> nat \<Rightarrow> u8 option \<Rightarrow> int \<Rightarrow> u8 list \<Rightarrow> (range_encoder \<times> level_models) option" where
  "write_awake e ms b predictor previous [] = Some (e, ms)"
| "write_awake e ms b predictor previous (level # levels) =
     (if level = SILENT then write_awake e ms (Suc b) predictor previous levels
      else case predictor of
        None \<Rightarrow>
          Option.bind (encode_symbol e (lm_first ms) (unat level)) (\<lambda>(e, m).
          write_awake e (ms\<lparr>lm_first := m\<rparr>) (Suc b) (Some level) previous levels)
      | Some p \<Rightarrow>
          let residual = int (unat level) - int (unat p); i = residual_model b previous
          in Option.bind (encode_symbol e (lm_residual ms ! i) (fold_residual residual)) (\<lambda>(e, m).
             write_awake e (ms\<lparr>lm_residual := (lm_residual ms)[i := m]\<rparr>) (Suc b) (Some level) residual levels))"

definition write_levels :: "range_encoder \<Rightarrow> u8 list \<Rightarrow> level_models \<Rightarrow> (range_encoder \<times> level_models) option" where
  "write_levels e levels ms =
     Option.bind (write_silence e ms 0 levels) (\<lambda>(e, ms). write_awake e ms 0 None 0 levels)"

fun read_silence :: "nat \<Rightarrow> nat \<Rightarrow> level_models \<Rightarrow> range_decoder \<Rightarrow> ((bool list \<times> level_models) \<times> range_decoder) option" where
  "read_silence 0 b ms d = Some (([], ms), d)"
| "read_silence (Suc n) b ms d =
     Option.bind (decode_symbol d (lm_silence ms ! band_context b)) (\<lambda>(s, d, m).
     Option.bind (read_silence n (Suc b) (ms\<lparr>lm_silence := (lm_silence ms)[band_context b := m]\<rparr>) d) (\<lambda>((flags, ms), d).
     Some (((s = 1) # flags, ms), d)))"

fun read_awake ::
  "bool list \<Rightarrow> nat \<Rightarrow> u8 option \<Rightarrow> int \<Rightarrow> level_models \<Rightarrow> range_decoder \<Rightarrow> ((u8 list \<times> level_models) \<times> range_decoder) option" where
  "read_awake [] b predictor previous ms d = Some (([], ms), d)"
| "read_awake (flag # flags) b predictor previous ms d =
     (if flag then
        Option.bind (read_awake flags (Suc b) predictor previous ms d) (\<lambda>((levels, ms), d). Some ((0 # levels, ms), d))
      else case predictor of
        None \<Rightarrow>
          Option.bind (decode_symbol d (lm_first ms)) (\<lambda>(s, d, m).
          let level = word_of_nat s
          in Option.bind (read_awake flags (Suc b) (Some level) previous (ms\<lparr>lm_first := m\<rparr>) d) (\<lambda>((levels, ms), d).
             Some ((level # levels, ms), d)))
      | Some p \<Rightarrow>
          let i = residual_model b previous
          in Option.bind (decode_symbol d (lm_residual ms ! i)) (\<lambda>(s, d, m).
             let level = unfold_residual s p
             in Option.bind (read_awake flags (Suc b) (Some level) (int (unat level) - int (unat p))
                  (ms\<lparr>lm_residual := (lm_residual ms)[i := m]\<rparr>) d) (\<lambda>((levels, ms), d).
                Some ((level # levels, ms), d))))"

definition read_levels :: "nat \<Rightarrow> level_models \<Rightarrow> range_decoder \<Rightarrow> ((u8 list \<times> level_models) \<times> range_decoder) option" where
  "read_levels bands ms d =
     Option.bind (read_silence bands 0 ms d) (\<lambda>((flags, ms), d). read_awake flags 0 None 0 ms d)"

section \<open>Reading follows writing\<close>

text \<open>
  \<open>follows e e' rd x\<close>: after the encoder has gone from \<open>e\<close> to \<open>e'\<close>, a decoder in step with \<open>e\<close> reads \<open>x\<close> by \<open>rd\<close> and is in
  step with \<open>e'\<close>.
\<close>

definition follows :: "range_encoder \<Rightarrow> range_encoder \<Rightarrow> (range_decoder \<Rightarrow> ('a \<times> range_decoder) option) \<Rightarrow> 'a \<Rightarrow> bool" where
  "follows e e' rd x \<longleftrightarrow> encoding e' \<and> (\<forall>bs. inside bs e' \<longrightarrow> inside bs e) \<and>
     (\<forall>bs d. synced bs e d \<longrightarrow> inside bs e' \<longrightarrow> (\<exists>d'. rd d = Some (x, d') \<and> synced bs e' d'))"

lemma followsD: "follows e e' rd x \<Longrightarrow> synced bs e d \<Longrightarrow> inside bs e' \<Longrightarrow> \<exists>d'. rd d = Some (x, d') \<and> synced bs e' d'"
  by (simp add: follows_def)

lemma follows_refl: "encoding e \<Longrightarrow> follows e e (\<lambda>d. Some (x, d)) x"
  by (auto simp: follows_def)

lemma follows_bind:
  assumes "follows e e1 rd x" "follows e1 e2 (rd' x) y"
  shows "follows e e2 (\<lambda>d. Option.bind (rd d) (\<lambda>(x, d). rd' x d)) y"
  unfolding follows_def
proof (intro conjI allI impI)
  fix bs d assume d: "synced bs e d" "inside bs e2"
  then have "inside bs e1" using assms(2) by (simp add: follows_def)
  from followsD [OF assms(1) d(1) this] obtain d1 where "rd d = Some (x, d1)" "synced bs e1 d1" by blast
  moreover from followsD [OF assms(2) this(2) d(2)] obtain d2 where "rd' x d1 = Some (y, d2)" "synced bs e2 d2" by blast
  ultimately show "\<exists>d'. Option.bind (rd d) (\<lambda>(x, d). rd' x d) = Some (y, d') \<and> synced bs e2 d'" by simp
qed (use assms in \<open>auto simp: follows_def\<close>)

lemma follows_symbol:
  assumes "encoding e" "model_ok m" "s < length (fm_counts m)"
  obtains e' m' where "encode_symbol e m s = Some (e', m')" "encoding e'" "model_ok m'"
    "length (fm_counts m') = length (fm_counts m)"
    "\<And>e2 (rd :: nat \<Rightarrow> range_decoder \<Rightarrow> freq_model \<Rightarrow> ('a \<times> range_decoder) option) y.
      follows e' e2 (\<lambda>d. rd s d m') y \<Longrightarrow>
      follows e e2 (\<lambda>d. Option.bind (decode_symbol d m) (\<lambda>(s, d, m). rd s d m)) y"
proof -
  from symbol_follows [OF assms] obtain e' m' where one: "encode_symbol e m s = Some (e', m')" "encoding e'" "model_ok m'"
    "length (fm_counts m') = length (fm_counts m)" "\<And>bs. inside bs e' \<Longrightarrow> inside bs e"
    "\<And>bs d. synced bs e d \<Longrightarrow> inside bs e' \<Longrightarrow> \<exists>d'. decode_symbol d m = Some (s, d', m') \<and> synced bs e' d'"
    by blast
  have "follows e e2 (\<lambda>d. Option.bind (decode_symbol d m) (\<lambda>(s, d, m). rd s d m)) y"
    if f: "follows e' e2 (\<lambda>d. rd s d m') y" for e2 and rd :: "nat \<Rightarrow> range_decoder \<Rightarrow> freq_model \<Rightarrow> ('a \<times> range_decoder) option" and y
  proof -
    have "follows e e' (\<lambda>d. map_option (\<lambda>(s, d, m). ((s, m), d)) (decode_symbol d m)) (s, m')"
      using one(2,5,6) by (fastforce simp: follows_def)
    from follows_bind [OF this, of e2 "\<lambda>(s, m) d. rd s d m" y] f
    have "follows e e2 (\<lambda>d. Option.bind (map_option (\<lambda>(s, d, m). ((s, m), d)) (decode_symbol d m)) (\<lambda>((s, m), d). rd s d m)) y"
      by (simp add: case_prod_unfold)
    moreover have "Option.bind (map_option (\<lambda>(s, d, m). ((s, m), d)) z) (\<lambda>((s, m), d). rd s d m) =
        Option.bind z (\<lambda>(s, d, m). rd s d m)" for z
      by (cases z) auto
    ultimately show ?thesis by simp
  qed
  then show thesis by (rule that [OF one(1,2,3,4)])
qed

lemma follows_map:
  assumes "follows e e' rd x"
  shows "follows e e' (\<lambda>d. Option.bind (rd d) (\<lambda>(x, d). Some (f x, d))) (f x)"
  using follows_bind [OF assms, of e' "\<lambda>x d. Some (f x, d)" "f x"] follows_refl [of e' "f x"] assms
  by (simp add: follows_def)

lemma follows_new:
  assumes "follows range_encoder_new e rd x"
  shows "\<exists>d. rd (range_decoder_new (range_finish e @ rest)) = Some (x, d)"
proof -
  have e: "encoding e" "inside (range_finish e @ rest) range_encoder_new"
    using assms finish_inside [of e rest] by (auto simp: follows_def)
  from followsD [OF assms synced_new [OF e(2)] finish_inside [OF e(1)]] show ?thesis by blast
qed

section \<open>Residuals\<close>

lemma unfold_fold_delta: "\<bar>delta\<bar> \<le> 95 \<Longrightarrow> unfold_delta (fold_delta delta) = delta"
proof (cases "0 \<le> delta")
  case True
  assume "\<bar>delta\<bar> \<le> 95"
  then have "nat delta * 2 \<le> 191" using True by linarith
  then have "fold_delta delta = nat delta * 2" using True by (simp add: fold_delta_def ENERGY_SYMBOLS_def)
  then show ?thesis using True by (simp add: unfold_delta_def)
next
  case False
  assume "\<bar>delta\<bar> \<le> 95"
  then have n: "nat (- delta) * 2 - 1 \<le> 191" "0 < nat (- delta)" using False by linarith+
  then have "fold_delta delta = nat (- delta) * 2 - 1" using False by (simp add: fold_delta_def ENERGY_SYMBOLS_def)
  moreover obtain m where "nat (- delta) = Suc m" using n(2) by (cases "nat (- delta)") auto
  then have "(nat (- delta) * 2 - 1) mod 2 = 1" "(nat (- delta) * 2 - 1 + 1) div 2 = nat (- delta)"
    by (simp_all add: mod_Suc)
  ultimately show ?thesis using False by (simp add: unfold_delta_def)
qed

lemma awake_191: "AWAKE_LEVELS = 191"
  by (simp add: AWAKE_LEVELS_def ENERGY_SYMBOLS_def)

lemma fold_delta_less: "fold_delta delta < ENERGY_SYMBOLS"
  by (simp add: fold_delta_def ENERGY_SYMBOLS_def)

lemma fold_residual_less: "fold_residual r < ENERGY_SYMBOLS"
  by (simp add: fold_residual_def fold_delta_less Let_def)

definition awake :: "u8 \<Rightarrow> bool" where
  "awake l \<longleftrightarrow> l \<noteq> SILENT \<and> unat l < ENERGY_SYMBOLS"

text \<open>The levels of an awake band are a ring: the residual carries the difference whichever way round is shorter.\<close>

lemma unfold_fold_residual:
  assumes "awake level" "awake p"
  shows "unfold_residual (fold_residual (int (unat level) - int (unat p))) p = level"
proof -
  define l q where "l = int (unat level)" and "q = int (unat p)"
  have b: "1 \<le> l" "l \<le> 191" "1 \<le> q" "q \<le> 191"
    using assms unat_gt_0 [of level] unat_gt_0 [of p]
    unfolding awake_def SILENT_def ENERGY_SYMBOLS_def l_def q_def by linarith+
  define d where "d = (l - q) mod 191"
  define c where "c = (if 95 < d then d - 191 else d)"
  have d: "0 \<le> d" "d < 191" by (simp_all add: d_def)
  then have c: "\<bar>c\<bar> \<le> 95" "c mod 191 = d" by (auto simp: c_def)
  have "fold_residual (l - q) = fold_delta c"
    by (simp add: fold_residual_def AWAKE_LEVELS_def ENERGY_SYMBOLS_def d_def c_def Let_def)
  then have "unfold_delta (fold_residual (l - q)) mod 191 = d" using unfold_fold_delta [OF c(1)] c(2) by simp
  moreover have "(q - 1 + d) mod 191 = l - 1"
  proof -
    have "(q - 1 + d) mod 191 = (q - 1 + (l - q)) mod 191" unfolding d_def by (rule mod_add_right_eq)
    then show ?thesis using b by simp
  qed
  moreover have "unfold_residual s p = word_of_int (1 + (q - 1 + unfold_delta s mod 191) mod 191)" for s
    by (simp only: unfold_residual_def awake_191 Let_def q_def)
  ultimately have "unfold_residual (fold_residual (l - q)) p = word_of_int l" by simp
  then show ?thesis by (simp add: l_def q_def)
qed

section \<open>Levels read back\<close>

definition sized_models :: "nat \<Rightarrow> nat \<Rightarrow> freq_model list \<Rightarrow> bool" where
  "sized_models c n ms \<longleftrightarrow> length ms = c \<and> (\<forall>m\<in>set ms. model_ok m \<and> length (fm_counts m) = n)"

definition models_ok :: "level_models \<Rightarrow> bool" where
  "models_ok ms \<longleftrightarrow> sized_models BAND_CONTEXTS 2 (lm_silence ms) \<and>
     sized_models (BAND_CONTEXTS * RESIDUAL_CONTEXTS) ENERGY_SYMBOLS (lm_residual ms) \<and>
     model_ok (lm_first ms) \<and> length (fm_counts (lm_first ms)) = ENERGY_SYMBOLS"

lemma sized_models_nth: "sized_models c n ms \<Longrightarrow> i < c \<Longrightarrow> model_ok (ms ! i) \<and> length (fm_counts (ms ! i)) = n"
  by (auto simp: sized_models_def)

lemma sized_models_update:
  "sized_models c n ms \<Longrightarrow> model_ok m \<Longrightarrow> length (fm_counts m) = n \<Longrightarrow> sized_models c n (ms[i := m])"
  by (auto simp: sized_models_def dest!: set_update_subset_insert [THEN subsetD])

lemma models_ok_new: "models_ok level_models_new"
  by (auto simp: models_ok_def sized_models_def level_models_new_def ENERGY_SYMBOLS_def intro!: model_ok_new)
    (simp_all add: model_new_def)

lemma band_context_less: "band_context b < BAND_CONTEXTS"
  by (simp add: band_context_def BAND_CONTEXTS_def)

lemma residual_model_less: "residual_model b previous < BAND_CONTEXTS * RESIDUAL_CONTEXTS"
proof -
  have "residual_context previous < 5" by (simp add: residual_context_def)
  then show ?thesis using band_context_less [of b]
    by (simp add: residual_model_def BAND_CONTEXTS_def RESIDUAL_CONTEXTS_def)
qed

lemma silence_follows:
  assumes "encoding e" "models_ok ms"
  shows "\<exists>e' ms'. write_silence e ms b levels = Some (e', ms') \<and> models_ok ms' \<and>
    follows e e' (read_silence (length levels) b ms) (map (\<lambda>l. l = SILENT) levels, ms')"
  using assms
proof (induction levels arbitrary: e ms b)
  case Nil
  then show ?case using follows_refl [of e "([], ms)"] by simp
next
  case (Cons l levels)
  let ?c = "band_context b" and ?s = "if l = SILENT then 1 else 0 :: nat"
  have m: "model_ok (lm_silence ms ! ?c)" "?s < length (fm_counts (lm_silence ms ! ?c))"
    using Cons.prems(2) sized_models_nth [of BAND_CONTEXTS 2 "lm_silence ms" ?c] band_context_less [of b]
    by (auto simp: models_ok_def)
  obtain e1 m1 where one: "encode_symbol e (lm_silence ms ! ?c) ?s = Some (e1, m1)" "encoding e1" "model_ok m1"
    "length (fm_counts m1) = length (fm_counts (lm_silence ms ! ?c))"
    and step: "\<And>e2 (rd :: nat \<Rightarrow> range_decoder \<Rightarrow> freq_model \<Rightarrow> ((bool list \<times> level_models) \<times> range_decoder) option) y.
      follows e1 e2 (\<lambda>d. rd ?s d m1) y \<Longrightarrow>
      follows e e2 (\<lambda>d. Option.bind (decode_symbol d (lm_silence ms ! ?c)) (\<lambda>(s, d, m). rd s d m)) y"
    using follows_symbol [OF Cons.prems(1) m] by blast
  let ?ms = "ms\<lparr>lm_silence := (lm_silence ms)[?c := m1]\<rparr>"
  have "models_ok ?ms"
    using Cons.prems(2) one(3,4) sized_models_nth [of BAND_CONTEXTS 2 "lm_silence ms" ?c] band_context_less [of b]
    by (auto simp: models_ok_def intro: sized_models_update)
  from Cons.IH [OF one(2) this] obtain e2 ms2 where two: "write_silence e1 ?ms (Suc b) levels = Some (e2, ms2)" "models_ok ms2"
    "follows e1 e2 (read_silence (length levels) (Suc b) ?ms) (map (\<lambda>l. l = SILENT) levels, ms2)" by blast
  have "follows e e2 (\<lambda>d. Option.bind (decode_symbol d (lm_silence ms ! ?c)) (\<lambda>(s, d, m).
      Option.bind (read_silence (length levels) (Suc b) (ms\<lparr>lm_silence := (lm_silence ms)[?c := m]\<rparr>) d)
        (\<lambda>((flags, ms), d). Some (((s = 1) # flags, ms), d)))) ((?s = 1) # map (\<lambda>l. l = SILENT) levels, ms2)"
    by (rule step) (use follows_map [OF two(3), of "\<lambda>(flags, ms). ((?s = 1) # flags, ms)"] in \<open>simp add: case_prod_unfold\<close>)
  then show ?case using one(1) two(1,2) by (cases "l = SILENT") auto
qed

definition level_ok :: "u8 \<Rightarrow> bool" where
  "level_ok l \<longleftrightarrow> unat l < ENERGY_SYMBOLS"

text \<open>One awake band: the first of a frame, and one with a band below it.\<close>

lemma awake_first_follows:
  assumes "encoding e" "models_ok ms" "awake l"
    and "predictor = None"
    and "\<And>e ms. encoding e \<Longrightarrow> models_ok ms \<Longrightarrow> \<exists>e' ms'. write_awake e ms (Suc b) (Some l) previous levels = Some (e', ms') \<and>
      models_ok ms' \<and> follows e e' (read_awake (map (\<lambda>l. l = SILENT) levels) (Suc b) (Some l) previous ms) (levels, ms')"
  shows "\<exists>e' ms'. write_awake e ms b predictor previous (l # levels) = Some (e', ms') \<and> models_ok ms' \<and>
    follows e e' (read_awake (map (\<lambda>l. l = SILENT) (l # levels)) b predictor previous ms) (l # levels, ms')"
proof -
  have m: "model_ok (lm_first ms)" "unat l < length (fm_counts (lm_first ms))"
    using assms(2) assms(3) by (auto simp: models_ok_def awake_def)
  obtain e1 m1 where one: "encode_symbol e (lm_first ms) (unat l) = Some (e1, m1)" "encoding e1" "model_ok m1"
    "length (fm_counts m1) = length (fm_counts (lm_first ms))"
    and step: "\<And>e2 (rd :: nat \<Rightarrow> range_decoder \<Rightarrow> freq_model \<Rightarrow> ((u8 list \<times> level_models) \<times> range_decoder) option) y.
      follows e1 e2 (\<lambda>d. rd (unat l) d m1) y \<Longrightarrow>
      follows e e2 (\<lambda>d. Option.bind (decode_symbol d (lm_first ms)) (\<lambda>(s, d, m). rd s d m)) y"
    using follows_symbol [OF assms(1) m] by blast
  have "models_ok (ms\<lparr>lm_first := m1\<rparr>)" using assms(2) one(3,4) by (simp add: models_ok_def)
  from assms(5) [OF one(2) this] obtain e2 ms2 where
    two: "write_awake e1 (ms\<lparr>lm_first := m1\<rparr>) (Suc b) (Some l) previous levels = Some (e2, ms2)" "models_ok ms2"
      "follows e1 e2 (read_awake (map (\<lambda>l. l = SILENT) levels) (Suc b) (Some l) previous (ms\<lparr>lm_first := m1\<rparr>)) (levels, ms2)"
    by blast
  have "follows e e2 (\<lambda>d. Option.bind (decode_symbol d (lm_first ms)) (\<lambda>(s, d, m).
      Option.bind (read_awake (map (\<lambda>l. l = SILENT) levels) (Suc b) (Some (word_of_nat s)) previous (ms\<lparr>lm_first := m\<rparr>) d)
        (\<lambda>((levels, ms), d). Some ((word_of_nat s # levels, ms), d)))) (l # levels, ms2)"
    by (rule step) (use follows_map [OF two(3), of "\<lambda>(levels, ms). (l # levels, ms)"] in \<open>simp add: case_prod_unfold\<close>)
  then show ?thesis using one(1) two(1,2) assms(3,4) by (simp add: Let_def awake_def read_awake.simps(2) [abs_def])
qed

lemma awake_residual_follows:
  fixes l p :: u8
  defines "r \<equiv> int (unat l) - int (unat p)"
  assumes "encoding e" "models_ok ms" "awake l" "awake p"
    and "\<And>e ms. encoding e \<Longrightarrow> models_ok ms \<Longrightarrow> \<exists>e' ms'. write_awake e ms (Suc b) (Some l) r levels = Some (e', ms') \<and>
      models_ok ms' \<and> follows e e' (read_awake (map (\<lambda>l. l = SILENT) levels) (Suc b) (Some l) r ms) (levels, ms')"
  shows "\<exists>e' ms'. write_awake e ms b (Some p) previous (l # levels) = Some (e', ms') \<and> models_ok ms' \<and>
    follows e e' (read_awake (map (\<lambda>l. l = SILENT) (l # levels)) b (Some p) previous ms) (l # levels, ms')"
proof -
  let ?i = "residual_model b previous" and ?r = "int (unat l) - int (unat p)"
  note sized = sized_models_nth [of "BAND_CONTEXTS * RESIDUAL_CONTEXTS" ENERGY_SYMBOLS "lm_residual ms" ?i]
  have m: "model_ok (lm_residual ms ! ?i)" "fold_residual ?r < length (fm_counts (lm_residual ms ! ?i))"
    using assms(3) sized residual_model_less fold_residual_less by (auto simp: models_ok_def)
  obtain e1 m1 where one: "encode_symbol e (lm_residual ms ! ?i) (fold_residual ?r) = Some (e1, m1)" "encoding e1" "model_ok m1"
    "length (fm_counts m1) = length (fm_counts (lm_residual ms ! ?i))"
    and step: "\<And>e2 (rd :: nat \<Rightarrow> range_decoder \<Rightarrow> freq_model \<Rightarrow> ((u8 list \<times> level_models) \<times> range_decoder) option) y.
      follows e1 e2 (\<lambda>d. rd (fold_residual ?r) d m1) y \<Longrightarrow>
      follows e e2 (\<lambda>d. Option.bind (decode_symbol d (lm_residual ms ! ?i)) (\<lambda>(s, d, m). rd s d m)) y"
    using follows_symbol [OF assms(2) m] by blast
  let ?ms = "ms\<lparr>lm_residual := (lm_residual ms)[?i := m1]\<rparr>"
  have "models_ok ?ms"
    using assms(3) one(3,4) sized residual_model_less by (auto simp: models_ok_def intro: sized_models_update)
  from assms(6) [unfolded r_def, OF one(2) this] obtain e2 ms2 where
    two: "write_awake e1 ?ms (Suc b) (Some l) ?r levels = Some (e2, ms2)" "models_ok ms2"
      "follows e1 e2 (read_awake (map (\<lambda>l. l = SILENT) levels) (Suc b) (Some l) ?r ?ms) (levels, ms2)"
    by blast
  have "follows e e2 (\<lambda>d. Option.bind (decode_symbol d (lm_residual ms ! ?i)) (\<lambda>(s, d, m).
      Option.bind (read_awake (map (\<lambda>l. l = SILENT) levels) (Suc b) (Some (unfold_residual s p))
          (int (unat (unfold_residual s p)) - int (unat p)) (ms\<lparr>lm_residual := (lm_residual ms)[?i := m]\<rparr>) d)
        (\<lambda>((levels, ms), d). Some ((unfold_residual s p # levels, ms), d)))) (l # levels, ms2)"
    by (rule step)
      (use follows_map [OF two(3), of "\<lambda>(levels, ms). (l # levels, ms)"] in
        \<open>simp only: unfold_fold_residual [OF assms(4,5)] case_prod_unfold fst_conv snd_conv\<close>)
  then show ?thesis using one(1) two(1,2) assms(4) by (simp add: Let_def awake_def read_awake.simps(2) [abs_def])
qed

lemma awake_follows:
  assumes "encoding e" "models_ok ms" "list_all level_ok levels" "pred_option awake predictor"
  shows "\<exists>e' ms'. write_awake e ms b predictor previous levels = Some (e', ms') \<and> models_ok ms' \<and>
    follows e e' (read_awake (map (\<lambda>l. l = SILENT) levels) b predictor previous ms) (levels, ms')"
  using assms
proof (induction levels arbitrary: e ms b predictor previous)
  case Nil
  then show ?case using follows_refl [of e "([], ms)"] by simp
next
  case (Cons l levels)
  show ?case
  proof (cases "l = SILENT")
    case True
    from Cons.IH [of e ms predictor "Suc b" previous] Cons.prems obtain e2 ms2 where
      two: "write_awake e ms (Suc b) predictor previous levels = Some (e2, ms2)" "models_ok ms2"
        "follows e e2 (read_awake (map (\<lambda>l. l = SILENT) levels) (Suc b) predictor previous ms) (levels, ms2)" by auto
    from follows_map [OF two(3), of "\<lambda>(levels, ms). (0 # levels, ms)"] show ?thesis
      using two(1,2) True by (simp add: case_prod_unfold SILENT_def)
  next
    case False
    then have l: "awake l" using Cons.prems(3) by (simp add: awake_def level_ok_def)
    show ?thesis
    proof (cases predictor)
      case None
      then show ?thesis
        using Cons.IH [of _ _ "Some l" "Suc b" previous] Cons.prems l by (intro awake_first_follows) auto
    next
      case (Some p)
      then show ?thesis
        using Cons.IH [of _ _ "Some l" "Suc b" "int (unat l) - int (unat p)"] Cons.prems l
        by (simp only:) (intro awake_residual_follows, auto)
    qed
  qed
qed

lemma levels_follow:
  assumes "encoding e" "models_ok ms" "list_all level_ok levels"
  shows "\<exists>e' ms'. write_levels e levels ms = Some (e', ms') \<and> models_ok ms' \<and>
    follows e e' (read_levels (length levels) ms) (levels, ms')"
proof -
  from silence_follows [OF assms(1,2), of 0 levels] obtain e1 ms1 where
    one: "write_silence e ms 0 levels = Some (e1, ms1)" "models_ok ms1"
      "follows e e1 (read_silence (length levels) 0 ms) (map (\<lambda>l. l = SILENT) levels, ms1)" by blast
  then have "encoding e1" by (simp add: follows_def)
  from awake_follows [OF this one(2) assms(3), of None 0 0] obtain e2 ms2 where
    two: "write_awake e1 ms1 0 None 0 levels = Some (e2, ms2)" "models_ok ms2"
      "follows e1 e2 (read_awake (map (\<lambda>l. l = SILENT) levels) 0 None 0 ms1) (levels, ms2)" by auto
  have "follows e e2 (read_levels (length levels) ms) (levels, ms2)"
    using follows_bind [OF one(3), of e2 "\<lambda>(flags, ms). read_awake flags 0 None 0 ms" "(levels, ms2)"] two(3)
    by (simp add: read_levels_def [abs_def] case_prod_unfold)
  then show ?thesis using one(1) two(1,2) by (simp add: write_levels_def)
qed

section \<open>The wire form read back\<close>

lemma drop_empty_spec:
  "layers \<noteq> [] \<Longrightarrow> \<exists>k. layers = drop_empty layers @ replicate k [] \<and> drop_empty layers \<noteq> [] \<and>
    (length (drop_empty layers) = 1 \<or> last (drop_empty layers) \<noteq> [])"
proof (induction layers rule: drop_empty.induct)
  case (1 layers)
  show ?case
  proof (cases "1 < length layers \<and> last layers = []")
    case True
    then have "butlast layers \<noteq> []" by (cases layers) auto
    from 1(1) [OF True this] obtain k where k: "butlast layers = drop_empty (butlast layers) @ replicate k []"
      "drop_empty (butlast layers) \<noteq> []"
      "length (drop_empty (butlast layers)) = 1 \<or> last (drop_empty (butlast layers)) \<noteq> []" by blast
    have "layers = butlast layers @ [[]]" using True 1(2) by (metis append_butlast_last_id)
    also have "\<dots> = drop_empty (butlast layers) @ replicate (Suc k) []"
      using k(1) by (metis append.assoc replicate_append_same replicate_Suc)
    finally show ?thesis using True k(2,3) by (metis drop_empty.simps)
  next
    case False
    then have "drop_empty layers = layers" by (subst drop_empty.simps) auto
    then show ?thesis using False 1(2) by (cases layers) (auto intro: exI [of _ 0])
  qed
qed

lemma or_push_nat: "n < 2 ^ k \<Longrightarrow> n OR push_bit k m = n + m * 2 ^ k" for n m :: nat
proof -
  assume "n < 2 ^ k"
  then have "n = take_bit k n" by (simp add: take_bit_nat_eq_self)
  moreover have "take_bit k n AND push_bit k m = 0" by (rule bit_eqI) (auto simp: bit_simps)
  ultimately have "n AND push_bit k m = 0" by simp
  then show "n OR push_bit k m = n + m * 2 ^ k" by (simp add: push_bit_nat_def disjunctive_add_eq_or)
qed

lemma and_7f: "unat ((w :: u8) AND 0x7f) = unat w mod 128"
proof -
  have "w AND 0x7f = take_bit 7 w" by (simp add: take_bit_eq_mask mask_numeral)
  then show ?thesis by (simp only: unsigned_take_bit_eq) (simp add: take_bit_eq_mod)
qed

lemma and_80: "(w :: u8) AND 0x80 = 0 \<longleftrightarrow> unat w < 128"
proof -
  have "w AND 0x80 = 0 \<longleftrightarrow> \<not> bit w 7"
    using and_exp_eq_0_iff_not_bit [of w 7] by simp
  moreover have "bit w 7 \<longleftrightarrow> odd (unat w div 2 ^ 7)" by (metis bit_iff_odd bit_unsigned_iff possible_bit_nat)
  moreover have "unat w div 128 < 2" using unat_byte_less [of w] by (intro less_mult_imp_div_less) simp
  then have "odd (unat w div 128) \<longleftrightarrow> \<not> unat w < 128"
    using div_greater_zero_iff [of "unat w" 128] by (auto simp: less_2_cases_iff not_less)
  ultimately show ?thesis by simp
qed

lemma leb_bytes:
  assumes "x < 128"
  shows "unat (word_of_nat x :: u8) = x" "unat (word_of_nat x OR 0x80 :: u8) = x + 128"
proof -
  show x: "unat (word_of_nat x :: u8) = x" using assms by (simp add: unat_of_nat)
  have "unat (word_of_nat x OR 0x80 :: u8) = unat (word_of_nat x :: u8) OR 128" by (simp add: unsigned_or_eq)
  also have "\<dots> = x OR push_bit 7 1" by (simp add: x)
  also have "\<dots> = x + 128" using or_push_nat [of x 7 1] assms by simp
  finally show "unat (word_of_nat x OR 0x80 :: u8) = x + 128" .
qed

lemma read_length_leb128:
  "n < 128 ^ (4 - j) \<Longrightarrow> j \<le> 3 \<Longrightarrow> v < 2 ^ (7 * j) \<Longrightarrow>
    read_length (leb128 n @ rest) v (7 * j) = Some (v + n * 2 ^ (7 * j), rest)"
proof (induction n arbitrary: v j rule: leb128.induct)
  case (1 n)
  let ?x = "n mod 128"
  have x: "?x < 128" by simp
  note leb = leb_bytes [OF x]
  have shift: "\<not> 21 < 7 * j" using 1(3) by simp
  show ?case
  proof (cases "n div 128 = 0")
    case True
    then have "n < 128" by (simp add: div_eq_0_iff)
    then have "?x = n" "n < 128" by simp_all
    then show ?thesis using True shift 1(4) leb(1)
      by (subst leb128.simps) (simp add: Let_def and_7f and_80 or_push_nat)
  next
    case False
    have "j \<noteq> 3" using False 1(2) by auto
    then have j: "Suc j \<le> 3" using 1(3) by simp
    have n: "n div 128 < 128 ^ (4 - Suc j)"
    proof -
      have "4 - j = Suc (4 - Suc j)" using j by simp
      then have "128 ^ (4 - j) = 128 ^ (4 - Suc j) * (128 :: nat)" by (simp only: power_Suc2)
      then show ?thesis using 1(2) by (intro less_mult_imp_div_less) simp
    qed
    define v' where "v' = v + ?x * 2 ^ (7 * j)"
    have "v' < 2 ^ (7 * Suc j)"
    proof -
      have "?x * 2 ^ (7 * j) \<le> 127 * 2 ^ (7 * j)" using x by (intro mult_le_mono1) simp
      then have "v + ?x * 2 ^ (7 * j) < 128 * 2 ^ (7 * j)" using 1(4) by linarith
      then show ?thesis by (simp add: v'_def power_add)
    qed
    from 1(1) [OF refl refl False n j this]
    have "read_length (leb128 (n div 128) @ rest) v' (7 * Suc j) = Some (v' + n div 128 * 2 ^ (7 * Suc j), rest)" .
    moreover have "v' + n div 128 * 2 ^ (7 * Suc j) = v + n * 2 ^ (7 * j)"
    proof -
      have "n = ?x + n div 128 * 128" by simp
      then have "n * 2 ^ (7 * j) = ?x * 2 ^ (7 * j) + n div 128 * 128 * 2 ^ (7 * j)" by (metis add_mult_distrib)
      then show ?thesis by (simp add: v'_def power_add)
    qed
    moreover define c :: u8 where "c = word_of_nat ?x OR 0x80"
    have "leb128 n = c # leb128 (n div 128)" using False by (subst leb128.simps) (simp add: Let_def c_def)
    moreover have "c AND 0x80 \<noteq> 0" "unat (c AND 0x7f) = ?x" using leb(2) by (simp_all add: and_80 and_7f flip: c_def)
    ultimately show ?thesis using shift 1(4) by (simp add: Let_def or_push_nat v'_def add.commute)
  qed
qed

lemma read_lengths_leb128:
  "\<forall>l\<in>set ls. length l < 2 ^ 28 \<Longrightarrow>
    read_lengths (length ls) (concat (map (\<lambda>l. leb128 (length l)) ls) @ rest) = Some (map length ls, rest)"
  using read_length_leb128 [of _ 0 0] by (induction ls) auto

lemma cut_layers_concat: "cut_layers (map length ls) (concat ls) = ls"
  by (induction ls) auto

lemma cut_layers_body: "sum_list ns = length bs \<Longrightarrow> concat (cut_layers ns bs) = bs"
proof (induction ns arbitrary: bs)
  case (Cons n ns)
  then have "concat (cut_layers ns (drop n bs)) = drop n bs" by (intro Cons.IH) auto
  then show ?case by simp
qed simp

section \<open>Properties of the wire form\<close>

definition without_empty :: "layered_frame \<Rightarrow> layered_frame" where
  "without_empty f = f\<lparr>lf_refinements := tl (drop_empty (lf_base f # lf_refinements f))\<rparr>"

lemma drop_empty_layers:
  "drop_empty (lf_base f # lf_refinements f) = lf_base f # lf_refinements (without_empty f)"
  using drop_empty_spec [of "lf_base f # lf_refinements f"]
  by (cases "drop_empty (lf_base f # lf_refinements f)") (auto simp: without_empty_def)

text \<open>A frame survives the wire.  A frame of at most three refinements, none of them of \<open>2 ^ 28\<close> bytes or more, is
  read back as it was written, less the empty refinements at its end; and nothing but those is lost.
\<close>

theorem frame_crosses_the_wire:
  assumes "length (lf_refinements f) < LAYERS" "\<forall>l\<in>set (lf_base f # lf_refinements f). length l < 2 ^ 28"
  shows "frame_from_bytes (frame_to_bytes f) = Inr (without_empty f) \<and>
    (\<exists>k. lf_refinements f = lf_refinements (without_empty f) @ replicate k []) \<and>
    (lf_refinements (without_empty f) = [] \<or> last (lf_refinements (without_empty f)) \<noteq> [])"
proof -
  let ?rs = "lf_refinements (without_empty f)"
  define layers where "layers = lf_base f # ?rs"
  obtain k where k: "lf_base f # lf_refinements f = layers @ replicate k []" "length layers = 1 \<or> last layers \<noteq> []"
    using drop_empty_spec [of "lf_base f # lf_refinements f"] unfolding drop_empty_layers layers_def by blast
  define ls l where "ls = butlast layers" and "l = last layers"
  have ll: "layers = ls @ [l]" by (simp add: ls_def l_def layers_def)
  have small: "\<forall>x\<in>set ls. length x < 2 ^ 28" using assms(2) k(1) by (auto simp: ll)
  have len: "length layers \<le> LAYERS" using arg_cong [OF k(1), of length] assms(1) by simp
  then have len': "unat (word_of_nat (length layers) :: u8) = length layers" by (simp add: unat_of_nat LAYERS_def)
  have "frame_to_bytes f = word_of_nat (length layers) # concat (map (\<lambda>x. leb128 (length x)) ls) @ concat ls @ l"
    by (simp add: frame_to_bytes_def drop_empty_layers Let_def flip: layers_def) (simp add: ll)
  moreover have "cut_layers (map length ls @ [length (concat ls @ l) - sum_list (map length ls)]) (concat ls @ l) = layers"
    using cut_layers_concat [of "ls @ [l]"] by (simp add: length_concat ll)
  ultimately have "frame_from_bytes (frame_to_bytes f) = Inr \<lparr>lf_base = hd layers, lf_refinements = tl layers\<rparr>"
    using len len' read_lengths_leb128 [OF small, of "concat ls @ l"]
    by (simp add: frame_from_bytes_def Let_def length_concat) (simp add: ll length_concat Let_def)
  then have "frame_from_bytes (frame_to_bytes f) = Inr (without_empty f)"
    by (simp add: layers_def without_empty_def)
  moreover have "lf_refinements f = ?rs @ replicate k []" using k(1) by (simp add: layers_def)
  moreover have "?rs = [] \<or> last ?rs \<noteq> []" using k(2) by (auto simp: layers_def)
  ultimately show ?thesis by blast
qed

lemma frame_crosses_the_wire_witness:
  "frame_from_bytes (frame_to_bytes \<lparr>lf_base = [1, 2], lf_refinements = [[], [7], []]\<rparr>) =
     Inr (without_empty \<lparr>lf_base = [1, 2], lf_refinements = [[], [7], []]\<rparr>)"
  using frame_crosses_the_wire [of "\<lparr>lf_base = [1, 2], lf_refinements = [[], [7], []]\<rparr>"] by (simp add: LAYERS_def)

lemma read_length_suffix: "read_length bs n k = Some (m, rest) \<Longrightarrow> \<exists>pre. bs = pre @ rest"
  by (induction bs n k rule: read_length.induct) (auto simp: Let_def split: if_splits intro: exI [of _ "_ # _"])

lemma read_lengths_suffix:
  "read_lengths c bs = Some (ns, rest) \<Longrightarrow> length ns = c \<and> (\<exists>pre. bs = pre @ rest)"
proof (induction c arbitrary: bs ns)
  case (Suc c)
  then obtain m mid ms where step: "read_length bs 0 0 = Some (m, mid)" "read_lengths c mid = Some (ms, rest)" "ns = m # ms"
    by (auto simp: bind_eq_Some_conv)
  from read_length_suffix [OF step(1)] Suc.IH [OF step(2)] step(3) show ?case by (auto simp flip: append_assoc)
qed simp

text \<open>
  A hostile frame is refused or taken as it is: whatever bytes arrive, the layers read from them, at most
  \<^verbatim>\<open>LAYERS\<close> of them, put together are the end of those bytes: no layer reaches past them and none overlaps another.
\<close>

theorem layers_are_the_end_of_the_frame:
  assumes "frame_from_bytes bs = Inr f"
  shows "length (lf_refinements f) < LAYERS \<and> (\<exists>header. header \<noteq> [] \<and> bs = header @ lf_base f @ concat (lf_refinements f))"
proof -
  from assms obtain first rest lengths body where
    bs: "bs = first # rest" "unat first \<noteq> 0" "unat first \<le> LAYERS" "read_lengths (unat first - 1) rest = Some (lengths, body)"
      "sum_list lengths \<le> length body"
    and f: "f = (let layers = cut_layers (lengths @ [length body - sum_list lengths]) body
      in \<lparr> lf_base = hd layers, lf_refinements = tl layers \<rparr>)"
    by (auto simp: frame_from_bytes_def Let_def not_less split: list.splits if_splits option.splits prod.splits)
  from read_lengths_suffix [OF bs(4)] obtain pre where pre: "length lengths = unat first - 1" "rest = pre @ body" by blast
  define layers where "layers = cut_layers (lengths @ [length body - sum_list lengths]) body"
  have "length (cut_layers ns bs) = length ns" for ns bs by (induction ns arbitrary: bs) auto
  then have len: "length layers = unat first" using pre(1) bs(2) by (simp add: layers_def)
  then have layers: "layers = lf_base f # lf_refinements f" using bs(2) by (cases layers) (auto simp: f layers_def [symmetric])
  have "concat layers = body" unfolding layers_def using bs(5) by (intro cut_layers_body) simp
  then have "bs = (first # pre) @ lf_base f @ concat (lf_refinements f)" using layers pre(2) bs(1) by simp
  moreover have "length (lf_refinements f) < LAYERS" using len layers bs(3) by simp
  ultimately show ?thesis by blast
qed

lemma layers_are_the_end_of_the_frame_witness:
  "\<exists>header. [2, 1, 5, 6, 7] = header @ [5] @ concat [[6, 7 :: u8]]"
proof -
  have "frame_from_bytes [2, 1, 5, 6, 7] = Inr \<lparr>lf_base = [5], lf_refinements = [[6, 7]]\<rparr>" by code_simp
  from layers_are_the_end_of_the_frame [OF this] show ?thesis by auto
qed

lemma first_within_find:
  "first_within f budget ks =
     truncated f (case find (\<lambda>k. length (frame_to_bytes (truncated f k)) \<le> budget) ks of None \<Rightarrow> 0 | Some k \<Rightarrow> k)"
  by (induction ks) (simp_all add: Let_def)

text \<open>A frame is trimmed no more than it must be: \<^verbatim>\<open>within\<close> keeps as many refinements as fit the budget on the wire, and
  the base alone when not even that fits.
\<close>

theorem trimming_keeps_what_fits:
  "\<exists>k\<le>length (lf_refinements f). frame_within f budget = truncated f k \<and>
     (length (frame_to_bytes (frame_within f budget)) \<le> budget \<or> k = 0) \<and>
     (\<forall>j. k < j \<and> j \<le> length (lf_refinements f) \<longrightarrow> budget < length (frame_to_bytes (truncated f j)))"
proof -
  let ?n = "length (lf_refinements f)"
  define fits where "fits k = (length (frame_to_bytes (truncated f k)) \<le> budget)" for k
  define ks where "ks = rev [0..<?n + 1]"
  have nth: "ks ! i = ?n - i" if "i \<le> ?n" for i using that by (simp add: ks_def rev_nth del: upt_Suc)
  have len: "length ks = ?n + 1" by (simp add: ks_def)
  have within: "frame_within f budget = truncated f (case find fits ks of None \<Rightarrow> 0 | Some k \<Rightarrow> k)"
    by (simp only: frame_within_def first_within_find ks_def fits_def [abs_def])
  show ?thesis
  proof (cases "find fits ks")
    case None
    then have "\<forall>k\<in>set ks. \<not> fits k" by (simp add: find_None_iff)
    then have "\<not> fits j" if "j \<le> ?n" for j using that by (auto simp: ks_def)
    then show ?thesis using None within by (intro exI [of _ 0]) (auto simp: fits_def not_le)
  next
    case (Some k)
    then obtain i where i: "i < length ks" "fits (ks ! i)" "k = ks ! i" "\<forall>j<i. \<not> fits (ks ! j)"
      by (auto simp: find_Some_iff)
    have k: "k = ?n - i" "i \<le> ?n" using i(1,3) nth len by auto
    have "\<not> fits j" if "k < j" "j \<le> ?n" for j
    proof -
      have "?n - j < i" using that k by linarith
      with i(4) have "\<not> fits (ks ! (?n - j))" by blast
      then show ?thesis using nth [of "?n - j"] that(2) by simp
    qed
    then show ?thesis using Some within i(2,3) k by (intro exI [of _ k]) (auto simp: fits_def not_le)
  qed
qed

lemma trimming_keeps_what_fits_witness:
  "\<exists>k\<le>2. frame_within \<lparr>lf_base = [1], lf_refinements = [[2], [3, 4]]\<rparr> 5 = truncated \<lparr>lf_base = [1], lf_refinements = [[2], [3, 4]]\<rparr> k"
proof -
  define f where "f = \<lparr>lf_base = [1 :: u8], lf_refinements = [[2], [3, 4]]\<rparr>"
  have "length (lf_refinements f) = 2" by (simp add: f_def)
  with trimming_keeps_what_fits [of f 5] show ?thesis unfolding f_def by metis
qed

end
