(* ===== verification/Grouped_Frames.thy ===== *)
theory Grouped_Frames
  imports Layered_Frames
begin

text \<open>
  Groups of frames, \<^verbatim>\<open>rotelyx-codec/src/grouped.rs\<close>: the band levels of up to ten frames share one arithmetic stream, and
  the models go on from group to group at both ends; and the residual stages of a band, \<^verbatim>\<open>layered.rs\<close> and \<^verbatim>\<open>rvq.rs\<close>, packed
  bit by bit.  The shape coders are parameters: \<open>shapes\<close> takes a window of samples to levels and a layered frame, and
  \<open>render\<close> takes those back to samples.  A panic of the range coder is \<open>None\<close>.
\<close>

section \<open>Definitions\<close>

definition GROUP :: nat where "GROUP = 10"
definition WINDOW :: nat where "WINDOW = 1920"

record group =
  g_energies :: bytes
  g_frames :: "layered_frame list"

definition group_len :: "group \<Rightarrow> nat" where
  "group_len g = length (g_energies g) + sum_list (map frame_len (g_frames g))"

record 's grouped_encoder =
  ge_inner :: 's
  ge_models :: level_models
  ge_pending_levels :: "u8 list list"
  ge_pending_frames :: "layered_frame list"

definition grouped_encoder_new :: "'s \<Rightarrow> 's grouped_encoder" where
  "grouped_encoder_new inner =
     \<lparr> ge_inner = inner, ge_models = level_models_new, ge_pending_levels = [], ge_pending_frames = [] \<rparr>"

fun write_all_levels :: "range_encoder \<Rightarrow> level_models \<Rightarrow> u8 list list \<Rightarrow> (range_encoder \<times> level_models) option" where
  "write_all_levels e ms [] = Some (e, ms)"
| "write_all_levels e ms (levels # rest) = Option.bind (write_levels e levels ms) (\<lambda>(e, ms). write_all_levels e ms rest)"

definition grouped_flush :: "'s grouped_encoder \<Rightarrow> ('s grouped_encoder \<times> group) option" where
  "grouped_flush g =
     Option.bind (write_all_levels range_encoder_new (ge_models g) (ge_pending_levels g)) (\<lambda>(e, ms).
     Some (g\<lparr>ge_models := ms, ge_pending_levels := [], ge_pending_frames := []\<rparr>,
           \<lparr> g_energies = range_finish e, g_frames = ge_pending_frames g \<rparr>))"

definition grouped_push ::
  "('s \<Rightarrow> 'x list \<Rightarrow> 's \<times> (codec_error, u8 list \<times> layered_frame) result) \<Rightarrow> 's grouped_encoder \<Rightarrow> 'x list \<Rightarrow>
   ('s grouped_encoder \<times> (codec_error, group option) result) option" where
  "grouped_push shapes g audio =
     (if length audio \<noteq> WINDOW then Some (g, Inl (WrongFrameSize (length audio)))
      else case shapes (ge_inner g) audio of
        (s, Inl e) \<Rightarrow> Some (g\<lparr>ge_inner := s\<rparr>, Inl e)
      | (s, Inr (levels, frame)) \<Rightarrow>
          let g = g\<lparr>ge_inner := s, ge_pending_levels := ge_pending_levels g @ [levels],
                    ge_pending_frames := ge_pending_frames g @ [frame]\<rparr>
          in if length (ge_pending_levels g) < GROUP then Some (g, Inr None)
             else map_option (\<lambda>(g, grp). (g, Inr (Some grp))) (grouped_flush g))"

definition grouped_finish :: "'s grouped_encoder \<Rightarrow> ('s grouped_encoder \<times> group option) option" where
  "grouped_finish g =
     (if ge_pending_levels g = [] then Some (g, None) else map_option (\<lambda>(g, grp). (g, Some grp)) (grouped_flush g))"

record 'r grouped_decoder =
  gd_inner :: 'r
  gd_models :: level_models

definition grouped_decoder_new :: "'r \<Rightarrow> 'r grouped_decoder" where
  "grouped_decoder_new inner = \<lparr> gd_inner = inner, gd_models = level_models_new \<rparr>"

fun decode_frames ::
  "('r \<Rightarrow> u8 list \<Rightarrow> layered_frame \<Rightarrow> 'r \<times> (codec_error, 'x list) result) \<Rightarrow> 'r grouped_decoder \<Rightarrow> range_decoder \<Rightarrow> 'x list \<Rightarrow>
   layered_frame list \<Rightarrow> ('r grouped_decoder \<times> (codec_error, 'x list) result) option" where
  "decode_frames render g d out [] = Some (g, Inr out)"
| "decode_frames render g d out (frame # frames) =
     Option.bind (read_levels BANDS (gd_models g) d) (\<lambda>((levels, ms), d).
     case render (gd_inner g) levels frame of
       (r, Inl e) \<Rightarrow> Some (\<lparr> gd_inner = r, gd_models = ms \<rparr>, Inl e)
     | (r, Inr samples) \<Rightarrow> decode_frames render \<lparr> gd_inner = r, gd_models = ms \<rparr> d (out @ samples) frames)"

definition grouped_decode ::
  "('r \<Rightarrow> u8 list \<Rightarrow> layered_frame \<Rightarrow> 'r \<times> (codec_error, 'x list) result) \<Rightarrow> 'r grouped_decoder \<Rightarrow> group \<Rightarrow>
   ('r grouped_decoder \<times> (codec_error, 'x list) result) option" where
  "grouped_decode render g grp =
     (if g_energies grp = [] \<and> g_frames grp \<noteq> [] then Some (g, Inl Malformed)
      else decode_frames render g (range_decoder_new (g_energies grp)) [] (g_frames grp))"

section \<open>A group\<close>

definition levels_ok :: "u8 list \<Rightarrow> bool" where
  "levels_ok levels \<longleftrightarrow> length levels = BANDS \<and> list_all level_ok levels"

text \<open>What the shape decoder makes of levels and frames, one after another.\<close>

fun render_all ::
  "('r \<Rightarrow> u8 list \<Rightarrow> layered_frame \<Rightarrow> 'r \<times> (codec_error, 'x list) result) \<Rightarrow> 'r \<Rightarrow> 'x list \<Rightarrow> (u8 list \<times> layered_frame) list \<Rightarrow>
   'r \<times> (codec_error, 'x list) result" where
  "render_all render r out [] = (r, Inr out)"
| "render_all render r out ((levels, frame) # rest) =
     (case render r levels frame of
        (r, Inl e) \<Rightarrow> (r, Inl e)
      | (r, Inr samples) \<Rightarrow> render_all render r (out @ samples) rest)"

fun read_all_levels :: "nat \<Rightarrow> level_models \<Rightarrow> range_decoder \<Rightarrow> ((u8 list list \<times> level_models) \<times> range_decoder) option" where
  "read_all_levels 0 ms d = Some (([], ms), d)"
| "read_all_levels (Suc n) ms d =
     Option.bind (read_levels BANDS ms d) (\<lambda>((levels, ms), d).
     Option.bind (read_all_levels n ms d) (\<lambda>((rest, ms), d). Some ((levels # rest, ms), d)))"

lemma all_levels_follow:
  assumes "encoding e" "models_ok ms" "list_all levels_ok ls"
  shows "\<exists>e' ms'. write_all_levels e ms ls = Some (e', ms') \<and> models_ok ms' \<and>
    follows e e' (read_all_levels (length ls) ms) (ls, ms')"
  using assms
proof (induction ls arbitrary: e ms)
  case Nil
  then show ?case using follows_refl [of e "([], ms)"] by simp
next
  case (Cons l ls)
  from levels_follow [OF Cons.prems(1,2), of l] Cons.prems(3) obtain e1 ms1 where
    one: "write_levels e l ms = Some (e1, ms1)" "models_ok ms1" "follows e e1 (read_levels BANDS ms) (l, ms1)"
    by (auto simp: levels_ok_def)
  then have "encoding e1" by (simp add: follows_def)
  from Cons.IH [OF this one(2)] Cons.prems(3) obtain e2 ms2 where
    two: "write_all_levels e1 ms1 ls = Some (e2, ms2)" "models_ok ms2" "follows e1 e2 (read_all_levels (length ls) ms1) (ls, ms2)"
    by auto
  have "follows e e2 (read_all_levels (Suc (length ls)) ms) (l # ls, ms2)"
    using follows_bind [OF one(3), of e2 "\<lambda>(levels, ms) d. Option.bind (read_all_levels (length ls) ms d)
        (\<lambda>((rest, ms), d). Some ((levels # rest, ms), d))" "(l # ls, ms2)"]
      follows_map [OF two(3), of "\<lambda>(rest, ms). (l # rest, ms)"]
    by (simp add: read_all_levels.simps(2) [abs_def] case_prod_unfold)
  then show ?case using one(1) two(1,2) by (simp add: read_all_levels.simps(2) [abs_def])
qed

lemma decode_frames_levels:
  assumes "read_all_levels (length frames) (gd_models g) d = Some ((ls, ms), d')"
    "render_all render (gd_inner g) out (zip ls frames) = (r, Inr samples)"
  shows "decode_frames render g d out frames = Some (\<lparr> gd_inner = r, gd_models = ms \<rparr>, Inr samples)"
  using assms
proof (induction frames arbitrary: g d out ls)
  case Nil
  then show ?case by (cases g) simp
next
  case (Cons f fs)
  then obtain l ms1 d1 rest where one: "read_levels BANDS (gd_models g) d = Some ((l, ms1), d1)"
    "read_all_levels (length fs) ms1 d1 = Some ((rest, ms), d')" "ls = l # rest"
    by (auto simp: bind_eq_Some_conv)
  from Cons.prems(2) one(3) obtain r1 s1 where "render (gd_inner g) l f = (r1, Inr s1)"
    "render_all render r1 (out @ s1) (zip rest fs) = (r, Inr samples)"
    by (auto split: prod.splits sum.splits)
  then show ?case using Cons.IH [of "\<lparr> gd_inner = r1, gd_models = ms1 \<rparr>" d1 rest "out @ s1"] one by simp
qed

lemma range_finish_nonempty: "encoding e \<Longrightarrow> range_finish e \<noteq> []"
  using finish_inside [of e "[]"] by (auto simp: inside_def)

lemma flush_decodes:
  assumes "models_ok (ge_models g)" "list_all levels_ok (ge_pending_levels g)"
    "length (ge_pending_frames g) = length (ge_pending_levels g)"
    "render_all render r [] (zip (ge_pending_levels g) (ge_pending_frames g)) = (r', Inr samples)"
  shows "\<exists>ms grp. grouped_flush g = Some (g\<lparr>ge_models := ms, ge_pending_levels := [], ge_pending_frames := []\<rparr>, grp) \<and>
    models_ok ms \<and> g_frames grp = ge_pending_frames g \<and>
    grouped_decode render \<lparr> gd_inner = r, gd_models = ge_models g \<rparr> grp = Some (\<lparr> gd_inner = r', gd_models = ms \<rparr>, Inr samples)"
proof -
  from all_levels_follow [OF encoding_new assms(1,2)] obtain e ms where
    e: "write_all_levels range_encoder_new (ge_models g) (ge_pending_levels g) = Some (e, ms)" "models_ok ms"
      "follows range_encoder_new e (read_all_levels (length (ge_pending_levels g)) (ge_models g)) (ge_pending_levels g, ms)" by blast
  let ?grp = "\<lparr> g_energies = range_finish e, g_frames = ge_pending_frames g \<rparr>"
  from follows_new [OF e(3), of "[]"] obtain d where
    d: "read_all_levels (length (ge_pending_levels g)) (ge_models g) (range_decoder_new (range_finish e)) = Some ((ge_pending_levels g, ms), d)"
    by auto
  have "range_finish e \<noteq> []" using e(3) range_finish_nonempty by (auto simp: follows_def)
  then have "grouped_decode render \<lparr> gd_inner = r, gd_models = ge_models g \<rparr> ?grp = Some (\<lparr> gd_inner = r', gd_models = ms \<rparr>, Inr samples)"
    using decode_frames_levels [of "ge_pending_frames g" "\<lparr> gd_inner = r, gd_models = ge_models g \<rparr>"] d assms(3,4)
    by (simp add: grouped_decode_def)
  then show ?thesis using e(1,2) by (intro exI [of _ ms] exI [of _ ?grp]) (simp add: grouped_flush_def)
qed

section \<open>A call\<close>

text \<open>Every window pushed in turn and the rest flushed at the end; the groups decoded in turn; the frames in between.\<close>

fun encode_call ::
  "('s \<Rightarrow> 'x list \<Rightarrow> 's \<times> (codec_error, u8 list \<times> layered_frame) result) \<Rightarrow> 's grouped_encoder \<Rightarrow> 'x list list \<Rightarrow> group list option" where
  "encode_call shapes g [] = map_option (\<lambda>(g, last_group). case last_group of None \<Rightarrow> [] | Some grp \<Rightarrow> [grp]) (grouped_finish g)"
| "encode_call shapes g (audio # rest) =
     Option.bind (grouped_push shapes g audio) (\<lambda>(g, res).
     map_option (\<lambda>groups. case res of Inr (Some grp) \<Rightarrow> grp # groups | _ \<Rightarrow> groups) (encode_call shapes g rest))"

fun decode_call ::
  "('r \<Rightarrow> u8 list \<Rightarrow> layered_frame \<Rightarrow> 'r \<times> (codec_error, 'x list) result) \<Rightarrow> 'r grouped_decoder \<Rightarrow> group list \<Rightarrow>
   (codec_error, 'x list) result option" where
  "decode_call render g [] = Some (Inr [])"
| "decode_call render g (grp # groups) =
     Option.bind (grouped_decode render g grp) (\<lambda>(g, res).
     case res of Inl e \<Rightarrow> Some (Inl e) | Inr samples \<Rightarrow> map_option (map_sum id ((@) samples)) (decode_call render g groups))"

fun shaped ::
  "('s \<Rightarrow> 'x list \<Rightarrow> 's \<times> (codec_error, u8 list \<times> layered_frame) result) \<Rightarrow> 's \<Rightarrow> 'x list list \<Rightarrow> (u8 list \<times> layered_frame) list" where
  "shaped shapes s [] = []"
| "shaped shapes s (audio # rest) =
     (if length audio \<noteq> WINDOW then shaped shapes s rest
      else case shapes s audio of (s, Inl e) \<Rightarrow> shaped shapes s rest | (s, Inr p) \<Rightarrow> p # shaped shapes s rest)"

lemma render_all_out: "render_all render r out ps = map_prod id (map_sum id ((@) out)) (render_all render r [] ps)"
proof (induction ps arbitrary: r out)
  case (Cons p ps)
  obtain l f where p: "p = (l, f)" by (cases p)
  show ?case
  proof (cases "render r l f")
    case (Pair r1 res)
    show ?thesis
    proof (cases res)
      case (Inr samples)
      then show ?thesis
        using Cons.IH [of r1 "out @ samples"] Cons.IH [of r1 samples] p Pair
        by (cases "render_all render r1 [] ps"; cases "snd (render_all render r1 [] ps)") auto
    qed (simp add: p Pair)
  qed
qed simp

lemma render_all_append:
  assumes "render_all render r [] (ps @ qs) = (r', Inr samples)"
  shows "\<exists>r1 s1 s2. render_all render r [] ps = (r1, Inr s1) \<and> render_all render r1 [] qs = (r', Inr s2) \<and> samples = s1 @ s2"
  using assms
proof (induction ps arbitrary: r samples)
  case (Cons p ps)
  obtain l f where p: "p = (l, f)" by (cases p)
  from Cons.prems p obtain r1 s1 where one: "render r l f = (r1, Inr s1)"
    and rest: "render_all render r1 s1 (ps @ qs) = (r', Inr samples)" by (auto split: prod.splits sum.splits)
  from rest obtain s2 where s2: "render_all render r1 [] (ps @ qs) = (r', Inr s2)" "samples = s1 @ s2"
    by (subst (asm) render_all_out) (cases "render_all render r1 [] (ps @ qs)"; cases "snd (render_all render r1 [] (ps @ qs))", auto)
  from Cons.IH [OF s2(1)] obtain r2 t1 t2 where t: "render_all render r1 [] ps = (r2, Inr t1)"
    "render_all render r2 [] qs = (r', Inr t2)" "s2 = t1 @ t2" by blast
  have "render_all render r [] (p # ps) = (r2, Inr (s1 @ t1))"
    using one t(1) render_all_out [of render r1 s1 ps] by (simp add: p)
  then show ?case using t s2(2) by auto
qed simp

definition encoder_ready :: "'s grouped_encoder \<Rightarrow> bool" where
  "encoder_ready g \<longleftrightarrow> models_ok (ge_models g) \<and> length (ge_pending_frames g) = length (ge_pending_levels g) \<and>
     length (ge_pending_levels g) < GROUP"

lemma zip_snoc: "length xs = length ys \<Longrightarrow> zip (xs @ [x]) (ys @ [y]) = zip xs ys @ [(x, y)]"
  by simp

text \<open>A group that is flushed in the middle of a call takes the decoder to where the encoder is.\<close>

lemma call_after_flush:
  assumes "models_ok (ge_models g)" "length (ge_pending_frames g) = length (ge_pending_levels g)"
    "list_all (\<lambda>(levels, frame). levels_ok levels) (zip (ge_pending_levels g) (ge_pending_frames g))"
    "render_all render r [] (zip (ge_pending_levels g) (ge_pending_frames g) @ ps) = (r', Inr samples)"
  shows "\<exists>ms grp r1 s1 s2. grouped_flush g = Some (g\<lparr>ge_models := ms, ge_pending_levels := [], ge_pending_frames := []\<rparr>, grp) \<and>
    models_ok ms \<and> g_frames grp = ge_pending_frames g \<and> render_all render r1 [] ps = (r', Inr s2) \<and> samples = s1 @ s2 \<and>
    grouped_decode render \<lparr> gd_inner = r, gd_models = ge_models g \<rparr> grp = Some (\<lparr> gd_inner = r1, gd_models = ms \<rparr>, Inr s1)"
proof -
  from render_all_append [OF assms(4)] obtain r1 s1 s2 where
    parts: "render_all render r [] (zip (ge_pending_levels g) (ge_pending_frames g)) = (r1, Inr s1)"
      "render_all render r1 [] ps = (r', Inr s2)" "samples = s1 @ s2" by blast
  have "list_all levels_ok (map fst (zip (ge_pending_levels g) (ge_pending_frames g)))"
    using assms(3) by (simp add: list_all_iff case_prod_unfold)
  then have "list_all levels_ok (ge_pending_levels g)" using assms(2) by simp
  from flush_decodes [OF assms(1) this assms(2) parts(1)] obtain ms grp where
    "grouped_flush g = Some (g\<lparr>ge_models := ms, ge_pending_levels := [], ge_pending_frames := []\<rparr>, grp)" "models_ok ms"
    "g_frames grp = ge_pending_frames g"
    "grouped_decode render \<lparr> gd_inner = r, gd_models = ge_models g \<rparr> grp = Some (\<lparr> gd_inner = r1, gd_models = ms \<rparr>, Inr s1)"
    by blast
  with parts(2,3) show ?thesis by (intro exI conjI)
qed

definition call_ok ::
  "('s \<Rightarrow> 'x list \<Rightarrow> 's \<times> (codec_error, u8 list \<times> layered_frame) result) \<Rightarrow>
   ('r \<Rightarrow> u8 list \<Rightarrow> layered_frame \<Rightarrow> 'r \<times> (codec_error, 'y list) result) \<Rightarrow> 's grouped_encoder \<Rightarrow> 'r \<Rightarrow> 'x list list \<Rightarrow> 'y list \<Rightarrow> bool" where
  "call_ok shapes render g r windows samples \<longleftrightarrow> (\<exists>groups. encode_call shapes g windows = Some groups \<and>
    decode_call render \<lparr> gd_inner = r, gd_models = ge_models g \<rparr> groups = Some (Inr samples) \<and>
    concat (map g_frames groups) = ge_pending_frames g @ map snd (shaped shapes (ge_inner g) windows) \<and>
    (\<forall>grp\<in>set groups. length (g_frames grp) \<le> GROUP))"

lemma call_ok_ends:
  assumes "encoder_ready g"
    "list_all (\<lambda>(levels, frame). levels_ok levels) (zip (ge_pending_levels g) (ge_pending_frames g))"
    "render_all render r [] (zip (ge_pending_levels g) (ge_pending_frames g)) = (r', Inr samples)"
  shows "call_ok shapes render g r [] samples"
proof (cases "ge_pending_levels g = []")
  case True
  then show ?thesis using assms by (simp add: call_ok_def grouped_finish_def encoder_ready_def)
next
  case False
  from call_after_flush [of g render r "[]" r' samples] assms obtain ms grp r1 s1 s2 where
    flush: "grouped_flush g = Some (g\<lparr>ge_models := ms, ge_pending_levels := [], ge_pending_frames := []\<rparr>, grp)"
    "g_frames grp = ge_pending_frames g" "render_all render r1 [] [] = (r', Inr s2)" "samples = s1 @ s2"
    "grouped_decode render \<lparr> gd_inner = r, gd_models = ge_models g \<rparr> grp = Some (\<lparr> gd_inner = r1, gd_models = ms \<rparr>, Inr s1)"
    unfolding encoder_ready_def append_Nil2 by blast
  have "encode_call shapes g [] = Some [grp]" using False flush(1) by (simp add: grouped_finish_def)
  moreover have "decode_call render \<lparr> gd_inner = r, gd_models = ge_models g \<rparr> [grp] = Some (Inr samples)"
    using flush by simp
  moreover have "concat (map g_frames [grp]) = ge_pending_frames g" "\<forall>grp\<in>set [grp]. length (g_frames grp) \<le> GROUP"
    using flush(2) assms(1) by (simp_all add: encoder_ready_def)
  ultimately show ?thesis unfolding call_ok_def
    by (intro exI [of _ "[grp]"]) (simp del: encode_call.simps decode_call.simps)
qed

text \<open>A push that stores a frame or is refused, and one that completes a group.\<close>

lemma call_ok_stores:
  assumes "grouped_push shapes g audio = Some (g1, res)" "\<not> (\<exists>grp. res = Inr (Some grp))" "ge_models g1 = ge_models g"
    "ge_pending_frames g1 @ map snd (shaped shapes (ge_inner g1) windows) =
      ge_pending_frames g @ map snd (shaped shapes (ge_inner g) (audio # windows))"
    "call_ok shapes render g1 r windows samples"
  shows "call_ok shapes render g r (audio # windows) samples"
proof -
  from assms(5) obtain groups where "encode_call shapes g1 windows = Some groups"
    "decode_call render \<lparr> gd_inner = r, gd_models = ge_models g \<rparr> groups = Some (Inr samples)"
    "concat (map g_frames groups) = ge_pending_frames g @ map snd (shaped shapes (ge_inner g) (audio # windows))"
    "\<forall>grp\<in>set groups. length (g_frames grp) \<le> GROUP"
    unfolding call_ok_def assms(3,4) by blast
  moreover from this(1) have "encode_call shapes g (audio # windows) = Some groups"
    using assms(2) by (auto simp: assms(1) split: sum.splits option.splits)
  ultimately show ?thesis unfolding call_ok_def by blast
qed

lemma call_ok_completes:
  assumes "grouped_push shapes g audio = Some (g2, Inr (Some grp))" "ge_pending_frames g2 = []"
    "grouped_decode render \<lparr> gd_inner = r, gd_models = ge_models g \<rparr> grp = Some (\<lparr> gd_inner = r1, gd_models = ge_models g2 \<rparr>, Inr s1)"
    "length (g_frames grp) \<le> GROUP"
    "g_frames grp @ map snd (shaped shapes (ge_inner g2) windows) =
      ge_pending_frames g @ map snd (shaped shapes (ge_inner g) (audio # windows))"
    "call_ok shapes render g2 r1 windows s2"
  shows "call_ok shapes render g r (audio # windows) (s1 @ s2)"
proof -
  from assms(6) obtain groups where groups: "encode_call shapes g2 windows = Some groups"
    "decode_call render \<lparr> gd_inner = r1, gd_models = ge_models g2 \<rparr> groups = Some (Inr s2)"
    "concat (map g_frames groups) = map snd (shaped shapes (ge_inner g2) windows)"
    "\<forall>grp\<in>set groups. length (g_frames grp) \<le> GROUP"
    unfolding call_ok_def assms(2) append_Nil by blast
  have "encode_call shapes g (audio # windows) = Some (grp # groups)" by (simp add: assms(1) groups(1))
  moreover have "decode_call render \<lparr> gd_inner = r, gd_models = ge_models g \<rparr> (grp # groups) = Some (Inr (s1 @ s2))"
    by (simp add: assms(3) groups(2))
  moreover have "concat (map g_frames (grp # groups)) = ge_pending_frames g @ map snd (shaped shapes (ge_inner g) (audio # windows))"
    using groups(3) assms(5) by simp
  ultimately show ?thesis using groups(4) assms(4) unfolding call_ok_def by (intro exI [of _ "grp # groups"]) simp
qed

lemma call_decodes:
  assumes "encoder_ready g"
    "list_all (\<lambda>(levels, frame). levels_ok levels) (zip (ge_pending_levels g) (ge_pending_frames g) @ shaped shapes (ge_inner g) windows)"
    "render_all render r [] (zip (ge_pending_levels g) (ge_pending_frames g) @ shaped shapes (ge_inner g) windows) = (r', Inr samples)"
  shows "call_ok shapes render g r windows samples"
  using assms
proof (induction windows arbitrary: g r samples)
  case Nil
  then show ?case using call_ok_ends [of g render r r' samples shapes] by simp
next
  case (Cons audio windows)
  note ready = Cons.prems(1) [unfolded encoder_ready_def]
  obtain s res where shape: "shapes (ge_inner g) audio = (s, res)" by (cases "shapes (ge_inner g) audio")
  consider (size) "length audio \<noteq> WINDOW" | (refused) e where "length audio = WINDOW" "res = Inl e"
    | (shaped) l f where "length audio = WINDOW" "res = Inr (l, f)" by (cases res) auto
  then show ?case
  proof cases
    case size
    then show ?thesis using Cons by (intro call_ok_stores [of shapes g audio g "Inl (WrongFrameSize (length audio))"])
      (auto simp: grouped_push_def)
  next
    case refused
    then show ?thesis using Cons.IH [of "g\<lparr>ge_inner := s\<rparr>"] Cons.prems shape
      by (intro call_ok_stores [of shapes g audio "g\<lparr>ge_inner := s\<rparr>" "Inl e"]) (auto simp: grouped_push_def encoder_ready_def)
  next
    case shaped
    define g1 where "g1 = g\<lparr>ge_inner := s, ge_pending_levels := ge_pending_levels g @ [l], ge_pending_frames := ge_pending_frames g @ [f]\<rparr>"
    have frames: "ge_pending_frames g1 @ map snd (Grouped_Frames.shaped shapes (ge_inner g1) windows) =
        ge_pending_frames g @ map snd (Grouped_Frames.shaped shapes (ge_inner g) (audio # windows))"
      using shaped shape by (simp add: g1_def)
    have "zip (ge_pending_levels g) (ge_pending_frames g) @ Grouped_Frames.shaped shapes (ge_inner g) (audio # windows) =
        zip (ge_pending_levels g1) (ge_pending_frames g1) @ Grouped_Frames.shaped shapes (ge_inner g1) windows"
      using ready shaped shape by (simp add: g1_def zip_snoc)
    note prems = Cons.prems(2,3) [unfolded this]
    have push: "grouped_push shapes g audio = (if length (ge_pending_levels g1) < GROUP then Some (g1, Inr None)
        else map_option (\<lambda>(g, grp). (g, Inr (Some grp))) (grouped_flush g1))"
      using shaped shape by (simp add: grouped_push_def g1_def Let_def)
    show ?thesis
    proof (cases "length (ge_pending_levels g1) < GROUP")
      case True
      then have "encoder_ready g1" using ready by (simp add: encoder_ready_def g1_def)
      from Cons.IH [OF this prems] show ?thesis
        using push True frames by (intro call_ok_stores [of shapes g audio g1 "Inr None"]) (auto simp: g1_def)
    next
      case False
      have "models_ok (ge_models g1)" "length (ge_pending_frames g1) = length (ge_pending_levels g1)"
        using ready by (simp_all add: g1_def)
      from call_after_flush [OF this _ prems(2)] prems(1) obtain ms grp r1 s1 s2 where
        flush: "grouped_flush g1 = Some (g1\<lparr>ge_models := ms, ge_pending_levels := [], ge_pending_frames := []\<rparr>, grp)"
        "models_ok ms" "g_frames grp = ge_pending_frames g1"
        "render_all render r1 [] (Grouped_Frames.shaped shapes (ge_inner g1) windows) = (r', Inr s2)" "samples = s1 @ s2"
        "grouped_decode render \<lparr> gd_inner = r, gd_models = ge_models g1 \<rparr> grp = Some (\<lparr> gd_inner = r1, gd_models = ms \<rparr>, Inr s1)"
        unfolding list_all_append by blast
      let ?g2 = "g1\<lparr>ge_models := ms, ge_pending_levels := [], ge_pending_frames := []\<rparr>"
      have "encoder_ready ?g2" using flush(2) by (simp add: encoder_ready_def GROUP_def)
      then have "call_ok shapes render ?g2 r1 windows s2" using prems(1) flush(4) by (intro Cons.IH) auto
      moreover have "length (g_frames grp) \<le> GROUP" using ready flush(3) by (simp add: g1_def)
      ultimately show ?thesis unfolding flush(5)
        using push False flush frames
        by (intro call_ok_completes [of shapes g audio ?g2 grp render r r1 s1 windows s2]) (auto simp: g1_def)
    qed
  qed
qed

section \<open>Properties\<close>

text \<open>C17: a call decodes to what was encoded.  Whatever windows a caller hands in, those of the wrong length and those the
  shape coder refuses among them, the encoder never fails, and a decoder that is handed the groups in order gives the
  shape decoder exactly the levels and frames that were made, group after group, with the adaptive models of both
  ends in step for the whole call; no group has more than \<^verbatim>\<open>GROUP\<close> frames.
\<close>

theorem grouped_call_decodes:
  assumes "list_all (\<lambda>(levels, frame). length levels = BANDS \<and> list_all (\<lambda>l. unat l < ENERGY_SYMBOLS) levels) (shaped shapes s windows)"
    and "render_all render r [] (shaped shapes s windows) = (r', Inr samples)"
  shows "\<exists>groups. encode_call shapes (grouped_encoder_new s) windows = Some groups \<and>
    decode_call render (grouped_decoder_new r) groups = Some (Inr samples) \<and>
    concat (map g_frames groups) = map snd (shaped shapes s windows) \<and> (\<forall>grp\<in>set groups. length (g_frames grp) \<le> GROUP)"
proof -
  have "encoder_ready (grouped_encoder_new s)"
    by (simp add: encoder_ready_def grouped_encoder_new_def models_ok_new GROUP_def)
  moreover have "list_all (\<lambda>(levels, frame). levels_ok levels) (shaped shapes s windows)"
    using assms(1) by (simp add: levels_ok_def level_ok_def [abs_def])
  ultimately have "call_ok shapes render (grouped_encoder_new s) r windows samples"
    using assms(2) by (intro call_decodes) (auto simp: grouped_encoder_new_def)
  then show ?thesis by (simp add: call_ok_def grouped_encoder_new_def grouped_decoder_new_def)
qed

lemma grouped_call_decodes_witness:
  fixes shapes render
  defines "shapes \<equiv> \<lambda>(n :: u8) audio :: u8 list. (n + 1, Inr (replicate 24 n, \<lparr>lf_base = take 1 audio, lf_refinements = []\<rparr>))"
    and "render \<equiv> \<lambda>(u :: unit) levels frame. (u, Inr (take 1 levels @ lf_base frame))"
  shows "\<exists>groups. encode_call shapes (grouped_encoder_new 7) (replicate 2 (replicate 1920 3)) = Some groups \<and>
    decode_call render (grouped_decoder_new ()) groups = Some (Inr [7, 3, 8, 3])"
proof -
  have "shaped shapes 7 (replicate 2 (replicate 1920 3)) =
      [(replicate 24 7, \<lparr>lf_base = [3], lf_refinements = []\<rparr>), (replicate 24 8, \<lparr>lf_base = [3], lf_refinements = []\<rparr>)]"
    by (simp add: numeral_2_eq_2 shapes_def WINDOW_def)
  moreover from this have "render_all render () [] (shaped shapes 7 (replicate 2 (replicate 1920 3))) = ((), Inr [7, 3, 8, 3])"
    by (simp add: render_def)
  ultimately show ?thesis
    using grouped_call_decodes [of shapes 7 "replicate 2 (replicate 1920 3)" render "()" "()" "[7, 3, 8, 3]"]
    by (auto simp: BANDS_def ENERGY_SYMBOLS_def list_all_iff)
qed

end
