(* ===== verification/Residual_Stages.thy ===== *)
theory Residual_Stages
  imports Bit_Packer Pulse_Codebook
begin

text \<open>
  The residual stages of a band: how many pulses each stage gets, \<^verbatim>\<open>rotelyx-codec/src/rvq.rs\<close>, and how a stage is written
  and read, \<^verbatim>\<open>layered.rs\<close>.  \<open>width n k\<close> stands for \<^verbatim>\<open>pvq::bits(n, k).ceil() as usize\<close>, which goes through floating point; what is
  relied on is that an index below the size of the codebook fits it, \<open>width_fits\<close>.
\<close>

section \<open>Definitions\<close>

definition GAIN_BITS :: nat where "GAIN_BITS = 4"
definition MAX_STAGES :: nat where "MAX_STAGES = 4"

record stage =
  st_pulses :: nat
  st_index :: u64
  st_gain :: u8
  st_negative :: bool

definition stage_bits :: "(nat \<Rightarrow> nat \<Rightarrow> nat) \<Rightarrow> stage \<Rightarrow> nat \<Rightarrow> nat" where
  "stage_bits width st n = width n (st_pulses st) + GAIN_BITS + 1"

text \<open>\<^verbatim>\<open>plan\<close>, from stage \<open>i\<close> on with \<open>left\<close> bits left.\<close>

function plan_from :: "(u64 \<Rightarrow> nat \<Rightarrow> bool) \<Rightarrow> (nat \<Rightarrow> nat \<Rightarrow> nat) \<Rightarrow> nat \<Rightarrow> nat \<Rightarrow> nat \<Rightarrow> nat list" where
  "plan_from affordable width n i left =
     (if MAX_STAGES \<le> i \<or> left = 0 then []
      else let share = (if i + 1 = MAX_STAGES then left else left div 2);
               k = pulses_for affordable n (max share 1)
           in if k = 0 then []
              else let cost = width n k + GAIN_BITS + 1
                   in if left < cost then [] else k # plan_from affordable width n (i + 1) (left - cost))"
  by pat_completeness auto
termination
  by (relation "measure (\<lambda>(affordable, width, n, i, left). MAX_STAGES - i)") auto

declare plan_from.simps [simp del]

definition stage_plan :: "(u64 \<Rightarrow> nat \<Rightarrow> bool) \<Rightarrow> (nat \<Rightarrow> nat \<Rightarrow> nat) \<Rightarrow> nat \<Rightarrow> nat \<Rightarrow> nat list" where
  "stage_plan affordable width n budget = plan_from affordable width n 0 budget"

text \<open>The pulse counts \<^verbatim>\<open>encode\<close> really uses: clamped to codebooks that can be indexed, and none of them empty.\<close>

fun clamp_pulses :: "nat \<Rightarrow> nat \<Rightarrow> nat" where
  "clamp_pulses n 0 = 0"
| "clamp_pulses n (Suc k) = (if bits n (Suc k) = Infinite then clamp_pulses n k else Suc k)"

definition clamp_plan :: "nat \<Rightarrow> nat list \<Rightarrow> nat list" where
  "clamp_plan n ks = filter (\<lambda>k. 0 < k) (map (\<lambda>k. clamp_pulses n (min k MAX_K)) ks)"

definition write_stage :: "(nat \<Rightarrow> nat \<Rightarrow> nat) \<Rightarrow> encoder \<Rightarrow> nat \<Rightarrow> stage \<Rightarrow> encoder" where
  "write_stage width e n st =
     (let w = width n (st_pulses st);
          e = (if 32 < w
               then write_bits (write_bits e (ucast (drop_bit 32 (st_index st))) (w - 32)) (ucast (st_index st)) 32
               else write_bits e (ucast (st_index st)) w);
          e = write_bits e (ucast (st_gain st)) GAIN_BITS
      in write_bits e (if st_negative st then 1 else 0) 1)"

definition read_stage :: "(nat \<Rightarrow> nat \<Rightarrow> nat) \<Rightarrow> bytes \<Rightarrow> nat \<Rightarrow> nat \<Rightarrow> nat \<Rightarrow> stage \<times> nat" where
  "read_stage width bs p n pulses =
     (let w = width n pulses;
          (i, p) = (if 32 < w
                    then case read_bits bs p (w - 32) of (high, p) \<Rightarrow>
                         (case read_bits bs p 32 of (low, p) \<Rightarrow> (push_bit 32 (ucast high) OR ucast low, p))
                    else case read_bits bs p w of (v, p) \<Rightarrow> (ucast v, p));
          all = count n pulses;
          (gain, p) = read_bits bs p GAIN_BITS;
          (negative, p) = read_bits bs p 1
      in (\<lparr> st_pulses = pulses, st_index = (if 0 < all then i mod all else 0), st_gain = ucast gain, st_negative = (negative = 1) \<rparr>, p))"

section \<open>A stage is its fields\<close>

definition width_fits :: "(nat \<Rightarrow> nat \<Rightarrow> nat) \<Rightarrow> bool" where
  "width_fits width \<longleftrightarrow> (\<forall>n k. bits n k \<noteq> Infinite \<longrightarrow> width n k \<le> 64 \<and> unat (count n k) \<le> 2 ^ width n k)"

definition stage_fields :: "nat \<Rightarrow> stage \<Rightarrow> (u32 \<times> nat) list" where
  "stage_fields w st =
     (if 32 < w then [(ucast (drop_bit 32 (st_index st)), w - 32), (ucast (st_index st), 32)] else [(ucast (st_index st), w)]) @
     [(ucast (st_gain st), GAIN_BITS), (if st_negative st then 1 else 0, 1)]"

definition stage_ok :: "nat \<Rightarrow> stage \<Rightarrow> bool" where
  "stage_ok n st \<longleftrightarrow> bits n (st_pulses st) \<noteq> Infinite \<and> st_index st < count n (st_pulses st) \<and> unat (st_gain st) < 2 ^ GAIN_BITS"

lemma write_all_append: "write_all e (xs @ ys) = write_all (write_all e xs) ys"
  by (induction xs arbitrary: e) auto

lemma read_all_append:
  "read_all bs p (xs @ ys) = (case read_all bs p xs of (vs, q) \<Rightarrow> case read_all bs q ys of (us, q) \<Rightarrow> (vs @ us, q))"
  by (induction xs arbitrary: p) (auto split: prod.splits)

lemma write_stage_fields: "write_stage width e n st = write_all e (stage_fields (width n (st_pulses st)) st)"
  by (simp add: write_stage_def stage_fields_def Let_def)

lemma halves_join: "push_bit 32 (ucast (ucast (drop_bit 32 x) :: u32)) OR ucast (ucast x :: u32) = (x :: u64)"
  by (rule bit_word_eqI) (auto simp: bit_simps)

lemma narrow_field:
  fixes y :: "'a::len word"
  assumes "unat y < 2 ^ c" "c \<le> 32"
  shows "take_bit c (ucast y :: u32) = ucast y" "ucast (ucast y :: u32) = y"
proof -
  have "(2 :: nat) ^ c \<le> 2 ^ 32" using assms(2) by (intro power_increasing) auto
  then have y: "unat y < 2 ^ 32" using assms(1) by linarith
  then have u: "unat (ucast y :: u32) = unat y" by (simp add: unat_ucast)
  show "take_bit c (ucast y :: u32) = ucast y"
    by (rule unat_eqI) (simp only: unsigned_take_bit_eq u take_bit_nat_eq_self [OF assms(1)])
  show "ucast (ucast y :: u32) = y"
    using y unsigned_less [of y, where ?'a = nat] by (intro unat_eqI) (simp add: unat_ucast)
qed

lemma high_half:
  assumes "unat (x :: u64) < 2 ^ w" "32 < w"
  shows "take_bit (w - 32) (ucast (drop_bit 32 x) :: u32) = ucast (drop_bit 32 x)"
proof (cases "w \<le> 64")
  case True
  have "unat (drop_bit 32 x) = unat x div 2 ^ 32" by (simp only: unat_drop_bit_eq) (simp add: drop_bit_eq_div)
  also have "\<dots> < 2 ^ (w - 32)"
  proof (rule less_mult_imp_div_less)
    have "(2 :: nat) ^ w = 2 ^ (w - 32) * 2 ^ 32" 
      using assms(2) by (metis le_add_diff_inverse2 less_imp_le_nat power_add)
    then show "unat x < 2 ^ (w - 32) * 2 ^ 32" using assms(1) by simp
  qed
  finally show ?thesis using True by (intro narrow_field(1)) auto
next
  case False
  then show ?thesis by (intro take_bit_word_eq_self) simp
qed

lemma read_stage_fields:
  assumes "stage_ok n st" "width_fits width"
    and "read_all bs p (map snd (stage_fields (width n (st_pulses st)) st)) =
      (map (\<lambda>(v, c). take_bit c v) (stage_fields (width n (st_pulses st)) st), q)"
  shows "read_stage width bs p n (st_pulses st) = (st, q)"
proof -
  define w x where "w = width n (st_pulses st)" and "x = st_index st"
  have w: "unat (count n (st_pulses st)) \<le> 2 ^ w" and x: "x < count n (st_pulses st)" and g: "unat (st_gain st) < 2 ^ 4"
    using assms(1,2) by (auto simp: stage_ok_def width_fits_def w_def x_def GAIN_BITS_def)
  have small: "unat x < 2 ^ w" using x w by (simp add: word_less_nat_alt)
  have x_mod: "x mod count n (st_pulses st) = x"
    using x by (intro unat_eqI) (simp add: unat_mod_distrib word_less_nat_alt)
  have pos: "0 < count n (st_pulses st)" using x by (auto simp: word_less_nat_alt)
  note gain = narrow_field [OF g]
  define sign :: u32 where "sign = (if st_negative st then 1 else 0)"
  have sign: "take_bit 1 (if st_negative st then 1 else 0) = sign" and sign_1: "sign = 1 \<longleftrightarrow> st_negative st"
    by (simp_all add: sign_def)
  have whole: "st = \<lparr> st_pulses = st_pulses st, st_index = x, st_gain = st_gain st, st_negative = st_negative st \<rparr>"
    by (simp add: x_def)
  show ?thesis
  proof (cases "32 < w")
    case True
    have "map snd (stage_fields w st) = [w - 32, 32, 4, 1]"
      "map (\<lambda>(v, c). take_bit c v) (stage_fields w st) = [ucast (drop_bit 32 x), ucast x, ucast (st_gain st), sign]"
      using True high_half [OF small True] gain(1) sign
      by (simp_all add: stage_fields_def GAIN_BITS_def take_bit_word_eq_self flip: x_def)
    from assms(3) [folded w_def, unfolded this] obtain p1 p2 p3 where
      fields: "read_bits bs p (w - 32) = (ucast (drop_bit 32 x), p1)" "read_bits bs p1 32 = (ucast x, p2)"
      "read_bits bs p2 4 = (ucast (st_gain st), p3)" "read_bits bs p3 1 = (sign, q)"
      by (auto split: prod.splits)
    show ?thesis
      using True pos x_mod gain(2) halves_join [of x] whole
      by (simp add: read_stage_def Let_def fields fields [unfolded One_nat_def] GAIN_BITS_def sign_1 flip: w_def)
  next
    case False
    have "map snd (stage_fields w st) = [w, 4, 1]"
      "map (\<lambda>(v, c). take_bit c v) (stage_fields w st) = [ucast x, ucast (st_gain st), sign]"
      using False narrow_field(1) [OF small] gain(1) sign by (simp_all add: stage_fields_def GAIN_BITS_def flip: x_def)
    from assms(3) [folded w_def, unfolded this] obtain p1 p2 where
      fields: "read_bits bs p w = (ucast x, p1)" "read_bits bs p1 4 = (ucast (st_gain st), p2)" "read_bits bs p2 1 = (sign, q)"
      by (auto split: prod.splits)
    show ?thesis
      using False pos x_mod gain(2) narrow_field(2) [OF small] whole
      by (simp add: read_stage_def Let_def fields fields [unfolded One_nat_def] GAIN_BITS_def sign_1 flip: w_def)
  qed
qed

section \<open>The stages of a layer\<close>

fun write_stages :: "(nat \<Rightarrow> nat \<Rightarrow> nat) \<Rightarrow> encoder \<Rightarrow> (nat \<times> stage) list \<Rightarrow> encoder" where
  "write_stages width e [] = e"
| "write_stages width e ((n, st) # rest) = write_stages width (write_stage width e n st) rest"

fun read_stages :: "(nat \<Rightarrow> nat \<Rightarrow> nat) \<Rightarrow> bytes \<Rightarrow> nat \<Rightarrow> (nat \<times> nat) list \<Rightarrow> stage list" where
  "read_stages width bs p [] = []"
| "read_stages width bs p ((n, pulses) # rest) =
     (case read_stage width bs p n pulses of (st, p) \<Rightarrow> st # read_stages width bs p rest)"

definition layer_fields :: "(nat \<Rightarrow> nat \<Rightarrow> nat) \<Rightarrow> (nat \<times> stage) list \<Rightarrow> (u32 \<times> nat) list" where
  "layer_fields width sts = concat (map (\<lambda>(n, st). stage_fields (width n (st_pulses st)) st) sts)"

lemma write_stages_fields: "write_stages width e sts = write_all e (layer_fields width sts)"
  by (induction width e sts rule: write_stages.induct) (auto simp: layer_fields_def write_all_append write_stage_fields)

lemma read_all_length: "read_all bs p cs = (vs, q) \<Longrightarrow> length vs = length cs"
  by (induction cs arbitrary: p vs) (auto split: prod.splits)

lemma read_stages_fields:
  assumes "width_fits width"
  shows "list_all (\<lambda>(n, st). stage_ok n st) sts \<Longrightarrow>
    read_all bs p (map snd (layer_fields width sts)) = (map (\<lambda>(v, c). take_bit c v) (layer_fields width sts), q) \<Longrightarrow>
    read_stages width bs p (map (\<lambda>(n, st). (n, st_pulses st)) sts) = map snd sts"
proof (induction sts arbitrary: p)
  case (Cons x sts)
  obtain n st where x: "x = (n, st)" by (cases x)
  let ?f = "stage_fields (width n (st_pulses st)) st" and ?g = "layer_fields width sts"
  obtain vs p1 us where split: "read_all bs p (map snd ?f) = (vs, p1)" "read_all bs p1 (map snd ?g) = (us, q)"
    "vs @ us = map (\<lambda>(v, c). take_bit c v) ?f @ map (\<lambda>(v, c). take_bit c v) ?g"
    using Cons.prems(2) by (auto simp: x layer_fields_def read_all_append split: prod.splits)
  have "length vs = length ?f" using read_all_length [OF split(1)] by simp
  with split(3) have vals: "vs = map (\<lambda>(v, c). take_bit c v) ?f" "us = map (\<lambda>(v, c). take_bit c v) ?g" by simp_all
  have "read_stage width bs p n (st_pulses st) = (st, p1)"
    using Cons.prems(1) split(1) vals(1) by (intro read_stage_fields assms) (auto simp: x)
  moreover have "read_stages width bs p1 (map (\<lambda>(n, st). (n, st_pulses st)) sts) = map snd sts"
    using Cons.prems(1) split(2) vals(2) by (intro Cons.IH) auto
  ultimately show ?case by (simp add: x)
qed simp

lemma layer_fields_narrow:
  assumes "width_fits width" "list_all (\<lambda>(n, st). stage_ok n st) sts"
  shows "\<forall>(v, c)\<in>set (layer_fields width sts). c \<le> 32"
proof -
  have "width n (st_pulses st) \<le> 64" if "(n, st) \<in> set sts" for n st
    using that assms by (auto simp: list_all_iff stage_ok_def width_fits_def)
  then show ?thesis by (fastforce simp: layer_fields_def stage_fields_def GAIN_BITS_def split: if_splits)
qed

section \<open>Properties\<close>

text \<open>The stage that \<^verbatim>\<open>rvq::encode\<close> makes of a vector, its gain and its sign.\<close>

definition stage_of :: "i32 list \<times> u8 \<times> bool \<Rightarrow> stage" where
  "stage_of = (\<lambda>(y, gain, negative).
     \<lparr> st_pulses = sum_list (map unsigned_abs y), st_index = index y, st_gain = gain, st_negative = negative \<rparr>)"

definition shape_ok :: "i32 list \<times> u8 \<times> bool \<Rightarrow> bool" where
  "shape_ok = (\<lambda>(y, gain, negative). length y \<le> MAX_N \<and> sum_list (map unsigned_abs y) \<le> MAX_K \<and>
     bits (length y) (sum_list (map unsigned_abs y)) \<noteq> Infinite \<and> unat gain < 2 ^ GAIN_BITS)"

lemma shape_indexed:
  assumes "shape_ok (y, gain, negative)"
  shows "stage_ok (length y) (stage_of (y, gain, negative))"
    and "deindex (length y) (sum_list (map unsigned_abs y)) (index y) = y"
proof -
  let ?k = "sum_list (map unsigned_abs y)"
  have ad: "addressable (length y) ?k" using assms by (auto simp: shape_ok_def intro: indexable_addressable)
  have y: "y \<in> codebook (length y) ?k" by (simp add: codebook_def)
  show "stage_ok (length y) (stage_of (y, gain, negative))"
    using assms index_below [OF ad y] by (simp add: stage_ok_def stage_of_def shape_ok_def)
  show "deindex (length y) ?k (index y) = y" by (rule deindex_index [OF y ad])
qed

text \<open>A layer of quantised shapes survives the bits.  Whatever vectors are quantised, each with a gain and a sign,
  and however many bits their codebooks are given as long as every index fits, reading the packed stages with the
  same plan and undoing the index gives the same vectors, gains and signs in the same order.
\<close>

theorem shapes_survive_the_bits:
  assumes "width_fits width" "list_all shape_ok shapes"
  shows "map2 (\<lambda>n st. (deindex n (st_pulses st) (st_index st), st_gain st, st_negative st)) (map (length \<circ> fst) shapes)
     (read_stages width (finish_bits (write_stages width encoder_new (map (\<lambda>s. (length (fst s), stage_of s)) shapes))) 0
       (map (\<lambda>s. (length (fst s), st_pulses (stage_of s))) shapes)) = shapes"
proof -
  define sts where "sts = map (\<lambda>s. (length (fst s), stage_of s)) shapes"
  have ok: "list_all (\<lambda>(n, st). stage_ok n st) sts"
    using assms(2) shape_indexed(1) by (auto simp: sts_def list_all_iff)
  have "read_stages width (finish_bits (write_stages width encoder_new sts)) 0 (map (\<lambda>(n, st). (n, st_pulses st)) sts) = map snd sts"
    using read_all_packed(1) [OF layer_fields_narrow [OF assms(1) ok]]
    by (intro read_stages_fields [OF assms(1) ok]) (simp add: write_stages_fields)
  moreover have "map (\<lambda>(n, st). (n, st_pulses st)) sts = map (\<lambda>s. (length (fst s), st_pulses (stage_of s))) shapes"
    "map snd sts = map stage_of shapes" by (simp_all add: sts_def)
  moreover have "map2 (\<lambda>n st. (deindex n (st_pulses st) (st_index st), st_gain st, st_negative st)) (map (length \<circ> fst) shapes)
      (map stage_of shapes) = shapes"
    using assms(2) shape_indexed(2) by (induction shapes) (auto simp: stage_of_def)
  ultimately show ?thesis unfolding sts_def [symmetric] by (simp only:)
qed

lemma shapes_survive_the_bits_witness:
  fixes width :: "nat \<Rightarrow> nat \<Rightarrow> nat"
  defines "width \<equiv> \<lambda>n k. 64"
  shows "map2 (\<lambda>n st. (deindex n (st_pulses st) (st_index st), st_gain st, st_negative st)) [2]
     (read_stages width (finish_bits (write_stages width encoder_new [(2, stage_of ([0, - 1], 3, True))])) 0 [(2, 1)]) = [([0, - 1], 3, True)]"
proof -
  have fits: "width_fits width" using unsigned_less [where ?'a = nat] by (auto simp: width_fits_def width_def less_imp_le)
  have "V 2 1 = 4" by (simp add: numeral_2_eq_2)
  then have c: "count 2 1 = 4" by (simp add: count_eq MAX_N_def MAX_K_def sat64_def)
  have "(4 :: u64) < push_bit MAX_INDEX_BITS 1" by (simp add: MAX_INDEX_BITS_def)
  then have "bits 2 1 \<noteq> Infinite" unfolding unlimited_below c .
  moreover have small: "unat (3 :: u8) < 2 ^ GAIN_BITS" by (simp add: GAIN_BITS_def)
  ultimately have "list_all shape_ok [([0, - 1], 3, True)]"
    using small by (simp add: shape_ok_def unsigned_abs_def MAX_N_def MAX_K_def flip: numeral_2_eq_2)
  from shapes_survive_the_bits [OF fits this] show ?thesis by (simp add: stage_of_def unsigned_abs_def numeral_2_eq_2)
qed

lemma clamp_pulses_id: "bits n k \<noteq> Infinite \<Longrightarrow> clamp_pulses n k = k"
  by (cases k) auto

lemma clamp_plan_id: "\<forall>k\<in>set ks. 0 < k \<and> k \<le> MAX_K \<and> bits n k \<noteq> Infinite \<Longrightarrow> clamp_plan n ks = ks"
  by (induction ks) (auto simp: clamp_plan_def clamp_pulses_id min_def)

lemma plan_from_fits:
  assumes "n \<le> MAX_N"
  shows "sum_list (map (\<lambda>k. width n k + GAIN_BITS + 1) (plan_from affordable width n i left)) \<le> left \<and>
    length (plan_from affordable width n i left) \<le> MAX_STAGES - i \<and>
    (\<forall>k\<in>set (plan_from affordable width n i left). 0 < k \<and> k \<le> MAX_K \<and> bits n k \<noteq> Infinite)"
  using assms
proof (induction affordable width n i left rule: plan_from.induct)
  case (1 affordable width n i left)
  define k where "k = pulses_for affordable n (max (if i + 1 = MAX_STAGES then left else left div 2) 1)"
  note ok = pulses_for_ok [OF 1(2) k_def]
  have unfolded: "plan_from affordable width n i left = (if MAX_STAGES \<le> i \<or> left = 0 then [] else if k = 0 then []
      else if left < width n k + GAIN_BITS + 1 then [] else k # plan_from affordable width n (i + 1) (left - (width n k + GAIN_BITS + 1)))"
    by (subst plan_from.simps) (simp only: Let_def k_def [symmetric])
  show ?case
  proof (cases "MAX_STAGES \<le> i \<or> left = 0 \<or> k = 0 \<or> left < width n k + GAIN_BITS + 1")
    case True
    then have "plan_from affordable width n i left = []" by (auto simp: unfolded)
    then show ?thesis by simp
  next
    case False
    let ?left = "left - (width n k + GAIN_BITS + 1)"
    have "plan_from affordable width n i left = k # plan_from affordable width n (i + 1) ?left"
      using False by (simp add: unfolded)
    moreover have "sum_list (map (\<lambda>k. width n k + GAIN_BITS + 1) (plan_from affordable width n (i + 1) ?left)) \<le> ?left \<and>
        length (plan_from affordable width n (i + 1) ?left) \<le> MAX_STAGES - (i + 1) \<and>
        (\<forall>k\<in>set (plan_from affordable width n (i + 1) ?left). 0 < k \<and> k \<le> MAX_K \<and> bits n k \<noteq> Infinite)"
      using False 1(2) by (intro 1(1) [OF _ refl k_def]) auto
    ultimately show ?thesis using False ok(1,3) by auto
  qed
qed

text \<open>A plan never costs more than its budget.  The stages planned for a band together take no more bits than were
  asked for, there are at most \<^verbatim>\<open>MAX_STAGES\<close>, each has a codebook that can be indexed, and the guard in \<^verbatim>\<open>encode\<close> changes
  none of them, so the encoder and the decoder use the same plan.
\<close>

theorem stage_plan_fits:
  fixes affordable :: "u64 \<Rightarrow> nat \<Rightarrow> bool" and width :: "nat \<Rightarrow> nat \<Rightarrow> nat" and n budget :: nat
  assumes "n \<le> MAX_N"
  defines "ks \<equiv> stage_plan affordable width n budget"
  shows "sum_list (map (\<lambda>k. width n k + GAIN_BITS + 1) ks) \<le> budget \<and> length ks \<le> MAX_STAGES \<and>
    (\<forall>k\<in>set ks. 0 < k \<and> k \<le> MAX_K \<and> bits n k \<noteq> Infinite) \<and> clamp_plan n ks = ks"
  using plan_from_fits [OF assms(1), of width affordable 0 budget]
  by (auto simp: ks_def stage_plan_def intro!: clamp_plan_id)

lemma stage_plan_fits_witness:
  "length (stage_plan (\<lambda>c b. unat c \<le> 2 ^ b) (\<lambda>n k. 64) 8 200) \<le> MAX_STAGES"
  using stage_plan_fits [of 8 "\<lambda>n k. 64" "\<lambda>c b. unat c \<le> 2 ^ b" 200] by (simp add: MAX_N_def)

end
