(* ===== verification/Relay_Rooms.thy ===== *)
theory Relay_Rooms
  imports Forwarding
begin

text \<open>
  The rooms a relay holds, \<^verbatim>\<open>rotelyx-relay/src/room.rs\<close>: connections seated in rooms by their first datagram, and
  every later datagram handed to the others in the room.  A connection is a value of its own type; the hash maps are
  association lists with distinct keys, and each locked operation is one step.
\<close>

section \<open>Definitions\<close>

definition MAX_ROOMS :: nat where "MAX_ROOMS = 256"

record 'c relay_room =
  rr_forwarder :: forwarder
  rr_legs :: "(u8 \<times> 'c) list"

type_synonym 'c rooms = "(bytes \<times> 'c relay_room) list"

datatype rooms_error = TooManyRooms | SeatRefused u8 forward_error | RoomGone | NotRouted forward_error

definition relay_room_new :: "'c relay_room" where
  "relay_room_new = \<lparr> rr_forwarder = forwarder_new, rr_legs = [] \<rparr>"

definition rooms_join :: "'c rooms \<Rightarrow> join_msg \<Rightarrow> 'c \<Rightarrow> 'c rooms \<times> (rooms_error, unit) result" where
  "rooms_join rooms j conn =
     (if map_of rooms (room j) = None \<and> MAX_ROOMS \<le> length rooms then (rooms, Inl TooManyRooms)
      else
        let r = (case map_of rooms (room j) of Some r \<Rightarrow> r | None \<Rightarrow> relay_room_new)
        in case room_join (rr_forwarder r) (seat j) of
             (f, Inl e) \<Rightarrow> (AList.update (room j) (r\<lparr>rr_forwarder := f\<rparr>) rooms, Inl (SeatRefused (seat j) e))
           | (f, Inr _) \<Rightarrow>
               (AList.update (room j) (r\<lparr>rr_forwarder := f, rr_legs := AList.update (seat j) conn (rr_legs r)\<rparr>) rooms, Inr ()))"

definition rooms_leave :: "'c rooms \<Rightarrow> join_msg \<Rightarrow> 'c rooms" where
  "rooms_leave rooms j =
     (case map_of rooms (room j) of
        None \<Rightarrow> rooms
      | Some r \<Rightarrow>
          let legs = AList.delete (seat j) (rr_legs r)
          in if legs = [] then AList.delete (room j) rooms
             else AList.update (room j) (r\<lparr>rr_forwarder := fst (room_leave (rr_forwarder r) (seat j)), rr_legs := legs\<rparr>) rooms)"

definition rooms_route :: "'c rooms \<Rightarrow> join_msg \<Rightarrow> bytes \<Rightarrow> 'c rooms \<times> (rooms_error, routed \<times> 'c list) result" where
  "rooms_route rooms j datagram =
     (case map_of rooms (room j) of
        None \<Rightarrow> (rooms, Inl RoomGone)
      | Some r \<Rightarrow>
          (case route (rr_forwarder r) (seat j) datagram of
             (f, Inl e) \<Rightarrow> (AList.update (room j) (r\<lparr>rr_forwarder := f\<rparr>) rooms, Inl (NotRouted e))
           | (f, Inr routed) \<Rightarrow>
               (AList.update (room j) (r\<lparr>rr_forwarder := f\<rparr>) rooms,
                Inr (routed, List.map_filter (map_of (rr_legs r)) (to_whom routed)))))"

text \<open>
  \<^verbatim>\<open>participant\<close> and \<^verbatim>\<open>carry\<close>, one event at a time: a connection's first datagram, a later one, and its end.  A
  connection that is not seated has been closed, or never was.
\<close>

record 'c hall =
  hall_rooms :: "'c rooms"
  hall_seats :: "('c \<times> join_msg) list"

datatype 'c hall_event = First 'c bytes | Datagram 'c bytes | Closed 'c

fun hall_step :: "'c hall \<Rightarrow> 'c hall_event \<Rightarrow> 'c hall" where
  "hall_step h (First c d) =
     (case parse_join d of
        Inl _ \<Rightarrow> h
      | Inr j \<Rightarrow>
          if map_of (hall_seats h) c \<noteq> None then h
          else (case rooms_join (hall_rooms h) j c of
                  (rs, Inl _) \<Rightarrow> h\<lparr>hall_rooms := rs\<rparr>
                | (rs, Inr _) \<Rightarrow> h\<lparr>hall_rooms := rs, hall_seats := AList.update c j (hall_seats h)\<rparr>))"
| "hall_step h (Datagram c d) =
     (case map_of (hall_seats h) c of
        None \<Rightarrow> h
      | Some j \<Rightarrow> h\<lparr>hall_rooms := fst (rooms_route (hall_rooms h) j d)\<rparr>)"
| "hall_step h (Closed c) =
     (case map_of (hall_seats h) c of
        None \<Rightarrow> h
      | Some j \<Rightarrow> h\<lparr>hall_rooms := rooms_leave (hall_rooms h) j, hall_seats := AList.delete c (hall_seats h)\<rparr>)"

text \<open>The connections a datagram is put on.\<close>

definition delivered_to :: "'c hall \<Rightarrow> 'c \<Rightarrow> bytes \<Rightarrow> 'c list" where
  "delivered_to h c d =
     (case map_of (hall_seats h) c of
        None \<Rightarrow> []
      | Some j \<Rightarrow> (case rooms_route (hall_rooms h) j d of (_, Inl _) \<Rightarrow> [] | (_, Inr (_, legs)) \<Rightarrow> legs))"

definition hall_new :: "'c hall" where
  "hall_new = \<lparr> hall_rooms = [], hall_seats = [] \<rparr>"

section \<open>Seats and legs agree\<close>

definition room_ok :: "'c relay_room \<Rightarrow> bool" where
  "room_ok r \<longleftrightarrow> room_inv (rr_forwarder r) \<and> dom (map_of (seen (rr_forwarder r))) = dom (map_of (rr_legs r))"

definition leg :: "'c rooms \<Rightarrow> join_msg \<Rightarrow> 'c option" where
  "leg rooms j = (case map_of rooms (room j) of None \<Rightarrow> None | Some r \<Rightarrow> map_of (rr_legs r) (seat j))"

definition hall_ok :: "'c hall \<Rightarrow> bool" where
  "hall_ok h \<longleftrightarrow> (\<forall>k r. map_of (hall_rooms h) k = Some r \<longrightarrow> room_ok r) \<and>
     (\<forall>c j. map_of (hall_seats h) c = Some j \<longleftrightarrow> leg (hall_rooms h) j = Some c)"

lemma join_eqI: "room j = room k \<Longrightarrow> seat j = seat k \<Longrightarrow> j = (k :: join_msg)"
  by (cases j; cases k) simp

lemma room_join_Inr:
  "room_join f i = (f', Inr u) \<Longrightarrow> map_of (seen f) i = None \<and> seen f' = AList.update i 0 (seen f) \<and> (room_inv f \<longrightarrow> room_inv f')"
  using room_inv_join [of f i] by (auto simp: room_join_def split: if_splits)

lemma room_join_Inl: "room_join f i = (f', Inl e) \<Longrightarrow> f' = f"
  by (auto simp: room_join_def split: if_splits)

lemma room_ok_new: "room_ok relay_room_new"
  by (simp add: room_ok_def relay_room_new_def forwarder_new_def room_inv_def)

definition rooms_ok :: "'c rooms \<Rightarrow> bool" where
  "rooms_ok rooms \<longleftrightarrow> (\<forall>k r. map_of rooms k = Some r \<longrightarrow> room_ok r)"

lemma rooms_join_ok:
  assumes "rooms_ok rooms" "rooms_join rooms j c = (rooms', res)"
  shows "rooms_ok rooms' \<and> (case res of Inl _ \<Rightarrow> leg rooms' = leg rooms | Inr _ \<Rightarrow> leg rooms j = None \<and> leg rooms' = (leg rooms)(j \<mapsto> c))"
proof -
  define r where "r = (case map_of rooms (room j) of Some r \<Rightarrow> r | None \<Rightarrow> relay_room_new)"
  have r: "room_ok r" using assms(1) room_ok_new by (auto simp: r_def rooms_ok_def split: option.splits)
  have legr: "map_of (rr_legs r) s = leg rooms k" if "room k = room j" "seat k = s" for k s
    using that by (auto simp: leg_def r_def relay_room_new_def split: option.splits)
  show ?thesis
  proof (cases "map_of rooms (room j) = None \<and> MAX_ROOMS \<le> length rooms")
    case True
    then show ?thesis using assms by (auto simp: rooms_join_def)
  next
    case False
    obtain f q where f: "room_join (rr_forwarder r) (seat j) = (f, q)" by (cases "room_join (rr_forwarder r) (seat j)")
    show ?thesis
    proof (cases q)
      case (Inl e)
      then have "rooms' = AList.update (room j) r rooms" "res = Inl (SeatRefused (seat j) e)"
        using assms(2) False f room_join_Inl [of "rr_forwarder r" "seat j" f e] by (auto simp: rooms_join_def r_def [symmetric] Let_def)
      moreover have "leg (AList.update (room j) r rooms) = leg rooms"
        by (rule ext) (auto simp: leg_def update_conv' r_def relay_room_new_def split: option.splits)
      ultimately show ?thesis using assms(1) r by (auto simp: rooms_ok_def update_conv')
    next
      case (Inr u)
      note joined = room_join_Inr [OF f [unfolded Inr]]
      let ?r = "r\<lparr>rr_forwarder := f, rr_legs := AList.update (seat j) c (rr_legs r)\<rparr>"
      have upd: "rooms' = AList.update (room j) ?r rooms" "res = Inr ()"
        using assms(2) False f Inr by (auto simp: rooms_join_def r_def [symmetric] Let_def)
      have "room_ok ?r"
        using r joined by (auto simp: room_ok_def update_conv')
      moreover have "leg rooms j = None"
        using joined r legr [of j "seat j"] unfolding room_ok_def by (metis domIff)
      moreover have "leg rooms' k = ((leg rooms)(j \<mapsto> c)) k" for k
        using join_eqI [of k j] legr [of k "seat k"]
        by (auto simp: leg_def upd update_conv' split: option.splits)
      ultimately show ?thesis using assms(1) upd by (auto simp: rooms_ok_def update_conv')
    qed
  qed
qed

lemma rooms_leave_ok:
  assumes "rooms_ok rooms"
  shows "rooms_ok (rooms_leave rooms j) \<and> leg (rooms_leave rooms j) = (leg rooms)(j := None)"
proof (cases "map_of rooms (room j)")
  case None
  then show ?thesis using assms by (auto simp: rooms_leave_def leg_def)
next
  case (Some r)
  define legs where "legs = AList.delete (seat j) (rr_legs r)"
  have legs: "map_of legs = (map_of (rr_legs r))(seat j := None)" by (simp add: legs_def delete_conv')
  let ?r = "r\<lparr>rr_forwarder := fst (room_leave (rr_forwarder r) (seat j)), rr_legs := legs\<rparr>"
  have ok: "room_ok r" using assms Some by (simp add: rooms_ok_def)
  then have "room_ok ?r"
    using room_inv_leave [of "rr_forwarder r" "seat j"] by (auto simp: room_ok_def room_leave_def delete_conv' legs)
  moreover have "leg (rooms_leave rooms j) k = ((leg rooms)(j := None)) k" for k
  proof (cases "legs = []")
    case True
    then have "map_of (rr_legs r) s = None" if "s \<noteq> seat j" for s
      using legs that by (metis fun_upd_other map_of.simps(1))
    moreover have "k = j \<or> room k \<noteq> room j \<or> seat k \<noteq> seat j" using join_eqI by blast
    ultimately show ?thesis using True Some
      by (auto simp: rooms_leave_def Let_def leg_def delete_conv' simp flip: legs_def)
  next
    case False
    then show ?thesis using Some join_eqI [of k j] legs
      by (auto simp: rooms_leave_def Let_def leg_def update_conv' simp flip: legs_def)
  qed
  ultimately show ?thesis using assms Some
    by (auto simp: rooms_ok_def rooms_leave_def Let_def update_conv' delete_conv' simp flip: legs_def split: if_splits)
qed

lemma route_seats:
  assumes "room_inv f" "route f i d = (f', res)"
  shows "room_inv f' \<and> set (map fst (seen f')) = set (map fst (seen f)) \<and>
    (\<forall>q. res = Inr q \<longrightarrow> claimed_sender d = Inr i \<and> set (to_whom q) = fst ` set (seen f) - {i} \<and> distinct (to_whom q)) \<and>
    (claimed_sender d = Inr i \<longrightarrow> i \<in> fst ` set (seen f) \<longrightarrow> (\<exists>q. res = Inr q))"
proof -
  have "room_inv f'" using room_inv_route [OF assms(1), of i d] assms(2) by simp
  moreover have "distinct (map fst (seen f))" using assms(1) by (simp add: room_inv_def)
  moreover have "map_of (seen f) i \<noteq> None \<longleftrightarrow> i \<in> fst ` set (seen f)" by (simp add: map_of_eq_None_iff)
  ultimately show ?thesis
    using assms(2) keys_update_mem [of "seen f" i]
    by (auto simp: route_def claimed_sender_def Let_def result_simps simp flip: set_map split: sum.splits option.splits if_splits)
qed

lemma rooms_route_ok:
  assumes "rooms_ok rooms" "rooms_route rooms j d = (rooms', res)" "leg rooms j \<noteq> None"
  shows "rooms_ok rooms' \<and> leg rooms' = leg rooms \<and>
    (\<forall>q cs. res = Inr (q, cs) \<longrightarrow> claimed_sender d = Inr (seat j) \<and>
      set cs = {c. \<exists>k. room k = room j \<and> seat k \<noteq> seat j \<and> leg rooms k = Some c}) \<and>
    (claimed_sender d = Inr (seat j) \<longrightarrow> (\<exists>p. res = Inr p))"
proof -
  from assms(3) obtain r where r: "map_of rooms (room j) = Some r" "map_of (rr_legs r) (seat j) \<noteq> None"
    by (auto simp: leg_def split: option.splits)
  have ok: "room_inv (rr_forwarder r)" and doms: "dom (map_of (seen (rr_forwarder r))) = dom (map_of (rr_legs r))"
    using assms(1) r(1) by (auto simp: rooms_ok_def room_ok_def)
  obtain f q where f: "route (rr_forwarder r) (seat j) d = (f, q)" by (cases "route (rr_forwarder r) (seat j) d")
  note seats = route_seats [OF ok f]
  let ?r = "r\<lparr>rr_forwarder := f\<rparr>"
  have rooms': "rooms' = AList.update (room j) ?r rooms"
    and res: "res = (case q of Inl e \<Rightarrow> Inl (NotRouted e) | Inr q \<Rightarrow> Inr (q, List.map_filter (map_of (rr_legs r)) (to_whom q)))"
    using assms(2) r(1) f by (auto simp: rooms_route_def split: sum.splits)
  have "dom (map_of (seen f)) = dom (map_of (seen (rr_forwarder r)))"
    using seats by (simp add: dom_map_of_conv_image_fst)
  then have "room_ok ?r" using seats doms by (simp add: room_ok_def)
  then have "rooms_ok rooms'" using assms(1) by (auto simp: rooms_ok_def rooms' update_conv')
  moreover have "leg rooms' = leg rooms" by (rule ext) (auto simp: leg_def rooms' update_conv' r(1))
  moreover have "set (List.map_filter (map_of (rr_legs r)) (to_whom p)) = {c. \<exists>k. room k = room j \<and> seat k \<noteq> seat j \<and> leg rooms k = Some c}"
    if p: "q = Inr p" for p
  proof -
    have to: "set (to_whom p) = dom (map_of (rr_legs r)) - {seat j}"
      using seats p doms by (simp add: dom_map_of_conv_image_fst)
    have legs: "leg rooms k = map_of (rr_legs r) (seat k)" if "room k = room j" for k using that r(1) by (simp add: leg_def)
    have "c \<in> set (List.map_filter (map_of (rr_legs r)) (to_whom p)) \<longleftrightarrow>
        (\<exists>s. s \<noteq> seat j \<and> map_of (rr_legs r) s = Some c)" for c
      using to by (auto simp: List.map_filter_def image_iff)
    moreover have "(\<exists>s. s \<noteq> seat j \<and> map_of (rr_legs r) s = Some c) \<longleftrightarrow>
        (\<exists>k. room k = room j \<and> seat k \<noteq> seat j \<and> leg rooms k = Some c)" for c
      using legs by (metis join_msg.select_convs(1,2))
    ultimately show ?thesis by blast
  qed
  moreover have "claimed_sender d = Inr (seat j)" if "q = Inr p" for p using seats that by blast
  moreover have "\<exists>p. q = Inr p" if "claimed_sender d = Inr (seat j)"
    using seats that doms r(2) by (auto simp: dom_map_of_conv_image_fst [symmetric])
  ultimately show ?thesis by (auto simp: res split: sum.splits)
qed

text \<open>Every state a relay's rooms can be in.\<close>

lemma hall_ok_step: "hall_ok h \<Longrightarrow> hall_ok (hall_step h e)"
proof (cases e)
  case (First c d)
  assume ok: "hall_ok h"
  show ?thesis
  proof (cases "parse_join d")
    case (Inr j)
    obtain rs q where join: "rooms_join (hall_rooms h) j c = (rs, q)" by (cases "rooms_join (hall_rooms h) j c")
    have rooms: "rooms_ok (hall_rooms h)" using ok by (simp add: hall_ok_def rooms_ok_def)
    from rooms_join_ok [OF rooms join] show ?thesis
      using ok First Inr join by (cases q) (auto simp: hall_ok_def rooms_ok_def update_conv' split: if_splits)
  qed (use ok First in simp)
next
  case (Datagram c d)
  assume ok: "hall_ok h"
  show ?thesis
  proof (cases "map_of (hall_seats h) c")
    case (Some j)
    obtain rs q where route: "rooms_route (hall_rooms h) j d = (rs, q)" by (cases "rooms_route (hall_rooms h) j d")
    have stepped: "hall_step h e = h\<lparr>hall_rooms := rs\<rparr>" by (simp add: Datagram Some route)
    have "rooms_ok (hall_rooms h)" "leg (hall_rooms h) j \<noteq> None" using ok Some by (auto simp: hall_ok_def rooms_ok_def)
    from rooms_route_ok [OF this(1) route this(2)] show ?thesis
      using ok unfolding stepped by (simp add: hall_ok_def rooms_ok_def)
  qed (use ok Datagram in simp)
next
  case (Closed c)
  assume ok: "hall_ok h"
  then have rooms: "rooms_ok (hall_rooms h)" by (simp add: hall_ok_def rooms_ok_def)
  show ?thesis
  proof (cases "map_of (hall_seats h) c")
    case (Some j)
    have "map_of (hall_seats h) c' = Some j \<longleftrightarrow> c' = c" for c' using ok Some by (auto simp: hall_ok_def)
    moreover have "leg (hall_rooms h) k = Some c \<longleftrightarrow> k = j" for k
      using ok Some by (metis hall_ok_def option.inject)
    moreover have "hall_step h e = h\<lparr>hall_rooms := rooms_leave (hall_rooms h) j, hall_seats := AList.delete c (hall_seats h)\<rparr>"
      by (simp add: Closed Some)
    ultimately show ?thesis
      using ok rooms_leave_ok [OF rooms, of j] by (auto simp: hall_ok_def rooms_ok_def delete_conv')
  qed (use ok Closed in simp)
qed

lemma hall_ok_new: "hall_ok hall_new"
  by (simp add: hall_ok_def hall_new_def leg_def)

lemma hall_ok_run: "hall_ok h \<Longrightarrow> hall_ok (fold (\<lambda>e h. hall_step h e) es h)"
  by (induction es arbitrary: h) (simp_all add: hall_ok_step)

section \<open>Whom a datagram reaches\<close>

lemma delivered_from_seat:
  assumes "hall_ok h" "map_of (hall_seats h) c = Some j"
  shows "set (delivered_to h c d) =
    (if claimed_sender d = Inr (seat j)
     then {c'. \<exists>k. map_of (hall_seats h) c' = Some k \<and> room k = room j \<and> seat k \<noteq> seat j} else {})"
proof -
  obtain rs q where route: "rooms_route (hall_rooms h) j d = (rs, q)" by (cases "rooms_route (hall_rooms h) j d")
  have seats: "leg (hall_rooms h) k = Some c' \<longleftrightarrow> map_of (hall_seats h) c' = Some k" for k c'
    using assms(1) by (auto simp: hall_ok_def)
  have "rooms_ok (hall_rooms h)" "leg (hall_rooms h) j \<noteq> None"
    using assms by (auto simp: hall_ok_def rooms_ok_def)
  note routed = rooms_route_ok [OF this(1) route this(2)]
  have "delivered_to h c d = (case q of Inl _ \<Rightarrow> [] | Inr (_, legs) \<Rightarrow> legs)"
    by (simp add: delivered_to_def assms(2) route)
  then show ?thesis using routed
    by (cases q) (auto simp: seats)
qed

text \<open>C35: media stays in its room.  Whatever connections came, spoke and went before, a datagram on a seated connection
  reaches exactly the connections now seated in the same room at other seats when its header names the seat it was
  sent from, and nobody when it names another; a connection that was never seated reaches nobody.
\<close>

theorem room_media_stays_in_room:
  fixes es :: "'c hall_event list" and c :: 'c
  defines "h \<equiv> fold (\<lambda>e h. hall_step h e) es hall_new"
  shows "set (delivered_to h c d) =
    (case map_of (hall_seats h) c of
       None \<Rightarrow> {}
     | Some j \<Rightarrow> if claimed_sender d = Inr (seat j)
                then {c'. \<exists>k. map_of (hall_seats h) c' = Some k \<and> room k = room j \<and> seat k \<noteq> seat j} else {})"
proof (cases "map_of (hall_seats h) c")
  case None
  then show ?thesis by (simp add: delivered_to_def)
next
  case (Some j)
  have "hall_ok h" unfolding h_def by (rule hall_ok_run [OF hall_ok_new])
  from delivered_from_seat [OF this Some] show ?thesis by (simp add: Some)
qed

lemma room_media_stays_in_room_witness:
  "set (delivered_to (fold (\<lambda>e h. hall_step h e)
      [First 10 (join_datagram (replicate 32 0) 1), First 20 (join_datagram (replicate 32 0) 2),
       First 30 (join_datagram (replicate 32 1) 2)] hall_new) (10 :: nat) [1, 7, 9]) = {20}"
proof -
  define h :: "nat hall" where "h = fold (\<lambda>e h. hall_step h e)
      [First 10 (join_datagram (replicate 32 0) 1), First 20 (join_datagram (replicate 32 0) 2),
       First 30 (join_datagram (replicate 32 1) 2)] hall_new"
  have seats: "hall_seats h = [(10, \<lparr>room = replicate 32 0, seat = 1\<rparr>), (20, \<lparr>room = replicate 32 0, seat = 2\<rparr>),
      (30, \<lparr>room = replicate 32 1, seat = 2\<rparr>)]"
    unfolding h_def by code_simp
  then have ten: "map_of (hall_seats h) 10 = Some \<lparr>room = replicate 32 0, seat = 1\<rparr>" by simp
  have sent: "claimed_sender [1, 7, 9] = Inr 1" by code_simp
  have "set (delivered_to h 10 [1, 7, 9]) =
      {c'. \<exists>k. map_of (hall_seats h) c' = Some k \<and> room k = replicate 32 0 \<and> seat k \<noteq> 1}"
    using room_media_stays_in_room [of "[First 10 (join_datagram (replicate 32 0) 1), First 20 (join_datagram (replicate 32 0) 2),
       First 30 (join_datagram (replicate 32 1) 2)]" "10 :: nat" "[1, 7, 9]", folded h_def]
    by (simp add: ten sent)
  also have "\<dots> = {20}" by (auto simp: seats split: if_splits)
  finally show ?thesis unfolding h_def .
qed

section \<open>Rooms nobody is in\<close>

lemma refused_seat_makes_a_room:
  assumes "MAX_SENDERS \<le> unat s" "length k = ROOM_ID_LEN" "hall_seats h = []"
    and "map_of (hall_rooms h) k = None" "length (hall_rooms h) < MAX_ROOMS"
  shows "hall_step h (First c (join_datagram k s)) = h\<lparr>hall_rooms := hall_rooms h @ [(k, relay_room_new)]\<rparr>"
  using assms join_roundtrip [of "join_datagram k s" "\<lparr>room = k, seat = s\<rparr>"]
    map_of_eq_None_iff [of "hall_rooms h" k, THEN iffD1]
  by (simp add: rooms_join_def Let_def room_join_def update_new_key relay_room_new_def)

lemma refused_seats_make_rooms:
  assumes "MAX_SENDERS \<le> unat s" "distinct ids" "length ids \<le> MAX_ROOMS" "list_all (\<lambda>k. length k = ROOM_ID_LEN) ids"
  shows "fold (\<lambda>k h. hall_step h (First (conn k) (join_datagram k s))) ids hall_new =
    \<lparr> hall_rooms = map (\<lambda>k. (k, relay_room_new)) ids, hall_seats = [] \<rparr>"
  using assms(2-)
proof (induction ids rule: rev_induct)
  case Nil
  then show ?case by (simp add: hall_new_def)
next
  case (snoc k ids)
  then have "map_of (map (\<lambda>k. (k, relay_room_new)) ids) k = None" by (auto simp: map_of_eq_None_iff image_iff)
  then show ?case using snoc refused_seat_makes_a_room [OF assms(1), of k "\<lparr>hall_rooms = map (\<lambda>k. (k, relay_room_new)) ids, hall_seats = []\<rparr>" "conn k"]
    by (simp del: hall_step.simps)
qed

text \<open>A seat that is refused leaves its room behind.  The join datagram's seat is not checked before the room is
  made, and the room of a refused join is never removed: after \<^verbatim>\<open>MAX_ROOMS\<close> joins that each name a room of their
  own and a seat out of range, no connection is seated anywhere and every join of any other room is refused.
\<close>

theorem bad_seat_leaks_a_room:
  fixes conn :: "bytes \<Rightarrow> 'c"
  assumes "MAX_SENDERS \<le> unat s" "distinct ids" "length ids = MAX_ROOMS" "list_all (\<lambda>k. length k = ROOM_ID_LEN) ids"
  defines "h \<equiv> fold (\<lambda>k h. hall_step h (First (conn k) (join_datagram k s))) ids hall_new"
  shows "hall_seats h = [] \<and> length (hall_rooms h) = MAX_ROOMS \<and>
    (parse_join d = Inr j \<and> room j \<notin> set ids \<longrightarrow>
       rooms_join (hall_rooms h) j c = (hall_rooms h, Inl TooManyRooms) \<and> hall_step h (First c d) = h)"
proof -
  have h: "h = \<lparr> hall_rooms = map (\<lambda>k. (k, relay_room_new)) ids, hall_seats = [] \<rparr>"
    unfolding h_def using assms(3) by (intro refused_seats_make_rooms [OF assms(1,2) _ assms(4)]) simp
  have "rooms_join (hall_rooms h) j c = (hall_rooms h, Inl TooManyRooms)" if "room j \<notin> set ids"
  proof -
    have "map_of (hall_rooms h) (room j) = None" using that by (auto simp: h map_of_eq_None_iff image_iff)
    then show ?thesis using assms(3) by (simp add: rooms_join_def h)
  qed
  then show ?thesis using assms(3) by (auto simp: h)
qed

lemma bad_seat_leaks_a_room_witness:
  "hall_seats (fold (\<lambda>k h. hall_step h (First k (join_datagram k 255))) (map (be_bytes 32) [0..<256]) hall_new) = [] \<and>
   snd (rooms_join (hall_rooms (fold (\<lambda>k h. hall_step h (First k (join_datagram k 255))) (map (be_bytes 32) [0..<256]) hall_new))
     \<lparr>room = be_bytes 32 256, seat = 1\<rparr> []) = Inl TooManyRooms"
proof -
  have inj: "be_bytes 32 i = be_bytes 32 j \<Longrightarrow> i = j" if "i \<le> 256" "j \<le> 256" for i j
  proof -
    assume "be_bytes 32 i = be_bytes 32 j"
    then have "i mod 256 ^ 32 = j mod 256 ^ 32" by (metis of_be_be_bytes)
    then show "i = j" using that by simp
  qed
  have len: "list_all (\<lambda>k. length k = ROOM_ID_LEN) (map (be_bytes 32) [0..<256])"
    by (simp add: list_all_iff ROOM_ID_LEN_def)
  have dist: "distinct (map (be_bytes 32) [0..<256])" by (auto simp: distinct_map inj_on_def intro: inj)
  have "be_bytes 32 256 \<notin> set (map (be_bytes 32) [0..<256])" 
  proof
    assume "be_bytes 32 256 \<in> set (map (be_bytes 32) [0..<256])"
    then obtain i where "i < 256" "be_bytes 32 256 = be_bytes 32 i" unfolding set_map set_upt by (elim imageE) simp
    with inj [of 256 i] show False by linarith
  qed
  moreover have "parse_join (join_datagram (be_bytes 32 256) 1) = Inr \<lparr>room = be_bytes 32 256, seat = 1\<rparr>"
    by (simp add: join_roundtrip ROOM_ID_LEN_def)
  ultimately show ?thesis
    using bad_seat_leaks_a_room [OF _ dist _ len, of 255 id "join_datagram (be_bytes 32 256) 1" "\<lparr>room = be_bytes 32 256, seat = 1\<rparr>" "[]"]
    by (simp add: MAX_SENDERS_def MAX_ROOMS_def del: hall_step.simps)
qed

end
