(* ===== verification/Spec2Isabelle.thy ===== *)
theory Spec2Isabelle
  imports Rotelyx_Prelude Media_Session Group_Conversation Client_Mail Session_Keys Mailbox_Client Front_Proxy Mailbox_Service Wake_Registry Path_Selection Constellation Mailbox_Store Expiring_Slots Wake_Tickets Forwarding Wire_Frames
    Access_Control Hybrid_Wraps Circuit_Hops Sealed_Storage Jitter_Buffer Relay_Limits Mailbox_Limits
    Capabilities Bit_Packer Pulse_Codebook Layered_Frames Grouped_Frames Residual_Stages Range_Coder Front_Session Sealed_Tickets Media_Path Relay_Rooms
begin

text \<open>
  Rotelyx is a messenger and voice system without a central account: an identity is a key, strangers are let in by
  a gate, messages wait at a mailbox server that cannot read them, and calls travel through relays that cannot
  either.  This development models the parts of it that decide something, one theory for each part, and proves what
  each promises.  Each definition follows one Rust item and keeps its name where that is possible; a method is a
  function from the state to the new state and the value, an error is the left side of a \<^verbatim>\<open>result\<close>, an
  integer is a word of its width where its bits or its wrap-around matter, and a panic is \<^verbatim>\<open>None\<close>.

  \<^bold>\<open>Parts and how they interact.\<close>  Under \<^verbatim>\<open>crates/\<close>:

    \<^item> Media.  A call's frames are sealed by \<^verbatim>\<open>Sender\<close> and opened by \<^verbatim>\<open>Receiver\<close> (\<^verbatim>\<open>rotelyx-media/src/lib.rs\<close>; theories
      Media_Frame, Replay_Window, Media_Session), travel through a room of a relay (\<^verbatim>\<open>forward.rs\<close>; Forwarding), wait in
      the receiver's jitter buffer (\<^verbatim>\<open>jitter.rs\<close>; Jitter_Buffer) and carry codec parameters packed bit by bit
      (\<^verbatim>\<open>rotelyx-codec/src/rangecoder.rs\<close>; Bit_Packer) or coded against adaptive models (\<^verbatim>\<open>entropy.rs\<close>;
      Range_Coder).  A codec frame has a base layer and refinements (\<^verbatim>\<open>layered.rs\<close>; Layered_Frames), its band shapes are
      vectors of a codebook that is never stored (\<^verbatim>\<open>pvq.rs\<close>; Pulse_Codebook), packed stage by stage (\<^verbatim>\<open>rvq.rs\<close>;
      Residual_Stages), and the levels of ten frames share one stream (\<^verbatim>\<open>grouped.rs\<close>; Grouped_Frames).  The two ends of a call put the sender, the receiver and the jitter buffer together, keep a
      history to resend from and refuse a path that would show an address (\<^verbatim>\<open>transport.rs\<close>, \<^verbatim>\<open>rotelyx-path\<close>; Media_Path);
      the network layer picks the path by the same policy (\<^verbatim>\<open>rotelyx-net/src/path.rs\<close>; Path_Selection).
    \<^item> Mailbox.  A message is padded and sealed into an envelope under a rotating tag
      (\<^verbatim>\<open>rotelyx-mailbox/src/envelope.rs\<close>; Envelopes) and held by the store until it is acknowledged
      (\<^verbatim>\<open>store.rs\<close>; Mailbox_Store); the server wakes the devices that left a ticket under the tag
      (\<^verbatim>\<open>rotelyx-mailbox-server/src/tickets.rs\<close>; Wake_Tickets), wakes every registered
      device on a schedule (\<^verbatim>\<open>wake.rs\<close>; Wake_Registry), limits connections (\<^verbatim>\<open>limits.rs\<close>; Mailbox_Limits) and charges
      capability tokens (\<^verbatim>\<open>rotelyx-capability\<close>; Capabilities).  The server itself is every request of its protocol, the
      loop that serves one connection and the world of all connections over one store (\<^verbatim>\<open>main.rs\<close>; Hex_Tags,
      Mailbox_Session, Mailbox_Service).  Phones may reach it through a front, which carries their sealed sessions over a
      few connections (\<^verbatim>\<open>front.rs\<close>; Front_Proxy), each of which the server takes apart again (\<^verbatim>\<open>run_front\<close> of \<^verbatim>\<open>main.rs\<close>;
      Front_Demux).  Where a tag lives when there are several servers is a
      rendezvous hash over the published directory (\<^verbatim>\<open>rotelyx-directory\<close>; Constellation).
    \<^item> Access.  A caller presents evidence to the gate over length-prefixed frames
      (\<^verbatim>\<open>rotelyx-core/src/access.rs\<close>, \<^verbatim>\<open>wire.rs\<close>; Access_Control, Wire_Frames).
    \<^item> Groups.  A conversation numbers its messages, refuses a member added on one authority, and decides between two
      commits made at once (\<^verbatim>\<open>rotelyx-crypto/src/group.rs\<close>; Group_Sequence, Group_Conversation).
    \<^item> Clients.  Two people who share nothing yet meet under a code (\<^verbatim>\<open>rotelyx-wasm/src/lib.rs\<close>; Meeting_Codes).  A
      client's session puts a group conversation, the keys its mailbox tags are derived from and the post-quantum secrets
      together (Client_Session), seals and opens mail for the group (Client_Mail) and is put away under a key from a
      passphrase or the platform (Session_Keys).  What it leaves and fetches goes over one connection or over a constellation
      of them (\<^verbatim>\<open>rotelyx-mailbox-client/src/lib.rs\<close>; Mailbox_Client).
    \<^item> Keys.  Group secrets are wrapped for a member (\<^verbatim>\<open>rotelyx-crypto/src/hybrid.rs\<close>; Hybrid_Wraps), routes through two
      relays are sealed (\<^verbatim>\<open>circuit.rs\<close>; Circuit_Hops), sessions through a front are sealed from end to end
      (\<^verbatim>\<open>front.rs\<close>; Front_Session), wake tickets are sealed to the notifier (\<^verbatim>\<open>wake_ticket.rs\<close>; Sealed_Tickets), and an identity and its state are sealed on disk
      (\<^verbatim>\<open>rotelyx-core/src/sealed.rs\<close>, \<^verbatim>\<open>backup.rs\<close>; Sealed_Storage).
    \<^item> Relay.  Connections are limited for each identity and in total (\<^verbatim>\<open>rotelyx-relay/src/limits.rs\<close>; Relay_Limits), and
      seated in rooms, whose routing is that of Forwarding (\<^verbatim>\<open>room.rs\<close>; Relay_Rooms).

  \<^bold>\<open>Interfaces.\<close>  Where several parts keep one contract it is a locale, interpreted on the model of each part:
  \<^verbatim>\<open>replay_filter\<close> (Replay_Filter; interpreted for the media receiver, the nonces of a sender, the sequence numbers of a
  group member and whole conversations), extended by \<^verbatim>\<open>in_order_filter\<close>
  (Jitter_Buffer); \<^verbatim>\<open>expiring_store\<close> (Expiring_Slots: the mailbox and the tickets); \<^verbatim>\<open>framing\<close> (Wire_Frames: what can be
  read back from a stream); \<^verbatim>\<open>admission_gate\<close> (Admission_Gate: the connection counts of relay and mailbox server);
  \<^verbatim>\<open>session_keeps\<close> (Client_Session: what every method of a session keeps; interpreted for the window of tag keys and
  for the staged secrets).

  \<^bold>\<open>What the lemmas show.\<close>  For every part: what each operation does on every branch, the invariant its operations
  keep over any history, and round trips of every format.  On top of them stand the properties, each introduced by
  a text that begins with its number.

  \<^bold>\<open>Parameters.\<close>  Code that is not in the repository is an argument of the definitions that use it: the hash and key
  derivation functions, the authenticated ciphers, the key encapsulation, Ed25519 and RSA, base64 and Argon2,
  the MLS library (the records \<^verbatim>\<open>mls\<close> and \<^verbatim>\<open>client_lib\<close> of the calls that are made to it), and the randomness drawn.  The properties name what they need of it: \<^verbatim>\<open>aead_opens\<close> (what was sealed opens),
  \<^verbatim>\<open>aead_grows\<close> (the tag has sixteen bytes), \<^verbatim>\<open>aead_binds\<close> (nothing else opens, an idealisation of
  authenticity), \<^verbatim>\<open>aead_commits\<close> (a sealed text opens under one key, nonce and associated data only), \<^verbatim>\<open>mac_binds\<close> (a keyed hash identifies its key and message, an idealisation of
  unforgeability), \<^verbatim>\<open>epochs_advance\<close> (no call takes a group back to an earlier epoch), \<^verbatim>\<open>framing_is_content\<close> (a message
  framed as a commit is processed as one and no other is).  Each witness instantiates them by concrete functions.  The floating-point arithmetic of the
  token buckets and of the jitter estimate is a parameter too: what is proved there holds for every such arithmetic.

  \<^bold>\<open>Termination and fuel.\<close>  No definition uses fuel.  The search for a proof of work and the renormalisation
  loops of the range coder are partial functions whose value is \<^verbatim>\<open>None\<close> when they do not end: a property says exactly
  when the search ends, and that every encoding and decoding returns.  The loops that trim the history of a call, scan a
  codebook, plan stages and drop empty layers have measures.

  \<^bold>\<open>Not modelled.\<close>  The asynchronous transport, HTTP and WebSocket handling, device and user
  interface code, floating-point signal processing and the vendored network crates: they decide nothing of the
  above or are not expressible without the libraries they call.  Of a client, the confirmation of its devices, its
  requests for capability tokens and the functions that only hand their arguments to another crate.  The loop of a
  meeting (\<^verbatim>\<open>rotelyx-meeting\<close>) drives these parts over a socket and is not modelled; the vault of the mailbox server is a
  cipher and a file.  Time is an argument, hash maps are association
  lists with distinct keys, and a mutex-protected operation is atomic.
\<close>

end
